(* ===== verification/Asco_Prelude.thy ===== *)
theory Asco_Prelude
  imports Main "HOL-Library.Word"
begin

text \<open>
  Shared vocabulary of the development: the machine types of the C++ code, panics as
  values, executions of a component as lists of atomic actions, and the generic lemmas
  on lists, words and executions that the component theories use.
\<close>

unbundle bit_operations_syntax

section \<open>Machine types and results\<close>

type_synonym byte = "8 word"
type_synonym u32 = "32 word"
type_synonym u64 = "64 word"

text \<open>
  \<open>asco::panic\<close> and a failed \<open>asco_assert\<close> do not return: an operation that can panic
  returns \<open>Inl\<close> of the reason. The constructors name the kinds of panic of the library
  (the message text of the source is Chinese prose and not modelled).
\<close>

datatype panic =
    Assertion_failed
  | Destroyed_while_locked
  | Null_guard_dereferenced
  | Blocking_call_in_task
  | Missing_entry
  | Already_bound
  | Not_bound
  | Not_in_runtime
  | Invalid_handle
  | Os_failure

type_synonym 'a outcome = "panic + 'a"

named_theorems asco_inv \<open>preservation facts of the components' invariants\<close>

section \<open>Executions\<close>

text \<open>
  A component with shared state is given by a function that performs one atomic action:
  \<open>step a s\<close> is \<open>None\<close> when action \<open>a\<close> is not enabled in \<open>s\<close>. An interleaving of several
  threads is a list of actions (each action names its thread).
\<close>

fun run :: "('a \<Rightarrow> 's \<Rightarrow> 's option) \<Rightarrow> 'a list \<Rightarrow> 's \<Rightarrow> 's option" where
  "run step [] s = Some s"
| "run step (a # as) s = (case step a s of None \<Rightarrow> None | Some s' \<Rightarrow> run step as s')"

lemma run_append:
  "run step (as @ bs) s = (case run step as s of None \<Rightarrow> None | Some s' \<Rightarrow> run step bs s')"
  by (induction as arbitrary: s) (auto split: option.splits)

lemma run_trans:
  "run step as s = Some t \<Longrightarrow> run step bs t = Some u \<Longrightarrow> run step (as @ bs) s = Some u"
  by (simp add: run_append)

lemma run_cong:
  "(\<And>a. a \<in> set as \<Longrightarrow> f a = g a) \<Longrightarrow> run f as s = run g as s"
  by (induction as arbitrary: s) (auto split: option.splits)

locale invariant_system =
  fixes step :: "'a \<Rightarrow> 's \<Rightarrow> 's option"
    and inv :: "'s \<Rightarrow> bool"
  assumes step_inv: "inv s \<Longrightarrow> step a s = Some s' \<Longrightarrow> inv s'"
begin

lemma run_inv: "inv s \<Longrightarrow> run step as s = Some s' \<Longrightarrow> inv s'"
  by (induction as arbitrary: s) (auto split: option.splits dest: step_inv)

end

text \<open>
  A system that refines a specification: \<open>ops a s\<close> are the operations of the specification that action \<open>a\<close> performs in \<open>s\<close> (mostly
  none, and one at the point where an operation takes effect), \<open>abs\<close> is the state of the specification.
\<close>

fun trace :: "('a \<Rightarrow> 's \<Rightarrow> 's option) \<Rightarrow> ('a \<Rightarrow> 's \<Rightarrow> 'o list) \<Rightarrow> 'a list \<Rightarrow> 's \<Rightarrow> 'o list" where
  "trace step ops [] s = []"
| "trace step ops (a # as) s = (case step a s of None \<Rightarrow> [] | Some s' \<Rightarrow> ops a s @ trace step ops as s')"

locale refining_system = invariant_system step inv
  for step :: "'a \<Rightarrow> 's \<Rightarrow> 's option" and inv :: "'s \<Rightarrow> bool" +
  fixes spec :: "'o \<Rightarrow> 't \<Rightarrow> 't option" and ops :: "'a \<Rightarrow> 's \<Rightarrow> 'o list" and abs :: "'s \<Rightarrow> 't"
  assumes step_refines: "inv s \<Longrightarrow> step a s = Some s' \<Longrightarrow> run spec (ops a s) (abs s) = Some (abs s')"
begin

lemma run_refines:
  "inv s \<Longrightarrow> run step as s = Some s' \<Longrightarrow> run spec (trace step ops as s) (abs s) = Some (abs s')"
proof (induction as arbitrary: s)
  case Nil
  then show ?case by simp
next
  case (Cons a as)
  then obtain t where t: "step a s = Some t" "run step as t = Some s'"
    by (auto split: option.splits)
  with Cons.prems step_inv have "inv t" by blast
  with run_trans [OF step_refines [OF Cons.prems(1) t(1)] Cons.IH [OF _ t(2)]] t(1) show ?case by simp
qed

end

text \<open>
  The same for invariants that hold as long as a counter of the code has not overflowed:
  \<open>inv n\<close> is what holds after at most \<open>n\<close> actions.
\<close>

locale bounded_invariant_system =
  fixes step :: "'a \<Rightarrow> 's \<Rightarrow> 's option"
    and inv :: "nat \<Rightarrow> 's \<Rightarrow> bool"
    and bound :: nat
  assumes step_inv: "inv n s \<Longrightarrow> n < bound \<Longrightarrow> step a s = Some s' \<Longrightarrow> inv (Suc n) s'"
begin

lemma run_inv:
  "inv n s \<Longrightarrow> n + length as \<le> bound \<Longrightarrow> run step as s = Some s' \<Longrightarrow> inv (n + length as) s'"
proof (induction as arbitrary: n s)
  case Nil
  then show ?case by simp
next
  case (Cons a as)
  then obtain t where "step a s = Some t" "run step as t = Some s'"
    by (auto split: option.splits)
  with Cons.prems step_inv have "inv (Suc n) t" by simp
  with Cons.IH [of "Suc n" t] Cons.prems \<open>run step as t = Some s'\<close> show ?case by simp
qed

end

text \<open>A system whose invariant bounds the number of holders of a resource by one.\<close>

locale exclusive_system = invariant_system step inv
  for step :: "'a \<Rightarrow> 's \<Rightarrow> 's option" and inv :: "'s \<Rightarrow> bool" +
  fixes holders :: "'s \<Rightarrow> nat"
  assumes inv_exclusive: "inv s \<Longrightarrow> holders s \<le> 1"
begin

lemma mutual_exclusion: "inv s \<Longrightarrow> run step as s = Some s' \<Longrightarrow> holders s' \<le> 1"
  using run_inv inv_exclusive by blast

end

section \<open>Lists and counting\<close>

abbreviation count_if :: "('a \<Rightarrow> bool) \<Rightarrow> 'a list \<Rightarrow> nat" where
  "count_if P xs \<equiv> length (filter P xs)"

lemma count_if_update:
  "i < length xs \<Longrightarrow>
     int (count_if P (xs[i := x])) =
       int (count_if P xs) - of_bool (P (xs ! i)) + of_bool (P x)"
proof (induction xs arbitrary: i)
  case Nil
  then show ?case by simp
next
  case (Cons a xs)
  show ?case
  proof (cases i)
    case 0
    then show ?thesis by simp
  next
    case (Suc j)
    with Cons.prems Cons.IH [of j] show ?thesis by simp
  qed
qed

lemma count_if_pos: "i < length xs \<Longrightarrow> P (xs ! i) \<Longrightarrow> 0 < count_if P xs"
  by (auto simp: filter_empty_conv dest: nth_mem)

lemma count_if_two:
  assumes "i < length xs" "j < length xs" "i \<noteq> j" "P (xs ! i)" "P (xs ! j)"
  shows "2 \<le> count_if P xs"
proof -
  have "card {i, j} \<le> card {k. k < length xs \<and> P (xs ! k)}"
    using assms by (intro card_mono) auto
  with assms show ?thesis
    by (simp add: length_filter_conv_card)
qed

lemma count_if_le_length: "count_if P xs \<le> length xs"
  by (rule length_filter_le)

lemma sum_update:
  "t < length xs \<Longrightarrow>
     sum_list (map f (xs[t := x])) + f (xs ! t) = sum_list (map f xs) + (f x :: 'b::comm_monoid_add)"
  by (induction xs arbitrary: t) (auto split: nat.splits simp: nth_Cons' ac_simps)

lemma replicate_two [simp]: "replicate 2 x = [x, x]"
  by (simp add: numeral_2_eq_2)

section \<open>Words\<close>

lemma mask_off_zero:
  fixes x m :: "'w::len word"
  assumes "x AND m = 0"
  shows "x AND NOT m = x"
proof (rule bit_word_eqI)
  fix i
  assume "i < LENGTH('w)"
  from assms have "\<not> bit (x AND m) i" by simp
  then show "bit (x AND NOT m) i = bit x i"
    using \<open>i < LENGTH('w)\<close> by (auto simp: bit_simps)
qed

lemma odd_factor_cancel:
  fixes x :: "'w::len word"
  assumes "c * d = 1"
  shows "x * c * d = x"
  using assms by (simp add: mult.assoc)

lemma xor_shift_self:
  fixes x :: "'w::len word"
  assumes "LENGTH('w) \<le> n + n"
  shows "(x XOR drop_bit n x) XOR drop_bit n (x XOR drop_bit n x) = x"
proof (rule bit_word_eqI)
  fix i
  assume "i < LENGTH('w)"
  have "\<not> bit x (n + (n + i))"
    using assms by (auto dest: bit_imp_le_length)
  then show "bit ((x XOR drop_bit n x) XOR drop_bit n (x XOR drop_bit n x)) i = bit x i"
    by (auto simp: bit_simps add.assoc)
qed

lemma rotl_inject [simp]:
  fixes x y :: "'w::len word"
  shows "word_rotl n x = word_rotl n y \<longleftrightarrow> x = y"
  by (metis word_rot_gal)

lemma xor_right_inject [simp]:
  fixes x y z :: "'w::len word"
  shows "x XOR z = y XOR z \<longleftrightarrow> x = y"
  by (metis xor.assoc xor.right_neutral xor_self_eq)

lemma xor_left_inject [simp]:
  fixes x y z :: "'w::len word"
  shows "z XOR x = z XOR y \<longleftrightarrow> x = y"
  by (metis xor.commute xor_right_inject)

lemma bit_iff_odd_unat:
  fixes x :: u64
  shows "k < 64 \<Longrightarrow> bit x k \<longleftrightarrow> odd (unat x div 2 ^ k)"
  by (simp add: bit_unsigned_iff flip: bit_iff_odd)

lemma unat_two_power:
  assumes "k < 64"
  shows "unat (2 ^ k :: u64) = 2 ^ k"
proof -
  have "(2 :: nat) ^ k < 2 ^ 64"
    using assms by (intro power_strict_increasing) simp_all
  then show ?thesis
    using unat_of_nat [of "2 ^ k", where 'a = 64] by simp
qed

lemma unat_or_bit:
  fixes x :: u64
  assumes "k < 64"
  shows "unat (x OR 2 ^ k) = unat x + (if bit x k then 0 else 2 ^ k)"
proof (cases "bit x k")
  case True
  then have "x OR 2 ^ k = x"
    by (intro bit_word_eqI) (auto simp: bit_or_iff bit_exp_iff)
  with True show ?thesis by simp
next
  case False
  have "x AND 2 ^ k = 0"
    using False by (intro bit_word_eqI) (auto simp: bit_and_iff bit_exp_iff)
  then have "x + 2 ^ k = x OR 2 ^ k"
    by (rule disjunctive_add_eq_or)
  moreover have "unat x AND unat (2 ^ k :: u64) = 0"
    using \<open>x AND 2 ^ k = 0\<close> by (metis unsigned_and_eq unsigned_0)
  then have "unat x + unat (2 ^ k :: u64) = unat x OR unat (2 ^ k :: u64)"
    by (rule disjunctive_add_eq_or)
  moreover have "unat (x OR 2 ^ k) = unat x OR unat (2 ^ k :: u64)"
    by (rule unsigned_or_eq)
  moreover have "unat (2 ^ k :: u64) = 2 ^ k"
    using unat_two_power [OF assms] .
  ultimately show ?thesis
    using False by simp
qed

lemma unat_add_one: "unat x + 1 < 2 ^ 64 \<Longrightarrow> unat (x + 1 :: u64) = unat x + 1"
  by (simp add: unat_word_ariths)

lemma unat_sub_one: "0 < unat x \<Longrightarrow> unat (x - 1 :: u64) = unat x - 1"
  by (metis unat_minus_one unat_gt_0)

lemma clear_top_two:
  fixes x :: u64
  assumes "k = 62"
  shows "x AND NOT (2 ^ Suc k OR 2 ^ k) = take_bit k x"
proof (rule bit_word_eqI)
  fix i
  assume "i < LENGTH(64)"
  with assms have "i = Suc k \<or> i = k \<or> i < k" and "Suc k < 64" and "i < 64" by auto
  then show "bit (x AND NOT (2 ^ Suc k OR 2 ^ k)) i = bit (take_bit k x) i"
    by (auto simp: bit_simps bit_exp_iff simp del: power_Suc)
qed

end
