(* ===== verification/Murmur.thy ===== *)
theory Murmur
  imports Asco_Prelude
begin

text \<open>
  \<open>asco/util/murmur.h\<close>: the 64-bit finaliser \<open>mix64\<close>, the little-endian packing
  \<open>concat64le\<close> and the 128-bit string hash \<open>hash_str\<close> that \<open>type_id\<close> is built on.
  Strings are lists of bytes, \<open>std::uint64_t\<close> is \<open>u64\<close>.
\<close>

section \<open>Definitions\<close>

type_synonym hash_val = "u64 \<times> u64"

definition mix64 :: "u64 \<Rightarrow> u64" where
  "mix64 x =
     (let x = x XOR drop_bit 33 x;
          x = x * 0xff51afd7ed558ccd;
          x = x XOR drop_bit 33 x;
          x = x * 0xc4ceb9fe1a85ec53;
          x = x XOR drop_bit 33 x
      in x)"

text \<open>The loop \<open>for (i = 0; i < nbytes; ++i) result |= uint64(source[i]) << (i * 8)\<close>.\<close>

fun concat64le_loop :: "byte list \<Rightarrow> nat \<Rightarrow> u64 \<Rightarrow> u64" where
  "concat64le_loop [] i result = result"
| "concat64le_loop (c # cs) i result =
     concat64le_loop cs (Suc i) (result OR push_bit (i * 8) (ucast c))"

definition concat64le :: "byte list \<Rightarrow> nat \<Rightarrow> u64" where
  "concat64le source nbytes = concat64le_loop (take nbytes source) 0 0"

definition hash_c1 :: u64 where "hash_c1 = 0x87c37b91114253d5"
definition hash_c2 :: u64 where "hash_c2 = 0x4cf5ad432745937f"

text \<open>One iteration of the loop of \<open>hash_str\<close>, from the packed words \<open>k1\<close>, \<open>k2\<close>.\<close>

definition hash_round :: "u64 \<Rightarrow> u64 \<Rightarrow> hash_val \<Rightarrow> hash_val" where
  "hash_round k1 k2 h =
     (let (h1, h2) = h;
          k1 = k1 * hash_c1;
          k2 = k2 * hash_c2;
          k1 = word_rotl 31 k1;
          k2 = word_rotl 33 k2;
          k1 = k1 * hash_c2;
          k2 = k2 * hash_c1;
          h1 = h1 XOR k1;
          h2 = h2 XOR k2;
          h1 = word_rotl 27 h1;
          h2 = word_rotl 31 h2;
          h1 = h1 + h2;
          h2 = h2 + h1;
          h1 = h1 * 5 + 0x52dce729;
          h2 = h2 * 5 + 0x38495ab5
      in (h1, h2))"

text \<open>
  The loop over the 16-byte blocks; \<open>str\<close> is what is left of the string, so
  \<open>len - i\<close> of the source is its length.
\<close>

function hash_loop :: "byte list \<Rightarrow> hash_val \<Rightarrow> hash_val" where
  "hash_loop str h =
     (if str = [] then h
      else
        let k1 = concat64le str (min 8 (length str));
            k2 = (if 8 < length str
                  then concat64le (drop 8 str) (min 8 (length str - 8)) else 0)
        in hash_loop (drop 16 str) (hash_round k1 k2 h))"
  by pat_completeness auto
termination by (relation "measure (\<lambda>(str, h). length str)") auto

declare hash_loop.simps [simp del]

definition hash_final :: "u64 \<Rightarrow> hash_val \<Rightarrow> hash_val" where
  "hash_final len h =
     (let (h1, h2) = h;
          h1 = h1 XOR len;
          h2 = h2 XOR len;
          h1 = h1 + h2;
          h2 = h2 + h1;
          h1 = mix64 h1;
          h2 = mix64 h2;
          h1 = h1 + h2;
          h2 = h2 + h1
      in (h1, h2))"

definition hash_str :: "byte list \<Rightarrow> hash_val" where
  "hash_str str = hash_final (of_nat (length str)) (hash_loop str (0, 0))"

section \<open>The finaliser is a bijection\<close>

definition unmix64 :: "u64 \<Rightarrow> u64" where
  "unmix64 x =
     (let x = x XOR drop_bit 33 x;
          x = x * 0x9cb4b2f8129337db;
          x = x XOR drop_bit 33 x;
          x = x * 0x4f74430c22a54005;
          x = x XOR drop_bit 33 x
      in x)"

lemma mix64_factors:
  "(0xff51afd7ed558ccd :: u64) * 0x4f74430c22a54005 = 1"
  "(0xc4ceb9fe1a85ec53 :: u64) * 0x9cb4b2f8129337db = 1"
  by simp_all

lemma unmix64_mix64: "unmix64 (mix64 x) = x"
proof -
  have s: "(y XOR drop_bit 33 y) XOR drop_bit 33 (y XOR drop_bit 33 y) = y" for y :: u64
    by (rule xor_shift_self) simp
  show ?thesis
    by (simp only: unmix64_def mix64_def Let_def s
        odd_factor_cancel [OF mix64_factors(1)] odd_factor_cancel [OF mix64_factors(2)])
qed

lemma mix64_inject [simp]: "mix64 x = mix64 y \<longleftrightarrow> x = y"
  by (metis unmix64_mix64)

text \<open>
  \<open>mix64\<close> is a bijection of the 64-bit words, so the finaliser never merges two hash
  values: every collision of a hash built on it is a collision of its input.
\<close>

theorem mix64_bij: "bij mix64"
  by (simp add: bij_def inj_def finite_UNIV_inj_surj)

section \<open>Packing bytes\<close>

lemma bit_concat64le_loop:
  assumes "k < 64"
  shows "bit (concat64le_loop cs i r) k \<longleftrightarrow>
    bit r k \<or> (i * 8 \<le> k \<and> k div 8 - i < length cs \<and> bit (cs ! (k div 8 - i)) (k mod 8))"
proof (induction cs arbitrary: i r)
  case Nil
  then show ?case by simp
next
  case (Cons c cs)
  have shifted: "bit (push_bit (i * 8) (ucast c :: u64)) k \<longleftrightarrow> i * 8 \<le> k \<and> k div 8 = i \<and> bit c (k mod 8)"
  proof (cases "i * 8 \<le> k \<and> k div 8 = i")
    case True
    then have "k - i * 8 = k mod 8"
      by (simp add: modulo_nat_def)
    moreover have "k mod 8 < 64"
      by (rule less_trans [of _ 8]) simp_all
    ultimately show ?thesis
      using True assms by (simp add: bit_simps)
  next
    case False
    then have "i * 8 \<le> k \<Longrightarrow> 8 \<le> k - i * 8"
      by auto
    with False show ?thesis
      by (auto simp: bit_simps dest: bit_imp_le_length)
  qed
  have pos: "j * 8 \<le> k \<longleftrightarrow> j \<le> k div 8" for j
    by auto
  show ?case
  proof (cases "i < k div 8")
    case True
    then have "k div 8 - i = Suc (k div 8 - Suc i)" by simp
    with True show ?thesis
      unfolding concat64le_loop.simps Cons.IH pos by (simp add: bit_or_iff shifted)
  next
    case False
    then show ?thesis
      unfolding concat64le_loop.simps Cons.IH pos by (auto simp: bit_or_iff shifted pos)
  qed
qed

lemma bit_concat64le:
  assumes "k < 64" and "n \<le> length s"
  shows "bit (concat64le s n) k \<longleftrightarrow> k div 8 < n \<and> bit (s ! (k div 8)) (k mod 8)"
  using assms by (auto simp: concat64le_def bit_concat64le_loop)

lemma concat64le_byte:
  assumes "j < 8" and "n \<le> length s"
  shows "(ucast (drop_bit (8 * j) (concat64le s n)) :: byte) = (if j < n then s ! j else 0)"
proof (rule bit_word_eqI)
  fix b
  assume "b < LENGTH(8)"
  with assms show "bit (ucast (drop_bit (8 * j) (concat64le s n)) :: byte) b
      = bit (if j < n then s ! j else 0) b"
    by (auto simp: bit_simps bit_concat64le)
qed

text \<open>
  packing is lossless and little-endian: the eight bytes of the packed word, lowest
  first, are the \<open>nbytes\<close> bytes of the source followed by zeros.
\<close>

theorem concat64le_roundtrip:
  assumes "n \<le> 8" and "n \<le> length s"
  shows "map (\<lambda>j. ucast (drop_bit (8 * j) (concat64le s n))) [0..<8] = take n s @ replicate (8 - n) (0 :: byte)"
  using assms by (intro nth_equalityI) (auto simp: concat64le_byte nth_append)

theorem concat64le_roundtrip_witness:
  "map (\<lambda>j. ucast (drop_bit (8 * j) (concat64le [0x61, 0x62, 0x63] 3))) [0..<8] =
     take 3 [0x61, 0x62, 0x63] @ replicate (8 - 3) (0 :: byte)"
  by (rule concat64le_roundtrip) simp_all

lemma concat64le_inject:
  assumes "n \<le> 8" "n \<le> length s" "n \<le> length t" "concat64le s n = concat64le t n"
  shows "take n s = take n t"
proof (rule nth_equalityI)
  show "length (take n s) = length (take n t)"
    using assms by simp
next
  fix j
  assume "j < length (take n s)"
  then have j: "j < n" by simp
  with assms have "(ucast (drop_bit (8 * j) (concat64le s n)) :: byte) = s ! j"
    by (subst concat64le_byte) auto
  moreover from j assms have "(ucast (drop_bit (8 * j) (concat64le t n)) :: byte) = t ! j"
    by (subst concat64le_byte) auto
  ultimately show "take n s ! j = take n t ! j"
    using j assms by simp
qed

section \<open>Collisions of the string hash\<close>

lemma odd_mult_inject:
  fixes a b c d :: u64
  assumes "c * d = 1"
  shows "a * c = b * c \<longleftrightarrow> a = b"
  using odd_factor_cancel [OF assms] by metis

lemma hash_factor_inject [simp]:
  "a * hash_c1 = b * hash_c1 \<longleftrightarrow> a = b"
  "a * hash_c2 = b * hash_c2 \<longleftrightarrow> a = b"
  "a * 5 = b * 5 \<longleftrightarrow> a = (b :: u64)"
proof -
  show "a * hash_c1 = b * hash_c1 \<longleftrightarrow> a = b"
    by (rule odd_mult_inject [where d = "0xa98409e882ce4d7d"]) (simp add: hash_c1_def)
  show "a * hash_c2 = b * hash_c2 \<longleftrightarrow> a = b"
    by (rule odd_mult_inject [where d = "0xa81e14edd9de2c7f"]) (simp add: hash_c2_def)
  show "a * 5 = b * 5 \<longleftrightarrow> a = (b :: u64)"
    by (rule odd_mult_inject [where d = "0xcccccccccccccccd"]) simp
qed

lemma cross_add_inject:
  fixes a b c d :: u64
  shows "a + b = c + d \<and> b + (a + b) = d + (c + d) \<longleftrightarrow> a = c \<and> b = d"
  by (metis add_right_cancel)

text \<open>The two keys enter a round through the words xored into the state.\<close>

lemma hash_round_eq_iff:
  "hash_round k1 k2 (a, b) = hash_round l1 l2 (c, d) \<longleftrightarrow>
     a XOR (word_rotl 31 (k1 * hash_c1) * hash_c2) = c XOR (word_rotl 31 (l1 * hash_c1) * hash_c2) \<and>
     b XOR (word_rotl 33 (k2 * hash_c2) * hash_c1) = d XOR (word_rotl 33 (l2 * hash_c2) * hash_c1)"
proof -
  let ?u = "\<lambda>x k. word_rotl 27 (x XOR (word_rotl 31 (k * hash_c1) * hash_c2))"
  let ?v = "\<lambda>x k. word_rotl 31 (x XOR (word_rotl 33 (k * hash_c2) * hash_c1))"
  have "hash_round k1 k2 (a, b) = hash_round l1 l2 (c, d) \<longleftrightarrow>
      ?u a k1 + ?v b k2 = ?u c l1 + ?v d l2 \<and>
      ?v b k2 + (?u a k1 + ?v b k2) = ?v d l2 + (?u c l1 + ?v d l2)"
    unfolding hash_round_def Let_def prod.case prod.inject
    by (simp only: add_right_cancel hash_factor_inject)
  also have "\<dots> \<longleftrightarrow> ?u a k1 = ?u c l1 \<and> ?v b k2 = ?v d l2"
    by (rule cross_add_inject)
  finally show ?thesis
    by simp
qed

lemma hash_round_inject_key:
  "hash_round k1 k2 h = hash_round l1 l2 h \<longleftrightarrow> k1 = l1 \<and> k2 = l2"
  by (cases h) (simp add: hash_round_eq_iff)

lemma hash_round_inject_state:
  "hash_round k1 k2 g = hash_round k1 k2 h \<longleftrightarrow> g = h"
  by (cases g; cases h) (simp add: hash_round_eq_iff)

lemma hash_final_inject: "hash_final len g = hash_final len h \<longleftrightarrow> g = h"
proof (cases g; cases h)
  fix a b c d
  assume gh: "g = (a, b)" "h = (c, d)"
  let ?x = "\<lambda>y. y XOR len"
  have "hash_final len g = hash_final len h \<longleftrightarrow>
      mix64 (?x a + ?x b) = mix64 (?x c + ?x d) \<and>
      mix64 (?x b + (?x a + ?x b)) = mix64 (?x d + (?x c + ?x d))"
    unfolding gh hash_final_def Let_def prod.case prod.inject by (rule cross_add_inject)
  also have "\<dots> \<longleftrightarrow> ?x a = ?x c \<and> ?x b = ?x d"
    unfolding mix64_inject by (rule cross_add_inject)
  finally show ?thesis
    by (simp add: gh)
qed

lemma hash_loop_append:
  "length p mod 16 = 0 \<Longrightarrow> hash_loop (p @ q) h = hash_loop q (hash_loop p h)"
proof (induction "length p" arbitrary: p h rule: less_induct)
  case less
  show ?case
  proof (cases "p = []")
    case True
    then show ?thesis by (simp add: hash_loop.simps [of "[]"])
  next
    case False
    with less.prems have "16 \<le> length p"
      by (metis dvd_imp_le length_greater_0_conv mod_0_imp_dvd)
    moreover from this less.prems have "length (drop 16 p) mod 16 = 0"
      by (simp add: le_mod_geq)
    ultimately show ?thesis
      using False less.hyps [of "drop 16 p"]
      by (simp add: hash_loop.simps [of p] hash_loop.simps [of "p @ q"] Let_def concat64le_def)
  qed
qed

lemma hash_loop_inject_state: "hash_loop s g = hash_loop s h \<longleftrightarrow> g = h"
proof (induction "length s" arbitrary: s g h rule: less_induct)
  case less
  show ?case
  proof (cases "s = []")
    case False
    with less.hyps [of "drop 16 s"] show ?thesis
      by (simp add: hash_loop.simps [of s] Let_def hash_round_inject_state)
  qed (simp add: hash_loop.simps [of "[]"])
qed

lemma hash_loop_inject_block:
  assumes "length x = length y" "length x \<le> 16" "hash_loop x h = hash_loop y h"
  shows "x = y"
proof (cases "x = []")
  case True
  with assms show ?thesis by simp
next
  case False
  let ?k1 = "\<lambda>s. concat64le s (min 8 (length s))"
  let ?k2 = "\<lambda>s. if 8 < length s then concat64le (drop 8 s) (min 8 (length s - 8)) else 0"
  from False assms have ne: "y \<noteq> []" and drop: "drop 16 x = []" "drop 16 y = []"
    by auto
  from assms(3) False ne drop
  have "hash_round (?k1 x) (?k2 x) h = hash_round (?k1 y) (?k2 y) h"
    by (simp add: hash_loop.simps [of x] hash_loop.simps [of y] hash_loop.simps [of "[]"] Let_def)
  then have k: "?k1 x = ?k1 y" "?k2 x = ?k2 y"
    by (simp_all only: hash_round_inject_key)
  have low: "take 8 x = take 8 y"
    using concat64le_inject [of "min 8 (length x)" x y] k(1) assms(1)
    by (simp add: min_def split: if_splits)
  have "drop 8 x = drop 8 y"
  proof (cases "8 < length x")
    case True
    with assms(1,2) have "min 8 (length x - 8) = length x - 8" "min 8 (length y - 8) = length x - 8"
      by simp_all
    with k(2) True assms(1,2) have "take (length x - 8) (drop 8 x) = take (length x - 8) (drop 8 y)"
      by (intro concat64le_inject) simp_all
    with assms(1) show ?thesis by simp
  qed (use assms(1) in simp)
  with low show ?thesis
    by (metis append_take_drop_id)
qed

text \<open>
  two strings of the same length that differ only inside one 16-byte block (the last
  one may be shorter) never have the same hash; in particular \<open>hash_str\<close> is injective on
  the strings of each length up to 16.
\<close>

theorem hash_str_block_no_collision:
  assumes "length p mod 16 = 0" "length x = length y" "length x \<le> 16"
    and "length x = 16 \<or> q = []" "x \<noteq> y"
  shows "hash_str (p @ x @ q) \<noteq> hash_str (p @ y @ q)"
proof
  assume "hash_str (p @ x @ q) = hash_str (p @ y @ q)"
  with assms(1,2) have eq: "hash_loop (x @ q) (hash_loop p (0, 0)) = hash_loop (y @ q) (hash_loop p (0, 0))"
    by (simp add: hash_str_def hash_final_inject hash_loop_append)
  have "hash_loop x (hash_loop p (0, 0)) = hash_loop y (hash_loop p (0, 0))"
  proof (cases "q = []")
    case True
    with eq show ?thesis by simp
  next
    case False
    with assms(2,4) have "length x mod 16 = 0" "length y mod 16 = 0" by auto
    with eq show ?thesis by (simp add: hash_loop_append hash_loop_inject_state)
  qed
  with hash_loop_inject_block assms(2,3,5) show False by blast
qed

theorem hash_str_block_no_collision_witness:
  "hash_str ([] @ [0x69, 0x6e, 0x74] @ []) \<noteq> hash_str ([] @ [0x69, 0x6e, 0x75] @ [])"
  by (rule hash_str_block_no_collision) simp_all

end
