(* ===== verification/Flags.thy ===== *)
theory Flags
  imports Asco_Prelude
begin

text \<open>
  \<open>asco/util/flags.h\<close>: the bit-set \<open>util::flags<E>\<close>. An enumerator is its underlying
  value. \<open>flags\<close> is the class, with its operators as functions that return the new object.
\<close>

section \<open>Definitions\<close>

record flags =
  m_bits :: u64

text \<open>
  \<open>bit_of(E e) { return 1 << std::to_underlying(e); }\<close>: the literal \<open>1\<close> is an
  \<open>int\<close>, so the shift happens on 32 bits and its result is sign-extended to
  \<open>std::size_t\<close>; shifting an \<open>int\<close> by 32 or more is undefined (\<open>None\<close>).
\<close>

definition bit_of :: "nat \<Rightarrow> u64 option" where
  "bit_of e = (if e < 32 then Some (scast (push_bit e (1 :: u32))) else None)"

definition fits_flag_enum :: "nat list \<Rightarrow> bool" where
  "fits_flag_enum values = list_all (\<lambda>v. v < 64) values"

definition flags_empty :: flags where
  "flags_empty = \<lparr>m_bits = 0\<rparr>"

definition flags_of :: "nat \<Rightarrow> flags option" where
  "flags_of e = map_option (\<lambda>b. \<lparr>m_bits = b\<rparr>) (bit_of e)"

definition flags_or_e :: "flags \<Rightarrow> nat \<Rightarrow> flags option" where
  "flags_or_e f e = map_option (\<lambda>b. \<lparr>m_bits = m_bits f OR b\<rparr>) (bit_of e)"

definition flags_or :: "flags \<Rightarrow> flags \<Rightarrow> flags" where
  "flags_or f g = \<lparr>m_bits = m_bits f OR m_bits g\<rparr>"

definition flags_or_assign_e :: "flags \<Rightarrow> nat \<Rightarrow> flags option" where
  "flags_or_assign_e f e = map_option (\<lambda>b. f\<lparr>m_bits := m_bits f OR b\<rparr>) (bit_of e)"

definition flags_or_assign :: "flags \<Rightarrow> flags \<Rightarrow> flags" where
  "flags_or_assign f g = f\<lparr>m_bits := m_bits f OR m_bits g\<rparr>"

definition flags_minus :: "flags \<Rightarrow> nat \<Rightarrow> flags option" where
  "flags_minus f e = map_option (\<lambda>b. \<lparr>m_bits = m_bits f AND NOT b\<rparr>) (bit_of e)"

definition flags_minus_assign :: "flags \<Rightarrow> nat \<Rightarrow> flags option" where
  "flags_minus_assign f e = map_option (\<lambda>b. f\<lparr>m_bits := m_bits f AND NOT b\<rparr>) (bit_of e)"

definition flags_contains_e :: "flags \<Rightarrow> nat \<Rightarrow> bool option" where
  "flags_contains_e f e = map_option (\<lambda>b. m_bits f AND b = b) (bit_of e)"

definition flags_contains :: "flags \<Rightarrow> flags \<Rightarrow> bool" where
  "flags_contains f g \<longleftrightarrow> m_bits f AND m_bits g = m_bits g"

definition flags_underlying :: "flags \<Rightarrow> u64" where
  "flags_underlying f = m_bits f"

lemmas flags_defs = flags_empty_def flags_of_def flags_or_e_def flags_or_def
  flags_or_assign_e_def flags_or_assign_def flags_minus_def flags_minus_assign_def
  flags_contains_e_def flags_contains_def flags_underlying_def

section \<open>Flags are sets of enumerators\<close>

text \<open>The abstraction: the set of enumerators whose bit is set.\<close>

definition flag_set :: "flags \<Rightarrow> nat set" where
  "flag_set f = {e. bit (m_bits f) e}"

lemma bit_of_small:
  assumes "e < 31"
  shows "bit_of e = Some (2 ^ e)"
proof -
  have "scast (push_bit e (1 :: u32)) = (2 ^ e :: u64)"
    using assms by (intro bit_word_eqI) (auto simp: bit_simps bit_1_iff)
  with assms show ?thesis
    by (simp add: bit_of_def)
qed

lemma bit_two_power [simp]: "bit (2 ^ e :: u64) i \<longleftrightarrow> i = e \<and> e < 64"
  by (auto simp: bit_exp_iff)

lemma bit_index_less: "bit (x :: u64) i \<Longrightarrow> i < 64"
  using bit_imp_le_length by fastforce

lemma and_two_power: "e < 64 \<Longrightarrow> x AND 2 ^ e = (2 ^ e :: u64) \<longleftrightarrow> bit x e"
proof
  assume "e < 64" "x AND 2 ^ e = (2 ^ e :: u64)"
  then have "bit (x AND 2 ^ e) e = bit (2 ^ e :: u64) e" by simp
  with \<open>e < 64\<close> show "bit x e"
    by (simp only: bit_and_iff bit_two_power) simp
next
  assume "bit x e"
  then show "x AND 2 ^ e = (2 ^ e :: u64)"
    by (intro bit_word_eqI) (auto simp: bit_and_iff)
qed

text \<open>
  for enumerators below 31 (all of \<open>open_flags\<close> and \<open>create_mode\<close>) the class is a
  finite set: \<open>|\<close> and \<open>|=\<close> insert, \<open>-\<close> and \<open>-=\<close> delete, \<open>contains\<close> is membership, and none
  of them touches another enumerator.
\<close>

theorem flags_set_semantics:
  assumes "e < 31"
  shows "(\<exists>g. flags_or_e f e = Some g \<and> flag_set g = insert e (flag_set f)) \<and>
    (\<exists>g. flags_minus f e = Some g \<and> flag_set g = flag_set f - {e}) \<and>
    flags_or_assign_e f e = flags_or_e f e \<and>
    flags_minus_assign f e = flags_minus f e \<and>
    flags_contains_e f e = Some (e \<in> flag_set f)"
  using assms
  by (auto simp: flags_defs bit_of_small flag_set_def bit_and_iff bit_or_iff bit_not_iff and_two_power
    dest: bit_index_less)

theorem flags_set_semantics_witness:
  "(\<exists>g. flags_or_e flags_empty 2 = Some g \<and> flag_set g = insert 2 (flag_set flags_empty)) \<and>
   flags_contains_e \<lparr>m_bits = 5\<rparr> 2 = Some (2 \<in> flag_set \<lparr>m_bits = 5\<rparr>)"
  using flags_set_semantics [of 2 flags_empty] flags_set_semantics [of 2 "\<lparr>m_bits = 5\<rparr>"] by simp

lemma flags_or_set: "flag_set (flags_or f g) = flag_set f \<union> flag_set g"
  by (auto simp: flags_defs flag_set_def bit_simps)

lemma flags_contains_set: "flags_contains f g \<longleftrightarrow> flag_set g \<subseteq> flag_set f"
proof -
  have "m_bits f AND m_bits g = m_bits g \<longleftrightarrow> (\<forall>i. bit (m_bits g) i \<longrightarrow> bit (m_bits f) i)"
    by (auto simp: bit_eq_iff bit_and_iff dest: bit_index_less)
  then show ?thesis
    by (auto simp: flags_contains_def flag_set_def)
qed

lemma flags_or_assign_set: "flag_set (flags_or_assign f g) = flag_set f \<union> flag_set g"
  by (auto simp: flags_defs flag_set_def bit_simps)

text \<open>Operations of a program on one object, and the same operations on a set of enumerators.\<close>

datatype flags_op = Fl_insert nat | Fl_delete nat | Fl_insert_all "nat list"

definition flags_of_list :: "nat list \<Rightarrow> flags option" where
  "flags_of_list es = foldl (\<lambda>f e. Option.bind f (\<lambda>f. flags_or_e f e)) (Some flags_empty) es"

fun flags_apply :: "flags_op \<Rightarrow> flags \<Rightarrow> flags option" where
  "flags_apply (Fl_insert e) f = flags_or_assign_e f e"
| "flags_apply (Fl_delete e) f = flags_minus_assign f e"
| "flags_apply (Fl_insert_all es) f = map_option (flags_or_assign f) (flags_of_list es)"

fun set_apply :: "flags_op \<Rightarrow> nat set \<Rightarrow> nat set" where
  "set_apply (Fl_insert e) A = insert e A"
| "set_apply (Fl_delete e) A = A - {e}"
| "set_apply (Fl_insert_all es) A = A \<union> set es"

fun op_enums :: "flags_op \<Rightarrow> nat set" where
  "op_enums (Fl_insert e) = {e}"
| "op_enums (Fl_delete e) = {e}"
| "op_enums (Fl_insert_all es) = set es"

lemma flags_of_list_set:
  assumes "\<forall>e\<in>set es. e < 31"
  shows "\<exists>g. flags_of_list es = Some g \<and> flag_set g = set es"
proof -
  have "\<exists>g. foldl (\<lambda>f e. Option.bind f (\<lambda>f. flags_or_e f e)) (Some f) es = Some g \<and> flag_set g = flag_set f \<union> set es" for f
    using assms
  proof (induction es arbitrary: f)
    case Nil
    then show ?case by simp
  next
    case (Cons e es)
    then obtain h where h: "flags_or_e f e = Some h" "flag_set h = insert e (flag_set f)"
      using flags_set_semantics [of e f] by auto
    with Cons.IH [of h] Cons.prems show ?case by auto
  qed
  from this [of flags_empty] show ?thesis
    by (simp add: flags_of_list_def flags_empty_def flag_set_def)
qed

lemma flags_apply_set:
  assumes "\<forall>e\<in>op_enums a. e < 31"
  shows "\<exists>g. flags_apply a f = Some g \<and> flag_set g = set_apply a (flag_set f)"
proof (cases a)
  case (Fl_insert e)
  with assms flags_set_semantics [of e f] show ?thesis by auto
next
  case (Fl_delete e)
  with assms flags_set_semantics [of e f] show ?thesis by auto
next
  case (Fl_insert_all es)
  with assms flags_of_list_set [of es] show ?thesis by (auto simp: flags_or_assign_set)
qed



text \<open>
  The constraint \<open>fits_flag_enum\<close> accepts enumerators up to 63, but \<open>bit_of\<close> is only the
  single bit \<open>2 ^ e\<close> below 31: at 31 it is sign-extended over all higher bits, and from 32 on
  the shift is undefined.
\<close>

text \<open>
  the constraint that admits an enumeration is weaker than what \<open>bit_of\<close> needs.
  Enumerators 31 and 40 pass it, but the flag of 31 already contains bit 40, and the flag
  of 40 has no defined value.
\<close>

theorem fits_flag_enum_too_weak:
  "fits_flag_enum [31, 40] \<and>
   (\<exists>g. flags_of 31 = Some g \<and> 40 \<in> flag_set g) \<and> flags_of 40 = None"
  by (simp add: fits_flag_enum_def flags_of_def bit_of_def flag_set_def)

end
