(* ===== verification/Future.thy ===== *)
theory Future
  imports Asco_Prelude
begin

text \<open>
  \<open>asco/future.h\<close>: future objects and the coroutine frames whose promises point back at them, through moves, results,
  exceptions and destruction. What a future does to the executor (\<open>await_suspend\<close>, the final awaitable) is part of
  \<open>Execution\<close> and \<open>Worker\<close>. Addresses and handles are numbers, values and exceptions too.
\<close>

section \<open>Futures and frames\<close>

text \<open>
  The raw storage of the value: never constructed, constructed, or moved from. A future of \<open>void\<close> keeps it raw.
\<close>

datatype raw_value = Raw | Value nat | Moved

record future_obj =
  fo_promise :: nat
  fo_handle :: nat
  fo_e_ptr :: "nat option"
  fo_value :: raw_value
  fo_completed :: bool
  fo_caller :: nat
  fo_lambda :: "nat option"

text \<open>
  \<open>fw_frames\<close> maps the frames that are alive to the \<open>m_future_object\<close> of their promise. What goes wrong is an access to
  a freed frame or a destroyed future, or to storage without a value in it.
\<close>

record future_world =
  fw_void :: bool
  fw_futures :: "nat \<Rightarrow> future_obj option"
  fw_frames :: "nat \<Rightarrow> nat option"

datatype future_fault = Freed_frame | Destroyed_future | No_value | Value_overwritten

type_synonym 'a fut_result = "future_fault + 'a"

definition future_world_new :: "bool \<Rightarrow> future_world" where
  "future_world_new v = \<lparr>fw_void = v, fw_futures = Map.empty, fw_frames = Map.empty\<rparr>"

definition get_future :: "nat \<Rightarrow> future_world \<Rightarrow> future_obj fut_result" where
  "get_future a w = (case fw_futures w a of None \<Rightarrow> Inl Destroyed_future | Some f \<Rightarrow> Inr f)"

definition set_future :: "nat \<Rightarrow> future_obj \<Rightarrow> future_world \<Rightarrow> future_world" where
  "set_future a f w = w\<lparr>fw_futures := (fw_futures w)(a \<mapsto> f)\<rparr>"

definition promise_future :: "nat \<Rightarrow> future_world \<Rightarrow> (nat \<times> future_obj) fut_result" where
  "promise_future h w =
     (case fw_frames w h of
        None \<Rightarrow> Inl Freed_frame
      | Some a \<Rightarrow> (case get_future a w of Inl e \<Rightarrow> Inl e | Inr f \<Rightarrow> Inr (a, f)))"

text \<open>\<open>get_return_object\<close>: the future is constructed where the caller wants it.\<close>

definition get_return_object :: "nat \<Rightarrow> nat \<Rightarrow> future_world \<Rightarrow> future_world" where
  "get_return_object h a w =
     w\<lparr>fw_frames := (fw_frames w)(h \<mapsto> a),
       fw_futures := (fw_futures w)(a \<mapsto> \<lparr>fo_promise = h, fo_handle = h, fo_e_ptr = None, fo_value = Raw, fo_completed = False,
                                          fo_caller = 0, fo_lambda = None\<rparr>)\<rparr>"

definition return_void :: "nat \<Rightarrow> future_world \<Rightarrow> future_world fut_result" where
  "return_void h w =
     (case promise_future h w of
        Inl e \<Rightarrow> Inl e
      | Inr (a, f) \<Rightarrow> Inr (set_future a (f\<lparr>fo_completed := True\<rparr>) w))"

definition return_value :: "nat \<Rightarrow> nat \<Rightarrow> future_world \<Rightarrow> future_world fut_result" where
  "return_value h v w =
     (case promise_future h w of
        Inl e \<Rightarrow> Inl e
      | Inr (a, f) \<Rightarrow>
          if fo_value f \<noteq> Raw then Inl Value_overwritten
          else Inr (set_future a (f\<lparr>fo_value := Value v, fo_completed := True\<rparr>) w))"

definition unhandled_exception :: "nat \<Rightarrow> nat \<Rightarrow> future_world \<Rightarrow> future_world fut_result" where
  "unhandled_exception h e w =
     (case promise_future h w of
        Inl er \<Rightarrow> Inl er
      | Inr (a, f) \<Rightarrow> Inr (set_future a (f\<lparr>fo_e_ptr := Some e, fo_completed := True\<rparr>) w))"

text \<open>
  \<open>final_suspend\<close> takes the handle from the future, and its awaitable destroys the frame. (Storing \<open>true\<close> in
  what is already true does nothing.)
\<close>

definition frame_destroy :: "nat \<Rightarrow> future_world \<Rightarrow> future_world fut_result" where
  "frame_destroy h w = (case fw_frames w h of None \<Rightarrow> Inl Freed_frame | Some _ \<Rightarrow> Inr (w\<lparr>fw_frames := (fw_frames w)(h := None)\<rparr>))"

definition future_final_suspend :: "nat \<Rightarrow> future_world \<Rightarrow> future_world fut_result" where
  "future_final_suspend h w =
     (case promise_future h w of Inl e \<Rightarrow> Inl e | Inr (a, f) \<Rightarrow> frame_destroy (fo_handle f) w)"

text \<open>\<open>await_resume\<close>: throws, or moves the value out.\<close>

datatype awaited = Awaited_void | Awaited nat | Awaited_moved | Rethrown nat

definition await_resume :: "nat \<Rightarrow> future_world \<Rightarrow> (awaited \<times> future_world) fut_result" where
  "await_resume a w =
     (case get_future a w of
        Inl e \<Rightarrow> Inl e
      | Inr f \<Rightarrow>
          (case fo_e_ptr f of
             Some e \<Rightarrow> Inr (Rethrown e, w)
           | None \<Rightarrow>
               if fw_void w then Inr (Awaited_void, w)
               else (case fo_value f of
                       Raw \<Rightarrow> Inl No_value
                     | Moved \<Rightarrow> Inr (Awaited_moved, w)
                     | Value v \<Rightarrow> Inr (Awaited v, set_future a (f\<lparr>fo_value := Moved\<rparr>) w))))"

text \<open>The bookkeeping members.\<close>

definition set_caller :: "nat \<Rightarrow> nat \<Rightarrow> future_world \<Rightarrow> future_world fut_result" where
  "set_caller a caller w =
     (case get_future a w of Inl e \<Rightarrow> Inl e | Inr f \<Rightarrow> Inr (set_future a (f\<lparr>fo_caller := caller\<rparr>) w))"

definition bind_lambda :: "nat \<Rightarrow> nat \<Rightarrow> future_world \<Rightarrow> future_world fut_result" where
  "bind_lambda a l w =
     (case get_future a w of Inl e \<Rightarrow> Inl e | Inr f \<Rightarrow> Inr (set_future a (f\<lparr>fo_lambda := Some l\<rparr>) w))"

text \<open>
  \<open>co_invoke\<close> (\<open>asco/invoke.h\<close>) of a function object \<open>l\<close> whose call makes the frame \<open>h\<close> with its future at \<open>a\<close>: one that is given up
  (an rvalue) is moved into an erased object, which the future keeps.
\<close>

definition co_invoke :: "bool \<Rightarrow> nat \<Rightarrow> nat \<Rightarrow> nat \<Rightarrow> future_world \<Rightarrow> future_world fut_result" where
  "co_invoke rvalue l h a w =
     (if rvalue then bind_lambda a l (get_return_object h a w) else Inr (get_return_object h a w))"

definition as_execution :: "nat \<Rightarrow> future_world \<Rightarrow> nat fut_result" where
  "as_execution a w = (case get_future a w of Inl e \<Rightarrow> Inl e | Inr f \<Rightarrow> Inr (fo_handle f))"

text \<open>
  The move constructor, of the future at \<open>b\<close> to a new one at \<open>a\<close>: the promise is told of the new address. The exception
  and the lambda are moved, the mark of completion is copied.
\<close>

definition future_move :: "nat \<Rightarrow> nat \<Rightarrow> future_world \<Rightarrow> future_world fut_result" where
  "future_move a b w =
     (case get_future b w of
        Inl e \<Rightarrow> Inl e
      | Inr rhs \<Rightarrow>
          if fw_frames w (fo_promise rhs) = None then Inl Freed_frame
          else
            (let this = rhs\<lparr>fo_value := Raw\<rparr>;
                 rhs = rhs\<lparr>fo_e_ptr := None, fo_lambda := None\<rparr>;
                 w = w\<lparr>fw_frames := (fw_frames w)(fo_promise rhs \<mapsto> a)\<rparr>
             in if \<not> fw_void w \<and> fo_completed this \<and> fo_e_ptr this = None
                then (case fo_value rhs of
                        Raw \<Rightarrow> Inl No_value
                      | v \<Rightarrow> Inr (set_future b (rhs\<lparr>fo_value := Moved\<rparr>) (set_future a (this\<lparr>fo_value := v\<rparr>) w)))
                else Inr (set_future b rhs (set_future a this w))))"

definition future_dtor :: "nat \<Rightarrow> future_world \<Rightarrow> future_world fut_result" where
  "future_dtor a w =
     (case get_future a w of
        Inl e \<Rightarrow> Inl e
      | Inr f \<Rightarrow>
          if \<not> fw_void w \<and> fo_completed f \<and> fo_e_ptr f = None \<and> fo_value f = Raw then Inl No_value
          else Inr (w\<lparr>fw_futures := (fw_futures w)(a := None)\<rparr>))"

definition future_move_assign :: "nat \<Rightarrow> nat \<Rightarrow> future_world \<Rightarrow> future_world fut_result" where
  "future_move_assign a b w =
     (if a = b then Inr w else (case future_dtor a w of Inl e \<Rightarrow> Inl e | Inr w \<Rightarrow> future_move a b w))"

section \<open>Lives of futures\<close>

datatype future_action =
    F_call nat nat
  | F_return nat nat
  | F_return_void nat
  | F_throw nat nat
  | F_final nat
  | F_cancel nat
  | F_await nat
  | F_bind nat nat
  | F_move nat nat
  | F_assign nat nat
  | F_dtor nat

text \<open>
  With the history: how the coroutine of the future at an address ended, which futures have been awaited, and what the
  awaits gave (with how the coroutine ended, and whether it was not the first await).
\<close>

record future_session =
  fs_world :: future_world
  fs_fault :: "future_fault option"
  fs_outcome :: "nat \<Rightarrow> awaited option"
  fs_taken :: "nat set"
  fs_log :: "(awaited \<times> awaited option \<times> bool) list"

definition future_session_new :: "bool \<Rightarrow> future_session" where
  "future_session_new v = \<lparr>fs_world = future_world_new v, fs_fault = None, fs_outcome = Map.empty, fs_taken = {}, fs_log = []\<rparr>"

definition future_of_frame :: "nat \<Rightarrow> future_world \<Rightarrow> future_obj option" where
  "future_of_frame h w = (case fw_frames w h of None \<Rightarrow> None | Some a \<Rightarrow> fw_futures w a)"

definition future_current :: "nat \<Rightarrow> future_world \<Rightarrow> bool" where
  "future_current a w = (case fw_futures w a of None \<Rightarrow> False | Some f \<Rightarrow> fw_frames w (fo_promise f) = Some a)"

definition future_done :: "nat \<Rightarrow> future_world \<Rightarrow> bool" where
  "future_done a w = (case fw_futures w a of None \<Rightarrow> False | Some f \<Rightarrow> fo_completed f)"

definition frame_done :: "nat \<Rightarrow> future_world \<Rightarrow> bool option" where
  "frame_done h w = map_option fo_completed (future_of_frame h w)"

text \<open>
  How futures are meant to be used: a coroutine ends once, and is then suspended for good; a future is awaited when its
  coroutine has ended, moved only before that, and destroyed when the frame is gone.
\<close>

definition future_meant :: "future_action \<Rightarrow> future_world \<Rightarrow> bool" where
  "future_meant act w =
     (case act of
        F_call h a \<Rightarrow> fw_frames w h = None \<and> fw_futures w a = None
      | F_return h v \<Rightarrow> \<not> fw_void w \<and> frame_done h w = Some False
      | F_return_void h \<Rightarrow> fw_void w \<and> frame_done h w = Some False
      | F_throw h e \<Rightarrow> frame_done h w = Some False
      | F_final h \<Rightarrow> frame_done h w = Some True
      | F_cancel h \<Rightarrow> fw_frames w h \<noteq> None
      | F_await a \<Rightarrow> future_done a w
      | F_bind a l \<Rightarrow> fw_futures w a \<noteq> None
      | F_move a b \<Rightarrow> fw_futures w a = None \<and> future_current b w \<and> \<not> future_done b w
      | F_assign a b \<Rightarrow> fw_futures w a \<noteq> None \<and> \<not> future_current a w \<and> future_current b w \<and> \<not> future_done b w
      | F_dtor a \<Rightarrow> fw_futures w a \<noteq> None \<and> \<not> future_current a w)"

definition set_world :: "future_world fut_result \<Rightarrow> future_session \<Rightarrow> future_session" where
  "set_world r s = (case r of Inl e \<Rightarrow> s\<lparr>fs_fault := Some e\<rparr> | Inr w \<Rightarrow> s\<lparr>fs_world := w\<rparr>)"

definition note_outcome :: "nat \<Rightarrow> awaited \<Rightarrow> future_session \<Rightarrow> future_session" where
  "note_outcome h out s =
     (case fw_frames (fs_world s) h of None \<Rightarrow> s | Some a \<Rightarrow> s\<lparr>fs_outcome := (fs_outcome s)(a \<mapsto> out)\<rparr>)"

definition forget :: "nat \<Rightarrow> future_session \<Rightarrow> future_session" where
  "forget a s = s\<lparr>fs_outcome := (fs_outcome s)(a := None), fs_taken := fs_taken s - {a}\<rparr>"

definition note_await :: "nat \<Rightarrow> future_session \<Rightarrow> future_session" where
  "note_await a s =
     (case await_resume a (fs_world s) of
        Inl e \<Rightarrow> s\<lparr>fs_fault := Some e\<rparr>
      | Inr (r, w) \<Rightarrow>
          s\<lparr>fs_world := w, fs_log := fs_log s @ [(r, fs_outcome s a, a \<in> fs_taken s)], fs_taken := insert a (fs_taken s)\<rparr>)"

fun future_exec :: "future_action \<Rightarrow> future_session \<Rightarrow> future_session" where
  "future_exec (F_call h a) s = forget a (set_world (Inr (get_return_object h a (fs_world s))) s)"
| "future_exec (F_return h v) s = set_world (return_value h v (fs_world s)) (note_outcome h (Awaited v) s)"
| "future_exec (F_return_void h) s = set_world (return_void h (fs_world s)) (note_outcome h Awaited_void s)"
| "future_exec (F_throw h e) s = set_world (unhandled_exception h e (fs_world s)) (note_outcome h (Rethrown e) s)"
| "future_exec (F_final h) s = set_world (future_final_suspend h (fs_world s)) s"
| "future_exec (F_cancel h) s = set_world (frame_destroy h (fs_world s)) s"
| "future_exec (F_await a) s = note_await a s"
| "future_exec (F_bind a l) s = set_world (bind_lambda a l (fs_world s)) s"
| "future_exec (F_move a b) s = set_world (future_move a b (fs_world s)) (forget a s)"
| "future_exec (F_assign a b) s = set_world (future_move_assign a b (fs_world s)) (forget a s)"
| "future_exec (F_dtor a) s = forget a (set_world (future_dtor a (fs_world s)) s)"

definition future_step :: "future_action \<Rightarrow> future_session \<Rightarrow> future_session option" where
  "future_step act s = (if fs_fault s = None then Some (future_exec act s) else None)"

definition future_step_meant :: "future_action \<Rightarrow> future_session \<Rightarrow> future_session option" where
  "future_step_meant act s = (if future_meant act (fs_world s) then future_step act s else None)"

text \<open>
  \<open>co_invoke\<close> is a call and then the binding of its function, so that what is shown of sessions holds of it. While the coroutine
  runs, its future has the function, wherever it is moved to.
\<close>

lemma co_invoke_steps:
  assumes "fs_fault s = None" "co_invoke True l h a (fs_world s) = Inr w"
  shows "map_option fs_world (run future_step [F_call h a, F_bind a l] s) = Some w"
  using assms by (simp add: co_invoke_def future_step_def set_world_def forget_def split: sum.splits)

lemma co_invoke_keeps_function:
  assumes "co_invoke rvalue l h a w = Inr w'"
  shows "\<exists>f. promise_future h w' = Inr (a, f) \<and> fo_lambda f = (if rvalue then Some l else None) \<and> fo_handle f = h"
  using assms
  by (auto simp: co_invoke_def bind_lambda_def get_return_object_def promise_future_def get_future_def set_future_def split: if_splits)

lemma move_keeps_function:
  assumes "promise_future h w = Inr (b, f)" "future_move a b w = Inr w'" "fo_promise f = h" "a \<noteq> b"
  shows "\<exists>g. promise_future h w' = Inr (a, g) \<and> fo_lambda g = fo_lambda f"
  using assms
  by (auto simp: future_move_def promise_future_def get_future_def set_future_def Let_def
      split: option.splits sum.splits if_splits raw_value.splits)

text \<open>What a future looks like, given how its coroutine ended.\<close>

definition future_matches :: "bool \<Rightarrow> future_obj \<Rightarrow> awaited option \<Rightarrow> bool \<Rightarrow> bool" where
  "future_matches void f out taken =
     (case out of
        None \<Rightarrow> \<not> fo_completed f \<and> fo_value f = Raw \<and> fo_e_ptr f = None
      | Some (Rethrown e) \<Rightarrow> fo_completed f \<and> fo_e_ptr f = Some e
      | Some Awaited_void \<Rightarrow> void \<and> fo_completed f \<and> fo_e_ptr f = None
      | Some (Awaited v) \<Rightarrow> \<not> void \<and> fo_completed f \<and> fo_e_ptr f = None \<and> (fo_value f = Value v \<or> taken \<and> fo_value f = Moved)
      | Some Awaited_moved \<Rightarrow> False)"

definition log_ok :: "awaited \<times> awaited option \<times> bool \<Rightarrow> bool" where
  "log_ok l = (case l of (r, out, again) \<Rightarrow> out = Some r \<or> again \<and> r = Awaited_moved)"

definition future_inv :: "future_session \<Rightarrow> bool" where
  "future_inv s \<longleftrightarrow>
     fs_fault s = None \<and>
     (\<forall>h a. fw_frames (fs_world s) h = Some a \<longrightarrow> (\<exists>f. fw_futures (fs_world s) a = Some f \<and> fo_promise f = h \<and> fo_handle f = h)) \<and>
     (\<forall>a f. fw_futures (fs_world s) a = Some f \<longrightarrow>
        future_matches (fw_void (fs_world s)) f (fs_outcome s a) (a \<in> fs_taken s)) \<and>
     list_all log_ok (fs_log s)"

lemma future_invD:
  assumes "future_inv s"
  shows "fs_fault s = None"
    "fw_frames (fs_world s) h = Some a \<Longrightarrow> \<exists>f. fw_futures (fs_world s) a = Some f \<and> fo_promise f = h \<and> fo_handle f = h"
    "fw_futures (fs_world s) a = Some f \<Longrightarrow> future_matches (fw_void (fs_world s)) f (fs_outcome s a) (a \<in> fs_taken s)"
    "list_all log_ok (fs_log s)"
  using assms unfolding future_inv_def by blast+

text \<open>An action that changes one future that stays where it is.\<close>

lemma future_inv_update:
  assumes inv: "future_inv s" and f: "fw_futures (fs_world s) a = Some f" "fo_promise f' = fo_promise f" "fo_handle f' = fo_handle f"
    and m: "future_matches (fw_void (fs_world s)) f' out (a \<in> T)" and T: "T - {a} = fs_taken s - {a}" and L: "list_all log_ok L"
  shows "future_inv (s\<lparr>fs_world := set_future a f' (fs_world s), fs_outcome := (fs_outcome s)(a := out), fs_taken := T, fs_log := L\<rparr>)"
  unfolding future_inv_def
proof (intro conjI allI impI)
  let ?s = "s\<lparr>fs_world := set_future a f' (fs_world s), fs_outcome := (fs_outcome s)(a := out), fs_taken := T, fs_log := L\<rparr>"
  show "fs_fault ?s = None" using future_invD(1) [OF inv] by simp
  show "\<exists>g. fw_futures (fs_world ?s) b = Some g \<and> fo_promise g = h \<and> fo_handle g = h" if "fw_frames (fs_world ?s) h = Some b" for h b
    using that f future_invD(2) [OF inv, of h b] by (auto simp: set_future_def)
  show "future_matches (fw_void (fs_world ?s)) g (fs_outcome ?s b) (b \<in> fs_taken ?s)" if g: "fw_futures (fs_world ?s) b = Some g" for b g
  proof (cases "b = a")
    case True
    with g m show ?thesis by (simp add: set_future_def)
  next
    case False
    then have "b \<in> T \<longleftrightarrow> b \<in> fs_taken s" using T by blast
    with False g future_invD(3) [OF inv, of b g] show ?thesis by (simp add: set_future_def)
  qed
  show "list_all log_ok (fs_log ?s)" using L by simp
qed

lemma promise_future_ok:
  assumes inv: "future_inv s" and d: "frame_done h (fs_world s) = Some b"
  obtains a f where "fw_frames (fs_world s) h = Some a" "fw_futures (fs_world s) a = Some f" "fo_promise f = h" "fo_handle f = h"
    "fo_completed f = b" "promise_future h (fs_world s) = Inr (a, f)"
proof -
  from d obtain a f where f: "fw_frames (fs_world s) h = Some a" "fw_futures (fs_world s) a = Some f" "fo_completed f = b"
    by (auto simp: frame_done_def future_of_frame_def split: option.splits)
  with future_invD(2) [OF inv f(1)] show ?thesis using that by (simp add: promise_future_def get_future_def)
qed

lemma uncompleted:
  assumes "future_inv s" "fw_futures (fs_world s) a = Some f" "\<not> fo_completed f"
  shows "fo_value f = Raw" "fo_e_ptr f = None" "fs_outcome s a = None"
  using future_invD(3) [OF assms(1,2)] assms(3)
  by (auto simp: future_matches_def split: option.splits awaited.splits)

lemma future_end_inv:
  assumes inv: "future_inv s" and d: "frame_done h (fs_world s) = Some False"
    and r: "\<And>a f. fw_futures (fs_world s) a = Some f \<Longrightarrow> fo_promise f = h \<Longrightarrow> fo_value f = Raw \<Longrightarrow> fo_e_ptr f = None \<Longrightarrow>
      promise_future h (fs_world s) = Inr (a, f) \<Longrightarrow>
      \<exists>f'. r = Inr (set_future a f' (fs_world s)) \<and> fo_promise f' = fo_promise f \<and> fo_handle f' = fo_handle f \<and>
        future_matches (fw_void (fs_world s)) f' (Some out) (a \<in> fs_taken s)"
  shows "future_inv (set_world r (note_outcome h out s))"
proof -
  obtain a f where f: "fw_frames (fs_world s) h = Some a" "fw_futures (fs_world s) a = Some f" "fo_promise f = h"
    "\<not> fo_completed f" "promise_future h (fs_world s) = Inr (a, f)"
    by (rule promise_future_ok [OF inv d]) auto
  from r [OF f(2,3) uncompleted(1,2) [OF inv f(2,4)] f(5)] obtain f' where f': "r = Inr (set_future a f' (fs_world s))"
    "fo_promise f' = fo_promise f" "fo_handle f' = fo_handle f"
    "future_matches (fw_void (fs_world s)) f' (Some out) (a \<in> fs_taken s)" by blast
  have "set_world r (note_outcome h out s) =
      s\<lparr>fs_world := set_future a f' (fs_world s), fs_outcome := (fs_outcome s)(a := Some out), fs_taken := fs_taken s, fs_log := fs_log s\<rparr>"
    by (simp add: set_world_def note_outcome_def f(1) f'(1))
  then show ?thesis using future_inv_update [OF inv f(2) f'(2-4) refl future_invD(4) [OF inv]] by simp
qed

lemma frame_destroy_inv:
  assumes inv: "future_inv s" and h: "fw_frames (fs_world s) h \<noteq> None"
  shows "future_inv (set_world (frame_destroy h (fs_world s)) s)"
  using inv h by (auto simp: future_inv_def set_world_def frame_destroy_def split: if_splits)

lemma future_call_inv:
  assumes inv: "future_inv s" and "fw_frames (fs_world s) h = None" "fw_futures (fs_world s) a = None"
  shows "future_inv (forget a (set_world (Inr (get_return_object h a (fs_world s))) s))"
proof -
  have "a' \<noteq> a" if "fw_frames (fs_world s) k = Some a'" for k a'
    using future_invD(2) [OF inv that] assms(3) by auto
  with inv assms(2,3) show ?thesis
    unfolding future_inv_def forget_def set_world_def get_return_object_def
    by (simp add: future_matches_def [of _ "\<lparr>fo_promise = h, fo_handle = h, fo_e_ptr = None, fo_value = Raw, fo_completed = False,
      fo_caller = 0, fo_lambda = None\<rparr>"])
qed

lemma future_dtor_ok:
  assumes inv: "future_inv s" and a: "fw_futures (fs_world s) a = Some f"
  shows "future_dtor a (fs_world s) = Inr ((fs_world s)\<lparr>fw_futures := (fw_futures (fs_world s))(a := None)\<rparr>)"
  using future_invD(3) [OF inv a]
  by (auto simp: future_dtor_def get_future_def a future_matches_def split: option.splits awaited.splits)

lemma future_dtor_inv:
  assumes inv: "future_inv s" and a: "fw_futures (fs_world s) a \<noteq> None" "\<not> future_current a (fs_world s)"
  shows "future_inv (forget a (s\<lparr>fs_world := (fs_world s)\<lparr>fw_futures := (fw_futures (fs_world s))(a := None)\<rparr>\<rparr>))"
proof -
  have "b \<noteq> a" if "fw_frames (fs_world s) h = Some b" for h b
    using future_invD(2) [OF inv that] that a(2) by (auto simp: future_current_def)
  with inv show ?thesis unfolding future_inv_def forget_def by auto
qed

lemma future_move_inv:
  assumes inv: "future_inv s" and a: "fw_futures (fs_world s) a = None"
    and b: "future_current b (fs_world s)" "\<not> future_done b (fs_world s)"
  shows "future_inv (set_world (future_move a b (fs_world s)) (forget a s))"
proof -
  from b obtain f where f: "fw_futures (fs_world s) b = Some f" "fw_frames (fs_world s) (fo_promise f) = Some b" "\<not> fo_completed f"
    by (auto simp: future_current_def future_done_def split: option.splits)
  note u = uncompleted [OF inv f(1,3)]
  have ab: "a \<noteq> b" using a f(1) by auto
  have hf: "fo_handle f = fo_promise f" using future_invD(2) [OF inv f(2)] f(1) by auto
  let ?w = "fs_world s"
  have raw: "f\<lparr>fo_value := Raw\<rparr> = f" using u(1) by (cases f) simp
  have mv: "future_move a b ?w = Inr (set_future b (f\<lparr>fo_e_ptr := None, fo_lambda := None\<rparr>) (set_future a f
      (?w\<lparr>fw_frames := (fw_frames ?w)(fo_promise f \<mapsto> a)\<rparr>)))"
    using f u by (simp add: future_move_def get_future_def Let_def raw)
  have other: "k = fo_promise f" if "fw_frames ?w k = Some b" for k
    using future_invD(2) [OF inv that] f(1) by auto
  show ?thesis
    unfolding mv future_inv_def
  proof (intro conjI allI impI)
    let ?s = "set_world (Inr (set_future b (f\<lparr>fo_e_ptr := None, fo_lambda := None\<rparr>) (set_future a f
      (?w\<lparr>fw_frames := (fw_frames ?w)(fo_promise f \<mapsto> a)\<rparr>)))) (forget a s)"
    show "fs_fault ?s = None" using future_invD(1) [OF inv] by (simp add: set_world_def forget_def)
    show "\<exists>g. fw_futures (fs_world ?s) c = Some g \<and> fo_promise g = h \<and> fo_handle g = h" if h: "fw_frames (fs_world ?s) h = Some c" for h c
    proof (cases "h = fo_promise f")
      case True
      with h ab hf show ?thesis by (auto simp: set_world_def set_future_def)
    next
      case False
      with h have c: "fw_frames ?w h = Some c" by (simp add: set_world_def set_future_def)
      from future_invD(2) [OF inv c] obtain g where g: "fw_futures ?w c = Some g" "fo_promise g = h" "fo_handle g = h" by blast
      have "c \<noteq> a" "c \<noteq> b" using a g(1) other c False by auto
      with g show ?thesis by (simp add: set_world_def set_future_def)
    qed
    show "future_matches (fw_void (fs_world ?s)) g (fs_outcome ?s c) (c \<in> fs_taken ?s)" if g: "fw_futures (fs_world ?s) c = Some g" for c g
    proof (cases "c = a \<or> c = b")
      case True
      with g ab f(3) u show ?thesis by (auto simp: set_world_def set_future_def forget_def future_matches_def split: if_splits)
    next
      case False
      with g future_invD(3) [OF inv, of c g] show ?thesis by (simp add: set_world_def set_future_def forget_def)
    qed
    show "list_all log_ok (fs_log ?s)" using future_invD(4) [OF inv] by (simp add: set_world_def forget_def)
  qed
qed

lemma future_move_assign_inv:
  assumes inv: "future_inv s" and a: "fw_futures (fs_world s) a \<noteq> None" "\<not> future_current a (fs_world s)"
    and b: "future_current b (fs_world s)" "\<not> future_done b (fs_world s)"
  shows "future_inv (set_world (future_move_assign a b (fs_world s)) (forget a s))"
proof -
  from a obtain f where f: "fw_futures (fs_world s) a = Some f" by auto
  have ab: "a \<noteq> b" using a(2) b(1) by auto
  let ?w = "(fs_world s)\<lparr>fw_futures := (fw_futures (fs_world s))(a := None)\<rparr>"
  let ?s = "forget a (s\<lparr>fs_world := ?w\<rparr>)"
  have inv1: "future_inv ?s" by (rule future_dtor_inv [OF inv a])
  have w: "fs_world ?s = ?w" by (simp add: forget_def)
  have "future_current b ?w" "\<not> future_done b ?w" using b ab by (simp_all add: future_current_def future_done_def split: option.splits)
  then have "future_inv (set_world (future_move a b ?w) (forget a ?s))"
    using future_move_inv [OF inv1, of a b] unfolding w by simp
  moreover have "set_world r (forget a ?s) = set_world r (forget a s)" if "r = Inr v" for r v
    using that by (simp add: set_world_def forget_def)
  moreover have "\<exists>v. future_move a b ?w = Inr v"
  proof (cases "future_move a b ?w")
    case (Inl e)
    with calculation(1) show ?thesis using future_invD(1) by (fastforce simp: set_world_def)
  qed simp
  ultimately show ?thesis using ab by (auto simp: future_move_assign_def future_dtor_ok [OF inv f])
qed

lemma note_await_inv:
  assumes inv: "future_inv s" and d: "future_done a (fs_world s)"
  shows "future_inv (note_await a s)"
proof -
  from d obtain f where f: "fw_futures (fs_world s) a = Some f" "fo_completed f"
    by (auto simp: future_done_def split: option.splits)
  note m = future_invD(3) [OF inv f(1)]
  from m f(2) obtain out where out: "fs_outcome s a = Some out" by (auto simp: future_matches_def split: option.splits)
  have same: "set_future a f (fs_world s) = fs_world s" using f(1) by (simp add: set_future_def fun_upd_idem)
  have "\<exists>f' r. await_resume a (fs_world s) = Inr (r, set_future a f' (fs_world s)) \<and> fo_promise f' = fo_promise f \<and>
      fo_handle f' = fo_handle f \<and> future_matches (fw_void (fs_world s)) f' (Some out) True \<and> log_ok (r, Some out, a \<in> fs_taken s)"
  proof (cases out)
    case Awaited_void
    with m out show ?thesis
      by (intro exI [of _ f] exI [of _ Awaited_void]) (simp add: await_resume_def get_future_def f future_matches_def same log_ok_def)
  next
    case (Awaited v)
    show ?thesis
    proof (cases "fo_value f = Value v")
      case True
      with m out Awaited show ?thesis
        by (intro exI [of _ "f\<lparr>fo_value := Moved\<rparr>"] exI [of _ "Awaited v"])
          (simp add: await_resume_def get_future_def f future_matches_def log_ok_def)
    next
      case False
      with m out Awaited show ?thesis
        by (intro exI [of _ f] exI [of _ Awaited_moved]) (simp add: await_resume_def get_future_def f future_matches_def same log_ok_def)
    qed
  next
    case Awaited_moved
    with m out show ?thesis by (simp add: future_matches_def)
  next
    case (Rethrown e)
    with m out show ?thesis
      by (intro exI [of _ f] exI [of _ "Rethrown e"]) (simp add: await_resume_def get_future_def f future_matches_def same log_ok_def)
  qed
  then obtain f' r where r: "await_resume a (fs_world s) = Inr (r, set_future a f' (fs_world s))" "fo_promise f' = fo_promise f"
    "fo_handle f' = fo_handle f" "future_matches (fw_void (fs_world s)) f' (Some out) True" "log_ok (r, Some out, a \<in> fs_taken s)" by blast
  have "note_await a s = s\<lparr>fs_world := set_future a f' (fs_world s), fs_outcome := (fs_outcome s)(a := Some out),
      fs_taken := insert a (fs_taken s), fs_log := fs_log s @ [(r, Some out, a \<in> fs_taken s)]\<rparr>"
    using out by (simp add: note_await_def r(1) fun_upd_idem)
  moreover have "future_inv \<dots>"
    by (rule future_inv_update [OF inv f(1) r(2,3)]) (use r(4,5) future_invD(4) [OF inv] in auto)
  ultimately show ?thesis by simp
qed

lemma future_step_inv:
  assumes inv: "future_inv s" and step: "future_step_meant act s = Some s'"
  shows "future_inv s'"
proof -
  have m: "future_meant act (fs_world s)" and s': "s' = future_exec act s"
    using step by (auto simp: future_step_meant_def future_step_def split: if_splits)
  show ?thesis
  proof (cases act)
    case (F_call h a)
    with m s' future_call_inv [OF inv] show ?thesis by (simp add: future_meant_def)
  next
    case (F_return h v)
    with m have d: "frame_done h (fs_world s) = Some False" "\<not> fw_void (fs_world s)" by (simp_all add: future_meant_def)
    have "future_inv (set_world (return_value h v (fs_world s)) (note_outcome h (Awaited v) s))"
      by (rule future_end_inv [OF inv d(1)]) (auto simp: return_value_def future_matches_def d(2))
    with F_return s' show ?thesis by simp
  next
    case (F_return_void h)
    with m have d: "frame_done h (fs_world s) = Some False" "fw_void (fs_world s)" by (simp_all add: future_meant_def)
    have "future_inv (set_world (return_void h (fs_world s)) (note_outcome h Awaited_void s))"
      by (rule future_end_inv [OF inv d(1)]) (auto simp: return_void_def future_matches_def d(2))
    with F_return_void s' show ?thesis by simp
  next
    case (F_throw h e)
    with m have d: "frame_done h (fs_world s) = Some False" by (simp add: future_meant_def)
    have "future_inv (set_world (unhandled_exception h e (fs_world s)) (note_outcome h (Rethrown e) s))"
      by (rule future_end_inv [OF inv d]) (auto simp: unhandled_exception_def future_matches_def)
    with F_throw s' show ?thesis by simp
  next
    case (F_final h)
    with m have d: "frame_done h (fs_world s) = Some True" by (simp add: future_meant_def)
    obtain a f where f: "fw_frames (fs_world s) h = Some a" "fo_handle f = h" "promise_future h (fs_world s) = Inr (a, f)"
      by (rule promise_future_ok [OF inv d]) auto
    have "future_final_suspend h (fs_world s) = frame_destroy h (fs_world s)" by (simp add: future_final_suspend_def f)
    with F_final s' frame_destroy_inv [OF inv, of h] f(1) show ?thesis by simp
  next
    case (F_cancel h)
    with m s' frame_destroy_inv [OF inv] show ?thesis by (simp add: future_meant_def)
  next
    case (F_await a)
    with m s' note_await_inv [OF inv] show ?thesis by (simp add: future_meant_def)
  next
    case (F_bind a l)
    with m obtain f where f: "fw_futures (fs_world s) a = Some f" by (auto simp: future_meant_def)
    have "bind_lambda a l (fs_world s) = Inr (set_future a (f\<lparr>fo_lambda := Some l\<rparr>) (fs_world s))"
      by (simp add: bind_lambda_def get_future_def f)
    moreover have "future_matches (fw_void (fs_world s)) (f\<lparr>fo_lambda := Some l\<rparr>) (fs_outcome s a) (a \<in> fs_taken s)"
      using future_invD(3) [OF inv f] by (simp add: future_matches_def cong: option.case_cong awaited.case_cong)
    from future_inv_update [OF inv f _ _ this refl future_invD(4) [OF inv]]
    have "future_inv (s\<lparr>fs_world := set_future a (f\<lparr>fo_lambda := Some l\<rparr>) (fs_world s)\<rparr>)" by (simp add: fun_upd_idem)
    ultimately show ?thesis using F_bind s' by (simp add: set_world_def)
  next
    case (F_move a b)
    with m s' future_move_inv [OF inv] show ?thesis by (simp add: future_meant_def)
  next
    case (F_assign a b)
    with m s' future_move_assign_inv [OF inv] show ?thesis by (simp add: future_meant_def)
  next
    case (F_dtor a)
    with m obtain f where f: "fw_futures (fs_world s) a = Some f" "\<not> future_current a (fs_world s)" by (auto simp: future_meant_def)
    with future_dtor_inv [OF inv, of a] F_dtor s' show ?thesis
      by (simp add: future_dtor_ok [OF inv f(1)] set_world_def)
  qed
qed

interpretation futures: invariant_system future_step_meant future_inv
  by unfold_locales (rule future_step_inv)

lemma future_session_new_inv: "future_inv (future_session_new v)"
  by (simp add: future_inv_def future_session_new_def future_world_new_def)


definition future_example :: "future_action list" where
  "future_example = [F_call 70 1, F_move 2 1, F_dtor 1, F_return 70 42, F_final 70, F_await 2, F_await 2, F_call 70 1, F_throw 70 9,
     F_final 70, F_await 1, F_dtor 2, F_dtor 1]"

lemmas future_eval = future_session_new_def future_world_new_def future_step_meant_def future_step_def future_meant_def
  forget_def set_world_def get_return_object_def future_current_def future_done_def frame_done_def future_of_frame_def
  future_move_def get_future_def set_future_def future_dtor_def return_value_def promise_future_def note_outcome_def
  future_final_suspend_def frame_destroy_def note_await_def await_resume_def unhandled_exception_def Let_def


text \<open>
  Two uses that go wrong: moving a future whose coroutine has ended writes to its freed frame; and assigning to a future whose
  coroutine is alive lets that coroutine write its result into the other one's future.
\<close>

theorem future_move_after_end:
  "\<exists>s. run future_step [F_call 70 1, F_return 70 42, F_final 70, F_move 2 1] (future_session_new False) = Some s \<and>
     fs_fault s = Some Freed_frame"
  by (simp add: future_eval)

theorem future_assign_over_live:
  "\<exists>s. run future_step [F_call 70 1, F_call 71 2, F_assign 1 2, F_return 70 42] (future_session_new False) = Some s \<and>
     (\<exists>f. fw_futures (fs_world s) 1 = Some f \<and> fo_handle f = 71 \<and> fo_completed f \<and> fo_value f = Value 42)"
  by (simp add: future_eval future_move_assign_def)

end
