(* ===== verification/Combinators.thy ===== *)
theory Combinators
  imports Future
begin

text \<open>
  \<open>asco/task/select.h\<close>, \<open>join_all.h\<close> and \<open>fetch_result.h\<close>: coroutines that run several others as executions of a nested
  domain. The domain is that of \<open>Worker\<close>, seen from the branches: they take turns on one worker, every turn begins and ends with the
  clean-up of a cancelled execution, and the owner goes on when no execution is left.
\<close>

section \<open>Branches\<close>

text \<open>
  A branch runs, has ended (and left its result in its future), spins in the loop at the end of \<open>select_impl\<close>, or
  was destroyed. \<open>nd_own\<close> and \<open>nd_outer\<close>: the proxy's source and one of the owner's has been asked to stop.
\<close>

datatype branch = Br_running | Br_ended awaited | Br_looping | Br_cancelled

datatype 'r owner = Own_waiting | Own_got 'r | Own_cancelled | Own_panic

record nested =
  nd_branches :: "branch list"
  nd_turn :: "nat option"
  nd_own :: bool
  nd_outer :: bool

definition nested_new :: "nat \<Rightarrow> nested" where
  "nested_new n = \<lparr>nd_branches = replicate n Br_running, nd_turn = None, nd_own = False, nd_outer = False\<rparr>"

definition branch_alive :: "branch \<Rightarrow> bool" where
  "branch_alive b = (b = Br_running \<or> b = Br_looping)"

definition set_branch :: "nat \<Rightarrow> branch \<Rightarrow> nested \<Rightarrow> nested" where
  "set_branch i b d = d\<lparr>nd_branches := (nd_branches d)[i := b]\<rparr>"

definition domain_empty :: "nested \<Rightarrow> bool" where
  "domain_empty d \<longleftrightarrow> list_all (\<lambda>b. \<not> branch_alive b) (nd_branches d)"

text \<open>The turn of a branch, with the clean-up before and after it.\<close>

definition turn_begin :: "nat \<Rightarrow> nested \<Rightarrow> nested option" where
  "turn_begin i d =
     (if nd_turn d = None \<and> i < length (nd_branches d) \<and> branch_alive (nd_branches d ! i)
      then (if nd_own d \<or> nd_outer d then Some (set_branch i Br_cancelled d) else Some (d\<lparr>nd_turn := Some i\<rparr>))
      else None)"

definition turn_end :: "nested \<Rightarrow> nested option" where
  "turn_end d =
     (case nd_turn d of
        None \<Rightarrow> None
      | Some i \<Rightarrow>
          (let d = d\<lparr>nd_turn := None\<rparr> in
           if (nd_own d \<or> nd_outer d) \<and> branch_alive (nd_branches d ! i) then Some (set_branch i Br_cancelled d) else Some d))"

text \<open>\<open>await_resume\<close> of the future of a branch.\<close>

definition branch_result :: "branch \<Rightarrow> awaited option" where
  "branch_result b = (case b of Br_ended r \<Rightarrow> Some r | _ \<Rightarrow> None)"

section \<open>select\<close>

text \<open>\<open>m_complete_branch\<close> starts as the largest \<open>size_t\<close>.\<close>

record select =
  sl_domain :: nested
  sl_complete :: u64
  sl_owner :: "(nat \<times> awaited) owner"

definition select_new :: "nat \<Rightarrow> select" where
  "select_new n = \<lparr>sl_domain = nested_new n, sl_complete = - 1, sl_owner = Own_waiting\<rparr>"

text \<open>
  The rest of \<open>select_impl\<close> after the awaited future has given \<open>r\<close>, be it a value or an exception: who exchanges the mark
  first cancels the domain and ends with \<open>r\<close>; the others go into the loop.
\<close>

definition select_finish :: "nat \<Rightarrow> awaited \<Rightarrow> select \<Rightarrow> select" where
  "select_finish i r s =
     (if sl_complete s = - 1
      then s\<lparr>sl_complete := of_nat i, sl_domain := (set_branch i (Br_ended r) (sl_domain s))\<lparr>nd_own := True\<rparr>\<rparr>
      else s\<lparr>sl_domain := set_branch i Br_looping (sl_domain s)\<rparr>)"

text \<open>\<open>await_resume\<close> of the select.\<close>

definition select_resume :: "select \<Rightarrow> (nat \<times> awaited) owner" where
  "select_resume s =
     (if sl_complete s = - 1 then Own_panic
      else if unat (sl_complete s) < length (nd_branches (sl_domain s))
      then (case branch_result (nd_branches (sl_domain s) ! unat (sl_complete s)) of
              None \<Rightarrow> Own_panic
            | Some r \<Rightarrow> Own_got (unat (sl_complete s), r))
      else Own_panic)"

datatype select_action = Sl_begin nat | Sl_finish awaited | Sl_end | Sl_outer_cancel | Sl_owner

text \<open>The owner is cleaned up at the beginning of its turn if one of its sources asks for it.\<close>

fun select_step :: "select_action \<Rightarrow> select \<Rightarrow> select option" where
  "select_step (Sl_begin i) s = map_option (\<lambda>d. s\<lparr>sl_domain := d\<rparr>) (turn_begin i (sl_domain s))"
| "select_step (Sl_finish r) s =
     (case nd_turn (sl_domain s) of
        None \<Rightarrow> None
      | Some i \<Rightarrow> if nd_branches (sl_domain s) ! i = Br_running then Some (select_finish i r s) else None)"
| "select_step Sl_end s = map_option (\<lambda>d. s\<lparr>sl_domain := d\<rparr>) (turn_end (sl_domain s))"
| "select_step Sl_outer_cancel s = Some (s\<lparr>sl_domain := (sl_domain s)\<lparr>nd_outer := True\<rparr>\<rparr>)"
| "select_step Sl_owner s =
     (if sl_owner s = Own_waiting \<and> nd_turn (sl_domain s) = None \<and> domain_empty (sl_domain s)
      then Some (s\<lparr>sl_owner := (if nd_outer (sl_domain s) then Own_cancelled else select_resume s)\<rparr>)
      else None)"

text \<open>
  Nobody has finished, or one branch has: then its number is in the mark, the domain is cancelled, and no other branch has ended
  or spins.
\<close>

definition select_inv :: "nat \<Rightarrow> select \<Rightarrow> bool" where
  "select_inv n s \<longleftrightarrow>
     length (nd_branches (sl_domain s)) = n \<and> 0 < n \<and> n < 2 ^ 64 - 1 \<and>
     (\<forall>i. nd_turn (sl_domain s) = Some i \<longrightarrow> i < n \<and> (sl_complete s \<noteq> - 1 \<longrightarrow> i = unat (sl_complete s))) \<and>
     (\<forall>i<n. nd_branches (sl_domain s) ! i = Br_running \<or> nd_branches (sl_domain s) ! i = Br_cancelled \<or>
        sl_complete s \<noteq> - 1 \<and> i = unat (sl_complete s)) \<and>
     nd_own (sl_domain s) = (sl_complete s \<noteq> - 1) \<and>
     (sl_complete s = - 1 \<longrightarrow> (nd_outer (sl_domain s) \<or> (\<forall>i<n. nd_branches (sl_domain s) ! i = Br_running)) \<and>
        (sl_owner s = Own_waiting \<or> sl_owner s = Own_cancelled)) \<and>
     (sl_complete s \<noteq> - 1 \<longrightarrow> unat (sl_complete s) < n \<and>
        (\<exists>r. nd_branches (sl_domain s) ! unat (sl_complete s) = Br_ended r \<and>
           (sl_owner s = Own_waiting \<or> sl_owner s = Own_cancelled \<or> sl_owner s = Own_got (unat (sl_complete s), r))))"

lemma select_invD:
  assumes "select_inv n s"
  shows "length (nd_branches (sl_domain s)) = n" "0 < n" "n < 2 ^ 64 - 1"
    "nd_turn (sl_domain s) = Some i \<Longrightarrow> i < n" "nd_turn (sl_domain s) = Some i \<Longrightarrow> sl_complete s \<noteq> - 1 \<Longrightarrow> i = unat (sl_complete s)"
    "i < n \<Longrightarrow> nd_branches (sl_domain s) ! i = Br_running \<or> nd_branches (sl_domain s) ! i = Br_cancelled \<or>
        sl_complete s \<noteq> - 1 \<and> i = unat (sl_complete s)"
    "nd_own (sl_domain s) = (sl_complete s \<noteq> - 1)"
    "sl_complete s = - 1 \<Longrightarrow> \<not> nd_outer (sl_domain s) \<Longrightarrow> i < n \<Longrightarrow> nd_branches (sl_domain s) ! i = Br_running"
    "sl_complete s = - 1 \<Longrightarrow> sl_owner s = Own_waiting \<or> sl_owner s = Own_cancelled"
    "sl_complete s \<noteq> - 1 \<Longrightarrow> unat (sl_complete s) < n"
    "sl_complete s \<noteq> - 1 \<Longrightarrow> \<exists>r. nd_branches (sl_domain s) ! unat (sl_complete s) = Br_ended r \<and>
       (sl_owner s = Own_waiting \<or> sl_owner s = Own_cancelled \<or> sl_owner s = Own_got (unat (sl_complete s), r))"
  using assms unfolding select_inv_def by blast+

text \<open>A step that only destroys branches, or begins or ends a turn.\<close>

lemma select_domain_inv:
  assumes inv: "select_inv n s" and len: "length (nd_branches d) = n"
    and turn: "\<And>i. nd_turn d = Some i \<Longrightarrow> i < n \<and> (sl_complete s \<noteq> - 1 \<longrightarrow> i = unat (sl_complete s))"
    and br: "\<And>i. i < n \<Longrightarrow> nd_branches d ! i = nd_branches (sl_domain s) ! i \<or>
        nd_branches d ! i = Br_cancelled \<and> (nd_own d \<or> nd_outer d) \<and> branch_alive (nd_branches (sl_domain s) ! i)"
    and own: "nd_own d = nd_own (sl_domain s)" and outer: "nd_outer (sl_domain s) \<Longrightarrow> nd_outer d"
  shows "select_inv n (s\<lparr>sl_domain := d\<rparr>)"
proof -
  note D = select_invD [OF inv]
  have c: "nd_branches d ! i = Br_running \<or> nd_branches d ! i = Br_cancelled \<or> sl_complete s \<noteq> - 1 \<and> i = unat (sl_complete s)"
    if "i < n" for i
    using br [OF that] D(6) [OF that] by auto
  have e: "nd_outer d \<or> (\<forall>i<n. nd_branches d ! i = Br_running)" if "sl_complete s = - 1"
  proof (cases "nd_outer d")
    case False
    then have "\<not> nd_outer (sl_domain s)" "\<not> nd_own d" using outer own D(7) that by auto
    with br D(8) [OF that] False show ?thesis by auto
  qed simp
  have f: "\<exists>r. nd_branches d ! unat (sl_complete s) = Br_ended r \<and>
       (sl_owner s = Own_waiting \<or> sl_owner s = Own_cancelled \<or> sl_owner s = Own_got (unat (sl_complete s), r))"
    if nc: "sl_complete s \<noteq> - 1"
    using br [OF D(10) [OF nc]] D(11) [OF nc] by (auto simp: branch_alive_def)
  show ?thesis
    unfolding select_inv_def using len turn c e f own D(2,3,7,9,10) by simp
qed

lemma select_step_inv:
  assumes inv: "select_inv n s" and step: "select_step act s = Some s'"
  shows "select_inv n s'"
proof (cases act)
  case (Sl_begin i)
  note D = select_invD [OF inv]
  let ?d = "sl_domain s"
  from step Sl_begin obtain d where d: "turn_begin i ?d = Some d" "s' = s\<lparr>sl_domain := d\<rparr>" by auto
  then have i: "nd_turn ?d = None" "i < n" "branch_alive (nd_branches ?d ! i)"
    using D(1) by (auto simp: turn_begin_def split: if_splits)
  show ?thesis
  proof (cases "nd_own ?d \<or> nd_outer ?d")
    case True
    then have d': "d = set_branch i Br_cancelled ?d" using d(1) i D(1) by (simp add: turn_begin_def)
    show ?thesis
      unfolding d(2)
      by (rule select_domain_inv [OF inv]) (use True i D(1) in \<open>auto simp: d' set_branch_def nth_list_update\<close>)
  next
    case False
    then have d': "d = ?d\<lparr>nd_turn := Some i\<rparr>" using d(1) i D(1) by (simp add: turn_begin_def)
    show ?thesis
      unfolding d(2) by (rule select_domain_inv [OF inv]) (use False i D(1,7) in \<open>auto simp: d'\<close>)
  qed
next
  case (Sl_finish r)
  note D = select_invD [OF inv]
  from step Sl_finish obtain i where i: "nd_turn (sl_domain s) = Some i" "nd_branches (sl_domain s) ! i = Br_running"
    "s' = select_finish i r s" by (auto split: option.splits if_splits)
  have lt: "i < n" by (rule D(4) [OF i(1)])
  have free: "sl_complete s = - 1"
    using D(5) [OF i(1)] D(11) i(2) by fastforce
  have no: "\<not> nd_outer (sl_domain s) \<or> nd_outer (sl_domain s)" by simp
  have u: "unat (of_nat i :: u64) = i" "(of_nat i :: u64) \<noteq> - 1"
  proof -
    show *: "unat (of_nat i :: u64) = i" using lt D(3) by (simp add: unat_of_nat)
    have "unat (- 1 :: u64) = 2 ^ 64 - 1" by (simp add: unsigned_minus_1_eq_mask mask_eq_exp_minus_1)
    then show "(of_nat i :: u64) \<noteq> - 1" using * lt D(3) by (metis less_trans nat_neq_iff)
  qed
  show ?thesis
    unfolding i(3) select_finish_def select_inv_def
    using free u lt i(1) D(1,2,3,6,9) by (auto simp: set_branch_def nth_list_update)
next
  case Sl_end
  note D = select_invD [OF inv]
  let ?d = "sl_domain s"
  from step Sl_end obtain d where d: "turn_end ?d = Some d" "s' = s\<lparr>sl_domain := d\<rparr>" by auto
  then obtain i where i: "nd_turn ?d = Some i" by (auto simp: turn_end_def split: option.splits)
  have lt: "i < n" by (rule D(4) [OF i])
  show ?thesis
    unfolding d(2)
    by (rule select_domain_inv [OF inv])
      (use d(1) i lt D(1) in \<open>auto simp: turn_end_def Let_def set_branch_def nth_list_update split: if_splits\<close>)
next
  case Sl_outer_cancel
  note D = select_invD [OF inv]
  from step Sl_outer_cancel have s': "s' = s\<lparr>sl_domain := (sl_domain s)\<lparr>nd_outer := True\<rparr>\<rparr>" by simp
  show ?thesis unfolding s' by (rule select_domain_inv [OF inv]) (use D in auto)
next
  case Sl_owner
  note D = select_invD [OF inv]
  from step Sl_owner have e: "sl_owner s = Own_waiting" "domain_empty (sl_domain s)"
    and s': "s' = s\<lparr>sl_owner := (if nd_outer (sl_domain s) then Own_cancelled else select_resume s)\<rparr>"
    by (auto split: if_splits)
  have dead: "\<not> branch_alive (nd_branches (sl_domain s) ! i)" if "i < n" for i
    using e(2) that D(1) by (simp add: domain_empty_def list_all_length)
  have got: "select_resume s = Own_got (unat (sl_complete s), r)"
    if "sl_complete s \<noteq> - 1" "nd_branches (sl_domain s) ! unat (sl_complete s) = Br_ended r" for r
    using that D(1) D(10) by (simp add: select_resume_def branch_result_def)
  have "nd_outer (sl_domain s)" if "sl_complete s = - 1"
    using dead [OF D(2)] D(8) [OF that _ D(2)] by (auto simp: branch_alive_def)
  then show ?thesis
    using inv D(11) got unfolding s' select_inv_def by auto
qed

interpretation selects: invariant_system select_step "select_inv n" for n
  by unfold_locales (rule select_step_inv)

lemma select_new_inv: "0 < n \<Longrightarrow> n < 2 ^ 64 - 1 \<Longrightarrow> select_inv n (select_new n)"
  by (simp add: select_inv_def select_new_def nested_new_def)


definition select_example :: "select_action list" where
  "select_example = [Sl_begin 0, Sl_end, Sl_begin 1, Sl_finish (Rethrown 5), Sl_end, Sl_begin 0, Sl_begin 2, Sl_owner]"

lemmas select_eval = select_new_def nested_new_def turn_begin_def turn_end_def set_branch_def branch_alive_def domain_empty_def
  select_finish_def select_resume_def branch_result_def Let_def


section \<open>join_all\<close>

text \<open>All branches run to their end; an exception becomes the error of the branch, nothing the unit value.\<close>

datatype 'a join_value = Join_unit | Join_value 'a

definition expected_of :: "awaited \<Rightarrow> nat + nat join_value" where
  "expected_of r = (case r of Awaited_void \<Rightarrow> Inr Join_unit | Awaited v \<Rightarrow> Inr (Join_value v) | Rethrown e \<Rightarrow> Inl e | Awaited_moved \<Rightarrow> Inr Join_unit)"

record join_all =
  ja_domain :: nested
  ja_owner :: "(nat + nat join_value) list owner"

definition join_all_new :: "nat \<Rightarrow> join_all" where
  "join_all_new n = \<lparr>ja_domain = nested_new n, ja_owner = Own_waiting\<rparr>"

text \<open>\<open>await_resume\<close>: the results in the order of the branches; the future of a branch that did not end has none.\<close>

definition join_all_resume :: "nested \<Rightarrow> (nat + nat join_value) list owner" where
  "join_all_resume d =
     (if list_all (\<lambda>b. branch_result b \<noteq> None) (nd_branches d)
      then Own_got (map (\<lambda>b. expected_of (the (branch_result b))) (nd_branches d)) else Own_panic)"

datatype join_all_action = Ja_begin nat | Ja_finish awaited | Ja_end | Ja_outer_cancel | Ja_owner

fun join_all_step :: "join_all_action \<Rightarrow> join_all \<Rightarrow> join_all option" where
  "join_all_step (Ja_begin i) s = map_option (\<lambda>d. s\<lparr>ja_domain := d\<rparr>) (turn_begin i (ja_domain s))"
| "join_all_step (Ja_finish r) s =
     (case nd_turn (ja_domain s) of
        None \<Rightarrow> None
      | Some i \<Rightarrow>
          if nd_branches (ja_domain s) ! i = Br_running then Some (s\<lparr>ja_domain := set_branch i (Br_ended r) (ja_domain s)\<rparr>) else None)"
| "join_all_step Ja_end s = map_option (\<lambda>d. s\<lparr>ja_domain := d\<rparr>) (turn_end (ja_domain s))"
| "join_all_step Ja_outer_cancel s = Some (s\<lparr>ja_domain := (ja_domain s)\<lparr>nd_outer := True\<rparr>\<rparr>)"
| "join_all_step Ja_owner s =
     (if ja_owner s = Own_waiting \<and> nd_turn (ja_domain s) = None \<and> domain_empty (ja_domain s)
      then Some (s\<lparr>ja_owner := (if nd_outer (ja_domain s) then Own_cancelled else join_all_resume (ja_domain s))\<rparr>)
      else None)"

definition join_all_inv :: "nat \<Rightarrow> join_all \<Rightarrow> bool" where
  "join_all_inv n s \<longleftrightarrow>
     length (nd_branches (ja_domain s)) = n \<and> \<not> nd_own (ja_domain s) \<and> (\<forall>i. nd_turn (ja_domain s) = Some i \<longrightarrow> i < n) \<and>
     Br_looping \<notin> set (nd_branches (ja_domain s)) \<and>
     (\<not> nd_outer (ja_domain s) \<longrightarrow> Br_cancelled \<notin> set (nd_branches (ja_domain s))) \<and>
     ja_owner s \<noteq> Own_panic \<and>
     (\<forall>rs. ja_owner s = Own_got rs \<longrightarrow>
        (\<exists>qs. nd_branches (ja_domain s) = map Br_ended qs \<and> rs = map expected_of qs))"

lemma join_all_domain_inv:
  assumes inv: "join_all_inv n s" and "turn_begin i (ja_domain s) = Some d \<or> turn_end (ja_domain s) = Some d"
  shows "join_all_inv n (s\<lparr>ja_domain := d\<rparr>)"
proof -
  let ?d = "ja_domain s"
  have no: "\<not> nd_own ?d" using inv by (simp add: join_all_inv_def)
  have cases: "(\<exists>t. d = ?d\<lparr>nd_turn := t\<rparr> \<and> (\<forall>i. t = Some i \<longrightarrow> i < length (nd_branches ?d))) \<or>
      (\<exists>j t. d = set_branch j Br_cancelled ?d\<lparr>nd_turn := t\<rparr> \<and> t = None \<and> nd_outer ?d \<and> j < length (nd_branches ?d) \<and> branch_alive (nd_branches ?d ! j))"
    using assms(2)
  proof
    assume "turn_begin i ?d = Some d"
    then show ?thesis using no by (auto simp: turn_begin_def set_branch_def split: if_splits)
  next
    assume t: "turn_end ?d = Some d"
    then obtain j where j: "nd_turn ?d = Some j" by (auto simp: turn_end_def split: option.splits)
    then have "j < length (nd_branches ?d)" using inv by (auto simp: join_all_inv_def)
    with t j no show ?thesis by (auto simp: turn_end_def Let_def set_branch_def split: if_splits)
  qed
  then show ?thesis
  proof
    assume "\<exists>t. d = ?d\<lparr>nd_turn := t\<rparr> \<and> (\<forall>i. t = Some i \<longrightarrow> i < length (nd_branches ?d))"
    with inv show ?thesis by (auto simp: join_all_inv_def)
  next
    assume "\<exists>j t. d = set_branch j Br_cancelled ?d\<lparr>nd_turn := t\<rparr> \<and> t = None \<and> nd_outer ?d \<and> j < length (nd_branches ?d) \<and> branch_alive (nd_branches ?d ! j)"
    then obtain j where d: "d = set_branch j Br_cancelled ?d\<lparr>nd_turn := None\<rparr>" "nd_outer ?d" "j < length (nd_branches ?d)"
      "branch_alive (nd_branches ?d ! j)" by blast
    have "nd_branches ?d \<noteq> map Br_ended qs" for qs
    proof
      assume "nd_branches ?d = map Br_ended qs"
      with d(3,4) show False by (simp add: branch_alive_def)
    qed
    with inv d show ?thesis
      by (auto simp: join_all_inv_def set_branch_def dest!: set_update_subset_insert [THEN subsetD])
  qed
qed

lemma join_all_resume_ok:
  assumes "domain_empty d" "Br_looping \<notin> set (nd_branches d)" "Br_cancelled \<notin> set (nd_branches d)"
  shows "\<exists>qs. nd_branches d = map Br_ended qs \<and> join_all_resume d = Own_got (map expected_of qs)"
proof -
  have "\<exists>qs. bs = map Br_ended qs" if "\<forall>b\<in>set bs. \<not> branch_alive b \<and> b \<noteq> Br_looping \<and> b \<noteq> Br_cancelled" for bs
    using that
  proof (induction bs)
    case (Cons b bs)
    then obtain qs where "bs = map Br_ended qs" by auto
    moreover from Cons.prems obtain q where "b = Br_ended q" by (cases b) (auto simp: branch_alive_def)
    ultimately show ?case by (intro exI [of _ "q # qs"]) simp
  qed simp
  then obtain qs where qs: "nd_branches d = map Br_ended qs"
    using assms by (metis domain_empty_def list_all_iff)
  moreover have "join_all_resume d = Own_got (map expected_of qs)"
    by (simp add: join_all_resume_def qs list_all_iff branch_result_def comp_def)
  ultimately show ?thesis by blast
qed

lemma join_all_step_inv:
  assumes inv: "join_all_inv n s" and step: "join_all_step act s = Some s'"
  shows "join_all_inv n s'"
proof (cases act)
  case (Ja_begin i)
  with step obtain d where "turn_begin i (ja_domain s) = Some d" "s' = s\<lparr>ja_domain := d\<rparr>" by auto
  with join_all_domain_inv [OF inv] show ?thesis by blast
next
  case (Ja_finish r)
  with step obtain i where i: "nd_turn (ja_domain s) = Some i" "nd_branches (ja_domain s) ! i = Br_running"
    "s' = s\<lparr>ja_domain := set_branch i (Br_ended r) (ja_domain s)\<rparr>" by (auto split: option.splits if_splits)
  have lt: "i < length (nd_branches (ja_domain s))" using inv i(1) by (auto simp: join_all_inv_def)
  have "nd_branches (ja_domain s) \<noteq> map Br_ended qs" for qs
  proof
    assume "nd_branches (ja_domain s) = map Br_ended qs"
    with i(2) lt show False by simp
  qed
  with inv i(3) show ?thesis
    by (auto simp: join_all_inv_def set_branch_def dest!: set_update_subset_insert [THEN subsetD])
next
  case Ja_end
  with step obtain d where "turn_end (ja_domain s) = Some d" "s' = s\<lparr>ja_domain := d\<rparr>" by auto
  with join_all_domain_inv [OF inv] show ?thesis by blast
next
  case Ja_outer_cancel
  with step inv show ?thesis by (auto simp: join_all_inv_def)
next
  case Ja_owner
  with step have e: "domain_empty (ja_domain s)"
    and s': "s' = s\<lparr>ja_owner := (if nd_outer (ja_domain s) then Own_cancelled else join_all_resume (ja_domain s))\<rparr>"
    by (auto split: if_splits)
  show ?thesis
  proof (cases "nd_outer (ja_domain s)")
    case True
    with inv s' show ?thesis by (simp add: join_all_inv_def)
  next
    case False
    with inv join_all_resume_ok [OF e] obtain qs where "nd_branches (ja_domain s) = map Br_ended qs"
      "join_all_resume (ja_domain s) = Own_got (map expected_of qs)" by (auto simp: join_all_inv_def)
    with False inv s' show ?thesis by (auto simp: join_all_inv_def)
  qed
qed

interpretation join_alls: invariant_system join_all_step "join_all_inv n" for n
  by unfold_locales (rule join_all_step_inv)

lemma join_all_new_inv: "join_all_inv n (join_all_new n)"
  by (auto simp: join_all_inv_def join_all_new_def nested_new_def)

text \<open>
  C36: \<open>join_all\<close> collects everything: whatever the order of turns, it goes on only when every branch has ended, with the results of
  all of them in the order of the branches (the exception of a branch that threw); it stops without them only when the
  owner was cancelled.
\<close>

theorem join_all_collects:
  assumes "run join_all_step as (join_all_new n) = Some s"
  shows "ja_owner s \<noteq> Own_panic \<and>
    (\<forall>rs. ja_owner s = Own_got rs \<longrightarrow>
       length rs = n \<and> (\<exists>qs. nd_branches (ja_domain s) = map Br_ended qs \<and> rs = map expected_of qs))"
proof -
  have inv: "join_all_inv n s" by (rule join_alls.run_inv [OF join_all_new_inv assms])
  then have "length rs = n" if "nd_branches (ja_domain s) = map Br_ended qs" "rs = map expected_of qs" for rs qs
    using that by (auto simp: join_all_inv_def)
  with inv show ?thesis unfolding join_all_inv_def by blast
qed

lemma join_all_collects_witness:
  "\<exists>s. run join_all_step [Ja_begin 1, Ja_finish (Rethrown 5), Ja_end, Ja_begin 0, Ja_end, Ja_begin 0, Ja_finish (Awaited 7), Ja_end, Ja_owner]
       (join_all_new 2) = Some s \<and> ja_owner s = Own_got [Inr (Join_value 7), Inl 5] \<and> ja_owner s \<noteq> Own_panic"
proof -
  let ?as = "[Ja_begin 1, Ja_finish (Rethrown 5), Ja_end, Ja_begin 0, Ja_end, Ja_begin 0, Ja_finish (Awaited 7), Ja_end, Ja_owner]"
  have "\<exists>s. run join_all_step ?as (join_all_new 2) = Some s \<and> ja_owner s = Own_got [Inr (Join_value 7), Inl 5]"
    by (simp add: join_all_new_def select_eval join_all_resume_def expected_of_def)
  then obtain s where s: "run join_all_step ?as (join_all_new 2) = Some s" "ja_owner s = Own_got [Inr (Join_value 7), Inl 5]"
    by (elim exE conjE) (rule that)
  with join_all_collects [OF s(1)] show ?thesis by (intro exI [of _ s]) simp
qed

section \<open>fetch_result\<close>

text \<open>The value, or the exception thrown again; it undoes what \<open>join_all\<close> did to a result.\<close>

definition fetch_result :: "nat + nat join_value \<Rightarrow> awaited" where
  "fetch_result e = (case e of Inl ex \<Rightarrow> Rethrown ex | Inr Join_unit \<Rightarrow> Awaited_void | Inr (Join_value v) \<Rightarrow> Awaited v)"

lemma fetch_expected: "r \<noteq> Awaited_moved \<Longrightarrow> fetch_result (expected_of r) = r"
  by (cases r) (simp_all add: fetch_result_def expected_of_def)

end
