(* ===== verification/Spinlock.thy ===== *)
theory Spinlock
  imports Asco_Prelude
begin

text \<open>
  \<open>asco/sync/spinlock.h\<close> and the back-off of \<open>asco/concurrency/concurrency.h\<close>. The lock
  word is one atomic boolean; the guards are objects that the threads construct, move and
  destroy. A guard is what its pointer \<open>m_lock\<close> is: null, or the address of the lock.
\<close>

section \<open>Back-off\<close>

text \<open>\<open>withdraw<N>\<close> executes \<open>N\<close> pause instructions; the model returns how many.\<close>

fun withdraw :: "nat \<Rightarrow> nat" where
  "withdraw 0 = 0"
| "withdraw (Suc n) = Suc (withdraw n)"

definition exp_withdraw :: "nat \<Rightarrow> nat" where
  "exp_withdraw i =
     (let c = (2 :: nat) ^ (if i \<ge> 6 then 6 else i)
      in if c = 1 then withdraw 1
         else if c = 2 then withdraw 2
         else if c = 4 then withdraw 4
         else if c = 8 then withdraw 8
         else if c = 16 then withdraw 16
         else if c = 32 then withdraw 32
         else withdraw 64)"

lemma withdraw_eq [simp]: "withdraw n = n"
  by (induction n) simp_all

lemma less_six_cases: "i < 6 \<longleftrightarrow> i = 0 \<or> i = 1 \<or> i = 2 \<or> i = 3 \<or> i = 4 \<or> i = (5 :: nat)"
  by auto

lemma exp_withdraw_eq: "exp_withdraw i = 2 ^ min i 6"
  by (cases "i < 6") (auto simp: exp_withdraw_def less_six_cases)

section \<open>The untyped lock\<close>

record spinlock =
  m_locked :: bool

datatype guard = Null_guard | Guard_of_lock

definition spinlock_new :: spinlock where
  "spinlock_new = \<lparr>m_locked = False\<rparr>"

definition guard_dtor :: "guard \<Rightarrow> spinlock \<Rightarrow> spinlock" where
  "guard_dtor g l = (if g = Null_guard then l else l\<lparr>m_locked := False\<rparr>)"

text \<open>The move constructor: the new guard, and what is left in \<open>rhs\<close>.\<close>

definition guard_move :: "guard \<Rightarrow> guard \<times> guard" where
  "guard_move rhs = (rhs, Null_guard)"

text \<open>Move assignment of a different object: destroy, then move-construct in place.\<close>

definition guard_move_assign :: "guard \<Rightarrow> guard \<Rightarrow> spinlock \<Rightarrow> guard \<times> guard \<times> spinlock" where
  "guard_move_assign this rhs l =
     (let l' = guard_dtor this l; (this', rhs') = guard_move rhs in (this', rhs', l'))"

definition guard_bool :: "guard \<Rightarrow> bool" where
  "guard_bool g \<longleftrightarrow> g \<noteq> Null_guard"

definition spinlock_dtor :: "spinlock \<Rightarrow> unit outcome" where
  "spinlock_dtor l = (if m_locked l then Inl Destroyed_while_locked else Inr ())"

text \<open>
  One iteration of the loop of \<open>lock\<close>: \<open>compare_exchange_weak(b = false, true)\<close>, which may
  also fail spuriously. A failed iteration backs off and increments \<open>lc\<close>.
\<close>

definition lock_iteration :: "bool \<Rightarrow> nat \<Rightarrow> spinlock \<Rightarrow> (nat + guard) \<times> spinlock" where
  "lock_iteration spurious lc l =
     (if \<not> m_locked l \<and> \<not> spurious then (Inr Guard_of_lock, l\<lparr>m_locked := True\<rparr>)
      else (Inl (lc + 1), l))"

definition try_lock :: "spinlock \<Rightarrow> guard \<times> spinlock" where
  "try_lock l =
     (if \<not> m_locked l then (Guard_of_lock, l\<lparr>m_locked := True\<rparr>) else (Null_guard, l))"

section \<open>Threads sharing one lock\<close>

text \<open>
  \<open>spinning ! t\<close> is \<open>Some lc\<close> while thread \<open>t\<close> is in the loop of \<open>lock\<close>. \<open>guards\<close> are the guard
  variables of all threads (a destroyed variable counts as null).
\<close>

record spin_sys =
  the_lock :: spinlock
  spinning :: "nat option list"
  guards :: "guard list"

datatype spin_action =
    Call_lock nat
  | Lock_cas nat bool
  | Call_try_lock
  | Destroy_guard nat
  | Move_guard nat
  | Move_assign_guard nat nat

fun spin_step :: "spin_action \<Rightarrow> spin_sys \<Rightarrow> spin_sys option" where
  "spin_step (Call_lock t) s =
     (if t < length (spinning s) \<and> spinning s ! t = None
      then Some (s\<lparr>spinning := (spinning s)[t := Some 0]\<rparr>) else None)"
| "spin_step (Lock_cas t spurious) s =
     (if t < length (spinning s) then
        case spinning s ! t of
          None \<Rightarrow> None
        | Some lc \<Rightarrow>
            (case lock_iteration spurious lc (the_lock s) of
               (Inl lc', l) \<Rightarrow> Some (s\<lparr>the_lock := l, spinning := (spinning s)[t := Some lc']\<rparr>)
             | (Inr g, l) \<Rightarrow> Some (s\<lparr>the_lock := l, spinning := (spinning s)[t := None],
                                    guards := guards s @ [g]\<rparr>))
      else None)"
| "spin_step Call_try_lock s =
     (case try_lock (the_lock s) of
        (g, l) \<Rightarrow> Some (s\<lparr>the_lock := l, guards := guards s @ [g]\<rparr>))"
| "spin_step (Destroy_guard i) s =
     (if i < length (guards s)
      then Some (s\<lparr>the_lock := guard_dtor (guards s ! i) (the_lock s),
                   guards := (guards s)[i := Null_guard]\<rparr>) else None)"
| "spin_step (Move_guard i) s =
     (if i < length (guards s)
      then (case guard_move (guards s ! i) of
              (g, rhs) \<Rightarrow> Some (s\<lparr>guards := (guards s)[i := rhs] @ [g]\<rparr>)) else None)"
| "spin_step (Move_assign_guard i j) s =
     (if i < length (guards s) \<and> j < length (guards s) \<and> i \<noteq> j
      then (case guard_move_assign (guards s ! i) (guards s ! j) (the_lock s) of
              (g, rhs, l) \<Rightarrow> Some (s\<lparr>the_lock := l, guards := (guards s)[i := g, j := rhs]\<rparr>))
      else None)"

definition spin_init :: "nat \<Rightarrow> spin_sys" where
  "spin_init n = \<lparr>the_lock = spinlock_new, spinning = replicate n None, guards = []\<rparr>"

abbreviation live_guards :: "spin_sys \<Rightarrow> nat" where
  "live_guards s \<equiv> count_if guard_bool (guards s)"

definition spin_inv :: "spin_sys \<Rightarrow> bool" where
  "spin_inv s \<longleftrightarrow> live_guards s = of_bool (m_locked (the_lock s))"

lemmas spinlock_defs = guard_dtor_def guard_move_def guard_move_assign_def guard_bool_def
  lock_iteration_def try_lock_def

lemma live_guards_update:
  "i < length gs \<Longrightarrow>
     int (count_if guard_bool (gs[i := g])) =
       int (count_if guard_bool gs) - of_bool (guard_bool (gs ! i)) + of_bool (guard_bool g)"
  by (rule count_if_update)

lemma spin_step_inv [asco_inv]:
  assumes "spin_inv s" "spin_step a s = Some s'"
  shows "spin_inv s'"
proof (cases a)
  case (Destroy_guard i)
  with assms have i: "i < length (guards s)" by (auto split: if_splits)
  have "guard_bool (guards s ! i) \<Longrightarrow> 0 < live_guards s"
    using i by (rule count_if_pos)
  with assms Destroy_guard i live_guards_update [OF i, of Null_guard] show ?thesis
    by (auto simp: spin_inv_def spinlock_defs split: if_splits)
next
  case (Move_guard i)
  with assms have i: "i < length (guards s)" by (auto split: if_splits)
  have "guard_bool (guards s ! i) \<Longrightarrow> 0 < live_guards s"
    using i by (rule count_if_pos)
  with assms Move_guard i live_guards_update [OF i, of Null_guard] show ?thesis
    by (cases "guards s ! i") (auto simp: spin_inv_def spinlock_defs split: if_splits)
next
  case (Move_assign_guard i j)
  with assms have ij: "i < length (guards s)" "j < length (guards s)" "i \<noteq> j"
    by (auto split: if_splits)
  have pos: "guard_bool (guards s ! i) \<Longrightarrow> 0 < live_guards s"
    using ij(1) by (rule count_if_pos)
  have both: "guard_bool (guards s ! i) \<Longrightarrow> guard_bool (guards s ! j) \<Longrightarrow> 2 \<le> live_guards s"
    using ij by (rule count_if_two)
  from assms Move_assign_guard ij pos both
    live_guards_update [OF ij(1), of "guards s ! j"]
    live_guards_update [of j "(guards s)[i := guards s ! j]" Null_guard] show ?thesis
    by (auto simp: spin_inv_def spinlock_defs split: if_splits)
qed (use assms in \<open>auto simp: spin_inv_def spinlock_defs split: if_splits option.splits sum.splits prod.splits\<close>)

interpretation spin: exclusive_system spin_step spin_inv live_guards
proof unfold_locales
  show "spin_inv s \<Longrightarrow> spin_step a s = Some s' \<Longrightarrow> spin_inv s'" for s a s'
    by (rule spin_step_inv)
  show "spin_inv s \<Longrightarrow> live_guards s \<le> 1" for s
    by (simp add: spin_inv_def)
qed

lemma spin_inv_init: "spin_inv (spin_init n)"
  by (simp add: spin_inv_def spin_init_def spinlock_new_def)

text \<open>
  C10: whatever the threads do with the lock and its guards, at most one guard is live; and
  the lock word is set exactly while one is, so the destructor panics exactly when the lock
  is destroyed under a live guard.
\<close>

theorem spinlock_mutual_exclusion:
  assumes "run spin_step as (spin_init n) = Some s"
  shows "live_guards s \<le> 1 \<and>
    (spinlock_dtor (the_lock s) = Inl Destroyed_while_locked \<longleftrightarrow> live_guards s = 1)"
proof -
  have "spin_inv s" and "live_guards s \<le> 1"
    by (rule spin.run_inv spin.mutual_exclusion, rule spin_inv_init, rule assms)+
  then show ?thesis
    by (simp add: spin_inv_def spinlock_dtor_def)
qed

theorem spinlock_mutual_exclusion_witness:
  "\<exists>s. run spin_step [Call_lock 0, Lock_cas 0 True, Lock_cas 0 False, Call_try_lock, Move_guard 0]
      (spin_init 2) = Some s \<and> live_guards s \<le> 1 \<and> live_guards s = 1"
proof -
  let ?as = "[Call_lock 0, Lock_cas 0 True, Lock_cas 0 False, Call_try_lock, Move_guard 0]"
  obtain s where s: "run spin_step ?as (spin_init 2) = Some s" and "live_guards s = 1"
    by (simp add: spin_init_def spinlock_new_def spinlock_defs numeral_2_eq_2)
  with spinlock_mutual_exclusion [OF s] show ?thesis by auto
qed

section \<open>The lock that owns a value\<close>

record 'a spinlock_t =
  m_value :: 'a
  m_lock_t :: spinlock

text \<open>\<open>tg_lock\<close> is \<open>m_lock != nullptr\<close>, \<open>tg_guard\<close> the guard of the inner lock.\<close>

record guard_t =
  tg_lock :: bool
  tg_guard :: guard

definition guard_t_null :: guard_t where
  "guard_t_null = \<lparr>tg_lock = False, tg_guard = Null_guard\<rparr>"

definition guard_t_dtor :: "guard_t \<Rightarrow> 'a spinlock_t \<Rightarrow> 'a spinlock_t" where
  "guard_t_dtor g l = l\<lparr>m_lock_t := guard_dtor (tg_guard g) (m_lock_t l)\<rparr>"

definition guard_t_move :: "guard_t \<Rightarrow> guard_t \<times> guard_t" where
  "guard_t_move rhs =
     (case guard_move (tg_guard rhs) of
        (g, r) \<Rightarrow> (\<lparr>tg_lock = tg_lock rhs, tg_guard = g\<rparr>, \<lparr>tg_lock = False, tg_guard = r\<rparr>))"

definition guard_t_move_assign ::
    "guard_t \<Rightarrow> guard_t \<Rightarrow> 'a spinlock_t \<Rightarrow> guard_t \<times> guard_t \<times> 'a spinlock_t" where
  "guard_t_move_assign this rhs l =
     (let l' = guard_t_dtor this l; (this', rhs') = guard_t_move rhs in (this', rhs', l'))"

definition guard_t_deref :: "guard_t \<Rightarrow> 'a spinlock_t \<Rightarrow> 'a outcome" where
  "guard_t_deref g l = (if \<not> tg_lock g then Inl Null_guard_dereferenced else Inr (m_value l))"

definition guard_t_store :: "guard_t \<Rightarrow> 'a \<Rightarrow> 'a spinlock_t \<Rightarrow> 'a spinlock_t outcome" where
  "guard_t_store g v l =
     (if \<not> tg_lock g then Inl Null_guard_dereferenced else Inr (l\<lparr>m_value := v\<rparr>))"

definition lock_t_iteration :: "bool \<Rightarrow> nat \<Rightarrow> 'a spinlock_t \<Rightarrow> (nat + guard_t) \<times> 'a spinlock_t" where
  "lock_t_iteration spurious lc l =
     (case lock_iteration spurious lc (m_lock_t l) of
        (Inl lc', l') \<Rightarrow> (Inl lc', l\<lparr>m_lock_t := l'\<rparr>)
      | (Inr g, l') \<Rightarrow> (Inr \<lparr>tg_lock = True, tg_guard = g\<rparr>, l\<lparr>m_lock_t := l'\<rparr>))"

definition guard_t_ok :: "guard_t \<Rightarrow> bool" where
  "guard_t_ok g \<longleftrightarrow> (tg_lock g \<longleftrightarrow> guard_bool (tg_guard g))"

text \<open>
  a guard of the value lock can be dereferenced exactly while it holds the inner lock:
  every operation that makes guards (acquire, move, move-assign) keeps the two pointers in
  step, so no access to the value happens without the lock.
\<close>

theorem spinlock_value_guarded:
  assumes "guard_t_ok g" "guard_t_ok h"
  shows "(\<forall>g' l'. lock_t_iteration sp lc l = (Inr g', l') \<longrightarrow> guard_t_ok g' \<and> tg_lock g') \<and>
    (case guard_t_move g of (a, b) \<Rightarrow> guard_t_ok a \<and> guard_t_ok b) \<and>
    (case guard_t_move_assign g h l of (a, b, _) \<Rightarrow> guard_t_ok a \<and> guard_t_ok b) \<and>
    (guard_t_deref g l = Inr (m_value l) \<longleftrightarrow> guard_bool (tg_guard g))"
  using assms
  by (auto simp: guard_t_ok_def lock_t_iteration_def guard_t_move_def guard_t_move_assign_def
      guard_t_deref_def spinlock_defs Let_def split: sum.splits if_splits prod.splits)

theorem spinlock_value_guarded_witness:
  "guard_t_ok guard_t_null \<and> guard_t_ok \<lparr>tg_lock = True, tg_guard = Guard_of_lock\<rparr> \<and>
   guard_t_deref guard_t_null \<lparr>m_value = (7 :: nat), m_lock_t = spinlock_new\<rparr> = Inl Null_guard_dereferenced"
proof -
  let ?l = "\<lparr>m_value = (7 :: nat), m_lock_t = spinlock_new\<rparr>"
  have ok: "guard_t_ok guard_t_null" "guard_t_ok \<lparr>tg_lock = True, tg_guard = Guard_of_lock\<rparr>"
    by (simp_all add: guard_t_ok_def guard_bool_def guard_t_null_def)
  from spinlock_value_guarded [OF ok, of False 0 ?l]
  have "guard_t_deref guard_t_null ?l \<noteq> Inr 7"
    by (simp add: guard_bool_def guard_t_null_def)
  with ok show ?thesis
    by (auto simp: guard_t_deref_def split: if_splits)
qed

end
