(* ===== verification/Spinrwlock.thy ===== *)
theory Spinrwlock
  imports Spinlock
begin

text \<open>
  \<open>asco/sync/spinrwlock.h\<close>. The lock word \<open>m_state\<close> counts the readers in its low 62 bits;
  bit 63 is the writer, bit 62 a writer that is waiting. Each atomic access of \<open>read\<close>,
  \<open>try_read\<close>, \<open>write\<close> and \<open>try_write\<close> is one step of the calling thread, and the program
  counter keeps the local variables \<open>e\<close> and \<open>lc\<close>.
\<close>

section \<open>State and guards\<close>

definition write_mask :: u64 where "write_mask = push_bit (8 * 8 - 1) 1"
definition write_willing_mask :: u64 where "write_willing_mask = drop_bit 1 write_mask"

lemma masks [simp]:
  "write_mask = 0x8000000000000000" "write_willing_mask = 0x4000000000000000"
  by (simp_all add: write_mask_def write_willing_mask_def)

record spinrwlock =
  m_state :: u64

definition spinrwlock_new :: spinrwlock where
  "spinrwlock_new = \<lparr>m_state = 0\<rparr>"

definition spinrwlock_dtor :: "spinrwlock \<Rightarrow> unit outcome" where
  "spinrwlock_dtor l = (if m_state l \<noteq> 0 then Inl Destroyed_while_locked else Inr ())"

datatype rw_guard = Null_rw | Rw_of_lock

definition read_guard_dtor :: "rw_guard \<Rightarrow> spinrwlock \<Rightarrow> spinrwlock" where
  "read_guard_dtor g l = (if g = Null_rw then l else l\<lparr>m_state := m_state l - 1\<rparr>)"

definition write_guard_dtor :: "rw_guard \<Rightarrow> spinrwlock \<Rightarrow> spinrwlock" where
  "write_guard_dtor g l = (if g = Null_rw then l else l\<lparr>m_state := 0\<rparr>)"

definition rw_guard_move :: "rw_guard \<Rightarrow> rw_guard \<times> rw_guard" where
  "rw_guard_move rhs = (rhs, Null_rw)"

text \<open>
  Move assignment (of both kinds of guard) copies the pointer and clears \<open>rhs\<close>; unlike the
  guards of \<open>spinlock\<close> it does not release what \<open>this\<close> held.
\<close>

definition rw_guard_move_assign :: "rw_guard \<Rightarrow> rw_guard \<Rightarrow> rw_guard \<times> rw_guard" where
  "rw_guard_move_assign this rhs = (rhs, Null_rw)"

definition rw_guard_bool :: "rw_guard \<Rightarrow> bool" where
  "rw_guard_bool g \<longleftrightarrow> g \<noteq> Null_rw"

section \<open>The lock operations, one atomic access at a time\<close>

datatype rw_pc =
    Rw_idle
  | Read_load
  | Read_cas u64
  | Try_read_load
  | Try_read_cas u64
  | Write_load nat
  | Write_cas u64 nat
  | Write_wait u64 nat
  | Write_lock u64
  | Try_write_load
  | Try_write_cas u64

datatype rw_result = Running | Got_read rw_guard | Got_write rw_guard

type_synonym rw_move = "rw_pc \<times> rw_result \<times> spinrwlock"

definition read_step :: "bool \<Rightarrow> spinrwlock \<Rightarrow> rw_pc \<Rightarrow> rw_move" where
  "read_step spurious l pc =
     (case pc of
        Read_load \<Rightarrow>
          (let e = m_state l; e = e AND NOT (write_mask OR write_willing_mask)
           in (Read_cas e, Running, l))
      | Read_cas e \<Rightarrow>
          if m_state l = e \<and> \<not> spurious
          then (Rw_idle, Got_read Rw_of_lock, l\<lparr>m_state := e + 1\<rparr>)
          else (Read_load, Running, l)
      | _ \<Rightarrow> (pc, Running, l))"

definition try_read_step :: "bool \<Rightarrow> spinrwlock \<Rightarrow> rw_pc \<Rightarrow> rw_move" where
  "try_read_step spurious l pc =
     (case pc of
        Try_read_load \<Rightarrow>
          (let e = m_state l
           in if e AND (write_mask OR write_willing_mask) \<noteq> 0
              then (Rw_idle, Got_read Null_rw, l)
              else (Try_read_cas (e AND NOT (write_mask OR write_willing_mask)), Running, l))
      | Try_read_cas e \<Rightarrow>
          if m_state l = e \<and> \<not> spurious
          then (Rw_idle, Got_read Rw_of_lock, l\<lparr>m_state := e + 1\<rparr>)
          else (Try_read_load, Running, l)
      | _ \<Rightarrow> (pc, Running, l))"

text \<open>
  In \<open>write\<close>, the failing \<open>compare_exchange_strong(e, ...)\<close> of the second loop stores the
  value it found in \<open>e\<close>, and the inner loop then waits for that value.
\<close>

definition write_step :: "bool \<Rightarrow> spinrwlock \<Rightarrow> rw_pc \<Rightarrow> rw_move" where
  "write_step spurious l pc =
     (case pc of
        Write_load lc \<Rightarrow> (Write_cas (m_state l) (lc + 1), Running, l)
      | Write_cas e lc \<Rightarrow>
          if m_state l = e \<and> \<not> spurious
          then (Write_wait write_willing_mask 0, Running, l\<lparr>m_state := e OR write_willing_mask\<rparr>)
          else (Write_load lc, Running, l)
      | Write_wait e lc \<Rightarrow>
          (let s = m_state l
           in if e = s then (Write_lock e, Running, l)
              else if s = 0 then (Write_load lc, Running, l)
              else (Write_wait e (lc + 1), Running, l))
      | Write_lock e \<Rightarrow>
          if m_state l = e
          then (Rw_idle, Got_write Rw_of_lock, l\<lparr>m_state := e OR write_mask\<rparr>)
          else (Write_wait (m_state l) 0, Running, l)
      | _ \<Rightarrow> (pc, Running, l))"

definition try_write_step :: "bool \<Rightarrow> spinrwlock \<Rightarrow> rw_pc \<Rightarrow> rw_move" where
  "try_write_step spurious l pc =
     (case pc of
        Try_write_load \<Rightarrow>
          (let e = m_state l
           in if e \<noteq> 0 then (Rw_idle, Got_write Null_rw, l) else (Try_write_cas e, Running, l))
      | Try_write_cas e \<Rightarrow>
          if m_state l = e
          then (Rw_idle, Got_write Rw_of_lock, l\<lparr>m_state := write_mask\<rparr>)
          else (Rw_idle, Got_write Null_rw, l)
      | _ \<Rightarrow> (pc, Running, l))"

text \<open>The calls of \<open>try_read\<close> and \<open>try_write\<close> by a thread that runs alone.\<close>

definition try_read :: "spinrwlock \<Rightarrow> rw_guard \<times> spinrwlock" where
  "try_read l =
     (if m_state l AND (write_mask OR write_willing_mask) \<noteq> 0 then (Null_rw, l)
      else (Rw_of_lock, l\<lparr>m_state := m_state l + 1\<rparr>))"

definition try_write :: "spinrwlock \<Rightarrow> rw_guard \<times> spinrwlock" where
  "try_write l =
     (if m_state l \<noteq> 0 then (Null_rw, l) else (Rw_of_lock, l\<lparr>m_state := write_mask\<rparr>))"

section \<open>Threads sharing one lock\<close>

datatype rw_op = Op_read | Op_try_read | Op_write | Op_try_write

fun entry_pc :: "rw_op \<Rightarrow> rw_pc" where
  "entry_pc Op_read = Read_load"
| "entry_pc Op_try_read = Try_read_load"
| "entry_pc Op_write = Write_load 0"
| "entry_pc Op_try_write = Try_write_load"

definition rw_thread_step :: "bool \<Rightarrow> spinrwlock \<Rightarrow> rw_pc \<Rightarrow> rw_move" where
  "rw_thread_step spurious l pc =
     (case pc of
        Rw_idle \<Rightarrow> (pc, Running, l)
      | Read_load \<Rightarrow> read_step spurious l pc
      | Read_cas _ \<Rightarrow> read_step spurious l pc
      | Try_read_load \<Rightarrow> try_read_step spurious l pc
      | Try_read_cas _ \<Rightarrow> try_read_step spurious l pc
      | Try_write_load \<Rightarrow> try_write_step spurious l pc
      | Try_write_cas _ \<Rightarrow> try_write_step spurious l pc
      | _ \<Rightarrow> write_step spurious l pc)"

record rw_sys =
  rw_lock :: spinrwlock
  pcs :: "rw_pc list"
  read_guards :: "rw_guard list"
  write_guards :: "rw_guard list"

datatype rw_action =
    Call nat rw_op
  | Thread nat bool
  | Destroy_read nat
  | Destroy_write nat
  | Move_read nat
  | Move_write nat
  | Assign_read nat nat
  | Assign_write nat nat

fun add_guard :: "rw_result \<Rightarrow> rw_sys \<Rightarrow> rw_sys" where
  "add_guard Running s = s"
| "add_guard (Got_read g) s = s\<lparr>read_guards := read_guards s @ [g]\<rparr>"
| "add_guard (Got_write g) s = s\<lparr>write_guards := write_guards s @ [g]\<rparr>"

definition move_slots :: "rw_guard list \<Rightarrow> nat \<Rightarrow> rw_guard list" where
  "move_slots gs i = (case rw_guard_move (gs ! i) of (g, rhs) \<Rightarrow> gs[i := rhs] @ [g])"

definition assign_slots :: "rw_guard list \<Rightarrow> nat \<Rightarrow> nat \<Rightarrow> rw_guard list" where
  "assign_slots gs i j =
     (case rw_guard_move_assign (gs ! i) (gs ! j) of (g, rhs) \<Rightarrow> gs[i := g, j := rhs])"

fun rw_step :: "rw_action \<Rightarrow> rw_sys \<Rightarrow> rw_sys option" where
  "rw_step (Call t op) s =
     (if t < length (pcs s) \<and> pcs s ! t = Rw_idle
      then Some (s\<lparr>pcs := (pcs s)[t := entry_pc op]\<rparr>) else None)"
| "rw_step (Thread t spurious) s =
     (if t < length (pcs s) \<and> pcs s ! t \<noteq> Rw_idle
      then case rw_thread_step spurious (rw_lock s) (pcs s ! t) of
             (pc, r, l) \<Rightarrow> Some (add_guard r (s\<lparr>rw_lock := l, pcs := (pcs s)[t := pc]\<rparr>))
      else None)"
| "rw_step (Destroy_read i) s =
     (if i < length (read_guards s)
      then Some (s\<lparr>rw_lock := read_guard_dtor (read_guards s ! i) (rw_lock s),
                   read_guards := (read_guards s)[i := Null_rw]\<rparr>) else None)"
| "rw_step (Destroy_write i) s =
     (if i < length (write_guards s)
      then Some (s\<lparr>rw_lock := write_guard_dtor (write_guards s ! i) (rw_lock s),
                   write_guards := (write_guards s)[i := Null_rw]\<rparr>) else None)"
| "rw_step (Move_read i) s =
     (if i < length (read_guards s)
      then Some (s\<lparr>read_guards := move_slots (read_guards s) i\<rparr>) else None)"
| "rw_step (Move_write i) s =
     (if i < length (write_guards s)
      then Some (s\<lparr>write_guards := move_slots (write_guards s) i\<rparr>) else None)"
| "rw_step (Assign_read i j) s =
     (if i < length (read_guards s) \<and> j < length (read_guards s) \<and> i \<noteq> j
      then Some (s\<lparr>read_guards := assign_slots (read_guards s) i j\<rparr>) else None)"
| "rw_step (Assign_write i j) s =
     (if i < length (write_guards s) \<and> j < length (write_guards s) \<and> i \<noteq> j
      then Some (s\<lparr>write_guards := assign_slots (write_guards s) i j\<rparr>) else None)"

definition rw_init :: "nat \<Rightarrow> rw_sys" where
  "rw_init n = \<lparr>rw_lock = spinrwlock_new, pcs = replicate n Rw_idle, read_guards = [], write_guards = []\<rparr>"

abbreviation readers :: "rw_sys \<Rightarrow> nat" where
  "readers s \<equiv> count_if rw_guard_bool (read_guards s)"

abbreviation writers :: "rw_sys \<Rightarrow> nat" where
  "writers s \<equiv> count_if rw_guard_bool (write_guards s)"

lemmas rw_defs = read_step_def try_read_step_def write_step_def try_write_step_def
  rw_thread_step_def

text \<open>A thread that runs \<open>try_read\<close> or \<open>try_write\<close> without interference computes the short forms.\<close>

lemma try_read_alone:
  "(case try_read_step False l Try_read_load of
      (Rw_idle, Got_read g, l') \<Rightarrow> Some (g, l')
    | (pc, _, l') \<Rightarrow> (case try_read_step False l' pc of
        (Rw_idle, Got_read g, l'') \<Rightarrow> Some (g, l'') | _ \<Rightarrow> None)) = Some (try_read l)"
  using mask_off_zero [of "m_state l" "write_mask OR write_willing_mask"]
  by (auto simp: try_read_step_def try_read_def)

lemma try_write_alone:
  "(case try_write_step False l Try_write_load of
      (Rw_idle, Got_write g, l') \<Rightarrow> Some (g, l')
    | (pc, _, l') \<Rightarrow> (case try_write_step False l' pc of
        (Rw_idle, Got_write g, l'') \<Rightarrow> Some (g, l'') | _ \<Rightarrow> None)) = Some (try_write l)"
  by (simp add: try_write_step_def try_write_def)

text \<open>
  \<open>write\<close> does not exclude other writers. Two threads that wait at the same time can both
  return a live write guard: the one that loses the final compare-exchange takes the word it
  found (which has the winner's write bit) as the value to wait for, finds it, and
  compare-exchanges it with itself.
\<close>

theorem spinrwlock_two_writers:
  "\<exists>as s. run rw_step as (rw_init 2) = Some s \<and> writers s = 2"
proof -
  let ?as = "[Call 0 Op_write, Call 1 Op_write, Thread 0 False, Thread 0 False, Thread 1 False,
    Thread 1 False, Thread 0 False, Thread 1 False, Thread 0 False, Thread 1 False,
    Thread 1 False, Thread 1 False]"
  have "\<exists>s. run rw_step ?as (rw_init 2) = Some s \<and> writers s = 2"
    by (simp add: rw_init_def rw_defs spinrwlock_new_def Let_def rw_guard_bool_def)
  then show ?thesis by blast
qed

section \<open>Exclusion with one blocking writer\<close>

text \<open>
  \<open>rw_view l R b w\<close>: the lock word stands for \<open>R\<close> readers, a waiting writer iff \<open>b\<close>, and a
  writer iff \<open>w\<close>.
\<close>

definition rw_view :: "spinrwlock \<Rightarrow> nat \<Rightarrow> bool \<Rightarrow> bool \<Rightarrow> bool" where
  "rw_view l R b w \<longleftrightarrow> unat (m_state l) = R + 2 ^ 62 * of_bool b + 2 ^ 63 * of_bool w"


text \<open>What the locals of a thread guarantee; \<open>w\<close> is the one thread that calls \<open>write\<close>.\<close>

fun pc_ok :: "nat \<Rightarrow> nat \<Rightarrow> spinrwlock \<Rightarrow> rw_pc \<Rightarrow> bool" where
  "pc_ok w t l (Read_cas e) = (unat e < 2 ^ 62)"
| "pc_ok w t l (Try_read_cas e) = (unat e < 2 ^ 62)"
| "pc_ok w t l (Try_write_cas e) = (e = 0)"
| "pc_ok w t l (Write_load lc) = (t = w)"
| "pc_ok w t l (Write_cas e lc) = (t = w)"
| "pc_ok w t l (Write_wait e lc) = (t = w \<and> e = write_willing_mask)"
| "pc_ok w t l (Write_lock e) = (t = w \<and> e = write_willing_mask \<and> m_state l = write_willing_mask)"
| "pc_ok w t l pc = True"

definition rw_inv :: "nat \<Rightarrow> nat \<Rightarrow> rw_sys \<Rightarrow> bool" where
  "rw_inv w n s \<longleftrightarrow>
     (\<exists>R b W. rw_view (rw_lock s) R b W \<and> R \<le> n \<and> readers s \<le> R \<and> writers s \<le> of_bool W \<and>
        (W \<longrightarrow> R = 0)) \<and>
     (\<forall>t < length (pcs s). pc_ok w t (rw_lock s) (pcs s ! t))"

lemma unmasked_small: "unat (x AND NOT (write_mask OR write_willing_mask)) < 2 ^ 62"
proof -
  have "x AND NOT (write_mask OR write_willing_mask) = take_bit 62 x"
    using clear_top_two [OF refl, of x] by simp
  then show ?thesis
    by (simp add: unsigned_take_bit_eq take_bit_nat_less_exp [of 62, simplified])
qed

lemma or_masks:
  "unat (x OR write_mask) = unat x + (if odd (unat x div 2 ^ 63) then 0 else 2 ^ 63)"
  "unat (x OR write_willing_mask) = unat x + (if odd (unat x div 2 ^ 62) then 0 else 2 ^ 62)"
  using unat_or_bit [of 63 x] unat_or_bit [of 62 x] bit_iff_odd_unat [of 63 x] bit_iff_odd_unat [of 62 x]
  by simp_all

lemma view_small: "rw_view l R b W \<Longrightarrow> unat (m_state l) < 2 ^ 62 \<Longrightarrow> \<not> b \<and> \<not> W"
  by (cases b; cases W) (simp_all add: rw_view_def)

lemma view_inc:
  "rw_view l R False False \<Longrightarrow> R < 2 ^ 62 \<Longrightarrow> rw_view (l\<lparr>m_state := m_state l + 1\<rparr>) (R + 1) False False"
  by (simp add: rw_view_def unat_add_one)

lemma div_two_62:
  fixes R :: nat
  assumes "R < 2 ^ 62"
  shows "R div 2 ^ 62 = 0" "(R + 2 ^ 62) div 2 ^ 62 = 1" "(R + 2 ^ 63) div 2 ^ 62 = 2"
    "(R + (2 ^ 62 + 2 ^ 63)) div 2 ^ 62 = 3"
  using assms by (simp_all add: div_nat_eqI)

lemma view_willing:
  "rw_view l R b W \<Longrightarrow> R < 2 ^ 62 \<Longrightarrow>
    rw_view (l\<lparr>m_state := m_state l OR write_willing_mask\<rparr>) R True W"
  using div_two_62 [of R]
  by (cases b; cases W) (simp_all add: rw_view_def or_masks add.commute add.left_commute del: masks)

lemma view_exactly_willing:
  "rw_view l R b W \<Longrightarrow> R < 2 ^ 62 \<Longrightarrow> m_state l = write_willing_mask \<Longrightarrow> R = 0 \<and> b \<and> \<not> W"
  by (cases b; cases W) (auto simp: rw_view_def)

lemma view_write:
  "m_state l = write_willing_mask \<Longrightarrow> rw_view (l\<lparr>m_state := m_state l OR write_mask\<rparr>) 0 True True"
  by (simp add: rw_view_def)

lemma view_zero: "rw_view l R b W \<Longrightarrow> m_state l = 0 \<Longrightarrow> R = 0 \<and> \<not> b \<and> \<not> W"
  by (cases b; cases W) (auto simp: rw_view_def)

lemma view_try_write: "rw_view (l\<lparr>m_state := write_mask\<rparr>) 0 False True"
  by (simp add: rw_view_def)

abbreviation blocking_write_pc :: "rw_pc \<Rightarrow> bool" where
  "blocking_write_pc pc \<equiv> (case pc of Write_load _ \<Rightarrow> True | Write_cas _ _ \<Rightarrow> True
     | Write_wait _ _ \<Rightarrow> True | Write_lock _ \<Rightarrow> True | _ \<Rightarrow> False)"

text \<open>
  What one step of a thread does to the view: the word and the reader count change only with
  the guard that the step returns.
\<close>

definition view_step :: "nat \<Rightarrow> bool \<Rightarrow> rw_result \<Rightarrow> spinrwlock \<Rightarrow> bool" where
  "view_step R W r l' \<longleftrightarrow>
     (case r of
        Got_read Rw_of_lock \<Rightarrow> \<not> W \<and> rw_view l' (R + 1) False False
      | Got_write Rw_of_lock \<Rightarrow> \<not> W \<and> R = 0 \<and> (\<exists>b'. rw_view l' 0 b' True)
      | _ \<Rightarrow> (\<exists>b'. rw_view l' R b' W))"

lemma rw_thread_step_view:
  assumes view: "rw_view l R b W" and R: "R < 2 ^ 62 - 1" and ok: "pc_ok w t l pc"
    and step: "rw_thread_step sp l pc = (pc', r, l')"
  shows "view_step R W r l' \<and> pc_ok w t l' pc' \<and>
    (\<not> blocking_write_pc pc \<longrightarrow> m_state l = write_willing_mask \<longrightarrow> l' = l)"
proof (cases pc)
  case (Read_cas e)
  show ?thesis
  proof (cases "m_state l = e \<and> \<not> sp")
    case True
    with Read_cas ok view have "\<not> b" "\<not> W" using view_small by auto
    with True Read_cas step view view_inc [of l R] R ok show ?thesis
      by (auto simp: view_step_def rw_thread_step_def read_step_def)
  qed (use Read_cas step view in \<open>auto simp: view_step_def rw_thread_step_def read_step_def\<close>)
next
  case (Try_read_cas e)
  show ?thesis
  proof (cases "m_state l = e \<and> \<not> sp")
    case True
    with Try_read_cas ok view have "\<not> b" "\<not> W" using view_small by auto
    with True Try_read_cas step view view_inc [of l R] R ok show ?thesis
      by (auto simp: view_step_def rw_thread_step_def try_read_step_def)
  qed (use Try_read_cas step view in \<open>auto simp: view_step_def rw_thread_step_def try_read_step_def\<close>)
next
  case (Write_cas e lc)
  show ?thesis
  proof (cases "m_state l = e \<and> \<not> sp")
    case True
    with Write_cas step view view_willing [OF view] R ok show ?thesis
      by (auto simp: view_step_def rw_thread_step_def write_step_def simp del: masks)
  qed (use Write_cas step view ok in \<open>auto simp: view_step_def rw_thread_step_def write_step_def\<close>)
next
  case (Write_lock e)
  with ok view R have "R = 0" "\<not> W" using view_exactly_willing [OF view] by auto
  with Write_lock step ok view_write [of l] show ?thesis
    by (auto simp: view_step_def rw_thread_step_def write_step_def simp del: masks)
next
  case (Try_write_cas e)
  show ?thesis
  proof (cases "m_state l = e")
    case True
    with Try_write_cas ok view_zero [OF view] have "R = 0" "\<not> W" by auto
    with True Try_write_cas step ok view_try_write [of l] show ?thesis
      by (auto simp: view_step_def rw_thread_step_def try_write_step_def)
  qed (use Try_write_cas step view in \<open>auto simp: view_step_def rw_thread_step_def try_write_step_def\<close>)
qed (use step view ok unmasked_small [of "m_state l"] in
      \<open>auto simp: view_step_def rw_defs Let_def simp del: masks split: if_splits\<close>)

abbreviation live :: "rw_guard list \<Rightarrow> nat" where
  "live gs \<equiv> count_if rw_guard_bool gs"

lemma live_destroy:
  "i < length gs \<Longrightarrow> live (gs[i := Null_rw]) + of_bool (gs ! i \<noteq> Null_rw) = live gs"
  using count_if_update [of i gs rw_guard_bool Null_rw] count_if_pos [of i gs rw_guard_bool]
  by (cases "gs ! i") (auto simp: rw_guard_bool_def)

lemma live_move: "i < length gs \<Longrightarrow> live (move_slots gs i) = live gs"
  using live_destroy [of i gs]
  by (cases "gs ! i") (auto simp: move_slots_def rw_guard_move_def rw_guard_bool_def)

lemma live_assign:
  assumes "i < length gs" "j < length gs" "i \<noteq> j"
  shows "live (assign_slots gs i j) \<le> live gs"
proof -
  have "int (live (gs[i := gs ! j])) =
      int (live gs) - of_bool (rw_guard_bool (gs ! i)) + of_bool (rw_guard_bool (gs ! j))"
    using assms(1) by (rule count_if_update)
  moreover have "live (assign_slots gs i j) + of_bool (gs ! j \<noteq> Null_rw) = live (gs[i := gs ! j])"
    using live_destroy [of j "gs[i := gs ! j]"] assms
    by (simp add: assign_slots_def rw_guard_move_assign_def)
  ultimately show ?thesis
    by (cases "gs ! i"; cases "gs ! j") (simp_all add: rw_guard_bool_def)
qed

text \<open>Only thread \<open>w\<close> calls \<open>write\<close>; the others may use every other operation.\<close>

definition one_blocking_writer :: "nat \<Rightarrow> rw_action \<Rightarrow> bool" where
  "one_blocking_writer w a \<longleftrightarrow> (\<forall>t. a = Call t Op_write \<longrightarrow> t = w)"

definition rw_step_single :: "nat \<Rightarrow> rw_action \<Rightarrow> rw_sys \<Rightarrow> rw_sys option" where
  "rw_step_single w a s = (if one_blocking_writer w a then rw_step a s else None)"

lemma entry_pc_ok: "(op = Op_write \<longrightarrow> t = w) \<Longrightarrow> pc_ok w t l (entry_pc op)"
  by (cases op) simp_all

lemma pc_ok_other:
  "pc_ok w t l pc \<Longrightarrow> (m_state l = write_willing_mask \<longrightarrow> l' = l) \<Longrightarrow> pc_ok w t l' pc"
  by (cases "(w, t, l, pc)" rule: pc_ok.cases) auto

lemma rw_invI:
  assumes "rw_view (rw_lock s) R b W" "R \<le> n" "readers s \<le> R" "writers s \<le> of_bool W" "W \<Longrightarrow> R = 0"
    and "\<And>t. t < length (pcs s) \<Longrightarrow> pc_ok w t (rw_lock s) (pcs s ! t)"
  shows "rw_inv w n s"
  unfolding rw_inv_def
  using assms by (intro conjI exI [of _ R] exI [of _ b] exI [of _ W] allI impI)

lemma rw_invE:
  assumes "rw_inv w n s"
  obtains R b W where "rw_view (rw_lock s) R b W" "R \<le> n" "readers s \<le> R"
    "writers s \<le> of_bool W" "W \<Longrightarrow> R = 0"
    "\<And>t. t < length (pcs s) \<Longrightarrow> pc_ok w t (rw_lock s) (pcs s ! t)"
  using assms unfolding rw_inv_def by blast

lemma rw_inv_pcs:
  assumes "rw_inv w n s" "pc_ok w t (rw_lock s) pc"
  shows "rw_inv w (Suc n) (s\<lparr>pcs := (pcs s)[t := pc]\<rparr>)"
  using assms(1)
proof (rule rw_invE)
  fix R b W
  assume v: "rw_view (rw_lock s) R b W" "R \<le> n" "readers s \<le> R" "writers s \<le> of_bool W" "W \<Longrightarrow> R = 0"
    and ok: "\<And>t. t < length (pcs s) \<Longrightarrow> pc_ok w t (rw_lock s) (pcs s ! t)"
  have "pc_ok w u (rw_lock s) ((pcs s)[t := pc] ! u)" if "u < length (pcs s)" for u
    using that ok [of u] assms(2) by (cases "u = t") simp_all
  with v show ?thesis
    by (intro rw_invI [of _ R b W]) simp_all
qed

lemma rw_inv_guards:
  assumes "rw_inv w n s" "live rg \<le> readers s" "live wg \<le> writers s"
  shows "rw_inv w (Suc n) (s\<lparr>read_guards := rg, write_guards := wg\<rparr>)"
  using assms(1)
proof (rule rw_invE)
  fix R b W
  assume v: "rw_view (rw_lock s) R b W" "R \<le> n" "readers s \<le> R" "writers s \<le> of_bool W" "W \<Longrightarrow> R = 0"
    and ok: "\<And>t. t < length (pcs s) \<Longrightarrow> pc_ok w t (rw_lock s) (pcs s ! t)"
  with assms(2,3) have "live rg \<le> R" "live wg \<le> of_bool W" "R \<le> Suc n" by linarith+
  with v(1,5) ok show ?thesis
    by (intro rw_invI [of _ R b W]) simp_all
qed

lemma rw_inv_thread:
  assumes inv: "rw_inv w n s" and n: "n < 2 ^ 62 - 1" and t: "t < length (pcs s)"
    and move: "rw_thread_step sp (rw_lock s) (pcs s ! t) = (pc, r, l)"
  shows "rw_inv w (Suc n) (add_guard r (s\<lparr>rw_lock := l, pcs := (pcs s)[t := pc]\<rparr>))"
  using inv
proof (rule rw_invE)
  fix R b W
  assume v: "rw_view (rw_lock s) R b W" "R \<le> n" "readers s \<le> R" "writers s \<le> of_bool W" "W \<Longrightarrow> R = 0"
    and ok: "\<And>t. t < length (pcs s) \<Longrightarrow> pc_ok w t (rw_lock s) (pcs s ! t)"
  from v(2) n have R: "R < 2 ^ 62 - 1" by simp
  from rw_thread_step_view [OF v(1) R ok [OF t] move]
  have vs: "view_step R W r l" and pc: "pc_ok w t l pc"
    and keep: "\<not> blocking_write_pc (pcs s ! t) \<Longrightarrow> m_state (rw_lock s) = write_willing_mask \<Longrightarrow> l = rw_lock s"
    by auto
  have others: "pc_ok w u l (pcs s ! u)" if "u < length (pcs s)" "u \<noteq> t" for u
  proof (cases "blocking_write_pc (pcs s ! t)")
    case True
    with ok [OF t] have "t = w" by (cases "pcs s ! t") auto
    with ok [OF that(1)] that(2) show ?thesis
      by (cases "pcs s ! u") auto
  next
    case False
    with keep have "m_state (rw_lock s) = write_willing_mask \<longrightarrow> l = rw_lock s" by blast
    with ok [OF that(1)] show ?thesis by (rule pc_ok_other)
  qed
  have pcs: "pc_ok w u l ((pcs s)[t := pc] ! u)" if "u < length (pcs s)" for u
    using others [OF that] pc t by (cases "u = t") simp_all
  note I = rw_invI [where s = "add_guard r (s\<lparr>rw_lock := l, pcs := (pcs s)[t := pc]\<rparr>)"]
  show ?thesis
  proof (cases "r = Got_read Rw_of_lock \<or> r = Got_write Rw_of_lock")
    case False
    then have "r = Running \<or> r = Got_read Null_rw \<or> r = Got_write Null_rw"
      by (metis rw_guard.exhaust rw_result.exhaust)
    moreover from this vs obtain b' where "rw_view l R b' W" by (auto simp: view_step_def)
    ultimately show ?thesis
      using v pcs by (intro I [of R b' W]) (auto simp: rw_guard_bool_def)
  next
    case True
    then show ?thesis
    proof
      assume r: "r = Got_read Rw_of_lock"
      with vs have "\<not> W" "rw_view l (R + 1) False False" by (auto simp: view_step_def)
      with r v pcs show ?thesis
        by (intro I [of "R + 1" False False]) (simp_all add: rw_guard_bool_def)
    next
      assume r: "r = Got_write Rw_of_lock"
      with vs obtain b' where "\<not> W" "R = 0" "rw_view l 0 b' True"
        by (auto simp: view_step_def)
      with r v pcs show ?thesis
        by (intro I [of 0 b' True]) (simp_all add: rw_guard_bool_def)
    qed
  qed
qed

lemma view_read_dtor:
  "rw_view l R b W \<Longrightarrow> 0 < R \<Longrightarrow> rw_view (l\<lparr>m_state := m_state l - 1\<rparr>) (R - 1) b W"
  using unat_sub_one [of "m_state l"] by (simp add: rw_view_def)

lemma view_not_willing:
  "rw_view l R b W \<Longrightarrow> R < 2 ^ 62 - 1 \<Longrightarrow> 0 < R \<or> W \<Longrightarrow> m_state l \<noteq> write_willing_mask"
  by (cases b; cases W) (auto simp: rw_view_def)

lemma rw_inv_destroy_read:
  assumes inv: "rw_inv w n s" and n: "n < 2 ^ 62 - 1" and i: "i < length (read_guards s)"
  shows "rw_inv w (Suc n) (s\<lparr>rw_lock := read_guard_dtor (read_guards s ! i) (rw_lock s),
                   read_guards := (read_guards s)[i := Null_rw]\<rparr>)"
  using inv
proof (rule rw_invE)
  fix R b W
  assume v: "rw_view (rw_lock s) R b W" "R \<le> n" "readers s \<le> R" "writers s \<le> of_bool W" "W \<Longrightarrow> R = 0"
    and ok: "\<And>t. t < length (pcs s) \<Longrightarrow> pc_ok w t (rw_lock s) (pcs s ! t)"
  show ?thesis
  proof (cases "read_guards s ! i")
    case Null_rw
    with v ok live_destroy [OF i] show ?thesis
      by (intro rw_invI [of _ R b W]) (simp_all add: read_guard_dtor_def)
  next
    case Rw_of_lock
    with live_destroy [OF i] have less: "live ((read_guards s)[i := Null_rw]) + 1 = readers s" by simp
    with v(3) have "0 < R" by simp
    with v n view_not_willing [OF v(1)] have "m_state (rw_lock s) \<noteq> write_willing_mask" by simp
    then have "pc_ok w t ((rw_lock s)\<lparr>m_state := m_state (rw_lock s) - 1\<rparr>) (pcs s ! t)"
      if "t < length (pcs s)" for t
      using ok [OF that] by (blast intro: pc_ok_other)
    with Rw_of_lock v less view_read_dtor [OF v(1) \<open>0 < R\<close>] show ?thesis
      by (intro rw_invI [of _ "R - 1" b W]) (simp_all add: read_guard_dtor_def)
  qed
qed

lemma rw_inv_destroy_write:
  assumes inv: "rw_inv w n s" and n: "n < 2 ^ 62 - 1" and i: "i < length (write_guards s)"
  shows "rw_inv w (Suc n) (s\<lparr>rw_lock := write_guard_dtor (write_guards s ! i) (rw_lock s),
                   write_guards := (write_guards s)[i := Null_rw]\<rparr>)"
  using inv
proof (rule rw_invE)
  fix R b W
  assume v: "rw_view (rw_lock s) R b W" "R \<le> n" "readers s \<le> R" "writers s \<le> of_bool W" "W \<Longrightarrow> R = 0"
    and ok: "\<And>t. t < length (pcs s) \<Longrightarrow> pc_ok w t (rw_lock s) (pcs s ! t)"
  show ?thesis
  proof (cases "write_guards s ! i")
    case Null_rw
    with v ok live_destroy [OF i] show ?thesis
      by (intro rw_invI [of _ R b W]) (simp_all add: write_guard_dtor_def)
  next
    case Rw_of_lock
    with live_destroy [OF i] have less: "live ((write_guards s)[i := Null_rw]) + 1 = writers s" by simp
    with v(4) have W by (cases W) simp_all
    with v n view_not_willing [OF v(1)] have "m_state (rw_lock s) \<noteq> write_willing_mask" by simp
    then have "pc_ok w t ((rw_lock s)\<lparr>m_state := 0\<rparr>) (pcs s ! t)" if "t < length (pcs s)" for t
      using ok [OF that] by (blast intro: pc_ok_other)
    moreover have "rw_view ((rw_lock s)\<lparr>m_state := 0\<rparr>) 0 False False"
      by (simp add: rw_view_def)
    moreover have "readers s \<le> 0"
      using v(3,5) \<open>W\<close> by simp
    moreover have "writers s \<le> 1"
      using v(4) \<open>W\<close> by simp
    then have "live ((write_guards s)[i := Null_rw]) \<le> of_bool False"
      using less by linarith
    ultimately show ?thesis using Rw_of_lock
      by (intro rw_invI [of _ 0 False False]) (simp_all add: write_guard_dtor_def)
  qed
qed

lemma rw_step_single_inv:
  assumes inv: "rw_inv w n s" and n: "n < 2 ^ 62 - 1" and step: "rw_step_single w a s = Some s'"
  shows "rw_inv w (Suc n) s'"
proof -
  from step have a: "one_blocking_writer w a" and st: "rw_step a s = Some s'"
    by (simp_all add: rw_step_single_def split: if_splits)
  note guards = rw_inv_guards [OF inv, of "read_guards s" "write_guards s"]
  show ?thesis
  proof (cases a)
    case (Call t op)
    with a have "op = Op_write \<longrightarrow> t = w" by (simp add: one_blocking_writer_def)
    with Call st show ?thesis
      by (auto split: if_splits intro!: rw_inv_pcs [OF inv] entry_pc_ok)
  next
    case (Thread t sp)
    with st show ?thesis
      by (auto split: if_splits prod.splits intro!: rw_inv_thread [OF inv n])
  next
    case (Destroy_read i)
    with st rw_inv_destroy_read [OF inv n] show ?thesis by (auto split: if_splits)
  next
    case (Destroy_write i)
    with st rw_inv_destroy_write [OF inv n] show ?thesis by (auto split: if_splits)
  next
    case (Move_read i)
    with st rw_inv_guards [OF inv, of "move_slots (read_guards s) i" "write_guards s"] live_move
    show ?thesis by (auto split: if_splits)
  next
    case (Move_write i)
    with st rw_inv_guards [OF inv, of "read_guards s" "move_slots (write_guards s) i"] live_move
    show ?thesis by (auto split: if_splits)
  next
    case (Assign_read i j)
    with st rw_inv_guards [OF inv, of "assign_slots (read_guards s) i j" "write_guards s"] live_assign
    show ?thesis by (auto split: if_splits)
  next
    case (Assign_write i j)
    with st rw_inv_guards [OF inv, of "read_guards s" "assign_slots (write_guards s) i j"] live_assign
    show ?thesis by (auto split: if_splits)
  qed
qed

interpretation rwl: bounded_invariant_system "rw_step_single w" "rw_inv w" "2 ^ 62 - 1" for w
  by unfold_locales (rule rw_step_single_inv)

lemma rw_init_inv: "rw_inv w 0 (rw_init n)"
  by (intro rw_invI [of _ 0 False False]) (simp_all add: rw_init_def spinrwlock_new_def rw_view_def)

lemma rw_inv_exclusion:
  "rw_inv w n s \<Longrightarrow> writers s \<le> 1 \<and> (0 < writers s \<longrightarrow> readers s = 0)"
proof (erule rw_invE)
  fix R b W
  assume "readers s \<le> R" "writers s \<le> of_bool W" "W \<Longrightarrow> R = 0"
  then show "writers s \<le> 1 \<and> (0 < writers s \<longrightarrow> readers s = 0)"
    by (cases W) simp_all
qed

text \<open>
  C8: As long as only one thread uses the blocking \<open>write\<close> (any number of threads call
  \<open>read\<close>, \<open>try_read\<close> and \<open>try_write\<close>, guards are moved, assigned and destroyed at will, and
  weak compare-exchanges fail spuriously), at most one write guard is live, and while one is,
  no read guard is. The bound is the width of the reader count.
\<close>

theorem spinrwlock_single_writer_exclusion:
  assumes "run rw_step as (rw_init n) = Some s"
    and "\<forall>a \<in> set as. one_blocking_writer w a"
    and "length as < 2 ^ 62"
  shows "writers s \<le> 1 \<and> (0 < writers s \<longrightarrow> readers s = 0)"
proof -
  have "run (rw_step_single w) as (rw_init n) = run rw_step as (rw_init n)"
    using assms(2) by (intro run_cong) (auto simp: rw_step_single_def fun_eq_iff)
  with assms have "rw_inv w (0 + length as) s"
    by (intro rwl.run_inv [OF rw_init_inv, of as w n]) simp_all
  then show ?thesis by (rule rw_inv_exclusion)
qed

lemma spinrwlock_single_writer_exclusion_witness:
  "\<exists>s. run rw_step [Call 0 Op_read, Thread 0 False, Thread 0 False, Call 1 Op_try_write, Thread 1 False,
      Destroy_read 0, Call 1 Op_write, Thread 1 False, Thread 1 False, Thread 1 False, Thread 1 False]
      (rw_init 2) = Some s \<and> writers s = 1 \<and> readers s = 0"
proof -
  let ?as = "[Call 0 Op_read, Thread 0 False, Thread 0 False, Call 1 Op_try_write, Thread 1 False,
      Destroy_read 0, Call 1 Op_write, Thread 1 False, Thread 1 False, Thread 1 False, Thread 1 False]"
  have "\<exists>s. run rw_step ?as (rw_init 2) = Some s \<and> writers s = 1"
    by (simp add: rw_init_def rw_defs spinrwlock_new_def Let_def rw_guard_bool_def read_guard_dtor_def)
  then obtain s where s: "run rw_step ?as (rw_init 2) = Some s" "writers s = 1" by blast
  have "\<forall>a \<in> set ?as. one_blocking_writer 1 a"
    by (simp add: one_blocking_writer_def)
  with s(1) have "0 < writers s \<longrightarrow> readers s = 0"
    by (rule conjunct2 [OF spinrwlock_single_writer_exclusion]) simp
  with s show ?thesis by (intro exI [of _ s]) simp
qed

text \<open>
  Move-assigning to a guard that still holds the lock loses the lock for ever: no live
  guard is left, but the lock word is not zero, so \<open>try_write\<close> fails and the destructor
  panics. (\<open>spinlock\<close> releases the lock here.)
\<close>

theorem spinrwlock_move_assign_leaks:
  "\<exists>as s. run rw_step as (rw_init 1) = Some s \<and> readers s = 0 \<and> writers s = 0 \<and>
     fst (try_write (rw_lock s)) = Null_rw \<and>
     spinrwlock_dtor (rw_lock s) = Inl Destroyed_while_locked"
proof -
  let ?as = "[Call 0 Op_read, Thread 0 False, Thread 0 False, Call 0 Op_read, Thread 0 False,
    Thread 0 False, Assign_read 0 1, Destroy_read 0]"
  have "\<exists>s. run rw_step ?as (rw_init 1) = Some s \<and> readers s = 0 \<and> writers s = 0 \<and>
     fst (try_write (rw_lock s)) = Null_rw \<and>
     spinrwlock_dtor (rw_lock s) = Inl Destroyed_while_locked"
    by (simp add: rw_init_def rw_defs spinrwlock_new_def Let_def rw_guard_bool_def read_guard_dtor_def
        assign_slots_def rw_guard_move_assign_def try_write_def spinrwlock_dtor_def)
  then show ?thesis by blast
qed

section \<open>The lock that owns a value\<close>

record 'a spinrwlock_t =
  rw_value :: 'a
  rw_inner :: spinrwlock

text \<open>\<open>rwt_lock\<close> is \<open>m_spinrwlock != nullptr\<close>, \<open>rwt_guard\<close> the guard of the inner lock.\<close>

record rwt_guard =
  rwt_lock :: bool
  rwt_guard :: rw_guard

definition rwt_null :: rwt_guard where
  "rwt_null = \<lparr>rwt_lock = False, rwt_guard = Null_rw\<rparr>"

definition rwt_try_read :: "'a spinrwlock_t \<Rightarrow> rwt_guard \<times> 'a spinrwlock_t" where
  "rwt_try_read l =
     (case try_read (rw_inner l) of
        (g, l') \<Rightarrow> (if rw_guard_bool g then \<lparr>rwt_lock = True, rwt_guard = fst (rw_guard_move g)\<rparr>
                    else rwt_null, l\<lparr>rw_inner := l'\<rparr>))"

definition rwt_try_write :: "'a spinrwlock_t \<Rightarrow> rwt_guard \<times> 'a spinrwlock_t" where
  "rwt_try_write l =
     (case try_write (rw_inner l) of
        (g, l') \<Rightarrow> (if rw_guard_bool g then \<lparr>rwt_lock = True, rwt_guard = fst (rw_guard_move g)\<rparr>
                    else rwt_null, l\<lparr>rw_inner := l'\<rparr>))"

definition rwt_read_guard_dtor :: "rwt_guard \<Rightarrow> 'a spinrwlock_t \<Rightarrow> 'a spinrwlock_t" where
  "rwt_read_guard_dtor g l = l\<lparr>rw_inner := read_guard_dtor (rwt_guard g) (rw_inner l)\<rparr>"

definition rwt_write_guard_dtor :: "rwt_guard \<Rightarrow> 'a spinrwlock_t \<Rightarrow> 'a spinrwlock_t" where
  "rwt_write_guard_dtor g l = l\<lparr>rw_inner := write_guard_dtor (rwt_guard g) (rw_inner l)\<rparr>"

text \<open>The move operations take over \<open>m_spinrwlock\<close> only; \<open>m_guard\<close> stays with \<open>rhs\<close>.\<close>

definition rwt_guard_move :: "rwt_guard \<Rightarrow> rwt_guard \<times> rwt_guard" where
  "rwt_guard_move rhs = (\<lparr>rwt_lock = rwt_lock rhs, rwt_guard = Null_rw\<rparr>, rhs\<lparr>rwt_lock := False\<rparr>)"

definition rwt_guard_move_assign :: "rwt_guard \<Rightarrow> rwt_guard \<Rightarrow> rwt_guard \<times> rwt_guard" where
  "rwt_guard_move_assign this rhs = (this\<lparr>rwt_lock := rwt_lock rhs\<rparr>, rhs\<lparr>rwt_lock := False\<rparr>)"

definition rwt_deref :: "rwt_guard \<Rightarrow> 'a spinrwlock_t \<Rightarrow> 'a outcome" where
  "rwt_deref g l = (if \<not> rwt_lock g then Inl Null_guard_dereferenced else Inr (rw_value l))"

definition rwt_store :: "rwt_guard \<Rightarrow> 'a \<Rightarrow> 'a spinrwlock_t \<Rightarrow> 'a spinrwlock_t outcome" where
  "rwt_store g v l =
     (if \<not> rwt_lock g then Inl Null_guard_dereferenced else Inr (l\<lparr>rw_value := v\<rparr>))"

lemmas rwt_defs = rwt_null_def rwt_try_read_def rwt_try_write_def rwt_read_guard_dtor_def
  rwt_write_guard_dtor_def rwt_guard_move_def rwt_guard_move_assign_def rwt_deref_def rwt_store_def

text \<open>
  Moving a guard of the value lock does not move the lock it holds: the lock stays with the
  emptied guard, is released when that one is destroyed, and the new guard still gives access
  to the value. So after \<open>w2 = move(w1)\<close> and the end of \<open>w1\<close>, another \<open>try_write\<close> on the same
  lock succeeds, and both guards can store to the value.
\<close>

theorem spinrwlock_moved_guard_unprotected:
  "\<exists>w1 l1 w2 w1' l2 w3 l3.
     rwt_try_write \<lparr>rw_value = v, rw_inner = spinrwlock_new\<rparr> = (w1, l1) \<and> rwt_lock w1 \<and>
     rwt_guard_move w1 = (w2, w1') \<and>
     rwt_write_guard_dtor w1' l1 = l2 \<and>
     rwt_try_write l2 = (w3, l3) \<and> rwt_lock w3 \<and>
     rwt_store w2 x l3 = Inr (l3\<lparr>rw_value := x\<rparr>) \<and> rwt_store w3 y l3 = Inr (l3\<lparr>rw_value := y\<rparr>)"
  by (simp add: rwt_defs try_write_def spinrwlock_new_def rw_guard_bool_def rw_guard_move_def
      write_guard_dtor_def)

end
