(* ===== verification/Hash_Map.thy ===== *)
theory Hash_Map
  imports Murmur Spinrwlock
begin

text \<open>
  \<open>asco/concurrency/hash_map.h\<close>: an open-addressing table with double hashing. The operations
  are modelled as one thread runs them without interference: a compare-exchange succeeds
  exactly when the word has the expected value, and a \<open>do ... while (!compare_exchange_weak)\<close>
  loop around a reload is one read-modify-write. \<open>None\<close> as the result of an operation is a call
  that gives no result: \<open>std::unreachable\<close>, a read of an object that is not constructed, or
  a loop that never ends. The hasher \<open>std::hash<K>\<close> is a parameter.
\<close>

section \<open>Buckets\<close>

datatype bucket_state_enum = Empty | Constructing | Filled | Predestructing | Destructing | Tombstone

record bucket_state =
  refcount :: "61 word"
  bstate :: bucket_state_enum

abbreviation bucket_state :: "61 word \<Rightarrow> bucket_state_enum \<Rightarrow> bucket_state" where
  "bucket_state rc s \<equiv> \<lparr>refcount = rc, bstate = s\<rparr>"

text \<open>\<open>raw_storage\<close> holds an object or raw bytes (\<open>None\<close>).\<close>

record ('k, 'v) bucket =
  b_state :: bucket_state
  b_key :: "'k option"
  b_val :: "'v option"

definition bucket_new :: "('k, 'v) bucket" where
  "bucket_new = \<lparr>b_state = bucket_state 0 Empty, b_key = None, b_val = None\<rparr>"

record ('k, 'v) hash_map =
  m_buckets :: "('k, 'v) bucket list"
  m_load :: u64
  m_lock :: spinrwlock

datatype insert_failed = Ins_rehashing | Key_repeated | Rehash_needed | Ins_retry
datatype remove_failed = Rem_none | Rem_retry | Rem_rehashing | Guard_protecting
datatype get_failed = Get_none | Get_rehashing | Get_retry

definition initial_capacity :: nat where "initial_capacity = 64"

definition hash_map_new :: "('k, 'v) hash_map" where
  "hash_map_new = \<lparr>m_buckets = replicate initial_capacity bucket_new, m_load = 0, m_lock = spinrwlock_new\<rparr>"

definition hm_size :: "('k, 'v) hash_map \<Rightarrow> u64" where
  "hm_size m = m_load m"

text \<open>\<open>compare_exchange_strong(e, d)\<close>: success, the new value of \<open>e\<close>, the bucket.\<close>

definition cas :: "bucket_state \<Rightarrow> bucket_state \<Rightarrow> ('k, 'v) bucket \<Rightarrow> bool \<times> bucket_state \<times> ('k, 'v) bucket" where
  "cas e d b = (if b_state b = e then (True, e, b\<lparr>b_state := d\<rparr>) else (False, b_state b, b))"

text \<open>The loop that takes back a reference (also the body of the destructor of \<open>guard\<close>).\<close>

definition release_ref :: "('k, 'v) bucket \<Rightarrow> ('k, 'v) bucket" where
  "release_ref b = (let e = b_state b in b\<lparr>b_state := bucket_state (refcount e - 1) (bstate e)\<rparr>)"

section \<open>Hashing and probing\<close>

definition hash1 :: "('k \<Rightarrow> u64) \<Rightarrow> 'k \<Rightarrow> u64" where
  "hash1 hasher k = hasher k"

definition hash2 :: "('k \<Rightarrow> u64) \<Rightarrow> 'k \<Rightarrow> u64" where
  "hash2 hasher k = mix64 (hasher k XOR 0xd6e8feb86659fd93) OR 1"

definition probe :: "('k \<Rightarrow> u64) \<Rightarrow> 'k \<Rightarrow> nat \<Rightarrow> nat \<Rightarrow> nat" where
  "probe hasher k len i =
     (let size = of_nat len :: u64; hash = hash1 hasher k; begindex = hash mod size;
          step = hash2 hasher k
      in unat ((begindex + of_nat i * (step mod size)) mod size))"

text \<open>
  \<open>static_cast<double>(load) / size >= 0.6\<close>. The literal is the double
  \<open>5404319552844595 / 2^53\<close>; for the sizes of the table (powers of two) and loads below
  \<open>2^53\<close> the quotient is exact, so the comparison is this one.
\<close>

definition over_load :: "u64 \<Rightarrow> nat \<Rightarrow> bool" where
  "over_load load sz \<longleftrightarrow> 5404319552844595 * sz \<le> unat load * 2 ^ 53"

lemma odd_or_one: "odd (uint (x OR 1 :: u64))"
  by (simp add: uint_or even_or_iff)

lemma hash2_odd: "odd (uint (hash2 hasher k))"
  unfolding hash2_def by (rule odd_or_one)

lemma uint_arith_mod_power:
  fixes x y :: "'w::len word"
  assumes "n \<le> LENGTH('w)"
  shows "uint (x + y) mod 2 ^ n = (uint x + uint y) mod 2 ^ n"
    and "uint (x * y) mod 2 ^ n = (uint x * uint y) mod 2 ^ n"
    and "uint (of_nat i :: 'w word) mod 2 ^ n = int i mod 2 ^ n"
proof -
  have d: "(2 :: int) ^ n dvd 2 ^ LENGTH('w)"
    using assms by (rule le_imp_power_dvd)
  show "uint (x + y) mod 2 ^ n = (uint x + uint y) mod 2 ^ n"
    by (simp only: uint_word_ariths mod_mod_cancel [OF d])
  show "uint (x * y) mod 2 ^ n = (uint x * uint y) mod 2 ^ n"
    by (simp only: uint_word_ariths mod_mod_cancel [OF d])
  show "uint (of_nat i :: 'w word) mod 2 ^ n = int i mod 2 ^ n"
    by (simp only: unsigned_of_nat take_bit_eq_mod zmod_int of_nat_power of_nat_numeral
        mod_mod_cancel [OF d])
qed

lemma probe_eq:
  assumes "n < 64"
  shows "int (probe hasher k (2 ^ n) i) = (uint (hasher k) + int i * uint (hash2 hasher k)) mod 2 ^ n"
proof -
  let ?s = "of_nat (2 ^ n) :: u64"
  have s: "uint ?s = 2 ^ n"
    using unat_two_power [OF assms] by (simp add: uint_nat)
  have "uint (of_nat i :: u64) mod 2 ^ n = int i mod 2 ^ n"
    using assms by (intro uint_arith_mod_power) simp
  then have i: "uint (of_nat i :: u64) * x mod 2 ^ n = int i * x mod 2 ^ n" for x
    by (metis mod_mult_left_eq)
  have mul: "uint (x * y) mod 2 ^ n = (uint x * uint y) mod 2 ^ n" for x y :: u64
    using assms by (intro uint_arith_mod_power) simp
  have "int (probe hasher k (2 ^ n) i) =
      uint (hasher k mod ?s + of_nat i * (hash2 hasher k mod ?s)) mod 2 ^ n"
    by (simp only: probe_def Let_def hash1_def uint_mod s flip: uint_nat)
  also have "\<dots> = (uint (hasher k mod ?s) + uint (of_nat i * (hash2 hasher k mod ?s))) mod 2 ^ n"
    using assms by (simp add: uint_arith_mod_power)
  also have "\<dots> = (uint (hasher k mod ?s) mod 2 ^ n + uint (of_nat i * (hash2 hasher k mod ?s)) mod 2 ^ n) mod 2 ^ n"
    by (simp add: mod_add_eq)
  also have "uint (of_nat i * (hash2 hasher k mod ?s)) mod 2 ^ n = int i * uint (hash2 hasher k) mod 2 ^ n"
    by (simp only: mul uint_mod s mod_mult_right_eq i)
  also have "uint (hasher k mod ?s) mod 2 ^ n = uint (hasher k) mod 2 ^ n"
    by (simp only: uint_mod s mod_mod_trivial)
  finally show ?thesis by (simp only: mod_add_eq)
qed

lemma probe_less: "n < 64 \<Longrightarrow> probe hasher k (2 ^ n) i < 2 ^ n"
proof -
  assume "n < 64"
  have "int (probe hasher k (2 ^ n) i) < 2 ^ n"
    unfolding probe_eq [OF \<open>n < 64\<close>] by (rule pos_mod_bound) simp
  then show ?thesis by (simp only: of_nat_less_numeral_power_cancel_iff)
qed

lemma probe_inj:
  assumes "n < 64" "i < 2 ^ n" "j < 2 ^ n" "probe hasher k (2 ^ n) i = probe hasher k (2 ^ n) j"
  shows "i = j"
proof -
  let ?st = "uint (hash2 hasher k)"
  from assms(4) have "(uint (hasher k) + int i * ?st) mod 2 ^ n = (uint (hasher k) + int j * ?st) mod 2 ^ n"
    by (simp only: flip: probe_eq [OF assms(1)])
  then have "2 ^ n dvd (uint (hasher k) + int i * ?st) - (uint (hasher k) + int j * ?st)"
    by (rule mod_eq_dvd_iff [THEN iffD1])
  then have "2 ^ n dvd (int i - int j) * ?st" by (simp add: algebra_simps)
  moreover have "coprime (2 ^ n) ?st"
    using hash2_odd [of hasher k] by (simp add: coprime_left_2_iff_odd)
  ultimately have "2 ^ n dvd int i - int j"
    by (simp add: coprime_dvd_mult_left_iff)
  then have "int i mod 2 ^ n = int j mod 2 ^ n"
    by (rule mod_eq_dvd_iff [THEN iffD2])
  then have "int (i mod 2 ^ n) = int (j mod 2 ^ n)"
    by (simp only: zmod_int of_nat_power of_nat_numeral)
  with assms(2,3) show ?thesis by simp
qed

lemma probe_surj:
  assumes "n < 64" "p < 2 ^ n"
  obtains i where "i < 2 ^ n" "probe hasher k (2 ^ n) i = p"
proof -
  let ?f = "probe hasher k (2 ^ n)"
  have "inj_on ?f {..< 2 ^ n}"
    by (rule inj_onI) (rule probe_inj [OF assms(1)], simp_all)
  then have "?f ` {..< 2 ^ n} = {..< 2 ^ n}"
    using probe_less [OF assms(1)] by (intro endo_inj_surj) auto
  with assms(2) have "p \<in> ?f ` {..< 2 ^ n}" by simp
  then show ?thesis using that by (elim imageE) simp
qed

section \<open>Insertion\<close>

text \<open>What the body of the probe loop does at one bucket.\<close>

datatype insert_visit =
    Ins_continue
  | Ins_claim
  | Ins_claim_tombstone
  | Ins_break
  | Ins_fail insert_failed

text \<open>The body of the loop of \<open>do_insert\<close> while \<open>insert_index\<close> is set.\<close>

partial_function (option) insert_at_claimed ::
    "'k \<Rightarrow> ('k, 'v) bucket \<Rightarrow> (insert_visit \<times> ('k, 'v) bucket) option" where
  "insert_at_claimed k b =
     (let e = b_state b in
      case bstate e of
        Tombstone \<Rightarrow> Some (Ins_continue, b)
      | Empty \<Rightarrow> Some (Ins_break, b)
      | Constructing \<Rightarrow> Some (Ins_fail Ins_retry, b)
      | Predestructing \<Rightarrow> Some (Ins_fail Ins_retry, b)
      | Destructing \<Rightarrow> Some (Ins_fail Ins_retry, b)
      | Filled \<Rightarrow>
          (let (ok, e', b') = cas e (bucket_state (refcount e + 1) (bstate e)) b in
           if ok
           then (case b_key b' of
                   None \<Rightarrow> None
                 | Some k' \<Rightarrow>
                     if k' = k then Some (Ins_fail Key_repeated, release_ref b')
                     else Some (Ins_continue, release_ref b'))
           else if bstate e' = Predestructing then Some (Ins_fail Ins_retry, b')
           else insert_at_claimed k b'))"

text \<open>The body of the loop while \<open>insert_index\<close> is not set.\<close>

partial_function (option) insert_at ::
    "'k \<Rightarrow> ('k, 'v) bucket \<Rightarrow> (insert_visit \<times> ('k, 'v) bucket) option" where
  "insert_at k b =
     (let (ok, e, b) = cas (bucket_state 0 Empty) (bucket_state 0 Constructing) b in
      if ok then Some (Ins_claim, b)
      else if bstate e = Constructing \<or> bstate e = Predestructing then Some (Ins_fail Ins_retry, b)
      else if bstate e = Filled
      then (let (ok, e, b) = cas e (bucket_state (refcount e + 1) (bstate e)) b in
            if ok
            then (case b_key b of
                    None \<Rightarrow> None
                  | Some k' \<Rightarrow>
                      if k' = k then Some (Ins_fail Key_repeated, release_ref b)
                      else Some (Ins_continue, release_ref b))
            else if bstate e = Predestructing then Some (Ins_fail Ins_retry, b)
            else insert_at k b)
      else if bstate e = Destructing then Some (Ins_fail Ins_retry, b)
      else if bstate e = Tombstone
      then (let e = b_state b in
            if bstate e \<noteq> Tombstone then insert_at k b
            else Some (Ins_claim_tombstone, b\<lparr>b_state := bucket_state 0 Constructing\<rparr>))
      else if bstate e = Empty then insert_at k b
      else Some (Ins_continue, b))"

text \<open>
  The probe loop from round \<open>i\<close> on: an error, or the index of the bucket that was claimed
  (and is in state \<open>Constructing\<close>). \<open>None\<close> at the end is \<open>std::unreachable\<close>.
\<close>

function insert_loop ::
    "('k \<Rightarrow> u64) \<Rightarrow> 'k \<Rightarrow> nat option \<Rightarrow> nat \<Rightarrow> ('k, 'v) bucket list \<Rightarrow>
      ((insert_failed + nat) \<times> ('k, 'v) bucket list) option" where
  "insert_loop hasher k insert_index i bs =
     (if i < length bs
      then (let index = probe hasher k (length bs) i; b = bs ! index in
            case insert_index of
              Some j \<Rightarrow>
                (case insert_at_claimed k b of
                   None \<Rightarrow> None
                 | Some (Ins_continue, b') \<Rightarrow>
                     insert_loop hasher k insert_index (i + 1) (bs[index := b'])
                 | Some (Ins_fail err, b') \<Rightarrow>
                     (let bs' = bs[index := b']
                      in Some (Inl err, bs'[j := (bs' ! j)\<lparr>b_state := bucket_state 0 Tombstone\<rparr>]))
                 | Some (_, b') \<Rightarrow> Some (Inr j, bs[index := b']))
            | None \<Rightarrow>
                (case insert_at k b of
                   None \<Rightarrow> None
                 | Some (Ins_continue, b') \<Rightarrow>
                     insert_loop hasher k None (i + 1) (bs[index := b'])
                 | Some (Ins_claim_tombstone, b') \<Rightarrow>
                     insert_loop hasher k (Some index) (i + 1) (bs[index := b'])
                 | Some (Ins_fail err, b') \<Rightarrow> Some (Inl err, bs[index := b'])
                 | Some (_, b') \<Rightarrow> Some (Inr index, bs[index := b'])))
      else (case insert_index of None \<Rightarrow> None | Some j \<Rightarrow> Some (Inr j, bs)))"
  by pat_completeness auto
termination
  by (relation "measure (\<lambda>(_, _, _, i, bs). length bs - i)") auto

declare insert_loop.simps [simp del]

definition do_insert ::
    "('k \<Rightarrow> u64) \<Rightarrow> 'k \<Rightarrow> 'v \<Rightarrow> ('k, 'v) hash_map \<Rightarrow>
      ((insert_failed + unit) \<times> ('k, 'v) hash_map) option" where
  "do_insert hasher k v m =
     (if over_load (m_load m) (length (m_buckets m)) then Some (Inl Rehash_needed, m)
      else
        (case insert_loop hasher k None 0 (m_buckets m) of
           None \<Rightarrow> None
         | Some (Inl err, bs) \<Rightarrow> Some (Inl err, m\<lparr>m_buckets := bs\<rparr>)
         | Some (Inr j, bs) \<Rightarrow>
             Some (Inr (), m\<lparr>m_buckets := bs[j := \<lparr>b_state = bucket_state 0 Filled, b_key = Some k, b_val = Some v\<rparr>],
                             m_load := m_load m + 1\<rparr>)))"

section \<open>Removal and lookup\<close>

datatype 'v remove_visit = Rem_continue | Rem_fail remove_failed | Removed 'v

text \<open>The part of the loop of \<open>do_remove\<close> after the bucket is in state \<open>Predestructing\<close>.\<close>

definition remove_marked :: "'k \<Rightarrow> ('k, 'v) bucket \<Rightarrow> ('v remove_visit \<times> ('k, 'v) bucket) option" where
  "remove_marked k b =
     (case b_key b of
        None \<Rightarrow> None
      | Some k' \<Rightarrow>
          if k' \<noteq> k
          then Some (Rem_continue, b\<lparr>b_state := bucket_state (refcount (b_state b) - 1) Filled\<rparr>)
          else if bstate (b_state b) = Filled then Some (Rem_fail Rem_retry, release_ref b)
          else if refcount (b_state b) > 1
          then Some (Rem_fail Guard_protecting, b\<lparr>b_state := bucket_state (refcount (b_state b) - 1) Filled\<rparr>)
          else
            (let b = b\<lparr>b_state := bucket_state (refcount (b_state b) - 1) Predestructing\<rparr> in
             case b_val b of
               None \<Rightarrow> None
             | Some res \<Rightarrow>
                 Some (Removed res, b\<lparr>b_key := None, b_val := None, b_state := bucket_state 0 Tombstone\<rparr>)))"

partial_function (option) remove_at ::
    "'k \<Rightarrow> ('k, 'v) bucket \<Rightarrow> ('v remove_visit \<times> ('k, 'v) bucket) option" where
  "remove_at k b =
     (let (ok, e, b) = cas (bucket_state 0 Filled) (bucket_state 1 Predestructing) b in
      if ok then remove_marked k b
      else if bstate e = Filled \<and> refcount e \<noteq> 0
      then (let e = b_state b in
            if bstate e \<noteq> Filled then Some (Rem_fail Rem_retry, b)
            else if refcount e = 0 then remove_at k b
            else remove_marked k (b\<lparr>b_state := bucket_state (refcount e + 1) Predestructing\<rparr>))
      else if bstate e = Empty then Some (Rem_fail Rem_none, b)
      else if bstate e = Constructing \<or> bstate e = Predestructing then Some (Rem_fail Rem_retry, b)
      else Some (Rem_continue, b))"

function remove_loop ::
    "('k \<Rightarrow> u64) \<Rightarrow> 'k \<Rightarrow> nat \<Rightarrow> ('k, 'v) hash_map \<Rightarrow>
      ((remove_failed + 'v) \<times> ('k, 'v) hash_map) option" where
  "remove_loop hasher k i m =
     (if i < length (m_buckets m)
      then (let bs = m_buckets m; index = probe hasher k (length bs) i in
            case remove_at k (bs ! index) of
              None \<Rightarrow> None
            | Some (Rem_continue, b') \<Rightarrow>
                remove_loop hasher k (i + 1) (m\<lparr>m_buckets := bs[index := b']\<rparr>)
            | Some (Rem_fail err, b') \<Rightarrow> Some (Inl err, m\<lparr>m_buckets := bs[index := b']\<rparr>)
            | Some (Removed v, b') \<Rightarrow>
                Some (Inr v, m\<lparr>m_buckets := bs[index := b'], m_load := m_load m - 1\<rparr>))
      else Some (Inl Rem_none, m))"
  by pat_completeness auto
termination
  by (relation "measure (\<lambda>(_, _, i, m). length (m_buckets m) - i)") auto

declare remove_loop.simps [simp del]

definition do_remove ::
    "('k \<Rightarrow> u64) \<Rightarrow> 'k \<Rightarrow> ('k, 'v) hash_map \<Rightarrow> ((remove_failed + 'v) \<times> ('k, 'v) hash_map) option" where
  "do_remove hasher k m = remove_loop hasher k 0 m"

datatype get_visit = Get_continue | Get_fail get_failed | Found

definition get_at :: "'k \<Rightarrow> ('k, 'v) bucket \<Rightarrow> (get_visit \<times> ('k, 'v) bucket) option" where
  "get_at k b =
     (let e = b_state b in
      if bstate e = Empty then Some (Get_fail Get_none, b)
      else if bstate e = Constructing \<or> bstate e = Predestructing then Some (Get_fail Get_retry, b)
      else if bstate e \<noteq> Filled then Some (Get_continue, b)
      else
        (let b = b\<lparr>b_state := bucket_state (refcount e + 1) (bstate e)\<rparr> in
         case b_key b of
           None \<Rightarrow> None
         | Some k' \<Rightarrow> if k' \<noteq> k then Some (Get_continue, release_ref b) else Some (Found, b)))"

text \<open>A live guard is the index of its bucket; \<open>None\<close> is the null guard.\<close>

type_synonym hm_guard = "nat option"

function get_loop ::
    "('k \<Rightarrow> u64) \<Rightarrow> 'k \<Rightarrow> nat \<Rightarrow> ('k, 'v) bucket list \<Rightarrow>
      ((get_failed + hm_guard) \<times> ('k, 'v) bucket list) option" where
  "get_loop hasher k i bs =
     (if i < length bs
      then (let index = probe hasher k (length bs) i in
            case get_at k (bs ! index) of
              None \<Rightarrow> None
            | Some (Get_continue, b') \<Rightarrow> get_loop hasher k (i + 1) (bs[index := b'])
            | Some (Get_fail err, b') \<Rightarrow> Some (Inl err, bs[index := b'])
            | Some (Found, b') \<Rightarrow> Some (Inr (Some index), bs[index := b']))
      else Some (Inl Get_none, bs))"
  by pat_completeness auto
termination
  by (relation "measure (\<lambda>(_, _, i, bs). length bs - i)") auto

declare get_loop.simps [simp del]

definition do_get ::
    "('k \<Rightarrow> u64) \<Rightarrow> 'k \<Rightarrow> ('k, 'v) hash_map \<Rightarrow> ((get_failed + hm_guard) \<times> ('k, 'v) hash_map) option" where
  "do_get hasher k m =
     (case get_loop hasher k 0 (m_buckets m) of
        None \<Rightarrow> None
      | Some (r, bs) \<Rightarrow> Some (r, m\<lparr>m_buckets := bs\<rparr>))"

section \<open>Rehashing\<close>

text \<open>
  The inner loop of \<open>do_rehash\<close>: the first empty bucket of the probe sequence takes the key and
  the value. (When there is none the loop just ends, and the entry is gone.)
\<close>

function rehash_place ::
    "('k \<Rightarrow> u64) \<Rightarrow> 'k \<Rightarrow> 'v \<Rightarrow> nat \<Rightarrow> ('k, 'v) bucket list \<Rightarrow> ('k, 'v) bucket list" where
  "rehash_place hasher k v i bs =
     (if i < length bs
      then (let index = probe hasher k (length bs) i in
            if bstate (b_state (bs ! index)) \<noteq> Empty then rehash_place hasher k v (i + 1) bs
            else bs[index := \<lparr>b_state = bucket_state 0 Filled, b_key = Some k, b_val = Some v\<rparr>])
      else bs)"
  by pat_completeness auto
termination
  by (relation "measure (\<lambda>(_, _, _, i, bs). length bs - i)") auto

declare rehash_place.simps [simp del]

text \<open>
  The outer loop, over the old buckets. A bucket with references makes it wait; nobody else
  runs here, so then it waits for ever.
\<close>

fun rehash_loop ::
    "('k \<Rightarrow> u64) \<Rightarrow> ('k, 'v) bucket list \<Rightarrow> ('k, 'v) bucket list \<Rightarrow> ('k, 'v) bucket list option" where
  "rehash_loop hasher [] new_buckets = Some new_buckets"
| "rehash_loop hasher (b # bs) new_buckets =
     (if bstate (b_state b) \<noteq> Filled then rehash_loop hasher bs new_buckets
      else if refcount (b_state b) > 0 then None
      else (case (b_key b, b_val b) of
              (Some k, Some v) \<Rightarrow> rehash_loop hasher bs (rehash_place hasher k v 0 new_buckets)
            | _ \<Rightarrow> None))"

definition do_rehash :: "('k \<Rightarrow> u64) \<Rightarrow> ('k, 'v) hash_map \<Rightarrow> ('k, 'v) hash_map option" where
  "do_rehash hasher m =
     (case rehash_loop hasher (m_buckets m) (replicate (length (m_buckets m) * 2) bucket_new) of
        None \<Rightarrow> None
      | Some new_buckets \<Rightarrow> Some (m\<lparr>m_buckets := new_buckets\<rparr>))"

section \<open>The public operations\<close>

text \<open>
  \<open>with_read err f\<close>: \<open>auto g = m_lock.try_read(); if (!g) return err; return f();\<close> and the end
  of \<open>g\<close>'s scope.
\<close>

definition with_read :: "'e \<Rightarrow> (('k, 'v) hash_map \<Rightarrow> (('e + 'r) \<times> ('k, 'v) hash_map) option) \<Rightarrow>
    ('k, 'v) hash_map \<Rightarrow> (('e + 'r) \<times> ('k, 'v) hash_map) option" where
  "with_read err f m =
     (let (g, l) = try_read (m_lock m); m = m\<lparr>m_lock := l\<rparr> in
      if \<not> rw_guard_bool g then Some (Inl err, m)
      else (case f m of
              None \<Rightarrow> None
            | Some (r, m) \<Rightarrow> Some (r, m\<lparr>m_lock := read_guard_dtor g (m_lock m)\<rparr>)))"

definition try_insert ::
    "('k \<Rightarrow> u64) \<Rightarrow> 'k \<Rightarrow> 'v \<Rightarrow> ('k, 'v) hash_map \<Rightarrow> ((insert_failed + unit) \<times> ('k, 'v) hash_map) option" where
  "try_insert hasher k v m = with_read Ins_rehashing (do_insert hasher k v) m"

definition try_remove ::
    "('k \<Rightarrow> u64) \<Rightarrow> 'k \<Rightarrow> ('k, 'v) hash_map \<Rightarrow> ((remove_failed + 'v) \<times> ('k, 'v) hash_map) option" where
  "try_remove hasher k m = with_read Rem_rehashing (do_remove hasher k) m"

definition try_get ::
    "('k \<Rightarrow> u64) \<Rightarrow> 'k \<Rightarrow> ('k, 'v) hash_map \<Rightarrow> ((get_failed + hm_guard) \<times> ('k, 'v) hash_map) option" where
  "try_get hasher k m = with_read Get_rehashing (do_get hasher k) m"

text \<open>The destructor of a guard.\<close>

definition hm_guard_dtor :: "hm_guard \<Rightarrow> ('k, 'v) hash_map \<Rightarrow> ('k, 'v) hash_map" where
  "hm_guard_dtor g m =
     (case g of
        None \<Rightarrow> m
      | Some i \<Rightarrow> m\<lparr>m_buckets := (m_buckets m)[i := release_ref (m_buckets m ! i)]\<rparr>)"

definition hm_guard_key :: "hm_guard \<Rightarrow> ('k, 'v) hash_map \<Rightarrow> 'k option outcome" where
  "hm_guard_key g m = (case g of None \<Rightarrow> Inl Assertion_failed | Some i \<Rightarrow> Inr (b_key (m_buckets m ! i)))"

definition hm_guard_value :: "hm_guard \<Rightarrow> ('k, 'v) hash_map \<Rightarrow> 'v option outcome" where
  "hm_guard_value g m = (case g of None \<Rightarrow> Inl Assertion_failed | Some i \<Rightarrow> Inr (b_val (m_buckets m ! i)))"

definition hm_guard_move :: "hm_guard \<Rightarrow> hm_guard \<times> hm_guard" where
  "hm_guard_move rhs = (rhs, None)"

definition hm_guard_move_assign ::
    "hm_guard \<Rightarrow> hm_guard \<Rightarrow> ('k, 'v) hash_map \<Rightarrow> hm_guard \<times> hm_guard \<times> ('k, 'v) hash_map" where
  "hm_guard_move_assign this rhs m =
     (let m' = hm_guard_dtor this m; (this', rhs') = hm_guard_move rhs in (this', rhs', m'))"

definition try_contains ::
    "('k \<Rightarrow> u64) \<Rightarrow> 'k \<Rightarrow> ('k, 'v) hash_map \<Rightarrow> ((get_failed + bool) \<times> ('k, 'v) hash_map) option" where
  "try_contains hasher k =
     with_read Get_rehashing (\<lambda>m.
       case do_get hasher k m of
         None \<Rightarrow> None
       | Some (Inr g, m) \<Rightarrow> Some (Inr True, hm_guard_dtor g m)
       | Some (Inl Get_none, m) \<Rightarrow> Some (Inr False, m)
       | Some (Inl err, m) \<Rightarrow> Some (Inl err, m))"

definition try_rehash :: "('k \<Rightarrow> u64) \<Rightarrow> ('k, 'v) hash_map \<Rightarrow> (bool \<times> ('k, 'v) hash_map) option" where
  "try_rehash hasher m =
     (let (rg, l) = try_write (m_lock m); m = m\<lparr>m_lock := l\<rparr> in
      if \<not> rw_guard_bool rg then Some (False, m)
      else (case do_rehash hasher m of
              None \<Rightarrow> None
            | Some m \<Rightarrow> Some (True, m\<lparr>m_lock := write_guard_dtor rg (m_lock m)\<rparr>)))"

partial_function (option) hm_insert ::
    "('k \<Rightarrow> u64) \<Rightarrow> 'k \<Rightarrow> 'v \<Rightarrow> ('k, 'v) hash_map \<Rightarrow> (bool \<times> ('k, 'v) hash_map) option" where
  "hm_insert hasher k v m =
     (case try_insert hasher k v m of
        None \<Rightarrow> None
      | Some (Inr _, m) \<Rightarrow> Some (True, m)
      | Some (Inl err, m) \<Rightarrow>
          (case err of
             Ins_rehashing \<Rightarrow> hm_insert hasher k v m
           | Key_repeated \<Rightarrow> Some (False, m)
           | Rehash_needed \<Rightarrow>
               (case try_rehash hasher m of
                  None \<Rightarrow> None
                | Some (_, m) \<Rightarrow> hm_insert hasher k v m)
           | Ins_retry \<Rightarrow> hm_insert hasher k v m))"

partial_function (option) hm_remove ::
    "('k \<Rightarrow> u64) \<Rightarrow> 'k \<Rightarrow> ('k, 'v) hash_map \<Rightarrow> ('v option \<times> ('k, 'v) hash_map) option" where
  "hm_remove hasher k m =
     (case try_remove hasher k m of
        None \<Rightarrow> None
      | Some (Inr v, m) \<Rightarrow> Some (Some v, m)
      | Some (Inl err, m) \<Rightarrow>
          (case err of
             Rem_none \<Rightarrow> Some (None, m)
           | _ \<Rightarrow> hm_remove hasher k m))"

partial_function (option) hm_get ::
    "('k \<Rightarrow> u64) \<Rightarrow> 'k \<Rightarrow> ('k, 'v) hash_map \<Rightarrow> (hm_guard \<times> ('k, 'v) hash_map) option" where
  "hm_get hasher k m =
     (case try_get hasher k m of
        None \<Rightarrow> None
      | Some (Inr g, m) \<Rightarrow> Some (g, m)
      | Some (Inl err, m) \<Rightarrow>
          (case err of
             Get_none \<Rightarrow> Some (None, m)
           | _ \<Rightarrow> hm_get hasher k m))"

partial_function (option) hm_contains ::
    "('k \<Rightarrow> u64) \<Rightarrow> 'k \<Rightarrow> ('k, 'v) hash_map \<Rightarrow> (bool \<times> ('k, 'v) hash_map) option" where
  "hm_contains hasher k m =
     (case try_contains hasher k m of
        None \<Rightarrow> None
      | Some (Inr r, m) \<Rightarrow> Some (r, m)
      | Some (Inl _, m) \<Rightarrow> hm_contains hasher k m)"

text \<open>
  The destructor: panics when the structure is locked, and otherwise destroys the keys and
  values of the filled buckets, each once its references are gone (\<open>None\<close>: it waits for ever).
\<close>

fun hm_destroy_buckets :: "('k, 'v) bucket list \<Rightarrow> ('k, 'v) bucket list option" where
  "hm_destroy_buckets [] = Some []"
| "hm_destroy_buckets (b # bs) =
     (if bstate (b_state b) = Filled \<and> refcount (b_state b) \<noteq> 0 then None
      else
        (case hm_destroy_buckets bs of
           None \<Rightarrow> None
         | Some bs' \<Rightarrow>
             Some ((if bstate (b_state b) = Filled then b\<lparr>b_key := None, b_val := None\<rparr> else b) # bs')))"

definition hash_map_dtor :: "('k, 'v) hash_map \<Rightarrow> ('k, 'v) hash_map outcome option" where
  "hash_map_dtor m =
     (let (g, l) = try_write (m_lock m) in
      if \<not> rw_guard_bool g then Some (Inl Destroyed_while_locked)
      else (case hm_destroy_buckets (m_buckets m) of
              None \<Rightarrow> None
            | Some bs \<Rightarrow> Some (Inr (m\<lparr>m_buckets := bs, m_lock := write_guard_dtor g l\<rparr>))))"

end
