(* ===== verification/Hash_Map_Spec.thy ===== *)
theory Hash_Map_Spec
  imports Hash_Map
begin

text \<open>
  Correctness of \<open>hash_map\<close> without interference: the table invariant, the behaviour of every
  operation as a function on the finite map the table stands for, and the contract
  \<open>map_object\<close> that the table meets.
\<close>

section \<open>Invariant and abstraction\<close>

definition bucket_ok :: "('k, 'v) bucket \<Rightarrow> bool" where
  "bucket_ok b \<longleftrightarrow>
     (case bstate (b_state b) of
        Empty \<Rightarrow> b = bucket_new
      | Tombstone \<Rightarrow> b = bucket_new\<lparr>b_state := bucket_state 0 Tombstone\<rparr>
      | Filled \<Rightarrow> b_key b \<noteq> None \<and> b_val b \<noteq> None
      | _ \<Rightarrow> False)"

definition is_filled :: "('k, 'v) bucket \<Rightarrow> bool" where
  "is_filled b \<longleftrightarrow> bstate (b_state b) = Filled"

definition holds :: "'k \<Rightarrow> ('k, 'v) bucket \<Rightarrow> bool" where
  "holds k b \<longleftrightarrow> is_filled b \<and> b_key b = Some k"

abbreviation is_empty :: "('k, 'v) bucket \<Rightarrow> bool" where
  "is_empty b \<equiv> bstate (b_state b) = Empty"

text \<open>Every key is found before the first empty bucket of its probe sequence.\<close>

definition chained :: "('k \<Rightarrow> u64) \<Rightarrow> ('k, 'v) bucket list \<Rightarrow> bool" where
  "chained hasher bs \<longleftrightarrow>
     (\<forall>p < length bs. \<forall>k. holds k (bs ! p) \<longrightarrow>
        (\<exists>j < length bs. probe hasher k (length bs) j = p \<and>
           (\<forall>l < j. \<not> is_empty (bs ! probe hasher k (length bs) l))))"

definition keys_distinct :: "('k, 'v) bucket list \<Rightarrow> bool" where
  "keys_distinct bs \<longleftrightarrow>
     (\<forall>p < length bs. \<forall>q < length bs. \<forall>k. holds k (bs ! p) \<longrightarrow> holds k (bs ! q) \<longrightarrow> p = q)"

definition power_size :: "'a list \<Rightarrow> bool" where
  "power_size bs \<longleftrightarrow> (\<exists>n < 64. length bs = 2 ^ n)"

definition table_ok :: "('k \<Rightarrow> u64) \<Rightarrow> ('k, 'v) bucket list \<Rightarrow> bool" where
  "table_ok hasher bs \<longleftrightarrow>
     power_size bs \<and> (\<forall>b \<in> set bs. bucket_ok b) \<and> chained hasher bs \<and> keys_distinct bs"

definition hm_inv :: "('k \<Rightarrow> u64) \<Rightarrow> ('k, 'v) hash_map \<Rightarrow> bool" where
  "hm_inv hasher m \<longleftrightarrow>
     table_ok hasher (m_buckets m) \<and> unat (m_load m) = count_if is_filled (m_buckets m) \<and>
     m_lock m = spinrwlock_new"

text \<open>The finite map a table stands for.\<close>

definition table_map :: "('k, 'v) bucket list \<Rightarrow> 'k \<Rightarrow> 'v option" where
  "table_map bs k = (case find (holds k) bs of None \<Rightarrow> None | Some b \<Rightarrow> b_val b)"

definition hm_abs :: "('k, 'v) hash_map \<Rightarrow> 'k \<Rightarrow> 'v option" where
  "hm_abs m = table_map (m_buckets m)"

lemma holds_filled: "holds k b \<Longrightarrow> is_filled b"
  by (simp add: holds_def)

lemma bucket_ok_new [simp]: "bucket_ok bucket_new"
  by (simp add: bucket_ok_def bucket_new_def)

lemma bucket_ok_cases:
  assumes "bucket_ok b"
  obtains (empty) "b = bucket_new" "is_empty b"
  | (tombstone) "b = bucket_new\<lparr>b_state := bucket_state 0 Tombstone\<rparr>" "\<not> is_empty b"
  | (filled) k v r where "b = \<lparr>b_state = bucket_state r Filled, b_key = Some k, b_val = Some v\<rparr>"
      "\<not> is_empty b" "holds k b"
proof (cases b)
  case (fields s k v)
  with assms that show ?thesis
    by (cases s) (auto simp: bucket_ok_def bucket_new_def holds_def is_filled_def
        split: bucket_state_enum.splits)
qed

lemma new_simps [simp]:
  "is_empty bucket_new" "\<not> is_filled bucket_new" "\<not> is_filled (bucket_new\<lparr>b_state := bucket_state 0 Tombstone\<rparr>)"
  "\<not> holds k bucket_new" "\<not> holds k (bucket_new\<lparr>b_state := bucket_state 0 Tombstone\<rparr>)"
  by (simp_all add: bucket_new_def is_filled_def holds_def)

section \<open>One bucket\<close>

lemma insert_at_empty:
  "insert_at k bucket_new = Some (Ins_claim, bucket_new\<lparr>b_state := bucket_state 0 Constructing\<rparr>)"
  by (subst insert_at.simps) (simp add: cas_def bucket_new_def)

lemma insert_at_tombstone:
  "insert_at k (bucket_new\<lparr>b_state := bucket_state 0 Tombstone\<rparr>) =
     Some (Ins_claim_tombstone, bucket_new\<lparr>b_state := bucket_state 0 Constructing\<rparr>)"
  by (subst insert_at.simps) (simp add: cas_def bucket_new_def)

lemma insert_at_filled:
  "insert_at k \<lparr>b_state = bucket_state r Filled, b_key = Some k', b_val = v\<rparr> =
     Some (if k' = k then Ins_fail Key_repeated else Ins_continue,
           \<lparr>b_state = bucket_state r Filled, b_key = Some k', b_val = v\<rparr>)"
  by (subst insert_at.simps) (simp add: cas_def release_ref_def)

lemma insert_at_claimed_empty: "insert_at_claimed k bucket_new = Some (Ins_break, bucket_new)"
  by (subst insert_at_claimed.simps) (simp add: bucket_new_def)

lemma insert_at_claimed_tombstone:
  "insert_at_claimed k (bucket_new\<lparr>b_state := bucket_state 0 Tombstone\<rparr>) =
     Some (Ins_continue, bucket_new\<lparr>b_state := bucket_state 0 Tombstone\<rparr>)"
  by (subst insert_at_claimed.simps) (simp add: bucket_new_def)

lemma insert_at_claimed_filled:
  "insert_at_claimed k \<lparr>b_state = bucket_state r Filled, b_key = Some k', b_val = v\<rparr> =
     Some (if k' = k then Ins_fail Key_repeated else Ins_continue,
           \<lparr>b_state = bucket_state r Filled, b_key = Some k', b_val = v\<rparr>)"
  by (subst insert_at_claimed.simps) (simp add: cas_def release_ref_def)

lemma remove_at_empty: "remove_at k bucket_new = Some (Rem_fail Rem_none, bucket_new)"
  by (subst remove_at.simps) (simp add: cas_def bucket_new_def)

lemma remove_at_tombstone:
  "remove_at k (bucket_new\<lparr>b_state := bucket_state 0 Tombstone\<rparr>) =
     Some (Rem_continue, bucket_new\<lparr>b_state := bucket_state 0 Tombstone\<rparr>)"
  by (subst remove_at.simps) (simp add: cas_def bucket_new_def)

lemma refs_add_one:
  fixes r :: "61 word"
  shows "r \<noteq> 0 \<Longrightarrow> r + 1 \<noteq> 0 \<Longrightarrow> 1 < r + 1"
  using unatSuc [of r] unat_gt_0 [of r] by (simp add: add.commute word_less_nat_alt)

lemma remove_at_filled:
  assumes "r + 1 \<noteq> 0"
  shows "remove_at k \<lparr>b_state = bucket_state r Filled, b_key = Some k', b_val = Some v\<rparr> =
     Some (if k' \<noteq> k then Rem_continue else if r = 0 then Removed v else Rem_fail Guard_protecting,
           if k' = k \<and> r = 0 then bucket_new\<lparr>b_state := bucket_state 0 Tombstone\<rparr>
           else \<lparr>b_state = bucket_state r Filled, b_key = Some k', b_val = Some v\<rparr>)"
  using assms refs_add_one [of r]
  by (subst remove_at.simps) (simp add: cas_def remove_marked_def Let_def bucket_new_def)

lemma get_at_empty: "get_at k bucket_new = Some (Get_fail Get_none, bucket_new)"
  by (simp add: get_at_def bucket_new_def)

lemma get_at_tombstone:
  "get_at k (bucket_new\<lparr>b_state := bucket_state 0 Tombstone\<rparr>) =
     Some (Get_continue, bucket_new\<lparr>b_state := bucket_state 0 Tombstone\<rparr>)"
  by (simp add: get_at_def bucket_new_def)

lemma get_at_filled:
  "get_at k \<lparr>b_state = bucket_state r Filled, b_key = Some k', b_val = v\<rparr> =
     Some (if k' = k then Found else Get_continue,
           \<lparr>b_state = bucket_state (if k' = k then r + 1 else r) Filled, b_key = Some k', b_val = v\<rparr>)"
  by (simp add: get_at_def release_ref_def Let_def)

lemmas at_empty = insert_at_empty insert_at_claimed_empty remove_at_empty get_at_empty
lemmas at_tombstone = insert_at_tombstone insert_at_claimed_tombstone remove_at_tombstone get_at_tombstone
lemmas at_filled = insert_at_filled insert_at_claimed_filled remove_at_filled get_at_filled

text \<open>A bucket that a search for \<open>k\<close> steps over.\<close>

definition passes :: "'k \<Rightarrow> ('k, 'v) bucket \<Rightarrow> bool" where
  "passes k b \<longleftrightarrow> bucket_ok b \<and> \<not> is_empty b \<and> \<not> holds k b"

lemma remove_at_other:
  "k' \<noteq> k \<Longrightarrow> remove_at k \<lparr>b_state = bucket_state r Filled, b_key = Some k', b_val = v\<rparr> =
     Some (Rem_continue, \<lparr>b_state = bucket_state r Filled, b_key = Some k', b_val = v\<rparr>)"
  by (subst remove_at.simps) (simp add: cas_def remove_marked_def Let_def)

lemma at_passes:
  assumes "passes k b"
  shows "get_at k b = Some (Get_continue, b)"
    and "remove_at k b = Some (Rem_continue, b)"
    and "insert_at_claimed k b = Some (Ins_continue, b)"
    and "is_filled b \<Longrightarrow> insert_at k b = Some (Ins_continue, b)"
proof -
  from assms have "bucket_ok b" "\<not> is_empty b" "\<not> holds k b" by (simp_all add: passes_def)
  then have "get_at k b = Some (Get_continue, b) \<and> remove_at k b = Some (Rem_continue, b) \<and>
      insert_at_claimed k b = Some (Ins_continue, b) \<and>
      (is_filled b \<longrightarrow> insert_at k b = Some (Ins_continue, b))"
    by (cases b rule: bucket_ok_cases)
      (auto simp: at_tombstone at_filled remove_at_other holds_def is_filled_def)
  then show "get_at k b = Some (Get_continue, b)" "remove_at k b = Some (Rem_continue, b)"
    "insert_at_claimed k b = Some (Ins_continue, b)"
    "is_filled b \<Longrightarrow> insert_at k b = Some (Ins_continue, b)"
    by blast+
qed

section \<open>The probe loops\<close>

abbreviation nth_probe :: "('k \<Rightarrow> u64) \<Rightarrow> 'k \<Rightarrow> ('k, 'v) bucket list \<Rightarrow> nat \<Rightarrow> ('k, 'v) bucket" where
  "nth_probe hasher k bs i \<equiv> bs ! probe hasher k (length bs) i"

text \<open>Stepping over the buckets \<open>i..<j\<close> of the probe sequence.\<close>

lemma get_loop_skip:
  "i \<le> j \<Longrightarrow> j \<le> length bs \<Longrightarrow> (\<And>l. i \<le> l \<Longrightarrow> l < j \<Longrightarrow> passes k (nth_probe hasher k bs l)) \<Longrightarrow>
   get_loop hasher k i bs = get_loop hasher k j bs"
proof (induction "j - i" arbitrary: i)
  case (Suc d)
  from Suc.hyps(2) Suc.prems have "passes k (nth_probe hasher k bs i)" "i < length bs"
    by simp_all
  then have "get_loop hasher k i bs = get_loop hasher k (Suc i) bs"
    by (subst get_loop.simps) (simp add: at_passes Let_def)
  also have "\<dots> = get_loop hasher k j bs"
    using Suc.hyps(2) Suc.prems by (intro Suc.hyps(1)) simp_all
  finally show ?case .
qed simp

lemma remove_loop_skip:
  "i \<le> j \<Longrightarrow> j \<le> length (m_buckets m) \<Longrightarrow>
   (\<And>l. i \<le> l \<Longrightarrow> l < j \<Longrightarrow> passes k (nth_probe hasher k (m_buckets m) l)) \<Longrightarrow>
   remove_loop hasher k i m = remove_loop hasher k j m"
proof (induction "j - i" arbitrary: i)
  case (Suc d)
  from Suc.hyps(2) Suc.prems have "passes k (nth_probe hasher k (m_buckets m) i)" "i < length (m_buckets m)"
    by simp_all
  then have "remove_loop hasher k i m = remove_loop hasher k (Suc i) m"
    by (subst remove_loop.simps) (simp add: at_passes Let_def)
  also have "\<dots> = remove_loop hasher k j m"
    using Suc.hyps(2) Suc.prems by (intro Suc.hyps(1)) simp_all
  finally show ?case .
qed simp

lemma insert_loop_skip:
  "i \<le> j \<Longrightarrow> j \<le> length bs \<Longrightarrow> (\<And>l. i \<le> l \<Longrightarrow> l < j \<Longrightarrow> passes k (nth_probe hasher k bs l)) \<Longrightarrow>
   (ins = None \<Longrightarrow> \<forall>l. i \<le> l \<and> l < j \<longrightarrow> is_filled (nth_probe hasher k bs l)) \<Longrightarrow>
   insert_loop hasher k ins i bs = insert_loop hasher k ins j bs"
proof (induction "j - i" arbitrary: i)
  case (Suc d)
  from Suc.hyps(2) Suc.prems have "passes k (nth_probe hasher k bs i)" "i < length bs"
      "ins = None \<Longrightarrow> is_filled (nth_probe hasher k bs i)"
    by simp_all
  then have "insert_loop hasher k ins i bs = insert_loop hasher k ins (Suc i) bs"
    by (subst insert_loop.simps) (cases ins; simp add: at_passes Let_def)
  also have "\<dots> = insert_loop hasher k ins j bs"
    using Suc.hyps(2) Suc.prems by (intro Suc.hyps(1)) simp_all
  finally show ?case .
qed simp

text \<open>
  Where the search for \<open>k\<close> ends: at the first bucket of the probe sequence that holds \<open>k\<close> or
  is empty, or (\<open>length bs\<close>) nowhere.
\<close>

definition search_end :: "('k \<Rightarrow> u64) \<Rightarrow> 'k \<Rightarrow> nat \<Rightarrow> ('k, 'v) bucket list \<Rightarrow> nat \<Rightarrow> bool" where
  "search_end hasher k i bs j \<longleftrightarrow>
     i \<le> j \<and> j \<le> length bs \<and> (\<forall>l. i \<le> l \<and> l < j \<longrightarrow> passes k (nth_probe hasher k bs l)) \<and>
     (j < length bs \<longrightarrow> \<not> passes k (nth_probe hasher k bs j))"

lemma search_end_ex:
  assumes "i \<le> length bs"
  obtains j where "search_end hasher k i bs j"
proof -
  let ?P = "\<lambda>j. i \<le> j \<and> (j < length bs \<longrightarrow> \<not> passes k (nth_probe hasher k bs j))"
  have ex: "?P (length bs)" using assms by simp
  define j where "j = (LEAST j. ?P j)"
  have "?P j" unfolding j_def using ex by (rule LeastI)
  moreover have "j \<le> length bs" unfolding j_def using ex by (rule Least_le)
  moreover have "passes k (nth_probe hasher k bs l)" if "i \<le> l" "l < j" for l
    using not_less_Least [of l ?P] that \<open>j \<le> length bs\<close> by (auto simp: j_def)
  ultimately show ?thesis using that [of j] by (auto simp: search_end_def)
qed

lemma table_ok_bucket: "table_ok hasher bs \<Longrightarrow> p < length bs \<Longrightarrow> bucket_ok (bs ! p)"
  by (auto simp: table_ok_def)

lemma probe_range: "power_size bs \<Longrightarrow> probe hasher k (length bs) i < length bs"
  by (auto simp: power_size_def probe_less)

lemma table_ok_probe: "table_ok hasher bs \<Longrightarrow> bucket_ok (nth_probe hasher k bs i)"
  by (simp add: table_ok_bucket table_ok_def probe_range)

lemma probe_eq_iff:
  "power_size bs \<Longrightarrow> i < length bs \<Longrightarrow> j < length bs \<Longrightarrow>
     probe hasher k (length bs) i = probe hasher k (length bs) j \<longleftrightarrow> i = j"
  by (auto simp: power_size_def dest: probe_inj)

text \<open>The search finds the key if the table has it.\<close>

lemma search_end_holds:
  assumes ok: "table_ok hasher bs" and p: "p < length bs" "holds k (bs ! p)"
    and j: "search_end hasher k 0 bs j"
  shows "j < length bs" "probe hasher k (length bs) j = p"
proof -
  from ok have ps: "power_size bs" and dist: "keys_distinct bs" by (simp_all add: table_ok_def)
  from ok p obtain i where i: "i < length bs" "probe hasher k (length bs) i = p"
      "\<forall>l < i. \<not> is_empty (nth_probe hasher k bs l)"
    unfolding table_ok_def chained_def by blast
  have "\<not> holds k (nth_probe hasher k bs l)" if "l < i" for l
  proof
    assume "holds k (nth_probe hasher k bs l)"
    with dist p probe_range [OF ps, of hasher k l] have "probe hasher k (length bs) l = p"
      unfolding keys_distinct_def by blast
    with i that ps show False by (metis less_trans nat_neq_iff probe_eq_iff)
  qed
  with i(3) ok have "\<forall>l < i. passes k (nth_probe hasher k bs l)"
    by (simp add: passes_def table_ok_probe)
  moreover have "\<not> passes k (nth_probe hasher k bs i)"
    using i(2) p(2) by (simp add: passes_def)
  ultimately have "j = i"
    using j i(1) by (auto simp: search_end_def) (metis linorder_neqE_nat order_less_trans)
  with i show "j < length bs" "probe hasher k (length bs) j = p" by simp_all
qed

text \<open>If no bucket holds the key, the search ends at an empty bucket or nowhere.\<close>

lemma search_end_absent:
  assumes ok: "table_ok hasher bs" and absent: "\<And>p. p < length bs \<Longrightarrow> \<not> holds k (bs ! p)"
    and j: "search_end hasher k i bs j" "j < length bs"
  shows "nth_probe hasher k bs j = bucket_new"
proof -
  let ?b = "nth_probe hasher k bs j"
  from ok have "bucket_ok ?b" "\<not> holds k ?b"
    by (auto simp: table_ok_probe table_ok_def probe_range intro!: absent)
  moreover from this j have "is_empty ?b" by (auto simp: search_end_def passes_def)
  ultimately show ?thesis by (cases ?b rule: bucket_ok_cases) auto
qed

definition add_ref :: "('k, 'v) bucket \<Rightarrow> ('k, 'v) bucket" where
  "add_ref b = b\<lparr>b_state := bucket_state (refcount (b_state b) + 1) Filled\<rparr>"

definition tombstone :: "('k, 'v) bucket" where
  "tombstone = bucket_new\<lparr>b_state := bucket_state 0 Tombstone\<rparr>"

definition constructing :: "('k, 'v) bucket" where
  "constructing = bucket_new\<lparr>b_state := bucket_state 0 Constructing\<rparr>"

lemma at_holds:
  assumes "bucket_ok b" "holds k b"
  shows "get_at k b = Some (Found, add_ref b)"
    and "insert_at k b = Some (Ins_fail Key_repeated, b)"
    and "insert_at_claimed k b = Some (Ins_fail Key_repeated, b)"
    and "refcount (b_state b) = 0 \<Longrightarrow> remove_at k b = Some (Removed (the (b_val b)), tombstone)"
    and "refcount (b_state b) \<noteq> 0 \<Longrightarrow> refcount (b_state b) + 1 \<noteq> 0 \<Longrightarrow>
      remove_at k b = Some (Rem_fail Guard_protecting, b)"
  using assms(1)
  by (cases b rule: bucket_ok_cases; use assms(2) in
      \<open>simp add: at_filled remove_at_filled holds_def is_filled_def add_ref_def tombstone_def bucket_new_def\<close>)+

lemma search_end_exI:
  assumes "table_ok hasher bs" "p < length bs" "holds k (bs ! p)"
  obtains j where "search_end hasher k 0 bs j" "j < length bs" "probe hasher k (length bs) j = p"
  using search_end_ex [of 0 bs hasher k] search_end_holds [OF assms] by auto

lemma search_end_skip:
  assumes "search_end hasher k i bs j"
  shows "get_loop hasher k i bs = get_loop hasher k j bs"
    and "m_buckets m = bs \<Longrightarrow> remove_loop hasher k i m = remove_loop hasher k j m"
    and "insert_loop hasher k (Some t) i bs = insert_loop hasher k (Some t) j bs"
  using assms
  by (auto simp: search_end_def intro!: get_loop_skip remove_loop_skip insert_loop_skip)

lemma get_loop_present:
  assumes "table_ok hasher bs" "p < length bs" "holds k (bs ! p)"
  shows "get_loop hasher k 0 bs = Some (Inr (Some p), bs[p := add_ref (bs ! p)])"
proof -
  from search_end_exI [OF assms] obtain j where j: "search_end hasher k 0 bs j" "j < length bs"
    "probe hasher k (length bs) j = p" .
  have "get_loop hasher k 0 bs = get_loop hasher k j bs"
    using j(1) by (rule search_end_skip)
  with j assms show ?thesis
    by (subst (asm) (2) get_loop.simps) (simp add: Let_def at_holds table_ok_bucket)
qed

lemma get_loop_absent:
  assumes ok: "table_ok hasher bs" and absent: "\<And>p. p < length bs \<Longrightarrow> \<not> holds k (bs ! p)"
  shows "get_loop hasher k 0 bs = Some (Inl Get_none, bs)"
proof -
  obtain j where j: "search_end hasher k 0 bs j" using search_end_ex [of 0 bs] by auto
  then have "get_loop hasher k 0 bs = get_loop hasher k j bs" by (rule search_end_skip)
  also have "\<dots> = Some (Inl Get_none, bs)"
  proof (cases "j < length bs")
    case True
    have e: "nth_probe hasher k bs j = bucket_new"
      by (rule search_end_absent [OF ok _ j True]) (rule absent)
    then have "bs[probe hasher k (length bs) j := bucket_new] = bs"
      by (metis list_update_id)
    with True e show ?thesis
      by (subst get_loop.simps) (simp add: Let_def at_empty)
  qed (subst get_loop.simps, simp)
  finally show ?thesis .
qed

lemma remove_loop_present:
  assumes "table_ok hasher (m_buckets m)" "p < length (m_buckets m)" "holds k (m_buckets m ! p)"
  shows "refcount (b_state (m_buckets m ! p)) = 0 \<Longrightarrow>
      remove_loop hasher k 0 m =
        Some (Inr (the (b_val (m_buckets m ! p))),
              m\<lparr>m_buckets := (m_buckets m)[p := tombstone], m_load := m_load m - 1\<rparr>)"
    and "refcount (b_state (m_buckets m ! p)) \<noteq> 0 \<Longrightarrow> refcount (b_state (m_buckets m ! p)) + 1 \<noteq> 0 \<Longrightarrow>
      remove_loop hasher k 0 m = Some (Inl Guard_protecting, m)"
proof -
  let ?bs = "m_buckets m"
  from search_end_exI [OF assms] obtain j where j: "search_end hasher k 0 ?bs j" "j < length ?bs"
    "probe hasher k (length ?bs) j = p" .
  have skip: "remove_loop hasher k 0 m = remove_loop hasher k j m"
    using j(1) by (rule search_end_skip) simp
  show "refcount (b_state (?bs ! p)) = 0 \<Longrightarrow> remove_loop hasher k 0 m =
        Some (Inr (the (b_val (?bs ! p))), m\<lparr>m_buckets := ?bs[p := tombstone], m_load := m_load m - 1\<rparr>)"
    using j assms
    by (subst skip, subst remove_loop.simps) (simp add: Let_def at_holds table_ok_bucket)
  show "refcount (b_state (?bs ! p)) \<noteq> 0 \<Longrightarrow> refcount (b_state (?bs ! p)) + 1 \<noteq> 0 \<Longrightarrow>
      remove_loop hasher k 0 m = Some (Inl Guard_protecting, m)"
    using j assms
    by (subst skip, subst remove_loop.simps) (simp add: Let_def at_holds table_ok_bucket)
qed

lemma remove_loop_absent:
  assumes ok: "table_ok hasher (m_buckets m)"
    and absent: "\<And>p. p < length (m_buckets m) \<Longrightarrow> \<not> holds k (m_buckets m ! p)"
  shows "remove_loop hasher k 0 m = Some (Inl Rem_none, m)"
proof -
  let ?bs = "m_buckets m"
  obtain j where j: "search_end hasher k 0 ?bs j" using search_end_ex [of 0 ?bs] by auto
  then have "remove_loop hasher k 0 m = remove_loop hasher k j m" by (rule search_end_skip) simp
  also have "\<dots> = Some (Inl Rem_none, m)"
  proof (cases "j < length ?bs")
    case True
    have e: "nth_probe hasher k ?bs j = bucket_new"
      by (rule search_end_absent [OF ok _ j True]) (rule absent)
    then have "?bs[probe hasher k (length ?bs) j := bucket_new] = ?bs"
      by (metis list_update_id)
    with True e show ?thesis
      by (subst remove_loop.simps) (simp add: Let_def at_empty)
  qed (subst remove_loop.simps, simp)
  finally show ?thesis .
qed

text \<open>The probe loop of \<open>do_insert\<close> once it has claimed the bucket of round \<open>t\<close>.\<close>

lemma nth_probe_update:
  "power_size bs \<Longrightarrow> t < l \<Longrightarrow> l < length bs \<Longrightarrow>
     nth_probe hasher k (bs[probe hasher k (length bs) t := b]) l = nth_probe hasher k bs l"
  using probe_eq_iff [of bs t l hasher k] by simp

lemma insert_loop_claimed:
  assumes ok: "table_ok hasher bs" and t: "t < j" "j \<le> length bs"
    and pass: "\<And>l. t < l \<Longrightarrow> l < j \<Longrightarrow> passes k (nth_probe hasher k bs l)"
    and bs': "bs' = bs[probe hasher k (length bs) t := b]"
  shows "insert_loop hasher k (Some p) (Suc t) bs' = insert_loop hasher k (Some p) j bs'"
proof (rule insert_loop_skip)
  show "Suc t \<le> j" "j \<le> length bs'" using t bs' by simp_all
  show "passes k (nth_probe hasher k bs' l)" if "Suc t \<le> l" "l < j" for l
    using pass [of l] that nth_probe_update [of bs t l hasher k b] ok t bs' by (simp add: table_ok_def)
qed simp

lemma first_unfilled:
  assumes ok: "table_ok hasher bs"
    and j: "j \<le> length bs" "\<And>l. l < j \<Longrightarrow> passes k (nth_probe hasher k bs l)"
  obtains (filled) "insert_loop hasher k None 0 bs = insert_loop hasher k None j bs"
      "\<And>l. l < j \<Longrightarrow> is_filled (nth_probe hasher k bs l)"
  | (tombstone) t where "t < j" "nth_probe hasher k bs t = tombstone"
      "\<And>l. l < t \<Longrightarrow> is_filled (nth_probe hasher k bs l)"
      "insert_loop hasher k None 0 bs =
         insert_loop hasher k (Some (probe hasher k (length bs) t)) (Suc t)
           (bs[probe hasher k (length bs) t := constructing])"
proof (cases "\<forall>l < j. is_filled (nth_probe hasher k bs l)")
  case True
  then have "insert_loop hasher k None 0 bs = insert_loop hasher k None j bs"
    using j by (intro insert_loop_skip) auto
  with True show ?thesis by (intro filled) auto
next
  case False
  define t where "t = (LEAST l. \<not> is_filled (nth_probe hasher k bs l))"
  from False obtain l where l: "l < j" "\<not> is_filled (nth_probe hasher k bs l)" by auto
  from l(2) have t: "\<not> is_filled (nth_probe hasher k bs t)" unfolding t_def by (rule LeastI)
  have "t \<le> l" unfolding t_def using l(2) by (rule Least_le)
  with l have "t < j" by simp
  have before: "is_filled (nth_probe hasher k bs l)" if "l < t" for l
    using not_less_Least [OF that [unfolded t_def]] by simp
  have "passes k (nth_probe hasher k bs t)" using \<open>t < j\<close> by (rule j(2))
  then have "bucket_ok (nth_probe hasher k bs t)" "\<not> is_empty (nth_probe hasher k bs t)"
    by (simp_all add: passes_def)
  with t have tomb: "nth_probe hasher k bs t = tombstone"
    using bucket_ok_cases [of "nth_probe hasher k bs t"] holds_filled unfolding tombstone_def by metis
  have "insert_loop hasher k None 0 bs = insert_loop hasher k None t bs"
    using j \<open>t < j\<close> before by (intro insert_loop_skip) auto
  also have "\<dots> = insert_loop hasher k (Some (probe hasher k (length bs) t)) (Suc t)
           (bs[probe hasher k (length bs) t := constructing])"
    using tomb \<open>t < j\<close> j(1)
    by (subst insert_loop.simps) (simp add: Let_def insert_at_tombstone tombstone_def constructing_def)
  finally show ?thesis using \<open>t < j\<close> tomb before by (intro tombstone)
qed

lemma insert_loop_present:
  assumes ok: "table_ok hasher bs" and p: "p < length bs" "holds k (bs ! p)"
  shows "insert_loop hasher k None 0 bs = Some (Inl Key_repeated, bs)"
proof -
  from search_end_exI [OF ok p] obtain j where j: "search_end hasher k 0 bs j" "j < length bs"
    "probe hasher k (length bs) j = p" .
  note at = at_holds [OF table_ok_bucket [OF ok p(1)] p(2)]
  from ok have ps: "power_size bs" by (simp add: table_ok_def)
  from j have pass: "\<And>l. l < j \<Longrightarrow> passes k (nth_probe hasher k bs l)" and "j \<le> length bs"
    by (simp_all add: search_end_def)
  show ?thesis
  proof (cases rule: first_unfilled [OF ok \<open>j \<le> length bs\<close> pass, case_names ends filled tombstone])
    case filled
    with j p at show ?thesis
      by (subst filled(1), subst insert_loop.simps) (simp add: Let_def)
  next
    case (tombstone t)
    let ?q = "probe hasher k (length bs) t"
    let ?bs = "bs[?q := constructing]"
    have q: "?q < length bs" "?q \<noteq> p"
      using ps probe_range probe_eq_iff [OF ps, of t j hasher k] tombstone(1) j by auto
    have "?bs[p := bs ! p] = ?bs"
      using q(2) by (metis list_update_id nth_list_update_neq)
    have "insert_loop hasher k None 0 bs = insert_loop hasher k (Some ?q) j ?bs"
      unfolding tombstone(4)
      using tombstone(1) pass \<open>j \<le> length bs\<close> by (intro insert_loop_claimed [OF ok _ _ _ refl]) auto
    also have "\<dots> = Some (Inl Key_repeated, ?bs[?q := tombstone])"
      using j p q at \<open>?bs[p := bs ! p] = ?bs\<close>
      by (subst insert_loop.simps) (simp add: Let_def constructing_def tombstone_def)
    also have "?bs[?q := tombstone] = bs"
      using tombstone(2) by (metis list_update_id list_update_overwrite)
    finally show ?thesis .
  qed
qed

lemma insert_loop_absent:
  assumes ok: "table_ok hasher bs" and absent: "\<And>p. p < length bs \<Longrightarrow> \<not> holds k (bs ! p)"
    and free: "p0 < length bs" "\<not> is_filled (bs ! p0)"
  obtains t where "t < length bs" "\<not> is_filled (nth_probe hasher k bs t)"
    "\<And>l. l < t \<Longrightarrow> is_filled (nth_probe hasher k bs l)"
    "insert_loop hasher k None 0 bs =
       Some (Inr (probe hasher k (length bs) t), bs[probe hasher k (length bs) t := constructing])"
proof -
  from ok have ps: "power_size bs" by (simp add: table_ok_def)
  obtain j where j: "search_end hasher k 0 bs j" using search_end_ex [of 0 bs] by auto
  then have pass: "\<And>l. l < j \<Longrightarrow> passes k (nth_probe hasher k bs l)" and "j \<le> length bs"
    by (simp_all add: search_end_def)
  have end_empty: "nth_probe hasher k bs j = bucket_new" if "j < length bs"
    by (rule search_end_absent [OF ok _ j that]) (rule absent)
  show ?thesis
  proof (cases rule: first_unfilled [OF ok \<open>j \<le> length bs\<close> pass, case_names ends filled tombstone])
    case filled
    have "j < length bs"
    proof (rule ccontr)
      assume "\<not> j < length bs"
      with filled(2) \<open>j \<le> length bs\<close> have "\<forall>l < length bs. is_filled (nth_probe hasher k bs l)" by simp
      with free ps show False
        unfolding power_size_def using probe_surj [of _ p0 hasher k] by metis
    qed
    with filled end_empty show ?thesis
      by (intro that [of j]; (subst filled(1), subst insert_loop.simps)?)
        (simp_all add: Let_def at_empty constructing_def)
  next
    case (tombstone t)
    let ?q = "probe hasher k (length bs) t"
    let ?bs = "bs[?q := constructing]"
    have "insert_loop hasher k None 0 bs = insert_loop hasher k (Some ?q) j ?bs"
      unfolding tombstone(4)
      using tombstone(1) pass \<open>j \<le> length bs\<close> by (intro insert_loop_claimed [OF ok _ _ _ refl]) auto
    also have "\<dots> = Some (Inr ?q, ?bs)"
    proof (cases "j < length bs")
      case True
      have e: "nth_probe hasher k ?bs j = bucket_new"
        using nth_probe_update [OF ps tombstone(1) True, of hasher k constructing] end_empty [OF True] by simp
      then have "?bs[probe hasher k (length bs) j := bucket_new] = ?bs"
        by (metis length_list_update list_update_id)
      with True e show ?thesis
        by (subst insert_loop.simps) (simp add: Let_def at_empty)
    qed (subst insert_loop.simps, simp)
    finally show ?thesis
      using tombstone \<open>j \<le> length bs\<close>
      by (intro that [of t]) (auto simp: tombstone_def)
  qed
qed

section \<open>Updates of the table\<close>

lemma table_map_absent: "(\<And>p. p < length bs \<Longrightarrow> \<not> holds k (bs ! p)) \<Longrightarrow> table_map bs k = None"
  by (auto simp: table_map_def find_None_iff in_set_conv_nth split: option.split) (metis find_Some_iff)

lemma table_map_present:
  assumes "keys_distinct bs" "p < length bs" "holds k (bs ! p)"
  shows "table_map bs k = b_val (bs ! p)"
proof -
  have "find (holds k) bs \<noteq> None"
    using assms(2,3) nth_mem [OF assms(2)] by (auto simp only: find_None_iff)
  then obtain b where b: "find (holds k) bs = Some b" by auto
  then obtain q where "q < length bs" "holds k (bs ! q)" "b = bs ! q"
    by (auto simp: find_Some_iff)
  moreover from this assms have "q = p" unfolding keys_distinct_def by blast
  ultimately show ?thesis using b by (simp add: table_map_def)
qed

lemma holds_value: "bucket_ok b \<Longrightarrow> holds k b \<Longrightarrow> b_val b = Some (the (b_val b))"
  by (auto simp: bucket_ok_def holds_def is_filled_def)

lemma table_map_None:
  assumes "table_ok hasher bs"
  shows "table_map bs k = None \<longleftrightarrow> (\<forall>p < length bs. \<not> holds k (bs ! p))"
proof
  assume none: "table_map bs k = None"
  show "\<forall>p < length bs. \<not> holds k (bs ! p)"
  proof (intro allI impI notI)
    fix p
    assume p: "p < length bs" "holds k (bs ! p)"
    then have "table_map bs k = b_val (bs ! p)"
      using assms by (intro table_map_present) (simp_all add: table_ok_def)
    with none holds_value [OF table_ok_bucket [OF assms p(1)] p(2)] show False by simp
  qed
qed (blast intro: table_map_absent)

lemma table_map_obtains:
  assumes "table_ok hasher bs" "table_map bs k = Some v"
  obtains p where "p < length bs" "holds k (bs ! p)" "b_val (bs ! p) = Some v"
proof -
  have "table_map bs k \<noteq> None" using assms(2) by simp
  then obtain p where p: "p < length bs" "holds k (bs ! p)"
    unfolding table_map_None [OF assms(1)] by blast
  moreover have "table_map bs k = b_val (bs ! p)"
    using assms(1) p by (intro table_map_present) (simp_all add: table_ok_def)
  ultimately show ?thesis using assms(2) that by simp
qed

text \<open>Two tables that hold the same keys and values stand for the same map, pointwise.\<close>

lemma table_map_cong:
  assumes "keys_distinct bs" "keys_distinct bs'" "length bs' = length bs"
    and same: "\<And>p. p < length bs \<Longrightarrow> holds k (bs' ! p) = holds k (bs ! p) \<and>
                 (holds k (bs ! p) \<longrightarrow> b_val (bs' ! p) = b_val (bs ! p))"
  shows "table_map bs' k = table_map bs k"
proof (cases "\<exists>p < length bs. holds k (bs ! p)")
  case True
  then obtain p where p: "p < length bs" "holds k (bs ! p)" by blast
  with same have p': "holds k (bs' ! p)" "b_val (bs' ! p) = b_val (bs ! p)" by blast+
  have "table_map bs k = b_val (bs ! p)"
    using assms(1) p by (rule table_map_present)
  moreover have "table_map bs' k = b_val (bs' ! p)"
    using assms(2,3) p p' by (intro table_map_present) simp_all
  ultimately show ?thesis using p' by simp
next
  case False
  with assms(3) same have "table_map bs k = None" "table_map bs' k = None"
    by (auto intro!: table_map_absent)
  then show ?thesis by simp
qed

lemma chainedI:
  assumes "chained hasher bs" "length bs' = length bs"
    and "\<And>q. q < length bs \<Longrightarrow> is_empty (bs' ! q) \<Longrightarrow> is_empty (bs ! q)"
    and "power_size bs"
    and new: "\<And>q k. q < length bs \<Longrightarrow> holds k (bs' ! q) \<Longrightarrow> holds k (bs ! q) \<or>
        (\<exists>j < length bs. probe hasher k (length bs) j = q \<and> (\<forall>l < j. \<not> is_empty (nth_probe hasher k bs l)))"
  shows "chained hasher bs'"
  unfolding chained_def assms(2)
proof (intro allI impI)
  fix q k
  assume q: "q < length bs" "holds k (bs' ! q)"
  from new [OF q] assms(1) q(1)
  obtain j where "j < length bs" "probe hasher k (length bs) j = q"
      "\<forall>l < j. \<not> is_empty (nth_probe hasher k bs l)"
    unfolding chained_def by blast
  with assms(3) probe_range [OF assms(4)]
  show "\<exists>j < length bs. probe hasher k (length bs) j = q \<and>
      (\<forall>l < j. \<not> is_empty (bs' ! probe hasher k (length bs) l))"
    by metis
qed

lemma buckets_ok_update:
  "\<forall>b \<in> set bs. bucket_ok b \<Longrightarrow> bucket_ok b' \<Longrightarrow> \<forall>b \<in> set (bs[p := b']). bucket_ok b"
  using set_update_subset_insert [of bs p b'] by blast

lemma table_ok_update:
  assumes "power_size bs" "\<forall>b \<in> set bs. bucket_ok b" "bucket_ok b'"
    "chained hasher (bs[p := b'])" "keys_distinct (bs[p := b'])"
  shows "table_ok hasher (bs[p := b'])"
  unfolding table_ok_def
proof (intro conjI)
  show "power_size (bs[p := b'])" using assms(1) by (simp add: power_size_def)
  show "\<forall>b \<in> set (bs[p := b']). bucket_ok b" using assms(2,3) by (rule buckets_ok_update)
qed (rule assms)+

abbreviation filled_bucket :: "'k \<Rightarrow> 'v \<Rightarrow> ('k, 'v) bucket" where
  "filled_bucket k v \<equiv> \<lparr>b_state = bucket_state 0 Filled, b_key = Some k, b_val = Some v\<rparr>"

lemma filled_bucket_simps [simp]:
  "is_filled (filled_bucket k v)" "holds k' (filled_bucket k v) \<longleftrightarrow> k' = k" "bucket_ok (filled_bucket k v)"
  "\<not> is_empty (filled_bucket k v)"
  by (auto simp: is_filled_def holds_def bucket_ok_def)

lemma tombstone_simps [simp]:
  "\<not> is_filled tombstone" "\<not> holds k tombstone" "bucket_ok tombstone" "\<not> is_empty tombstone"
  by (simp_all add: tombstone_def bucket_ok_def)

lemma table_fill:
  fixes v :: 'v
  assumes ok: "table_ok hasher bs" and absent: "\<And>p. p < length bs \<Longrightarrow> \<not> holds k (bs ! p)"
    and t: "t < length bs" "probe hasher k (length bs) t = p" "\<not> is_filled (bs ! p)"
    and before: "\<And>l. l < t \<Longrightarrow> is_filled (nth_probe hasher k bs l)"
  defines "bs' \<equiv> bs[p := filled_bucket k v]"
  shows "table_ok hasher bs'" "table_map bs' = (table_map bs)(k \<mapsto> v)"
    "count_if is_filled bs' = count_if is_filled bs + 1"
proof -
  from ok have ps: "power_size bs" and ch: "chained hasher bs" and kd: "keys_distinct bs"
    and bok: "\<forall>b \<in> set bs. bucket_ok b" by (simp_all add: table_ok_def)
  have p: "p < length bs" using probe_range [OF ps] t(2) by metis
  have nth: "bs' ! q = (if q = p then filled_bucket k v else bs ! q)" if "q < length bs" for q
    using that by (simp add: bs'_def)
  have old: "\<not> holds k' (bs ! p)" for k'
    using t(3) holds_filled [of k' "bs ! p"] by auto
  have kd': "keys_distinct bs'"
    unfolding keys_distinct_def
  proof (intro allI impI)
    fix q q' k'
    assume q: "q < length bs'" "q' < length bs'" "holds k' (bs' ! q)" "holds k' (bs' ! q')"
    then have "q < length bs" "q' < length bs" by (simp_all add: bs'_def)
    with q(3,4) absent kd show "q = q'"
      by (cases "q = p"; cases "q' = p") (auto simp: nth keys_distinct_def)
  qed
  have "chained hasher bs'"
  proof (rule chainedI [OF ch])
    show "length bs' = length bs" by (simp add: bs'_def)
    show "power_size bs" by (rule ps)
    show "is_empty (bs' ! q) \<Longrightarrow> is_empty (bs ! q)" if "q < length bs" for q
      using nth [OF that] by (simp split: if_splits)
    show "holds k' (bs ! q) \<or> (\<exists>j < length bs. probe hasher k' (length bs) j = q \<and>
        (\<forall>l < j. \<not> is_empty (nth_probe hasher k' bs l)))" if "q < length bs" "holds k' (bs' ! q)" for q k'
      using that nth [OF that(1)] t before by (auto simp: is_filled_def split: if_splits)
  qed
  with kd' bok ps show "table_ok hasher bs'"
    unfolding bs'_def by (intro table_ok_update) simp_all
  show "table_map bs' = (table_map bs)(k \<mapsto> v)"
  proof
    fix k'
    show "table_map bs' k' = ((table_map bs)(k \<mapsto> v)) k'"
    proof (cases "k' = k")
      case True
      have "table_map bs' k = b_val (bs' ! p)"
        using p by (intro table_map_present kd') (simp_all add: bs'_def)
      with True p show ?thesis by (simp add: bs'_def)
    next
      case False
      then have "table_map bs' k' = table_map bs k'"
        using old nth by (intro table_map_cong kd kd') (simp add: bs'_def, auto)
      with False show ?thesis by simp
    qed
  qed
  show "count_if is_filled bs' = count_if is_filled bs + 1"
    using count_if_update [OF p, of is_filled "filled_bucket k v"] t(3) by (simp add: bs'_def)
qed

lemma table_unfill:
  assumes ok: "table_ok hasher bs" and p: "p < length bs" "holds k (bs ! p)"
  defines "bs' \<equiv> bs[p := tombstone]"
  shows "table_ok hasher bs'" "table_map bs' = (table_map bs)(k := None)"
    "count_if is_filled bs = count_if is_filled bs' + 1"
proof -
  from ok have ps: "power_size bs" and ch: "chained hasher bs" and kd: "keys_distinct bs"
    and bok: "\<forall>b \<in> set bs. bucket_ok b" by (simp_all add: table_ok_def)
  have nth: "bs' ! q = (if q = p then tombstone else bs ! q)" if "q < length bs" for q
    using that by (simp add: bs'_def)
  have kd': "keys_distinct bs'"
    unfolding keys_distinct_def
  proof (intro allI impI)
    fix q q' k'
    assume q: "q < length bs'" "q' < length bs'" "holds k' (bs' ! q)" "holds k' (bs' ! q')"
    then have "q < length bs" "q' < length bs" by (simp_all add: bs'_def)
    with q(3,4) kd show "q = q'"
      by (cases "q = p"; cases "q' = p") (auto simp: nth keys_distinct_def)
  qed
  have "chained hasher bs'"
  proof (rule chainedI [OF ch])
    show "length bs' = length bs" by (simp add: bs'_def)
    show "power_size bs" by (rule ps)
    show "is_empty (bs' ! q) \<Longrightarrow> is_empty (bs ! q)" if "q < length bs" for q
      using nth [OF that] by (simp split: if_splits)
    show "holds k' (bs ! q) \<or> (\<exists>j < length bs. probe hasher k' (length bs) j = q \<and>
        (\<forall>l < j. \<not> is_empty (nth_probe hasher k' bs l)))" if "q < length bs" "holds k' (bs' ! q)" for q k'
      using that nth [OF that(1)] by (auto split: if_splits)
  qed
  with kd' bok ps show "table_ok hasher bs'"
    unfolding bs'_def by (intro table_ok_update) simp_all
  show "table_map bs' = (table_map bs)(k := None)"
  proof
    fix k'
    have "\<not> holds k (bs ! q)" if "q < length bs" "q \<noteq> p" for q
      using kd p that unfolding keys_distinct_def by blast
    with nth have gone: "\<not> holds k (bs' ! q)" if "q < length bs" for q
      using that by (cases "q = p") simp_all
    show "table_map bs' k' = ((table_map bs)(k := None)) k'"
    proof (cases "k' = k")
      case True
      have "table_map bs' k = None"
        using gone by (intro table_map_absent) (simp add: bs'_def)
      with True show ?thesis by simp
    next
      case False
      moreover from False p(2) have "\<not> holds k' (bs ! p)" by (auto simp: holds_def)
      ultimately have "table_map bs' k' = table_map bs k'"
        using nth by (intro table_map_cong kd kd') (simp add: bs'_def, auto)
      with False show ?thesis by simp
    qed
  qed
  show "count_if is_filled bs = count_if is_filled bs' + 1"
    using count_if_update [OF p(1), of is_filled tombstone] holds_filled [OF p(2)] count_if_pos [OF p(1), of is_filled]
    by (simp add: bs'_def)
qed

text \<open>Changing the reference count of a filled bucket.\<close>

lemma table_ref:
  fixes r :: "61 word"
  assumes ok: "table_ok hasher bs" and p: "p < length bs" "is_filled (bs ! p)"
  defines "bs' \<equiv> bs[p := (bs ! p)\<lparr>b_state := bucket_state r Filled\<rparr>]"
  shows "table_ok hasher bs'" "table_map bs' = table_map bs" "count_if is_filled bs' = count_if is_filled bs"
proof -
  from ok have ps: "power_size bs" and ch: "chained hasher bs" and kd: "keys_distinct bs"
    and bok: "\<forall>b \<in> set bs. bucket_ok b" by (simp_all add: table_ok_def)
  let ?b = "(bs ! p)\<lparr>b_state := bucket_state r Filled\<rparr>"
  have b: "is_filled ?b" "holds k ?b = holds k (bs ! p)" "b_val ?b = b_val (bs ! p)" "\<not> is_empty ?b" for k
    using p(2) by (simp_all add: is_filled_def holds_def)
  have bok': "bucket_ok ?b"
    using table_ok_bucket [OF ok p(1)] p(2) by (simp add: bucket_ok_def is_filled_def)
  have nth: "bs' ! q = (if q = p then ?b else bs ! q)" if "q < length bs" for q
    using that by (simp add: bs'_def)
  have same: "holds k (bs' ! q) = holds k (bs ! q)" "b_val (bs' ! q) = b_val (bs ! q)"
    if "q < length bs" for q k
    using nth [OF that] b by simp_all
  have len: "length bs' = length bs" by (simp add: bs'_def)
  have kd': "keys_distinct bs'"
    using kd same by (simp add: keys_distinct_def len)
  have "chained hasher bs'"
  proof (rule chainedI [OF ch len _ ps])
    show "is_empty (bs' ! q) \<Longrightarrow> is_empty (bs ! q)" if "q < length bs" for q
      using nth [OF that] b(4) by (simp split: if_splits)
    show "holds k' (bs ! q) \<or> (\<exists>j < length bs. probe hasher k' (length bs) j = q \<and>
        (\<forall>l < j. \<not> is_empty (nth_probe hasher k' bs l)))" if "q < length bs" "holds k' (bs' ! q)" for q k'
      using same(1) [OF that(1)] that(2) by simp
  qed
  with kd' bok bok' ps show "table_ok hasher bs'"
    unfolding bs'_def by (intro table_ok_update)
  show "table_map bs' = table_map bs"
    using same by (intro ext table_map_cong kd kd' len) simp
  show "count_if is_filled bs' = count_if is_filled bs"
    using count_if_update [OF p(1), of is_filled ?b] p(2) b(1) by (simp add: bs'_def)
qed

section \<open>Rehashing\<close>

definition no_refs :: "('k, 'v) bucket list \<Rightarrow> bool" where
  "no_refs bs \<longleftrightarrow> (\<forall>b \<in> set bs. is_filled b \<longrightarrow> refcount (b_state b) = 0)"

definition no_tombstones :: "('k, 'v) bucket list \<Rightarrow> bool" where
  "no_tombstones bs \<longleftrightarrow> (\<forall>b \<in> set bs. is_filled b \<or> is_empty b)"

lemma no_refs_update: "no_refs bs \<Longrightarrow> is_filled b \<longrightarrow> refcount (b_state b) = 0 \<Longrightarrow> no_refs (bs[p := b])"
  using set_update_subset_insert [of bs p b] by (auto simp: no_refs_def)

lemma no_tombstones_update: "no_tombstones bs \<Longrightarrow> is_filled b \<Longrightarrow> no_tombstones (bs[p := b])"
  using set_update_subset_insert [of bs p b] by (auto simp: no_tombstones_def)

lemma unfilled_ex:
  assumes "count_if is_filled bs < length bs"
  obtains p where "p < length bs" "\<not> is_filled (bs ! p)"
proof -
  have "filter is_filled bs \<noteq> bs" using assms by auto
  then obtain b where "b \<in> set bs" "\<not> is_filled b" by (metis filter_True)
  with that show ?thesis by (metis in_set_conv_nth)
qed

lemma rehash_place_skip:
  "i \<le> j \<Longrightarrow> j \<le> length bs \<Longrightarrow> (\<And>l. i \<le> l \<Longrightarrow> l < j \<Longrightarrow> \<not> is_empty (nth_probe hasher k bs l)) \<Longrightarrow>
   rehash_place hasher k v i bs = rehash_place hasher k v j bs"
proof (induction "j - i" arbitrary: i)
  case (Suc d)
  from Suc.hyps(2) Suc.prems have "\<not> is_empty (nth_probe hasher k bs i)" "i < length bs"
    by simp_all
  then have "rehash_place hasher k v i bs = rehash_place hasher k v (Suc i) bs"
    by (subst rehash_place.simps) (simp add: Let_def)
  also have "\<dots> = rehash_place hasher k v j bs"
    using Suc.hyps(2) Suc.prems by (intro Suc.hyps(1)) simp_all
  finally show ?case .
qed simp

lemma rehash_place_eq:
  assumes ps: "power_size bs" and clean: "no_tombstones bs"
    and free: "count_if is_filled bs < length bs"
  obtains t where "t < length bs" "\<not> is_filled (nth_probe hasher k bs t)"
    "\<And>l. l < t \<Longrightarrow> is_filled (nth_probe hasher k bs l)"
    "rehash_place hasher k v 0 bs = bs[probe hasher k (length bs) t := filled_bucket k v]"
proof -
  from unfilled_ex [OF free] obtain p where "p < length bs" "\<not> is_filled (bs ! p)" .
  with ps obtain i where i: "i < length bs" "\<not> is_filled (nth_probe hasher k bs i)"
    unfolding power_size_def by (metis probe_surj)
  define t where "t = (LEAST l. \<not> is_filled (nth_probe hasher k bs l))"
  have t: "\<not> is_filled (nth_probe hasher k bs t)" unfolding t_def using i(2) by (rule LeastI)
  have "t \<le> i" unfolding t_def using i(2) by (rule Least_le)
  with i have "t < length bs" by simp
  have before: "is_filled (nth_probe hasher k bs l)" if "l < t" for l
    using not_less_Least [OF that [unfolded t_def]] by simp
  have "is_empty (nth_probe hasher k bs t)"
    using t clean nth_mem [OF probe_range [OF ps, of hasher k t]] by (auto simp: no_tombstones_def)
  have "rehash_place hasher k v 0 bs = rehash_place hasher k v t bs"
    using before \<open>t < length bs\<close> by (intro rehash_place_skip) (auto simp: is_filled_def)
  also have "\<dots> = bs[probe hasher k (length bs) t := filled_bucket k v]"
    using \<open>is_empty (nth_probe hasher k bs t)\<close> \<open>t < length bs\<close>
    by (subst rehash_place.simps) (simp add: Let_def)
  finally show ?thesis using \<open>t < length bs\<close> t before that by blast
qed

lemma keys_distinct_Cons:
  assumes "keys_distinct (b # bs)"
  shows "keys_distinct bs" and "holds k b \<Longrightarrow> p < length bs \<Longrightarrow> \<not> holds k (bs ! p)"
proof -
  from assms have kd: "p = q" if "p < length (b # bs)" "q < length (b # bs)"
      "holds k ((b # bs) ! p)" "holds k ((b # bs) ! q)" for p q k
    using that unfolding keys_distinct_def by blast
  show "keys_distinct bs"
    unfolding keys_distinct_def using kd [of "Suc p" "Suc q" for p q] by simp
  show "holds k b \<Longrightarrow> p < length bs \<Longrightarrow> \<not> holds k (bs ! p)"
    using kd [of 0 "Suc p" k] by auto
qed

lemma table_map_Cons: "table_map (b # bs) k = (if holds k b then b_val b else table_map bs k)"
  by (simp add: table_map_def)

lemma rehash_loop_correct:
  "keys_distinct bs \<Longrightarrow> \<forall>b \<in> set bs. bucket_ok b \<Longrightarrow> no_refs bs \<Longrightarrow>
   table_ok hasher nb \<Longrightarrow> no_tombstones nb \<Longrightarrow> no_refs nb \<Longrightarrow>
   count_if is_filled bs + count_if is_filled nb < length nb \<Longrightarrow>
   (\<And>k. table_map bs k = None \<or> table_map nb k = None) \<Longrightarrow>
   \<exists>nb'. rehash_loop hasher bs nb = Some nb' \<and> length nb' = length nb \<and> table_ok hasher nb' \<and>
     no_tombstones nb' \<and> no_refs nb' \<and> table_map nb' = table_map nb ++ table_map bs \<and>
     count_if is_filled nb' = count_if is_filled bs + count_if is_filled nb"
proof (induction bs arbitrary: nb)
  case Nil
  then show ?case by (auto simp: map_add_def table_map_def)
next
  case (Cons b bs)
  note kd = keys_distinct_Cons [OF Cons.prems(1)]
  have bs: "\<forall>b \<in> set bs. bucket_ok b" "no_refs bs" "bucket_ok b"
    using Cons.prems(2,3) by (simp_all add: no_refs_def)
  show ?case
  proof (cases "is_filled b")
    case False
    then have skip: "\<not> holds k b" for k by (auto dest: holds_filled)
    then have "table_map (b # bs) = table_map bs" by (simp add: table_map_Cons fun_eq_iff)
    with Cons.IH [OF kd(1) bs(1,2) Cons.prems(4-6)] Cons.prems(7,8) False show ?thesis
      by (simp add: is_filled_def)
  next
    case True
    with bs(3) obtain k v where b: "b_key b = Some k" "b_val b = Some v"
      by (auto simp: bucket_ok_def is_filled_def)
    with True have "holds k b" by (simp add: holds_def)
    have ps: "power_size nb" using Cons.prems(4) by (simp add: table_ok_def)
    have free: "count_if is_filled nb < length nb" using Cons.prems(7) by simp
    from Cons.prems(8) [of k] b \<open>holds k b\<close> have "table_map nb k = None"
      by (simp add: table_map_Cons)
    then have absent: "\<And>p. p < length nb \<Longrightarrow> \<not> holds k (nb ! p)"
      using table_map_None [OF Cons.prems(4)] by blast
    obtain t where t: "t < length nb" "\<not> is_filled (nth_probe hasher k nb t)"
        "\<And>l. l < t \<Longrightarrow> is_filled (nth_probe hasher k nb l)"
      and place: "rehash_place hasher k v 0 nb = nb[probe hasher k (length nb) t := filled_bucket k v]"
      using rehash_place_eq [OF ps Cons.prems(5) free, of hasher k v] by blast
    let ?nb = "nb[probe hasher k (length nb) t := filled_bucket k v]"
    note fill = table_fill [OF Cons.prems(4) absent t(1) refl t(2,3), of v]
    have dom: "table_map bs k' = None \<or> table_map ?nb k' = None" for k'
    proof (cases "k' = k")
      case True
      have "table_map bs k = None"
        using kd(2) [OF \<open>holds k b\<close>] by (intro table_map_absent)
      with True show ?thesis by simp
    next
      case False
      with \<open>holds k b\<close> have "\<not> holds k' b" by (simp add: holds_def)
      with Cons.prems(8) [of k'] False fill(2) show ?thesis
        by (simp add: table_map_Cons)
    qed
    have "no_tombstones ?nb" "no_refs ?nb"
      using Cons.prems(5,6) by (simp_all add: no_tombstones_update no_refs_update)
    moreover have "count_if is_filled bs + count_if is_filled ?nb < length ?nb"
      using Cons.prems(7) True fill(3) by simp
    ultimately obtain nb' where nb': "rehash_loop hasher bs ?nb = Some nb'" "length nb' = length nb"
        "table_ok hasher nb'" "no_tombstones nb'" "no_refs nb'"
        "table_map nb' = table_map ?nb ++ table_map bs"
        "count_if is_filled nb' = count_if is_filled bs + count_if is_filled ?nb"
      using Cons.IH [OF kd(1) bs(1,2) fill(1) _ _ _ dom] by auto
    have "refcount (b_state b) = 0" using Cons.prems(3) True by (simp add: no_refs_def)
    with True b place nb'(1) have run: "rehash_loop hasher (b # bs) nb = Some nb'"
      by (simp add: is_filled_def)
    have bsk: "table_map bs k = None"
      using kd(2) [OF \<open>holds k b\<close>] by (intro table_map_absent)
    have "table_map nb' = table_map nb ++ table_map (b # bs)"
    proof
      fix k'
      have "holds k' b \<longleftrightarrow> k' = k" using \<open>holds k b\<close> by (auto simp: holds_def)
      then show "table_map nb' k' = (table_map nb ++ table_map (b # bs)) k'"
        using nb'(6) fill(2) b bsk
        by (cases "k' = k") (simp_all add: map_add_def table_map_Cons split: option.split)
    qed
    moreover have "count_if is_filled nb' = count_if is_filled (b # bs) + count_if is_filled nb"
      using nb'(7) fill(3) True by simp
    ultimately show ?thesis using run nb'(2-5) by auto
  qed
qed

lemma fresh_table:
  assumes "n < 64"
  shows "table_ok hasher (replicate (2 ^ n) bucket_new :: ('k, 'v) bucket list)"
    and "table_map (replicate (2 ^ n) bucket_new :: ('k, 'v) bucket list) = Map.empty"
    and "no_tombstones (replicate (2 ^ n) bucket_new :: ('k, 'v) bucket list)"
    and "no_refs (replicate (2 ^ n) bucket_new :: ('k, 'v) bucket list)"
    and "count_if is_filled (replicate (2 ^ n) bucket_new :: ('k, 'v) bucket list) = 0"
proof -
  let ?bs = "replicate (2 ^ n) bucket_new :: ('k, 'v) bucket list"
  have "\<not> holds k (?bs ! p)" if "p < length ?bs" for p k
    using that by simp
  then show "table_map ?bs = Map.empty"
    by (intro ext table_map_absent)
  show "table_ok hasher ?bs"
    using assms by (auto simp: table_ok_def power_size_def chained_def keys_distinct_def)
qed (auto simp: no_tombstones_def no_refs_def)

lemma do_rehash_correct:
  assumes ok: "table_ok hasher (m_buckets m)" and refs: "no_refs (m_buckets m)"
    and len: "length (m_buckets m) < 2 ^ 63"
  obtains nb where "do_rehash hasher m = Some (m\<lparr>m_buckets := nb\<rparr>)"
    "length nb = 2 * length (m_buckets m)" "table_ok hasher nb" "no_tombstones nb" "no_refs nb"
    "table_map nb = table_map (m_buckets m)"
    "count_if is_filled nb = count_if is_filled (m_buckets m)"
proof -
  let ?bs = "m_buckets m"
  from ok obtain n where n: "n < 64" "length ?bs = 2 ^ n"
    by (auto simp: table_ok_def power_size_def)
  have "(2 :: nat) ^ n < 2 ^ 63" using len n(2) by simp
  then have "Suc n < 64" by (simp only: power_strict_increasing_iff)
  let ?new = "replicate (2 ^ Suc n) bucket_new"
  have new: "replicate (length ?bs * 2) bucket_new = ?new" using n(2) by (simp add: mult.commute)
  have "count_if is_filled ?bs \<le> length ?bs" by (rule count_if_le_length)
  also have "\<dots> < 2 ^ Suc n" using n(2) by simp
  finally have "count_if is_filled ?bs < 2 ^ Suc n" .
  then have "\<exists>nb. rehash_loop hasher ?bs ?new = Some nb \<and> length nb = length (?new :: ('a, 'b) bucket list) \<and>
      table_ok hasher nb \<and> no_tombstones nb \<and> no_refs nb \<and>
      table_map nb = table_map ?new ++ table_map ?bs \<and>
      count_if is_filled nb = count_if is_filled ?bs + count_if is_filled (?new :: ('a, 'b) bucket list)"
    using ok refs fresh_table [OF \<open>Suc n < 64\<close>, where ?'k = 'a and ?'v = 'b]
    by (intro rehash_loop_correct) (simp_all add: table_ok_def del: power_Suc)
  then obtain nb where nb: "rehash_loop hasher ?bs ?new = Some nb" "length nb = 2 ^ Suc n"
      "table_ok hasher nb" "no_tombstones nb" "no_refs nb"
      "table_map nb = table_map ?bs" "count_if is_filled nb = count_if is_filled ?bs"
    using fresh_table [OF \<open>Suc n < 64\<close>, where ?'k = 'a and ?'v = 'b] by (auto simp del: power_Suc)
  show ?thesis
  proof (rule that [of nb])
    show "do_rehash hasher m = Some (m\<lparr>m_buckets := nb\<rparr>)"
      unfolding do_rehash_def new nb(1) by simp
    show "length nb = 2 * length ?bs" using nb(2) n(2) by simp
  qed (rule nb)+
qed

section \<open>The operations on the map\<close>

lemma table_ok_cases:
  assumes "table_ok hasher bs"
  obtains (present) p v where "p < length bs" "holds k (bs ! p)" "table_map bs k = Some v"
      "b_val (bs ! p) = Some v"
  | (absent) "table_map bs k = None" "\<And>p. p < length bs \<Longrightarrow> \<not> holds k (bs ! p)"
proof (cases "table_map bs k")
  case None
  then show ?thesis using absent table_map_None [OF assms] by blast
next
  case (Some v)
  then obtain p where "p < length bs" "holds k (bs ! p)" "b_val (bs ! p) = Some v"
    by (rule table_map_obtains [OF assms])
  with Some present show ?thesis by blast
qed

lemma load_room:
  assumes "\<not> over_load load n" "unat load = c"
  shows "c < n"
  using assms by (auto simp: over_load_def)

lemma table_ok_length: "table_ok hasher bs \<Longrightarrow> length bs < 2 ^ 64"
proof -
  assume "table_ok hasher bs"
  then obtain n where "n < 64" "length bs = 2 ^ n" by (auto simp: table_ok_def power_size_def)
  then show ?thesis by (metis one_less_numeral_iff power_strict_increasing_iff semiring_norm(76))
qed

lemma do_insert_overload:
  "over_load (m_load m) (length (m_buckets m)) \<Longrightarrow> do_insert hasher k v m = Some (Inl Rehash_needed, m)"
  by (simp add: do_insert_def)

lemma do_insert_present:
  assumes "table_ok hasher (m_buckets m)" "\<not> over_load (m_load m) (length (m_buckets m))"
    "table_map (m_buckets m) k \<noteq> None"
  shows "do_insert hasher k v m = Some (Inl Key_repeated, m)"
proof (cases rule: table_ok_cases [OF assms(1), of k, case_names present absent])
  case (present p w)
  with insert_loop_present [OF assms(1)] assms(2) show ?thesis by (simp add: do_insert_def)
qed (use assms(3) in simp_all)

lemma do_insert_absent:
  assumes ok: "table_ok hasher (m_buckets m)" and room: "\<not> over_load (m_load m) (length (m_buckets m))"
    and load: "unat (m_load m) = count_if is_filled (m_buckets m)"
    and none: "table_map (m_buckets m) k = None"
  obtains bs where "do_insert hasher k v m = Some (Inr (), m\<lparr>m_buckets := bs, m_load := m_load m + 1\<rparr>)"
    "table_ok hasher bs" "table_map bs = (table_map (m_buckets m))(k \<mapsto> v)"
    "unat (m_load m + 1) = count_if is_filled bs" "length bs = length (m_buckets m)"
    "no_refs (m_buckets m) \<longrightarrow> no_refs bs"
proof -
  let ?bs = "m_buckets m"
  from none have absent: "\<And>p. p < length ?bs \<Longrightarrow> \<not> holds k (?bs ! p)"
    using table_map_None [OF ok] by blast
  from load_room [OF room load] obtain p0 where p0: "p0 < length ?bs" "\<not> is_filled (?bs ! p0)"
    by (rule unfilled_ex)
  obtain t where t: "t < length ?bs" "\<not> is_filled (nth_probe hasher k ?bs t)"
      "\<And>l. l < t \<Longrightarrow> is_filled (nth_probe hasher k ?bs l)"
    and loop: "insert_loop hasher k None 0 ?bs =
      Some (Inr (probe hasher k (length ?bs) t), ?bs[probe hasher k (length ?bs) t := constructing])"
    by (rule insert_loop_absent [OF ok absent p0]) blast+
  let ?bs' = "?bs[probe hasher k (length ?bs) t := filled_bucket k v]"
  note fill = table_fill [OF ok absent t(1) refl t(2,3), of v]
  show ?thesis
  proof (rule that [of ?bs'])
    show "do_insert hasher k v m = Some (Inr (), m\<lparr>m_buckets := ?bs', m_load := m_load m + 1\<rparr>)"
      using room loop by (simp add: do_insert_def)
    have "unat (m_load m) + 1 < 2 ^ 64"
      using load_room [OF room load] load table_ok_length [OF ok] by linarith
    then show "unat (m_load m + 1) = count_if is_filled ?bs'"
      using unat_add_one [of "m_load m"] fill(3) load by linarith
    show "no_refs ?bs \<longrightarrow> no_refs ?bs'" by (simp add: no_refs_update)
  qed (use fill in simp_all)
qed

lemma do_remove_present:
  assumes ok: "table_ok hasher (m_buckets m)"
    and load: "unat (m_load m) = count_if is_filled (m_buckets m)"
    and p: "p < length (m_buckets m)" "holds k (m_buckets m ! p)" "b_val (m_buckets m ! p) = Some v"
    and ref: "refcount (b_state (m_buckets m ! p)) = 0"
  obtains bs where "do_remove hasher k m = Some (Inr v, m\<lparr>m_buckets := bs, m_load := m_load m - 1\<rparr>)"
    "table_ok hasher bs" "table_map bs = (table_map (m_buckets m))(k := None)"
    "unat (m_load m - 1) = count_if is_filled bs" "length bs = length (m_buckets m)"
    "no_refs (m_buckets m) \<longrightarrow> no_refs bs"
proof (rule that)
  let ?bs = "(m_buckets m)[p := tombstone]"
  note un = table_unfill [OF ok p(1,2)]
  show "do_remove hasher k m = Some (Inr v, m\<lparr>m_buckets := ?bs, m_load := m_load m - 1\<rparr>)"
    using remove_loop_present(1) [OF ok p(1,2) ref] p(3) by (simp add: do_remove_def)
  show "table_ok hasher ?bs" "table_map ?bs = (table_map (m_buckets m))(k := None)" by (rule un)+
  have "0 < unat (m_load m)" using load un(3) by simp
  then show "unat (m_load m - 1) = count_if is_filled ?bs"
    using unat_sub_one [of "m_load m"] load un(3) by linarith
  show "no_refs (m_buckets m) \<longrightarrow> no_refs ?bs" by (simp add: no_refs_update)
qed simp

abbreviation read_locked :: "('k, 'v) hash_map \<Rightarrow> ('k, 'v) hash_map" where
  "read_locked m \<equiv> m\<lparr>m_lock := \<lparr>m_state = 1\<rparr>\<rparr>"

lemma with_read_free:
  assumes "m_lock m = spinrwlock_new" "f (read_locked m) = Some (r, m')" "m_lock m' = \<lparr>m_state = 1\<rparr>"
  shows "with_read err f m = Some (r, m'\<lparr>m_lock := spinrwlock_new\<rparr>)"
  using assms by (simp add: with_read_def try_read_def spinrwlock_new_def rw_guard_bool_def read_guard_dtor_def)

lemma relock: "m_lock m = spinrwlock_new \<Longrightarrow> m\<lparr>m_lock := spinrwlock_new\<rparr> = m"
  by (cases m) simp

lemma hm_inv_parts:
  assumes "hm_inv hasher m"
  shows "table_ok hasher (m_buckets m)" "unat (m_load m) = count_if is_filled (m_buckets m)"
    "m_lock m = spinrwlock_new"
  using assms by (simp_all add: hm_inv_def)

lemma try_insert_cases:
  assumes inv: "hm_inv hasher m"
  obtains (overload) "over_load (m_load m) (length (m_buckets m))"
      "try_insert hasher k v m = Some (Inl Rehash_needed, m)"
  | (present) "hm_abs m k \<noteq> None" "try_insert hasher k v m = Some (Inl Key_repeated, m)"
  | (absent) m' where "hm_abs m k = None" "try_insert hasher k v m = Some (Inr (), m')"
      "hm_inv hasher m'" "hm_abs m' = (hm_abs m)(k \<mapsto> v)"
      "no_refs (m_buckets m) \<longrightarrow> no_refs (m_buckets m')" "length (m_buckets m') = length (m_buckets m)"
      "m_load m' = m_load m + 1"
proof -
  note i = hm_inv_parts [OF inv]
  note free = with_read_free [OF i(3), of "do_insert hasher k v" _ _ Ins_rehashing, folded try_insert_def]
  show ?thesis
  proof (cases "over_load (m_load m) (length (m_buckets m))")
    case True
    then have "do_insert hasher k v (read_locked m) = Some (Inl Rehash_needed, read_locked m)"
      by (simp add: do_insert_overload)
    with free True relock [OF i(3)] show ?thesis by (intro overload) simp_all
  next
    case False
    note room = this
    show ?thesis
    proof (cases "table_map (m_buckets m) k")
      case None
      from i(1,2) room None obtain bs where
        run: "do_insert hasher k v (read_locked m) =
          Some (Inr (), (read_locked m)\<lparr>m_buckets := bs, m_load := m_load m + 1\<rparr>)" and
        bs: "table_ok hasher bs" "table_map bs = (table_map (m_buckets m))(k \<mapsto> v)"
        "unat (m_load m + 1) = count_if is_filled bs" "length bs = length (m_buckets m)"
        "no_refs (m_buckets m) \<longrightarrow> no_refs bs"
        by (elim do_insert_absent [of hasher "read_locked m", simplified]) blast
      from free [OF run] have "try_insert hasher k v m =
          Some (Inr (), m\<lparr>m_buckets := bs, m_load := m_load m + 1, m_lock := spinrwlock_new\<rparr>)" by simp
      with bs None show ?thesis
        by (intro absent [of "m\<lparr>m_buckets := bs, m_load := m_load m + 1, m_lock := spinrwlock_new\<rparr>"]) (simp_all add: hm_inv_def hm_abs_def)
    next
      case (Some w)
      then have "do_insert hasher k v (read_locked m) = Some (Inl Key_repeated, read_locked m)"
        using i(1) room by (intro do_insert_present) simp_all
      with free relock [OF i(3)] Some show ?thesis by (intro present) (simp_all add: hm_abs_def)
    qed
  qed
qed

lemma try_rehash_free:
  assumes inv: "hm_inv hasher m" and refs: "no_refs (m_buckets m)"
    and len: "length (m_buckets m) < 2 ^ 63"
  obtains m' where "try_rehash hasher m = Some (True, m')" "hm_inv hasher m'" "hm_abs m' = hm_abs m"
    "no_refs (m_buckets m')" "length (m_buckets m') = 2 * length (m_buckets m)"
    "m_load m' = m_load m" "no_tombstones (m_buckets m')"
proof -
  note i = hm_inv_parts [OF inv]
  let ?m = "m\<lparr>m_lock := \<lparr>m_state = write_mask\<rparr>\<rparr>"
  obtain nb where nb: "do_rehash hasher ?m = Some (?m\<lparr>m_buckets := nb\<rparr>)"
    "length nb = 2 * length (m_buckets m)" "table_ok hasher nb" "no_tombstones nb" "no_refs nb"
    "table_map nb = table_map (m_buckets m)" "count_if is_filled nb = count_if is_filled (m_buckets m)"
    by (rule do_rehash_correct [of hasher ?m]) (use i refs len in simp_all)
  let ?m' = "m\<lparr>m_buckets := nb\<rparr>"
  have "try_rehash hasher m = Some (True, ?m')"
    using nb(1) relock [of ?m'] i(3)
    by (simp add: try_rehash_def try_write_def spinrwlock_new_def rw_guard_bool_def write_guard_dtor_def)
  with nb i show ?thesis
    by (intro that [of ?m']) (simp_all add: hm_inv_def hm_abs_def)
qed

text \<open>After a rehash the load is below the threshold again.\<close>

lemma overload_half: "over_load load n \<Longrightarrow> n \<le> 2 * unat load"
  by (simp add: over_load_def)

lemma rehashed_room:
  assumes "hm_inv hasher m" "2 * c = length (m_buckets m)" "unat (m_load m) \<le> c" "0 < c"
  shows "\<not> over_load (m_load m) (length (m_buckets m))"
  using assms(2-4) by (simp add: over_load_def flip: assms(2))

lemma hm_length_pos: "hm_inv hasher m \<Longrightarrow> 0 < length (m_buckets m)"
  by (auto simp: hm_inv_def table_ok_def power_size_def)

lemma unat_plus_one_le: "unat (x + 1 :: u64) \<le> unat x + 1"
  by (simp add: unat_word_ariths)

lemma hm_insert_room:
  assumes inv: "hm_inv hasher m" and room: "\<not> over_load (m_load m) (length (m_buckets m))"
  shows "\<exists>m'. hm_insert hasher k v m = Some (hm_abs m k = None, m') \<and> hm_inv hasher m' \<and>
    hm_abs m' = (if hm_abs m k = None then (hm_abs m)(k \<mapsto> v) else hm_abs m) \<and>
    (no_refs (m_buckets m) \<longrightarrow> no_refs (m_buckets m')) \<and> length (m_buckets m') = length (m_buckets m) \<and>
    unat (m_load m') \<le> unat (m_load m) + 1"
proof (cases rule: try_insert_cases [OF inv, of k v, case_names overload present absent])
  case overload
  with room show ?thesis by simp
next
  case present
  then have "hm_insert hasher k v m = Some (False, m)" by (subst hm_insert.simps) simp
  with present inv show ?thesis by auto
next
  case (absent m')
  then have "hm_insert hasher k v m = Some (True, m')" by (subst hm_insert.simps) simp
  with absent unat_plus_one_le [of "m_load m"] show ?thesis by simp
qed

lemma hm_insert_total:
  assumes inv: "hm_inv hasher m" and refs: "no_refs (m_buckets m)"
    and len: "length (m_buckets m) < 2 ^ 63"
  shows "\<exists>m'. hm_insert hasher k v m = Some (hm_abs m k = None, m') \<and> hm_inv hasher m' \<and>
    hm_abs m' = (if hm_abs m k = None then (hm_abs m)(k \<mapsto> v) else hm_abs m) \<and>
    no_refs (m_buckets m') \<and> unat (m_load m') \<le> unat (m_load m) + 1 \<and>
    (length (m_buckets m') = length (m_buckets m) \<or>
     length (m_buckets m') = 2 * length (m_buckets m) \<and> length (m_buckets m) \<le> 2 * unat (m_load m))"
proof (cases "over_load (m_load m) (length (m_buckets m))")
  case False
  with hm_insert_room [OF inv False, of k v] refs show ?thesis by auto
next
  case True
  then have "try_insert hasher k v m = Some (Inl Rehash_needed, m)"
    using try_insert_cases [OF inv, of k v] inv
    by (auto simp: hm_inv_def try_insert_def with_read_def try_read_def spinrwlock_new_def
        rw_guard_bool_def do_insert_overload read_guard_dtor_def)
  moreover obtain m' where m': "try_rehash hasher m = Some (True, m')" "hm_inv hasher m'"
      "hm_abs m' = hm_abs m" "no_refs (m_buckets m')"
      "length (m_buckets m') = 2 * length (m_buckets m)" "m_load m' = m_load m"
    using try_rehash_free [OF inv refs len] by blast
  ultimately have "hm_insert hasher k v m = hm_insert hasher k v m'"
    by (subst hm_insert.simps) simp
  moreover have "unat (m_load m) \<le> length (m_buckets m)"
    using hm_inv_parts(2) [OF inv] by (simp add: count_if_le_length)
  then have "\<not> over_load (m_load m') (length (m_buckets m'))"
    using m'(5,6) hm_length_pos [OF inv] by (intro rehashed_room [OF m'(2), of "length (m_buckets m)"]) simp_all
  ultimately show ?thesis
    using hm_insert_room [OF m'(2), of k v] m'(3-6) overload_half [OF True] by auto
qed

lemma try_remove_cases:
  assumes inv: "hm_inv hasher m"
  obtains (absent) "hm_abs m k = None" "try_remove hasher k m = Some (Inl Rem_none, m)"
  | (removed) v m' where "hm_abs m k = Some v" "try_remove hasher k m = Some (Inr v, m')"
      "hm_inv hasher m'" "hm_abs m' = (hm_abs m)(k := None)"
      "no_refs (m_buckets m) \<longrightarrow> no_refs (m_buckets m')" "length (m_buckets m') = length (m_buckets m)"
      "unat (m_load m') \<le> unat (m_load m)"
  | (guarded) p where "p < length (m_buckets m)" "holds k (m_buckets m ! p)"
      "refcount (b_state (m_buckets m ! p)) \<noteq> 0"
      "refcount (b_state (m_buckets m ! p)) + 1 \<noteq> 0 \<Longrightarrow> try_remove hasher k m = Some (Inl Guard_protecting, m)"
proof -
  note i = hm_inv_parts [OF inv]
  note free = with_read_free [OF i(3), of "do_remove hasher k" _ _ Rem_rehashing, folded try_remove_def]
  show ?thesis
  proof (cases rule: table_ok_cases [OF i(1), of k, case_names present absent])
    case 1: (present p v)
    show ?thesis
    proof (cases "refcount (b_state (m_buckets m ! p)) = 0")
      case True
      obtain bs where
        run: "do_remove hasher k (read_locked m) =
          Some (Inr v, (read_locked m)\<lparr>m_buckets := bs, m_load := m_load m - 1\<rparr>)" and
        bs: "table_ok hasher bs" "table_map bs = (table_map (m_buckets m))(k := None)"
        "unat (m_load m - 1) = count_if is_filled bs" "length bs = length (m_buckets m)"
        "no_refs (m_buckets m) \<longrightarrow> no_refs bs"
        by (rule do_remove_present [of hasher "read_locked m" p k v]) (use i 1 True in simp_all)
      let ?m' = "m\<lparr>m_buckets := bs, m_load := m_load m - 1, m_lock := spinrwlock_new\<rparr>"
      from free [OF run] have "try_remove hasher k m = Some (Inr v, ?m')" by simp
      moreover have "0 < unat (m_load m)"
        using i(2) 1(1,2) count_if_pos [of p "m_buckets m" is_filled] holds_filled [OF 1(2)] by simp
      then have "unat (m_load m - 1) \<le> unat (m_load m)"
        using unat_sub_one [of "m_load m"] by linarith
      ultimately show ?thesis
        using bs 1 by (intro removed [of v ?m']) (simp_all add: hm_inv_def hm_abs_def)
    next
      case False
      have "try_remove hasher k m = Some (Inl Guard_protecting, m)"
        if "refcount (b_state (m_buckets m ! p)) + 1 \<noteq> 0"
        using free [of _ "read_locked m"] remove_loop_present(2) [of hasher "read_locked m" p k] i 1 False that relock [OF i(3)]
        by (simp add: do_remove_def)
      with 1 False guarded show ?thesis by blast
    qed
  next
    case 2: absent
    then have "do_remove hasher k (read_locked m) = Some (Inl Rem_none, read_locked m)"
      using i(1) unfolding do_remove_def by (intro remove_loop_absent) simp_all
    with free relock [OF i(3)] 2 show ?thesis by (intro absent) (simp_all add: hm_abs_def)
  qed
qed

lemma hm_remove_total:
  assumes inv: "hm_inv hasher m" and refs: "no_refs (m_buckets m)"
  shows "\<exists>m'. hm_remove hasher k m = Some (hm_abs m k, m') \<and> hm_inv hasher m' \<and>
    hm_abs m' = (hm_abs m)(k := None) \<and> no_refs (m_buckets m') \<and>
    length (m_buckets m') = length (m_buckets m) \<and> unat (m_load m') \<le> unat (m_load m)"
proof (cases rule: try_remove_cases [OF inv, of k, case_names absent removed guarded])
  case absent
  then have "hm_remove hasher k m = Some (None, m)" by (subst hm_remove.simps) simp
  with absent inv refs show ?thesis by (auto simp: fun_eq_iff)
next
  case (removed v m')
  then have "hm_remove hasher k m = Some (Some v, m')" by (subst hm_remove.simps) simp
  with removed refs show ?thesis by auto
next
  case (guarded p)
  with refs show ?thesis by (auto simp: no_refs_def dest: holds_filled)
qed

lemma release_add_ref: "is_filled b \<Longrightarrow> release_ref (add_ref b) = b"
  by (cases b) (simp add: release_ref_def add_ref_def is_filled_def)

lemma do_get_cases:
  assumes ok: "table_ok hasher (m_buckets m)"
  obtains (absent) "table_map (m_buckets m) k = None" "do_get hasher k m = Some (Inl Get_none, m)"
  | (present) p v where "table_map (m_buckets m) k = Some v" "p < length (m_buckets m)"
      "holds k (m_buckets m ! p)" "b_val (m_buckets m ! p) = Some v"
      "do_get hasher k m = Some (Inr (Some p), m\<lparr>m_buckets := (m_buckets m)[p := add_ref (m_buckets m ! p)]\<rparr>)"
proof (cases rule: table_ok_cases [OF ok, of k, case_names present absent])
  case 1: (present p v)
  with present show ?thesis by (simp add: do_get_def get_loop_present [OF ok 1(1,2)])
next
  case 2: absent
  then have "get_loop hasher k 0 (m_buckets m) = Some (Inl Get_none, m_buckets m)"
    by (intro get_loop_absent [OF ok])
  with 2 absent show ?thesis by (simp add: do_get_def)
qed

lemma try_contains_eq:
  assumes inv: "hm_inv hasher m"
  shows "try_contains hasher k m = Some (Inr (hm_abs m k \<noteq> None), m)"
proof -
  note i = hm_inv_parts [OF inv]
  let ?f = "\<lambda>m. case do_get hasher k m of
         None \<Rightarrow> None
       | Some (Inr g, m) \<Rightarrow> Some (Inr True, hm_guard_dtor g m)
       | Some (Inl Get_none, m) \<Rightarrow> Some (Inr False, m)
       | Some (Inl err, m) \<Rightarrow> Some (Inl err, m)"
  have ok: "table_ok hasher (m_buckets (read_locked m))" using i(1) by simp
  have "?f (read_locked m) = Some (Inr (hm_abs m k \<noteq> None), read_locked m)"
  proof (cases rule: do_get_cases [OF ok, of k, case_names absent present])
    case absent
    then show ?thesis by (simp add: hm_abs_def)
  next
    case (present p v)
    then show ?thesis
      using holds_filled [OF present(3)]
      by (simp add: hm_abs_def hm_guard_dtor_def release_add_ref)
  qed
  then show ?thesis
    unfolding try_contains_def using with_read_free [OF i(3), of ?f] relock [OF i(3)] by simp
qed

lemma hm_contains_eq:
  "hm_inv hasher m \<Longrightarrow> hm_contains hasher k m = Some (hm_abs m k \<noteq> None, m)"
  by (subst hm_contains.simps) (simp add: try_contains_eq)

section \<open>The contract of a map\<close>

datatype ('k, 'v) map_op = Op_insert 'k 'v | Op_remove 'k | Op_contains 'k

datatype 'v map_result = Res_bool bool | Res_value "'v option"

text \<open>What the operations mean on a finite map.\<close>

fun spec_op :: "('k, 'v) map_op \<Rightarrow> ('k \<Rightarrow> 'v option) \<Rightarrow> 'v map_result \<times> ('k \<Rightarrow> 'v option)" where
  "spec_op (Op_insert k v) f =
     (Res_bool (f k = None), if f k = None then f(k \<mapsto> v) else f)"
| "spec_op (Op_remove k) f = (Res_value (f k), f(k := None))"
| "spec_op (Op_contains k) f = (Res_bool (f k \<noteq> None), f)"

fun spec_ops :: "('k, 'v) map_op list \<Rightarrow> ('k \<Rightarrow> 'v option) \<Rightarrow> 'v map_result list \<times> ('k \<Rightarrow> 'v option)" where
  "spec_ops [] f = ([], f)"
| "spec_ops (p # ps) f =
     (let (r, f1) = spec_op p f; (rs, f2) = spec_ops ps f1 in (r # rs, f2))"

text \<open>A client that performs a list of operations.\<close>

fun exec_op :: "('k \<Rightarrow> 'v \<Rightarrow> 's \<Rightarrow> (bool \<times> 's) option) \<Rightarrow> ('k \<Rightarrow> 's \<Rightarrow> ('v option \<times> 's) option) \<Rightarrow>
    ('k \<Rightarrow> 's \<Rightarrow> (bool \<times> 's) option) \<Rightarrow> ('k, 'v) map_op \<Rightarrow> 's \<Rightarrow> ('v map_result \<times> 's) option" where
  "exec_op ins rem con (Op_insert k v) s = map_option (apfst Res_bool) (ins k v s)"
| "exec_op ins rem con (Op_remove k) s = map_option (apfst Res_value) (rem k s)"
| "exec_op ins rem con (Op_contains k) s = map_option (apfst Res_bool) (con k s)"

fun exec_ops :: "('k \<Rightarrow> 'v \<Rightarrow> 's \<Rightarrow> (bool \<times> 's) option) \<Rightarrow> ('k \<Rightarrow> 's \<Rightarrow> ('v option \<times> 's) option) \<Rightarrow>
    ('k \<Rightarrow> 's \<Rightarrow> (bool \<times> 's) option) \<Rightarrow> ('k, 'v) map_op list \<Rightarrow> 's \<Rightarrow> ('v map_result list \<times> 's) option" where
  "exec_ops ins rem con [] s = Some ([], s)"
| "exec_ops ins rem con (p # ps) s =
     (case exec_op ins rem con p s of
        None \<Rightarrow> None
      | Some (r, s) \<Rightarrow> map_option (apfst (Cons r)) (exec_ops ins rem con ps s))"

locale map_object =
  fixes inv :: "nat \<Rightarrow> 's \<Rightarrow> bool"
    and abs :: "'s \<Rightarrow> 'k \<Rightarrow> 'v option"
    and ins :: "'k \<Rightarrow> 'v \<Rightarrow> 's \<Rightarrow> (bool \<times> 's) option"
    and rem :: "'k \<Rightarrow> 's \<Rightarrow> ('v option \<times> 's) option"
    and con :: "'k \<Rightarrow> 's \<Rightarrow> (bool \<times> 's) option"
    and bound :: nat
  assumes ins_law: "inv n s \<Longrightarrow> n < bound \<Longrightarrow>
      \<exists>s'. ins k v s = Some (abs s k = None, s') \<and> inv (Suc n) s' \<and>
        abs s' = (if abs s k = None then (abs s)(k \<mapsto> v) else abs s)"
    and rem_law: "inv n s \<Longrightarrow>
      \<exists>s'. rem k s = Some (abs s k, s') \<and> inv n s' \<and> abs s' = (abs s)(k := None)"
    and con_law: "inv n s \<Longrightarrow> con k s = Some (abs s k \<noteq> None, s)"
    and inv_mono: "inv n s \<Longrightarrow> inv (Suc n) s"
begin

lemma exec_op_refines:
  assumes "inv n s" "n < bound"
  shows "\<exists>s'. exec_op ins rem con p s = Some (fst (spec_op p (abs s)), s') \<and>
    inv (Suc n) s' \<and> abs s' = snd (spec_op p (abs s))"
proof (cases p)
  case (Op_insert k v)
  from ins_law [OF assms, of k v] show ?thesis by (auto simp: Op_insert)
next
  case (Op_remove k)
  from rem_law [OF assms(1), of k] inv_mono show ?thesis by (auto simp: Op_remove)
next
  case (Op_contains k)
  from con_law [OF assms(1), of k] inv_mono [OF assms(1)] show ?thesis by (auto simp: Op_contains)
qed

lemma exec_ops_refines:
  "inv n s \<Longrightarrow> n + length ps \<le> bound \<Longrightarrow>
   \<exists>s'. exec_ops ins rem con ps s = Some (fst (spec_ops ps (abs s)), s') \<and>
     inv (n + length ps) s' \<and> abs s' = snd (spec_ops ps (abs s))"
proof (induction ps arbitrary: n s)
  case (Cons p ps)
  from Cons.prems(2) have "n < bound" by simp
  from exec_op_refines [OF Cons.prems(1) this, of p] obtain t where
    t: "exec_op ins rem con p s = Some (fst (spec_op p (abs s)), t)" "inv (Suc n) t"
      "abs t = snd (spec_op p (abs s))" by blast
  from Cons.prems(2) have "Suc n + length ps \<le> bound" by simp
  from Cons.IH [OF t(2) this] t show ?case
    by (auto simp: Let_def split: prod.splits)
qed simp

end

text \<open>
  The table meets the contract as long as fewer than \<open>2^60\<close> insertions are made: the table
  only doubles when it is more than half full.
\<close>

definition hm_client_inv :: "('k \<Rightarrow> u64) \<Rightarrow> nat \<Rightarrow> ('k, 'v) hash_map \<Rightarrow> bool" where
  "hm_client_inv hasher n m \<longleftrightarrow>
     hm_inv hasher m \<and> no_refs (m_buckets m) \<and> unat (m_load m) \<le> n \<and>
     length (m_buckets m) \<le> 64 + 4 * n"

lemma hm_client_insert:
  assumes "hm_client_inv hasher n m" "n < 2 ^ 60"
  shows "\<exists>m'. hm_insert hasher k v m = Some (hm_abs m k = None, m') \<and> hm_client_inv hasher (Suc n) m' \<and>
    hm_abs m' = (if hm_abs m k = None then (hm_abs m)(k \<mapsto> v) else hm_abs m)"
proof -
  from assms have inv: "hm_inv hasher m" "no_refs (m_buckets m)" "unat (m_load m) \<le> n"
    "length (m_buckets m) \<le> 64 + 4 * n" by (simp_all add: hm_client_inv_def)
  with assms(2) have "length (m_buckets m) < 2 ^ 63" by simp
  from hm_insert_total [OF inv(1,2) this, of k v] obtain m' where
    m': "hm_insert hasher k v m = Some (hm_abs m k = None, m')" "hm_inv hasher m'"
      "hm_abs m' = (if hm_abs m k = None then (hm_abs m)(k \<mapsto> v) else hm_abs m)"
      "no_refs (m_buckets m')" "unat (m_load m') \<le> unat (m_load m) + 1"
    and len: "length (m_buckets m') = length (m_buckets m) \<or>
     length (m_buckets m') = 2 * length (m_buckets m) \<and> length (m_buckets m) \<le> 2 * unat (m_load m)"
    by blast
  have "hm_client_inv hasher (Suc n) m'"
    unfolding hm_client_inv_def
  proof (intro conjI)
    show "unat (m_load m') \<le> Suc n" using m'(5) inv(3) by linarith
    show "length (m_buckets m') \<le> 64 + 4 * Suc n" using len inv(3,4) by auto
  qed (rule m')+
  with m' show ?thesis by blast
qed

interpretation hm: map_object "hm_client_inv hasher" hm_abs "hm_insert hasher" "hm_remove hasher"
  "hm_contains hasher" "2 ^ 60" for hasher :: "'k \<Rightarrow> u64"
proof unfold_locales
  fix n and m :: "('k, 'v) hash_map" and k v
  show "hm_client_inv hasher n m \<Longrightarrow> n < 2 ^ 60 \<Longrightarrow>
      \<exists>m'. hm_insert hasher k v m = Some (hm_abs m k = None, m') \<and> hm_client_inv hasher (Suc n) m' \<and>
        hm_abs m' = (if hm_abs m k = None then (hm_abs m)(k \<mapsto> v) else hm_abs m)"
    by (rule hm_client_insert)
  show "hm_client_inv hasher n m \<Longrightarrow>
      \<exists>m'. hm_remove hasher k m = Some (hm_abs m k, m') \<and> hm_client_inv hasher n m' \<and>
        hm_abs m' = (hm_abs m)(k := None)"
    using hm_remove_total [of hasher m k] unfolding hm_client_inv_def by auto
  show "hm_client_inv hasher n m \<Longrightarrow> hm_contains hasher k m = Some (hm_abs m k \<noteq> None, m)"
    by (simp add: hm_client_inv_def hm_contains_eq)
  show "hm_client_inv hasher n m \<Longrightarrow> hm_client_inv hasher (Suc n) m"
    by (simp add: hm_client_inv_def)
qed

lemma hash_map_new_inv: "hm_inv hasher hash_map_new"
  using fresh_table(1) [of 6 hasher] fresh_table(2-5) [of 6] by (simp add: hm_inv_def hash_map_new_def initial_capacity_def)

lemma hash_map_new_client: "hm_client_inv hasher 0 hash_map_new"
  using fresh_table(1) [of 6 hasher] fresh_table(2-5) [of 6] hash_map_new_inv [of hasher]
  by (simp add: hm_client_inv_def hash_map_new_def initial_capacity_def)

lemma hash_map_new_abs: "hm_abs hash_map_new = Map.empty"
  using fresh_table(2) [of 6] by (simp add: hm_abs_def hash_map_new_def initial_capacity_def)

section \<open>Properties\<close>

text \<open>
  The probe sequence of a key visits every bucket of the table exactly once: the step is
  odd and the sizes are powers of two. So a search that goes all the way round has looked at
  every bucket, whatever the hash function.
\<close>

theorem probe_permutation:
  assumes "n < 64"
  shows "bij_betw (probe hasher k (2 ^ n)) {..< 2 ^ n} {..< 2 ^ n}"
proof -
  have "inj_on (probe hasher k (2 ^ n)) {..< 2 ^ n}"
    by (rule inj_onI) (rule probe_inj [OF assms], simp_all)
  moreover have "probe hasher k (2 ^ n) ` {..< 2 ^ n} = {..< 2 ^ n}"
    using probe_less [OF assms] \<open>inj_on _ _\<close> by (intro endo_inj_surj) auto
  ultimately show ?thesis by (simp add: bij_betw_def)
qed

theorem probe_permutation_witness:
  "bij_betw (probe (of_nat :: nat \<Rightarrow> u64) 12345 64) {..< 64} {..< 64}"
  using probe_permutation [of 6 "of_nat :: nat \<Rightarrow> u64" 12345] by simp

text \<open>
  C1: The table implements a finite map. For every hash function, a client that starts with a
  new \<open>hash_map\<close> and makes any sequence of up to \<open>2^60\<close> calls of \<open>insert\<close>, \<open>remove\<close> and
  \<open>contains\<close> sees every call return (no call loops for ever, reaches \<open>std::unreachable\<close> or
  touches a dead object), with the results the same calls have on a finite map.
\<close>

theorem hash_map_refines_map:
  fixes hasher :: "'k \<Rightarrow> u64"
  assumes "length ps \<le> 2 ^ 60"
  shows "\<exists>m. exec_ops (hm_insert hasher) (hm_remove hasher) (hm_contains hasher) ps hash_map_new =
      Some (fst (spec_ops ps Map.empty), m) \<and> hm_abs m = snd (spec_ops ps Map.empty)"
  using hm.exec_ops_refines [OF hash_map_new_client, of ps hasher] assms
  by (auto simp: hash_map_new_abs)

theorem hash_map_refines_map_witness:
  "\<exists>m. exec_ops (hm_insert of_nat) (hm_remove of_nat) (hm_contains of_nat)
      [Op_insert (3 :: nat) ''a'', Op_insert 67 ''b'', Op_insert 3 ''c'', Op_remove 3, Op_contains 3,
       Op_contains 67] hash_map_new =
    Some ([Res_bool True, Res_bool True, Res_bool False, Res_value (Some ''a''), Res_bool False,
       Res_bool True], m)"
  using hash_map_refines_map [of "[Op_insert (3 :: nat) ''a'', Op_insert 67 ''b'', Op_insert 3 ''c'',
      Op_remove 3, Op_contains 3, Op_contains 67]" of_nat]
  by (auto simp: Let_def)

text \<open>
  \<open>try_insert\<close> on every branch, with live guards anywhere in the table: at the load
  threshold it asks for a rehash, an existing key is refused, and neither changes the table
  (a tombstone claimed on the way is given back); otherwise exactly the new entry is added,
  and the load grows by one.
\<close>

theorem try_insert_behaviour:
  assumes "hm_inv hasher m"
  shows "if over_load (m_load m) (length (m_buckets m))
    then try_insert hasher k v m = Some (Inl Rehash_needed, m)
    else if hm_abs m k \<noteq> None then try_insert hasher k v m = Some (Inl Key_repeated, m)
    else \<exists>m'. try_insert hasher k v m = Some (Inr (), m') \<and> hm_inv hasher m' \<and>
      hm_abs m' = (hm_abs m)(k \<mapsto> v) \<and> hm_size m' = hm_size m + 1"
proof (cases "over_load (m_load m) (length (m_buckets m))")
  case True
  note i = hm_inv_parts [OF assms]
  have "do_insert hasher k v (read_locked m) = Some (Inl Rehash_needed, read_locked m)"
    using True by (simp add: do_insert_overload)
  with True show ?thesis
    using with_read_free [OF i(3), of "do_insert hasher k v"] relock [OF i(3)] by (simp add: try_insert_def)
next
  case False
  show ?thesis
  proof (cases rule: try_insert_cases [OF assms, of k v, case_names overload present absent])
    case overload
    with False show ?thesis by simp
  next
    case present
    with False show ?thesis by simp
  next
    case (absent m')
    with False show ?thesis by (simp add: hm_size_def)
  qed
qed

theorem try_insert_behaviour_witness:
  "\<exists>m'. try_insert of_nat (3 :: nat) ''a'' hash_map_new = Some (Inr (), m') \<and> hm_size m' = 1"
proof -
  have "\<not> over_load (m_load (hash_map_new :: (nat, string) hash_map)) (length (m_buckets (hash_map_new :: (nat, string) hash_map)))"
    by (simp add: over_load_def hash_map_new_def initial_capacity_def)
  with try_insert_behaviour [OF hash_map_new_inv, of of_nat "3 :: nat" "''a''"]
  have "\<exists>m'. try_insert of_nat (3 :: nat) ''a'' hash_map_new = Some (Inr (), m') \<and>
      hm_size m' = hm_size (hash_map_new :: (nat, string) hash_map) + 1"
    by (auto simp: hash_map_new_abs)
  then show ?thesis by (simp add: hm_size_def hash_map_new_def)
qed

text \<open>
  C7: A guard protects its entry. \<open>get\<close> of a present key returns a guard that reads that key
  and its value and changes nothing else; while it is held, \<open>try_remove\<close> of the key fails with
  \<open>guard_protecting\<close> and leaves the table as it is; and destroying the guard restores the
  table exactly. The bound is the width of the reference count.
\<close>

theorem guard_protects:
  assumes inv: "hm_inv hasher m" and v: "hm_abs m k = Some v"
    and refs: "\<forall>b \<in> set (m_buckets m). unat (refcount (b_state b)) < 2 ^ 61 - 2"
  shows "\<exists>g m'. hm_get hasher k m = Some (Some g, m') \<and> hm_inv hasher m' \<and> hm_abs m' = hm_abs m \<and>
    hm_guard_key (Some g) m' = Inr (Some k) \<and> hm_guard_value (Some g) m' = Inr (Some v) \<and>
    try_remove hasher k m' = Some (Inl Guard_protecting, m') \<and> hm_guard_dtor (Some g) m' = m"
proof -
  note i = hm_inv_parts [OF inv]
  have ok: "table_ok hasher (m_buckets (read_locked m))" using i(1) by simp
  obtain p where p: "p < length (m_buckets m)" "holds k (m_buckets m ! p)" "b_val (m_buckets m ! p) = Some v"
    and get: "do_get hasher k (read_locked m) =
      Some (Inr (Some p), (read_locked m)\<lparr>m_buckets := (m_buckets m)[p := add_ref (m_buckets m ! p)]\<rparr>)"
    using do_get_cases [OF ok, of k] v by (auto simp: hm_abs_def)
  let ?b = "m_buckets m ! p"
  let ?m' = "m\<lparr>m_buckets := (m_buckets m)[p := add_ref ?b]\<rparr>"
  note f = holds_filled [OF p(2)]
  note t = table_ref [OF i(1) p(1) f, of "refcount (b_state ?b) + 1", folded add_ref_def]
  have inv': "hm_inv hasher ?m'" "hm_abs ?m' = hm_abs m"
    using t i by (simp_all add: hm_inv_def hm_abs_def)
  have "try_get hasher k m = Some (Inr (Some p), ?m')"
    using with_read_free [of m "do_get hasher k", OF i(3) get] relock [of ?m'] i(3)
    by (simp add: try_get_def)
  then have "hm_get hasher k m = Some (Some p, ?m')" by (subst hm_get.simps) simp
  moreover have "try_remove hasher k ?m' = Some (Inl Guard_protecting, ?m')"
  proof -
    have r: "unat (refcount (b_state ?b)) < 2 ^ 61 - 2" using refs p(1) by simp
    then have "unat (refcount (b_state ?b) + 1) = unat (refcount (b_state ?b)) + 1"
      and "unat (refcount (b_state ?b) + 1 + 1) = unat (refcount (b_state ?b)) + 2"
      by (simp_all add: unat_word_ariths)
    then have "refcount (b_state ?b) + 1 \<noteq> 0" "refcount (b_state ?b) + 1 + 1 \<noteq> 0"
      by (metis add_is_0 one_neq_zero unsigned_0 zero_neq_numeral)+
    moreover have "holds k (add_ref ?b)" "refcount (b_state (add_ref ?b)) = refcount (b_state ?b) + 1"
      using p(2) by (simp_all add: add_ref_def holds_def is_filled_def)
    ultimately show ?thesis
      using remove_loop_present(2) [of hasher "read_locked ?m'" p k] t(1) p(1) i(3)
        with_read_free [of ?m' "do_remove hasher k" "Inl Guard_protecting" "read_locked ?m'" Rem_rehashing] relock [of ?m']
      by (simp add: try_remove_def do_remove_def)
  qed
  moreover have "hm_guard_key (Some p) ?m' = Inr (Some k)" "hm_guard_value (Some p) ?m' = Inr (Some v)"
    using p by (simp_all add: hm_guard_key_def hm_guard_value_def add_ref_def holds_def)
  moreover have "hm_guard_dtor (Some p) ?m' = m"
    using p(1) f by (simp add: hm_guard_dtor_def release_add_ref)
  ultimately show ?thesis using inv' by blast
qed

lemma no_refs_zero:
  assumes "hm_inv hasher m" "no_refs (m_buckets m)" "b \<in> set (m_buckets m)"
  shows "refcount (b_state b) = 0"
proof -
  from assms(1,3) have "bucket_ok b" by (simp add: hm_inv_def table_ok_def)
  then show ?thesis
    using assms(2,3) by (cases b rule: bucket_ok_cases) (auto simp: no_refs_def bucket_new_def dest: holds_filled)
qed

lemma hash_map_with_entry:
  obtains m where "hm_inv hasher m" "no_refs (m_buckets m)" "hm_abs m = [k \<mapsto> v]"
    "length (m_buckets m) < 2 ^ 63"
proof -
  let ?m = "hash_map_new :: ('a, 'b) hash_map"
  have new: "no_refs (m_buckets ?m)" "length (m_buckets ?m) = 64"
    using hash_map_new_client [of hasher, where ?'b = 'b]
    by (simp_all add: hm_client_inv_def hash_map_new_def initial_capacity_def)
  then have "length (m_buckets ?m) < 2 ^ 63" by simp
  from hm_insert_total [OF hash_map_new_inv new(1) this, of hasher k v] new(2) that show ?thesis
    by (auto simp: hash_map_new_abs)
qed

theorem guard_protects_witness:
  "\<exists>m g m'. hm_abs m = [3 :: nat \<mapsto> ''a''] \<and> hm_get of_nat 3 m = Some (Some g, m') \<and>
     hm_guard_value (Some g) m' = Inr (Some ''a'') \<and>
     try_remove of_nat 3 m' = Some (Inl Guard_protecting, m')"
proof -
  obtain m where m: "hm_inv of_nat m" "no_refs (m_buckets m)" "hm_abs m = [3 :: nat \<mapsto> ''a'']"
    by (rule hash_map_with_entry)
  from m(3) have "hm_abs m 3 = Some ''a''" by simp
  moreover have "\<forall>b \<in> set (m_buckets m). unat (refcount (b_state b)) < 2 ^ 61 - 2"
    using no_refs_zero [OF m(1,2)] by simp
  ultimately obtain g m' where "hm_get of_nat 3 m = Some (Some g, m')"
      "hm_guard_value (Some g) m' = Inr (Some ''a'')"
      "try_remove of_nat 3 m' = Some (Inl Guard_protecting, m')"
    using guard_protects [OF m(1)] by blast
  with m(3) show ?thesis by blast
qed

text \<open>
  \<open>try_rehash\<close> on a table without live guards always succeeds: the table has doubled, has
  lost its tombstones, is well formed for the new size, and stands for the same map with the
  same load.
\<close>

theorem try_rehash_keeps_map:
  assumes "hm_inv hasher m" "no_refs (m_buckets m)" "length (m_buckets m) < 2 ^ 63"
  shows "\<exists>m'. try_rehash hasher m = Some (True, m') \<and> hm_inv hasher m' \<and> hm_abs m' = hm_abs m \<and>
    length (m_buckets m') = 2 * length (m_buckets m) \<and> no_tombstones (m_buckets m') \<and>
    hm_size m' = hm_size m"
  using try_rehash_free [OF assms] unfolding hm_size_def by metis

theorem try_rehash_keeps_map_witness:
  "\<exists>m m'. hm_abs m = [3 :: nat \<mapsto> ''a''] \<and> try_rehash of_nat m = Some (True, m') \<and> hm_abs m' = hm_abs m"
proof -
  obtain m where m: "hm_inv of_nat m" "no_refs (m_buckets m)" "hm_abs m = [3 :: nat \<mapsto> ''a'']"
    "length (m_buckets m) < 2 ^ 63"
    by (rule hash_map_with_entry)
  from try_rehash_keeps_map [OF m(1,2,4)] m(3) show ?thesis by auto
qed

text \<open>
  While the structure lock is held or wanted by a rehash, every non-blocking operation
  reports \<open>rehashing\<close> and changes nothing; while it is held by anybody, \<open>try_rehash\<close> gives up
  without a change and the destructor panics.
\<close>

theorem structure_lock_excludes:
  assumes "m_state (m_lock m) \<noteq> 0"
  shows "(if m_state (m_lock m) AND (write_mask OR write_willing_mask) \<noteq> 0
      then try_insert hasher k v m = Some (Inl Ins_rehashing, m) \<and>
        try_remove hasher k m = Some (Inl Rem_rehashing, m) \<and>
        try_get hasher k m = Some (Inl Get_rehashing, m) \<and>
        try_contains hasher k m = Some (Inl Get_rehashing, m)
      else fst (try_read (m_lock m)) = Rw_of_lock) \<and>
    try_rehash hasher m = Some (False, m) \<and> hash_map_dtor m = Some (Inl Destroyed_while_locked)"
  using assms
  by (cases m) (simp add: try_insert_def try_remove_def try_get_def try_contains_def with_read_def try_read_def
      try_rehash_def try_write_def hash_map_dtor_def rw_guard_bool_def)

theorem structure_lock_excludes_witness:
  "try_get of_nat (3 :: nat) \<lparr>m_buckets = [] :: (nat, nat) bucket list, m_load = 0,
      m_lock = \<lparr>m_state = write_mask\<rparr>\<rparr> =
    Some (Inl Get_rehashing, \<lparr>m_buckets = [], m_load = 0, m_lock = \<lparr>m_state = write_mask\<rparr>\<rparr>)"
  using structure_lock_excludes [of "\<lparr>m_buckets = [] :: (nat, nat) bucket list, m_load = 0,
      m_lock = \<lparr>m_state = write_mask\<rparr>\<rparr>" of_nat 3 0] by simp

lemma hm_destroy_buckets_all:
  "\<forall>b \<in> set bs. bucket_ok b \<Longrightarrow> no_refs bs \<Longrightarrow>
   \<exists>bs'. hm_destroy_buckets bs = Some bs' \<and> length bs' = length bs \<and>
     (\<forall>b \<in> set bs'. b_key b = None \<and> b_val b = None)"
proof (induction bs)
  case (Cons b bs)
  then obtain bs' where ih: "hm_destroy_buckets bs = Some bs'" "length bs' = length bs"
    "\<forall>b \<in> set bs'. b_key b = None \<and> b_val b = None" by (auto simp: no_refs_def)
  from Cons.prems have "bucket_ok b" "is_filled b \<longrightarrow> refcount (b_state b) = 0"
    by (simp_all add: no_refs_def)
  then show ?case
    using ih by (cases b rule: bucket_ok_cases) (auto simp: is_filled_def bucket_new_def)
qed simp

text \<open>
  Destroying a table that nobody uses ends without a panic, and afterwards no bucket holds
  a constructed key or value: nothing is leaked.
\<close>

theorem hash_map_dtor_releases_all:
  assumes "hm_inv hasher m" "no_refs (m_buckets m)"
  shows "\<exists>m'. hash_map_dtor m = Some (Inr m') \<and>
    (\<forall>b \<in> set (m_buckets m'). b_key b = None \<and> b_val b = None) \<and>
    spinrwlock_dtor (m_lock m') = Inr ()"
proof -
  note i = hm_inv_parts [OF assms(1)]
  from hm_destroy_buckets_all [OF _ assms(2)] i(1) obtain bs' where
    "hm_destroy_buckets (m_buckets m) = Some bs'" "\<forall>b \<in> set bs'. b_key b = None \<and> b_val b = None"
    by (auto simp: table_ok_def)
  with i(3) show ?thesis
    by (simp add: hash_map_dtor_def try_write_def spinrwlock_new_def rw_guard_bool_def
        write_guard_dtor_def spinrwlock_dtor_def)
qed

theorem hash_map_dtor_releases_all_witness:
  "\<exists>m m'. hm_abs m = [3 :: nat \<mapsto> ''a''] \<and> hash_map_dtor m = Some (Inr m')"
proof -
  obtain m where m: "hm_inv of_nat m" "no_refs (m_buckets m)" "hm_abs m = [3 :: nat \<mapsto> ''a'']"
    by (rule hash_map_with_entry)
  from hash_map_dtor_releases_all [OF m(1,2)] m(3) show ?thesis by blast
qed

end
