(* ===== verification/Hash_Map_Conc.thy ===== *)
theory Hash_Map_Conc
  imports Hash_Map "HOL-Library.Multiset"
begin

text \<open>
  \<open>do_insert\<close>, \<open>do_remove\<close>, \<open>do_get\<close> and the guards of \<open>asco/concurrency/hash_map.h\<close>, run by any number of threads at the same time.
  Every atomic access to the state of a bucket is a step (a loop of a load and a weak compare-exchange takes effect
  when the exchange succeeds, on the word it has loaded), and so is every comparison of its key, the construction of its pair
  and its destruction. Which bucket an operation visits next is chosen by the actions, which covers the order of the probe
  sequence; an insertion that finds no bucket at all, where the code is undefined, stays where it is. \<open>m_load\<close> is not read
  between the test that starts an insertion and the end of it and is left out; a rehash excludes the operations by
  \<open>m_lock\<close> and is not part of this theory.
\<close>

section \<open>Threads\<close>

text \<open>
  Where a thread is: visiting bucket \<open>i\<close> with key \<open>k\<close> (and value \<open>v\<close>), about to visit the next one, or the owner of a guard. An
  insertion that has claimed a tombstone \<open>c\<close> goes on to look for its key.
\<close>

datatype ('k, 'v) hc_pc =
    Hc_idle
  | Hc_guard nat 'k
  | Hc_get_next 'k
  | Hc_get nat 'k
  | Hc_get_compare nat 'k
  | Hc_get_release nat 'k
  | Hc_ins_next 'k 'v
  | Hc_ins nat 'k 'v
  | Hc_ins_ref nat bucket_state 'k 'v
  | Hc_ins_tomb nat 'k 'v
  | Hc_ins_compare nat 'k 'v
  | Hc_ins_release nat bool 'k 'v
  | Hc_scan nat 'k 'v
  | Hc_claimed nat nat 'k 'v
  | Hc_claimed_ref nat nat bucket_state 'k 'v
  | Hc_claimed_compare nat nat 'k 'v
  | Hc_claimed_release nat nat bool 'k 'v
  | Hc_give_up nat bool
  | Hc_construct nat 'k 'v
  | Hc_publish nat
  | Hc_rem_next 'k
  | Hc_rem nat 'k
  | Hc_rem_mark nat 'k
  | Hc_rem_compare nat 'k
  | Hc_rem_unmark nat 'k
  | Hc_rem_check nat
  | Hc_rem_release nat
  | Hc_rem_decide nat
  | Hc_rem_protected nat
  | Hc_rem_destroy nat
  | Hc_rem_store nat

datatype hc_result = Hr_absent | Hr_retry | Hr_got | Hr_inserted | Hr_repeated | Hr_removed | Hr_protected

text \<open>What a step does besides: a result, an access to what is not there, a value put in or taken out.\<close>

datatype 'v hc_effect = No_effect | Result hc_result | Fault | Put 'v | Taken 'v

definition ref_up :: "('k, 'v) bucket \<Rightarrow> ('k, 'v) bucket" where
  "ref_up b = b\<lparr>b_state := bucket_state (refcount (b_state b) + 1) (bstate (b_state b))\<rparr>"

section \<open>Steps on a bucket\<close>

definition get_move :: "('k, 'v) hc_pc \<Rightarrow> ('k, 'v) bucket \<Rightarrow> ('k, 'v) hc_pc \<times> ('k, 'v) bucket \<times> 'v hc_effect" where
  "get_move pc b =
     (case pc of
        Hc_get i k \<Rightarrow>
          (case bstate (b_state b) of
             Empty \<Rightarrow> (Hc_idle, b, Result Hr_absent)
           | Constructing \<Rightarrow> (Hc_idle, b, Result Hr_retry)
           | Predestructing \<Rightarrow> (Hc_idle, b, Result Hr_retry)
           | Filled \<Rightarrow> (Hc_get_compare i k, ref_up b, No_effect)
           | _ \<Rightarrow> (Hc_get_next k, b, No_effect))
      | Hc_get_compare i k \<Rightarrow>
          (case b_key b of
             None \<Rightarrow> (pc, b, Fault)
           | Some k' \<Rightarrow> if k' \<noteq> k then (Hc_get_release i k, b, No_effect) else (Hc_guard i k, b, Result Hr_got))
      | Hc_get_release i k \<Rightarrow> (Hc_get_next k, release_ref b, No_effect)
      | Hc_guard i k \<Rightarrow> (Hc_idle, release_ref b, No_effect)
      | _ \<Rightarrow> (pc, b, No_effect))"

text \<open>An insertion without a claim. An empty bucket is filled at once, a tombstone is claimed.\<close>

definition ins_move :: "('k, 'v) hc_pc \<Rightarrow> ('k, 'v) bucket \<Rightarrow> ('k, 'v) hc_pc \<times> ('k, 'v) bucket \<times> 'v hc_effect" where
  "ins_move pc b =
     (case pc of
        Hc_ins i k v \<Rightarrow>
          if b_state b = bucket_state 0 Empty then (Hc_construct i k v, b\<lparr>b_state := bucket_state 0 Constructing\<rparr>, No_effect)
          else (case bstate (b_state b) of
                  Filled \<Rightarrow> (Hc_ins_ref i (b_state b) k v, b, No_effect)
                | Tombstone \<Rightarrow> (Hc_ins_tomb i k v, b, No_effect)
                | Empty \<Rightarrow> (Hc_ins i k v, b, No_effect)
                | _ \<Rightarrow> (Hc_idle, b, Result Hr_retry))
      | Hc_ins_ref i e k v \<Rightarrow>
          if b_state b = e then (Hc_ins_compare i k v, ref_up b, No_effect)
          else if bstate (b_state b) = Predestructing then (Hc_idle, b, Result Hr_retry)
          else (Hc_ins i k v, b, No_effect)
      | Hc_ins_tomb i k v \<Rightarrow>
          if bstate (b_state b) \<noteq> Tombstone then (Hc_ins i k v, b, No_effect)
          else (Hc_scan i k v, b\<lparr>b_state := bucket_state 0 Constructing\<rparr>, No_effect)
      | Hc_ins_compare i k v \<Rightarrow>
          (case b_key b of None \<Rightarrow> (pc, b, Fault) | Some k' \<Rightarrow> (Hc_ins_release i (k' = k) k v, b, No_effect))
      | Hc_ins_release i repeated k v \<Rightarrow>
          if repeated then (Hc_idle, release_ref b, Result Hr_repeated) else (Hc_ins_next k v, release_ref b, No_effect)
      | _ \<Rightarrow> (pc, b, No_effect))"

text \<open>The same with a claim, and what becomes of the claim.\<close>

definition claim_move :: "('k, 'v) hc_pc \<Rightarrow> ('k, 'v) bucket \<Rightarrow> ('k, 'v) hc_pc \<times> ('k, 'v) bucket \<times> 'v hc_effect" where
  "claim_move pc b =
     (case pc of
        Hc_claimed c i k v \<Rightarrow>
          (case bstate (b_state b) of
             Tombstone \<Rightarrow> (Hc_scan c k v, b, No_effect)
           | Empty \<Rightarrow> (Hc_construct c k v, b, No_effect)
           | Filled \<Rightarrow> (Hc_claimed_ref c i (b_state b) k v, b, No_effect)
           | _ \<Rightarrow> (Hc_give_up c False, b, No_effect))
      | Hc_claimed_ref c i e k v \<Rightarrow>
          if b_state b = e then (Hc_claimed_compare c i k v, ref_up b, No_effect)
          else if bstate (b_state b) = Predestructing then (Hc_give_up c False, b, No_effect)
          else (Hc_claimed c i k v, b, No_effect)
      | Hc_claimed_compare c i k v \<Rightarrow>
          (case b_key b of None \<Rightarrow> (pc, b, Fault) | Some k' \<Rightarrow> (Hc_claimed_release c i (k' = k) k v, b, No_effect))
      | Hc_claimed_release c i repeated k v \<Rightarrow>
          (if repeated then Hc_give_up c True else Hc_scan c k v, release_ref b, No_effect)
      | Hc_give_up c repeated \<Rightarrow>
          (Hc_idle, b\<lparr>b_state := bucket_state 0 Tombstone\<rparr>, Result (if repeated then Hr_repeated else Hr_retry))
      | Hc_construct c k v \<Rightarrow>
          if b_key b \<noteq> None \<or> b_val b \<noteq> None then (pc, b, Fault)
          else (Hc_publish c, b\<lparr>b_key := Some k, b_val := Some v\<rparr>, Put v)
      | Hc_publish c \<Rightarrow> (Hc_idle, b\<lparr>b_state := bucket_state 0 Filled\<rparr>, Result Hr_inserted)
      | _ \<Rightarrow> (pc, b, No_effect))"

definition rem_move :: "('k, 'v) hc_pc \<Rightarrow> ('k, 'v) bucket \<Rightarrow> ('k, 'v) hc_pc \<times> ('k, 'v) bucket \<times> 'v hc_effect" where
  "rem_move pc b =
     (case pc of
        Hc_rem i k \<Rightarrow>
          if b_state b = bucket_state 0 Filled then (Hc_rem_compare i k, b\<lparr>b_state := bucket_state 1 Predestructing\<rparr>, No_effect)
          else (case bstate (b_state b) of
                  Filled \<Rightarrow> (Hc_rem_mark i k, b, No_effect)
                | Empty \<Rightarrow> (Hc_idle, b, Result Hr_absent)
                | Constructing \<Rightarrow> (Hc_idle, b, Result Hr_retry)
                | Predestructing \<Rightarrow> (Hc_idle, b, Result Hr_retry)
                | _ \<Rightarrow> (Hc_rem_next k, b, No_effect))
      | Hc_rem_mark i k \<Rightarrow>
          if bstate (b_state b) \<noteq> Filled then (Hc_idle, b, Result Hr_retry)
          else if refcount (b_state b) = 0 then (Hc_rem i k, b, No_effect)
          else (Hc_rem_compare i k, b\<lparr>b_state := bucket_state (refcount (b_state b) + 1) Predestructing\<rparr>, No_effect)
      | Hc_rem_compare i k \<Rightarrow>
          (case b_key b of
             None \<Rightarrow> (pc, b, Fault)
           | Some k' \<Rightarrow> (if k' \<noteq> k then Hc_rem_unmark i k else Hc_rem_check i, b, No_effect))
      | Hc_rem_unmark i k \<Rightarrow>
          (Hc_rem_next k, b\<lparr>b_state := bucket_state (refcount (b_state b) - 1) Filled\<rparr>, No_effect)
      | Hc_rem_check i \<Rightarrow>
          (if bstate (b_state b) = Filled then Hc_rem_release i else Hc_rem_decide i, b, No_effect)
      | Hc_rem_release i \<Rightarrow> (Hc_idle, release_ref b, Result Hr_retry)
      | Hc_rem_decide i \<Rightarrow>
          if refcount (b_state b) > 1 then (Hc_rem_protected i, b, No_effect)
          else (Hc_rem_destroy i, b\<lparr>b_state := bucket_state (refcount (b_state b) - 1) Predestructing\<rparr>, No_effect)
      | Hc_rem_protected i \<Rightarrow>
          (Hc_idle, b\<lparr>b_state := bucket_state (refcount (b_state b) - 1) Filled\<rparr>, Result Hr_protected)
      | Hc_rem_destroy i \<Rightarrow>
          (case (b_key b, b_val b) of
             (Some k, Some v) \<Rightarrow> (Hc_rem_store i, b\<lparr>b_key := None, b_val := None\<rparr>, Taken v)
           | _ \<Rightarrow> (pc, b, Fault))
      | Hc_rem_store i \<Rightarrow> (Hc_idle, b\<lparr>b_state := bucket_state 0 Tombstone\<rparr>, Result Hr_removed)
      | _ \<Rightarrow> (pc, b, No_effect))"

text \<open>The bucket that a step is about, and the step.\<close>

definition hc_target :: "('k, 'v) hc_pc \<Rightarrow> nat option" where
  "hc_target pc =
     (case pc of
        Hc_guard i k \<Rightarrow> Some i | Hc_get i k \<Rightarrow> Some i | Hc_get_compare i k \<Rightarrow> Some i | Hc_get_release i k \<Rightarrow> Some i
      | Hc_ins i k v \<Rightarrow> Some i | Hc_ins_ref i e k v \<Rightarrow> Some i | Hc_ins_tomb i k v \<Rightarrow> Some i | Hc_ins_compare i k v \<Rightarrow> Some i
      | Hc_ins_release i r k v \<Rightarrow> Some i
      | Hc_claimed c i k v \<Rightarrow> Some i | Hc_claimed_ref c i e k v \<Rightarrow> Some i | Hc_claimed_compare c i k v \<Rightarrow> Some i
      | Hc_claimed_release c i r k v \<Rightarrow> Some i | Hc_give_up c r \<Rightarrow> Some c | Hc_construct c k v \<Rightarrow> Some c | Hc_publish c \<Rightarrow> Some c
      | Hc_rem i k \<Rightarrow> Some i | Hc_rem_mark i k \<Rightarrow> Some i | Hc_rem_compare i k \<Rightarrow> Some i | Hc_rem_unmark i k \<Rightarrow> Some i
      | Hc_rem_check i \<Rightarrow> Some i | Hc_rem_release i \<Rightarrow> Some i | Hc_rem_decide i \<Rightarrow> Some i | Hc_rem_protected i \<Rightarrow> Some i
      | Hc_rem_destroy i \<Rightarrow> Some i | Hc_rem_store i \<Rightarrow> Some i
      | _ \<Rightarrow> None)"

definition hc_move :: "('k, 'v) hc_pc \<Rightarrow> ('k, 'v) bucket \<Rightarrow> ('k, 'v) hc_pc \<times> ('k, 'v) bucket \<times> 'v hc_effect" where
  "hc_move pc b =
     (case pc of
        Hc_guard i k \<Rightarrow> get_move pc b | Hc_get i k \<Rightarrow> get_move pc b | Hc_get_compare i k \<Rightarrow> get_move pc b | Hc_get_release i k \<Rightarrow> get_move pc b
      | Hc_ins i k v \<Rightarrow> ins_move pc b | Hc_ins_ref i e k v \<Rightarrow> ins_move pc b | Hc_ins_tomb i k v \<Rightarrow> ins_move pc b
      | Hc_ins_compare i k v \<Rightarrow> ins_move pc b | Hc_ins_release i r k v \<Rightarrow> ins_move pc b
      | Hc_claimed c i k v \<Rightarrow> claim_move pc b | Hc_claimed_ref c i e k v \<Rightarrow> claim_move pc b | Hc_claimed_compare c i k v \<Rightarrow> claim_move pc b
      | Hc_claimed_release c i r k v \<Rightarrow> claim_move pc b | Hc_give_up c r \<Rightarrow> claim_move pc b | Hc_construct c k v \<Rightarrow> claim_move pc b
      | Hc_publish c \<Rightarrow> claim_move pc b
      | _ \<Rightarrow> rem_move pc b)"

section \<open>The table under its threads\<close>

text \<open>
  \<open>hc_put\<close> and \<open>hc_taken\<close> are history: the values that were constructed in a bucket and those that were moved out of one.
\<close>

record ('k, 'v) hc =
  hc_buckets :: "('k, 'v) bucket list"
  hc_pcs :: "('k, 'v) hc_pc list"
  hc_fault :: bool
  hc_results :: "(nat \<times> hc_result) list"
  hc_put :: "'v list"
  hc_taken :: "'v list"

definition hc_new :: "nat \<Rightarrow> nat \<Rightarrow> ('k, 'v) hc" where
  "hc_new sz n = \<lparr>hc_buckets = replicate sz bucket_new, hc_pcs = replicate n Hc_idle, hc_fault = False, hc_results = [],
     hc_put = [], hc_taken = []\<rparr>"

datatype ('k, 'v) hc_action =
    Hc_call nat "('k, 'v) hc_pc"
  | Hc_visit nat nat
  | Hc_end nat
  | Hc_read nat
  | Hc_thread nat

definition hc_entry :: "('k, 'v) hc_pc \<Rightarrow> bool" where
  "hc_entry pc = (case pc of Hc_get_next k \<Rightarrow> True | Hc_ins_next k v \<Rightarrow> True | Hc_rem_next k \<Rightarrow> True | _ \<Rightarrow> False)"

text \<open>The next bucket of a loop; a probe sequence does not come back to the bucket that was claimed. And the end of the loop.\<close>

definition hc_next :: "nat \<Rightarrow> ('k, 'v) hc_pc \<Rightarrow> ('k, 'v) hc_pc option" where
  "hc_next i pc =
     (case pc of
        Hc_get_next k \<Rightarrow> Some (Hc_get i k)
      | Hc_ins_next k v \<Rightarrow> Some (Hc_ins i k v)
      | Hc_scan c k v \<Rightarrow> if c = i then None else Some (Hc_claimed c i k v)
      | Hc_rem_next k \<Rightarrow> Some (Hc_rem i k)
      | _ \<Rightarrow> None)"

definition hc_loop_end :: "('k, 'v) hc_pc \<Rightarrow> (('k, 'v) hc_pc \<times> hc_result list) option" where
  "hc_loop_end pc =
     (case pc of
        Hc_get_next k \<Rightarrow> Some (Hc_idle, [Hr_absent])
      | Hc_scan c k v \<Rightarrow> Some (Hc_construct c k v, [])
      | Hc_rem_next k \<Rightarrow> Some (Hc_idle, [Hr_absent])
      | _ \<Rightarrow> None)"

definition hc_note :: "nat \<Rightarrow> 'v hc_effect \<Rightarrow> ('k, 'v) hc \<Rightarrow> ('k, 'v) hc" where
  "hc_note t eff s =
     (case eff of
        No_effect \<Rightarrow> s
      | Result r \<Rightarrow> s\<lparr>hc_results := hc_results s @ [(t, r)]\<rparr>
      | Fault \<Rightarrow> s\<lparr>hc_fault := True\<rparr>
      | Put v \<Rightarrow> s\<lparr>hc_put := hc_put s @ [v]\<rparr>
      | Taken v \<Rightarrow> s\<lparr>hc_taken := hc_taken s @ [v]\<rparr>)"

fun hc_step :: "('k, 'v) hc_action \<Rightarrow> ('k, 'v) hc \<Rightarrow> ('k, 'v) hc option" where
  "hc_step (Hc_call t pc) s =
     (if t < length (hc_pcs s) \<and> hc_pcs s ! t = Hc_idle \<and> hc_entry pc then Some (s\<lparr>hc_pcs := (hc_pcs s)[t := pc]\<rparr>) else None)"
| "hc_step (Hc_visit t i) s =
     (if t < length (hc_pcs s) \<and> i < length (hc_buckets s)
      then map_option (\<lambda>pc. s\<lparr>hc_pcs := (hc_pcs s)[t := pc]\<rparr>) (hc_next i (hc_pcs s ! t)) else None)"
| "hc_step (Hc_end t) s =
     (if t < length (hc_pcs s)
      then map_option (\<lambda>(pc, rs). s\<lparr>hc_pcs := (hc_pcs s)[t := pc], hc_results := hc_results s @ map (Pair t) rs\<rparr>) (hc_loop_end (hc_pcs s ! t))
      else None)"
| "hc_step (Hc_read t) s =
     (if t < length (hc_pcs s)
      then (case hc_pcs s ! t of
              Hc_guard i k \<Rightarrow>
                Some (if b_key (hc_buckets s ! i) = None \<or> b_val (hc_buckets s ! i) = None then s\<lparr>hc_fault := True\<rparr> else s)
            | _ \<Rightarrow> None)
      else None)"
| "hc_step (Hc_thread t) s =
     (if t < length (hc_pcs s)
      then (case hc_target (hc_pcs s ! t) of
              None \<Rightarrow> None
            | Some i \<Rightarrow>
                (case hc_move (hc_pcs s ! t) (hc_buckets s ! i) of
                   (pc, b, eff) \<Rightarrow> Some (hc_note t eff (s\<lparr>hc_pcs := (hc_pcs s)[t := pc], hc_buckets := (hc_buckets s)[i := b]\<rparr>))))
      else None)"

section \<open>What a thread has of a bucket\<close>

text \<open>
  A thread holds a reference of bucket \<open>i\<close>, or owns it in one of these ways: it has claimed it, has constructed its objects,
  has marked it for removal, has taken the right to destroy, or has destroyed.
\<close>

datatype hc_role = Claiming | Made | Marking | Destroying | Destroyed

definition hc_holds :: "('k, 'v) hc_pc \<Rightarrow> nat option" where
  "hc_holds pc =
     (case pc of
        Hc_guard i k \<Rightarrow> Some i | Hc_get_compare i k \<Rightarrow> Some i | Hc_get_release i k \<Rightarrow> Some i | Hc_ins_compare i k v \<Rightarrow> Some i
      | Hc_ins_release i r k v \<Rightarrow> Some i | Hc_claimed_compare c i k v \<Rightarrow> Some i | Hc_claimed_release c i r k v \<Rightarrow> Some i
      | _ \<Rightarrow> None)"

definition hc_owns :: "('k, 'v) hc_pc \<Rightarrow> (nat \<times> hc_role) option" where
  "hc_owns pc =
     (case pc of
        Hc_scan c k v \<Rightarrow> Some (c, Claiming) | Hc_claimed c i k v \<Rightarrow> Some (c, Claiming) | Hc_claimed_ref c i e k v \<Rightarrow> Some (c, Claiming)
      | Hc_claimed_compare c i k v \<Rightarrow> Some (c, Claiming) | Hc_claimed_release c i r k v \<Rightarrow> Some (c, Claiming)
      | Hc_give_up c r \<Rightarrow> Some (c, Claiming) | Hc_construct c k v \<Rightarrow> Some (c, Claiming)
      | Hc_publish c \<Rightarrow> Some (c, Made)
      | Hc_rem_compare i k \<Rightarrow> Some (i, Marking) | Hc_rem_unmark i k \<Rightarrow> Some (i, Marking) | Hc_rem_check i \<Rightarrow> Some (i, Marking)
      | Hc_rem_release i \<Rightarrow> Some (i, Marking) | Hc_rem_decide i \<Rightarrow> Some (i, Marking) | Hc_rem_protected i \<Rightarrow> Some (i, Marking)
      | Hc_rem_destroy i \<Rightarrow> Some (i, Destroying)
      | Hc_rem_store i \<Rightarrow> Some (i, Destroyed)
      | _ \<Rightarrow> None)"

definition hold_at :: "nat \<Rightarrow> ('k, 'v) hc_pc \<Rightarrow> nat" where
  "hold_at i pc = of_bool (hc_holds pc = Some i)"

definition owner_at :: "nat \<Rightarrow> ('k, 'v) hc_pc \<Rightarrow> hc_role multiset" where
  "owner_at i pc = (case hc_owns pc of Some (j, r) \<Rightarrow> if j = i then {#r#} else {#} | None \<Rightarrow> {#})"

text \<open>What a thread has noted of a bucket that it has loaded, and the indices it uses.\<close>

definition hc_pc_ok :: "nat \<Rightarrow> ('k, 'v) hc_pc \<Rightarrow> bool" where
  "hc_pc_ok n pc \<longleftrightarrow>
     (case hc_target pc of None \<Rightarrow> True | Some i \<Rightarrow> i < n) \<and> (case hc_owns pc of None \<Rightarrow> True | Some (c, r) \<Rightarrow> c < n) \<and>
     (case pc of
        Hc_ins_ref i e k v \<Rightarrow> bstate e = Filled
      | Hc_claimed c i k v \<Rightarrow> c \<noteq> i
      | Hc_claimed_ref c i e k v \<Rightarrow> c \<noteq> i \<and> bstate e = Filled
      | Hc_claimed_compare c i k v \<Rightarrow> c \<noteq> i
      | Hc_claimed_release c i r k v \<Rightarrow> c \<noteq> i
      | Hc_rem_release i \<Rightarrow> False
      | _ \<Rightarrow> True)"

definition vacant :: "('k, 'v) bucket \<Rightarrow> bool" where
  "vacant b \<longleftrightarrow> b_key b = None \<and> b_val b = None"

definition occupied :: "('k, 'v) bucket \<Rightarrow> bool" where
  "occupied b \<longleftrightarrow> b_key b \<noteq> None \<and> b_val b \<noteq> None"

text \<open>A bucket under \<open>h\<close> references and the owners \<open>R\<close>.\<close>

fun phase_ok :: "nat \<Rightarrow> hc_role multiset \<Rightarrow> bucket_state_enum \<Rightarrow> nat \<Rightarrow> bool \<Rightarrow> bool \<Rightarrow> bool" where
  "phase_ok h R Empty rc vac occ \<longleftrightarrow> rc = 0 \<and> h = 0 \<and> R = {#} \<and> vac"
| "phase_ok h R Tombstone rc vac occ \<longleftrightarrow> rc = 0 \<and> h = 0 \<and> R = {#} \<and> vac"
| "phase_ok h R Constructing rc vac occ \<longleftrightarrow> rc = 0 \<and> h = 0 \<and> (R = {#Claiming#} \<and> vac \<or> R = {#Made#} \<and> occ)"
| "phase_ok h R Filled rc vac occ \<longleftrightarrow> rc = h \<and> R = {#} \<and> occ"
| "phase_ok h R Predestructing rc vac occ \<longleftrightarrow>
     R = {#Marking#} \<and> rc = Suc h \<and> occ \<or> R = {#Destroying#} \<and> rc = 0 \<and> h = 0 \<and> occ \<or>
     R = {#Destroyed#} \<and> rc = 0 \<and> h = 0 \<and> vac"
| "phase_ok h R Destructing rc vac occ \<longleftrightarrow> False"

definition bucket_ok :: "nat \<Rightarrow> hc_role multiset \<Rightarrow> ('k, 'v) bucket \<Rightarrow> bool" where
  "bucket_ok h R b \<longleftrightarrow> phase_ok h R (bstate (b_state b)) (unat (refcount (b_state b))) (vacant b) (occupied b)"

lemma rc_up: "unat x + 1 < 2 ^ 61 \<Longrightarrow> unat (x + 1 :: 61 word) = Suc (unat x)"
  using unat_add_lem [of x 1] by simp

lemma rc_down: "0 < unat x \<Longrightarrow> unat (x - 1 :: 61 word) = unat x - 1"
  by (cases "x = 0") (simp_all add: unat_minus_one)

lemmas hc_role_simps = hold_at_def owner_at_def hc_holds_def hc_owns_def

lemmas hc_move_simps = hc_move_def get_move_def ins_move_def claim_move_def rem_move_def hc_target_def

lemmas hc_ok_simps = hc_role_simps hc_move_simps bucket_ok_def hc_pc_ok_def vacant_def occupied_def release_ref_def ref_up_def
  rc_up rc_down word_less_nat_alt

lemma move_bucket_ok:
  assumes "bucket_ok (H + hold_at i pc) (R + owner_at i pc) b"
    and "hc_target pc = Some i" "hc_pc_ok n pc" "H < 2 ^ 60"
  shows "case hc_move pc b of (pc', b', eff) \<Rightarrow> bucket_ok (H + hold_at i pc') (R + owner_at i pc') b'"
  using assms
  apply (cases pc; cases "bstate (b_state b)")
  apply (simp_all add: hc_ok_simps Let_def split: if_splits option.splits)
  apply (auto simp: rc_up rc_down split: if_splits option.splits)
  done

lemma move_pc_ok:
  assumes "bucket_ok (H + hold_at i pc) (R + owner_at i pc) b"
    and "hc_target pc = Some i" "hc_pc_ok n pc"
  shows "case hc_move pc b of (pc', b', eff) \<Rightarrow> hc_pc_ok n pc' \<and> eff \<noteq> Fault"
  using assms
  by (cases pc; cases "bstate (b_state b)") (simp_all add: hc_ok_simps Let_def split: if_splits option.splits)

text \<open>What a step moves in or out of the bucket, and that a referenced bucket keeps its key.\<close>

definition val_mset :: "('k, 'v) bucket \<Rightarrow> 'v multiset" where
  "val_mset b = (case b_val b of None \<Rightarrow> {#} | Some v \<Rightarrow> {#v#})"

definition put_mset :: "'v hc_effect \<Rightarrow> 'v multiset" where
  "put_mset eff = (case eff of Put v \<Rightarrow> {#v#} | _ \<Rightarrow> {#})"

definition taken_mset :: "'v hc_effect \<Rightarrow> 'v multiset" where
  "taken_mset eff = (case eff of Taken v \<Rightarrow> {#v#} | _ \<Rightarrow> {#})"

lemma move_values:
  "case hc_move pc b of (pc', b', eff) \<Rightarrow> val_mset b' + taken_mset eff = val_mset b + put_mset eff"
  by (cases pc; cases "bstate (b_state b)")
    (simp_all add: hc_move_simps release_ref_def ref_up_def val_mset_def put_mset_def taken_mset_def Let_def split: if_splits option.splits)

lemma move_keeps_referenced:
  assumes "bucket_ok (H + hold_at i pc) (R + owner_at i pc) b" "hc_target pc = Some i" "hc_pc_ok n pc" "0 < H"
  shows "case hc_move pc b of (pc', b', eff) \<Rightarrow> b_key b' = b_key b \<and> b_val b' = b_val b"
  using assms
  by (cases pc; cases "bstate (b_state b)") (simp_all add: hc_ok_simps Let_def split: if_splits option.splits)

text \<open>A step leaves the other buckets alone, also those that its thread has claimed. A new guard is of the key it was asked for.\<close>

lemma move_other:
  assumes "hc_target pc = Some i" "hc_pc_ok n pc" "j \<noteq> i"
  shows "case hc_move pc b of (pc', b', eff) \<Rightarrow> hold_at j pc' = hold_at j pc \<and> owner_at j pc' = owner_at j pc"
  using assms
  by (cases pc; cases "bstate (b_state b)")
    (simp_all add: hc_role_simps hc_move_simps hc_pc_ok_def Let_def split: if_splits option.splits)

lemma move_guard:
  "case hc_move pc b of (pc', b', eff) \<Rightarrow> \<forall>i k. pc' = Hc_guard i k \<longrightarrow> hc_target pc = Some i \<and> b_key b' = Some k"
  by (cases pc; cases "bstate (b_state b)")
    (simp_all add: hc_move_simps Let_def split: if_splits option.splits)

section \<open>The invariant\<close>

definition holders :: "nat \<Rightarrow> ('k, 'v) hc_pc list \<Rightarrow> nat" where
  "holders i ps = sum_list (map (hold_at i) ps)"

definition owners :: "nat \<Rightarrow> ('k, 'v) hc_pc list \<Rightarrow> hc_role multiset" where
  "owners i ps = sum_list (map (owner_at i) ps)"

definition guards_ok :: "('k, 'v) hc \<Rightarrow> bool" where
  "guards_ok s \<longleftrightarrow>
     (\<forall>t i k. t < length (hc_pcs s) \<longrightarrow> hc_pcs s ! t = Hc_guard i k \<longrightarrow> b_key (hc_buckets s ! i) = Some k)"

definition hc_inv :: "('k, 'v) hc \<Rightarrow> bool" where
  "hc_inv s \<longleftrightarrow>
     \<not> hc_fault s \<and> length (hc_pcs s) < 2 ^ 60 \<and> (\<forall>pc \<in> set (hc_pcs s). hc_pc_ok (length (hc_buckets s)) pc) \<and>
     (\<forall>i < length (hc_buckets s). bucket_ok (holders i (hc_pcs s)) (owners i (hc_pcs s)) (hc_buckets s ! i)) \<and>
     mset (hc_put s) = mset (hc_taken s) + sum_list (map val_mset (hc_buckets s)) \<and> guards_ok s"

lemma idle_roles [simp]: "hold_at i Hc_idle = 0" "owner_at i Hc_idle = {#}"
  by (simp_all add: hc_role_simps)

lemma sum_replace:
  "t < length xs \<Longrightarrow> f z = (0 :: 'b :: comm_monoid_add) \<Longrightarrow> sum_list (map f (xs[t := x])) = sum_list (map f (xs[t := z])) + f x"
  using sum_update [of t "xs[t := z]" f x] by simp

lemma bucket_holders_update: "t < length ps \<Longrightarrow> holders i (ps[t := pc]) = holders i (ps[t := Hc_idle]) + hold_at i pc"
  unfolding holders_def by (rule sum_replace) simp_all

lemma bucket_owners_update: "t < length ps \<Longrightarrow> owners i (ps[t := pc]) = owners i (ps[t := Hc_idle]) + owner_at i pc"
  unfolding owners_def by (rule sum_replace) simp_all

lemma roles_rest:
  assumes "t < length ps"
  shows "holders i ps = holders i (ps[t := Hc_idle]) + hold_at i (ps ! t)"
    and "owners i ps = owners i (ps[t := Hc_idle]) + owner_at i (ps ! t)"
  using bucket_holders_update [OF assms, of i "ps ! t"] bucket_owners_update [OF assms, of i "ps ! t"] by simp_all

lemma holders_le: "holders i ps \<le> length ps"
  by (induction ps) (simp_all add: holders_def hold_at_def)

lemma holders_pos: "t < length ps \<Longrightarrow> hc_holds (ps ! t) = Some i \<Longrightarrow> 0 < holders i ps"
  using roles_rest(1) [of t ps i] by (simp add: hold_at_def)

lemma sum_list_empty_mset [simp]: "sum_list (replicate n {#}) = {#}"
  by (induction n) simp_all

lemma hc_new_inv: "n < 2 ^ 60 \<Longrightarrow> hc_inv (hc_new sz n)"
  by (simp add: hc_inv_def hc_new_def holders_def owners_def sum_list_replicate guards_ok_def bucket_ok_def bucket_new_def
      vacant_def val_mset_def hc_pc_ok_def hc_target_def hc_owns_def)

lemma phase_referenced: "phase_ok h R st rc vac occ \<Longrightarrow> 0 < h \<Longrightarrow> occ"
  by (cases st) auto

lemma bucket_referenced: "bucket_ok h R b \<Longrightarrow> 0 < h \<Longrightarrow> occupied b"
  unfolding bucket_ok_def by (rule phase_referenced)

text \<open>A step that changes neither a bucket nor what its thread has of one.\<close>

lemma inv_same_roles:
  assumes inv: "hc_inv s" and t: "t < length (hc_pcs s)"
    and same: "\<And>j. hold_at j pc = hold_at j (hc_pcs s ! t)" "\<And>j. owner_at j pc = owner_at j (hc_pcs s ! t)"
    and pc: "hc_pc_ok (length (hc_buckets s)) pc" "\<And>i k. pc \<noteq> Hc_guard i k"
  shows "hc_inv (s\<lparr>hc_pcs := (hc_pcs s)[t := pc]\<rparr>)"
proof -
  have "holders j ((hc_pcs s)[t := pc]) = holders j (hc_pcs s)" "owners j ((hc_pcs s)[t := pc]) = owners j (hc_pcs s)" for j
    using bucket_holders_update [OF t, of j pc] bucket_owners_update [OF t, of j pc] roles_rest [OF t, of j] same [of j] by simp_all
  moreover have "\<forall>q \<in> set ((hc_pcs s)[t := pc]). hc_pc_ok (length (hc_buckets s)) q"
    using inv pc(1) set_update_subset_insert [of "hc_pcs s" t pc] unfolding hc_inv_def by blast
  moreover have "guards_ok (s\<lparr>hc_pcs := (hc_pcs s)[t := pc]\<rparr>)"
    using inv pc(2) t by (auto simp: hc_inv_def guards_ok_def nth_list_update)
  ultimately show ?thesis
    using inv by (simp add: hc_inv_def)
qed

text \<open>A step of a thread on its bucket.\<close>

lemma bucket_step_inv:
  assumes inv: "hc_inv s" and t: "t < length (hc_pcs s)" and target: "hc_target (hc_pcs s ! t) = Some i"
    and move: "hc_move (hc_pcs s ! t) (hc_buckets s ! i) = (pc, b, eff)"
  shows "hc_inv (hc_note t eff (s\<lparr>hc_pcs := (hc_pcs s)[t := pc], hc_buckets := (hc_buckets s)[i := b]\<rparr>))"
proof -
  let ?q = "hc_pcs s ! t" and ?n = "length (hc_buckets s)" and ?b = "hc_buckets s ! i"
  let ?H = "\<lambda>j. holders j ((hc_pcs s)[t := Hc_idle])" and ?R = "\<lambda>j. owners j ((hc_pcs s)[t := Hc_idle])"
  have q: "hc_pc_ok ?n ?q" using inv t by (simp add: hc_inv_def)
  then have i: "i < ?n" using target by (simp add: hc_pc_ok_def)
  have before: "bucket_ok (?H j + hold_at j ?q) (?R j + owner_at j ?q) (hc_buckets s ! j)" if "j < ?n" for j
    using inv that by (simp add: hc_inv_def flip: roles_rest [OF t])
  have less: "?H j < 2 ^ 60" for j
    using inv holders_le [of j "(hc_pcs s)[t := Hc_idle]"] by (simp add: hc_inv_def)
  have after: "bucket_ok (?H i + hold_at i pc) (?R i + owner_at i pc) b"
    using move_bucket_ok [OF before [OF i] target q less] move by simp
  have pc: "hc_pc_ok ?n pc" "eff \<noteq> Fault"
    using move_pc_ok [OF before [OF i] target q] move by simp_all
  have other: "hold_at j pc = hold_at j ?q" "owner_at j pc = owner_at j ?q" if "j \<noteq> i" for j
    using move_other [OF target q that, where b = ?b] move by simp_all
  have buckets: "bucket_ok (holders j ((hc_pcs s)[t := pc])) (owners j ((hc_pcs s)[t := pc])) ((hc_buckets s)[i := b] ! j)"
    if "j < ?n" for j
    using after before [OF that] other [of j] bucket_holders_update [OF t, of j pc] bucket_owners_update [OF t, of j pc] i that
    by (cases "j = i") simp_all
  have vals: "val_mset b + taken_mset eff = val_mset ?b + put_mset eff"
    using move_values [where pc = ?q and b = ?b] move by simp
  have sum: "sum_list (map val_mset ((hc_buckets s)[i := b])) + val_mset ?b = sum_list (map val_mset (hc_buckets s)) + val_mset b"
    by (rule sum_update [OF i])
  have guards: "guards_ok (s\<lparr>hc_pcs := (hc_pcs s)[t := pc], hc_buckets := (hc_buckets s)[i := b]\<rparr>)"
    unfolding guards_ok_def
  proof (intro allI impI)
    fix u j k
    assume u: "u < length (hc_pcs (s\<lparr>hc_pcs := (hc_pcs s)[t := pc], hc_buckets := (hc_buckets s)[i := b]\<rparr>))"
      and guard: "hc_pcs (s\<lparr>hc_pcs := (hc_pcs s)[t := pc], hc_buckets := (hc_buckets s)[i := b]\<rparr>) ! u = Hc_guard j k"
    have "b_key ((hc_buckets s)[i := b] ! j) = Some k"
    proof (cases "u = t")
      case True
      with guard t have "pc = Hc_guard j k" by simp
      with move_guard [where pc = ?q and b = ?b] move target i show ?thesis by simp
    next
      case False
      with guard u have g: "u < length (hc_pcs s)" "hc_pcs s ! u = Hc_guard j k" by simp_all
      then have key: "b_key (hc_buckets s ! j) = Some k" using inv by (simp add: hc_inv_def guards_ok_def)
      have "0 < ?H j"
        using g False holders_pos [of u "(hc_pcs s)[t := Hc_idle]" j] by (simp add: hc_holds_def)
      with move_keeps_referenced [OF before [OF i] target q] move key i show ?thesis
        by (cases "j = i") simp_all
    qed
    then show "b_key (hc_buckets (s\<lparr>hc_pcs := (hc_pcs s)[t := pc], hc_buckets := (hc_buckets s)[i := b]\<rparr>) ! j) = Some k" by simp
  qed
  have pcs: "\<forall>p \<in> set ((hc_pcs s)[t := pc]). hc_pc_ok ?n p"
    using inv pc(1) set_update_subset_insert [of "hc_pcs s" t pc] unfolding hc_inv_def by blast
  have put: "mset (hc_put s) = mset (hc_taken s) + sum_list (map val_mset (hc_buckets s))"
    using inv by (simp add: hc_inv_def)
  have "mset (hc_put s) + put_mset eff + val_mset ?b = mset (hc_taken s) + sum_list (map val_mset (hc_buckets s)) + (val_mset ?b + put_mset eff)"
    unfolding put by (simp only: ac_simps)
  also have "\<dots> = mset (hc_taken s) + taken_mset eff + (sum_list (map val_mset (hc_buckets s)) + val_mset b)"
    unfolding vals [symmetric] by (simp only: ac_simps)
  also have "\<dots> = mset (hc_taken s) + taken_mset eff + sum_list (map val_mset ((hc_buckets s)[i := b])) + val_mset ?b"
    unfolding sum [symmetric] by (simp only: ac_simps)
  finally have "mset (hc_put s) + put_mset eff = mset (hc_taken s) + taken_mset eff + sum_list (map val_mset ((hc_buckets s)[i := b]))"
    by simp
  then show ?thesis
    using inv pc(2) buckets pcs guards
    by (cases eff) (simp_all add: hc_inv_def hc_note_def guards_ok_def put_mset_def taken_mset_def)
qed

lemma entry_roles: "hc_entry pc \<Longrightarrow> hold_at j pc = 0 \<and> owner_at j pc = {#} \<and> hc_pc_ok n pc \<and> pc \<noteq> Hc_guard i k"
  by (cases pc) (simp_all add: hc_entry_def hc_role_simps hc_pc_ok_def hc_target_def)

lemma next_roles:
  "hc_next i pc = Some pc' \<Longrightarrow> hc_pc_ok n pc \<Longrightarrow> i < n \<Longrightarrow>
     hold_at j pc' = hold_at j pc \<and> owner_at j pc' = owner_at j pc \<and> hc_pc_ok n pc' \<and> pc' \<noteq> Hc_guard a k"
  by (cases pc) (auto simp: hc_next_def hc_role_simps hc_pc_ok_def hc_target_def split: if_splits)

lemma loop_end_roles:
  "hc_loop_end pc = Some (pc', rs) \<Longrightarrow> hc_pc_ok n pc \<Longrightarrow>
     hold_at j pc' = hold_at j pc \<and> owner_at j pc' = owner_at j pc \<and> hc_pc_ok n pc' \<and> pc' \<noteq> Hc_guard a k"
  by (cases pc) (auto simp: hc_loop_end_def hc_role_simps hc_pc_ok_def hc_target_def)

lemma hc_inv_results [simp]: "hc_inv (s\<lparr>hc_pcs := ps, hc_results := rs\<rparr>) = hc_inv (s\<lparr>hc_pcs := ps\<rparr>)"
  by (simp add: hc_inv_def guards_ok_def)

lemma guard_bucket_occupied:
  assumes "hc_inv s" "t < length (hc_pcs s)" "hc_pcs s ! t = Hc_guard i k"
  shows "i < length (hc_buckets s) \<and> b_key (hc_buckets s ! i) = Some k \<and> b_val (hc_buckets s ! i) \<noteq> None"
proof -
  have i: "i < length (hc_buckets s)"
    using assms by (force simp: hc_inv_def hc_pc_ok_def hc_target_def dest: nth_mem)
  have "occupied (hc_buckets s ! i)"
    using assms i holders_pos [of t "hc_pcs s" i] bucket_referenced by (simp add: hc_inv_def hc_holds_def) blast
  with i assms show ?thesis by (simp add: hc_inv_def guards_ok_def occupied_def)
qed

lemma hc_step_inv: "hc_inv s \<Longrightarrow> hc_step a s = Some s' \<Longrightarrow> hc_inv s'"
proof (induction a s rule: hc_step.induct)
  case (1 t pc s)
  then have "t < length (hc_pcs s)" "hc_pcs s ! t = Hc_idle" "hc_entry pc" "s' = s\<lparr>hc_pcs := (hc_pcs s)[t := pc]\<rparr>"
    by (simp_all split: if_splits)
  with inv_same_roles [OF 1(1), of t pc] entry_roles [of pc] show ?case by simp
next
  case (2 t i s)
  then obtain pc where pc: "t < length (hc_pcs s)" "i < length (hc_buckets s)" "hc_next i (hc_pcs s ! t) = Some pc"
    "s' = s\<lparr>hc_pcs := (hc_pcs s)[t := pc]\<rparr>"
    by (auto split: if_splits)
  have "hc_pc_ok (length (hc_buckets s)) (hc_pcs s ! t)" using 2(1) pc(1) by (simp add: hc_inv_def)
  note r = next_roles [OF pc(3) this pc(2)]
  show ?case unfolding pc(4) using r by (intro inv_same_roles [OF 2(1) pc(1)]) blast+
next
  case (3 t s)
  then obtain pc rs where pc: "t < length (hc_pcs s)" "hc_loop_end (hc_pcs s ! t) = Some (pc, rs)"
    "s' = s\<lparr>hc_pcs := (hc_pcs s)[t := pc], hc_results := hc_results s @ map (Pair t) rs\<rparr>"
    by (auto split: if_splits)
  have "hc_pc_ok (length (hc_buckets s)) (hc_pcs s ! t)" using 3(1) pc(1) by (simp add: hc_inv_def)
  note r = loop_end_roles [OF pc(2) this]
  show ?case unfolding pc(3) hc_inv_results using r by (intro inv_same_roles [OF 3(1) pc(1)]) blast+
next
  case (4 t s)
  then show ?case
    using guard_bucket_occupied [OF 4(1), of t] by (auto split: if_splits hc_pc.splits)
next
  case (5 t s)
  then obtain i where t: "t < length (hc_pcs s)" "hc_target (hc_pcs s ! t) = Some i"
    by (auto split: if_splits option.splits)
  obtain pc b eff where move: "hc_move (hc_pcs s ! t) (hc_buckets s ! i) = (pc, b, eff)"
    by (cases "hc_move (hc_pcs s ! t) (hc_buckets s ! i)") auto
  have "s' = hc_note t eff (s\<lparr>hc_pcs := (hc_pcs s)[t := pc], hc_buckets := (hc_buckets s)[i := b]\<rparr>)"
    using 5 t move by simp
  with bucket_step_inv [OF 5(1) t move] show ?case by simp
qed

interpretation hc: invariant_system hc_step hc_inv
  by unfold_locales (rule hc_step_inv)

lemma bucket_counts:
  assumes "bucket_ok h R b"
  shows "unat (refcount (b_state b)) = h + count R Marking \<and> size R \<le> 1 \<and> bstate (b_state b) \<noteq> Destructing"
  using assms by (cases "bstate (b_state b)") (auto simp: bucket_ok_def)

lemma sum_values: "sum_list (map val_mset bs) = mset (List.map_filter b_val bs)"
  by (induction bs) (simp_all add: val_mset_def List.map_filter_simps split: option.splits)

section \<open>What every interleaving keeps\<close>


text \<open>A guard refuses the removal of its pair; when it is gone, the removal takes the value out.\<close>

definition guarded_removal :: "(nat, nat) hc_action list" where
  "guarded_removal =
     [Hc_call 0 (Hc_ins_next 5 50), Hc_visit 0 1, Hc_thread 0, Hc_call 1 (Hc_get_next 5), Hc_thread 0, Hc_thread 0, Hc_visit 1 1,
      Hc_thread 1, Hc_thread 1, Hc_call 0 (Hc_rem_next 5), Hc_visit 0 1, Hc_thread 0, Hc_thread 0, Hc_thread 0, Hc_read 1, Hc_thread 0,
      Hc_thread 0, Hc_thread 0, Hc_read 1, Hc_thread 1, Hc_call 0 (Hc_rem_next 5), Hc_visit 0 1] @ replicate 6 (Hc_thread 0)"


section \<open>Two pairs under one key\<close>

text \<open>
  Thread 1 has passed the first bucket of its key when that bucket becomes a tombstone and thread 0 claims it for the same
  key. Both look at the next bucket while it is empty: thread 0 ends there and fills the one it has claimed, thread 1 fills the
  next. The buckets are those of the probe sequence of both keys, and both calls have told their caller that the key was new.
\<close>

definition duplicate_inserts :: "(nat \<Rightarrow> u64) \<Rightarrow> (nat, nat) hc_action list" where
  "duplicate_inserts h =
     [Hc_call 0 (Hc_ins_next 5 50), Hc_visit 0 (probe h 5 64 0), Hc_thread 0, Hc_thread 0, Hc_thread 0] @
     [Hc_call 1 (Hc_ins_next 7 70), Hc_visit 1 (probe h 7 64 0), Hc_thread 1, Hc_thread 1, Hc_thread 1, Hc_thread 1] @
     [Hc_call 0 (Hc_rem_next 5), Hc_visit 0 (probe h 5 64 0), Hc_thread 0, Hc_thread 0, Hc_thread 0, Hc_thread 0, Hc_thread 0,
      Hc_thread 0] @
     [Hc_call 0 (Hc_ins_next 7 71), Hc_visit 0 (probe h 7 64 0), Hc_thread 0, Hc_thread 0, Hc_visit 0 (probe h 7 64 1), Hc_thread 0] @
     [Hc_visit 1 (probe h 7 64 1), Hc_thread 1, Hc_thread 1, Hc_thread 1, Hc_thread 0, Hc_thread 0]"

lemma probe_example: "probe (\<lambda>_. 0) k 64 0 = 0" "probe (\<lambda>_. 0) k 64 (Suc 0) = 45"
  by (simp_all add: probe_def hash1_def hash2_def mix64_def)

lemma hash_map_duplicate_keys:
  "\<exists>s. run hc_step (duplicate_inserts (\<lambda>_. 0)) (hc_new 64 2) = Some s \<and>
     hc_results s = [(0, Hr_inserted), (0, Hr_removed), (1, Hr_inserted), (0, Hr_inserted)] \<and>
     hc_buckets s ! 0 = \<lparr>b_state = bucket_state 0 Filled, b_key = Some 7, b_val = Some 71\<rparr> \<and>
     hc_buckets s ! 45 = \<lparr>b_state = bucket_state 0 Filled, b_key = Some 7, b_val = Some 70\<rparr>"
  by (simp add: duplicate_inserts_def probe_example hc_new_def bucket_new_def hc_entry_def hc_next_def hc_move_simps hc_note_def
      ref_up_def release_ref_def Let_def)

end
