(* ===== verification/Ring_Queue.thy ===== *)
theory Ring_Queue
  imports Asco_Prelude "HOL-Library.Multiset"
begin

text \<open>
  \<open>asco/concurrency/ring_queue.h\<close>: the bounded multi-producer multi-consumer queue. Each
  atomic access of \<open>try_send\<close> and \<open>try_recv\<close> is one step of the calling thread; the program
  counter keeps the locals. The same steps, taken by one thread until it returns, give the
  operation without interference. Indices are natural numbers: they stay below
  \<open>size = Cap + 1\<close>, and the constraint \<open>Cap != max\<close> keeps \<open>Cap + 1\<close> and \<open>index + 1\<close> in range.
\<close>

section \<open>Storage\<close>

datatype slot_state = S_empty | S_constructing | S_filled | S_deconstructing | S_exception

record 'a storage =
  q_head :: nat
  q_tail :: nat
  slots :: "'a option list"
  slot_states :: "slot_state list"

definition storage_new :: "nat \<Rightarrow> 'a storage" where
  "storage_new cap = \<lparr>q_head = 0, q_tail = 0, slots = replicate (cap + 1) None,
                      slot_states = replicate (cap + 1) S_empty\<rparr>"

abbreviation q_size :: "'a storage \<Rightarrow> nat" where
  "q_size q \<equiv> length (slots q)"

text \<open>The destructor destroys what the filled slots hold.\<close>

definition storage_dtor :: "'a storage \<Rightarrow> 'a storage" where
  "storage_dtor q =
     q\<lparr>slots := map (\<lambda>i. if slot_states q ! i = S_filled then None else slots q ! i) [0 ..< q_size q]\<rparr>"

text \<open>
  Where a slot and its state lie in memory: in which pack, and at which place in it.
  \<open>raw_size\<close> is \<open>sizeof(raw_storage<T>)\<close>, \<open>cacheline\<close> the constant of \<open>util/consts.h\<close>.
\<close>

definition slot_pack_cap :: "nat \<Rightarrow> nat \<Rightarrow> nat" where
  "slot_pack_cap cacheline raw_size =
     (let cache_line_cap = cacheline div raw_size in if cache_line_cap \<noteq> 0 then cache_line_cap else 1)"

definition packs :: "nat \<Rightarrow> nat \<Rightarrow> nat" where
  "packs sz pack_cap = (sz + pack_cap - 1) div pack_cap"

definition at_slot :: "nat \<Rightarrow> nat \<Rightarrow> nat \<Rightarrow> nat \<Rightarrow> nat \<times> nat" where
  "at_slot cacheline raw_size sz index =
     (let buffer_cap = packs sz (slot_pack_cap cacheline raw_size) in
      if cacheline div raw_size = 0 then (index, 0)
      else (index mod buffer_cap, index div buffer_cap))"

definition state_at :: "nat \<Rightarrow> nat \<Rightarrow> nat \<Rightarrow> nat \<times> nat" where
  "state_at cacheline sz index =
     (let slot_states_cap = packs sz cacheline in (index mod slot_states_cap, index div slot_states_cap))"

section \<open>Sending and receiving\<close>

datatype 'a q_pc =
    Q_idle
  | Send_load_head 'a
  | Send_load_tail 'a nat
  | Send_check_tail 'a nat nat
  | Send_check_head 'a nat nat
  | Send_claim 'a nat
  | Send_advance 'a nat
  | Send_unclaim 'a nat
  | Send_construct 'a nat
  | Send_publish nat
  | Send_throw nat
  | Recv_load_head
  | Recv_load_tail nat
  | Recv_race nat nat
  | Recv_claim nat nat
  | Recv_clear nat
  | Recv_skip nat
  | Recv_advance nat
  | Recv_move nat
  | Recv_release nat "'a option"
  | Sent "'a option"
  | Received "'a option"
  | Raised
  | Undefined

definition set_state :: "nat \<Rightarrow> slot_state \<Rightarrow> 'a storage \<Rightarrow> 'a storage" where
  "set_state i s q = q\<lparr>slot_states := (slot_states q)[i := s]\<rparr>"

definition set_slot :: "nat \<Rightarrow> 'a option \<Rightarrow> 'a storage \<Rightarrow> 'a storage" where
  "set_slot i v q = q\<lparr>slots := (slots q)[i := v]\<rparr>"

text \<open>
  \<open>try_send\<close>. \<open>Sent (Some v)\<close> hands the value back (the queue was full), \<open>Sent None\<close> is
  success. \<open>throws\<close> says whether the move constructor of the value throws at this step.
\<close>

definition send_step :: "bool \<Rightarrow> 'a q_pc \<Rightarrow> 'a storage \<Rightarrow> 'a q_pc \<times> 'a storage" where
  "send_step throws pc q =
     (case pc of
        Send_load_head v \<Rightarrow> (Send_load_tail v (q_head q), q)
      | Send_load_tail v h \<Rightarrow>
          (let t = q_tail q in
           if (t + 1) mod q_size q = h then (Sent (Some v), q) else (Send_check_tail v h t, q))
      | Send_check_tail v h t \<Rightarrow>
          if t = q_tail q then (Send_check_head v h t, q) else (Send_load_head v, q)
      | Send_check_head v h t \<Rightarrow>
          if h = q_head q then (Send_claim v t, q) else (Send_load_head v, q)
      | Send_claim v t \<Rightarrow>
          if slot_states q ! t = S_empty then (Send_advance v t, set_state t S_constructing q)
          else (Send_load_head v, q)
      | Send_advance v t \<Rightarrow>
          if q_tail q = t then (Send_construct v t, q\<lparr>q_tail := (t + 1) mod q_size q\<rparr>)
          else (Send_unclaim v t, q)
      | Send_unclaim v t \<Rightarrow> (Send_load_head v, set_state t S_empty q)
      | Send_construct v t \<Rightarrow>
          if throws then (Send_throw t, q) else (Send_publish t, set_slot t (Some v) q)
      | Send_publish t \<Rightarrow> (Sent None, set_state t S_filled q)
      | Send_throw t \<Rightarrow> (Raised, set_state t S_exception q)
      | _ \<Rightarrow> (pc, q))"

text \<open>
  \<open>try_recv\<close>. \<open>throws\<close> says whether moving the value out throws (then the object stays in the
  slot). \<open>Undefined\<close>: moving out of a slot without an object.
\<close>

definition recv_step :: "bool \<Rightarrow> 'a q_pc \<Rightarrow> 'a storage \<Rightarrow> 'a q_pc \<times> 'a storage" where
  "recv_step throws pc q =
     (case pc of
        Recv_load_head \<Rightarrow> (Recv_load_tail (q_head q), q)
      | Recv_load_tail h \<Rightarrow> (Recv_race h (q_tail q), q)
      | Recv_race h t \<Rightarrow>
          if h = t then (Received None, q)
          else if h = q_head q then (Recv_claim h t, q)
          else (Recv_load_head, q)
      | Recv_claim h t \<Rightarrow>
          (case slot_states q ! h of
             S_filled \<Rightarrow> (Recv_advance h, set_state h S_deconstructing q)
           | S_exception \<Rightarrow> (Recv_clear h, q)
           | S_constructing \<Rightarrow> (Received None, q)
           | _ \<Rightarrow> (Recv_race ((h + 1) mod q_size q) t, q))
      | Recv_clear h \<Rightarrow> (Recv_skip h, set_state h S_empty q)
      | Recv_skip h \<Rightarrow>
          (Recv_load_head, if q_head q = h then q\<lparr>q_head := (h + 1) mod q_size q\<rparr> else q)
      | Recv_advance h \<Rightarrow>
          if q_head q = h then (Recv_move h, q\<lparr>q_head := (h + 1) mod q_size q\<rparr>)
          else (Recv_advance h, q)
      | Recv_move h \<Rightarrow>
          (case slots q ! h of
             None \<Rightarrow> (Undefined, q)
           | Some v \<Rightarrow> if throws then (Recv_release h None, q)
                      else (Recv_release h (Some v), set_slot h None q))
      | Recv_release h r \<Rightarrow>
          (case r of None \<Rightarrow> Raised | Some v \<Rightarrow> Received (Some v), set_state h S_empty q)
      | _ \<Rightarrow> (pc, q))"

text \<open>The operations of a thread that runs alone and whose values do not throw.\<close>

partial_function (option) send_alone :: "'a q_pc \<Rightarrow> 'a storage \<Rightarrow> ('a option \<times> 'a storage) option" where
  "send_alone pc q =
     (case pc of
        Sent r \<Rightarrow> Some (r, q)
      | _ \<Rightarrow> (let (pc', q') = send_step False pc q in send_alone pc' q'))"

partial_function (option) recv_alone :: "'a q_pc \<Rightarrow> 'a storage \<Rightarrow> ('a option \<times> 'a storage) option" where
  "recv_alone pc q =
     (case pc of
        Received r \<Rightarrow> Some (r, q)
      | _ \<Rightarrow> (let (pc', q') = recv_step False pc q in recv_alone pc' q'))"

definition try_send :: "'a \<Rightarrow> 'a storage \<Rightarrow> ('a option \<times> 'a storage) option" where
  "try_send v q = send_alone (Send_load_head v) q"

definition try_recv :: "'a storage \<Rightarrow> ('a option \<times> 'a storage) option" where
  "try_recv q = recv_alone Recv_load_head q"

section \<open>The queue of nothing\<close>

text \<open>\<open>storage<void, Cap>\<close> only counts.\<close>

record void_storage =
  count :: nat

datatype void_pc = V_idle | V_send_load | V_send_cas nat | V_recv_load | V_recv_cas nat | V_done bool

definition void_step :: "nat \<Rightarrow> void_pc \<Rightarrow> void_storage \<Rightarrow> void_pc \<times> void_storage" where
  "void_step cap pc q =
     (case pc of
        V_send_load \<Rightarrow> if count q = cap then (V_done True, q) else (V_send_cas (count q), q)
      | V_send_cas c \<Rightarrow>
          if count q = c then (V_done False, q\<lparr>count := c + 1\<rparr>) else (V_send_load, q)
      | V_recv_load \<Rightarrow> if count q = 0 then (V_done False, q) else (V_recv_cas (count q), q)
      | V_recv_cas c \<Rightarrow>
          if count q = c then (V_done True, q\<lparr>count := c - 1\<rparr>) else (V_recv_load, q)
      | _ \<Rightarrow> (pc, q))"

partial_function (option) void_alone :: "nat \<Rightarrow> void_pc \<Rightarrow> void_storage \<Rightarrow> (bool \<times> void_storage) option" where
  "void_alone cap pc q =
     (case pc of
        V_done r \<Rightarrow> Some (r, q)
      | _ \<Rightarrow> (let (pc', q') = void_step cap pc q in void_alone cap pc' q'))"

text \<open>\<open>true\<close> from \<open>try_send\<close> means full; \<open>true\<close> from \<open>try_recv\<close> means received.\<close>

definition void_try_send :: "nat \<Rightarrow> void_storage \<Rightarrow> (bool \<times> void_storage) option" where
  "void_try_send cap q = void_alone cap V_send_load q"

definition void_try_recv :: "nat \<Rightarrow> void_storage \<Rightarrow> (bool \<times> void_storage) option" where
  "void_try_recv cap q = void_alone cap V_recv_load q"

end
