(* ===== verification/Ring_Queue_Spec.thy ===== *)
theory Ring_Queue_Spec
  imports Ring_Queue
begin

text \<open>
  Correctness of the ring queue: the memory layout, the FIFO contract \<open>bounded_queue\<close> for a
  thread that runs alone (met by the queue of values and by the counting queue), and what
  holds, and what does not, when any number of threads use the queue at once.
\<close>

section \<open>Layout\<close>

lemma packs_cover:
  assumes "0 < p"
  shows "n \<le> packs n p * p"
proof (cases n)
  case (Suc m)
  have "n + p - 1 = m + p" using Suc by simp
  then have "packs n p = m div p + 1" using assms unfolding packs_def by (metis div_add_self2 neq0_conv)
  moreover have "m < (m div p + 1) * p" using assms by (simp add: dividend_less_div_times)
  ultimately show ?thesis using Suc by simp
qed simp

lemma packs_position:
  assumes "0 < p" "i < n"
  shows "i mod packs n p < packs n p" "i div packs n p < p"
proof -
  have cover: "i < packs n p * p" using packs_cover [OF assms(1), of n] assms(2) by linarith
  then have "0 < packs n p" by (cases "packs n p") simp_all
  then show "i mod packs n p < packs n p" by simp
  show "i div packs n p < p" using cover by (simp add: less_mult_imp_div_less mult.commute)
qed

lemma mod_div_inj: "i mod (m :: nat) = j mod m \<Longrightarrow> i div m = j div m \<Longrightarrow> i = j"
  by (metis div_mult_mod_eq)

text \<open>
  The interleaved layout of slots and slot states is a layout: every index of the queue has
  its place inside the arrays, and no two indices share one, for every size of the queue, the
  value and the cache line.
\<close>

theorem slot_layout_injective:
  assumes "0 < cacheline" "i < n" "j < n"
  shows "(fst (at_slot cacheline raw_size n i) < packs n (slot_pack_cap cacheline raw_size) \<and>
      snd (at_slot cacheline raw_size n i) < slot_pack_cap cacheline raw_size \<and>
      fst (state_at cacheline n i) < packs n cacheline \<and> snd (state_at cacheline n i) < cacheline) \<and>
    (at_slot cacheline raw_size n i = at_slot cacheline raw_size n j \<longleftrightarrow> i = j) \<and>
    (state_at cacheline n i = state_at cacheline n j \<longleftrightarrow> i = j)"
proof -
  have p: "0 < slot_pack_cap cacheline raw_size" by (simp add: slot_pack_cap_def Let_def)
  have "i < packs n 1" using assms(2) by (simp add: packs_def)
  with packs_position [OF p assms(2)] packs_position [OF assms(1,2)] show ?thesis
    by (auto simp: at_slot_def state_at_def Let_def slot_pack_cap_def
        intro: mod_div_inj [of i _ j])
qed

theorem slot_layout_injective_witness:
  "at_slot 64 24 5 3 = (0, 1) \<and> at_slot 64 24 5 3 \<noteq> at_slot 64 24 5 4"
proof -
  have "at_slot 64 24 5 3 = at_slot 64 24 5 4 \<longleftrightarrow> (3 :: nat) = 4"
    using slot_layout_injective [of 64 3 5 4 24] by simp
  then show ?thesis by (simp add: at_slot_def packs_def slot_pack_cap_def)
qed

section \<open>One thread alone\<close>

lemma send_alone_steps:
  "send_alone (Send_load_head v) q = send_alone (Send_load_tail v (q_head q)) q"
  "send_alone (Send_load_tail v h) q =
     (if (q_tail q + 1) mod q_size q = h then Some (Some v, q)
      else send_alone (Send_check_tail v h (q_tail q)) q)"
  "t = q_tail q \<Longrightarrow> send_alone (Send_check_tail v h t) q = send_alone (Send_check_head v h t) q"
  "h = q_head q \<Longrightarrow> send_alone (Send_check_head v h t) q = send_alone (Send_claim v t) q"
  "slot_states q ! t = S_empty \<Longrightarrow>
     send_alone (Send_claim v t) q = send_alone (Send_advance v t) (set_state t S_constructing q)"
  "q_tail q = t \<Longrightarrow>
     send_alone (Send_advance v t) q = send_alone (Send_construct v t) (q\<lparr>q_tail := (t + 1) mod q_size q\<rparr>)"
  "send_alone (Send_construct v t) q = send_alone (Send_publish t) (set_slot t (Some v) q)"
  "send_alone (Send_publish t) q = Some (None, set_state t S_filled q)"
  by (subst send_alone.simps; simp add: send_step_def Let_def; (subst send_alone.simps; simp)?)+

lemma recv_alone_steps:
  "recv_alone Recv_load_head q = recv_alone (Recv_load_tail (q_head q)) q"
  "recv_alone (Recv_load_tail h) q = recv_alone (Recv_race h (q_tail q)) q"
  "h = q_head q \<Longrightarrow> recv_alone (Recv_race h t) q =
     (if h = t then Some (None, q) else recv_alone (Recv_claim h t) q)"
  "slot_states q ! h = S_filled \<Longrightarrow>
     recv_alone (Recv_claim h t) q = recv_alone (Recv_advance h) (set_state h S_deconstructing q)"
  "q_head q = h \<Longrightarrow>
     recv_alone (Recv_advance h) q = recv_alone (Recv_move h) (q\<lparr>q_head := (h + 1) mod q_size q\<rparr>)"
  "slots q ! h = Some v \<Longrightarrow>
     recv_alone (Recv_move h) q = recv_alone (Recv_release h (Some v)) (set_slot h None q)"
  "recv_alone (Recv_release h (Some v)) q = Some (Some v, set_state h S_empty q)"
  by (subst recv_alone.simps; simp add: recv_step_def Let_def; (subst recv_alone.simps; simp)?)+

text \<open>A queue nobody is using, with contents \<open>xs\<close>.\<close>

definition queue_holds :: "nat \<Rightarrow> 'a storage \<Rightarrow> 'a list \<Rightarrow> bool" where
  "queue_holds cap q xs \<longleftrightarrow>
     q_size q = cap + 1 \<and> length (slot_states q) = cap + 1 \<and> q_head q < cap + 1 \<and> length xs \<le> cap \<and>
     q_tail q = (q_head q + length xs) mod (cap + 1) \<and>
     (\<forall>i < cap + 1.
        (slots q ! ((q_head q + i) mod (cap + 1)), slot_states q ! ((q_head q + i) mod (cap + 1))) =
        (if i < length xs then (Some (xs ! i), S_filled) else (None, S_empty)))"

lemma wrap: "h < n \<Longrightarrow> i \<le> n \<Longrightarrow> (h + i) mod n = (if h + i < n then h + i else h + i - n)" for h n i :: nat
  by (auto simp: mod_if)

lemma wrap_inj: "h < n \<Longrightarrow> i < n \<Longrightarrow> j < n \<Longrightarrow> (h + i) mod n = (h + j) mod n \<longleftrightarrow> i = j" for h n i j :: nat
  by (auto simp: wrap split: if_splits)

lemma queue_full_iff:
  assumes "queue_holds cap q xs"
  shows "(q_tail q + 1) mod q_size q = q_head q \<longleftrightarrow> length xs = cap"
proof -
  from assms have q: "q_head q < cap + 1" "length xs \<le> cap" "q_size q = cap + 1"
    "q_tail q = (q_head q + length xs) mod (cap + 1)" by (simp_all add: queue_holds_def)
  have "(q_tail q + 1) mod q_size q = (q_head q + (length xs + 1)) mod (cap + 1)"
    using q(3,4) by (simp add: mod_simps)
  also have "\<dots> = q_head q \<longleftrightarrow> length xs = cap"
    using q(1,2) by (subst wrap) auto
  finally show ?thesis .
qed

lemma try_send_full:
  "queue_holds cap q xs \<Longrightarrow> length xs = cap \<Longrightarrow> try_send v q = Some (Some v, q)"
  using queue_full_iff [of cap q xs] by (simp add: try_send_def send_alone_steps)

lemma try_send_room:
  assumes q: "queue_holds cap q xs" and room: "length xs < cap"
  shows "\<exists>q'. try_send v q = Some (None, q') \<and> queue_holds cap q' (xs @ [v])"
proof -
  let ?t = "q_tail q"
  let ?q = "q\<lparr>q_tail := (?t + 1) mod (cap + 1), slots := (slots q)[?t := Some v],
             slot_states := (slot_states q)[?t := S_filled]\<rparr>"
  from q have h: "q_size q = cap + 1" "length (slot_states q) = cap + 1" "q_head q < cap + 1"
    "?t = (q_head q + length xs) mod (cap + 1)"
    and at: "\<And>i. i < cap + 1 \<Longrightarrow>
      (slots q ! ((q_head q + i) mod (cap + 1)), slot_states q ! ((q_head q + i) mod (cap + 1))) =
        (if i < length xs then (Some (xs ! i), S_filled) else (None, S_empty))"
    by (simp_all add: queue_holds_def)
  have "slot_states q ! ?t = S_empty" using at [of "length xs"] h(4) room by simp
  moreover have "(?t + 1) mod q_size q \<noteq> q_head q" using queue_full_iff [OF q] room by simp
  ultimately have "try_send v q = Some (None, ?q)"
    using h(1) by (simp add: try_send_def send_alone_steps set_state_def set_slot_def)
  moreover have "queue_holds cap ?q (xs @ [v])"
    unfolding queue_holds_def
  proof (intro conjI allI impI)
    show "q_tail ?q = (q_head ?q + length (xs @ [v])) mod (cap + 1)" using h(4) by (simp add: mod_simps)
    fix i
    assume i: "i < cap + 1"
    show "(slots ?q ! ((q_head ?q + i) mod (cap + 1)), slot_states ?q ! ((q_head ?q + i) mod (cap + 1))) =
        (if i < length (xs @ [v]) then (Some ((xs @ [v]) ! i), S_filled) else (None, S_empty))"
      using at [OF i] wrap_inj [OF h(3) i, of "length xs"] room h i
      by (cases "i = length xs") (auto simp: nth_append)
  qed (use h room in simp_all)
  ultimately show ?thesis by blast
qed

lemma try_recv_empty: "queue_holds cap q [] \<Longrightarrow> try_recv q = Some (None, q)"
  by (simp add: try_recv_def recv_alone_steps queue_holds_def)

lemma try_recv_first:
  assumes q: "queue_holds cap q (x # xs)"
  shows "\<exists>q'. try_recv q = Some (Some x, q') \<and> queue_holds cap q' xs"
proof -
  let ?h = "q_head q"
  let ?q = "q\<lparr>q_head := (?h + 1) mod (cap + 1), slots := (slots q)[?h := None],
             slot_states := (slot_states q)[?h := S_empty]\<rparr>"
  from q have h: "q_size q = cap + 1" "length (slot_states q) = cap + 1" "?h < cap + 1"
    "q_tail q = (?h + (length xs + 1)) mod (cap + 1)" "length xs < cap"
    and at: "\<And>i. i < cap + 1 \<Longrightarrow>
      (slots q ! ((?h + i) mod (cap + 1)), slot_states q ! ((?h + i) mod (cap + 1))) =
        (if i < length (x # xs) then (Some ((x # xs) ! i), S_filled) else (None, S_empty))"
    by (simp_all add: queue_holds_def)
  have ne: "?h \<noteq> q_tail q"
    using wrap_inj [OF h(3), of 0 "length xs + 1"] h(3-5) by simp
  have "slot_states q ! ?h = S_filled" "slots q ! ?h = Some x" using at [of 0] h(3) by simp_all
  then have "try_recv q = Some (Some x, ?q)"
    using h(1,3) ne by (simp add: try_recv_def recv_alone_steps set_state_def set_slot_def)
  moreover have "queue_holds cap ?q xs"
    unfolding queue_holds_def
  proof (intro conjI allI impI)
    show "q_tail ?q = (q_head ?q + length xs) mod (cap + 1)" using h(4) by (simp add: mod_simps)
    fix i
    assume i: "i < cap + 1"
    have pos: "(q_head ?q + i) mod (cap + 1) = (?h + (i + 1)) mod (cap + 1)" by (simp add: mod_simps)
    show "(slots ?q ! ((q_head ?q + i) mod (cap + 1)), slot_states ?q ! ((q_head ?q + i) mod (cap + 1))) =
        (if i < length xs then (Some (xs ! i), S_filled) else (None, S_empty))"
    proof (cases "i = cap")
      case True
      then have "(?h + (i + 1)) mod (cap + 1) = ?h" using h(3) by (subst wrap) simp_all
      with True h show ?thesis unfolding pos by simp
    next
      case False
      with i have i1: "i + 1 < cap + 1" by simp
      then have "(?h + (i + 1)) mod (cap + 1) \<noteq> ?h"
        using wrap_inj [OF h(3) i1, of 0] h(3) by simp
      with at [OF i1] h show ?thesis unfolding pos by simp
    qed
  qed (use h in simp_all)
  ultimately show ?thesis by blast
qed

section \<open>The contract of a bounded queue\<close>

datatype 'a queue_op = Enqueue 'a | Dequeue

text \<open>Both operations answer with an optional value: what was handed back, what was received.\<close>

fun spec_queue_op :: "nat \<Rightarrow> 'a queue_op \<Rightarrow> 'a list \<Rightarrow> 'a option \<times> 'a list" where
  "spec_queue_op cap (Enqueue v) xs = (if length xs = cap then (Some v, xs) else (None, xs @ [v]))"
| "spec_queue_op cap Dequeue xs = (case xs of [] \<Rightarrow> (None, []) | x # xs \<Rightarrow> (Some x, xs))"

fun spec_queue :: "nat \<Rightarrow> 'a queue_op list \<Rightarrow> 'a list \<Rightarrow> 'a option list \<times> 'a list" where
  "spec_queue cap [] xs = ([], xs)"
| "spec_queue cap (p # ps) xs =
     (let (r, ys) = spec_queue_op cap p xs; (rs, zs) = spec_queue cap ps ys in (r # rs, zs))"

fun exec_queue :: "('a \<Rightarrow> 's \<Rightarrow> ('a option \<times> 's) option) \<Rightarrow> ('s \<Rightarrow> ('a option \<times> 's) option) \<Rightarrow>
    'a queue_op list \<Rightarrow> 's \<Rightarrow> ('a option list \<times> 's) option" where
  "exec_queue enq deq [] s = Some ([], s)"
| "exec_queue enq deq (p # ps) s =
     (case (case p of Enqueue v \<Rightarrow> enq v s | Dequeue \<Rightarrow> deq s) of
        None \<Rightarrow> None
      | Some (r, s) \<Rightarrow> map_option (apfst (Cons r)) (exec_queue enq deq ps s))"

locale bounded_queue =
  fixes contents :: "'s \<Rightarrow> 'a list \<Rightarrow> bool"
    and enq :: "'a \<Rightarrow> 's \<Rightarrow> ('a option \<times> 's) option"
    and deq :: "'s \<Rightarrow> ('a option \<times> 's) option"
    and cap :: nat
  assumes enq_full: "contents s xs \<Longrightarrow> length xs = cap \<Longrightarrow> enq v s = Some (Some v, s)"
    and enq_room: "contents s xs \<Longrightarrow> length xs \<noteq> cap \<Longrightarrow>
      \<exists>s'. enq v s = Some (None, s') \<and> contents s' (xs @ [v])"
    and deq_empty: "contents s [] \<Longrightarrow> deq s = Some (None, s)"
    and deq_first: "contents s (x # xs) \<Longrightarrow> \<exists>s'. deq s = Some (Some x, s') \<and> contents s' xs"
begin

lemma exec_queue_refines:
  "contents s xs \<Longrightarrow>
   \<exists>s'. exec_queue enq deq ps s = Some (fst (spec_queue cap ps xs), s') \<and> contents s' (snd (spec_queue cap ps xs))"
proof (induction ps arbitrary: s xs)
  case (Cons p ps)
  let ?op = "case p of Enqueue v \<Rightarrow> enq v s | Dequeue \<Rightarrow> deq s"
  have "\<exists>t. ?op = Some (fst (spec_queue_op cap p xs), t) \<and> contents t (snd (spec_queue_op cap p xs))"
  proof (cases p)
    case (Enqueue v)
    with enq_full [OF Cons.prems] enq_room [OF Cons.prems] Cons.prems show ?thesis
      by (cases "length xs = cap") simp_all
  next
    case Dequeue
    with deq_empty [of s] deq_first [of s] Cons.prems show ?thesis by (cases xs) simp_all
  qed
  then obtain t where t: "?op = Some (fst (spec_queue_op cap p xs), t)"
      "contents t (snd (spec_queue_op cap p xs))" by blast
  from Cons.IH [OF t(2)] t(1) show ?case by (auto simp: Let_def split: prod.splits)
qed simp

end

interpretation rq: bounded_queue "queue_holds cap" try_send try_recv cap for cap
proof unfold_locales
  show "queue_holds cap s xs \<Longrightarrow> length xs = cap \<Longrightarrow> try_send v s = Some (Some v, s)" for s xs v
    by (rule try_send_full)
  show "queue_holds cap s xs \<Longrightarrow> length xs \<noteq> cap \<Longrightarrow>
      \<exists>s'. try_send v s = Some (None, s') \<and> queue_holds cap s' (xs @ [v])" for s xs v
    using try_send_room [of cap s xs v] by (simp add: queue_holds_def)
qed (erule try_recv_empty try_recv_first)+

lemma storage_new_holds: "queue_holds cap (storage_new cap) []"
  by (simp add: queue_holds_def storage_new_def del: replicate_Suc)

text \<open>
  C9: A thread that uses a new queue of capacity \<open>cap\<close> alone gets exactly a bounded first-in
  first-out queue: every \<open>try_send\<close> and \<open>try_recv\<close> returns, a send is refused (and hands the
  value back) exactly when \<open>cap\<close> values are queued, a receive is refused exactly when none is,
  and the values come out in the order in which they went in.
\<close>

theorem ring_queue_fifo:
  "\<exists>q. exec_queue try_send try_recv ps (storage_new cap) = Some (fst (spec_queue cap ps []), q) \<and>
     queue_holds cap q (snd (spec_queue cap ps []))"
  by (rule rq.exec_queue_refines) (rule storage_new_holds)

section \<open>The counting queue\<close>

definition void_holds :: "nat \<Rightarrow> void_storage \<Rightarrow> unit list \<Rightarrow> bool" where
  "void_holds cap q xs \<longleftrightarrow> count q = length xs \<and> length xs \<le> cap"

definition void_enq :: "nat \<Rightarrow> unit \<Rightarrow> void_storage \<Rightarrow> (unit option \<times> void_storage) option" where
  "void_enq cap v q = map_option (apfst (\<lambda>full. if full then Some v else None)) (void_try_send cap q)"

definition void_deq :: "nat \<Rightarrow> void_storage \<Rightarrow> (unit option \<times> void_storage) option" where
  "void_deq cap q = map_option (apfst (\<lambda>got. if got then Some () else None)) (void_try_recv cap q)"

lemma void_alone_steps:
  "void_alone cap V_send_load q =
     (if count q = cap then Some (True, q) else Some (False, \<lparr>count = count q + 1\<rparr>))"
  "void_alone cap V_recv_load q =
     (if count q = 0 then Some (False, q) else Some (True, \<lparr>count = count q - 1\<rparr>))"
  by (subst void_alone.simps; simp add: void_step_def; subst void_alone.simps;
      simp add: void_step_def; subst void_alone.simps; simp)+

interpretation vq: bounded_queue "void_holds cap" "void_enq cap" "void_deq cap" cap for cap
  by unfold_locales
    (auto simp: void_holds_def void_enq_def void_deq_def void_try_send_def void_try_recv_def void_alone_steps)

text \<open>
  The counting queue that replaces the ring for \<open>void\<close> behaves as the same bounded queue
  does on values without content.
\<close>

theorem void_queue_fifo:
  "\<exists>q. exec_queue (void_enq cap) (void_deq cap) ps \<lparr>count = 0\<rparr> =
       Some (fst (spec_queue cap ps []), q) \<and>
     count q = length (snd (spec_queue cap ps []))"
  using vq.exec_queue_refines [of cap "\<lparr>count = 0\<rparr>" "[]" ps] by (auto simp: void_holds_def)

section \<open>Any number of threads\<close>

text \<open>
  The threads of a system are senders and receivers in any state of their operations;
  \<open>accepted\<close> collects the values whose sends went through, \<open>delivered\<close> those received.
\<close>

record 'a rq_sys =
  stor :: "'a storage"
  q_pcs :: "'a q_pc list"
  accepted :: "'a list"
  delivered :: "'a list"

datatype 'a rq_action =
    Call_send nat 'a
  | Call_recv nat
  | Q_thread nat bool

definition q_finished :: "'a q_pc \<Rightarrow> bool" where
  "q_finished pc = (case pc of Q_idle \<Rightarrow> True | Sent _ \<Rightarrow> True | Received _ \<Rightarrow> True | Raised \<Rightarrow> True | _ \<Rightarrow> False)"

definition is_send_pc :: "'a q_pc \<Rightarrow> bool" where
  "is_send_pc pc = (case pc of
      Send_load_head _ \<Rightarrow> True | Send_load_tail _ _ \<Rightarrow> True | Send_check_tail _ _ _ \<Rightarrow> True
    | Send_check_head _ _ _ \<Rightarrow> True | Send_claim _ _ \<Rightarrow> True | Send_advance _ _ \<Rightarrow> True
    | Send_unclaim _ _ \<Rightarrow> True | Send_construct _ _ \<Rightarrow> True | Send_publish _ \<Rightarrow> True
    | Send_throw _ \<Rightarrow> True | _ \<Rightarrow> False)"

definition q_thread_step :: "bool \<Rightarrow> 'a q_pc \<Rightarrow> 'a storage \<Rightarrow> 'a q_pc \<times> 'a storage" where
  "q_thread_step throws pc q = (if is_send_pc pc then send_step throws pc q else recv_step throws pc q)"

text \<open>What a step adds to the two logs.\<close>

definition newly_accepted :: "'a q_pc \<Rightarrow> 'a q_pc \<Rightarrow> 'a list" where
  "newly_accepted pc pc' = (case (pc, pc') of (Send_construct v _, Send_publish _) \<Rightarrow> [v] | _ \<Rightarrow> [])"

definition newly_delivered :: "'a q_pc \<Rightarrow> 'a q_pc \<Rightarrow> 'a list" where
  "newly_delivered pc pc' = (case (pc, pc') of (Recv_move _, Recv_release _ (Some v)) \<Rightarrow> [v] | _ \<Rightarrow> [])"

fun rq_step :: "'a rq_action \<Rightarrow> 'a rq_sys \<Rightarrow> 'a rq_sys option" where
  "rq_step (Call_send t v) s =
     (if t < length (q_pcs s) \<and> q_finished (q_pcs s ! t)
      then Some (s\<lparr>q_pcs := (q_pcs s)[t := Send_load_head v]\<rparr>) else None)"
| "rq_step (Call_recv t) s =
     (if t < length (q_pcs s) \<and> q_finished (q_pcs s ! t)
      then Some (s\<lparr>q_pcs := (q_pcs s)[t := Recv_load_head]\<rparr>) else None)"
| "rq_step (Q_thread t throws) s =
     (if t < length (q_pcs s) \<and> \<not> q_finished (q_pcs s ! t)
      then (let pc = q_pcs s ! t; (pc', q) = q_thread_step throws pc (stor s) in
            Some \<lparr>stor = q, q_pcs = (q_pcs s)[t := pc'],
                  accepted = accepted s @ newly_accepted pc pc',
                  delivered = delivered s @ newly_delivered pc pc'\<rparr>)
      else None)"

definition rq_init :: "nat \<Rightarrow> nat \<Rightarrow> 'a rq_sys" where
  "rq_init cap n = \<lparr>stor = storage_new cap, q_pcs = replicate n Q_idle, accepted = [], delivered = []\<rparr>"

text \<open>
  The check that the queue is not full can be overtaken. If, between the checks of a sender
  and its claim of the slot, the other threads take the queue once round, the sender's
  compare-exchanges still succeed: with capacity 1 the queue then holds two values while
  \<open>head = tail\<close>, so that \<open>try_recv\<close> reports an empty queue, and a further \<open>try_send\<close> spins on
  the filled slot at \<open>tail\<close>.
\<close>

theorem ring_queue_overtaken_full_check:
  "\<exists>as s. run rq_step as (rq_init 1 2) = Some s \<and>
     list_all q_finished (q_pcs s) \<and>
     accepted s = [v1, v2, v3] \<and> delivered s = [v1] \<and>
     map_option fst (try_recv (stor s)) = Some None \<and>
     (\<forall>v. send_alone (Send_load_head v) (stor s) = send_alone (Send_claim v (q_tail (stor s))) (stor s)) \<and>
     send_step False (Send_claim v (q_tail (stor s))) (stor s) = (Send_load_head v, stor s)"
proof -
  let ?send = "\<lambda>t. replicate 8 (Q_thread t False)"
  let ?as = "Call_send 0 v3 # replicate 4 (Q_thread 0 False) @
    (Call_send 1 v1 # ?send 1) @ (Call_recv 1 # replicate 7 (Q_thread 1 False)) @
    (Call_send 1 v2 # ?send 1) @ replicate 4 (Q_thread 0 False)"
  have "\<exists>s. run rq_step ?as (rq_init 1 2) = Some s \<and>
     list_all q_finished (q_pcs s) \<and>
     accepted s = [v1, v2, v3] \<and> delivered s = [v1] \<and>
     map_option fst (try_recv (stor s)) = Some None \<and>
     (\<forall>v. send_alone (Send_load_head v) (stor s) = send_alone (Send_claim v (q_tail (stor s))) (stor s)) \<and>
     send_step False (Send_claim v (q_tail (stor s))) (stor s) = (Send_load_head v, stor s)"
    by (simp add: rq_init_def storage_new_def q_finished_def is_send_pc_def q_thread_step_def send_step_def
        recv_step_def set_state_def set_slot_def newly_accepted_def newly_delivered_def Let_def
        try_recv_def recv_alone_steps send_alone_steps numeral_eq_Suc)
  then show ?thesis by blast
qed

text \<open>
  Ownership of slots: the slot a thread has claimed, the state the slot is in meanwhile, and
  whether an object lives in it.
\<close>

fun owned :: "'a q_pc \<Rightarrow> (nat \<times> slot_state \<times> bool) option" where
  "owned (Send_advance v t) = Some (t, S_constructing, False)"
| "owned (Send_unclaim v t) = Some (t, S_constructing, False)"
| "owned (Send_construct v t) = Some (t, S_constructing, False)"
| "owned (Send_publish t) = Some (t, S_constructing, True)"
| "owned (Recv_advance h) = Some (h, S_deconstructing, True)"
| "owned (Recv_move h) = Some (h, S_deconstructing, True)"
| "owned (Recv_release h r) = Some (h, S_deconstructing, False)"
| "owned pc = None"

text \<open>Indices kept by threads are in range, and nothing has gone wrong.\<close>

fun pc_wf :: "nat \<Rightarrow> 'a q_pc \<Rightarrow> bool" where
  "pc_wf n (Send_check_tail v h t) = (t < n)"
| "pc_wf n (Send_check_head v h t) = (t < n)"
| "pc_wf n (Send_claim v t) = (t < n)"
| "pc_wf n (Send_throw t) = False"
| "pc_wf n (Recv_load_tail h) = (h < n)"
| "pc_wf n (Recv_race h t) = (h < n)"
| "pc_wf n (Recv_claim h t) = (h < n)"
| "pc_wf n (Recv_clear h) = False"
| "pc_wf n (Recv_skip h) = False"
| "pc_wf n (Recv_release h r) = (r \<noteq> None)"
| "pc_wf n Raised = False"
| "pc_wf n Undefined = False"
| "pc_wf n pc = True"

definition slot_is :: "'a storage \<Rightarrow> nat \<Rightarrow> slot_state \<Rightarrow> bool \<Rightarrow> bool" where
  "slot_is q i st live \<longleftrightarrow> slot_states q ! i = st \<and> (slots q ! i \<noteq> None) = live"

definition slots_owned :: "'a storage \<Rightarrow> 'a q_pc list \<Rightarrow> bool" where
  "slots_owned q pcs \<longleftrightarrow>
     0 < q_size q \<and> length (slot_states q) = q_size q \<and> q_head q < q_size q \<and> q_tail q < q_size q \<and>
     (\<forall>pc \<in> set pcs. pc_wf (q_size q) pc) \<and>
     (\<forall>t i st live. t < length pcs \<longrightarrow> owned (pcs ! t) = Some (i, st, live) \<longrightarrow>
        i < q_size q \<and> slot_is q i st live) \<and>
     (\<forall>t u. t < length pcs \<longrightarrow> u < length pcs \<longrightarrow> t \<noteq> u \<longrightarrow> owned (pcs ! t) \<noteq> None \<longrightarrow>
        map_option fst (owned (pcs ! t)) \<noteq> map_option fst (owned (pcs ! u))) \<and>
     (\<forall>i < q_size q. i \<notin> fst ` (set (List.map_filter owned pcs)) \<longrightarrow>
        slot_is q i S_empty False \<or> slot_is q i S_filled True)"

definition slot_values :: "'a storage \<Rightarrow> 'a multiset" where
  "slot_values q = mset (List.map_filter (\<lambda>v. v) (slots q))"

definition rq_inv :: "'a rq_sys \<Rightarrow> bool" where
  "rq_inv s \<longleftrightarrow> slots_owned (stor s) (q_pcs s) \<and>
     mset (accepted s) = mset (delivered s) + slot_values (stor s)"

lemma owned_state: "owned pc = Some (i, st, live) \<Longrightarrow> st = S_constructing \<or> st = S_deconstructing"
  by (cases pc) auto

lemma owner_iff:
  "i \<in> fst ` set (List.map_filter owned pcs) \<longleftrightarrow>
     (\<exists>t < length pcs. map_option fst (owned (pcs ! t)) = Some i)"
  by (force simp: List.map_filter_def in_set_conv_nth image_iff)

lemma slots_ownedI:
  assumes "0 < q_size q" "length (slot_states q) = q_size q" "q_head q < q_size q" "q_tail q < q_size q"
    and "\<And>t. t < length pcs \<Longrightarrow> pc_wf (q_size q) (pcs ! t)"
    and "\<And>t i st live. t < length pcs \<Longrightarrow> owned (pcs ! t) = Some (i, st, live) \<Longrightarrow>
        i < q_size q \<and> slot_is q i st live"
    and "\<And>t u i. t < length pcs \<Longrightarrow> u < length pcs \<Longrightarrow> map_option fst (owned (pcs ! t)) = Some i \<Longrightarrow>
        map_option fst (owned (pcs ! u)) = Some i \<Longrightarrow> t = u"
    and "\<And>i. i < q_size q \<Longrightarrow> (\<And>t. t < length pcs \<Longrightarrow> map_option fst (owned (pcs ! t)) \<noteq> Some i) \<Longrightarrow>
        slot_is q i S_empty False \<or> slot_is q i S_filled True"
  shows "slots_owned q pcs"
  unfolding slots_owned_def
proof (intro conjI allI impI ballI)
  show "pc_wf (q_size q) pc" if "pc \<in> set pcs" for pc
    using that assms(5) by (auto simp: in_set_conv_nth)
  show "map_option fst (owned (pcs ! t)) \<noteq> map_option fst (owned (pcs ! u))"
    if "t < length pcs" "u < length pcs" "t \<noteq> u" "owned (pcs ! t) \<noteq> None" for t u
  proof
    assume eq: "map_option fst (owned (pcs ! t)) = map_option fst (owned (pcs ! u))"
    from that(4) obtain i where "map_option fst (owned (pcs ! t)) = Some i" by auto
    moreover from this have "map_option fst (owned (pcs ! u)) = Some i" by (simp only: eq)
    ultimately have "t = u" by (rule assms(7) [OF that(1,2)])
    with that(3) show False by simp
  qed
  show "slot_is q i S_empty False \<or> slot_is q i S_filled True"
    if "i < q_size q" "i \<notin> fst ` set (List.map_filter owned pcs)" for i
    using assms(8) [of i] that unfolding owner_iff by blast
qed (use assms(1-4,6) in blast)+

lemma slots_ownedD:
  assumes "slots_owned q pcs"
  shows "0 < q_size q" "length (slot_states q) = q_size q" "q_head q < q_size q" "q_tail q < q_size q"
    and "\<And>t. t < length pcs \<Longrightarrow> pc_wf (q_size q) (pcs ! t)"
    and "\<And>t i st live. t < length pcs \<Longrightarrow> owned (pcs ! t) = Some (i, st, live) \<Longrightarrow>
        i < q_size q \<and> slot_is q i st live"
    and "\<And>t u i. t < length pcs \<Longrightarrow> u < length pcs \<Longrightarrow> map_option fst (owned (pcs ! t)) = Some i \<Longrightarrow>
        map_option fst (owned (pcs ! u)) = Some i \<Longrightarrow> t = u"
    and "\<And>i. i < q_size q \<Longrightarrow> (\<And>t. t < length pcs \<Longrightarrow> map_option fst (owned (pcs ! t)) \<noteq> Some i) \<Longrightarrow>
        slot_is q i S_empty False \<or> slot_is q i S_filled True"
proof -
  note d = assms [unfolded slots_owned_def]
  show "0 < q_size q" "length (slot_states q) = q_size q" "q_head q < q_size q" "q_tail q < q_size q"
    using d by blast+
  show "pc_wf (q_size q) (pcs ! t)" if "t < length pcs" for t
    using d nth_mem [OF that] by blast
  show "i < q_size q \<and> slot_is q i st live" if "t < length pcs" "owned (pcs ! t) = Some (i, st, live)"
    for t i st live
    using d that by blast
  show "t = u" if "t < length pcs" "u < length pcs" "map_option fst (owned (pcs ! t)) = Some i"
      "map_option fst (owned (pcs ! u)) = Some i" for t u i
  proof (rule ccontr)
    assume "t \<noteq> u"
    moreover have "owned (pcs ! t) \<noteq> None" using that(3) by auto
    ultimately have "map_option fst (owned (pcs ! t)) \<noteq> map_option fst (owned (pcs ! u))"
      using d that(1,2) by blast
    from this [unfolded that(3,4)] show False by simp
  qed
  show "slot_is q i S_empty False \<or> slot_is q i S_filled True"
    if "i < q_size q" "\<And>t. t < length pcs \<Longrightarrow> map_option fst (owned (pcs ! t)) \<noteq> Some i" for i
  proof -
    have "i \<notin> fst ` set (List.map_filter owned pcs)" using that(2) unfolding owner_iff by blast
    with d that(1) show ?thesis by blast
  qed
qed

text \<open>
  One step of thread \<open>t\<close>: it touches at most slot \<open>i\<close>, which is its own or nobody's, and
  afterwards the slot is its own or free.
\<close>

lemma slots_owned_step:
  assumes inv: "slots_owned q pcs" and t: "t < length pcs"
    and sizes: "q_size q' = q_size q" "length (slot_states q') = q_size q"
      "q_head q' < q_size q" "q_tail q' < q_size q"
    and wf: "pc_wf (q_size q) pc'"
    and i: "i < q_size q"
    and same: "\<And>j st live. j < q_size q \<Longrightarrow> j \<noteq> i \<Longrightarrow> slot_is q' j st live = slot_is q j st live"
    and before: "map_option fst (owned (pcs ! t)) = Some i \<or>
      owned (pcs ! t) = None \<and> (slot_states q ! i = S_empty \<or> slot_states q ! i = S_filled)"
    and after: "(\<exists>st live. owned pc' = Some (i, st, live) \<and> slot_is q' i st live) \<or>
      owned pc' = None \<and> (slot_is q' i S_empty False \<or> slot_is q' i S_filled True)"
  shows "slots_owned q' (pcs[t := pc'])"
proof -
  note d = slots_ownedD [OF inv]
  have other: "map_option fst (owned (pcs ! u)) \<noteq> Some i" if "u < length pcs" "u \<noteq> t" for u
  proof
    assume u: "map_option fst (owned (pcs ! u)) = Some i"
    then obtain st live where o: "owned (pcs ! u) = Some (i, st, live)"
      by (cases "owned (pcs ! u)") auto
    from before show False
    proof
      assume "map_option fst (owned (pcs ! t)) = Some i"
      from d(7) [OF that(1) t u this] that(2) show False by simp
    next
      assume "owned (pcs ! t) = None \<and> (slot_states q ! i = S_empty \<or> slot_states q ! i = S_filled)"
      with d(6) [OF that(1) o] owned_state [OF o] show False by (auto simp: slot_is_def)
    qed
  qed
  have mine: "map_option fst (owned pc') = Some j \<Longrightarrow> j = i" for j using after by auto
  show ?thesis
  proof (rule slots_ownedI)
    show "0 < q_size q'" "length (slot_states q') = q_size q'" "q_head q' < q_size q'" "q_tail q' < q_size q'"
      using d(1) sizes by simp_all
  next
    fix u
    assume "u < length (pcs[t := pc'])"
    then show "pc_wf (q_size q') ((pcs[t := pc']) ! u)"
      using d(5) [of u] wf sizes(1) by (cases "u = t") simp_all
  next
    fix u j st live
    assume u: "u < length (pcs[t := pc'])" and o: "owned ((pcs[t := pc']) ! u) = Some (j, st, live)"
    show "j < q_size q' \<and> slot_is q' j st live"
    proof (cases "u = t")
      case True
      with o t have "owned pc' = Some (j, st, live)" by simp
      with after i sizes(1) show ?thesis by auto
    next
      case False
      with u o have o': "owned (pcs ! u) = Some (j, st, live)" "u < length pcs" by simp_all
      with other [of u] False have "j \<noteq> i" by auto
      with d(6) [OF o'(2,1)] same [of j st live] sizes(1) show ?thesis by simp
    qed
  next
    fix u w j
    assume *: "u < length (pcs[t := pc'])" "w < length (pcs[t := pc'])"
      "map_option fst (owned ((pcs[t := pc']) ! u)) = Some j"
      "map_option fst (owned ((pcs[t := pc']) ! w)) = Some j"
    show "u = w"
    proof (cases "u = t"; cases "w = t")
      assume "u = t" "w \<noteq> t"
      with * t mine [of j] other [of w] show ?thesis by simp
    next
      assume "u \<noteq> t" "w = t"
      with * t mine [of j] other [of u] show ?thesis by simp
    next
      assume "u \<noteq> t" "w \<noteq> t"
      with * d(7) [of u w j] show ?thesis by simp
    qed simp
  next
    fix j
    assume j: "j < q_size q'" and free: "\<And>u. u < length (pcs[t := pc']) \<Longrightarrow>
      map_option fst (owned ((pcs[t := pc']) ! u)) \<noteq> Some j"
    show "slot_is q' j S_empty False \<or> slot_is q' j S_filled True"
    proof (cases "j = i")
      case True
      from free [of t] t have "map_option fst (owned pc') \<noteq> Some i" by (simp add: True)
      with after True show ?thesis by auto
    next
      case False
      have "map_option fst (owned (pcs ! u)) \<noteq> Some j" if "u < length pcs" for u
      proof (cases "u = t")
        case True
        with before False show ?thesis by auto
      next
        case neq: False
        with free [of u] that show ?thesis by simp
      qed
      with d(8) [of j] j sizes(1) same [of j] False show ?thesis by simp
    qed
  qed
qed

lemma slot_is_set_state: "j \<noteq> i \<Longrightarrow> slot_is (set_state i x q) j st live = slot_is q j st live"
  by (simp add: slot_is_def set_state_def)

lemma slot_is_set_slot: "j \<noteq> i \<Longrightarrow> slot_is (set_slot i v q) j st live = slot_is q j st live"
  by (simp add: slot_is_def set_slot_def)

lemma slot_is_same [simp]:
  "i < length (slot_states q) \<Longrightarrow> slot_is (set_state i x q) i st live = (st = x \<and> (slots q ! i \<noteq> None) = live)"
  "i < length (slots q) \<Longrightarrow> slot_is (set_slot i v q) i st live = (slot_states q ! i = st \<and> (v \<noteq> None) = live)"
  "slot_is (q\<lparr>q_head := h\<rparr>) i st live = slot_is q i st live"
  "slot_is (q\<lparr>q_tail := h\<rparr>) i st live = slot_is q i st live"
  by (auto simp: slot_is_def set_state_def set_slot_def)

lemma set_simps [simp]:
  "slots (set_state i x q) = slots q" "slot_states (set_state i x q) = (slot_states q)[i := x]"
  "q_head (set_state i x q) = q_head q" "q_tail (set_state i x q) = q_tail q"
  "slots (set_slot i v q) = (slots q)[i := v]" "slot_states (set_slot i v q) = slot_states q"
  "q_head (set_slot i v q) = q_head q" "q_tail (set_slot i v q) = q_tail q"
  by (simp_all add: set_state_def set_slot_def)

text \<open>A step that owns nothing before and after and leaves the storage alone.\<close>

lemma slots_owned_pc:
  assumes inv: "slots_owned q pcs" and t: "t < length pcs"
    and "pc_wf (q_size q) pc'" "owned pc' = owned (pcs ! t)"
  shows "slots_owned q (pcs[t := pc'])"
proof -
  note d = slots_ownedD [OF inv]
  have own: "owned ((pcs[t := pc']) ! u) = owned (pcs ! u)" if "u < length pcs" for u
    using that assms(4) t by (cases "u = t") simp_all
  show ?thesis
  proof (rule slots_ownedI [OF d(1-4)])
    show "pc_wf (q_size q) ((pcs[t := pc']) ! u)" if "u < length (pcs[t := pc'])" for u
      using that d(5) [of u] assms(3) t by (cases "u = t") simp_all
  qed (use own d(6-8) in \<open>simp_all\<close>)
qed

lemma send_step_owned:
  assumes inv: "slots_owned q pcs" and t: "t < length pcs" and pc: "is_send_pc (pcs ! t)"
    and step: "send_step False (pcs ! t) q = (pc', q')"
  shows "slots_owned q' (pcs[t := pc'])"
proof -
  note d = slots_ownedD [OF inv]
  have own: "i < q_size q \<and> slot_is q i st live" if "owned (pcs ! t) = Some (i, st, live)" for i st live
    using d(6) [OF t that] .
  have wf: "pc_wf (q_size q) (pcs ! t)" using d(5) [OF t] .
  have free: "slot_is q i S_empty False"
    if "i < q_size q" "slot_states q ! i = S_empty" for i
  proof -
    have "map_option fst (owned (pcs ! u)) \<noteq> Some i" if "u < length pcs" for u
    proof
      assume "map_option fst (owned (pcs ! u)) = Some i"
      then obtain st live where "owned (pcs ! u) = Some (i, st, live)" by auto
      with d(6) [OF that this] owned_state [OF this] \<open>slot_states q ! i = S_empty\<close> show False
        by (auto simp: slot_is_def)
    qed
    from d(8) [OF that(1) this] that(2) show ?thesis by (auto simp: slot_is_def)
  qed
  note S = slots_owned_step [OF inv t]
  show ?thesis
  proof (cases "pcs ! t")
    case (Send_claim v i)
    with wf have i: "i < q_size q" by simp
    show ?thesis
    proof (cases "slot_states q ! i = S_empty")
      case True
      with step Send_claim have eq: "pc' = Send_advance v i" "q' = set_state i S_constructing q"
        by (simp_all add: send_step_def)
      show ?thesis
        unfolding eq using d(1-4) i free [OF i True] Send_claim True
        by (intro S [of _ _ i]) (auto simp: slot_is_set_state slot_is_def)
    next
      case False
      with step Send_claim slots_owned_pc [OF inv t, of "Send_load_head v"] show ?thesis
        by (auto simp: send_step_def)
    qed
  next
    case (Send_advance v i)
    then have i: "i < q_size q" "slot_is q i S_constructing False"
      using own [of i S_constructing False] by simp_all
    show ?thesis
    proof (cases "q_tail q = i")
      case True
      with step Send_advance have eq: "pc' = Send_construct v i" "q' = q\<lparr>q_tail := (i + 1) mod q_size q\<rparr>"
        by (simp_all add: send_step_def)
      show ?thesis
        unfolding eq using d(1-4) i Send_advance by (intro S [of _ _ i]) auto
    next
      case False
      with step Send_advance slots_owned_pc [OF inv t, of "Send_unclaim v i"] show ?thesis
        by (auto simp: send_step_def)
    qed
  next
    case (Send_unclaim v i)
    then have i: "i < q_size q" "slot_is q i S_constructing False"
      using own [of i S_constructing False] by simp_all
    with step Send_unclaim have eq: "pc' = Send_load_head v" "q' = set_state i S_empty q"
      by (simp_all add: send_step_def)
    show ?thesis
      unfolding eq using d(1-4) i Send_unclaim
      by (intro S [of _ _ i]) (auto simp: slot_is_set_state slot_is_def)
  next
    case (Send_construct v i)
    then have i: "i < q_size q" "slot_is q i S_constructing False"
      using own [of i S_constructing False] by simp_all
    with step Send_construct have eq: "pc' = Send_publish i" "q' = set_slot i (Some v) q"
      by (simp_all add: send_step_def)
    show ?thesis
      unfolding eq using d(1-4) i Send_construct
      by (intro S [of _ _ i]) (auto simp: slot_is_set_slot slot_is_def)
  next
    case (Send_publish i)
    then have i: "i < q_size q" "slot_is q i S_constructing True"
      using own [of i S_constructing True] by simp_all
    with step Send_publish have eq: "pc' = Sent None" "q' = set_state i S_filled q"
      by (simp_all add: send_step_def)
    show ?thesis
      unfolding eq using d(1-4) i Send_publish
      by (intro S [of _ _ i]) (auto simp: slot_is_set_state slot_is_def)
  qed (use step wf pc slots_owned_pc [OF inv t, of pc'] d(4) in
      \<open>auto simp: send_step_def is_send_pc_def Let_def split: if_splits\<close>)
qed

lemma filled_live:
  assumes "slots_owned q pcs" "i < q_size q" "slot_states q ! i = S_filled"
  shows "slot_is q i S_filled True"
proof -
  note d = slots_ownedD [OF assms(1)]
  have "map_option fst (owned (pcs ! u)) \<noteq> Some i" if "u < length pcs" for u
  proof
    assume "map_option fst (owned (pcs ! u)) = Some i"
    then obtain st live where "owned (pcs ! u) = Some (i, st, live)" by auto
    with d(6) [OF that this] owned_state [OF this] assms(3) show False
      by (auto simp: slot_is_def)
  qed
  from d(8) [OF assms(2) this] assms(3) show ?thesis by (auto simp: slot_is_def)
qed

lemma no_exception:
  assumes "slots_owned q pcs" "i < q_size q"
  shows "slot_states q ! i \<noteq> S_exception"
proof
  assume e: "slot_states q ! i = S_exception"
  note d = slots_ownedD [OF assms(1)]
  have "map_option fst (owned (pcs ! u)) \<noteq> Some i" if "u < length pcs" for u
  proof
    assume "map_option fst (owned (pcs ! u)) = Some i"
    then obtain st live where "owned (pcs ! u) = Some (i, st, live)" by auto
    with d(6) [OF that this] owned_state [OF this] e show False
      by (auto simp: slot_is_def)
  qed
  from d(8) [OF assms(2) this] e show False by (auto simp: slot_is_def)
qed

lemma recv_step_owned:
  assumes inv: "slots_owned q pcs" and t: "t < length pcs" and pc: "\<not> is_send_pc (pcs ! t)"
    and step: "recv_step False (pcs ! t) q = (pc', q')"
  shows "slots_owned q' (pcs[t := pc'])"
proof -
  note d = slots_ownedD [OF inv]
  have own: "i < q_size q \<and> slot_is q i st live" if "owned (pcs ! t) = Some (i, st, live)" for i st live
    using d(6) [OF t that] .
  have wf: "pc_wf (q_size q) (pcs ! t)" using d(5) [OF t] .
  note S = slots_owned_step [OF inv t]
  show ?thesis
  proof (cases "pcs ! t")
    case (Recv_claim i u)
    with wf have i: "i < q_size q" by simp
    show ?thesis
    proof (cases "slot_states q ! i = S_filled")
      case True
      with step Recv_claim have eq: "pc' = Recv_advance i" "q' = set_state i S_deconstructing q"
        by (simp_all add: recv_step_def)
      show ?thesis
        unfolding eq using d(1-4) i filled_live [OF inv i True] Recv_claim True
        by (intro S [of _ _ i]) (auto simp: slot_is_set_state slot_is_def)
    next
      case False
      with no_exception [OF inv i] step Recv_claim
      have "q' = q" "pc' = Received None \<or> pc' = Recv_race ((i + 1) mod q_size q) u"
        by (auto simp: recv_step_def split: slot_state.splits)
      with Recv_claim d(1) slots_owned_pc [OF inv t, of pc'] show ?thesis by auto
    qed
  next
    case (Recv_advance i)
    then have i: "i < q_size q" "slot_is q i S_deconstructing True"
      using own [of i S_deconstructing True] by simp_all
    show ?thesis
    proof (cases "q_head q = i")
      case True
      with step Recv_advance have eq: "pc' = Recv_move i" "q' = q\<lparr>q_head := (i + 1) mod q_size q\<rparr>"
        by (simp_all add: recv_step_def)
      show ?thesis
        unfolding eq using d(1-4) i Recv_advance by (intro S [of _ _ i]) auto
    next
      case False
      with step Recv_advance have "pc' = Recv_advance i" "q' = q" by (simp_all add: recv_step_def)
      with Recv_advance slots_owned_pc [OF inv t, of "Recv_advance i"] show ?thesis by simp
    qed
  next
    case (Recv_move i)
    then have i: "i < q_size q" "slot_is q i S_deconstructing True"
      using own [of i S_deconstructing True] by simp_all
    then obtain v where "slots q ! i = Some v" by (auto simp: slot_is_def)
    with step Recv_move have eq: "pc' = Recv_release i (Some v)" "q' = set_slot i None q"
      by (simp_all add: recv_step_def)
    show ?thesis
      unfolding eq using d(1-4) i Recv_move
      by (intro S [of _ _ i]) (auto simp: slot_is_set_slot slot_is_def)
  next
    case (Recv_release i r)
    then have i: "i < q_size q" "slot_is q i S_deconstructing False"
      using own [of i S_deconstructing False] by simp_all
    from wf Recv_release obtain v where "r = Some v" by auto
    with step Recv_release have eq: "pc' = Received (Some v)" "q' = set_state i S_empty q"
      by (simp_all add: recv_step_def)
    show ?thesis
      unfolding eq using d(1-4) i Recv_release
      by (intro S [of _ _ i]) (auto simp: slot_is_set_state slot_is_def)
  qed (use step wf pc slots_owned_pc [OF inv t, of pc'] d(3) in
      \<open>auto simp: recv_step_def is_send_pc_def split: if_splits\<close>)
qed

text \<open>The values in the slots, as a multiset.\<close>

lemma slot_values_fill:
  "i < length xs \<Longrightarrow> xs ! i = None \<Longrightarrow>
   mset (List.map_filter (\<lambda>v. v) (xs[i := Some x])) = add_mset x (mset (List.map_filter (\<lambda>v. v) xs))"
proof (induction xs arbitrary: i)
  case (Cons a xs)
  then show ?case
    by (cases i; cases a) (simp_all add: List.map_filter_simps)
qed simp

lemma slot_values_take:
  assumes "i < length xs" "xs ! i = Some x"
  shows "mset (List.map_filter (\<lambda>v. v) xs) = add_mset x (mset (List.map_filter (\<lambda>v. v) (xs[i := None])))"
  using slot_values_fill [of i "xs[i := None]" x] assms
  by (simp add: list_update_same_conv [THEN iffD2])

definition conserved_step :: "'a q_pc \<Rightarrow> 'a q_pc \<Rightarrow> 'a storage \<Rightarrow> 'a storage \<Rightarrow> bool" where
  "conserved_step pc pc' q q' \<longleftrightarrow>
     mset (newly_accepted pc pc') + slot_values q = mset (newly_delivered pc pc') + slot_values q'"

lemma q_step_conserves:
  assumes inv: "slots_owned q pcs" and t: "t < length pcs"
    and step: "q_thread_step False (pcs ! t) q = (pc', q')"
  shows "conserved_step (pcs ! t) pc' q q'"
proof -
  note d = slots_ownedD [OF inv]
  note defs = q_thread_step_def is_send_pc_def send_step_def recv_step_def conserved_step_def
    newly_accepted_def newly_delivered_def
  show ?thesis
  proof (cases "pcs ! t")
    case (Send_construct v i)
    with d(6) [OF t, of i S_constructing False] have "i < length (slots q)" "slots q ! i = None"
      by (simp_all add: slot_is_def)
    with Send_construct step show ?thesis
      by (auto simp: defs slot_values_def slot_values_fill)
  next
    case (Recv_move i)
    with d(6) [OF t, of i S_deconstructing True] obtain v where i: "i < length (slots q)" "slots q ! i = Some v"
      by (auto simp: slot_is_def)
    from Recv_move step i(2) have eq: "pc' = Recv_release i (Some v)" "q' = set_slot i None q"
      by (simp_all add: defs)
    have "slot_values q = add_mset v (slot_values q')"
      unfolding slot_values_def eq by (simp add: slot_values_take [OF i])
    with Recv_move eq show ?thesis by (simp add: defs)
  next
    case (Sent r)
    with step have "pc' = Sent r" "q' = q" by (simp_all add: defs)
    with Sent show ?thesis by (simp add: defs)
  next
    case (Received r)
    with step have "pc' = Received r" "q' = q" by (simp_all add: defs)
    with Received show ?thesis by (simp add: defs)
  qed (use step in \<open>auto simp: defs slot_values_def Let_def split: if_splits slot_state.splits option.splits\<close>)
qed

definition quiet_values :: "'a rq_action \<Rightarrow> bool" where
  "quiet_values a \<longleftrightarrow> (\<forall>t. a \<noteq> Q_thread t True)"

definition rq_step_quiet :: "'a rq_action \<Rightarrow> 'a rq_sys \<Rightarrow> 'a rq_sys option" where
  "rq_step_quiet a s = (if quiet_values a then rq_step a s else None)"

lemma finished_not_owner: "q_finished pc \<Longrightarrow> owned pc = None"
  by (cases pc) (simp_all add: q_finished_def)

lemma rq_step_quiet_inv:
  assumes inv: "rq_inv s" and step: "rq_step_quiet a s = Some s'"
  shows "rq_inv s'"
proof -
  from step have a: "quiet_values a" "rq_step a s = Some s'"
    by (simp_all add: rq_step_quiet_def split: if_splits)
  from inv have own: "slots_owned (stor s) (q_pcs s)"
    and bal: "mset (accepted s) = mset (delivered s) + slot_values (stor s)"
    by (simp_all add: rq_inv_def)
  show ?thesis
  proof (cases a)
    case (Call_send t v)
    with a(2) own bal show ?thesis
      by (auto simp: rq_inv_def finished_not_owner intro!: slots_owned_pc split: if_splits)
  next
    case (Call_recv t)
    with a(2) own bal show ?thesis
      by (auto simp: rq_inv_def finished_not_owner intro!: slots_owned_pc split: if_splits)
  next
    case (Q_thread t throws)
    with a(1) have "\<not> throws" by (auto simp: quiet_values_def)
    with Q_thread a(2) have t: "t < length (q_pcs s)" by (auto split: if_splits)
    obtain pc' q' where st: "q_thread_step False (q_pcs s ! t) (stor s) = (pc', q')"
      by (cases "q_thread_step False (q_pcs s ! t) (stor s)")
    with Q_thread a(2) \<open>\<not> throws\<close> have s': "s' = \<lparr>stor = q', q_pcs = (q_pcs s)[t := pc'],
                  accepted = accepted s @ newly_accepted (q_pcs s ! t) pc',
                  delivered = delivered s @ newly_delivered (q_pcs s ! t) pc'\<rparr>"
      by (auto simp: Let_def split: if_splits)
    have "slots_owned q' ((q_pcs s)[t := pc'])"
      using st send_step_owned [OF own t] recv_step_owned [OF own t]
      by (cases "is_send_pc (q_pcs s ! t)") (simp_all add: q_thread_step_def)
    moreover have "mset (accepted s') = mset (delivered s') + slot_values (stor s')"
      using bal q_step_conserves [OF own t st] by (simp add: s' conserved_step_def ac_simps)
    ultimately show ?thesis by (simp add: rq_inv_def s')
  qed
qed

interpretation rqs: invariant_system rq_step_quiet rq_inv
  by unfold_locales (rule rq_step_quiet_inv)

lemma map_filter_replicate_None: "List.map_filter (\<lambda>v. v) (replicate n None) = []"
  by (induction n) (simp_all add: List.map_filter_simps)

lemma rq_init_inv: "rq_inv (rq_init cap n)"
  unfolding rq_inv_def
proof
  show "slots_owned (stor (rq_init cap n)) (q_pcs (rq_init cap n :: 'a rq_sys))"
    by (rule slots_ownedI) (simp_all add: rq_init_def storage_new_def slot_is_def del: replicate_Suc)
qed (simp add: rq_init_def storage_new_def slot_values_def map_filter_replicate_None del: replicate_Suc)

text \<open>
  C5: However many threads send and receive at once, with any interleaving, and as long as the
  values' moves do not throw: no receiver moves out of a slot without an object, no two
  threads own one slot, and no value is lost or duplicated: the accepted values are, as a
  multiset, the delivered ones and those in the slots.
\<close>

theorem ring_queue_conserves_values:
  assumes "run rq_step as (rq_init cap n) = Some s"
    and "\<forall>a \<in> set as. quiet_values a"
  shows "Undefined \<notin> set (q_pcs s) \<and>
    (\<forall>t u i. t < length (q_pcs s) \<longrightarrow> u < length (q_pcs s) \<longrightarrow>
       map_option fst (owned (q_pcs s ! t)) = Some i \<longrightarrow> map_option fst (owned (q_pcs s ! u)) = Some i \<longrightarrow> t = u) \<and>
    mset (accepted s) = mset (delivered s) + slot_values (stor s)"
proof -
  have "run rq_step_quiet as (rq_init cap n) = run rq_step as (rq_init cap n)"
    using assms(2) by (intro run_cong) (auto simp: rq_step_quiet_def fun_eq_iff)
  with assms(1) have "rq_inv s"
    by (intro rqs.run_inv [OF rq_init_inv, of as cap n]) simp
  then have own: "slots_owned (stor s) (q_pcs s)"
    and bal: "mset (accepted s) = mset (delivered s) + slot_values (stor s)"
    by (simp_all add: rq_inv_def)
  note d = slots_ownedD [OF own]
  have "Undefined \<notin> set (q_pcs s)"
    using d(5) by (auto simp: in_set_conv_nth) (metis pc_wf.simps(12))
  moreover have "\<forall>t u i. t < length (q_pcs s) \<longrightarrow> u < length (q_pcs s) \<longrightarrow>
      map_option fst (owned (q_pcs s ! t)) = Some i \<longrightarrow> map_option fst (owned (q_pcs s ! u)) = Some i \<longrightarrow> t = u"
    using d(7) by blast
  ultimately show ?thesis using bal by blast
qed

theorem ring_queue_conserves_values_witness:
  "\<exists>s. run rq_step (Call_send 0 (7 :: nat) # Call_recv 1 # replicate 8 (Q_thread 0 False) @ replicate 6 (Q_thread 1 False))
      (rq_init 1 2) = Some s \<and> accepted s = [7] \<and> mset (delivered s) = {#7#}"
proof -
  let ?as = "Call_send 0 (7 :: nat) # Call_recv 1 # replicate 8 (Q_thread 0 False) @ replicate 6 (Q_thread 1 False)"
  have "\<exists>s. run rq_step ?as (rq_init 1 2) = Some s \<and> accepted s = [7] \<and> slots (stor s) = [None, None]"
    by (simp add: rq_init_def storage_new_def q_finished_def is_send_pc_def q_thread_step_def send_step_def
        recv_step_def set_state_def set_slot_def newly_accepted_def newly_delivered_def Let_def numeral_eq_Suc)
  then obtain s where s: "run rq_step ?as (rq_init 1 2) = Some s" "accepted s = [7]" "slots (stor s) = [None, None]"
    by blast
  have "\<forall>a \<in> set ?as. quiet_values a" by (auto simp: quiet_values_def)
  with ring_queue_conserves_values [OF s(1)] s(2,3) have "{#7#} = mset (delivered s)"
    by (simp add: slot_values_def List.map_filter_simps)
  with s(1,2) show ?thesis by (intro exI [of _ s]) simp
qed

text \<open>
  If the move constructor of a value throws, a later value can be lost. Two receivers may
  both see the \<open>exception\<close> mark and both clear it; the second clears the slot when it already
  holds the next value. That value was accepted, is never received, and even the destructor
  of the storage leaves it.
\<close>

theorem ring_queue_exception_loses_value:
  "\<exists>as s. run rq_step as (rq_init 1 3) = Some s \<and>
     list_all q_finished (q_pcs s) \<and>
     accepted s = [v1, v2] \<and> delivered s = [v1] \<and>
     map_option fst (try_recv (stor s)) = Some None \<and>
     slots (storage_dtor (stor s)) ! 0 = Some v2"
proof -
  let ?run = "\<lambda>n t. replicate n (Q_thread t False)"
  let ?as = "(Call_send 0 v0 # ?run 6 0 @ [Q_thread 0 True, Q_thread 0 False]) @
    (Call_recv 1 # ?run 4 1) @ (Call_recv 2 # ?run 4 2) @ ?run 5 1 @
    (Call_send 1 v1 # ?run 8 1) @ (Call_recv 1 # ?run 7 1) @ (Call_send 1 v2 # ?run 8 1) @ ?run 5 2"
  have "\<exists>s. run rq_step ?as (rq_init 1 3) = Some s \<and>
     list_all q_finished (q_pcs s) \<and>
     accepted s = [v1, v2] \<and> delivered s = [v1] \<and>
     map_option fst (try_recv (stor s)) = Some None \<and>
     slots (storage_dtor (stor s)) ! 0 = Some v2"
    by (simp add: rq_init_def storage_new_def q_finished_def is_send_pc_def q_thread_step_def send_step_def
        recv_step_def set_state_def set_slot_def newly_accepted_def newly_delivered_def Let_def
        try_recv_def recv_alone_steps send_alone_steps storage_dtor_def numeral_eq_Suc upt_rec)
  then show ?thesis by blast
qed

end
