(* ===== verification/Buffer.thy ===== *)
theory Buffer
  imports Asco_Prelude
begin

text \<open>
  \<open>asco/io/buffer.h\<close>: the byte buffer that file operations fill and drain. The heap is a map
  from addresses to blocks; a block remembers the memory resource it came from. The resource
  (the allocator is a parameter of the class) is used through its documented contract only:
  \<open>allocate_bytes(n)\<close> gives a new block of \<open>n\<close> bytes or throws \<open>bad_alloc\<close> (the parameter
  \<open>avail\<close> says when it succeeds), and \<open>deallocate_bytes(p, n)\<close> is defined for a live block of
  that resource and that size only.
\<close>

section \<open>Heap\<close>

record block =
  resource :: nat
  bytes :: "byte option list"

record heap =
  blocks :: "nat \<Rightarrow> block option"
  next_addr :: nat

type_synonym availability = "nat \<Rightarrow> u64 \<Rightarrow> heap \<Rightarrow> bool"

abbreviation memory_available :: availability where
  "memory_available \<equiv> \<lambda>_ _ _. True"

datatype buf_error = Bad_alloc | Undefined_behaviour

definition allocate_bytes :: "availability \<Rightarrow> nat \<Rightarrow> u64 \<Rightarrow> heap \<Rightarrow> (buf_error + nat) \<times> heap" where
  "allocate_bytes avail r n h =
     (if avail r n h
      then (Inr (next_addr h),
            h\<lparr>blocks := (blocks h)(next_addr h \<mapsto> \<lparr>resource = r, bytes = replicate (unat n) None\<rparr>),
              next_addr := next_addr h + 1\<rparr>)
      else (Inl Bad_alloc, h))"

definition deallocate_bytes :: "nat \<Rightarrow> nat \<Rightarrow> u64 \<Rightarrow> heap \<Rightarrow> buf_error + heap" where
  "deallocate_bytes r p n h =
     (case blocks h p of
        None \<Rightarrow> Inl Undefined_behaviour
      | Some b \<Rightarrow>
          if resource b = r \<and> length (bytes b) = unat n then Inr (h\<lparr>blocks := (blocks h)(p := None)\<rparr>)
          else Inl Undefined_behaviour)"

text \<open>Copying bytes to an offset of a block; copying nothing touches no memory.\<close>

definition write_bytes :: "nat option \<Rightarrow> u64 \<Rightarrow> byte option list \<Rightarrow> heap \<Rightarrow> buf_error + heap" where
  "write_bytes p off xs h =
     (if xs = [] then Inr h
      else case p of
        None \<Rightarrow> Inl Undefined_behaviour
      | Some p \<Rightarrow>
          (case blocks h p of
             None \<Rightarrow> Inl Undefined_behaviour
           | Some b \<Rightarrow>
               if unat off + length xs \<le> length (bytes b)
               then Inr (h\<lparr>blocks := (blocks h)(p \<mapsto>
                      b\<lparr>bytes := take (unat off) (bytes b) @ xs @ drop (unat off + length xs) (bytes b)\<rparr>)\<rparr>)
               else Inl Undefined_behaviour))"

definition read_bytes :: "nat option \<Rightarrow> u64 \<Rightarrow> heap \<Rightarrow> buf_error + byte option list" where
  "read_bytes p n h =
     (if n = 0 then Inr []
      else case p of
        None \<Rightarrow> Inl Undefined_behaviour
      | Some p \<Rightarrow>
          (case blocks h p of
             None \<Rightarrow> Inl Undefined_behaviour
           | Some b \<Rightarrow> if unat n \<le> length (bytes b) then Inr (take (unat n) (bytes b)) else Inl Undefined_behaviour))"

section \<open>The buffer\<close>

text \<open>\<open>m_allocator\<close> points to the buffer's own allocator or to one outside (its resource).\<close>

datatype alloc_ptr = Own_allocator | Other_allocator nat

record buffer =
  m_data :: "nat option"
  m_size :: u64
  m_cursor :: u64
  m_allocator_storage :: "nat option"
  m_allocator :: alloc_ptr

definition buffer_resource :: "buffer \<Rightarrow> nat" where
  "buffer_resource b =
     (case m_allocator b of Own_allocator \<Rightarrow> the (m_allocator_storage b) | Other_allocator r \<Rightarrow> r)"

type_synonym 'r buf_result = "(buf_error + 'r) \<times> buffer \<times> heap"

definition buffer_of_allocator :: "nat \<Rightarrow> buffer" where
  "buffer_of_allocator r =
     \<lparr>m_data = None, m_size = 0, m_cursor = 0, m_allocator_storage = None, m_allocator = Other_allocator r\<rparr>"

definition buffer_of_own_allocator :: "nat \<Rightarrow> buffer" where
  "buffer_of_own_allocator r =
     \<lparr>m_data = None, m_size = 0, m_cursor = 0, m_allocator_storage = Some r, m_allocator = Own_allocator\<rparr>"

definition buffer_sized :: "availability \<Rightarrow> u64 \<Rightarrow> nat \<Rightarrow> heap \<Rightarrow> (buf_error + buffer) \<times> heap" where
  "buffer_sized avail n r h =
     (case allocate_bytes avail r n h of
        (Inl e, h) \<Rightarrow> (Inl e, h)
      | (Inr p, h) \<Rightarrow> (Inr ((buffer_of_allocator r)\<lparr>m_data := Some p, m_size := n\<rparr>), h))"

definition buffer_of_string :: "availability \<Rightarrow> byte list \<Rightarrow> nat \<Rightarrow> heap \<Rightarrow> (buf_error + buffer) \<times> heap" where
  "buffer_of_string avail s r h =
     (let n = of_nat (length s) in
      case allocate_bytes avail r n h of
        (Inl e, h) \<Rightarrow> (Inl e, h)
      | (Inr p, h) \<Rightarrow>
          (case write_bytes (Some p) 0 (map Some s) h of
             Inl e \<Rightarrow> (Inl e, h)
           | Inr h \<Rightarrow> (Inr ((buffer_of_allocator r)\<lparr>m_data := Some p, m_size := n, m_cursor := n\<rparr>), h)))"

definition buffer_clear :: "buffer \<Rightarrow> heap \<Rightarrow> unit buf_result" where
  "buffer_clear b h =
     (let freed = (case m_data b of
                     None \<Rightarrow> Inr h
                   | Some p \<Rightarrow> deallocate_bytes (buffer_resource b) p (m_size b) h) in
      case freed of
        Inl e \<Rightarrow> (Inl e, b, h)
      | Inr h \<Rightarrow> (Inr (), b\<lparr>m_data := None, m_size := 0, m_cursor := 0\<rparr>, h))"

text \<open>The move constructor: the new buffer and what is left of \<open>rhs\<close>.\<close>

definition moved_allocator :: "buffer \<Rightarrow> alloc_ptr" where
  "moved_allocator rhs =
     (if m_allocator_storage rhs \<noteq> None \<and> m_allocator rhs = Own_allocator then Own_allocator
      else m_allocator rhs)"

definition buffer_move :: "buffer \<Rightarrow> heap \<Rightarrow> (buffer \<times> buffer) \<times> heap" where
  "buffer_move rhs h =
     (let this = \<lparr>m_data = m_data rhs, m_size = m_size rhs, m_cursor = m_cursor rhs,
                  m_allocator_storage = m_allocator_storage rhs, m_allocator = moved_allocator rhs\<rparr>;
          (_, rhs, h) = buffer_clear (rhs\<lparr>m_data := None\<rparr>) h
      in ((this, rhs), h))"

definition buffer_move_assign :: "buffer \<Rightarrow> buffer \<Rightarrow> heap \<Rightarrow> (buf_error + buffer \<times> buffer) \<times> heap" where
  "buffer_move_assign this rhs h =
     (case buffer_clear this h of
        (Inl e, _, h) \<Rightarrow> (Inl e, h)
      | (Inr _, this, h) \<Rightarrow>
          (let this = this\<lparr>m_data := m_data rhs, m_size := m_size rhs, m_cursor := m_cursor rhs,
                           m_allocator_storage := m_allocator_storage rhs,
                           m_allocator := moved_allocator rhs\<rparr>;
               (_, rhs, h) = buffer_clear (rhs\<lparr>m_data := None\<rparr>) h
           in (Inr (this, rhs), h)))"

definition buffer_reserve :: "availability \<Rightarrow> u64 \<Rightarrow> buffer \<Rightarrow> heap \<Rightarrow> unit buf_result" where
  "buffer_reserve avail n b h =
     (if n \<le> m_size b - m_cursor b then (Inr (), b, h)
      else
        (let new_size = m_cursor b + n in
         case allocate_bytes avail (buffer_resource b) new_size h of
           (Inl e, h) \<Rightarrow> (Inl e, b, h)
         | (Inr q, h) \<Rightarrow>
             (let copied =
                (case m_data b of
                   None \<Rightarrow> Inr h
                 | Some p \<Rightarrow>
                     (case (if m_cursor b > 0 then read_bytes (m_data b) (m_cursor b) h else Inr []) of
                        Inl e \<Rightarrow> Inl e
                      | Inr xs \<Rightarrow>
                          (case write_bytes (Some q) 0 xs h of
                             Inl e \<Rightarrow> Inl e
                           | Inr h \<Rightarrow> deallocate_bytes (buffer_resource b) p (m_size b) h))) in
              case copied of
                Inl e \<Rightarrow> (Inl e, b, h)
              | Inr h \<Rightarrow> (Inr (), b\<lparr>m_data := Some q, m_size := new_size\<rparr>, h))))"

text \<open>\<open>try_advance\<close> sets \<open>m_size\<close> before it allocates, so the new size stays when that throws.\<close>

definition try_advance :: "availability \<Rightarrow> u64 \<Rightarrow> buffer \<Rightarrow> heap \<Rightarrow> u64 buf_result" where
  "try_advance avail cnt b h =
     (if m_size b = 0 then
        (let b = b\<lparr>m_size := cnt\<rparr> in
         case allocate_bytes avail (buffer_resource b) (m_size b) h of
           (Inl e, h) \<Rightarrow> (Inl e, b, h)
         | (Inr p, h) \<Rightarrow> (Inr cnt, b\<lparr>m_data := Some p, m_cursor := cnt\<rparr>, h))
      else
        (let remaining = m_size b - m_cursor b; advance_by = min cnt remaining in
         (Inr advance_by, b\<lparr>m_cursor := m_cursor b + advance_by\<rparr>, h)))"

definition buffer_push :: "availability \<Rightarrow> byte list \<Rightarrow> buffer \<Rightarrow> heap \<Rightarrow> u64 buf_result" where
  "buffer_push avail xs b h =
     (let cursor = m_cursor b in
      case try_advance avail (of_nat (length xs)) b h of
        (Inl e, b, h) \<Rightarrow> (Inl e, b, h)
      | (Inr n, b, h) \<Rightarrow>
          (case write_bytes (m_data b) cursor (map Some (take (unat n) xs)) h of
             Inl e \<Rightarrow> (Inl e, b, h)
           | Inr h \<Rightarrow> (Inr n, b, h)))"

section \<open>Invariant\<close>

text \<open>\<open>buffer_ok h b xs\<close>: the buffer is well formed and the bytes before its cursor are \<open>xs\<close>.\<close>

definition buffer_ok :: "heap \<Rightarrow> buffer \<Rightarrow> byte list \<Rightarrow> bool" where
  "buffer_ok h b xs \<longleftrightarrow>
     (m_allocator b = Own_allocator \<longrightarrow> m_allocator_storage b \<noteq> None) \<and>
     (case m_data b of
        None \<Rightarrow> m_size b = 0 \<and> m_cursor b = 0 \<and> xs = []
      | Some p \<Rightarrow>
          p < next_addr h \<and> unat (m_cursor b) = length xs \<and> length xs \<le> unat (m_size b) \<and>
          (\<exists>rest. blocks h p = Some \<lparr>resource = buffer_resource b, bytes = map Some xs @ rest\<rparr> \<and>
             length xs + length rest = unat (m_size b)))"

text \<open>\<open>only_block h0 h b\<close>: \<open>h\<close> has the blocks of \<open>h0\<close> and that of the buffer.\<close>

definition only_block :: "heap \<Rightarrow> heap \<Rightarrow> buffer \<Rightarrow> bool" where
  "only_block h0 h b \<longleftrightarrow>
     (\<forall>p. m_data b \<noteq> Some p \<longrightarrow> blocks h p = blocks h0 p) \<and>
     (\<forall>p. m_data b = Some p \<longrightarrow> blocks h0 p = None) \<and>
     (\<forall>p \<ge> next_addr h. blocks h p = None) \<and> next_addr h0 \<le> next_addr h"

section \<open>Each operation\<close>

text \<open>
  The state of a buffer in use: capacity and contents, no empty block, and a heap that is the
  initial one plus the buffer's block.
\<close>

definition buf_inv :: "heap \<Rightarrow> nat \<Rightarrow> buffer \<Rightarrow> heap \<Rightarrow> nat \<times> byte list \<Rightarrow> bool" where
  "buf_inv h0 lim b h st \<longleftrightarrow>
     (case st of (cap, xs) \<Rightarrow>
        buffer_ok h b xs \<and> only_block h0 h b \<and> unat (m_size b) = cap \<and>
        (m_data b \<noteq> None \<longrightarrow> 0 < cap) \<and> cap \<le> lim)"

lemma buffer_resource_update [simp]:
  "buffer_resource (b\<lparr>m_data := d\<rparr>) = buffer_resource b"
  "buffer_resource (b\<lparr>m_size := n\<rparr>) = buffer_resource b"
  "buffer_resource (b\<lparr>m_cursor := n\<rparr>) = buffer_resource b"
  by (simp_all add: buffer_resource_def split: alloc_ptr.split)

lemma write_bytes_at:
  assumes "blocks h p = Some \<lparr>resource = r, bytes = ys @ rest\<rparr>" "unat off = length ys"
    "length zs \<le> length rest"
  shows "write_bytes (Some p) off zs h =
    Inr (h\<lparr>blocks := (blocks h)(p \<mapsto> \<lparr>resource = r, bytes = ys @ zs @ drop (length zs) rest\<rparr>)\<rparr>)"
  using assms by (cases "zs = []") (auto simp: write_bytes_def fun_upd_idem intro!: heap.equality)

lemma clear_ok:
  assumes "buf_inv h0 lim b h (cap, xs)"
  shows "\<exists>h'. buffer_clear b h = (Inr (), b\<lparr>m_data := None, m_size := 0, m_cursor := 0\<rparr>, h') \<and>
    buf_inv h0 lim (b\<lparr>m_data := None, m_size := 0, m_cursor := 0\<rparr>) h' (0, []) \<and> blocks h' = blocks h0"
proof (cases "m_data b")
  case None
  with assms show ?thesis
    by (auto simp: buf_inv_def buffer_clear_def buffer_ok_def only_block_def fun_eq_iff)
next
  case (Some p)
  from assms Some obtain rest where b: "blocks h p = Some \<lparr>resource = buffer_resource b, bytes = map Some xs @ rest\<rparr>"
    "length xs + length rest = unat (m_size b)"
    by (auto simp: buf_inv_def buffer_ok_def)
  let ?h = "h\<lparr>blocks := (blocks h)(p := None)\<rparr>"
  have "buffer_clear b h = (Inr (), b\<lparr>m_data := None, m_size := 0, m_cursor := 0\<rparr>, ?h)"
    using Some b by (simp add: buffer_clear_def deallocate_bytes_def)
  moreover have "blocks ?h = blocks h0"
    using assms Some by (auto simp: buf_inv_def only_block_def fun_eq_iff)
  moreover from this have "buf_inv h0 lim (b\<lparr>m_data := None, m_size := 0, m_cursor := 0\<rparr>) ?h (0, [])"
    using assms Some by (auto simp: buf_inv_def buffer_ok_def only_block_def)
  ultimately show ?thesis by blast
qed

lemma push_fresh:
  assumes inv: "buf_inv h0 lim b h (0, xs)" and xs: "0 < length ys" "length ys < 2 ^ 64"
  shows "\<exists>b' h'. buffer_push memory_available ys b h = (Inr (of_nat (length ys)), b', h') \<and>
    buf_inv h0 (lim + length ys) b' h' (length ys, ys)"
proof -
  from inv have b: "m_size b = 0" "m_data b = None" "m_cursor b = 0"
    by (auto simp: buf_inv_def buffer_ok_def unsigned_eq_0_iff split: option.splits)
  have n: "unat (of_nat (length ys) :: u64) = length ys"
    using xs(2) by (simp add: unat_of_nat)
  let ?p = "next_addr h"
  let ?r = "buffer_resource b"
  let ?b = "b\<lparr>m_size := of_nat (length ys), m_data := Some ?p, m_cursor := of_nat (length ys)\<rparr>"
  let ?h1 = "h\<lparr>blocks := (blocks h)(?p \<mapsto> \<lparr>resource = ?r, bytes = replicate (length ys) None\<rparr>), next_addr := ?p + 1\<rparr>"
  let ?h = "h\<lparr>blocks := (blocks h)(?p \<mapsto> \<lparr>resource = ?r, bytes = map Some ys\<rparr>), next_addr := ?p + 1\<rparr>"
  have "write_bytes (Some ?p) 0 (map Some ys) ?h1 = Inr ?h"
    using write_bytes_at [of ?h1 ?p ?r "[]" "replicate (length ys) None" 0 "map Some ys"] by simp
  then have "buffer_push memory_available ys b h = (Inr (of_nat (length ys)), ?b, ?h)"
    using b n
    by (simp add: buffer_push_def try_advance_def Let_def allocate_bytes_def)
  moreover have "buf_inv h0 (lim + length ys) ?b ?h (length ys, ys)"
    using inv b n xs(1)
    by (auto simp: buf_inv_def buffer_ok_def only_block_def)
  ultimately show ?thesis by blast
qed

lemma push_room:
  assumes inv: "buf_inv h0 lim b h (cap, xs)" and cap: "0 < cap" and ys: "length ys < 2 ^ 64"
  shows "\<exists>b' h'. buffer_push memory_available ys b h = (Inr (of_nat (min (length ys) (cap - length xs))), b', h') \<and>
    buf_inv h0 (lim + length ys) b' h' (cap, xs @ take (cap - length xs) ys)"
proof -
  from inv cap obtain p rest where p: "m_data b = Some p"
    "blocks h p = Some \<lparr>resource = buffer_resource b, bytes = map Some xs @ rest\<rparr>"
    "length xs + length rest = cap" "unat (m_size b) = cap" "unat (m_cursor b) = length xs"
    "p < next_addr h" "cap \<le> lim"
    by (auto simp: buf_inv_def buffer_ok_def split: option.splits)
  let ?n = "min (length ys) (cap - length xs)"
  let ?w = "min (of_nat (length ys)) (m_size b - m_cursor b)"
  have ne: "m_size b \<noteq> 0" using cap p(4) by auto
  have le: "m_cursor b \<le> m_size b" using p(3-5) by (simp add: word_le_nat_alt)
  have diff: "unat (m_size b - m_cursor b) = cap - length xs"
    using p(4,5) unat_sub [OF le] by simp
  have w: "unat ?w = ?n"
    using diff ys by (simp add: min_def word_le_nat_alt unat_of_nat)
  have "?n < 2 ^ 64" using ys by simp
  then have "unat (of_nat ?n :: u64) = ?n" by (simp add: unat_of_nat)
  with w have w': "?w = of_nat ?n" by (simp only: word_unat_eq_iff)
  have cur: "unat (m_cursor b + ?w) = length xs + ?n"
  proof -
    have "length xs + ?n \<le> unat (m_size b)" using p(3,4) by simp
    also have "\<dots> < 2 ^ 64" using unsigned_less [of "m_size b"] by simp
    finally show ?thesis using w p(5) by (simp add: unat_word_ariths)
  qed
  let ?b = "b\<lparr>m_cursor := m_cursor b + ?w\<rparr>"
  let ?zs = "take ?n ys"
  let ?h = "h\<lparr>blocks := (blocks h)(p \<mapsto> \<lparr>resource = buffer_resource b,
      bytes = map Some xs @ map Some ?zs @ drop (length ?zs) rest\<rparr>)\<rparr>"
  have "write_bytes (Some p) (m_cursor b) (map Some ?zs) h = Inr ?h"
    using write_bytes_at [OF p(2), of "m_cursor b" "map Some ?zs"] p(3,5) by simp
  then have "buffer_push memory_available ys b h = (Inr (of_nat ?n), ?b, ?h)"
    using ne p(1) w by (simp add: buffer_push_def try_advance_def Let_def flip: w')
  moreover have "buf_inv h0 (lim + length ys) ?b ?h (cap, xs @ take (cap - length xs) ys)"
    using inv p cap cur
    by (auto simp: buf_inv_def buffer_ok_def only_block_def min_def)
  ultimately show ?thesis by blast
qed

lemma reserve_ok:
  assumes inv: "buf_inv h0 lim b h (cap, xs)" and n: "lim + unat n < 2 ^ 64"
  shows "\<exists>b' h'. buffer_reserve memory_available n b h = (Inr (), b', h') \<and>
    buf_inv h0 (lim + unat n) b' h' (max cap (length xs + unat n), xs)"
proof -
  from inv have c: "unat (m_cursor b) = length xs" "unat (m_size b) = cap" "length xs \<le> cap" "cap \<le> lim"
    by (auto simp: buf_inv_def buffer_ok_def split: option.splits)
  then have le: "m_cursor b \<le> m_size b" by (simp add: word_le_nat_alt)
  have diff: "unat (m_size b - m_cursor b) = cap - length xs"
    using c unat_sub [OF le] by simp
  show ?thesis
  proof (cases "n \<le> m_size b - m_cursor b")
    case True
    with diff c have "max cap (length xs + unat n) = cap" by (simp add: word_le_nat_alt)
    with True inv c show ?thesis by (auto simp: buffer_reserve_def buf_inv_def)
  next
    case False
    with diff have big: "cap < length xs + unat n" by (simp add: word_le_nat_alt)
    let ?N = "m_cursor b + n"
    let ?q = "next_addr h"
    let ?r = "buffer_resource b"
    have N: "unat ?N = length xs + unat n" using c n by (simp add: unat_word_ariths)
    let ?h1 = "h\<lparr>blocks := (blocks h)(?q \<mapsto> \<lparr>resource = ?r, bytes = replicate (length xs + unat n) None\<rparr>), next_addr := ?q + 1\<rparr>"
    let ?h2 = "?h1\<lparr>blocks := (blocks h)(?q \<mapsto> \<lparr>resource = ?r, bytes = map Some xs @ replicate (unat n) None\<rparr>)\<rparr>"
    let ?b = "b\<lparr>m_data := Some ?q, m_size := ?N\<rparr>"
    have alloc: "allocate_bytes memory_available ?r ?N h = (Inr ?q, ?h1)"
      using N by (simp add: allocate_bytes_def)
    have written: "write_bytes (Some ?q) 0 (map Some xs) ?h1 = Inr ?h2"
      using write_bytes_at [of ?h1 ?q ?r "[]" "replicate (length xs + unat n) None" 0 "map Some xs"] by simp
    show ?thesis
    proof (cases "m_data b")
      case None
      with inv have e: "xs = []" "cap = 0" by (auto simp: buf_inv_def buffer_ok_def)
      have "buffer_reserve memory_available n b h = (Inr (), ?b, ?h1)"
        using False alloc None by (simp add: buffer_reserve_def Let_def)
      moreover have "buf_inv h0 (lim + unat n) ?b ?h1 (max cap (length xs + unat n), xs)"
        using inv None N c big e by (auto simp: buf_inv_def buffer_ok_def only_block_def)
      ultimately show ?thesis by blast
    next
      case (Some p)
      with inv obtain rest where p: "blocks h p = Some \<lparr>resource = ?r, bytes = map Some xs @ rest\<rparr>"
        "length xs + length rest = unat (m_size b)" "p < ?q"
        by (auto simp: buf_inv_def buffer_ok_def)
      let ?h3 = "?h2\<lparr>blocks := (blocks ?h2)(p := None)\<rparr>"
      have free: "deallocate_bytes ?r p (m_size b) ?h2 = Inr ?h3"
        using p by (simp add: deallocate_bytes_def)
      have "buffer_reserve memory_available n b h = (Inr (), ?b, ?h3)"
      proof (cases "m_cursor b = 0")
        case True
        with c(1) have "xs = []" by simp
        with True False alloc written free Some show ?thesis
          by (simp add: buffer_reserve_def Let_def)
      next
        case False
        then have "0 < m_cursor b" by (simp add: word_gt_0)
        moreover have "read_bytes (Some p) (m_cursor b) ?h1 = Inr (map Some xs)"
          using False p c(1) by (simp add: read_bytes_def)
        ultimately show ?thesis
          using \<open>\<not> n \<le> m_size b - m_cursor b\<close> alloc written free Some
          by (simp add: buffer_reserve_def Let_def)
      qed
      moreover have "buf_inv h0 (lim + unat n) ?b ?h3 (max cap (length xs + unat n), xs)"
        using inv Some p N c big by (auto simp: buf_inv_def buffer_ok_def only_block_def)
      ultimately show ?thesis by blast
    qed
  qed
qed

section \<open>Sessions\<close>

datatype buf_op = Buf_push "byte list" | Buf_reserve u64 | Buf_clear

definition buf_step :: "availability \<Rightarrow> buf_op \<Rightarrow> buffer \<Rightarrow> heap \<Rightarrow> buf_error + buffer \<times> heap" where
  "buf_step avail p b h =
     (case p of
        Buf_push ys \<Rightarrow> (case buffer_push avail ys b h of (Inl e, _) \<Rightarrow> Inl e | (Inr _, b, h) \<Rightarrow> Inr (b, h))
      | Buf_reserve n \<Rightarrow> (case buffer_reserve avail n b h of (Inl e, _) \<Rightarrow> Inl e | (Inr _, b, h) \<Rightarrow> Inr (b, h))
      | Buf_clear \<Rightarrow> (case buffer_clear b h of (Inl e, _) \<Rightarrow> Inl e | (Inr _, b, h) \<Rightarrow> Inr (b, h)))"

fun buf_session :: "availability \<Rightarrow> buf_op list \<Rightarrow> buffer \<Rightarrow> heap \<Rightarrow> buf_error + buffer \<times> heap" where
  "buf_session avail [] b h = Inr (b, h)"
| "buf_session avail (p # ps) b h =
     (case buf_step avail p b h of Inl e \<Rightarrow> Inl e | Inr (b, h) \<Rightarrow> buf_session avail ps b h)"

text \<open>The same on capacity and contents.\<close>

fun spec_buf :: "buf_op \<Rightarrow> nat \<times> byte list \<Rightarrow> nat \<times> byte list" where
  "spec_buf (Buf_push ys) (cap, xs) =
     (if cap = 0 then (length ys, ys) else (cap, xs @ take (cap - length xs) ys))"
| "spec_buf (Buf_reserve n) (cap, xs) = (max cap (length xs + unat n), xs)"
| "spec_buf Buf_clear (cap, xs) = (0, [])"

fun buf_op_bytes :: "buf_op \<Rightarrow> nat" where
  "buf_op_bytes (Buf_push ys) = length ys"
| "buf_op_bytes (Buf_reserve n) = unat n"
| "buf_op_bytes Buf_clear = 0"

lemma buf_step_ok:
  assumes inv: "buf_inv h0 lim b h st" and n: "lim + buf_op_bytes p < 2 ^ 64" and p: "p \<noteq> Buf_push []"
  shows "\<exists>b' h'. buf_step memory_available p b h = Inr (b', h') \<and> buf_inv h0 (lim + buf_op_bytes p) b' h' (spec_buf p st)"
proof (cases st)
  case st: (Pair cap xs)
  show ?thesis
  proof (cases p)
    case (Buf_push ys)
    with p n have ys: "0 < length ys" "length ys < 2 ^ 64" by simp_all
    show ?thesis
    proof (cases "cap = 0")
      case True
      from push_fresh [OF inv [unfolded st True] ys] show ?thesis
        by (auto simp: buf_step_def Buf_push st True)
    next
      case False
      with push_room [OF inv [unfolded st] _ ys(2)] show ?thesis
        by (auto simp: buf_step_def Buf_push st)
    qed
  next
    case (Buf_reserve n)
    with reserve_ok [OF inv [unfolded st] _, of n] \<open>lim + buf_op_bytes p < 2 ^ 64\<close> show ?thesis
      by (auto simp: buf_step_def st)
  next
    case Buf_clear
    with clear_ok [OF inv [unfolded st]] show ?thesis by (auto simp: buf_step_def st)
  qed
qed

lemma buf_session_ok:
  "buf_inv h0 lim b h st \<Longrightarrow> lim + sum_list (map buf_op_bytes ps) < 2 ^ 64 \<Longrightarrow> Buf_push [] \<notin> set ps \<Longrightarrow>
   \<exists>b' h'. buf_session memory_available ps b h = Inr (b', h') \<and>
     buf_inv h0 (lim + sum_list (map buf_op_bytes ps)) b' h' (fold spec_buf ps st)"
proof (induction ps arbitrary: lim b h st)
  case (Cons p ps)
  from Cons.prems obtain b1 h1 where 1: "buf_step memory_available p b h = Inr (b1, h1)"
    "buf_inv h0 (lim + buf_op_bytes p) b1 h1 (spec_buf p st)"
    using buf_step_ok [OF Cons.prems(1), of p] by auto
  from Cons.IH [OF 1(2)] Cons.prems 1(1) show ?case by (auto simp: add.assoc)
qed auto

lemma buffer_new_inv:
  "(\<forall>p \<ge> next_addr h0. blocks h0 p = None) \<Longrightarrow> buf_inv h0 0 (buffer_of_allocator r) h0 (0, [])"
  by (simp add: buf_inv_def buffer_of_allocator_def buffer_ok_def only_block_def)



text \<open>
  Three cases the buffer does not handle. Pushing nothing to an empty buffer allocates a
  block of size 0 that the next push overwrites, so it is never freed. When the first
  allocation throws, the buffer keeps the size it asked for without a block, and the next push
  writes through the null pointer. And \<open>reserve\<close> of a size that overflows with the cursor
  allocates the wrapped size and copies the contents past its end.
\<close>

theorem buffer_edge_cases:
  "(\<exists>b h h'. buf_session memory_available [Buf_push [], Buf_push [x]] (buffer_of_allocator 0)
        \<lparr>blocks = \<lambda>_. None, next_addr = 0\<rparr> = Inr (b, h) \<and>
      (\<exists>b'. buffer_clear b h = (Inr (), b', h')) \<and> blocks h' 0 \<noteq> None) \<and>
   (\<exists>b h b' h'. buffer_push (\<lambda>_ _ _. False) [x] (buffer_of_allocator 0)
        \<lparr>blocks = \<lambda>_. None, next_addr = 0\<rparr> = (Inl Bad_alloc, b, h) \<and>
      buffer_push memory_available [x] b h = (Inl Undefined_behaviour, b', h')) \<and>
   (\<exists>b h b' h'. buffer_push memory_available [x] (buffer_of_allocator 0)
        \<lparr>blocks = \<lambda>_. None, next_addr = 0\<rparr> = (Inr 1, b, h) \<and>
      buffer_reserve memory_available (- 1) b h = (Inl Undefined_behaviour, b', h'))"
  by (simp add: buffer_reserve_def read_bytes_def buf_step_def buffer_push_def try_advance_def allocate_bytes_def write_bytes_def
      buffer_of_allocator_def buffer_clear_def deallocate_bytes_def buffer_resource_def)

end
