(* ===== verification/Execution.thy ===== *)
theory Execution
  imports Asco_Prelude
begin

text \<open>
  \<open>asco/core/task/execution_domain\<close>, \<open>executor\<close> and \<open>asco/core/cancellation\<close>: the executions of
  a domain (stacks of coroutine handles), their states, and the step that resumes the top of a
  stack and cleans up after a cancellation. Coroutine handles, cancel sources and domains are
  addresses (0 is null). The hash maps of a domain are finite maps here (\<open>Hash_Map_Spec\<close> is
  why); \<open>insert\<close> keeps an existing entry. Resuming a coroutine is a parameter.
\<close>

section \<open>Executions and domains\<close>

type_synonym handle = nat

datatype execution_state = Exec_active | Exec_running | Exec_suspended

definition nest_max_depth :: nat where "nest_max_depth = 4"

record execution =
  exec_id :: handle
  handle_stack :: "handle list"
  cancel_src_stack :: "nat list"
  subdomain :: "nat option"
  cancel_src_stack_size :: nat
  cancel_callback_stack :: "nat list"
  exec_state :: execution_state

text \<open>The top of a stack is its last element, as in the \<open>std::vector\<close>.\<close>

definition execution_new :: "handle \<Rightarrow> execution" where
  "execution_new i =
     \<lparr>exec_id = i, handle_stack = [i], cancel_src_stack = replicate (nest_max_depth + 1) 0,
      subdomain = None, cancel_src_stack_size = 0, cancel_callback_stack = [], exec_state = Exec_active\<rparr>"

text \<open>Moving an execution leaves the callbacks behind (the member is not in the initialiser list).\<close>

definition execution_move :: "execution \<Rightarrow> execution" where
  "execution_move rhs = rhs\<lparr>cancel_callback_stack := []\<rparr>"

record domain =
  parent_domain :: "nat option"
  parent_execution :: handle
  execution_list :: "handle set"
  executions :: "handle \<Rightarrow> execution option"
  corohandle_exec_map :: "handle \<Rightarrow> handle option"

definition domain_new :: domain where
  "domain_new = \<lparr>parent_domain = None, parent_execution = 0, execution_list = {},
     executions = Map.empty, corohandle_exec_map = Map.empty\<rparr>"

definition insert_new :: "'k \<Rightarrow> 'v \<Rightarrow> ('k \<Rightarrow> 'v option) \<Rightarrow> 'k \<Rightarrow> 'v option" where
  "insert_new k v m = (if m k = None then m(k \<mapsto> v) else m)"

text \<open>The array of cancel sources after \<open>attach_execution\<close>; writes past its end are an error.\<close>

definition attach_sources :: "nat list \<Rightarrow> nat \<Rightarrow> nat list \<Rightarrow> nat list outcome" where
  "attach_sources parents src stack =
     (if \<not> length parents < nest_max_depth then Inl Assertion_failed
      else if length parents + 1 < length stack
      then Inr ((parents @ drop (length parents) stack)[length parents := src, length parents + 1 := 0])
      else Inl Os_failure)"

definition domain_attach :: "handle \<Rightarrow> nat list \<Rightarrow> nat \<Rightarrow> domain \<Rightarrow> domain outcome" where
  "domain_attach i parents src d =
     (case attach_sources parents src (cancel_src_stack (execution_new i)) of
        Inl e \<Rightarrow> Inl e
      | Inr stack \<Rightarrow>
          (let exec = (execution_new i)\<lparr>cancel_src_stack := stack, cancel_src_stack_size := length parents + 1\<rparr> in
           Inr (d\<lparr>executions := insert_new i (execution_move exec) (executions d),
                  corohandle_exec_map := insert_new i i (corohandle_exec_map d),
                  execution_list := insert i (execution_list d)\<rparr>)))"

definition domain_detach :: "handle \<Rightarrow> domain \<Rightarrow> domain" where
  "domain_detach i d =
     d\<lparr>executions := (executions d)(i := None),
       corohandle_exec_map := (corohandle_exec_map d)(i := None),
       execution_list := execution_list d - {i}\<rparr>"

definition domain_set_state :: "handle \<Rightarrow> execution_state \<Rightarrow> domain \<Rightarrow> domain outcome" where
  "domain_set_state i st d =
     (case executions d i of
        None \<Rightarrow> Inl Assertion_failed
      | Some e \<Rightarrow> Inr (d\<lparr>executions := (executions d)(i \<mapsto> e\<lparr>exec_state := st\<rparr>)\<rparr>))"

definition schedule_execution :: "handle \<Rightarrow> domain \<Rightarrow> domain outcome" where
  "schedule_execution i d = domain_set_state i Exec_running d"

definition suspend_execution :: "handle \<Rightarrow> domain \<Rightarrow> domain outcome" where
  "suspend_execution i d = domain_set_state i Exec_suspended d"

definition activate_execution :: "handle \<Rightarrow> domain \<Rightarrow> domain outcome" where
  "activate_execution i d = domain_set_state i Exec_active d"

text \<open>\<open>activate_all\<close>, for the order in which the unordered set is iterated.\<close>

fun activate_all :: "handle list \<Rightarrow> domain \<Rightarrow> domain outcome" where
  "activate_all [] d = Inr d"
| "activate_all (i # is) d = (case activate_execution i d of Inl e \<Rightarrow> Inl e | Inr d \<Rightarrow> activate_all is d)"

definition get_execution_state :: "handle \<Rightarrow> domain \<Rightarrow> execution_state outcome" where
  "get_execution_state i d =
     (case executions d i of None \<Rightarrow> Inl Assertion_failed | Some e \<Rightarrow> Inr (exec_state e))"

definition top_of_execution :: "handle \<Rightarrow> domain \<Rightarrow> handle outcome" where
  "top_of_execution i d =
     (case executions d i of
        None \<Rightarrow> Inl Missing_entry
      | Some e \<Rightarrow> if handle_stack e = [] then Inr 0 else Inr (last (handle_stack e)))"

definition execution_of_coroutine :: "handle \<Rightarrow> domain \<Rightarrow> handle outcome" where
  "execution_of_coroutine h d =
     (case corohandle_exec_map d h of None \<Rightarrow> Inl Missing_entry | Some i \<Rightarrow> Inr i)"

definition domain_is_empty :: "domain \<Rightarrow> bool" where
  "domain_is_empty d \<longleftrightarrow> dom (executions d) = {}"

section \<open>The executor\<close>

text \<open>
  What the executor does to the outside, in order: the calls of the scheduler contexts, the
  callbacks it runs, and the coroutine frames it destroys.
\<close>

datatype exec_event =
    Ctx_begin nat
  | Ctx_end nat bool
  | Run_callback nat
  | Destroy_frame handle

text \<open>
  The executor and the domain it works on: \<open>current\<close> is the running execution (\<open>m_execution\<close>
  and \<open>m_domain\<close> are set together), \<open>tokens\<close> the sources of \<open>m_current_cancel_token_stack\<close>,
  \<open>stopped\<close> the sources whose stop has been requested.
\<close>

record exec_world =
  w_domain :: domain
  current :: "handle option"
  tokens :: "nat list"
  stopped :: "nat set"
  events :: "exec_event list"

definition request_cancel :: "nat \<Rightarrow> exec_world \<Rightarrow> exec_world" where
  "request_cancel src w = w\<lparr>stopped := insert src (stopped w)\<rparr>"

definition running_execution :: "exec_world \<Rightarrow> execution option" where
  "running_execution w = (case current w of None \<Rightarrow> None | Some i \<Rightarrow> executions (w_domain w) i)"

definition update_running :: "(execution \<Rightarrow> execution) \<Rightarrow> exec_world \<Rightarrow> exec_world" where
  "update_running f w =
     (case current w of
        None \<Rightarrow> w
      | Some i \<Rightarrow>
          w\<lparr>w_domain := (w_domain w)\<lparr>executions := (executions (w_domain w))(i := map_option f (executions (w_domain w) i))\<rparr>\<rparr>)"

definition push_handle :: "handle \<Rightarrow> exec_world \<Rightarrow> exec_world outcome" where
  "push_handle h w =
     (case running_execution w of
        None \<Rightarrow> Inl Assertion_failed
      | Some e \<Rightarrow>
          (let w = update_running (\<lambda>e. e\<lparr>handle_stack := handle_stack e @ [h]\<rparr>) w in
           Inr (w\<lparr>w_domain := (w_domain w)\<lparr>corohandle_exec_map :=
                   insert_new h (hd (handle_stack e @ [h])) (corohandle_exec_map (w_domain w))\<rparr>\<rparr>)))"

definition pop_handle :: "exec_world \<Rightarrow> (handle \<times> exec_world) outcome" where
  "pop_handle w =
     (case running_execution w of
        None \<Rightarrow> Inl Assertion_failed
      | Some e \<Rightarrow>
          if handle_stack e = [] then Inr (0, w)
          else
            (let hdl = last (handle_stack e);
                 w = update_running (\<lambda>e. e\<lparr>handle_stack := butlast (handle_stack e)\<rparr>) w in
             Inr (hdl, w\<lparr>w_domain := (w_domain w)\<lparr>corohandle_exec_map :=
                   (corohandle_exec_map (w_domain w))(hdl := None)\<rparr>\<rparr>)))"

definition current_coroutine :: "exec_world \<Rightarrow> handle" where
  "current_coroutine w =
     (case running_execution w of
        None \<Rightarrow> 0
      | Some e \<Rightarrow> if handle_stack e = [] then 0 else last (handle_stack e))"

definition current_execution :: "exec_world \<Rightarrow> handle" where
  "current_execution w = (case current w of None \<Rightarrow> 0 | Some i \<Rightarrow> i)"

definition is_base_coroutine :: "handle \<Rightarrow> exec_world \<Rightarrow> bool" where
  "is_base_coroutine h w =
     (case running_execution w of None \<Rightarrow> False | Some e \<Rightarrow> handle_stack e \<noteq> [] \<and> hd (handle_stack e) = h)"

text \<open>\<open>cancel_callback\<close>: the constructor pushes, the destructor pops whatever is on top.\<close>

definition callback_new :: "nat \<Rightarrow> exec_world \<Rightarrow> exec_world" where
  "callback_new c w = update_running (\<lambda>e. e\<lparr>cancel_callback_stack := cancel_callback_stack e @ [c]\<rparr>) w"

definition callback_dtor :: "exec_world \<Rightarrow> exec_world" where
  "callback_dtor w = update_running (\<lambda>e. e\<lparr>cancel_callback_stack := butlast (cancel_callback_stack e)\<rparr>) w"

text \<open>The callbacks run from the last to the first; a callback is popped after it ran.\<close>

definition invoke_callbacks :: "exec_world \<Rightarrow> exec_world" where
  "invoke_callbacks w =
     (case running_execution w of
        None \<Rightarrow> w
      | Some e \<Rightarrow>
          (update_running (\<lambda>e. e\<lparr>cancel_callback_stack := []\<rparr>) w)
            \<lparr>events := events w @ map Run_callback (rev (cancel_callback_stack e))\<rparr>)"

text \<open>The loop that pops and destroys every frame of the stack.\<close>

fun destroy_frames :: "nat \<Rightarrow> exec_world \<Rightarrow> exec_world outcome" where
  "destroy_frames 0 w = Inr w"
| "destroy_frames (Suc n) w =
     (case pop_handle w of
        Inl e \<Rightarrow> Inl e
      | Inr (h, w) \<Rightarrow> destroy_frames n (w\<lparr>events := events w @ [Destroy_frame h]\<rparr>))"

definition cancel_cleanup :: "exec_world \<Rightarrow> (bool \<times> exec_world) outcome" where
  "cancel_cleanup w =
     (if list_all (\<lambda>src. src \<notin> stopped w) (tokens w) then Inr (False, w)
      else
        (let w = invoke_callbacks w;
             n = (case running_execution w of None \<Rightarrow> 0 | Some e \<Rightarrow> length (handle_stack e)) in
         case destroy_frames n w of Inl e \<Rightarrow> Inl e | Inr w \<Rightarrow> Inr (True, w)))"

text \<open>\<open>exit_stack\<close>: the contexts end from the innermost out; only the innermost may be completed.\<close>

definition end_contexts :: "nat list \<Rightarrow> bool \<Rightarrow> exec_event list" where
  "end_contexts ctxs completed =
     (case rev ctxs of [] \<Rightarrow> [] | c # cs \<Rightarrow> Ctx_end c completed # map (\<lambda>c. Ctx_end c False) cs)"

definition exit_stack :: "nat list \<Rightarrow> bool \<Rightarrow> exec_world \<Rightarrow> exec_world" where
  "exit_stack ctxs completed w =
     w\<lparr>events := events w @ end_contexts ctxs completed, current := None\<rparr>"

definition execute :: "(handle \<Rightarrow> exec_world \<Rightarrow> exec_world) \<Rightarrow> handle \<Rightarrow> nat list \<Rightarrow> exec_world \<Rightarrow>
    (bool \<times> exec_world) outcome" where
  "execute resume i ctxs w =
     (case executions (w_domain w) i of
        None \<Rightarrow> Inl Assertion_failed
      | Some e \<Rightarrow>
          if handle_stack e = [] then Inr (False, w\<lparr>current := None\<rparr>)
          else
            (let w = w\<lparr>current := Some i, tokens := take (cancel_src_stack_size e) (cancel_src_stack e),
                       events := events w @ map Ctx_begin ctxs\<rparr> in
             case cancel_cleanup w of
               Inl err \<Rightarrow> Inl err
             | Inr (True, w) \<Rightarrow> Inr (False, exit_stack ctxs True w)
             | Inr (False, w) \<Rightarrow>
                 (case cancel_cleanup (resume (last (handle_stack e)) w) of
                    Inl err \<Rightarrow> Inl err
                  | Inr (True, w) \<Rightarrow> Inr (False, exit_stack ctxs True w)
                  | Inr (False, w) \<Rightarrow>
                      (let res = (case running_execution w of None \<Rightarrow> False | Some e \<Rightarrow> handle_stack e \<noteq> []) in
                       Inr (res, exit_stack ctxs (\<not> res) w)))))"

section \<open>Attaching\<close>

lemma attach_sources_ok:
  assumes "length parents < nest_max_depth" "length stack = nest_max_depth + 1"
  shows "\<exists>st. attach_sources parents src stack = Inr st \<and> length st = nest_max_depth + 1 \<and>
    take (length parents + 1) st = parents @ [src] \<and> st ! (length parents + 1) = 0"
proof -
  let ?st = "(parents @ drop (length parents) stack)[length parents := src, length parents + 1 := 0]"
  have "take (length parents + 1) ?st = parents @ [src]"
    using assms by (intro nth_equalityI) (auto simp: nth_append nth_list_update less_Suc_eq)
  with assms show ?thesis
    by (intro exI [of _ ?st]) (auto simp: attach_sources_def nth_list_update)
qed

text \<open>
  A new execution is attached within the bounds of its array of cancel sources as long as
  the domains are nested less deep than the limit (and the assertion stops it otherwise): the
  sources it will poll are those of its parents and then its own, and its state is active.
\<close>

theorem domain_attach_sources:
  assumes "executions d i = None"
  shows "if length parents < nest_max_depth
    then \<exists>d' e. domain_attach i parents src d = Inr d' \<and> executions d' i = Some e \<and>
      take (cancel_src_stack_size e) (cancel_src_stack e) = parents @ [src] \<and>
      handle_stack e = [i] \<and> exec_state e = Exec_active \<and>
      (\<forall>j. j \<noteq> i \<longrightarrow> executions d' j = executions d j)
    else domain_attach i parents src d = Inl Assertion_failed"
proof (cases "length parents < nest_max_depth")
  case True
  obtain st where "attach_sources parents src (cancel_src_stack (execution_new i)) = Inr st"
    "take (length parents + 1) st = parents @ [src]"
    using attach_sources_ok [OF True, of "cancel_src_stack (execution_new i)" src]
    by (auto simp: execution_new_def)
  with True assms show ?thesis
    by (simp add: domain_attach_def insert_new_def execution_move_def execution_new_def)
next
  case False
  then show ?thesis by (simp add: domain_attach_def attach_sources_def)
qed

theorem domain_attach_sources_witness:
  "domain_attach 7 [1, 2, 3, 4] 5 domain_new = Inl Assertion_failed \<and>
   (\<exists>d e. domain_attach 7 [1] 5 domain_new = Inr d \<and> executions d 7 = Some e \<and>
      take (cancel_src_stack_size e) (cancel_src_stack e) = [1, 5])"
  using domain_attach_sources [of domain_new 7 "[1, 2, 3, 4]" 5] domain_attach_sources [of domain_new 7 "[1]" 5]
  by (auto simp: domain_new_def nest_max_depth_def)

section \<open>Cancellation\<close>

lemma running_update:
  "running_execution (update_running f w) = map_option f (running_execution w)"
  "current (update_running f w) = current w" "events (update_running f w) = events w"
  "tokens (update_running f w) = tokens w" "stopped (update_running f w) = stopped w"
  "corohandle_exec_map (w_domain (update_running f w)) = corohandle_exec_map (w_domain w)"
  by (simp_all add: running_execution_def update_running_def split: option.splits)

lemma running_other [simp]:
  "running_execution (w\<lparr>events := x\<rparr>) = running_execution w"
  "running_execution (w\<lparr>tokens := ts\<rparr>) = running_execution w"
  "running_execution (w\<lparr>w_domain := (w_domain w)\<lparr>corohandle_exec_map := m\<rparr>\<rparr>) = running_execution w"
  by (simp_all add: running_execution_def split: option.split)

lemma destroy_frames_all:
  "running_execution w = Some e \<Longrightarrow> length (handle_stack e) = n \<Longrightarrow>
   \<exists>w'. destroy_frames n w = Inr w' \<and> running_execution w' = Some (e\<lparr>handle_stack := []\<rparr>) \<and>
     current w' = current w \<and> events w' = events w @ map Destroy_frame (rev (handle_stack e)) \<and>
     (\<forall>h. corohandle_exec_map (w_domain w') h =
        (if h \<in> set (handle_stack e) then None else corohandle_exec_map (w_domain w) h))"
proof (induction n arbitrary: w e)
  case 0
  then show ?case by simp
next
  case (Suc n)
  from Suc.prems(2) obtain hs h where hs: "handle_stack e = hs @ [h]" "length hs = n"
    by (cases "handle_stack e" rule: rev_cases) auto
  let ?w = "update_running (\<lambda>e. e\<lparr>handle_stack := butlast (handle_stack e)\<rparr>) w"
  let ?w2 = "?w\<lparr>w_domain := (w_domain ?w)\<lparr>corohandle_exec_map := (corohandle_exec_map (w_domain ?w))(h := None)\<rparr>\<rparr>"
  let ?w3 = "?w2\<lparr>events := events ?w2 @ [Destroy_frame h]\<rparr>"
  have pop: "pop_handle w = Inr (h, ?w2)"
    using Suc.prems(1) hs by (simp add: pop_handle_def Let_def)
  have run: "running_execution ?w3 = Some (e\<lparr>handle_stack := hs\<rparr>)"
    using Suc.prems(1) hs by (simp add: running_update)
  from Suc.IH [OF run] hs(2) obtain w' where w': "destroy_frames n ?w3 = Inr w'"
    "running_execution w' = Some (e\<lparr>handle_stack := []\<rparr>)" "current w' = current ?w3"
    "events w' = events ?w3 @ map Destroy_frame (rev hs)"
    "\<forall>g. corohandle_exec_map (w_domain w') g =
        (if g \<in> set hs then None else corohandle_exec_map (w_domain ?w3) g)"
    by auto
  have "destroy_frames (Suc n) w = Inr w'" using pop w'(1) by simp
  moreover have "events w' = events w @ map Destroy_frame (rev (handle_stack e))"
    using w'(4) hs by (simp add: running_update)
  moreover have "\<forall>g. corohandle_exec_map (w_domain w') g =
        (if g \<in> set (handle_stack e) then None else corohandle_exec_map (w_domain w) g)"
    using w'(5) hs by (simp add: running_update)
  ultimately show ?case using w'(2,3) by (simp add: running_update)
qed

lemma cancel_cleanup_all:
  assumes run: "running_execution w = Some e" and src: "src \<in> set (tokens w)" "src \<in> stopped w"
  shows "\<exists>w'. cancel_cleanup w = Inr (True, w') \<and>
    running_execution w' = Some (e\<lparr>handle_stack := [], cancel_callback_stack := []\<rparr>) \<and>
    current w' = current w \<and>
    events w' = events w @ map Run_callback (rev (cancel_callback_stack e)) @ map Destroy_frame (rev (handle_stack e)) \<and>
    (\<forall>h. corohandle_exec_map (w_domain w') h =
        (if h \<in> set (handle_stack e) then None else corohandle_exec_map (w_domain w) h))"
proof -
  let ?w = "invoke_callbacks w"
  have i: "running_execution ?w = Some (e\<lparr>cancel_callback_stack := []\<rparr>)" "current ?w = current w"
    "events ?w = events w @ map Run_callback (rev (cancel_callback_stack e))"
    "corohandle_exec_map (w_domain ?w) = corohandle_exec_map (w_domain w)"
    using run by (simp_all add: invoke_callbacks_def running_update)
  from destroy_frames_all [OF i(1) refl] i(2-4) obtain w' where
    w': "destroy_frames (length (handle_stack e)) ?w = Inr w'"
      "running_execution w' = Some (e\<lparr>handle_stack := [], cancel_callback_stack := []\<rparr>)"
      "current w' = current w"
      "events w' = events w @ map Run_callback (rev (cancel_callback_stack e)) @ map Destroy_frame (rev (handle_stack e))"
      "\<forall>h. corohandle_exec_map (w_domain w') h =
        (if h \<in> set (handle_stack e) then None else corohandle_exec_map (w_domain w) h)"
    by auto
  moreover have "\<not> list_all (\<lambda>src. src \<notin> stopped w) (tokens w)"
    using src by (auto simp: list_all_iff)
  then have "cancel_cleanup w = Inr (True, w')"
    using i(1) w'(1) by (simp add: cancel_cleanup_def Let_def)
  ultimately show ?thesis by blast
qed

text \<open>
  C18: An execution that is scheduled after one of its cancel sources (its own or that of an
  enclosing domain) was asked to stop is never resumed. Its callbacks run from the last
  registered to the first, before any frame goes; then all its frames are destroyed, the
  innermost call first, and no handle of it stays registered; the scheduler contexts end from
  the inside out, and only the innermost is told that the execution completed; \<open>execute\<close>
  returns false.
\<close>

theorem execute_cancelled:
  assumes "executions (w_domain w) i = Some e" "handle_stack e \<noteq> []"
    and "src \<in> set (take (cancel_src_stack_size e) (cancel_src_stack e))" "src \<in> stopped w"
  shows "\<exists>w'. execute resume i ctxs w = Inr (False, w') \<and>
    events w' = events w @ map Ctx_begin ctxs @ map Run_callback (rev (cancel_callback_stack e)) @
      map Destroy_frame (rev (handle_stack e)) @ end_contexts ctxs True \<and>
    executions (w_domain w') i = Some (e\<lparr>handle_stack := [], cancel_callback_stack := []\<rparr>) \<and>
    (\<forall>h. h \<in> set (handle_stack e) \<longrightarrow> corohandle_exec_map (w_domain w') h = None)"
proof -
  let ?w = "w\<lparr>current := Some i, tokens := take (cancel_src_stack_size e) (cancel_src_stack e),
              events := events w @ map Ctx_begin ctxs\<rparr>"
  have "running_execution ?w = Some e" using assms(1) by (simp add: running_execution_def)
  from cancel_cleanup_all [OF this, of src] assms(3,4) obtain w' where
    w': "cancel_cleanup ?w = Inr (True, w')" "current w' = Some i"
      "running_execution w' = Some (e\<lparr>handle_stack := [], cancel_callback_stack := []\<rparr>)"
      "events w' = events w @ map Ctx_begin ctxs @ map Run_callback (rev (cancel_callback_stack e)) @
         map Destroy_frame (rev (handle_stack e))"
      "\<forall>h. h \<in> set (handle_stack e) \<longrightarrow> corohandle_exec_map (w_domain w') h = None"
    by auto
  then have "execute resume i ctxs w = Inr (False, exit_stack ctxs True w')"
    using assms(1,2) by (simp add: execute_def Let_def)
  with w' show ?thesis by (simp add: exit_stack_def running_execution_def)
qed

theorem execute_cancelled_witness:
  "\<exists>d w'. domain_attach 7 [1] 5 domain_new = Inr d \<and>
     execute (\<lambda>h w. w) 7 [20, 21] \<lparr>w_domain = d, current = None, tokens = [], stopped = {1}, events = []\<rparr> =
       Inr (False, w') \<and>
     events w' = [Ctx_begin 20, Ctx_begin 21, Destroy_frame 7, Ctx_end 21 True, Ctx_end 20 False]"
proof -
  obtain d e where d: "domain_attach 7 [1] 5 domain_new = Inr d" "executions d 7 = Some e"
    "take (cancel_src_stack_size e) (cancel_src_stack e) = [1, 5]" "handle_stack e = [7]"
    "cancel_callback_stack e = []"
    by (simp add: domain_attach_def attach_sources_def execution_new_def execution_move_def
        insert_new_def domain_new_def nest_max_depth_def numeral_eq_Suc)
  let ?w = "\<lparr>w_domain = d, current = None, tokens = [], stopped = {1}, events = []\<rparr>"
  from execute_cancelled [of ?w 7 e 1 "\<lambda>h w. w" "[20, 21]"] d show ?thesis
    by (auto simp: end_contexts_def)
qed

end
