(* ===== verification/Scheduler.thy ===== *)
theory Scheduler
  imports Execution
begin

text \<open>
  \<open>asco/core/task/scheduler.h\<close>, \<open>cycle_scheduler.h\<close> and \<open>dynprio_scheduler\<close>: the two schedulers
  of a domain, operation by operation, and the chain of nested domains along which an awakening
  is passed. A scheduler works on its domain, so every operation maps a scheduler and a domain
  to both; a failed assertion is \<open>Inl\<close>.
\<close>

section \<open>Round robin\<close>

record cyc_entry =
  ce_id :: handle
  ce_active :: bool
  ce_suspend_now :: bool
  ce_preawaken :: bool
  ce_detached :: bool

record cycle_scheduler =
  cs_current :: nat
  cs_entries :: "cyc_entry list"
  cs_fill :: nat
  cs_active_count :: u64
  cs_detached_count :: u64
  cs_index_map :: "(handle \<times> nat) list"

definition cyc_entry_new :: "handle \<Rightarrow> cyc_entry" where
  "cyc_entry_new i = \<lparr>ce_id = i, ce_active = True, ce_suspend_now = False, ce_preawaken = False, ce_detached = False\<rparr>"

definition cyc_new :: "nat \<Rightarrow> cycle_scheduler" where
  "cyc_new n = \<lparr>cs_current = 0, cs_entries = replicate n (cyc_entry_new 0), cs_fill = 0,
     cs_active_count = 0, cs_detached_count = 0, cs_index_map = replicate n (0, 0)\<rparr>"

type_synonym cyc_result = "(cycle_scheduler \<times> domain) outcome"

definition cyc_update :: "nat \<Rightarrow> (cyc_entry \<Rightarrow> cyc_entry) \<Rightarrow> cycle_scheduler \<Rightarrow> cycle_scheduler" where
  "cyc_update j f s = s\<lparr>cs_entries := (cs_entries s)[j := f (cs_entries s ! j)]\<rparr>"

text \<open>The loops over \<open>m_execution_index_map\<close> stop at the first pair with the id.\<close>

definition cyc_find :: "handle \<Rightarrow> cycle_scheduler \<Rightarrow> nat option" where
  "cyc_find i s = map_option snd (find (\<lambda>p. fst p = i) (cs_index_map s))"

definition cyc_attach :: "handle \<Rightarrow> cycle_scheduler \<Rightarrow> cycle_scheduler outcome" where
  "cyc_attach i s =
     (if \<not> cs_fill s < length (cs_entries s) then Inl Assertion_failed
      else Inr (s\<lparr>cs_entries := (cs_entries s)[cs_fill s := cyc_entry_new i],
                  cs_index_map := (cs_index_map s)[cs_fill s := (i, cs_fill s)],
                  cs_active_count := cs_active_count s + 1,
                  cs_fill := cs_fill s + 1\<rparr>))"

definition cyc_detach :: "handle \<Rightarrow> cycle_scheduler \<Rightarrow> cycle_scheduler outcome" where
  "cyc_detach i s =
     (case cyc_find i s of
        None \<Rightarrow> Inr s
      | Some j \<Rightarrow>
          if ce_active (cs_entries s ! j) then Inl Assertion_failed
          else Inr ((cyc_update j (\<lambda>e. e\<lparr>ce_detached := True, ce_id := 0\<rparr>) s)
                      \<lparr>cs_detached_count := cs_detached_count s + 1\<rparr>))"

definition cyc_awake :: "handle \<Rightarrow> cycle_scheduler \<times> domain \<Rightarrow> cyc_result" where
  "cyc_awake i sd =
     (case sd of (s, d) \<Rightarrow>
        case cyc_find i s of
          None \<Rightarrow> Inr (s, d)
        | Some j \<Rightarrow>
            if \<not> ce_active (cs_entries s ! j)
            then (let s = (cyc_update j (\<lambda>e. e\<lparr>ce_suspend_now := False, ce_active := True\<rparr>) s)
                            \<lparr>cs_active_count := cs_active_count s + 1\<rparr> in
                  case activate_execution i d of Inl e \<Rightarrow> Inl e | Inr d \<Rightarrow> Inr (s, d))
            else Inr (cyc_update j (\<lambda>e. e\<lparr>ce_preawaken := True\<rparr>) s, d))"

definition cyc_suspend :: "handle \<Rightarrow> cycle_scheduler \<times> domain \<Rightarrow> cyc_result" where
  "cyc_suspend i sd =
     (case sd of (s, d) \<Rightarrow>
        case cyc_find i s of
          None \<Rightarrow> Inr (s, d)
        | Some j \<Rightarrow>
            if ce_preawaken (cs_entries s ! j)
            then Inr (cyc_update j (\<lambda>e. e\<lparr>ce_preawaken := False\<rparr>) s, d)
            else (let s = cyc_update j (\<lambda>e. e\<lparr>ce_suspend_now := True\<rparr>) s in
                  case suspend_execution i d of Inl e \<Rightarrow> Inl e | Inr d \<Rightarrow> Inr (s, d)))"

text \<open>\<open>cycle_context::end\<close> of the context with index \<open>j\<close>.\<close>

definition cyc_end :: "nat \<Rightarrow> bool \<Rightarrow> cycle_scheduler \<times> domain \<Rightarrow> cyc_result" where
  "cyc_end j completed sd =
     (case sd of (s, d) \<Rightarrow>
        let e = cs_entries s ! j; fin = cyc_update j (\<lambda>e. e\<lparr>ce_suspend_now := False\<rparr>) in
        if (ce_suspend_now e \<and> \<not> ce_preawaken e) \<or> completed
        then (let s = (cyc_update j (\<lambda>e. e\<lparr>ce_active := False\<rparr>) s)
                        \<lparr>cs_active_count := cs_active_count s - 1\<rparr> in
              case suspend_execution (ce_id e) d of Inl er \<Rightarrow> Inl er | Inr d \<Rightarrow> Inr (fin s, d))
        else (case activate_execution (ce_id e) d of Inl er \<Rightarrow> Inl er | Inr d \<Rightarrow> Inr (fin s, d)))"

text \<open>
  \<open>schedule\<close>: the result is the index of the chosen entry. The loop does not end when no entry
  is active (\<open>None\<close>).
\<close>

definition cyc_eligible :: "cycle_scheduler \<Rightarrow> nat \<Rightarrow> bool" where
  "cyc_eligible s n \<longleftrightarrow>
     (let e = cs_entries s ! (n mod length (cs_entries s)) in \<not> ce_detached e \<and> ce_active e)"

partial_function (option) cyc_schedule :: "cycle_scheduler \<Rightarrow> (nat \<times> cycle_scheduler) option" where
  "cyc_schedule s =
     (if \<not> cyc_eligible s (cs_current s) then cyc_schedule (s\<lparr>cs_current := cs_current s + 1\<rparr>)
      else Some (cs_current s mod length (cs_entries s), s\<lparr>cs_current := cs_current s + 1\<rparr>))"

definition cyc_has_active :: "cycle_scheduler \<Rightarrow> bool" where
  "cyc_has_active s \<longleftrightarrow> cs_active_count s > 0"

definition cyc_has_suspended :: "cycle_scheduler \<Rightarrow> bool" where
  "cyc_has_suspended s \<longleftrightarrow>
     of_nat (length (cs_entries s)) - cs_active_count s - cs_detached_count s > 0"

section \<open>Dynamic priorities\<close>

text \<open>
  The priority queue is the list of its entries in the order of insertion (\<open>operator<\<close> is reversed,
  so its top has the least priority value). The hash sets and maps are sets and maps.
\<close>

record dynprio_scheduler =
  dp_current :: "handle \<times> u64"
  dp_current_suspend :: bool
  dp_active :: "(handle \<times> u64) list"
  dp_suspended :: "handle set"
  dp_preawake :: "handle set"
  dp_ctx :: "handle \<Rightarrow> u64 option"

definition dyn_new :: dynprio_scheduler where
  "dyn_new = \<lparr>dp_current = (0, 0), dp_current_suspend = False, dp_active = [], dp_suspended = {},
     dp_preawake = {}, dp_ctx = Map.empty\<rparr>"

type_synonym dyn_result = "(dynprio_scheduler \<times> domain) outcome"

definition dyn_attach :: "handle \<Rightarrow> dynprio_scheduler \<Rightarrow> dynprio_scheduler outcome" where
  "dyn_attach i s =
     (if dp_ctx s i \<noteq> None then Inl Assertion_failed
      else Inr (s\<lparr>dp_ctx := (dp_ctx s)(i \<mapsto> 0), dp_active := dp_active s @ [(i, 0)]\<rparr>))"

definition dyn_detach :: "handle \<Rightarrow> dynprio_scheduler \<Rightarrow> dynprio_scheduler" where
  "dyn_detach i s =
     (if i \<in> dp_suspended s
      then s\<lparr>dp_suspended := dp_suspended s - {i}, dp_ctx := (dp_ctx s)(i := None)\<rparr> else s)"

text \<open>\<open>awake_execution\<close>, without the part that goes on to the parent domain.\<close>

definition dyn_awake :: "handle \<Rightarrow> dynprio_scheduler \<times> domain \<Rightarrow> dyn_result" where
  "dyn_awake i sd =
     (case sd of (s, d) \<Rightarrow>
        if dp_ctx s i = None then Inr (s, d)
        else if i \<in> dp_suspended s
        then (let s = s\<lparr>dp_suspended := dp_suspended s - {i}, dp_active := dp_active s @ [(i, 0)]\<rparr> in
              case activate_execution i d of Inl e \<Rightarrow> Inl e | Inr d \<Rightarrow> Inr (s, d))
        else Inr (s\<lparr>dp_preawake := insert i (dp_preawake s)\<rparr>, d))"

definition dyn_suspend :: "handle \<Rightarrow> dynprio_scheduler \<times> domain \<Rightarrow> dyn_result" where
  "dyn_suspend i sd =
     (case sd of (s, d) \<Rightarrow>
        if fst (dp_current s) \<noteq> i then Inl Assertion_failed
        else if dp_ctx s i = None then Inr (s, d)
        else if i \<in> dp_preawake s then Inr (s\<lparr>dp_preawake := dp_preawake s - {i}\<rparr>, d)
        else (case suspend_execution i d of
                Inl e \<Rightarrow> Inl e
              | Inr d \<Rightarrow> Inr (s\<lparr>dp_current_suspend := True\<rparr>, d)))"

definition dyn_begin :: "u64 \<Rightarrow> handle \<Rightarrow> dynprio_scheduler \<Rightarrow> dynprio_scheduler" where
  "dyn_begin tsc i s = s\<lparr>dp_ctx := (dp_ctx s)(i \<mapsto> tsc)\<rparr>"

text \<open>
  \<open>dynprio_context::end\<close> in its two halves: the condition (which takes back a pending
  awakening), and what is done about it. Other threads may call \<open>awake_execution\<close> in between.
\<close>

definition dyn_end_test :: "handle \<Rightarrow> bool \<Rightarrow> dynprio_scheduler \<Rightarrow> bool \<times> dynprio_scheduler" where
  "dyn_end_test i completed s =
     (if dp_current_suspend s
      then (i \<notin> dp_preawake s \<or> completed, s\<lparr>dp_preawake := dp_preawake s - {i}\<rparr>)
      else (completed, s))"

definition dyn_end_apply :: "u64 \<Rightarrow> handle \<Rightarrow> bool \<Rightarrow> dynprio_scheduler \<times> domain \<Rightarrow> dyn_result" where
  "dyn_end_apply tsc i park sd =
     (case sd of (s, d) \<Rightarrow>
        let exec_time = tsc - the (dp_ctx s i) in
        if park
        then (let s = s\<lparr>dp_suspended := insert i (dp_suspended s)\<rparr> in
              case suspend_execution i d of
                Inl e \<Rightarrow> Inl e | Inr d \<Rightarrow> Inr (s\<lparr>dp_current_suspend := False\<rparr>, d))
        else (let s = s\<lparr>dp_suspended := dp_suspended s - {i},
                        dp_active := dp_active s @ [(i, snd (dp_current s) + exec_time)]\<rparr> in
              case activate_execution i d of
                Inl e \<Rightarrow> Inl e | Inr d \<Rightarrow> Inr (s\<lparr>dp_current_suspend := False\<rparr>, d)))"

definition dyn_end :: "u64 \<Rightarrow> handle \<Rightarrow> bool \<Rightarrow> dynprio_scheduler \<times> domain \<Rightarrow> dyn_result" where
  "dyn_end tsc i completed sd =
     (case dyn_end_test i completed (fst sd) of (park, s) \<Rightarrow> dyn_end_apply tsc i park (s, snd sd))"

text \<open>
  \<open>schedule\<close> takes the top of the heap; which of several entries with the least priority that is,
  is up to the library: it is the argument \<open>n\<close>, which has to be the position of such an entry.
\<close>

definition dyn_is_top :: "nat \<Rightarrow> (handle \<times> u64) list \<Rightarrow> bool" where
  "dyn_is_top n q \<longleftrightarrow> n < length q \<and> list_all (\<lambda>e. snd (q ! n) \<le> snd e) q"

definition dyn_schedule :: "nat \<Rightarrow> dynprio_scheduler \<Rightarrow> (handle \<times> dynprio_scheduler) outcome" where
  "dyn_schedule n s =
     (if dp_active s = [] then Inl Assertion_failed
      else
        (let e = dp_active s ! n;
             s = s\<lparr>dp_current := e, dp_active := take n (dp_active s) @ drop (n + 1) (dp_active s)\<rparr> in
         case dp_ctx s (fst e) of None \<Rightarrow> Inl Assertion_failed | Some _ \<Rightarrow> Inr (fst e, s)))"

definition dyn_has_active :: "dynprio_scheduler \<Rightarrow> bool" where
  "dyn_has_active s \<longleftrightarrow> dp_active s \<noteq> []"

definition dyn_has_suspended :: "dynprio_scheduler \<Rightarrow> bool" where
  "dyn_has_suspended s \<longleftrightarrow> dp_suspended s \<noteq> {} \<or> dp_current_suspend s"

section \<open>Awakening along the nesting\<close>

text \<open>
  A scheduler is bound to one domain for good (\<open>m_domain\<close>); from here on a scheduler and its
  domain are a pair.
\<close>

definition bind_execution_domain :: "nat \<Rightarrow> nat option \<Rightarrow> nat option outcome" where
  "bind_execution_domain d m = (if m \<noteq> None then Inl Already_bound else Inr (Some d))"

definition get_execution_domain :: "nat option \<Rightarrow> nat outcome" where
  "get_execution_domain m = (case m of None \<Rightarrow> Inl Not_bound | Some d \<Rightarrow> Inr d)"

datatype sched = Cycle cycle_scheduler | Dynprio dynprio_scheduler

definition sched_awake :: "handle \<Rightarrow> sched \<times> domain \<Rightarrow> (sched \<times> domain) outcome" where
  "sched_awake i sd =
     (case sd of (s, d) \<Rightarrow>
        case s of
          Cycle c \<Rightarrow> map_sum id (apfst Cycle) (cyc_awake i (c, d))
        | Dynprio p \<Rightarrow> map_sum id (apfst Dynprio) (dyn_awake i (p, d)))"

text \<open>Whether \<open>awake_execution\<close> returns before it looks at the parent.\<close>

definition sched_ignores :: "handle \<Rightarrow> sched \<Rightarrow> bool" where
  "sched_ignores i s = (case s of Cycle _ \<Rightarrow> False | Dynprio p \<Rightarrow> dp_ctx p i = None)"

text \<open>The nested domains from the inside out; each one's \<open>parent_execution\<close> lives in the next.\<close>

fun awake_execution :: "handle \<Rightarrow> (sched \<times> domain) list \<Rightarrow> (sched \<times> domain) list outcome" where
  "awake_execution i [] = Inr []"
| "awake_execution i (sd # parents) =
     (if sched_ignores i (fst sd) then Inr (sd # parents)
      else
        (case sched_awake i sd of
           Inl e \<Rightarrow> Inl e
         | Inr sd' \<Rightarrow>
             (case parents of
                [] \<Rightarrow> Inr [sd']
              | p # ps \<Rightarrow>
                  (case get_execution_state (parent_execution (snd sd')) (snd p) of
                     Inl e \<Rightarrow> Inl e
                   | Inr st \<Rightarrow>
                       if st = Exec_suspended
                       then map_sum id (Cons sd') (awake_execution (parent_execution (snd sd')) parents)
                       else Inr (sd' # parents)))))"


section \<open>The contract of a scheduler\<close>

text \<open>
  What the synchronisation primitives rely on: while an execution runs, it may announce several
  times that it wants to be suspended, and any number of threads may awake it (and others) at any
  time. \<open>token\<close> is the awakening that is not yet used up, \<open>parking\<close> the announced suspension.
\<close>

datatype sched_op = Op_suspend | Op_awake handle

fun perform :: "('s \<Rightarrow> 's outcome) \<Rightarrow> (handle \<Rightarrow> 's \<Rightarrow> 's outcome) \<Rightarrow> sched_op list \<Rightarrow> 's \<Rightarrow> 's outcome" where
  "perform su aw [] s = Inr s"
| "perform su aw (Op_suspend # ops) s = (case su s of Inl e \<Rightarrow> Inl e | Inr s \<Rightarrow> perform su aw ops s)"
| "perform su aw (Op_awake k # ops) s = (case aw k s of Inl e \<Rightarrow> Inl e | Inr s \<Rightarrow> perform su aw ops s)"

text \<open>The abstract scheduler, seen from execution \<open>i\<close>: the pair of \<open>token\<close> and \<open>parking\<close>.\<close>

fun wish :: "handle \<Rightarrow> sched_op list \<Rightarrow> bool \<times> bool \<Rightarrow> bool \<times> bool" where
  "wish i [] tp = tp"
| "wish i (Op_suspend # ops) (t, p) = wish i ops (False, p \<or> \<not> t)"
| "wish i (Op_awake k # ops) (t, p) = wish i ops (t \<or> k = i, p)"

definition stays_parked :: "handle \<Rightarrow> sched_op list \<Rightarrow> bool \<times> bool \<Rightarrow> bool" where
  "stays_parked i ops tp \<longleftrightarrow> (case wish i ops tp of (t, p) \<Rightarrow> p \<and> \<not> t)"

fun awaken :: "sched_op list \<Rightarrow> handle list" where
  "awaken [] = []"
| "awaken (Op_suspend # ops) = awaken ops"
| "awaken (Op_awake k # ops) = k # awaken ops"

text \<open>An awakening that is followed by no suspension is never forgotten.\<close>

lemma wish_token: "Op_suspend \<notin> set ops \<Longrightarrow> fst (wish i ops (t, p)) = (t \<or> Op_awake i \<in> set ops)"
proof (induction ops arbitrary: t p)
  case (Cons a ops)
  then show ?case by (cases a) auto
qed simp

lemma wish_append: "wish i (xs @ ys) tp = wish i ys (wish i xs tp)"
proof (induction xs arbitrary: tp)
  case (Cons a xs)
  then show ?case by (cases a; cases tp) auto
qed simp

lemma stays_parked_awoken:
  "Op_suspend \<notin> set ys \<Longrightarrow> Op_awake i \<in> set ys \<Longrightarrow> \<not> stays_parked i (xs @ ys) tp"
proof -
  assume ys: "Op_suspend \<notin> set ys" "Op_awake i \<in> set ys"
  obtain t p where "wish i xs tp = (t, p)" by (cases "wish i xs tp")
  moreover have "fst (wish i ys (t, p))" using wish_token [OF ys(1)] ys(2) by simp
  ultimately show ?thesis by (simp add: stays_parked_def wish_append split_beta)
qed

locale wakeup_scheduler =
  fixes suspend awake finish :: "handle \<Rightarrow> 's \<Rightarrow> 's outcome"
    and live running token parking runnable parked :: "handle \<Rightarrow> 's \<Rightarrow> bool"
  assumes suspend_law: "running i s \<Longrightarrow> \<exists>s'. suspend i s = Inr s' \<and> running i s' \<and> \<not> token i s' \<and>
        parking i s' = (parking i s \<or> \<not> token i s) \<and> (\<forall>k. live k s' = live k s)"
    and awake_law: "running i s \<Longrightarrow> live k s \<Longrightarrow> \<exists>s'. awake k s = Inr s' \<and> running i s' \<and>
        token i s' = (token i s \<or> k = i) \<and> parking i s' = parking i s \<and> (\<forall>l. live l s' = live l s)"
    and finish_law: "running i s \<Longrightarrow> \<exists>s'. finish i s = Inr s' \<and>
        (if parking i s \<and> \<not> token i s then parked i s' else runnable i s')"
    and parked_law: "parked i s \<Longrightarrow> \<exists>s'. awake i s = Inr s' \<and> runnable i s'"
begin

lemma perform_wish:
  "running i s \<Longrightarrow> \<forall>k\<in>set (awaken ops). live k s \<Longrightarrow>
   \<exists>s'. perform (suspend i) awake ops s = Inr s' \<and> running i s' \<and>
     (token i s', parking i s') = wish i ops (token i s, parking i s)"
proof (induction ops arbitrary: s)
  case Nil
  then show ?case by simp
next
  case (Cons a ops)
  show ?case
  proof (cases a)
    case Op_suspend
    from suspend_law [OF Cons.prems(1)] obtain s1 where s1: "suspend i s = Inr s1" "running i s1"
      "\<not> token i s1" "parking i s1 = (parking i s \<or> \<not> token i s)" "\<forall>k. live k s1 = live k s"
      by blast
    with Cons.IH [of s1] Cons.prems(2) Op_suspend show ?thesis by simp
  next
    case (Op_awake k)
    with Cons.prems have "live k s" by simp
    from awake_law [OF Cons.prems(1) this] obtain s1 where s1: "awake k s = Inr s1" "running i s1"
      "token i s1 = (token i s \<or> k = i)" "parking i s1 = parking i s" "\<forall>k. live k s1 = live k s"
      by blast
    with Cons.IH [of s1] Cons.prems(2) Op_awake show ?thesis by simp
  qed
qed

theorem no_lost_wakeup:
  assumes "running i s" "\<forall>k\<in>set (awaken ops). live k s"
  shows "\<exists>s1 s2. perform (suspend i) awake ops s = Inr s1 \<and> finish i s1 = Inr s2 \<and>
    (if stays_parked i ops (token i s, parking i s)
     then parked i s2 \<and> (\<exists>s3. awake i s2 = Inr s3 \<and> runnable i s3)
     else runnable i s2)"
proof -
  from perform_wish [OF assms] obtain s1 where s1: "perform (suspend i) awake ops s = Inr s1"
    "running i s1" "(token i s1, parking i s1) = wish i ops (token i s, parking i s)"
    by blast
  then have "stays_parked i ops (token i s, parking i s) \<longleftrightarrow> parking i s1 \<and> \<not> token i s1"
    by (simp add: stays_parked_def flip: s1(3))
  with finish_law [OF s1(2)] parked_law s1(1) show ?thesis by (metis (full_types))
qed

end

subsection \<open>The round-robin scheduler\<close>

lemma set_state_simps [simp]:
  "executions d i = Some e \<Longrightarrow> domain_set_state i st d =
     Inr (d\<lparr>executions := (executions d)(i \<mapsto> e\<lparr>exec_state := st\<rparr>)\<rparr>)"
  "executions d i = None \<Longrightarrow> domain_set_state i st d = Inl Assertion_failed"
  by (simp_all add: domain_set_state_def)

definition dom_live :: "handle \<Rightarrow> 's \<times> domain \<Rightarrow> bool" where
  "dom_live k sd \<longleftrightarrow> executions (snd sd) k \<noteq> None"

definition cyc_running :: "handle \<Rightarrow> cycle_scheduler \<times> domain \<Rightarrow> bool" where
  "cyc_running i sd \<longleftrightarrow>
     (case cyc_find i (fst sd) of
        None \<Rightarrow> False
      | Some j \<Rightarrow>
          j < length (cs_entries (fst sd)) \<and> ce_id (cs_entries (fst sd) ! j) = i \<and>
          ce_active (cs_entries (fst sd) ! j) \<and> dom_live i sd \<and>
          list_all (\<lambda>p. snd p = j \<longrightarrow> fst p = i) (cs_index_map (fst sd)))"

definition cyc_entry_of :: "handle \<Rightarrow> cycle_scheduler \<Rightarrow> cyc_entry" where
  "cyc_entry_of i s = cs_entries s ! the (cyc_find i s)"

definition cyc_finish :: "handle \<Rightarrow> cycle_scheduler \<times> domain \<Rightarrow> cyc_result" where
  "cyc_finish i sd = cyc_end (the (cyc_find i (fst sd))) False sd"

definition cyc_token :: "handle \<Rightarrow> cycle_scheduler \<times> domain \<Rightarrow> bool" where
  "cyc_token i sd \<longleftrightarrow> ce_preawaken (cyc_entry_of i (fst sd))"

definition cyc_parking :: "handle \<Rightarrow> cycle_scheduler \<times> domain \<Rightarrow> bool" where
  "cyc_parking i sd \<longleftrightarrow> ce_suspend_now (cyc_entry_of i (fst sd))"

definition cyc_runnable :: "handle \<Rightarrow> cycle_scheduler \<times> domain \<Rightarrow> bool" where
  "cyc_runnable i sd \<longleftrightarrow> ce_active (cyc_entry_of i (fst sd)) \<and> get_execution_state i (snd sd) = Inr Exec_active"

definition cyc_parked :: "handle \<Rightarrow> cycle_scheduler \<times> domain \<Rightarrow> bool" where
  "cyc_parked i sd \<longleftrightarrow>
     (case cyc_find i (fst sd) of
        None \<Rightarrow> False
      | Some j \<Rightarrow> j < length (cs_entries (fst sd)) \<and> \<not> ce_active (cs_entries (fst sd) ! j) \<and>
          get_execution_state i (snd sd) = Inr Exec_suspended)"

lemma cyc_find_update [simp]:
  "cyc_find i (s\<lparr>cs_active_count := n\<rparr>) = cyc_find i s"
  "cyc_find i (s\<lparr>cs_detached_count := n\<rparr>) = cyc_find i s" "cyc_find i (cyc_update j f s) = cyc_find i s"
  "cs_entries (cyc_update j f s) = (cs_entries s)[j := f (cs_entries s ! j)]"
  "cs_index_map (cyc_update j f s) = cs_index_map s"
  by (simp_all add: cyc_find_def cyc_update_def)

lemma cyc_find_member: "cyc_find i s = Some j \<Longrightarrow> (i, j) \<in> set (cs_index_map s)"
proof -
  assume "cyc_find i s = Some j"
  then obtain p where p: "find (\<lambda>p. fst p = i) (cs_index_map s) = Some p" "snd p = j"
    by (auto simp: cyc_find_def)
  from p(1) have "p \<in> set (cs_index_map s)" "fst p = i"
    unfolding find_Some_iff by auto
  with p(2) show ?thesis by (cases p) simp
qed

lemmas cyc_view = cyc_running_def cyc_entry_of_def cyc_finish_def cyc_token_def cyc_parking_def
  cyc_runnable_def cyc_parked_def dom_live_def get_execution_state_def

lemmas domain_ops = suspend_execution_def activate_execution_def schedule_execution_def

interpretation cyc: wakeup_scheduler cyc_suspend cyc_awake cyc_finish dom_live cyc_running cyc_token
  cyc_parking cyc_runnable cyc_parked
proof
  fix i k :: handle and s :: "cycle_scheduler \<times> domain"
  obtain c d where s [simp]: "s = (c, d)" by (cases s)
  show "cyc_parked i s \<Longrightarrow> \<exists>s'. cyc_awake i s = Inr s' \<and> cyc_runnable i s'"
    by (auto simp: cyc_view cyc_awake_def domain_ops Let_def split: option.splits)
  assume "cyc_running i s"
  then obtain j e where j: "cyc_find i c = Some j" "j < length (cs_entries c)"
    "ce_id (cs_entries c ! j) = i" "ce_active (cs_entries c ! j)" "executions d i = Some e"
    "\<forall>p\<in>set (cs_index_map c). snd p = j \<longrightarrow> fst p = i"
    by (fastforce simp: cyc_view list_all_iff split: option.splits)
  show "\<exists>s'. cyc_suspend i s = Inr s' \<and> cyc_running i s' \<and> \<not> cyc_token i s' \<and>
        cyc_parking i s' = (cyc_parking i s \<or> \<not> cyc_token i s) \<and> (\<forall>k. dom_live k s' = dom_live k s)"
    using j by (auto simp: cyc_suspend_def cyc_view domain_ops Let_def list_all_iff)
  show "\<exists>s'. cyc_finish i s = Inr s' \<and>
        (if cyc_parking i s \<and> \<not> cyc_token i s then cyc_parked i s' else cyc_runnable i s')"
    using j by (auto simp: cyc_end_def cyc_view domain_ops Let_def)
  assume "dom_live k s"
  then obtain ek where ek: "executions d k = Some ek" by (auto simp: cyc_view)
  show "\<exists>s'. cyc_awake k s = Inr s' \<and> cyc_running i s' \<and> cyc_token i s' = (cyc_token i s \<or> k = i) \<and>
        cyc_parking i s' = cyc_parking i s \<and> (\<forall>l. dom_live l s' = dom_live l s)"
  proof (cases "cyc_find k c")
    case None
    with j show ?thesis by (auto simp: cyc_awake_def cyc_view list_all_iff)
  next
    case (Some jk)
    show ?thesis
    proof (cases "k = i")
      case True
      with j show ?thesis by (simp add: cyc_awake_def cyc_view list_all_iff)
    next
      case False
      with bspec [OF j(6) cyc_find_member [OF Some]] have jk: "jk \<noteq> j" by auto
      show ?thesis
      proof (cases "ce_active (cs_entries c ! jk)")
        case True
        with Some j jk False show ?thesis by (simp add: cyc_awake_def cyc_view list_all_iff)
      next
        case inactive: False
        with Some j jk False ek show ?thesis
          by (simp add: cyc_awake_def cyc_view domain_ops Let_def list_all_iff)
      qed
    qed
  qed
qed

subsection \<open>The priority scheduler\<close>

definition dyn_running :: "handle \<Rightarrow> dynprio_scheduler \<times> domain \<Rightarrow> bool" where
  "dyn_running i sd \<longleftrightarrow>
     fst (dp_current (fst sd)) = i \<and> dp_ctx (fst sd) i \<noteq> None \<and> i \<notin> dp_suspended (fst sd) \<and> dom_live i sd"

definition dyn_token :: "handle \<Rightarrow> dynprio_scheduler \<times> domain \<Rightarrow> bool" where
  "dyn_token i sd \<longleftrightarrow> i \<in> dp_preawake (fst sd)"

definition dyn_parking :: "handle \<Rightarrow> dynprio_scheduler \<times> domain \<Rightarrow> bool" where
  "dyn_parking i sd \<longleftrightarrow> dp_current_suspend (fst sd)"

definition dyn_runnable :: "handle \<Rightarrow> dynprio_scheduler \<times> domain \<Rightarrow> bool" where
  "dyn_runnable i sd \<longleftrightarrow>
     i \<in> fst ` set (dp_active (fst sd)) \<and> get_execution_state i (snd sd) = Inr Exec_active"

definition dyn_parked :: "handle \<Rightarrow> dynprio_scheduler \<times> domain \<Rightarrow> bool" where
  "dyn_parked i sd \<longleftrightarrow>
     i \<in> dp_suspended (fst sd) \<and> dp_ctx (fst sd) i \<noteq> None \<and>
     get_execution_state i (snd sd) = Inr Exec_suspended"

lemmas dyn_view = dyn_running_def dyn_token_def dyn_parking_def dyn_runnable_def dyn_parked_def
  dom_live_def get_execution_state_def

interpretation dyn: wakeup_scheduler dyn_suspend dyn_awake "\<lambda>i. dyn_end tsc i False" dom_live dyn_running
  dyn_token dyn_parking dyn_runnable dyn_parked
  for tsc :: u64
proof
  fix i k :: handle and s :: "dynprio_scheduler \<times> domain"
  obtain c d where s [simp]: "s = (c, d)" by (cases s)
  show "\<exists>s'. dyn_awake i s = Inr s' \<and> dyn_runnable i s'" if p: "dyn_parked i s"
  proof -
    from p obtain e t where "executions d i = Some e" "dp_ctx c i = Some t" "i \<in> dp_suspended c"
      by (auto simp: dyn_view split: option.splits)
    then show ?thesis by (simp add: dyn_awake_def dyn_view domain_ops)
  qed
  assume "dyn_running i s"
  then obtain e t where j: "fst (dp_current c) = i" "dp_ctx c i = Some t" "i \<notin> dp_suspended c"
    "executions d i = Some e"
    by (auto simp: dyn_view)
  show "\<exists>s'. dyn_suspend i s = Inr s' \<and> dyn_running i s' \<and> \<not> dyn_token i s' \<and>
        dyn_parking i s' = (dyn_parking i s \<or> \<not> dyn_token i s) \<and> (\<forall>k. dom_live k s' = dom_live k s)"
    using j by (auto simp: dyn_suspend_def dyn_view domain_ops Let_def)
  show "\<exists>s'. dyn_end tsc i False s = Inr s' \<and>
        (if dyn_parking i s \<and> \<not> dyn_token i s then dyn_parked i s' else dyn_runnable i s')"
    using j by (auto simp: dyn_end_def dyn_end_test_def dyn_end_apply_def dyn_view domain_ops Let_def)
  assume "dom_live k s"
  then obtain ek where "executions d k = Some ek" by (auto simp: dyn_view)
  with j show "\<exists>s'. dyn_awake k s = Inr s' \<and> dyn_running i s' \<and> dyn_token i s' = (dyn_token i s \<or> k = i) \<and>
        dyn_parking i s' = dyn_parking i s \<and> (\<forall>l. dom_live l s' = dom_live l s)"
    by (auto simp: dyn_awake_def dyn_view domain_ops Let_def)
qed

section \<open>Awakenings are not lost\<close>

text \<open>
  C11: For the running execution of a round-robin scheduler, every sequence of announced
  suspensions and of awakenings (of it or of others) succeeds, and so does the end of its turn.
  The execution is then parked exactly if no awakening came since the last suspension that took
  effect; a parked execution becomes runnable at the next awakening.
\<close>

theorem cycle_no_lost_wakeup:
  assumes "cyc_running i sd" "\<forall>k\<in>set (awaken ops). dom_live k sd"
  shows "\<exists>sd1 sd2. perform (cyc_suspend i) cyc_awake ops sd = Inr sd1 \<and> cyc_finish i sd1 = Inr sd2 \<and>
    (if stays_parked i ops (cyc_token i sd, cyc_parking i sd)
     then cyc_parked i sd2 \<and> (\<exists>sd3. cyc_awake i sd2 = Inr sd3 \<and> cyc_runnable i sd3)
     else cyc_runnable i sd2)"
  by (rule cyc.no_lost_wakeup [OF assms])

definition cyc_example :: "cycle_scheduler \<times> domain" where
  "cyc_example =
     (case (domain_attach 7 [] 5 domain_new, cyc_attach 7 (cyc_new 1)) of
        (Inr d, Inr s) \<Rightarrow> (s, d) | _ \<Rightarrow> (cyc_new 0, domain_new))"

lemmas attach_eval = domain_attach_def attach_sources_def execution_new_def execution_move_def
  insert_new_def domain_new_def nest_max_depth_def numeral_eq_Suc

lemma cyc_example: "cyc_running 7 cyc_example" "\<not> cyc_token 7 cyc_example" "\<not> cyc_parking 7 cyc_example"
  "dom_live 7 cyc_example"
  by (simp_all add: cyc_example_def cyc_attach_def cyc_new_def cyc_entry_new_def attach_eval cyc_view
      cyc_find_def list_all_iff)

theorem cycle_no_lost_wakeup_witness:
  "(\<exists>sd1 sd2. perform (cyc_suspend 7) cyc_awake [Op_suspend, Op_awake 7] cyc_example = Inr sd1 \<and>
     cyc_finish 7 sd1 = Inr sd2 \<and> cyc_runnable 7 sd2) \<and>
   (\<exists>sd1 sd2. perform (cyc_suspend 7) cyc_awake [Op_suspend] cyc_example = Inr sd1 \<and>
     cyc_finish 7 sd1 = Inr sd2 \<and> cyc_parked 7 sd2)"
  using cycle_no_lost_wakeup [of 7 cyc_example "[Op_suspend, Op_awake 7]"]
    cycle_no_lost_wakeup [of 7 cyc_example "[Op_suspend]"] cyc_example
  by (auto simp: stays_parked_def)

text \<open>
  C12: The priority scheduler keeps the same promise, as long as no awakening falls between the two
  halves of the end of a turn.
\<close>

theorem dynprio_no_lost_wakeup:
  assumes "dyn_running i sd" "\<forall>k\<in>set (awaken ops). dom_live k sd"
  shows "\<exists>sd1 sd2. perform (dyn_suspend i) dyn_awake ops sd = Inr sd1 \<and> dyn_end tsc i False sd1 = Inr sd2 \<and>
    (if stays_parked i ops (dyn_token i sd, dyn_parking i sd)
     then dyn_parked i sd2 \<and> (\<exists>sd3. dyn_awake i sd2 = Inr sd3 \<and> dyn_runnable i sd3)
     else dyn_runnable i sd2)"
  by (rule dyn.no_lost_wakeup [OF assms])

definition dyn_example :: "dynprio_scheduler \<times> domain" where
  "dyn_example =
     (case (domain_attach 7 [] 5 domain_new, dyn_attach 7 dyn_new) of
        (Inr d, Inr s) \<Rightarrow>
          (case dyn_schedule 0 s of Inl e \<Rightarrow> (s, d) | Inr (i, s) \<Rightarrow> (dyn_begin 100 i s, d))
      | _ \<Rightarrow> (dyn_new, domain_new))"

lemma dyn_example: "dyn_running 7 dyn_example" "\<not> dyn_token 7 dyn_example" "\<not> dyn_parking 7 dyn_example"
  "dom_live 7 dyn_example"
  by (simp_all add: dyn_example_def dyn_attach_def dyn_new_def dyn_schedule_def dyn_begin_def attach_eval
      dyn_view)

theorem dynprio_no_lost_wakeup_witness:
  "(\<exists>sd1 sd2. perform (dyn_suspend 7) dyn_awake [Op_suspend, Op_awake 7] dyn_example = Inr sd1 \<and>
     dyn_end 150 7 False sd1 = Inr sd2 \<and> dyn_runnable 7 sd2) \<and>
   (\<exists>sd1 sd2. perform (dyn_suspend 7) dyn_awake [Op_suspend] dyn_example = Inr sd1 \<and>
     dyn_end 150 7 False sd1 = Inr sd2 \<and> dyn_parked 7 sd2)"
  using dynprio_no_lost_wakeup [of 7 dyn_example "[Op_suspend, Op_awake 7]" 150]
    dynprio_no_lost_wakeup [of 7 dyn_example "[Op_suspend]" 150] dyn_example
  by (auto simp: stays_parked_def)

text \<open>
  An awakening by another thread between the two halves is lost: the execution announced its
  suspension, the end of its turn found no awakening, the awakening found it not yet among the
  suspended ones, and then it is parked for good with nothing left to run.
\<close>

theorem dynprio_end_race:
  "\<exists>s d s1 d1 s2 s3 d3 s4 d4. dyn_example = (s, d) \<and>
     dyn_suspend 7 (s, d) = Inr (s1, d1) \<and> dyn_end_test 7 False s1 = (True, s2) \<and>
     dyn_awake 7 (s2, d1) = Inr (s3, d3) \<and> dyn_end_apply 150 7 True (s3, d3) = Inr (s4, d4) \<and>
     dyn_parked 7 (s4, d4) \<and> \<not> dyn_has_active s4"
  by (simp add: dyn_example_def dyn_attach_def dyn_new_def dyn_schedule_def dyn_begin_def attach_eval
      dyn_suspend_def dyn_end_test_def dyn_awake_def dyn_end_apply_def domain_ops dyn_view dyn_has_active_def)

definition nest_example :: "(sched \<times> domain) list" where
  "nest_example =
     (case (domain_attach 9 [5] 6 domain_new, cyc_attach 9 (cyc_new 1)) of
        (Inr d, Inr s) \<Rightarrow>
          (case perform (cyc_suspend 9) cyc_awake [Op_suspend] (s, d\<lparr>parent_domain := Some 1, parent_execution := 7\<rparr>) of
             Inl e \<Rightarrow> []
           | Inr sd \<Rightarrow>
               (case (cyc_finish 9 sd, schedule_execution 7 (snd dyn_example)) of
                  (Inr (s, d), Inr pd) \<Rightarrow> [(Cycle s, d), (Dynprio (fst dyn_example), pd)] | _ \<Rightarrow> []))
      | _ \<Rightarrow> [])"

text \<open>
  The same window exists one level up. A worker that finds a nested domain without active
  execution suspends the execution that owns it; if an execution of the nested domain is awakened
  between the two, the owner is still running, the awakening does not go on to it, and it is
  parked although there is something to run.
\<close>

theorem nested_wakeup_race:
  "\<exists>s d p pd s' d' p1 pd1 p2 pd2.
     nest_example = [(Cycle s, d), (Dynprio p, pd)] \<and> \<not> cyc_has_active s \<and>
     awake_execution 9 nest_example = Inr [(Cycle s', d'), (Dynprio p, pd)] \<and> cyc_has_active s' \<and>
     dyn_suspend (parent_execution d) (p, pd) = Inr (p1, pd1) \<and>
     dyn_end 150 7 False (p1, pd1) = Inr (p2, pd2) \<and> dyn_parked 7 (p2, pd2) \<and> \<not> dyn_has_active p2"
  by (simp add: nest_example_def dyn_example_def dyn_attach_def dyn_new_def dyn_schedule_def dyn_begin_def
      attach_eval cyc_attach_def cyc_new_def cyc_entry_new_def cyc_find_def cyc_suspend_def
      cyc_end_def cyc_finish_def cyc_update_def cyc_awake_def cyc_has_active_def
      sched_awake_def sched_ignores_def get_execution_state_def dyn_end_def
      dyn_suspend_def dyn_end_test_def dyn_awake_def dyn_end_apply_def domain_ops dyn_view dyn_has_active_def)

section \<open>Awakening the enclosing executions\<close>

definition sched_parked :: "handle \<Rightarrow> sched \<times> domain \<Rightarrow> bool" where
  "sched_parked i sd =
     (case fst sd of Cycle c \<Rightarrow> cyc_parked i (c, snd sd) | Dynprio p \<Rightarrow> dyn_parked i (p, snd sd))"

definition sched_runnable :: "handle \<Rightarrow> sched \<times> domain \<Rightarrow> bool" where
  "sched_runnable i sd =
     (case fst sd of Cycle c \<Rightarrow> cyc_runnable i (c, snd sd) | Dynprio p \<Rightarrow> dyn_runnable i (p, snd sd))"

text \<open>Every execution of a chain: \<open>i\<close> in the first domain, then the owner of each domain in the next.\<close>

fun all_along :: "(handle \<Rightarrow> sched \<times> domain \<Rightarrow> bool) \<Rightarrow> handle \<Rightarrow> (sched \<times> domain) list \<Rightarrow> bool" where
  "all_along P i [] = True"
| "all_along P i (sd # parents) = (P i sd \<and> all_along P (parent_execution (snd sd)) parents)"

lemma cyc_awake_parent: "cyc_awake i (c, d) = Inr (c', d') \<Longrightarrow> parent_execution d' = parent_execution d"
  by (auto simp: cyc_awake_def domain_ops domain_set_state_def Let_def split: option.splits if_splits)

lemma dyn_awake_parent: "dyn_awake i (p, d) = Inr (p', d') \<Longrightarrow> parent_execution d' = parent_execution d"
  by (auto simp: dyn_awake_def domain_ops domain_set_state_def Let_def split: option.splits if_splits)

lemma sched_awake_parked:
  assumes "sched_parked i sd"
  shows "\<not> sched_ignores i (fst sd) \<and> (\<exists>sd'. sched_awake i sd = Inr sd' \<and> sched_runnable i sd' \<and>
    parent_execution (snd sd') = parent_execution (snd sd))"
proof (cases "fst sd")
  case (Cycle c)
  with assms have "cyc_parked i (c, snd sd)" by (simp add: sched_parked_def)
  from cyc.parked_law [OF this] obtain c' d' where "cyc_awake i (c, snd sd) = Inr (c', d')"
    "cyc_runnable i (c', d')" by auto
  with Cycle cyc_awake_parent [of i c "snd sd" c' d'] show ?thesis
    by (cases sd) (simp add: sched_awake_def sched_ignores_def sched_runnable_def)
next
  case (Dynprio p)
  with assms have pk: "dyn_parked i (p, snd sd)" by (simp add: sched_parked_def)
  from dyn.parked_law [OF this] obtain p' d' where "dyn_awake i (p, snd sd) = Inr (p', d')"
    "dyn_runnable i (p', d')" by auto
  with Dynprio pk dyn_awake_parent [of i p "snd sd" p' d'] show ?thesis
    by (cases sd) (auto simp: sched_awake_def sched_ignores_def sched_runnable_def dyn_parked_def)
qed

lemma sched_parked_state: "sched_parked i sd \<Longrightarrow> get_execution_state i (snd sd) = Inr Exec_suspended"
  by (auto simp: sched_parked_def cyc_parked_def dyn_parked_def split: sched.splits option.splits)

text \<open>
  Awakening a parked execution of a nested domain makes it runnable, and with it the execution
  that owns the domain, and so on outwards, whatever mixture of schedulers the domains have.
\<close>

theorem awake_execution_chain:
  assumes "all_along sched_parked i chain"
  shows "\<exists>chain'. awake_execution i chain = Inr chain' \<and> length chain' = length chain \<and>
    all_along sched_runnable i chain'"
  using assms
proof (induction i chain rule: awake_execution.induct)
  case (1 i)
  then show ?case by simp
next
  case (2 i sd parents)
  from 2(2) have sd: "sched_parked i sd" "all_along sched_parked (parent_execution (snd sd)) parents"
    by simp_all
  from sched_awake_parked [OF sd(1)] obtain sd' where sd': "\<not> sched_ignores i (fst sd)"
    "sched_awake i sd = Inr sd'" "sched_runnable i sd'" "parent_execution (snd sd') = parent_execution (snd sd)"
    by blast
  show ?case
  proof (cases parents)
    case Nil
    with sd' show ?thesis by simp
  next
    case (Cons p ps)
    with sd(2) have st: "get_execution_state (parent_execution (snd sd')) (snd p) = Inr Exec_suspended"
      using sched_parked_state sd'(4) by auto
    from 2(1) [OF sd'(1,2) Cons st refl] sd(2) sd'(4) Cons obtain chain' where
      "awake_execution (parent_execution (snd sd')) parents = Inr chain'" "length chain' = length parents"
      "all_along sched_runnable (parent_execution (snd sd')) chain'"
      by auto
    with sd' st Cons show ?thesis by (intro exI [of _ "sd' # chain'"]) simp
  qed
qed

definition parked_chain :: "(sched \<times> domain) list" where
  "parked_chain =
     (case (perform (cyc_suspend 7) cyc_awake [Op_suspend] cyc_example,
            perform (dyn_suspend 7) dyn_awake [Op_suspend] dyn_example) of
        (Inr c, Inr p) \<Rightarrow>
          (case (cyc_finish 7 c, dyn_end 150 7 False p) of
             (Inr (c, d), Inr (p, e)) \<Rightarrow> [(Cycle c, d\<lparr>parent_execution := 7\<rparr>), (Dynprio p, e)] | _ \<Rightarrow> [])
      | _ \<Rightarrow> [])"

theorem awake_execution_chain_witness:
  "length parked_chain = 2 \<and>
   (\<exists>chain'. awake_execution 7 parked_chain = Inr chain' \<and> length chain' = 2 \<and> all_along sched_runnable 7 chain')"
proof -
  obtain c1 c d where c: "perform (cyc_suspend 7) cyc_awake [Op_suspend] cyc_example = Inr c1"
    "cyc_finish 7 c1 = Inr (c, d)" "cyc_parked 7 (c, d)"
    using cyc.no_lost_wakeup [of 7 cyc_example "[Op_suspend]"] cyc_example by (auto simp: stays_parked_def)
  obtain p1 p e where p: "perform (dyn_suspend 7) dyn_awake [Op_suspend] dyn_example = Inr p1"
    "dyn_end 150 7 False p1 = Inr (p, e)" "dyn_parked 7 (p, e)"
    using dyn.no_lost_wakeup [of 7 dyn_example "[Op_suspend]" 150] dyn_example by (auto simp: stays_parked_def)
  have "parked_chain = [(Cycle c, d\<lparr>parent_execution := 7\<rparr>), (Dynprio p, e)]"
    unfolding parked_chain_def c(1) p(1) sum.case prod.case c(2) p(2) ..
  note chain = this
  have "cyc_parked 7 (c, d\<lparr>parent_execution := 7\<rparr>)"
    using c(3) by (simp add: cyc_parked_def get_execution_state_def split: option.splits)
  then have "length parked_chain = 2 \<and> all_along sched_parked 7 parked_chain"
    unfolding chain using p(3) by (simp add: sched_parked_def)
  with awake_execution_chain [of 7 parked_chain] show ?thesis by simp
qed

section \<open>Round robin is fair\<close>

lemma cyc_eligible_current [simp]: "cyc_eligible (s\<lparr>cs_current := c\<rparr>) = cyc_eligible s"
  by (simp add: cyc_eligible_def fun_eq_iff)

lemma cyc_schedule_next:
  "cyc_eligible s (cs_current s + m) \<Longrightarrow> \<forall>l<m. \<not> cyc_eligible s (cs_current s + l) \<Longrightarrow>
   cyc_schedule s = Some ((cs_current s + m) mod length (cs_entries s), s\<lparr>cs_current := cs_current s + m + 1\<rparr>)"
proof (induction m arbitrary: s)
  case 0
  then show ?case by (subst cyc_schedule.simps) simp
next
  case (Suc m)
  let ?s = "s\<lparr>cs_current := cs_current s + 1\<rparr>"
  have "\<not> cyc_eligible s (cs_current s)" using Suc.prems(2) by (metis add_0_right zero_less_Suc)
  then have skip: "cyc_schedule s = cyc_schedule ?s" by (subst cyc_schedule.simps) simp
  have "cyc_eligible ?s (cs_current ?s + m)" "\<forall>l<m. \<not> cyc_eligible ?s (cs_current ?s + l)"
    using Suc.prems by auto
  from Suc.IH [OF this] show ?case by (simp add: skip)
qed

text \<open>The entries that \<open>n\<close> calls of \<open>schedule\<close> in a row choose.\<close>

fun cyc_rounds :: "nat \<Rightarrow> cycle_scheduler \<Rightarrow> nat list option" where
  "cyc_rounds 0 s = Some []"
| "cyc_rounds (Suc n) s =
     (case cyc_schedule s of None \<Rightarrow> None | Some (j, s) \<Rightarrow> map_option (Cons j) (cyc_rounds n s))"

lemma cyc_eligible_mod [simp]: "cyc_eligible s (t mod length (cs_entries s)) = cyc_eligible s t"
  by (simp add: cyc_eligible_def)

lemma residue_ahead:
  fixes c k n :: nat
  assumes "k < n"
  shows "\<exists>m<n. (c + m) mod n = k"
proof (intro exI conjI)
  show "(k + (n - c mod n)) mod n < n" using assms by simp
  have "(c + (k + (n - c mod n)) mod n) mod n = (c mod n + (k + (n - c mod n))) mod n"
    by (simp add: mod_simps)
  also have "c mod n + (k + (n - c mod n)) = k + n"
    using assms mod_less_divisor [of n c] by linarith
  finally show "(c + (k + (n - c mod n)) mod n) mod n = k" using assms by simp
qed

lemma cyc_rounds_cover:
  assumes "k < length (cs_entries s)" "cyc_eligible s k"
  shows "\<exists>js. cyc_rounds n s = Some js \<and> length js = n \<and> list_all (cyc_eligible s) js \<and>
    (\<forall>t. cs_current s \<le> t \<and> t < cs_current s + n \<and> cyc_eligible s t \<longrightarrow> t mod length (cs_entries s) \<in> set js)"
  using assms
proof (induction n arbitrary: s)
  case 0
  then show ?case by simp
next
  case (Suc n)
  let ?P = "\<lambda>m. cyc_eligible s (cs_current s + m)"
  obtain m0 where "(cs_current s + m0) mod length (cs_entries s) = k"
    using residue_ahead [OF Suc.prems(1)] by blast
  then have "?P m0" using Suc.prems(2) by (metis cyc_eligible_mod)
  define m where "m = (LEAST m. ?P m)"
  have m: "?P m" "\<forall>l<m. \<not> ?P l"
    unfolding m_def using \<open>?P m0\<close> by (auto intro: LeastI dest: not_less_Least)
  let ?s = "s\<lparr>cs_current := cs_current s + m + 1\<rparr>"
  from Suc.IH [of ?s, unfolded cyc_eligible_current] Suc.prems obtain js where js: "cyc_rounds n ?s = Some js" "length js = n"
    "list_all (cyc_eligible s) js"
    "\<forall>t. cs_current s + m + 1 \<le> t \<and> t < cs_current s + m + 1 + n \<and> cyc_eligible s t \<longrightarrow>
       t mod length (cs_entries s) \<in> set js"
    by auto
  have "t mod length (cs_entries s) \<in> set ((cs_current s + m) mod length (cs_entries s) # js)"
    if "cs_current s \<le> t" "t < cs_current s + Suc n" "cyc_eligible s t" for t
  proof -
    from that(1) obtain l where l: "t = cs_current s + l" using le_Suc_ex by blast
    with m(2) that(3) have "m \<le> l" using not_less by blast
    show ?thesis
    proof (cases "l = m")
      case False
      with \<open>m \<le> l\<close> l that js(4) show ?thesis by auto
    qed (simp add: l)
  qed
  with js m(1) cyc_schedule_next [OF m] show ?case by simp
qed



section \<open>After the end of an execution\<close>

definition retire :: "handle \<Rightarrow> cycle_scheduler \<times> domain \<Rightarrow> cyc_result" where
  "retire i sd =
     (case cyc_end (the (cyc_find i (fst sd))) True sd of
        Inl e \<Rightarrow> Inl e
      | Inr (s, d) \<Rightarrow> map_sum id (\<lambda>s. (s, domain_detach i d)) (cyc_detach i s))"

text \<open>
  What a late awakening does, that is one that comes after the execution was completed and
  detached from scheduler and domain: the priority scheduler ignores it, the round-robin
  scheduler still finds the id in its map, sets the detached entry active again and panics in
  the domain, which does not know it any more.
\<close>

theorem late_awakening:
  assumes "cyc_running i sd"
  shows "(\<exists>sd'. retire i sd = Inr sd' \<and> cyc_awake i sd' = Inl Assertion_failed) \<and>
    (dp_ctx p i = None \<longrightarrow> dyn_awake i (p, d) = Inr (p, d))"
proof -
  obtain c d where [simp]: "sd = (c, d)" by (cases sd)
  from assms obtain j e where j: "cyc_find i c = Some j" "j < length (cs_entries c)"
    "ce_id (cs_entries c ! j) = i" "ce_active (cs_entries c ! j)" "executions d i = Some e"
    by (fastforce simp: cyc_view list_all_iff split: option.splits)
  from j show ?thesis
    by (simp add: retire_def cyc_end_def cyc_detach_def domain_ops Let_def cyc_awake_def
        domain_detach_def dyn_awake_def)
qed

theorem late_awakening_witness:
  "\<exists>sd'. retire 7 cyc_example = Inr sd' \<and> cyc_awake 7 sd' = Inl Assertion_failed"
  using late_awakening [of 7 cyc_example] cyc_example by simp

end
