(* ===== verification/Condvar.thy ===== *)
theory Condvar
  imports Asco_Prelude
begin

text \<open>
  \<open>asco/sync/condition_variable.h\<close>: the queue of awake tokens under its spinlock, and every
  operation as steps of the calling task. The spinlock is its owner (\<open>Spinlock\<close> shows that
  there is at most one), so a critical section is a sequence of steps that other sections cannot
  enter but other accesses to shared variables can. A task is suspended and awakened as the
  schedulers' contract says (\<open>Scheduler\<close>): an awakening of a task that is not suspended is
  remembered and uses up the next suspension.
\<close>

section \<open>State\<close>

text \<open>\<open>cv_val\<close> is whatever the predicates read and write.\<close>

record 'v cv_sys =
  cv_owner :: "nat option"
  wait_queue :: "nat list"
  sleeping :: "nat \<Rightarrow> bool"
  awake_pending :: "nat \<Rightarrow> bool"
  cv_val :: 'v

definition cv_new :: "'v \<Rightarrow> 'v cv_sys" where
  "cv_new v = \<lparr>cv_owner = None, wait_queue = [], sleeping = (\<lambda>t. False), awake_pending = (\<lambda>t. False),
     cv_val = v\<rparr>"

definition token_suspend :: "nat \<Rightarrow> 'v cv_sys \<Rightarrow> 'v cv_sys" where
  "token_suspend t s =
     (if awake_pending s t then s\<lparr>awake_pending := (awake_pending s)(t := False)\<rparr>
      else s\<lparr>sleeping := (sleeping s)(t := True)\<rparr>)"

definition token_awake :: "nat \<Rightarrow> 'v cv_sys \<Rightarrow> 'v cv_sys" where
  "token_awake t s =
     (if sleeping s t then s\<lparr>sleeping := (sleeping s)(t := False)\<rparr>
      else s\<lparr>awake_pending := (awake_pending s)(t := True)\<rparr>)"

section \<open>The operations\<close>

datatype notify_failed = Predicate_false | No_waiters

text \<open>
  \<open>wait\<close> and \<open>wait_once\<close> (the flag tells them apart), \<open>notify_one\<close>, and \<open>notify\<close> with the
  number of waiters and, for the flag, with a predicate. \<open>Notify_pop n k\<close> has awoken \<open>k\<close>.
\<close>

datatype cv_pc =
    Cv_idle
  | Wait_enter bool
  | Wait_pred bool
  | Wait_push bool
  | Wait_yield bool
  | One_enter bool
  | One_check bool
  | One_pop bool
  | Notify_enter bool nat
  | Notify_check bool nat
  | Notify_pop nat nat

datatype cv_result =
    Cv_running
  | Wait_returned
  | Once_returned bool
  | One_returned bool
  | Notified nat
  | Notify_error notify_failed

type_synonym 'v cv_move = "(cv_pc \<times> cv_result \<times> 'v cv_sys) option"

definition unlock :: "'v cv_sys \<Rightarrow> 'v cv_sys" where
  "unlock s = s\<lparr>cv_owner := None\<rparr>"

definition enter :: "nat \<Rightarrow> cv_pc \<Rightarrow> 'v cv_sys \<Rightarrow> 'v cv_move" where
  "enter t pc s = (if cv_owner s = None then Some (pc, Cv_running, s\<lparr>cv_owner := Some t\<rparr>) else None)"

definition wait_step :: "('v \<Rightarrow> bool \<times> 'v) \<Rightarrow> nat \<Rightarrow> cv_pc \<Rightarrow> 'v cv_sys \<Rightarrow> 'v cv_move" where
  "wait_step predictor t pc s =
     (case pc of
        Wait_enter once \<Rightarrow> enter t (Wait_pred once) s
      | Wait_pred once \<Rightarrow>
          (case predictor (cv_val s) of (b, v) \<Rightarrow>
             let s = s\<lparr>cv_val := v\<rparr> in
             if b then Some (Cv_idle, if once then Once_returned False else Wait_returned, unlock s)
             else Some (Wait_push once, Cv_running, s))
      | Wait_push once \<Rightarrow>
          Some (Wait_yield once, Cv_running,
                unlock (token_suspend t (s\<lparr>wait_queue := wait_queue s @ [t]\<rparr>)))
      | Wait_yield once \<Rightarrow>
          if sleeping s t then None
          else if once then Some (Cv_idle, Once_returned True, s)
          else Some (Wait_enter False, Cv_running, s)
      | _ \<Rightarrow> None)"

text \<open>\<open>token.awake()\<close> of the front of the queue, then \<open>pop_front\<close>.\<close>

definition awake_front :: "'v cv_sys \<Rightarrow> 'v cv_sys" where
  "awake_front s = (token_awake (hd (wait_queue s)) s)\<lparr>wait_queue := tl (wait_queue s)\<rparr>"

definition notify_one_step :: "('v \<Rightarrow> bool \<times> 'v) \<Rightarrow> nat \<Rightarrow> cv_pc \<Rightarrow> 'v cv_sys \<Rightarrow> 'v cv_move" where
  "notify_one_step predicator t pc s =
     (case pc of
        One_enter p \<Rightarrow> enter t (One_check p) s
      | One_check p \<Rightarrow>
          if wait_queue s = []
          then Some (Cv_idle, if p then Notify_error No_waiters else One_returned False, unlock s)
          else if p
          then (case predicator (cv_val s) of (b, v) \<Rightarrow>
                  let s = s\<lparr>cv_val := v\<rparr> in
                  if b then Some (One_pop p, Cv_running, s)
                  else Some (Cv_idle, Notify_error Predicate_false, unlock s))
          else Some (One_pop p, Cv_running, s)
      | One_pop p \<Rightarrow> Some (Cv_idle, One_returned True, unlock (awake_front s))
      | _ \<Rightarrow> None)"

definition notify_step :: "('v \<Rightarrow> bool \<times> 'v) \<Rightarrow> nat \<Rightarrow> cv_pc \<Rightarrow> 'v cv_sys \<Rightarrow> 'v cv_move" where
  "notify_step predicator t pc s =
     (case pc of
        Notify_enter p n \<Rightarrow> enter t (Notify_check p n) s
      | Notify_check p n \<Rightarrow>
          if p
          then (if wait_queue s = [] then Some (Cv_idle, Notify_error No_waiters, unlock s)
                else (case predicator (cv_val s) of (b, v) \<Rightarrow>
                        let s = s\<lparr>cv_val := v\<rparr> in
                        if b then Some (Notify_pop n 0, Cv_running, s)
                        else Some (Cv_idle, Notify_error Predicate_false, unlock s)))
          else Some (Notify_pop n 0, Cv_running, s)
      | Notify_pop n k \<Rightarrow>
          if wait_queue s \<noteq> [] \<and> k < n then Some (Notify_pop n (k + 1), Cv_running, awake_front s)
          else Some (Cv_idle, Notified k, unlock s)
      | _ \<Rightarrow> None)"

text \<open>\<open>notify()\<close> is \<open>notify\<close> of the greatest \<open>size_t\<close>.\<close>

definition notify_max :: nat where "notify_max = 2 ^ 64 - 1"

definition cv_step :: "('v \<Rightarrow> bool \<times> 'v) \<Rightarrow> nat \<Rightarrow> cv_pc \<Rightarrow> 'v cv_sys \<Rightarrow> 'v cv_move" where
  "cv_step predictor t pc s =
     (case pc of
        Cv_idle \<Rightarrow> None
      | One_enter p \<Rightarrow> notify_one_step predictor t pc s
      | One_check p \<Rightarrow> notify_one_step predictor t pc s
      | One_pop p \<Rightarrow> notify_one_step predictor t pc s
      | Notify_enter p n \<Rightarrow> notify_step predictor t pc s
      | Notify_check p n \<Rightarrow> notify_step predictor t pc s
      | Notify_pop n k \<Rightarrow> notify_step predictor t pc s
      | _ \<Rightarrow> wait_step predictor t pc s)"

lemmas cv_defs = cv_step_def wait_step_def notify_one_step_def notify_step_def enter_def unlock_def
  awake_front_def token_suspend_def token_awake_def Let_def

section \<open>The order of awakening\<close>

text \<open>A call that runs without interference.\<close>

partial_function (option) cv_call ::
    "('v \<Rightarrow> bool \<times> 'v) \<Rightarrow> nat \<Rightarrow> cv_pc \<Rightarrow> 'v cv_sys \<Rightarrow> (cv_result \<times> 'v cv_sys) option" where
  "cv_call predictor t pc s =
     (case cv_step predictor t pc s of
        None \<Rightarrow> None
      | Some (pc', r, s') \<Rightarrow> if r = Cv_running then cv_call predictor t pc' s' else Some (r, s'))"

lemma cv_call_pop:
  "distinct (wait_queue s) \<Longrightarrow> \<forall>t\<in>set (wait_queue s). sleeping s t \<Longrightarrow>
   cv_call p t (Notify_pop n k) s =
     Some (Notified (k + min (n - k) (length (wait_queue s))),
       s\<lparr>cv_owner := None, wait_queue := drop (n - k) (wait_queue s),
         sleeping := (\<lambda>t. sleeping s t \<and> t \<notin> set (take (n - k) (wait_queue s)))\<rparr>)"
proof (induction "length (wait_queue s)" arbitrary: s k)
  case 0
  then show ?case by (subst cv_call.simps) (simp add: cv_defs)
next
  case (Suc m)
  then obtain x q where q: "wait_queue s = x # q" by (cases "wait_queue s") auto
  show ?case
  proof (cases "k < n")
    case False
    with q show ?thesis by (subst cv_call.simps) (simp add: cv_defs)
  next
    case True
    then obtain j where j: "n - k = Suc j" "n - (k + 1) = j" by (metis Suc_diff_Suc Suc_eq_plus1)
    let ?s = "awake_front s"
    have s1: "wait_queue ?s = q" "sleeping ?s = (sleeping s)(x := False)" "cv_owner ?s = cv_owner s"
      "awake_pending ?s = awake_pending s" "cv_val ?s = cv_val s"
      using q Suc.prems by (simp_all add: awake_front_def token_awake_def)
    have IH: "cv_call p t (Notify_pop n (k + 1)) ?s =
     Some (Notified (k + 1 + min j (length q)),
       ?s\<lparr>cv_owner := None, wait_queue := drop j q,
         sleeping := (\<lambda>t. sleeping ?s t \<and> t \<notin> set (take j q))\<rparr>)"
    proof -
      have "m = length (wait_queue ?s)" "distinct (wait_queue ?s)" "\<forall>t\<in>set (wait_queue ?s). sleeping ?s t"
        using Suc.hyps(2) Suc.prems q by (auto simp: s1)
      from Suc.hyps(1) [OF this, of "k + 1"] show ?thesis by (simp only: s1(1) j(2))
    qed
    have "?s\<lparr>cv_owner := None, wait_queue := drop j q, sleeping := (\<lambda>t. sleeping ?s t \<and> t \<notin> set (take j q))\<rparr> =
      s\<lparr>cv_owner := None, wait_queue := drop (n - k) (wait_queue s),
         sleeping := (\<lambda>t. sleeping s t \<and> t \<notin> set (take (n - k) (wait_queue s)))\<rparr>"
      using q s1 j Suc.prems by (auto simp: fun_eq_iff intro!: cv_sys.equality)
    with IH True q j show ?thesis
      by (subst cv_call.simps) (simp add: cv_step_def notify_step_def)
  qed
qed

text \<open>
  \<open>notify(n)\<close> awakes the first \<open>n\<close> waiters of the queue, in the order in which they came, or
  all of them when there are fewer; it returns how many, the others keep their places and stay
  asleep, and the lock is free again.
\<close>

theorem notify_awakes_first:
  assumes "cv_owner s = None" "distinct (wait_queue s)" "\<forall>t\<in>set (wait_queue s). sleeping s t"
  shows "cv_call p t (Notify_enter False n) s =
     Some (Notified (min n (length (wait_queue s))),
       s\<lparr>wait_queue := drop n (wait_queue s),
         sleeping := (\<lambda>t. sleeping s t \<and> t \<notin> set (take n (wait_queue s)))\<rparr>)"
proof -
  let ?s = "s\<lparr>cv_owner := Some t\<rparr>"
  have "cv_call p t (Notify_enter False n) s = cv_call p t (Notify_check False n) ?s"
    using assms(1) by (subst cv_call.simps) (simp add: cv_defs)
  also have "\<dots> = cv_call p t (Notify_pop n 0) ?s"
    by (subst cv_call.simps) (simp add: cv_defs)
  finally show ?thesis
    using cv_call_pop [of ?s p t n 0] assms by simp
qed

theorem notify_awakes_first_witness:
  "\<exists>s r. (cv_call (\<lambda>v. (True, v)) 9 (Notify_enter False 2)
      \<lparr>cv_owner = None, wait_queue = [4, 5, 6], sleeping = (\<lambda>t. t \<in> {4, 5, 6}),
        awake_pending = (\<lambda>t. False), cv_val = ()\<rparr> = Some (r, s)) \<and>
    r = Notified 2 \<and> wait_queue s = [6] \<and> \<not> sleeping s 4 \<and> \<not> sleeping s 5 \<and> sleeping s 6"
  by (subst notify_awakes_first) simp_all

section \<open>Tasks sharing a condition variable\<close>

text \<open>
  \<open>Publish t f\<close> is the notifying side: task \<open>t\<close> changes the variables of the predicate, outside
  the lock, and then calls \<open>notify()\<close>. The other calls are \<open>wait\<close>, \<open>wait_once\<close>, \<open>notify_one\<close>
  and \<open>notify\<close> with a bound.
\<close>

record 'v cv_world =
  cw_sys :: "'v cv_sys"
  cw_pcs :: "cv_pc list"

datatype 'v cv_action =
    Cv_wait nat bool
  | Cv_notify_one nat bool
  | Cv_notify nat bool nat
  | Publish nat "'v \<Rightarrow> 'v"
  | Cv_task nat

definition idle :: "nat \<Rightarrow> 'v cv_world \<Rightarrow> bool" where
  "idle t w \<longleftrightarrow> t < length (cw_pcs w) \<and> cw_pcs w ! t = Cv_idle"

definition set_pc :: "nat \<Rightarrow> cv_pc \<Rightarrow> 'v cv_world \<Rightarrow> 'v cv_world" where
  "set_pc t pc w = w\<lparr>cw_pcs := (cw_pcs w)[t := pc]\<rparr>"

fun cv_world_step :: "('v \<Rightarrow> bool) \<Rightarrow> 'v cv_action \<Rightarrow> 'v cv_world \<Rightarrow> 'v cv_world option" where
  "cv_world_step p (Cv_wait t once) w = (if idle t w then Some (set_pc t (Wait_enter once) w) else None)"
| "cv_world_step p (Cv_notify_one t b) w = (if idle t w then Some (set_pc t (One_enter b) w) else None)"
| "cv_world_step p (Cv_notify t b n) w = (if idle t w then Some (set_pc t (Notify_enter b n) w) else None)"
| "cv_world_step p (Publish t f) w =
     (if idle t w
      then Some (set_pc t (Notify_enter False notify_max)
             (w\<lparr>cw_sys := (cw_sys w)\<lparr>cv_val := f (cv_val (cw_sys w))\<rparr>\<rparr>))
      else None)"
| "cv_world_step p (Cv_task t) w =
     (if t < length (cw_pcs w)
      then case cv_step (\<lambda>v. (p v, v)) t (cw_pcs w ! t) (cw_sys w) of
             None \<Rightarrow> None
           | Some (pc, r, s) \<Rightarrow> Some (set_pc t pc (w\<lparr>cw_sys := s\<rparr>))
      else None)"

definition cv_init :: "nat \<Rightarrow> 'v \<Rightarrow> 'v cv_world" where
  "cv_init n v = \<lparr>cw_sys = cv_new v, cw_pcs = replicate n Cv_idle\<rparr>"

fun in_section :: "cv_pc \<Rightarrow> bool" where
  "in_section (Wait_pred _) = True"
| "in_section (Wait_push _) = True"
| "in_section (One_check _) = True"
| "in_section (One_pop _) = True"
| "in_section (Notify_check _ _) = True"
| "in_section (Notify_pop _ _) = True"
| "in_section _ = False"

fun about_to_push :: "cv_pc \<Rightarrow> bool" where
  "about_to_push (Wait_push _) = True"
| "about_to_push _ = False"

fun notifying :: "cv_pc \<Rightarrow> bool" where
  "notifying (Notify_enter b n) = True"
| "notifying (Notify_check b n) = True"
| "notifying (Notify_pop n k) = True"
| "notifying _ = False"

text \<open>A \<open>notify\<close> in progress that will reach everyone in a queue of length \<open>l\<close>.\<close>

fun will_awake :: "nat \<Rightarrow> cv_pc \<Rightarrow> bool" where
  "will_awake l (Notify_enter b n) = (\<not> b \<and> n = notify_max)"
| "will_awake l (Notify_check b n) = (\<not> b \<and> n = notify_max)"
| "will_awake l (Notify_pop n k) = (l \<le> n - k)"
| "will_awake l _ = False"

text \<open>
  The invariant: one task in a critical section, and it is the owner; the queue holds exactly the
  sleeping tasks, once each; and if the predicate holds while somebody sleeps or is about to,
  a notification of everybody is under way.
\<close>

definition lock_inv :: "'v cv_sys \<Rightarrow> cv_pc list \<Rightarrow> bool" where
  "lock_inv s pcs \<longleftrightarrow>
     (\<forall>t<length pcs. in_section (pcs ! t) \<longleftrightarrow> cv_owner s = Some t) \<and>
     (\<forall>t<length pcs. \<forall>b. pcs ! t = One_pop b \<longrightarrow> wait_queue s \<noteq> [])"

definition queue_inv :: "'v cv_sys \<Rightarrow> cv_pc list \<Rightarrow> bool" where
  "queue_inv s pcs \<longleftrightarrow>
     distinct (wait_queue s) \<and> (\<forall>t. sleeping s t \<longleftrightarrow> t \<in> set (wait_queue s)) \<and> (\<forall>t. \<not> awake_pending s t) \<and>
     (\<forall>t\<in>set (wait_queue s). t < length pcs \<and> (\<exists>b. pcs ! t = Wait_yield b))"

definition news_inv :: "('v \<Rightarrow> bool) \<Rightarrow> 'v cv_sys \<Rightarrow> cv_pc list \<Rightarrow> bool" where
  "news_inv p s pcs \<longleftrightarrow>
     (p (cv_val s) \<and> (wait_queue s \<noteq> [] \<or> (\<exists>t<length pcs. about_to_push (pcs ! t))) \<longrightarrow>
        (\<exists>t<length pcs. will_awake (length (wait_queue s)) (pcs ! t)))"

definition cv_inv :: "('v \<Rightarrow> bool) \<Rightarrow> 'v cv_world \<Rightarrow> bool" where
  "cv_inv p w \<longleftrightarrow> length (cw_pcs w) \<le> notify_max \<and> lock_inv (cw_sys w) (cw_pcs w) \<and>
     queue_inv (cw_sys w) (cw_pcs w) \<and> news_inv p (cw_sys w) (cw_pcs w)"

lemma queue_short: "queue_inv s pcs \<Longrightarrow> length (wait_queue s) \<le> length pcs"
proof -
  assume "queue_inv s pcs"
  then have "distinct (wait_queue s)" "set (wait_queue s) \<subseteq> {..<length pcs}"
    by (auto simp: queue_inv_def)
  then show ?thesis
    by (metis card_lessThan card_mono distinct_card finite_lessThan)
qed

definition inv3 :: "('v \<Rightarrow> bool) \<Rightarrow> 'v cv_sys \<Rightarrow> cv_pc list \<Rightarrow> bool" where
  "inv3 p s pcs \<longleftrightarrow> length pcs \<le> notify_max \<and> lock_inv s pcs \<and> queue_inv s pcs \<and> news_inv p s pcs"

lemma cv_inv_inv3: "cv_inv p w = inv3 p (cw_sys w) (cw_pcs w)"
  by (simp add: cv_inv_def inv3_def)

lemma inv3_owner: "inv3 p s pcs \<Longrightarrow> t < length pcs \<Longrightarrow> in_section (pcs ! t) \<Longrightarrow> cv_owner s = Some t"
  by (auto simp: inv3_def lock_inv_def)

lemma news_mono:
  assumes "news_inv p s pcs" "t < length pcs" "wait_queue s' = wait_queue s"
    and "p (cv_val s') \<Longrightarrow> p (cv_val s)" "about_to_push pc \<Longrightarrow> \<not> p (cv_val s')"
    and "will_awake (length (wait_queue s)) (pcs ! t) \<Longrightarrow> will_awake (length (wait_queue s)) pc"
  shows "news_inv p s' (pcs[t := pc])"
  unfolding news_inv_def
proof
  assume *: "p (cv_val s') \<and> (wait_queue s' \<noteq> [] \<or> (\<exists>u<length (pcs[t := pc]). about_to_push (pcs[t := pc] ! u)))"
  then have "\<not> about_to_push pc" using assms(5) by blast
  with * assms(2,3,4) have "p (cv_val s)" "wait_queue s \<noteq> [] \<or> (\<exists>u<length pcs. about_to_push (pcs ! u))"
    by (auto simp: nth_list_update split: if_splits)
  with assms(1) obtain u where u: "u < length pcs" "will_awake (length (wait_queue s)) (pcs ! u)"
    by (auto simp: news_inv_def)
  have "will_awake (length (wait_queue s)) (pcs[t := pc] ! u)"
    using assms(2,6) u by (cases "u = t") simp_all
  with u(1) assms(3) show "\<exists>u<length (pcs[t := pc]). will_awake (length (wait_queue s')) (pcs[t := pc] ! u)"
    by auto
qed

lemma inv3_enter:
  assumes "inv3 p s pcs" "t < length pcs" "cv_owner s = None" "\<not> in_section (pcs ! t)"
    and "in_section pc" "\<not> about_to_push pc" "\<forall>b. pc \<noteq> One_pop b" "\<forall>b. pcs ! t \<noteq> Wait_yield b"
    and "\<And>l. will_awake l (pcs ! t) \<Longrightarrow> will_awake l pc"
  shows "inv3 p (s\<lparr>cv_owner := Some t\<rparr>) (pcs[t := pc])"
proof -
  have "lock_inv (s\<lparr>cv_owner := Some t\<rparr>) (pcs[t := pc])"
    using assms by (auto simp: inv3_def lock_inv_def nth_list_update)
  moreover have "queue_inv (s\<lparr>cv_owner := Some t\<rparr>) (pcs[t := pc])"
    using assms by (auto simp: inv3_def queue_inv_def nth_list_update)
  moreover have "news_inv p (s\<lparr>cv_owner := Some t\<rparr>) (pcs[t := pc])"
    using assms by (intro news_mono [of p s]) (auto simp: inv3_def)
  ultimately show ?thesis using assms(1) by (simp add: inv3_def)
qed

lemma inv3_leave:
  assumes "inv3 p s pcs" "t < length pcs" "in_section (pcs ! t)"
    and "will_awake (length (wait_queue s)) (pcs ! t) \<Longrightarrow> wait_queue s = []"
  shows "inv3 p (s\<lparr>cv_owner := None\<rparr>) (pcs[t := Cv_idle])"
proof -
  have o: "cv_owner s = Some t" using assms inv3_owner by fastforce
  have "lock_inv (s\<lparr>cv_owner := None\<rparr>) (pcs[t := Cv_idle])"
    using assms o by (auto simp: inv3_def lock_inv_def nth_list_update)
  moreover have "queue_inv (s\<lparr>cv_owner := None\<rparr>) (pcs[t := Cv_idle])"
    using assms by (auto simp: inv3_def queue_inv_def nth_list_update)
  moreover have "news_inv p (s\<lparr>cv_owner := None\<rparr>) (pcs[t := Cv_idle])"
    unfolding news_inv_def
  proof
    assume *: "p (cv_val (s\<lparr>cv_owner := None\<rparr>)) \<and> (wait_queue (s\<lparr>cv_owner := None\<rparr>) \<noteq> [] \<or>
      (\<exists>u<length (pcs[t := Cv_idle]). about_to_push (pcs[t := Cv_idle] ! u)))"
    have "\<not> about_to_push (pcs[t := Cv_idle] ! u)" if "u < length pcs" for u
      using assms that o by (cases "pcs ! u") (auto simp: inv3_def lock_inv_def nth_list_update)
    with * have q: "p (cv_val s)" "wait_queue s \<noteq> []" by auto
    with assms(1) obtain u where "u < length pcs" "will_awake (length (wait_queue s)) (pcs ! u)"
      by (auto simp: inv3_def news_inv_def)
    with q assms(4) have "u \<noteq> t" by auto
    with \<open>u < length pcs\<close> \<open>will_awake _ _\<close> show "\<exists>u<length (pcs[t := Cv_idle]).
      will_awake (length (wait_queue (s\<lparr>cv_owner := None\<rparr>))) (pcs[t := Cv_idle] ! u)"
      by (auto simp: nth_list_update)
  qed
  ultimately show ?thesis using assms(1) by (simp add: inv3_def)
qed

text \<open>A step inside the critical section that changes neither queue nor variables.\<close>

lemma inv3_inside:
  assumes "inv3 p s pcs" "t < length pcs" "in_section (pcs ! t)" "in_section pc"
    and "about_to_push pc \<Longrightarrow> \<not> p (cv_val s)" "\<And>b. pc = One_pop b \<Longrightarrow> wait_queue s \<noteq> []"
    and "will_awake (length (wait_queue s)) (pcs ! t) \<Longrightarrow> will_awake (length (wait_queue s)) pc"
  shows "inv3 p s (pcs[t := pc])"
proof -
  have "lock_inv s (pcs[t := pc])"
    using assms by (auto simp: inv3_def lock_inv_def nth_list_update)
  moreover have "queue_inv s (pcs[t := pc])"
  proof -
    have "\<forall>b. pcs ! t \<noteq> Wait_yield b" using assms(3) by auto
    with assms show ?thesis by (auto simp: inv3_def queue_inv_def nth_list_update)
  qed
  moreover have "news_inv p s (pcs[t := pc])"
    using assms by (intro news_mono [of p s]) (auto simp: inv3_def)
  ultimately show ?thesis using assms(1) by (simp add: inv3_def)
qed

text \<open>The front of the queue is awoken by the owner of the lock.\<close>

lemma awake_front_eq:
  assumes "queue_inv s pcs" "wait_queue s \<noteq> []"
  shows "awake_front s = s\<lparr>sleeping := (sleeping s)(hd (wait_queue s) := False), wait_queue := tl (wait_queue s)\<rparr>"
  using assms by (simp add: awake_front_def token_awake_def queue_inv_def)

lemma queue_inv_pop:
  assumes "queue_inv s pcs" "wait_queue s \<noteq> []" "\<forall>b. pcs ! t \<noteq> Wait_yield b" "t < length pcs"
  shows "queue_inv (awake_front s) (pcs[t := pc])" "queue_inv ((awake_front s)\<lparr>cv_owner := x\<rparr>) (pcs[t := pc])"
proof -
  obtain x q where q: "wait_queue s = x # q" using assms(2) by (cases "wait_queue s") auto
  show "queue_inv (awake_front s) (pcs[t := pc])"
    unfolding awake_front_eq [OF assms(1,2)] using assms q
    by (auto simp: queue_inv_def nth_list_update)
  show "queue_inv ((awake_front s)\<lparr>cv_owner := y\<rparr>) (pcs[t := pc])" for y
    unfolding awake_front_eq [OF assms(1,2)] using assms q
    by (auto simp: queue_inv_def nth_list_update)
qed

text \<open>A step outside of the critical sections, by a task that is not in the queue.\<close>

lemma inv3_outside:
  assumes "inv3 p s pcs" "t < length pcs" "\<not> in_section (pcs ! t)" "t \<notin> set (wait_queue s)"
    and "\<not> in_section pc" "\<And>l. will_awake l (pcs ! t) \<Longrightarrow> will_awake l pc"
  shows "inv3 p s (pcs[t := pc])"
proof -
  have n: "\<forall>b. pc \<noteq> One_pop b" "\<not> about_to_push pc" using assms(5) by (auto elim: about_to_push.elims)
  have "lock_inv s (pcs[t := pc])"
    using assms n by (auto simp: inv3_def lock_inv_def nth_list_update)
  moreover have "queue_inv s (pcs[t := pc])"
    using assms by (auto simp: inv3_def queue_inv_def nth_list_update)
  moreover have "news_inv p s (pcs[t := pc])"
    using assms n by (intro news_mono [of p s]) (auto simp: inv3_def)
  ultimately show ?thesis using assms(1) by (simp add: inv3_def)
qed

text \<open>Enqueueing: the predicate is false, or a notification waits for the lock.\<close>

lemma inv3_push:
  assumes "inv3 p s pcs" "t < length pcs" "pcs ! t = Wait_push b"
  shows "inv3 p (unlock (token_suspend t (s\<lparr>wait_queue := wait_queue s @ [t]\<rparr>))) (pcs[t := Wait_yield b])"
proof -
  have o: "cv_owner s = Some t" using assms inv3_owner by fastforce
  have notin: "t \<notin> set (wait_queue s)" "\<not> awake_pending s t"
    using assms by (auto simp: inv3_def queue_inv_def)
  let ?s = "s\<lparr>wait_queue := wait_queue s @ [t], sleeping := (sleeping s)(t := True), cv_owner := None\<rparr>"
  have eq: "unlock (token_suspend t (s\<lparr>wait_queue := wait_queue s @ [t]\<rparr>)) = ?s"
    using notin by (simp add: unlock_def token_suspend_def)
  have "lock_inv ?s (pcs[t := Wait_yield b])"
    using assms o by (auto simp: inv3_def lock_inv_def nth_list_update)
  moreover have "queue_inv ?s (pcs[t := Wait_yield b])"
    using assms notin by (auto simp: inv3_def queue_inv_def nth_list_update)
  moreover have "news_inv p ?s (pcs[t := Wait_yield b])"
    unfolding news_inv_def
  proof
    assume "p (cv_val ?s) \<and> (wait_queue ?s \<noteq> [] \<or> (\<exists>u<length (pcs[t := Wait_yield b]).
      about_to_push (pcs[t := Wait_yield b] ! u)))"
    then have "p (cv_val s)" by simp
    with assms obtain u where u: "u < length pcs" "will_awake (length (wait_queue s)) (pcs ! u)"
      by (fastforce simp: inv3_def news_inv_def)
    with assms(3) have "u \<noteq> t" by auto
    with u(1) o assms(1) have "\<not> in_section (pcs ! u)" by (auto simp: inv3_def lock_inv_def)
    with u(2) have "will_awake l (pcs ! u)" for l by (cases "pcs ! u") auto
    with u(1) \<open>u \<noteq> t\<close> show "\<exists>u<length (pcs[t := Wait_yield b]).
      will_awake (length (wait_queue ?s)) (pcs[t := Wait_yield b] ! u)"
      by (auto simp: nth_list_update)
  qed
  ultimately show ?thesis using assms(1) by (simp add: inv3_def eq)
qed

text \<open>Awakening the front, with the lock kept (\<open>notify\<close>) or given back (\<open>notify_one\<close>).\<close>

lemma news_pop:
  assumes "news_inv p s pcs" "t < length pcs" "wait_queue s \<noteq> []" "\<not> about_to_push pc"
    and "length (wait_queue s') = length (wait_queue s) - 1" "cv_val s' = cv_val s"
    and "will_awake (length (wait_queue s)) (pcs ! t) \<Longrightarrow> will_awake (length (wait_queue s) - 1) pc \<or> wait_queue s' = []"
    and "\<forall>u<length pcs. u \<noteq> t \<longrightarrow> \<not> in_section (pcs ! u)"
  shows "news_inv p s' (pcs[t := pc])"
  unfolding news_inv_def
proof
  assume *: "p (cv_val s') \<and> (wait_queue s' \<noteq> [] \<or> (\<exists>u<length (pcs[t := pc]). about_to_push (pcs[t := pc] ! u)))"
  have "\<not> about_to_push (pcs[t := pc] ! u)" if "u < length pcs" for u
  proof (cases "u = t")
    case True
    then show ?thesis using assms(2,4) by simp
  next
    case False
    then have "\<not> in_section (pcs ! u)" using assms(8) that by blast
    with False show ?thesis by (cases "pcs ! u") simp_all
  qed
  with * have "wait_queue s' \<noteq> []" by auto
  from * assms(1,3,6) obtain u where u: "u < length pcs" "will_awake (length (wait_queue s)) (pcs ! u)"
    by (auto simp: news_inv_def)
  have "will_awake (length (wait_queue s')) (pcs[t := pc] ! u)"
  proof (cases "u = t")
    case True
    with assms(2,5,7) u(2) \<open>wait_queue s' \<noteq> []\<close> show ?thesis by simp
  next
    case False
    then have "\<not> in_section (pcs ! u)" using assms(8) u(1) by blast
    with u(2) have "will_awake l (pcs ! u)" for l by (cases "pcs ! u") auto
    with False show ?thesis by simp
  qed
  with u(1) show "\<exists>u<length (pcs[t := pc]). will_awake (length (wait_queue s')) (pcs[t := pc] ! u)"
    by auto
qed

lemma inv3_pop:
  assumes "inv3 p s pcs" "t < length pcs" "pcs ! t = Notify_pop n k" "wait_queue s \<noteq> []" "k < n"
  shows "inv3 p (awake_front s) (pcs[t := Notify_pop n (k + 1)])"
proof -
  have o: "cv_owner s = Some t" using assms inv3_owner by fastforce
  have q: "queue_inv s pcs" using assms(1) by (simp add: inv3_def)
  note eq = awake_front_eq [OF q assms(4)]
  have "lock_inv (awake_front s) (pcs[t := Notify_pop n (k + 1)])"
    unfolding eq using assms o by (fastforce simp: inv3_def lock_inv_def nth_list_update)
  moreover have "queue_inv (awake_front s) (pcs[t := Notify_pop n (k + 1)])"
    by (rule queue_inv_pop [OF q assms(4)]) (simp_all add: assms(2,3))
  moreover have "news_inv p (awake_front s) (pcs[t := Notify_pop n (k + 1)])"
    unfolding eq using assms o
    by (intro news_pop [of p s]) (auto simp: inv3_def lock_inv_def)
  ultimately show ?thesis using assms(1) by (simp add: inv3_def)
qed

lemma inv3_pop_one:
  assumes "inv3 p s pcs" "t < length pcs" "pcs ! t = One_pop b"
  shows "inv3 p (unlock (awake_front s)) (pcs[t := Cv_idle])"
proof -
  have o: "cv_owner s = Some t" using assms inv3_owner by fastforce
  have ne: "wait_queue s \<noteq> []" using assms by (auto simp: inv3_def lock_inv_def)
  have q: "queue_inv s pcs" using assms(1) by (simp add: inv3_def)
  note eq = awake_front_eq [OF q ne]
  have "lock_inv (unlock (awake_front s)) (pcs[t := Cv_idle])"
    unfolding eq unlock_def using assms o by (fastforce simp: inv3_def lock_inv_def nth_list_update)
  moreover have "queue_inv (unlock (awake_front s)) (pcs[t := Cv_idle])"
    unfolding unlock_def by (rule queue_inv_pop [OF q ne]) (simp_all add: assms(2,3))
  moreover have "news_inv p (unlock (awake_front s)) (pcs[t := Cv_idle])"
    unfolding eq unlock_def using assms o ne
    by (intro news_pop [of p s]) (auto simp: inv3_def lock_inv_def)
  ultimately show ?thesis using assms(1) by (simp add: inv3_def)
qed

lemma cv_task_inv:
  assumes "inv3 p s pcs" "t < length pcs" "cv_step (\<lambda>v. (p v, v)) t (pcs ! t) s = Some (pc, r, s')"
  shows "inv3 p s' (pcs[t := pc])"
proof (cases "pcs ! t")
  case Cv_idle
  with assms(3) show ?thesis by (simp add: cv_step_def)
next
  case (Wait_enter b)
  with assms(3) have "cv_owner s = None" "pc = Wait_pred b" "s' = s\<lparr>cv_owner := Some t\<rparr>"
    by (auto simp: cv_step_def wait_step_def enter_def split: if_splits)
  with Wait_enter inv3_enter [OF assms(1,2), of "Wait_pred b"] show ?thesis by simp
next
  case (Wait_pred b)
  with assms(3) have "if p (cv_val s) then pc = Cv_idle \<and> s' = s\<lparr>cv_owner := None\<rparr> else pc = Wait_push b \<and> s' = s"
    by (auto simp: cv_step_def wait_step_def unlock_def split: if_splits)
  with Wait_pred inv3_leave [OF assms(1,2)] inv3_inside [OF assms(1,2), of "Wait_push b"] show ?thesis
    by (auto split: if_splits)
next
  case (Wait_push b)
  with assms(3) inv3_push [OF assms(1,2) Wait_push] show ?thesis
    by (auto simp: cv_step_def wait_step_def)
next
  case (Wait_yield b)
  with assms(3) have *: "\<not> sleeping s t" "s' = s" "pc = Cv_idle \<or> pc = Wait_enter False"
    by (auto simp: cv_step_def wait_step_def split: if_splits)
  then have "t \<notin> set (wait_queue s)" using assms(1) by (simp add: inv3_def queue_inv_def)
  with Wait_yield * inv3_outside [OF assms(1,2), of pc] show ?thesis by auto
next
  case (One_enter b)
  with assms(3) have "cv_owner s = None" "pc = One_check b" "s' = s\<lparr>cv_owner := Some t\<rparr>"
    by (auto simp: cv_step_def notify_one_step_def enter_def split: if_splits)
  with One_enter inv3_enter [OF assms(1,2), of "One_check b"] show ?thesis by simp
next
  case (One_check b)
  with assms(3) have "pc = Cv_idle \<and> s' = s\<lparr>cv_owner := None\<rparr> \<or> wait_queue s \<noteq> [] \<and> pc = One_pop b \<and> s' = s"
    by (auto simp: cv_step_def notify_one_step_def unlock_def split: if_splits)
  with One_check inv3_leave [OF assms(1,2)] inv3_inside [OF assms(1,2), of "One_pop b"] show ?thesis by auto
next
  case (One_pop b)
  with assms(3) inv3_pop_one [OF assms(1,2) One_pop] show ?thesis
    by (auto simp: cv_step_def notify_one_step_def)
next
  case (Notify_enter b n)
  with assms(3) have "cv_owner s = None" "pc = Notify_check b n" "s' = s\<lparr>cv_owner := Some t\<rparr>"
    by (auto simp: cv_step_def notify_step_def enter_def split: if_splits)
  with Notify_enter inv3_enter [OF assms(1,2), of "Notify_check b n"] show ?thesis by simp
next
  case (Notify_check b n)
  with assms(3) have "b \<and> pc = Cv_idle \<and> s' = s\<lparr>cv_owner := None\<rparr> \<or> pc = Notify_pop n 0 \<and> s' = s"
    by (auto simp: cv_step_def notify_step_def unlock_def split: if_splits)
  moreover have "length (wait_queue s) \<le> notify_max"
    using assms(1) queue_short [of s pcs] by (simp add: inv3_def)
  ultimately show ?thesis
    using Notify_check inv3_leave [OF assms(1,2)] inv3_inside [OF assms(1,2), of "Notify_pop n 0"] by auto
next
  case (Notify_pop n k)
  with assms(3) have "wait_queue s \<noteq> [] \<and> k < n \<and> pc = Notify_pop n (k + 1) \<and> s' = awake_front s \<or>
      (wait_queue s = [] \<or> \<not> k < n) \<and> pc = Cv_idle \<and> s' = s\<lparr>cv_owner := None\<rparr>"
    by (auto simp: cv_step_def notify_step_def unlock_def split: if_splits)
  with Notify_pop inv3_leave [OF assms(1,2)] inv3_pop [OF assms(1,2) Notify_pop] show ?thesis by auto
qed

lemma cv_call_inv:
  assumes "inv3 p s pcs" "t < length pcs" "pcs ! t = Cv_idle" "\<not> in_section pc"
  shows "inv3 p s (pcs[t := pc])"
proof -
  have "t \<notin> set (wait_queue s)" using assms by (auto simp: inv3_def queue_inv_def)
  with inv3_outside [OF assms(1,2)] assms(3,4) show ?thesis by simp
qed

lemma publish_inv:
  assumes "inv3 p s pcs" "t < length pcs" "pcs ! t = Cv_idle"
  shows "inv3 p (s\<lparr>cv_val := v\<rparr>) (pcs[t := Notify_enter False notify_max])"
proof -
  let ?pc = "Notify_enter False notify_max"
  have "inv3 p s (pcs[t := ?pc])" using cv_call_inv [OF assms, of ?pc] by simp
  moreover have "will_awake l (pcs[t := ?pc] ! t)" for l using assms(2) by simp
  then have "news_inv p (s\<lparr>cv_val := v\<rparr>) (pcs[t := ?pc])"
    using assms(2) by (auto simp: news_inv_def intro!: exI [of _ t])
  ultimately show ?thesis by (simp add: inv3_def lock_inv_def queue_inv_def)
qed

lemma cv_world_inv [asco_inv]:
  "cv_inv p w \<Longrightarrow> cv_world_step p a w = Some w' \<Longrightarrow> cv_inv p w'"
proof (cases a)
  case (Publish t f)
  assume "cv_inv p w" "cv_world_step p a w = Some w'"
  with Publish publish_inv [of p "cw_sys w" "cw_pcs w" t] show ?thesis
    by (auto simp: cv_inv_inv3 idle_def set_pc_def split: if_splits)
next
  case (Cv_task t)
  assume "cv_inv p w" "cv_world_step p a w = Some w'"
  with Cv_task cv_task_inv [of p "cw_sys w" "cw_pcs w" t] show ?thesis
    by (auto simp: cv_inv_inv3 set_pc_def split: if_splits option.splits)
qed (auto simp: cv_inv_inv3 idle_def set_pc_def split: if_splits intro!: cv_call_inv)

interpretation cvw: invariant_system "cv_world_step p" "cv_inv p" for p :: "'v \<Rightarrow> bool"
  by unfold_locales (rule cv_world_inv)

lemma cv_inv_init: "n \<le> notify_max \<Longrightarrow> cv_inv p (cv_init n v)"
  by (simp add: cv_inv_def cv_init_def cv_new_def lock_inv_def queue_inv_def news_inv_def
      nth_replicate cong: conj_cong)

text \<open>A task inside a critical section can always go on.\<close>

lemma section_enabled:
  assumes "lock_inv s pcs" "t < length pcs" "in_section (pcs ! t)"
  shows "cv_step q t (pcs ! t) s \<noteq> None"
  using assms by (cases "pcs ! t") (auto simp: cv_defs split: prod.splits)


lemma notify_max_pos: "0 < notify_max" "Suc 0 < notify_max"
  by (simp_all add: notify_max_def)


end
