(* ===== verification/Semaphore.thy ===== *)
theory Semaphore
  imports Condvar Spinlock
begin

text \<open>
  \<open>asco/sync/semaphore.h\<close> and \<open>asco/sync/mutex.h\<close>. The counter is an atomic that is read and
  compare-exchanged outside of the lock of the condition variable as well as inside (in the
  predicates). Its type has room for the bound \<open>N\<close> by the choice of \<open>counter_type\<close>, and the
  invariant keeps the counter within \<open>N\<close>, so it is a natural number here.
\<close>

section \<open>The operations\<close>

text \<open>
  The program counters keep the locals: \<open>oldc\<close>, \<open>diff\<close>, the argument \<open>n\<close> of \<open>release\<close> and the
  loop counter \<open>i\<close> of \<open>acquire\<close> (which starts at the greatest \<open>size_t\<close> and wraps to 0).
\<close>

datatype sem_pc =
    Sem_idle
  | Try_load
  | Try_cas nat
  | Acq_load u64
  | Acq_wait u64 cv_pc
  | Acq_cas u64 nat
  | Rel_load nat
  | Rel_notify nat nat nat cv_pc
  | Rel_cas nat nat nat

datatype sem_result = Sem_running | Sem_tried bool | Sem_acquired | Sem_released nat

type_synonym sem_move = "(sem_pc \<times> sem_result \<times> nat cv_sys) option"

definition semaphore_new :: "nat \<Rightarrow> nat \<Rightarrow> nat cv_sys" where
  "semaphore_new N c = cv_new (min N c)"

text \<open>\<open>compare_exchange_weak\<close> on the counter; it may fail spuriously.\<close>

definition count_cas :: "bool \<Rightarrow> nat \<Rightarrow> nat \<Rightarrow> nat \<Rightarrow> bool \<times> nat" where
  "count_cas spurious e new c = (if c = e \<and> \<not> spurious then (True, new) else (False, c))"

definition try_acquire_step :: "bool \<Rightarrow> sem_pc \<Rightarrow> nat cv_sys \<Rightarrow> sem_move" where
  "try_acquire_step spurious pc s =
     (case pc of
        Try_load \<Rightarrow>
          if cv_val s = 0 then Some (Sem_idle, Sem_tried False, s) else Some (Try_cas (cv_val s), Sem_running, s)
      | Try_cas oldc \<Rightarrow>
          (case count_cas spurious oldc (oldc - 1) (cv_val s) of (b, c) \<Rightarrow>
             let s = s\<lparr>cv_val := c\<rparr> in
             if b then Some (Sem_idle, Sem_tried True, s) else Some (Try_load, Sem_running, s))
      | _ \<Rightarrow> None)"

text \<open>
  \<open>acquire\<close>: up to \<open>i = 16\<close> it spins (backing off), up to 100 it yields, then it waits on the
  condition variable; whatever \<open>wait_once\<close> returns, it starts again. Spinning and yielding only
  give others time.
\<close>

definition acquire_step :: "bool \<Rightarrow> nat \<Rightarrow> sem_pc \<Rightarrow> nat cv_sys \<Rightarrow> sem_move" where
  "acquire_step spurious t pc s =
     (case pc of
        Acq_load i \<Rightarrow>
          if cv_val s = 0
          then (let i = i + 1 in
                if i \<le> 100 then Some (Acq_load i, Sem_running, s)
                else Some (Acq_wait i (Wait_enter True), Sem_running, s))
          else Some (Acq_cas i (cv_val s), Sem_running, s)
      | Acq_wait i c \<Rightarrow>
          (case cv_step (\<lambda>c. (c \<noteq> 0, c)) t c s of
             None \<Rightarrow> None
           | Some (c', Cv_running, s') \<Rightarrow> Some (Acq_wait i c', Sem_running, s')
           | Some (_, _, s') \<Rightarrow> Some (Acq_load (- 1), Sem_running, s'))
      | Acq_cas i oldc \<Rightarrow>
          (case count_cas spurious oldc (oldc - 1) (cv_val s) of (b, c) \<Rightarrow>
             let s = s\<lparr>cv_val := c\<rparr> in
             if b then Some (Sem_idle, Sem_acquired, s) else Some (Acq_load i, Sem_running, s))
      | _ \<Rightarrow> None)"

definition release_step :: "nat \<Rightarrow> bool \<Rightarrow> nat \<Rightarrow> sem_pc \<Rightarrow> nat cv_sys \<Rightarrow> sem_move" where
  "release_step N spurious t pc s =
     (case pc of
        Rel_load n \<Rightarrow>
          (let oldc = cv_val s; diff = min n (N - oldc) in
           Some (Rel_notify n oldc diff (Notify_enter True diff), Sem_running, s))
      | Rel_notify n oldc diff c \<Rightarrow>
          (case cv_step (count_cas spurious oldc (oldc + diff)) t c s of
             None \<Rightarrow> None
           | Some (c', Cv_running, s') \<Rightarrow> Some (Rel_notify n oldc diff c', Sem_running, s')
           | Some (_, Notify_error No_waiters, s') \<Rightarrow> Some (Rel_cas n oldc diff, Sem_running, s')
           | Some (_, Notify_error Predicate_false, s') \<Rightarrow> Some (Rel_load n, Sem_running, s')
           | Some (_, _, s') \<Rightarrow> Some (Sem_idle, Sem_released diff, s'))
      | Rel_cas n oldc diff \<Rightarrow>
          (case count_cas spurious oldc (oldc + diff) (cv_val s) of (b, c) \<Rightarrow>
             let s = s\<lparr>cv_val := c\<rparr> in
             if b then Some (Sem_idle, Sem_released diff, s) else Some (Rel_load n, Sem_running, s))
      | _ \<Rightarrow> None)"

definition sem_step :: "nat \<Rightarrow> bool \<Rightarrow> nat \<Rightarrow> sem_pc \<Rightarrow> nat cv_sys \<Rightarrow> sem_move" where
  "sem_step N spurious t pc s =
     (case pc of
        Sem_idle \<Rightarrow> None
      | Try_load \<Rightarrow> try_acquire_step spurious pc s
      | Try_cas _ \<Rightarrow> try_acquire_step spurious pc s
      | Acq_load _ \<Rightarrow> acquire_step spurious t pc s
      | Acq_wait _ _ \<Rightarrow> acquire_step spurious t pc s
      | Acq_cas _ _ \<Rightarrow> acquire_step spurious t pc s
      | _ \<Rightarrow> release_step N spurious t pc s)"

lemmas sem_defs = sem_step_def try_acquire_step_def acquire_step_def release_step_def count_cas_def Let_def

text \<open>The blocking form is for threads outside of tasks; it runs \<open>acquire\<close> in a task of its own.\<close>

definition blocking_acquire :: "bool \<Rightarrow> sem_pc outcome" where
  "blocking_acquire blocking_env =
     (if \<not> blocking_env then Inl Blocking_call_in_task else Inr (Acq_load (- 1)))"

definition get_count :: "nat cv_sys \<Rightarrow> nat" where "get_count s = cv_val s"

section \<open>A task that runs alone\<close>

partial_function (option) sem_call :: "nat \<Rightarrow> nat \<Rightarrow> sem_pc \<Rightarrow> nat cv_sys \<Rightarrow> (sem_result \<times> nat cv_sys) option" where
  "sem_call N t pc s =
     (case sem_step N False t pc s of
        None \<Rightarrow> None
      | Some (pc', r, s') \<Rightarrow> if r = Sem_running then sem_call N t pc' s' else Some (r, s'))"

definition cv_rest :: "'v cv_sys \<Rightarrow> bool" where
  "cv_rest s \<longleftrightarrow> cv_owner s = None \<and> distinct (wait_queue s) \<and> (\<forall>t\<in>set (wait_queue s). sleeping s t)"

lemma sem_call_pop:
  "cv_call (count_cas False oldc (oldc + diff)) t (Notify_pop d k) s = Some (Notified m, s') \<Longrightarrow>
   sem_call N t (Rel_notify n oldc diff (Notify_pop d k)) s = Some (Sem_released diff, s')"
proof (induction "length (wait_queue s)" arbitrary: s k)
  case 0
  then show ?case
    by (subst sem_call.simps, subst (asm) cv_call.simps) (simp add: sem_defs cv_defs)
next
  case (Suc l)
  show ?case
  proof (cases "k < d")
    case True
    have l: "l = length (wait_queue (awake_front s))" "wait_queue s \<noteq> []"
      using Suc.hyps(2) by (auto simp: awake_front_def)
    have step: "cv_step q t (Notify_pop d k) s = Some (Notify_pop d (k + 1), Cv_running, awake_front s)" for q
      using True l(2) by (simp add: cv_step_def notify_step_def)
    with Suc.prems have "cv_call (count_cas False oldc (oldc + diff)) t (Notify_pop d (k + 1)) (awake_front s) =
        Some (Notified m, s')"
      by (subst (asm) cv_call.simps) simp
    from Suc.hyps(1) [OF l(1) this] show ?thesis
      by (subst sem_call.simps) (simp add: sem_step_def release_step_def step)
  next
    case False
    with Suc.prems show ?thesis
      by (subst sem_call.simps, subst (asm) cv_call.simps) (simp add: sem_defs cv_defs)
  qed
qed

lemma sem_call_alone:
  assumes "cv_rest s" "cv_val s \<le> N"
  shows "sem_call N t Try_load s =
      Some (if cv_val s = 0 then (Sem_tried False, s) else (Sem_tried True, s\<lparr>cv_val := cv_val s - 1\<rparr>))"
    and "0 < cv_val s \<longrightarrow> sem_call N t (Acq_load (- 1)) s = Some (Sem_acquired, s\<lparr>cv_val := cv_val s - 1\<rparr>)"
    and "sem_call N t (Rel_load n) s =
      Some (Sem_released (min n (N - cv_val s)),
        s\<lparr>cv_val := min N (cv_val s + n), wait_queue := drop (min n (N - cv_val s)) (wait_queue s),
          sleeping := (\<lambda>u. sleeping s u \<and> u \<notin> set (take (min n (N - cv_val s)) (wait_queue s)))\<rparr>)"
proof -
  show "sem_call N t Try_load s =
      Some (if cv_val s = 0 then (Sem_tried False, s) else (Sem_tried True, s\<lparr>cv_val := cv_val s - 1\<rparr>))"
    by (subst sem_call.simps) (simp add: sem_defs sem_call.simps [of N t "Try_cas (cv_val s)"])
  show "0 < cv_val s \<longrightarrow> sem_call N t (Acq_load (- 1)) s = Some (Sem_acquired, s\<lparr>cv_val := cv_val s - 1\<rparr>)"
    by (subst sem_call.simps) (simp add: sem_defs sem_call.simps [of N t "Acq_cas (- 1) (cv_val s)"])
  let ?d = "min n (N - cv_val s)"
  let ?p = "count_cas False (cv_val s) (cv_val s + ?d)"
  have sum: "cv_val s + ?d = min N (cv_val s + n)" using assms(2) by simp
  have start: "sem_call N t (Rel_load n) s = sem_call N t (Rel_notify n (cv_val s) ?d (Notify_check True ?d)) (s\<lparr>cv_owner := Some t\<rparr>)"
    using assms(1)
    by (subst sem_call.simps) (simp add: sem_defs sem_call.simps [of N t "Rel_notify n (cv_val s) ?d (Notify_enter True ?d)"]
        cv_rest_def cv_defs)
  show "sem_call N t (Rel_load n) s =
      Some (Sem_released ?d,
        s\<lparr>cv_val := min N (cv_val s + n), wait_queue := drop ?d (wait_queue s),
          sleeping := (\<lambda>u. sleeping s u \<and> u \<notin> set (take ?d (wait_queue s)))\<rparr>)"
  proof (cases "wait_queue s = []")
    case True
    then show ?thesis
      unfolding start sum [symmetric] using assms(1)
      by (subst sem_call.simps) (simp add: sem_defs cv_defs sem_call.simps [of N t "Rel_cas n (cv_val s) ?d"] cv_rest_def)
  next
    case False
    let ?s = "s\<lparr>cv_owner := Some t, cv_val := cv_val s + ?d\<rparr>"
    have "sem_call N t (Rel_load n) s = sem_call N t (Rel_notify n (cv_val s) ?d (Notify_pop ?d 0)) ?s"
      unfolding start using False
      by (subst sem_call.simps) (simp add: sem_defs cv_defs)
    also have "\<dots> = Some (Sem_released ?d, ?s\<lparr>cv_owner := None, wait_queue := drop ?d (wait_queue s),
          sleeping := (\<lambda>u. sleeping s u \<and> u \<notin> set (take ?d (wait_queue s)))\<rparr>)"
      by (rule sem_call_pop, subst cv_call_pop) (use assms(1) in \<open>auto simp: cv_rest_def\<close>)
    finally show ?thesis
      unfolding sum [symmetric] using assms(1) by (simp add: cv_rest_def)
  qed
qed

text \<open>
  A semaphore whose operations do not interfere: \<open>try_acquire\<close> takes a unit exactly when there
  is one, \<open>acquire\<close> returns at once with it, and \<open>release(n)\<close> adds as many units as fit below
  \<open>N\<close>, returns that number, and awakes as many of the waiters, the oldest first.
\<close>

theorem semaphore_sequential:
  assumes "cv_rest s" "cv_val s \<le> N"
  shows "sem_call N t Try_load s =
      Some (if cv_val s = 0 then (Sem_tried False, s) else (Sem_tried True, s\<lparr>cv_val := cv_val s - 1\<rparr>)) \<and>
    (0 < cv_val s \<longrightarrow> sem_call N t (Acq_load (- 1)) s = Some (Sem_acquired, s\<lparr>cv_val := cv_val s - 1\<rparr>)) \<and>
    sem_call N t (Rel_load n) s =
      Some (Sem_released (min n (N - cv_val s)),
        s\<lparr>cv_val := min N (cv_val s + n), wait_queue := drop (min n (N - cv_val s)) (wait_queue s),
          sleeping := (\<lambda>u. sleeping s u \<and> u \<notin> set (take (min n (N - cv_val s)) (wait_queue s)))\<rparr>)"
  by (intro conjI sem_call_alone assms)

theorem semaphore_sequential_witness:
  "\<exists>s'. sem_call 3 9 (Rel_load 5)
      \<lparr>cv_owner = None, wait_queue = [4, 5, 6], sleeping = (\<lambda>t. t \<in> {4, 5, 6}),
        awake_pending = (\<lambda>t. False), cv_val = 1\<rparr> = Some (Sem_released 2, s') \<and>
     cv_val s' = 3 \<and> wait_queue s' = [6] \<and> \<not> sleeping s' 4 \<and> sleeping s' 6"
  using semaphore_sequential [of "\<lparr>cv_owner = None, wait_queue = [4, 5, 6], sleeping = (\<lambda>t. t \<in> {4, 5, 6}),
        awake_pending = (\<lambda>t. False), cv_val = 1\<rparr>" 3 9 5]
  by (simp add: cv_rest_def)

section \<open>Tasks sharing a semaphore\<close>

text \<open>\<open>sw_taken\<close> counts the calls that returned with a unit, \<open>sw_given\<close> adds up what releases returned.\<close>

record sem_world =
  sw_sys :: "nat cv_sys"
  sw_pcs :: "sem_pc list"
  sw_taken :: nat
  sw_given :: nat

datatype sem_action =
    Call_try_acquire nat
  | Call_acquire nat
  | Call_release nat nat
  | Sem_task nat bool

fun sem_entry :: "sem_action \<Rightarrow> sem_pc" where
  "sem_entry (Call_try_acquire t) = Try_load"
| "sem_entry (Call_acquire t) = Acq_load (- 1)"
| "sem_entry (Call_release t n) = Rel_load n"
| "sem_entry (Sem_task t b) = Sem_idle"

fun sem_task_of :: "sem_action \<Rightarrow> nat" where
  "sem_task_of (Call_try_acquire t) = t"
| "sem_task_of (Call_acquire t) = t"
| "sem_task_of (Call_release t n) = t"
| "sem_task_of (Sem_task t b) = t"

fun account :: "sem_result \<Rightarrow> sem_world \<Rightarrow> sem_world" where
  "account Sem_running w = w"
| "account (Sem_tried b) w = (if b then w\<lparr>sw_taken := sw_taken w + 1\<rparr> else w)"
| "account Sem_acquired w = w\<lparr>sw_taken := sw_taken w + 1\<rparr>"
| "account (Sem_released d) w = w\<lparr>sw_given := sw_given w + d\<rparr>"

definition sem_world_step :: "nat \<Rightarrow> sem_action \<Rightarrow> sem_world \<Rightarrow> sem_world option" where
  "sem_world_step N a w =
     (let t = sem_task_of a in
      if \<not> t < length (sw_pcs w) then None
      else
        (case a of
           Sem_task t spurious \<Rightarrow>
             (case sem_step N spurious t (sw_pcs w ! t) (sw_sys w) of
                None \<Rightarrow> None
              | Some (pc, r, s) \<Rightarrow> Some (account r (w\<lparr>sw_sys := s, sw_pcs := (sw_pcs w)[t := pc]\<rparr>)))
         | _ \<Rightarrow>
             if sw_pcs w ! t = Sem_idle then Some (w\<lparr>sw_pcs := (sw_pcs w)[t := sem_entry a]\<rparr>) else None))"

definition sem_init :: "nat \<Rightarrow> nat \<Rightarrow> nat \<Rightarrow> sem_world" where
  "sem_init N c n = \<lparr>sw_sys = semaphore_new N c, sw_pcs = replicate n Sem_idle, sw_taken = 0, sw_given = 0\<rparr>"

text \<open>Units that a release has put into the counter and not yet returned for.\<close>

fun in_flight :: "sem_pc \<Rightarrow> nat" where
  "in_flight (Rel_notify n oldc diff (Notify_pop m k)) = diff"
| "in_flight _ = 0"

fun sem_pc_ok :: "nat \<Rightarrow> sem_pc \<Rightarrow> bool" where
  "sem_pc_ok N (Try_cas oldc) = (0 < oldc)"
| "sem_pc_ok N (Acq_cas i oldc) = (0 < oldc)"
| "sem_pc_ok N (Acq_wait i c) = (\<exists>b. c = Wait_enter b \<or> c = Wait_pred b \<or> c = Wait_push b \<or> c = Wait_yield b)"
| "sem_pc_ok N (Rel_notify n oldc diff c) =
     (oldc + diff \<le> N \<and> (c = Notify_enter True diff \<or> c = Notify_check True diff \<or> (\<exists>k. c = Notify_pop diff k)))"
| "sem_pc_ok N (Rel_cas n oldc diff) = (oldc + diff \<le> N)"
| "sem_pc_ok N pc = True"

definition sem_inv :: "nat \<Rightarrow> nat \<Rightarrow> sem_world \<Rightarrow> bool" where
  "sem_inv N c w \<longleftrightarrow>
     cv_val (sw_sys w) \<le> N \<and> (\<forall>pc\<in>set (sw_pcs w). sem_pc_ok N pc) \<and>
     cv_val (sw_sys w) + sw_taken w = min N c + sw_given w + sum_list (map in_flight (sw_pcs w))"

lemma awake_front_val [simp]: "cv_val (awake_front s) = cv_val s"
  by (simp add: awake_front_def token_awake_def)

lemma token_suspend_val [simp]: "cv_val (token_suspend t s) = cv_val s"
  by (simp add: token_suspend_def)

text \<open>What one step does to the counter, by the result.\<close>

lemma sem_step_effect:
  assumes "sem_step N sp t pc s = Some (pc', r, s')" "sem_pc_ok N pc" "cv_val s \<le> N"
  shows "sem_pc_ok N pc' \<and> cv_val s' \<le> N \<and>
    (case r of
       Sem_running \<Rightarrow> cv_val s' + in_flight pc = cv_val s + in_flight pc'
     | Sem_tried b \<Rightarrow> cv_val s' + of_bool b = cv_val s \<and> in_flight pc = 0 \<and> in_flight pc' = 0
     | Sem_acquired \<Rightarrow> cv_val s' + 1 = cv_val s \<and> in_flight pc = 0 \<and> in_flight pc' = 0
     | Sem_released d \<Rightarrow> cv_val s' + in_flight pc = cv_val s + d \<and> in_flight pc' = 0)"
proof (cases pc)
  case (Acq_wait i c)
  with assms show ?thesis
    by (auto simp: sem_step_def acquire_step_def cv_step_def wait_step_def enter_def unlock_def Let_def
        split: cv_pc.splits if_splits)
next
  case (Rel_notify n oldc diff c)
  with assms show ?thesis
    by (auto simp: sem_step_def release_step_def cv_step_def notify_step_def enter_def unlock_def Let_def
        count_cas_def split: cv_pc.splits if_splits)
qed (use assms in \<open>auto simp: sem_step_def try_acquire_step_def acquire_step_def release_step_def
        count_cas_def Let_def split: if_splits\<close>)

lemma sem_world_inv [asco_inv]:
  assumes "sem_inv N c w" "sem_world_step N a w = Some w'"
  shows "sem_inv N c w'"
proof (cases "\<exists>t sp. a = Sem_task t sp")
  case True
  then obtain t sp where a: "a = Sem_task t sp" by blast
  with assms(2) obtain pc r s where st: "t < length (sw_pcs w)"
    "sem_step N sp t (sw_pcs w ! t) (sw_sys w) = Some (pc, r, s)"
    "w' = account r (w\<lparr>sw_sys := s, sw_pcs := (sw_pcs w)[t := pc]\<rparr>)"
    by (auto simp: sem_world_step_def Let_def split: if_splits option.splits)
  have "sem_pc_ok N (sw_pcs w ! t)" "cv_val (sw_sys w) \<le> N"
    using assms(1) st(1) by (auto simp: sem_inv_def)
  note eff = sem_step_effect [OF st(2) this]
  have ok: "\<forall>pc\<in>set ((sw_pcs w)[t := pc]). sem_pc_ok N pc"
    using eff assms(1) by (auto simp: sem_inv_def dest!: set_update_subset_insert [THEN subsetD])
  show ?thesis
    using eff ok assms(1) st(3) sum_update [OF st(1), of in_flight pc]
    by (cases r) (auto simp: sem_inv_def)
next
  case False
  then obtain t where t: "t < length (sw_pcs w)" "sw_pcs w ! t = Sem_idle"
    "w' = w\<lparr>sw_pcs := (sw_pcs w)[t := sem_entry a]\<rparr>"
    using assms(2) by (cases a) (auto simp: sem_world_step_def Let_def split: if_splits)
  have e: "sem_pc_ok N (sem_entry a)" "in_flight (sem_entry a) = 0" by (cases a; simp)+
  with t assms(1) sum_update [OF t(1), of in_flight "sem_entry a"] show ?thesis
    by (auto simp: sem_inv_def dest!: set_update_subset_insert [THEN subsetD])
qed

interpretation sem: invariant_system "sem_world_step N" "sem_inv N c" for N c
  by unfold_locales (rule sem_world_inv)

lemma sem_inv_init: "sem_inv N c (sem_init N c n)"
  by (simp add: sem_inv_def sem_init_def semaphore_new_def cv_new_def)

section \<open>The counter that a semaphore is\<close>

text \<open>What clients rely on (\<open>Channel\<close>): an acquire takes a unit that is there, a release adds up to the bound.\<close>

datatype counter_op = Take | Give nat

fun counter_step :: "nat \<Rightarrow> counter_op \<Rightarrow> nat \<Rightarrow> nat option" where
  "counter_step N Take c = (if 0 < c then Some (c - 1) else None)"
| "counter_step N (Give n) c = Some (c + min n (N - c))"

text \<open>The operation that a step performs: its compare-exchange of the counter, if it succeeds.\<close>

definition sem_point :: "nat \<Rightarrow> bool \<Rightarrow> sem_pc \<Rightarrow> nat cv_sys \<Rightarrow> counter_op list" where
  "sem_point N spurious pc s =
     (case pc of
        Try_cas oldc \<Rightarrow> if fst (count_cas spurious oldc (oldc - 1) (cv_val s)) then [Take] else []
      | Acq_cas i oldc \<Rightarrow> if fst (count_cas spurious oldc (oldc - 1) (cv_val s)) then [Take] else []
      | Rel_notify n oldc diff (Notify_check b d) \<Rightarrow>
          if wait_queue s \<noteq> [] \<and> fst (count_cas spurious oldc (oldc + diff) (cv_val s)) then [Give n] else []
      | Rel_cas n oldc diff \<Rightarrow> if fst (count_cas spurious oldc (oldc + diff) (cv_val s)) then [Give n] else []
      | _ \<Rightarrow> [])"

definition sem_ops :: "nat \<Rightarrow> sem_action \<Rightarrow> sem_world \<Rightarrow> counter_op list" where
  "sem_ops N a w = (case a of Sem_task t spurious \<Rightarrow> sem_point N spurious (sw_pcs w ! t) (sw_sys w) | _ \<Rightarrow> [])"

text \<open>\<open>diff\<close> is what there is room for beyond \<open>oldc\<close>.\<close>

fun diff_ok :: "nat \<Rightarrow> sem_pc \<Rightarrow> bool" where
  "diff_ok N (Rel_notify n oldc diff c) = (diff = min n (N - oldc))"
| "diff_ok N (Rel_cas n oldc diff) = (diff = min n (N - oldc))"
| "diff_ok N pc = True"

lemma sem_step_refines:
  assumes "sem_step N sp t pc s = Some (pc', r, s')" "sem_pc_ok N pc" "diff_ok N pc"
  shows "diff_ok N pc' \<and> run (counter_step N) (sem_point N sp pc s) (cv_val s) = Some (cv_val s') \<and>
    count_list (sem_point N sp pc s) Take = (case r of Sem_tried b \<Rightarrow> of_bool b | Sem_acquired \<Rightarrow> 1 | _ \<Rightarrow> 0)"
proof (cases pc)
  case (Acq_wait i c)
  with assms show ?thesis
    by (auto simp: sem_point_def sem_step_def acquire_step_def cv_step_def wait_step_def enter_def unlock_def Let_def
        split: cv_pc.splits if_splits)
next
  case (Rel_notify n oldc diff c)
  with assms show ?thesis
    by (auto simp: sem_point_def sem_step_def release_step_def cv_step_def notify_step_def enter_def unlock_def Let_def
        count_cas_def split: cv_pc.splits if_splits)
qed (use assms in \<open>auto simp: sem_point_def sem_step_def try_acquire_step_def acquire_step_def release_step_def
        count_cas_def Let_def split: if_splits\<close>)

definition sem_lin_inv :: "nat \<Rightarrow> nat \<Rightarrow> sem_world \<Rightarrow> bool" where
  "sem_lin_inv N c w \<longleftrightarrow> sem_inv N c w \<and> (\<forall>pc\<in>set (sw_pcs w). diff_ok N pc)"

lemma account_sys [simp]: "sw_sys (account r w) = sw_sys w" "sw_pcs (account r w) = sw_pcs w"
  by (cases r; simp)+

lemma sem_world_refines:
  assumes "sem_lin_inv N c w" "sem_world_step N a w = Some w'"
  shows "sem_lin_inv N c w' \<and> run (counter_step N) (sem_ops N a w) (cv_val (sw_sys w)) = Some (cv_val (sw_sys w')) \<and>
    sw_taken w' = sw_taken w + count_list (sem_ops N a w) Take"
proof (cases "\<exists>t sp. a = Sem_task t sp")
  case True
  then obtain t sp where a: "a = Sem_task t sp" by blast
  with assms(2) obtain pc r s where st: "t < length (sw_pcs w)"
    "sem_step N sp t (sw_pcs w ! t) (sw_sys w) = Some (pc, r, s)"
    "w' = account r (w\<lparr>sw_sys := s, sw_pcs := (sw_pcs w)[t := pc]\<rparr>)"
    by (auto simp: sem_world_step_def Let_def split: if_splits option.splits)
  have "sem_pc_ok N (sw_pcs w ! t)" "diff_ok N (sw_pcs w ! t)"
    using assms(1) st(1) by (auto simp: sem_lin_inv_def sem_inv_def)
  note eff = sem_step_refines [OF st(2) this]
  have "\<forall>pc\<in>set ((sw_pcs w)[t := pc]). diff_ok N pc"
    using eff assms(1) by (auto simp: sem_lin_inv_def dest!: set_update_subset_insert [THEN subsetD])
  moreover have "sem_inv N c w'"
    using assms by (auto simp: sem_lin_inv_def intro: sem_world_inv)
  ultimately show ?thesis
    using eff st(3) a by (cases r) (auto simp: sem_lin_inv_def sem_ops_def)
next
  case False
  then obtain t where t: "t < length (sw_pcs w)" "w' = w\<lparr>sw_pcs := (sw_pcs w)[t := sem_entry a]\<rparr>" "sem_ops N a w = []"
    using assms(2) by (cases a) (auto simp: sem_world_step_def sem_ops_def Let_def split: if_splits)
  moreover have "diff_ok N (sem_entry a)" by (cases a) simp_all
  moreover have "sem_inv N c w'"
    using assms by (auto simp: sem_lin_inv_def intro: sem_world_inv)
  ultimately show ?thesis
    using assms(1) by (auto simp: sem_lin_inv_def dest!: set_update_subset_insert [THEN subsetD])
qed

interpretation sem_counter: refining_system "sem_world_step N" "sem_lin_inv N c" "counter_step N" "sem_ops N" "\<lambda>w. cv_val (sw_sys w)"
  for N c
  by unfold_locales (simp_all add: sem_world_refines)

lemma sem_lin_inv_init: "sem_lin_inv N c (sem_init N c n)"
  using sem_inv_init [of N c n] by (simp add: sem_lin_inv_def sem_init_def)

lemma sem_taken_trace:
  "sem_lin_inv N c w \<Longrightarrow> run (sem_world_step N) as w = Some w' \<Longrightarrow>
     sw_taken w' = sw_taken w + count_list (trace (sem_world_step N) (sem_ops N) as w) Take"
proof (induction as arbitrary: w)
  case Nil
  then show ?case by simp
next
  case (Cons a as)
  then obtain v where v: "sem_world_step N a w = Some v" "run (sem_world_step N) as v = Some w'"
    by (auto split: option.splits)
  note step = sem_world_refines [OF Cons.prems(1) v(1)]
  with Cons.IH [OF _ v(2)] v(1) show ?case by simp
qed

text \<open>
  C15: A semaphore is a bounded counter, under every interleaving of the atomic steps of its operations by any number of tasks: in
  the order of their successful compare-exchanges the calls are a run of the counter, from the start value (cut to the bound) to the present one,
  in which every unit that a call has returned with is taken once and was there, and a release adds up to the bound.
\<close>

theorem semaphore_refines_counter:
  assumes "run (sem_world_step N) as (sem_init N c n) = Some w"
  shows "run (counter_step N) (trace (sem_world_step N) (sem_ops N) as (sem_init N c n)) (min N c) = Some (cv_val (sw_sys w)) \<and>
    count_list (trace (sem_world_step N) (sem_ops N) as (sem_init N c n)) Take = sw_taken w"
proof -
  have "cv_val (sw_sys (sem_init N c n)) = min N c" "sw_taken (sem_init N c n) = 0"
    by (simp_all add: sem_init_def semaphore_new_def cv_new_def)
  with sem_counter.run_refines [OF sem_lin_inv_init assms] sem_taken_trace [OF sem_lin_inv_init assms] show ?thesis by simp
qed

text \<open>Task 0 releases two units of a full semaphore of one while task 1 takes the unit: one of the two is added.\<close>

theorem semaphore_refines_counter_witness:
  "\<exists>w. run (sem_world_step 1) [Call_release 0 2, Call_try_acquire 1, Sem_task 1 False, Sem_task 1 False, Sem_task 0 False, Sem_task 0 False,
        Sem_task 0 False, Sem_task 0 False] (sem_init 1 5 2) = Some w \<and>
     run (counter_step 1) [Take, Give 2] 1 = Some (cv_val (sw_sys w)) \<and> sw_taken w = 1"
proof -
  let ?as = "[Call_release 0 2, Call_try_acquire 1, Sem_task 1 False, Sem_task 1 False, Sem_task 0 False, Sem_task 0 False,
        Sem_task 0 False, Sem_task 0 False]"
  have tr: "trace (sem_world_step 1) (sem_ops 1) ?as (sem_init 1 5 2) = [Take, Give 2]"
    and "\<exists>w. run (sem_world_step 1) ?as (sem_init 1 5 2) = Some w"
    by (simp_all add: sem_init_def semaphore_new_def cv_new_def sem_world_step_def sem_ops_def sem_point_def sem_defs cv_defs)
  then obtain w where "run (sem_world_step 1) ?as (sem_init 1 5 2) = Some w" by blast
  from semaphore_refines_counter [OF this] this show ?thesis unfolding tr by (intro exI [of _ w]) simp
qed

text \<open>
  A semaphore neither invents nor loses units, under every interleaving of the atomic steps of
  its operations: the counter stays within the bound, and counter plus units taken is what it
  started with plus what the releases have returned plus what the releases now awakening their
  waiters have put in. So \<open>oldc + diff\<close> never exceeds the counter type either.
\<close>

theorem semaphore_conserves_units:
  assumes "run (sem_world_step N) as (sem_init N c n) = Some w"
  shows "cv_val (sw_sys w) \<le> N \<and>
    cv_val (sw_sys w) + sw_taken w = min N c + sw_given w + sum_list (map in_flight (sw_pcs w))"
  using sem.run_inv [OF sem_inv_init assms] by (simp add: sem_inv_def)

theorem semaphore_conserves_units_witness:
  "\<exists>w. run (sem_world_step 2) [Call_try_acquire 0, Sem_task 0 False, Call_release 1 5, Sem_task 1 False,
      Sem_task 0 False, Sem_task 1 False, Sem_task 1 False] (sem_init 2 1 2) = Some w \<and>
     cv_val (sw_sys w) + sw_taken w = 1 \<and> sw_taken w = 1"
proof -
  let ?as = "[Call_try_acquire 0, Sem_task 0 False, Call_release 1 5, Sem_task 1 False,
      Sem_task 0 False, Sem_task 1 False, Sem_task 1 False]"
  obtain w where w: "run (sem_world_step 2) ?as (sem_init 2 1 2) = Some w" "sw_taken w = 1" "sw_given w = 0"
    "sum_list (map in_flight (sw_pcs w)) = 0"
    by (simp add: sem_init_def semaphore_new_def cv_new_def sem_world_step_def sem_defs cv_defs)
  with semaphore_conserves_units [OF w(1)] show ?thesis by auto
qed

section \<open>A lost awakening\<close>

lemma acquire_spins:
  assumes "pcs ! t = Acq_load (of_nat j)" "t < length pcs" "cv_val s = 0" "j + k \<le> 100"
  shows "run (sem_world_step N) (replicate k (Sem_task t False))
      \<lparr>sw_sys = s, sw_pcs = pcs, sw_taken = x, sw_given = y\<rparr> =
    Some \<lparr>sw_sys = s, sw_pcs = pcs[t := Acq_load (of_nat (j + k))], sw_taken = x, sw_given = y\<rparr>"
  using assms
proof (induction k arbitrary: pcs j)
  case 0
  then show ?case by (metis add_0_right list_update_id replicate_0 run.simps(1))
next
  case (Suc k)
  have "(of_nat (Suc j) :: u64) \<le> 100"
    unfolding word_le_nat_alt unat_of_nat using Suc.prems(4) by simp
  then have "(of_nat j + 1 :: u64) \<le> 100" by (simp add: add.commute)
  with Suc.prems Suc.IH [of "pcs[t := Acq_load (of_nat (Suc j))]" "Suc j"] show ?case
    by (simp add: sem_world_step_def sem_defs add.commute)
qed

text \<open>
  An acquirer can sleep for ever beside a free unit. \<open>release\<close> finds no waiter, gives the
  lock of the condition variable back, and only then adds the unit; an acquirer that enters in
  between sees a counter of 0 and goes to sleep, and nobody notifies it.
\<close>

theorem semaphore_lost_wakeup:
  "\<exists>as w. run (sem_world_step 1) as (sem_init 1 0 2) = Some w \<and>
     sw_pcs w = [Acq_wait 101 (Wait_yield True), Sem_idle] \<and> sleeping (sw_sys w) 0 \<and>
     cv_val (sw_sys w) = 1 \<and> sw_given w = 1"
proof -
  let ?s0 = "cv_new 0 :: nat cv_sys"
  have spin: "run (sem_world_step 1) (Call_acquire 0 # Sem_task 0 False # replicate 100 (Sem_task 0 False))
      (sem_init 1 0 2) =
    Some \<lparr>sw_sys = ?s0, sw_pcs = [Acq_load 100, Sem_idle], sw_taken = 0, sw_given = 0\<rparr>"
    using acquire_spins [of "[Acq_load (of_nat 0), Sem_idle]" 0 0 ?s0 100 1 0 0]
    by (simp add: sem_init_def semaphore_new_def sem_world_step_def sem_defs cv_new_def)
  let ?bs = "[Sem_task 0 False, Call_release 1 1, Sem_task 1 False, Sem_task 1 False, Sem_task 1 False,
    Sem_task 0 False, Sem_task 0 False, Sem_task 0 False, Sem_task 1 False]"
  have "\<exists>w. run (sem_world_step 1) ?bs
      \<lparr>sw_sys = ?s0, sw_pcs = [Acq_load 100, Sem_idle], sw_taken = 0, sw_given = 0\<rparr> = Some w \<and>
     sw_pcs w = [Acq_wait 101 (Wait_yield True), Sem_idle] \<and> sleeping (sw_sys w) 0 \<and>
     cv_val (sw_sys w) = 1 \<and> sw_given w = 1"
    by (simp add: cv_new_def sem_world_step_def sem_defs cv_defs)
  with spin show ?thesis by (metis (no_types, lifting) run_append option.simps(5))
qed

end
