(* ===== verification/Mutex.thy ===== *)
theory Mutex
  imports Semaphore
begin

text \<open>
  \<open>asco/sync/mutex.h\<close>: a binary semaphore whose units are guards. Tasks run the steps of
  \<open>acquire\<close>, \<open>try_acquire\<close> and (in the destructor of a guard) \<open>release\<close>; a guard is what its
  pointer \<open>m_lock\<close> is. The typed mutex adds a value behind the guard.
\<close>

section \<open>Guards\<close>

datatype mutex_guard = Null_mguard | Mguard

definition mutex_guard_move :: "mutex_guard \<Rightarrow> mutex_guard \<times> mutex_guard" where
  "mutex_guard_move rhs = (rhs, Null_mguard)"

definition mutex_guard_bool :: "mutex_guard \<Rightarrow> bool" where
  "mutex_guard_bool g \<longleftrightarrow> g \<noteq> Null_mguard"

text \<open>The destructor of a guard: what the task has to run.\<close>

definition mutex_guard_dtor :: "mutex_guard \<Rightarrow> sem_pc" where
  "mutex_guard_dtor g = (if g = Null_mguard then Sem_idle else Rel_load 1)"

definition mutex_new :: "nat cv_sys" where "mutex_new = semaphore_new 1 1"

definition mutex_dtor :: "nat cv_sys \<Rightarrow> unit outcome" where
  "mutex_dtor s = (if get_count s = 0 then Inl Destroyed_while_locked else Inr ())"

definition blocking_lock :: "bool \<Rightarrow> sem_pc outcome" where
  "blocking_lock blocking_env =
     (if \<not> blocking_env then Inl Blocking_call_in_task else Inr (Acq_load (- 1)))"

text \<open>
  The guard of \<open>mutex<T>\<close>: its pointer and the guard of the inner mutex, which move together.
  Dereferencing asks the pointer.
\<close>

record mutex_guard_t =
  mg_lock :: bool
  mg_guard :: mutex_guard

definition mutex_guard_t_new :: "mutex_guard \<Rightarrow> mutex_guard_t" where
  "mutex_guard_t_new g =
     (if mutex_guard_bool g then \<lparr>mg_lock = True, mg_guard = g\<rparr> else \<lparr>mg_lock = False, mg_guard = Null_mguard\<rparr>)"

definition mutex_guard_t_move :: "mutex_guard_t \<Rightarrow> mutex_guard_t \<times> mutex_guard_t" where
  "mutex_guard_t_move rhs =
     (case mutex_guard_move (mg_guard rhs) of (g, r) \<Rightarrow>
        (\<lparr>mg_lock = mg_lock rhs, mg_guard = g\<rparr>, \<lparr>mg_lock = False, mg_guard = r\<rparr>))"

definition mutex_guard_t_deref :: "mutex_guard_t \<Rightarrow> 'v \<Rightarrow> 'v outcome" where
  "mutex_guard_t_deref g v = (if \<not> mg_lock g then Inl Null_guard_dereferenced else Inr v)"

section \<open>Tasks sharing a mutex\<close>

record mutex_world =
  mx_sys :: "nat cv_sys"
  mx_pcs :: "sem_pc list"
  mx_guards :: "mutex_guard_t list"

text \<open>
  \<open>Mx_destroy t i\<close> runs the destructor of guard \<open>i\<close>; move assignment is that, followed by the
  move construction \<open>Mx_move i j\<close> into the destroyed guard.
\<close>

datatype mutex_action =
    Mx_lock nat
  | Mx_try_lock nat
  | Mx_task nat bool
  | Mx_destroy nat nat
  | Mx_move nat nat

fun guards_of :: "sem_result \<Rightarrow> mutex_guard_t list" where
  "guards_of Sem_acquired = [mutex_guard_t_new Mguard]"
| "guards_of (Sem_tried b) = [mutex_guard_t_new (if b then Mguard else Null_mguard)]"
| "guards_of _ = []"

fun mutex_step :: "mutex_action \<Rightarrow> mutex_world \<Rightarrow> mutex_world option" where
  "mutex_step (Mx_lock t) w =
     (if t < length (mx_pcs w) \<and> mx_pcs w ! t = Sem_idle
      then Some (w\<lparr>mx_pcs := (mx_pcs w)[t := Acq_load (- 1)]\<rparr>) else None)"
| "mutex_step (Mx_try_lock t) w =
     (if t < length (mx_pcs w) \<and> mx_pcs w ! t = Sem_idle
      then Some (w\<lparr>mx_pcs := (mx_pcs w)[t := Try_load]\<rparr>) else None)"
| "mutex_step (Mx_task t spurious) w =
     (if \<not> t < length (mx_pcs w) then None
      else
        (case sem_step 1 spurious t (mx_pcs w ! t) (mx_sys w) of
           None \<Rightarrow> None
         | Some (pc, r, s) \<Rightarrow>
             Some (w\<lparr>mx_sys := s, mx_pcs := (mx_pcs w)[t := pc], mx_guards := mx_guards w @ guards_of r\<rparr>)))"
| "mutex_step (Mx_destroy t i) w =
     (if t < length (mx_pcs w) \<and> mx_pcs w ! t = Sem_idle \<and> i < length (mx_guards w)
      then Some (w\<lparr>mx_pcs := (mx_pcs w)[t := mutex_guard_dtor (mg_guard (mx_guards w ! i))],
                   mx_guards := (mx_guards w)[i := mutex_guard_t_new Null_mguard]\<rparr>)
      else None)"
| "mutex_step (Mx_move i j) w =
     (if i < length (mx_guards w) \<and> j < length (mx_guards w) \<and> i \<noteq> j \<and>
         mx_guards w ! i = mutex_guard_t_new Null_mguard
      then (case mutex_guard_t_move (mx_guards w ! j) of (g, rhs) \<Rightarrow>
              Some (w\<lparr>mx_guards := (mx_guards w)[i := g, j := rhs]\<rparr>))
      else None)"

definition mutex_init :: "nat \<Rightarrow> mutex_world" where
  "mutex_init n = \<lparr>mx_sys = mutex_new, mx_pcs = replicate n Sem_idle, mx_guards = []\<rparr>"

abbreviation mutex_holders :: "mutex_world \<Rightarrow> nat" where
  "mutex_holders w \<equiv> count_if (\<lambda>g. mutex_guard_bool (mg_guard g)) (mx_guards w)"

text \<open>A release that has not put its unit back yet.\<close>

fun releasing :: "sem_pc \<Rightarrow> nat" where
  "releasing (Rel_load n) = 1"
| "releasing (Rel_notify n oldc diff (Notify_pop m k)) = 0"
| "releasing (Rel_notify n oldc diff c) = 1"
| "releasing (Rel_cas n oldc diff) = 1"
| "releasing pc = 0"

fun mutex_pc_ok :: "sem_pc \<Rightarrow> bool" where
  "mutex_pc_ok (Try_cas oldc) = (oldc = 1)"
| "mutex_pc_ok (Acq_cas i oldc) = (oldc = 1)"
| "mutex_pc_ok (Acq_wait i c) = (\<exists>b. c = Wait_enter b \<or> c = Wait_pred b \<or> c = Wait_push b \<or> c = Wait_yield b)"
| "mutex_pc_ok (Rel_load n) = (n = 1)"
| "mutex_pc_ok (Rel_notify n oldc diff c) =
     (n = 1 \<and> oldc = 0 \<and> diff = 1 \<and> (c = Notify_enter True 1 \<or> c = Notify_check True 1 \<or> (\<exists>k. c = Notify_pop 1 k)))"
| "mutex_pc_ok (Rel_cas n oldc diff) = (n = 1 \<and> oldc = 0 \<and> diff = 1)"
| "mutex_pc_ok pc = True"

definition mutex_inv :: "mutex_world \<Rightarrow> bool" where
  "mutex_inv w \<longleftrightarrow>
     (\<forall>pc\<in>set (mx_pcs w). mutex_pc_ok pc) \<and>
     (\<forall>g\<in>set (mx_guards w). mg_lock g = mutex_guard_bool (mg_guard g)) \<and>
     cv_val (mx_sys w) + mutex_holders w + sum_list (map releasing (mx_pcs w)) = 1"

definition holding :: "sem_result \<Rightarrow> nat" where
  "holding r = of_bool (r = Sem_acquired \<or> r = Sem_tried True)"

lemma mutex_step_effect:
  assumes "sem_step 1 sp t pc s = Some (pc', r, s')" "mutex_pc_ok pc" "cv_val s + releasing pc \<le> 1"
  shows "mutex_pc_ok pc' \<and> cv_val s' + releasing pc' + holding r = cv_val s + releasing pc"
proof (cases pc)
  case (Acq_wait i c)
  with assms show ?thesis
    by (auto simp: holding_def sem_step_def acquire_step_def cv_step_def wait_step_def enter_def unlock_def Let_def
        split: cv_pc.splits if_splits)
next
  case (Rel_notify n oldc diff c)
  with assms show ?thesis
    by (auto simp: holding_def sem_step_def release_step_def cv_step_def notify_step_def enter_def unlock_def Let_def
        count_cas_def split: cv_pc.splits if_splits)
qed (use assms in \<open>auto simp: holding_def sem_step_def try_acquire_step_def acquire_step_def release_step_def
        count_cas_def Let_def split: if_splits\<close>)

lemma holders_new: "count_if (\<lambda>g. mutex_guard_bool (mg_guard g)) (guards_of r) = holding r"
  by (cases r) (auto simp: holding_def mutex_guard_t_new_def mutex_guard_bool_def)

lemma guards_of_ok: "g \<in> set (guards_of r) \<Longrightarrow> mg_lock g = mutex_guard_bool (mg_guard g)"
  by (cases r) (auto simp: mutex_guard_t_new_def mutex_guard_bool_def split: if_splits)

lemma set_update: "x \<in> set (xs[i := y]) \<Longrightarrow> x = y \<or> x \<in> set xs"
  using set_update_subset_insert by fastforce

lemma mutex_inv_step [asco_inv]:
  assumes "mutex_inv w" "mutex_step a w = Some w'"
  shows "mutex_inv w'"
proof (cases a)
  case (Mx_task t sp)
  with assms(2) obtain pc r s where st: "t < length (mx_pcs w)"
    "sem_step 1 sp t (mx_pcs w ! t) (mx_sys w) = Some (pc, r, s)"
    "w' = w\<lparr>mx_sys := s, mx_pcs := (mx_pcs w)[t := pc], mx_guards := mx_guards w @ guards_of r\<rparr>"
    by (auto split: if_splits option.splits)
  have "releasing (mx_pcs w ! t) \<le> sum_list (map releasing (mx_pcs w))"
    using st(1) by (intro member_le_sum_list) simp_all
  then have "cv_val (mx_sys w) + releasing (mx_pcs w ! t) \<le> 1" "mutex_pc_ok (mx_pcs w ! t)"
    using assms(1) st(1) by (auto simp: mutex_inv_def)
  note eff = mutex_step_effect [OF st(2) this(2) this(1)]
  have "\<forall>pc\<in>set (mx_pcs w'). mutex_pc_ok pc"
    using eff assms(1) st(3) by (auto simp: mutex_inv_def dest!: set_update)
  moreover have "\<forall>g\<in>set (mx_guards w'). mg_lock g = mutex_guard_bool (mg_guard g)"
    using assms(1) st(3) guards_of_ok by (auto simp: mutex_inv_def)
  moreover have "cv_val (mx_sys w') + mutex_holders w' + sum_list (map releasing (mx_pcs w')) = 1"
    using eff assms(1) st(3) sum_update [OF st(1), of releasing pc] holders_new [of r]
    by (simp add: mutex_inv_def)
  ultimately show ?thesis by (simp add: mutex_inv_def)
next
  case (Mx_destroy t i)
  let ?dtor = "mutex_guard_dtor (mg_guard (mx_guards w ! i))"
  from Mx_destroy assms(2) have st: "t < length (mx_pcs w)" "mx_pcs w ! t = Sem_idle" "i < length (mx_guards w)"
    "w' = w\<lparr>mx_pcs := (mx_pcs w)[t := ?dtor], mx_guards := (mx_guards w)[i := mutex_guard_t_new Null_mguard]\<rparr>"
    by (auto split: if_splits)
  have h: "int (mutex_holders w') = int (mutex_holders w) - of_bool (mutex_guard_bool (mg_guard (mx_guards w ! i)))"
    using count_if_update [OF st(3), of "\<lambda>g. mutex_guard_bool (mg_guard g)" "mutex_guard_t_new Null_mguard"] st(4)
    by (simp add: mutex_guard_t_new_def mutex_guard_bool_def)
  have r: "releasing ?dtor = of_bool (mutex_guard_bool (mg_guard (mx_guards w ! i)))" "mutex_pc_ok ?dtor"
    by (simp_all add: mutex_guard_dtor_def mutex_guard_bool_def)
  have "\<forall>g\<in>set (mx_guards w'). mg_lock g = mutex_guard_bool (mg_guard g)"
    using assms(1) st(4)
    by (auto simp: mutex_inv_def mutex_guard_t_new_def mutex_guard_bool_def dest!: set_update)
  moreover have "\<forall>pc\<in>set (mx_pcs w'). mutex_pc_ok pc"
    using assms(1) st(4) r(2) by (auto simp: mutex_inv_def dest!: set_update)
  moreover have "cv_val (mx_sys w') + mutex_holders w' + sum_list (map releasing (mx_pcs w')) = 1"
  proof -
    have "mutex_holders w' + releasing ?dtor = mutex_holders w"
      using h r(1) by (cases "mutex_guard_bool (mg_guard (mx_guards w ! i))") simp_all
    moreover have "sum_list (map releasing (mx_pcs w')) = sum_list (map releasing (mx_pcs w)) + releasing ?dtor"
      using sum_update [OF st(1), of releasing ?dtor] st(2,4) by simp
    moreover have "cv_val (mx_sys w') = cv_val (mx_sys w)" using st(4) by simp
    ultimately show ?thesis using assms(1) unfolding mutex_inv_def by linarith
  qed
  ultimately show ?thesis by (simp add: mutex_inv_def)
next
  case (Mx_move i j)
  from Mx_move assms(2) have st: "i < length (mx_guards w)" "j < length (mx_guards w)" "i \<noteq> j"
    "mx_guards w ! i = mutex_guard_t_new Null_mguard"
    "w' = w\<lparr>mx_guards := (mx_guards w)[i := fst (mutex_guard_t_move (mx_guards w ! j)),
                                         j := snd (mutex_guard_t_move (mx_guards w ! j))]\<rparr>"
    by (auto split: if_splits prod.splits)
  have "int (mutex_holders w') = int (mutex_holders w)"
    using count_if_update [OF st(1), of "\<lambda>g. mutex_guard_bool (mg_guard g)" "fst (mutex_guard_t_move (mx_guards w ! j))"]
      count_if_update [of j "(mx_guards w)[i := fst (mutex_guard_t_move (mx_guards w ! j))]"
        "\<lambda>g. mutex_guard_bool (mg_guard g)" "snd (mutex_guard_t_move (mx_guards w ! j))"] st
    by (simp add: mutex_guard_t_move_def mutex_guard_move_def mutex_guard_t_new_def mutex_guard_bool_def)
  moreover have "mg_lock (mx_guards w ! j) = mutex_guard_bool (mg_guard (mx_guards w ! j))"
    using assms(1) st(2) by (simp add: mutex_inv_def)
  then have "\<forall>g\<in>set (mx_guards w'). mg_lock g = mutex_guard_bool (mg_guard g)"
    using assms(1) st(5)
    by (auto simp: mutex_inv_def mutex_guard_t_move_def mutex_guard_move_def mutex_guard_bool_def dest!: set_update)
  ultimately show ?thesis using assms(1) st(5) by (simp add: mutex_inv_def)
next
  case (Mx_lock t)
  with assms sum_update [of t "mx_pcs w" releasing "Acq_load (- 1)"] show ?thesis
    by (auto simp: mutex_inv_def split: if_splits dest!: set_update)
next
  case (Mx_try_lock t)
  with assms sum_update [of t "mx_pcs w" releasing Try_load] show ?thesis
    by (auto simp: mutex_inv_def split: if_splits dest!: set_update)
qed

interpretation mtx: exclusive_system mutex_step mutex_inv mutex_holders
proof
  show "mutex_inv w \<Longrightarrow> mutex_step a w = Some w' \<Longrightarrow> mutex_inv w'" for w a w'
    by (rule mutex_inv_step)
  show "mutex_inv w \<Longrightarrow> mutex_holders w \<le> 1" for w
    by (simp add: mutex_inv_def)
qed

lemma mutex_inv_init: "mutex_inv (mutex_init n)"
  by (simp add: mutex_inv_def mutex_init_def mutex_new_def semaphore_new_def cv_new_def)

text \<open>
  C16: The coroutine mutex excludes: under every interleaving of \<open>lock\<close>, \<open>try_lock\<close> and of guards
  being moved and destroyed, at most one guard holds it; a guard can be dereferenced exactly
  while it is that one; and when no call is in progress the destructor panics exactly if some
  guard still holds it.
\<close>

theorem mutex_exclusion:
  assumes "run mutex_step as (mutex_init n) = Some w"
  shows "mutex_holders w \<le> 1 \<and>
    (\<forall>g\<in>set (mx_guards w). mutex_guard_t_deref g v = Inr v \<longleftrightarrow> mutex_guard_bool (mg_guard g)) \<and>
    ((\<forall>pc\<in>set (mx_pcs w). pc = Sem_idle) \<longrightarrow>
       (mutex_dtor (mx_sys w) = Inl Destroyed_while_locked \<longleftrightarrow> mutex_holders w = 1))"
proof -
  have inv: "mutex_inv w" by (rule mtx.run_inv [OF mutex_inv_init assms])
  have quiet: "cv_val (mx_sys w) + mutex_holders w = 1" if "\<forall>pc\<in>set (mx_pcs w). pc = Sem_idle"
  proof -
    from that have "map releasing (mx_pcs w) = map (\<lambda>pc. 0) (mx_pcs w)"
      by (intro map_cong) auto
    then have "sum_list (map releasing (mx_pcs w)) = 0" by (simp only: sum_list_0)
    with inv show ?thesis unfolding mutex_inv_def by linarith
  qed
  have "mutex_holders w \<le> 1" "\<forall>g\<in>set (mx_guards w). mg_lock g = mutex_guard_bool (mg_guard g)"
    using inv by (auto simp: mutex_inv_def)
  with quiet show ?thesis
    by (auto simp: mutex_dtor_def get_count_def mutex_guard_t_deref_def)
qed

theorem mutex_exclusion_witness:
  "\<exists>w. run mutex_step [Mx_lock 0, Mx_task 0 False, Mx_task 0 False, Mx_try_lock 1, Mx_task 1 False, Mx_move 1 0]
      (mutex_init 2) = Some w \<and> mutex_holders w \<le> 1 \<and>
     mutex_dtor (mx_sys w) = Inl Destroyed_while_locked"
proof -
  let ?as = "[Mx_lock 0, Mx_task 0 False, Mx_task 0 False, Mx_try_lock 1, Mx_task 1 False, Mx_move 1 0]"
  obtain w where w: "run mutex_step ?as (mutex_init 2) = Some w" "mx_pcs w = [Sem_idle, Sem_idle]"
    "mutex_holders w = 1"
    by (simp add: mutex_init_def mutex_new_def semaphore_new_def cv_new_def sem_defs
        mutex_guard_t_new_def mutex_guard_bool_def mutex_guard_t_move_def mutex_guard_move_def)
  moreover have "\<forall>pc\<in>set (mx_pcs w). pc = Sem_idle" using w(2) by simp
  ultimately show ?thesis using mutex_exclusion [OF w(1), of "()"] by blast
qed

end
