(* ===== verification/Rwlock.thy ===== *)
theory Rwlock
  imports Condvar
begin

text \<open>
  \<open>asco/sync/rwlock.h\<close>, the reader-writer lock of the coroutines. The lock word counts readers in
  its low 61 bits; bit 63 is the writer, bit 62 a waiting writer, bit 61 a reader that is being
  upgraded. Each atomic access is one step; the two condition variables are those of \<open>Condvar\<close>,
  with the lock word as the variable of their predicates.
\<close>

section \<open>State\<close>

definition rl_write_mask :: u64 where "rl_write_mask = push_bit (8 * 8 - 1) 1"
definition rl_write_willing_mask :: u64 where "rl_write_willing_mask = drop_bit 1 rl_write_mask"
definition rl_update_willing_mask :: u64 where "rl_update_willing_mask = drop_bit 2 rl_write_mask"

lemma rl_masks:
  "rl_write_mask = 0x8000000000000000" "rl_write_willing_mask = 0x4000000000000000"
  "rl_update_willing_mask = 0x2000000000000000"
  by (simp_all add: rl_write_mask_def rl_write_willing_mask_def rl_update_willing_mask_def)

record rwlock =
  rl_state :: u64
  read_cv :: "u64 cv_sys"
  write_cv :: "u64 cv_sys"

definition rwlock_new :: rwlock where
  "rwlock_new = \<lparr>rl_state = 0, read_cv = cv_new 0, write_cv = cv_new 0\<rparr>"

text \<open>A guard is whether its pointer \<open>m_rwlock\<close> is set.\<close>

definition rl_guard_move :: "bool \<Rightarrow> bool \<times> bool" where
  "rl_guard_move rhs = (rhs, False)"

definition on_read_cv :: "(u64 \<Rightarrow> bool \<times> u64) \<Rightarrow> nat \<Rightarrow> cv_pc \<Rightarrow> rwlock \<Rightarrow> (cv_pc \<times> cv_result \<times> rwlock) option" where
  "on_read_cv p t c l =
     (case cv_step p t c ((read_cv l)\<lparr>cv_val := rl_state l\<rparr>) of
        None \<Rightarrow> None
      | Some (c', r, s) \<Rightarrow> Some (c', r, l\<lparr>rl_state := cv_val s, read_cv := s\<rparr>))"

definition on_write_cv :: "(u64 \<Rightarrow> bool \<times> u64) \<Rightarrow> nat \<Rightarrow> cv_pc \<Rightarrow> rwlock \<Rightarrow> (cv_pc \<times> cv_result \<times> rwlock) option" where
  "on_write_cv p t c l =
     (case cv_step p t c ((write_cv l)\<lparr>cv_val := rl_state l\<rparr>) of
        None \<Rightarrow> None
      | Some (c', r, s) \<Rightarrow> Some (c', r, l\<lparr>rl_state := cv_val s, write_cv := s\<rparr>))"

definition word_cas :: "bool \<Rightarrow> u64 \<Rightarrow> u64 \<Rightarrow> u64 \<Rightarrow> bool \<times> u64" where
  "word_cas spurious e new x = (if x = e \<and> \<not> spurious then (True, new) else (False, x))"

section \<open>The operations\<close>

datatype rl_pc =
    Rl_idle
  | Rd_load
  | Rd_wait u64 cv_pc
  | Trd_load
  | Trd_cas u64
  | Wr_load
  | Wr_cas u64
  | Wr_check
  | Wr_wait u64 cv_pc
  | Wr_lock u64
  | Twr_load
  | Twr_cas u64
  | Up_load
  | Up_cas u64
  | Up_wait cv_pc
  | Drop_read
  | Drop_read_r cv_pc
  | Drop_read_w cv_pc
  | Drop_write
  | Drop_write_w cv_pc
  | Drop_write_r cv_pc

datatype rl_result = Rl_running | Got_rguard bool | Got_wguard bool

type_synonym rl_move = "(rl_pc \<times> rl_result \<times> rwlock) option"

text \<open>
  \<open>read\<close>: the predicate of \<open>wait_once\<close> is the compare-exchange itself, on the value loaded before;
  when the wait was interrupted, the loop loads again.
\<close>

definition rl_read_step :: "bool \<Rightarrow> nat \<Rightarrow> rl_pc \<Rightarrow> rwlock \<Rightarrow> rl_move" where
  "rl_read_step spurious t pc l =
     (case pc of
        Rd_load \<Rightarrow>
          (let e = rl_state l; e = e AND NOT (rl_write_mask OR rl_write_willing_mask) in
           Some (Rd_wait e (Wait_enter True), Rl_running, l))
      | Rd_wait e c \<Rightarrow>
          (case on_read_cv (word_cas spurious e (e + 1)) t c l of
             None \<Rightarrow> None
           | Some (c', r, l) \<Rightarrow>
               (case r of
                  Cv_running \<Rightarrow> Some (Rd_wait e c', Rl_running, l)
                | Once_returned b \<Rightarrow>
                    if b then Some (Rd_load, Rl_running, l) else Some (Rl_idle, Got_rguard True, l)
                | _ \<Rightarrow> None))
      | _ \<Rightarrow> None)"

definition rl_try_read_step :: "bool \<Rightarrow> rl_pc \<Rightarrow> rwlock \<Rightarrow> rl_move" where
  "rl_try_read_step spurious pc l =
     (case pc of
        Trd_load \<Rightarrow>
          (let e = rl_state l in
           if e AND (rl_write_mask OR rl_write_willing_mask) \<noteq> 0 then Some (Rl_idle, Got_rguard False, l)
           else Some (Trd_cas (e AND NOT (rl_write_mask OR rl_write_willing_mask)), Rl_running, l))
      | Trd_cas e \<Rightarrow>
          (case word_cas spurious e (e + 1) (rl_state l) of (b, x) \<Rightarrow>
             let l = l\<lparr>rl_state := x\<rparr> in
             if b then Some (Rl_idle, Got_rguard True, l) else Some (Trd_load, Rl_running, l))
      | _ \<Rightarrow> None)"

text \<open>\<open>write\<close>: the predicate of \<open>wait_once\<close> looks at the local \<open>e\<close>, not at the lock word.\<close>

definition rl_write_step :: "bool \<Rightarrow> nat \<Rightarrow> rl_pc \<Rightarrow> rwlock \<Rightarrow> rl_move" where
  "rl_write_step spurious t pc l =
     (case pc of
        Wr_load \<Rightarrow> Some (Wr_cas (rl_state l), Rl_running, l)
      | Wr_cas e \<Rightarrow>
          (case word_cas spurious e (e OR rl_write_willing_mask) (rl_state l) of (b, x) \<Rightarrow>
             Some (if b then Wr_check else Wr_load, Rl_running, l\<lparr>rl_state := x\<rparr>))
      | Wr_check \<Rightarrow>
          (let e = rl_state l in
           if e = 0 then Some (Wr_load, Rl_running, l) else Some (Wr_wait e (Wait_enter True), Rl_running, l))
      | Wr_wait e c \<Rightarrow>
          (case on_write_cv (\<lambda>x. (e = rl_write_willing_mask, x)) t c l of
             None \<Rightarrow> None
           | Some (c', r, l) \<Rightarrow>
               (case r of
                  Cv_running \<Rightarrow> Some (Wr_wait e c', Rl_running, l)
                | Once_returned b \<Rightarrow> Some (if b then Wr_check else Wr_lock e, Rl_running, l)
                | _ \<Rightarrow> None))
      | Wr_lock e \<Rightarrow>
          (case word_cas False e (e OR rl_write_mask) (rl_state l) of (b, x) \<Rightarrow>
             let l = l\<lparr>rl_state := x\<rparr> in
             if b then Some (Rl_idle, Got_wguard True, l) else Some (Wr_check, Rl_running, l))
      | _ \<Rightarrow> None)"

definition rl_try_write_step :: "rl_pc \<Rightarrow> rwlock \<Rightarrow> rl_move" where
  "rl_try_write_step pc l =
     (case pc of
        Twr_load \<Rightarrow>
          (let e = rl_state l in
           if e \<noteq> 0 then Some (Rl_idle, Got_wguard False, l) else Some (Twr_cas e, Rl_running, l))
      | Twr_cas e \<Rightarrow>
          (case word_cas False e rl_write_mask (rl_state l) of (b, x) \<Rightarrow>
             Some (Rl_idle, Got_wguard b, l\<lparr>rl_state := x\<rparr>))
      | _ \<Rightarrow> None)"

text \<open>
  \<open>upgrade\<close> of a guard that holds the lock. When it gives up it returns an empty guard and the
  read guard (its by-value argument) is destroyed: \<open>Drop_read\<close>.
\<close>

definition rl_upgrade_step :: "bool \<Rightarrow> nat \<Rightarrow> rl_pc \<Rightarrow> rwlock \<Rightarrow> rl_move" where
  "rl_upgrade_step spurious t pc l =
     (case pc of
        Up_load \<Rightarrow>
          (let e = rl_state l in
           if e AND (rl_update_willing_mask OR rl_write_willing_mask) \<noteq> 0
           then Some (Drop_read, Got_wguard False, l) else Some (Up_cas e, Rl_running, l))
      | Up_cas e \<Rightarrow>
          (case word_cas spurious e (e OR rl_write_willing_mask OR rl_update_willing_mask) (rl_state l) of (b, x) \<Rightarrow>
             if b then Some (Up_wait (Wait_enter False), Rl_running, l\<lparr>rl_state := x\<rparr>)
             else if x AND (rl_update_willing_mask OR rl_write_willing_mask) \<noteq> 0
             then Some (Drop_read, Got_wguard False, l) else Some (Up_load, Rl_running, l))
      | Up_wait c \<Rightarrow>
          (case on_write_cv (word_cas False (rl_write_willing_mask OR (rl_update_willing_mask + 1))
                               (rl_write_mask OR rl_write_willing_mask)) t c l of
             None \<Rightarrow> None
           | Some (c', r, l) \<Rightarrow>
               (case r of
                  Cv_running \<Rightarrow> Some (Up_wait c', Rl_running, l)
                | Wait_returned \<Rightarrow> Some (Rl_idle, Got_wguard True, l)
                | _ \<Rightarrow> None))
      | _ \<Rightarrow> None)"

text \<open>The destructors of the two kinds of guard.\<close>

definition notify_read :: "(cv_pc \<Rightarrow> rl_pc) \<Rightarrow> rl_pc \<Rightarrow> nat \<Rightarrow> cv_pc \<Rightarrow> rwlock \<Rightarrow> rl_move" where
  "notify_read here next t c l =
     (case on_read_cv (\<lambda>x. (True, x)) t c l of
        None \<Rightarrow> None
      | Some (c', r, l) \<Rightarrow> Some (if r = Cv_running then here c' else next, Rl_running, l))"

definition notify_write :: "(cv_pc \<Rightarrow> rl_pc) \<Rightarrow> rl_pc \<Rightarrow> nat \<Rightarrow> cv_pc \<Rightarrow> rwlock \<Rightarrow> rl_move" where
  "notify_write here next t c l =
     (case on_write_cv (\<lambda>x. (True, x)) t c l of
        None \<Rightarrow> None
      | Some (c', r, l) \<Rightarrow> Some (if r = Cv_running then here c' else next, Rl_running, l))"

definition rl_read_dtor_step :: "nat \<Rightarrow> rl_pc \<Rightarrow> rwlock \<Rightarrow> rl_move" where
  "rl_read_dtor_step t pc l =
     (case pc of
        Drop_read \<Rightarrow>
          Some (Drop_read_r (Notify_enter False notify_max), Rl_running, l\<lparr>rl_state := rl_state l - 1\<rparr>)
      | Drop_read_r c \<Rightarrow> notify_read Drop_read_r (Drop_read_w (Notify_enter False notify_max)) t c l
      | Drop_read_w c \<Rightarrow> notify_write Drop_read_w Rl_idle t c l
      | _ \<Rightarrow> None)"

definition rl_write_dtor_step :: "nat \<Rightarrow> rl_pc \<Rightarrow> rwlock \<Rightarrow> rl_move" where
  "rl_write_dtor_step t pc l =
     (case pc of
        Drop_write \<Rightarrow>
          Some (Drop_write_w (Notify_enter False notify_max), Rl_running, l\<lparr>rl_state := 0\<rparr>)
      | Drop_write_w c \<Rightarrow> notify_write Drop_write_w (Drop_write_r (Notify_enter False notify_max)) t c l
      | Drop_write_r c \<Rightarrow> notify_read Drop_write_r Rl_idle t c l
      | _ \<Rightarrow> None)"

definition rl_step :: "bool \<Rightarrow> nat \<Rightarrow> rl_pc \<Rightarrow> rwlock \<Rightarrow> rl_move" where
  "rl_step spurious t pc l =
     (case pc of
        Rl_idle \<Rightarrow> None
      | Rd_load \<Rightarrow> rl_read_step spurious t pc l
      | Rd_wait _ _ \<Rightarrow> rl_read_step spurious t pc l
      | Trd_load \<Rightarrow> rl_try_read_step spurious pc l
      | Trd_cas _ \<Rightarrow> rl_try_read_step spurious pc l
      | Twr_load \<Rightarrow> rl_try_write_step pc l
      | Twr_cas _ \<Rightarrow> rl_try_write_step pc l
      | Up_load \<Rightarrow> rl_upgrade_step spurious t pc l
      | Up_cas _ \<Rightarrow> rl_upgrade_step spurious t pc l
      | Up_wait _ \<Rightarrow> rl_upgrade_step spurious t pc l
      | Drop_read \<Rightarrow> rl_read_dtor_step t pc l
      | Drop_read_r _ \<Rightarrow> rl_read_dtor_step t pc l
      | Drop_read_w _ \<Rightarrow> rl_read_dtor_step t pc l
      | Drop_write \<Rightarrow> rl_write_dtor_step t pc l
      | Drop_write_w _ \<Rightarrow> rl_write_dtor_step t pc l
      | Drop_write_r _ \<Rightarrow> rl_write_dtor_step t pc l
      | _ \<Rightarrow> rl_write_step spurious t pc l)"

section \<open>Tasks sharing a lock\<close>

record rl_world =
  rl_lock :: rwlock
  rl_pcs :: "rl_pc list"
  rl_readers :: "bool list"
  rl_writers :: "bool list"

datatype rl_op = Rl_read | Rl_try_read | Rl_write | Rl_try_write

text \<open>
  Move assignment of a guard is its destruction followed by a move construction in its place
  (\<open>Rl_move_read\<close>, \<open>Rl_move_write\<close>). A guard that holds nothing upgrades to an empty guard at once.
\<close>

datatype rl_action =
    Rl_call nat rl_op
  | Rl_upgrade nat nat
  | Rl_drop_read nat nat
  | Rl_drop_write nat nat
  | Rl_move_read nat nat
  | Rl_move_write nat nat
  | Rl_task nat bool

fun rl_entry :: "rl_op \<Rightarrow> rl_pc" where
  "rl_entry Rl_read = Rd_load"
| "rl_entry Rl_try_read = Trd_load"
| "rl_entry Rl_write = Wr_load"
| "rl_entry Rl_try_write = Twr_load"

fun rl_give :: "rl_result \<Rightarrow> rl_world \<Rightarrow> rl_world" where
  "rl_give Rl_running w = w"
| "rl_give (Got_rguard b) w = w\<lparr>rl_readers := rl_readers w @ [b]\<rparr>"
| "rl_give (Got_wguard b) w = w\<lparr>rl_writers := rl_writers w @ [b]\<rparr>"

definition move_into :: "bool list \<Rightarrow> nat \<Rightarrow> nat \<Rightarrow> bool list option" where
  "move_into gs i j =
     (if i < length gs \<and> j < length gs \<and> i \<noteq> j \<and> \<not> gs ! i
      then (case rl_guard_move (gs ! j) of (g, rhs) \<Rightarrow> Some (gs[i := g, j := rhs])) else None)"

definition rl_idle :: "nat \<Rightarrow> rl_world \<Rightarrow> bool" where
  "rl_idle t w \<longleftrightarrow> t < length (rl_pcs w) \<and> rl_pcs w ! t = Rl_idle"

fun rl_world_step :: "rl_action \<Rightarrow> rl_world \<Rightarrow> rl_world option" where
  "rl_world_step (Rl_call t op) w =
     (if rl_idle t w then Some (w\<lparr>rl_pcs := (rl_pcs w)[t := rl_entry op]\<rparr>) else None)"
| "rl_world_step (Rl_upgrade t i) w =
     (if rl_idle t w \<and> i < length (rl_readers w)
      then Some (if rl_readers w ! i
                 then w\<lparr>rl_pcs := (rl_pcs w)[t := Up_load], rl_readers := (rl_readers w)[i := False]\<rparr>
                 else rl_give (Got_wguard False) w)
      else None)"
| "rl_world_step (Rl_drop_read t i) w =
     (if rl_idle t w \<and> i < length (rl_readers w)
      then Some (if rl_readers w ! i
                 then w\<lparr>rl_pcs := (rl_pcs w)[t := Drop_read], rl_readers := (rl_readers w)[i := False]\<rparr> else w)
      else None)"
| "rl_world_step (Rl_drop_write t i) w =
     (if rl_idle t w \<and> i < length (rl_writers w)
      then Some (if rl_writers w ! i
                 then w\<lparr>rl_pcs := (rl_pcs w)[t := Drop_write], rl_writers := (rl_writers w)[i := False]\<rparr> else w)
      else None)"
| "rl_world_step (Rl_move_read i j) w = map_option (\<lambda>gs. w\<lparr>rl_readers := gs\<rparr>) (move_into (rl_readers w) i j)"
| "rl_world_step (Rl_move_write i j) w = map_option (\<lambda>gs. w\<lparr>rl_writers := gs\<rparr>) (move_into (rl_writers w) i j)"
| "rl_world_step (Rl_task t spurious) w =
     (if t < length (rl_pcs w)
      then (case rl_step spurious t (rl_pcs w ! t) (rl_lock w) of
              None \<Rightarrow> None
            | Some (pc, r, l) \<Rightarrow> Some (rl_give r (w\<lparr>rl_lock := l, rl_pcs := (rl_pcs w)[t := pc]\<rparr>)))
      else None)"

definition rl_init :: "nat \<Rightarrow> rl_world" where
  "rl_init n = \<lparr>rl_lock = rwlock_new, rl_pcs = replicate n Rl_idle, rl_readers = [], rl_writers = []\<rparr>"

lemmas rl_defs = rl_step_def rl_read_step_def rl_try_read_step_def rl_write_step_def rl_try_write_step_def
  rl_upgrade_step_def rl_read_dtor_step_def rl_write_dtor_step_def notify_read_def notify_write_def
  on_read_cv_def on_write_cv_def word_cas_def Let_def

text \<open>
  The lock can be lost for good. A writer loads the lock word while a reader holds it; the
  reader leaves and notifies (nobody yet); then the writer evaluates its predicate on the old
  value and goes to sleep. Now no guard is live and no task runs, but the waiting bit stays set:
  the next reader goes to sleep too, and \<open>try_read\<close> and \<open>try_write\<close> are refused.
\<close>

theorem rwlock_lost_wakeup:
  "\<exists>as w. run rl_world_step as (rl_init 3) = Some w \<and>
     rl_state (rl_lock w) = rl_write_willing_mask \<and> rl_readers w = [False, False] \<and> rl_writers w = [False] \<and>
     (\<exists>e. rl_pcs w = [Rl_idle, Wr_wait e (Wait_yield True), Rd_wait 0 (Wait_yield True)]) \<and>
     sleeping (write_cv (rl_lock w)) 1 \<and> sleeping (read_cv (rl_lock w)) 2"
proof -
  let ?as = "[Rl_call 0 Rl_read, Rl_task 0 False, Rl_task 0 False, Rl_task 0 False,
    Rl_call 1 Rl_write, Rl_task 1 False, Rl_task 1 False, Rl_task 1 False,
    Rl_drop_read 0 0, Rl_task 0 False, Rl_task 0 False, Rl_task 0 False, Rl_task 0 False, Rl_task 0 False,
    Rl_task 0 False, Rl_task 0 False,
    Rl_task 1 False, Rl_task 1 False, Rl_task 1 False,
    Rl_call 2 Rl_read, Rl_task 2 False, Rl_task 2 False, Rl_task 2 False, Rl_task 2 False,
    Rl_call 0 Rl_try_read, Rl_task 0 False, Rl_call 0 Rl_try_write, Rl_task 0 False]"
  have "\<exists>w. run rl_world_step ?as (rl_init 3) = Some w \<and>
     rl_state (rl_lock w) = rl_write_willing_mask \<and> rl_readers w = [False, False] \<and> rl_writers w = [False] \<and>
     (\<exists>e. rl_pcs w = [Rl_idle, Wr_wait e (Wait_yield True), Rd_wait 0 (Wait_yield True)]) \<and>
     sleeping (write_cv (rl_lock w)) 1 \<and> sleeping (read_cv (rl_lock w)) 2"
    by (simp add: rl_init_def rwlock_new_def cv_new_def rl_defs cv_defs rl_masks rl_idle_def numeral_3_eq_3)
  then show ?thesis by blast
qed

section \<open>Exclusion\<close>

text \<open>\<open>rl_view x R u b w\<close>: the word stands for \<open>R\<close> readers and the three bits.\<close>

definition rl_view :: "u64 \<Rightarrow> nat \<Rightarrow> bool \<Rightarrow> bool \<Rightarrow> bool \<Rightarrow> bool" where
  "rl_view x R u b w \<longleftrightarrow>
     R < 2 ^ 61 \<and> unat x = R + 2 ^ 61 * of_bool u + 2 ^ 62 * of_bool b + 2 ^ 63 * of_bool w"

lemma rl_view_div:
  assumes "rl_view x R u b w"
  shows "unat x div 2 ^ 61 = of_bool u + 2 * of_bool b + 4 * of_bool w"
proof -
  have "unat x = R + 2 ^ 61 * (of_bool u + 2 * of_bool b + 4 * of_bool w)"
    using assms by (simp add: rl_view_def)
  with assms show ?thesis by (simp add: rl_view_def)
qed

lemma rl_view_bits:
  assumes "rl_view x R u b w"
  shows "bit x 61 = u" "bit x 62 = b"
proof -
  note d = rl_view_div [OF assms]
  have "bit x 61 \<longleftrightarrow> odd (unat x div 2 ^ 61)" by (rule bit_iff_odd_unat) simp
  with d show "bit x 61 = u" by (cases u; cases b; cases w) simp_all
  have "unat x div 2 ^ 62 = unat x div 2 ^ 61 div 2" by (simp add: div_mult2_eq [symmetric])
  moreover have "bit x 62 \<longleftrightarrow> odd (unat x div 2 ^ 62)" by (rule bit_iff_odd_unat) simp
  ultimately show "bit x 62 = b" using d by (cases u; cases b; cases w) simp_all
qed

lemma rl_masks_pow:
  "rl_write_willing_mask = 2 ^ 62" "rl_update_willing_mask = 2 ^ 61" "rl_write_mask = 2 ^ 63"
  by (simp_all add: rl_masks)

lemma rl_view_willing: "rl_view x R u b w \<Longrightarrow> rl_view (x OR rl_write_willing_mask) R u True w"
  using unat_or_bit [of 62 x] rl_view_bits [of x R u b w] unfolding rl_masks_pow
  by (cases b) (simp_all add: rl_view_def)

lemma rl_view_update: "rl_view x R u b w \<Longrightarrow> rl_view (x OR rl_update_willing_mask) R True b w"
  using unat_or_bit [of 61 x] rl_view_bits [of x R u b w] unfolding rl_masks_pow
  by (cases u) (simp_all add: rl_view_def)

lemma rl_view_unwilling:
  assumes "rl_view x R u b w" "x AND (rl_update_willing_mask OR rl_write_willing_mask) = 0"
  shows "\<not> u \<and> \<not> b"
proof -
  have "\<not> bit (x AND (rl_update_willing_mask OR rl_write_willing_mask)) 61"
    "\<not> bit (x AND (rl_update_willing_mask OR rl_write_willing_mask)) 62"
    using assms(2) by simp_all
  then have "\<not> bit x 61" "\<not> bit x 62"
    unfolding rl_masks_pow by (simp_all add: bit_and_iff bit_or_iff bit_exp_iff)
  with rl_view_bits [OF assms(1)] show ?thesis by simp
qed

lemma rl_view_small: "rl_view x R u b w \<Longrightarrow> unat x < 2 ^ 62 \<Longrightarrow> \<not> b \<and> \<not> w"
  by (cases b; cases w) (simp_all add: rl_view_def)

lemma rl_unmasked_small: "unat (x AND NOT (rl_write_mask OR rl_write_willing_mask)) < 2 ^ 62"
proof -
  have "x AND NOT (rl_write_mask OR rl_write_willing_mask) = take_bit 62 x"
    using clear_top_two [OF refl, of x] by (simp add: rl_masks_pow)
  then show ?thesis
    by (simp add: unsigned_take_bit_eq take_bit_nat_less_exp [of 62, simplified])
qed

lemma rl_view_inc: "rl_view x R u b w \<Longrightarrow> R < 2 ^ 61 - 1 \<Longrightarrow> rl_view (x + 1) (R + 1) u b w"
  using unat_add_one [of x]
  by (cases u; cases b; cases w) (simp_all add: rl_view_def)

lemma rl_view_dec: "rl_view x R u b w \<Longrightarrow> 0 < R \<Longrightarrow> rl_view (x - 1) (R - 1) u b w"
  using unat_sub_one [of x] by (auto simp: rl_view_def)

lemma rl_view_zero: "rl_view 0 R u b w \<Longrightarrow> R = 0 \<and> \<not> u \<and> \<not> b \<and> \<not> w"
  by (cases u; cases b; cases w) (simp_all add: rl_view_def)

lemma rl_view_consts:
  "rl_view 0 0 False False False" "rl_view rl_write_mask 0 False False True"
  "rl_view (rl_write_mask OR rl_write_willing_mask) 0 False True True"
  "rl_view (rl_write_willing_mask OR rl_write_mask) 0 False True True"
  by (simp_all add: rl_view_def rl_masks)

lemma rl_view_just_willing:
  "rl_view rl_write_willing_mask R u b w \<Longrightarrow> R = 0 \<and> \<not> u \<and> b \<and> \<not> w"
  by (cases u; cases b; cases w) (auto simp: rl_view_def rl_masks)

lemma rl_view_upgrading:
  "rl_view (rl_write_willing_mask OR (rl_update_willing_mask + 1)) R u b w \<Longrightarrow> R = 1 \<and> u \<and> b \<and> \<not> w"
  by (cases u; cases b; cases w) (auto simp: rl_view_def rl_masks)

text \<open>What a program counter holds: a share of the readers, the writer, the upgrade bit.\<close>

fun holds_read :: "rl_pc \<Rightarrow> nat" where
  "holds_read Up_load = 1"
| "holds_read (Up_cas e) = 1"
| "holds_read (Up_wait c) = 1"
| "holds_read Drop_read = 1"
| "holds_read pc = 0"

fun holds_write :: "rl_pc \<Rightarrow> nat" where
  "holds_write Drop_write = 1"
| "holds_write pc = 0"

fun upgrading :: "rl_pc \<Rightarrow> nat" where
  "upgrading (Up_wait c) = 1"
| "upgrading pc = 0"

definition waiting_pc :: "bool \<Rightarrow> cv_pc \<Rightarrow> bool" where
  "waiting_pc b c \<longleftrightarrow> c = Wait_enter b \<or> c = Wait_pred b \<or> c = Wait_push b \<or> c = Wait_yield b"

fun rl_pc_ok :: "rl_pc \<Rightarrow> bool" where
  "rl_pc_ok (Rd_wait e c) = (unat e < 2 ^ 62 \<and> waiting_pc True c)"
| "rl_pc_ok (Trd_cas e) = (unat e < 2 ^ 62)"
| "rl_pc_ok (Wr_wait e c) = waiting_pc True c"
| "rl_pc_ok (Wr_lock e) = (e = rl_write_willing_mask)"
| "rl_pc_ok (Twr_cas e) = (e = 0)"
| "rl_pc_ok (Up_cas e) = (e AND (rl_update_willing_mask OR rl_write_willing_mask) = 0)"
| "rl_pc_ok (Up_wait c) = waiting_pc False c"
| "rl_pc_ok pc = True"

definition got_read :: "rl_result \<Rightarrow> nat" where "got_read r = of_bool (r = Got_rguard True)"
definition got_write :: "rl_result \<Rightarrow> nat" where "got_write r = of_bool (r = Got_wguard True)"

text \<open>The five numbers of a state fit together.\<close>

definition rl_fits :: "nat \<Rightarrow> bool \<Rightarrow> bool \<Rightarrow> bool \<Rightarrow> bool" where
  "rl_fits R u b w \<longleftrightarrow> (u \<longrightarrow> b) \<and> (w \<longrightarrow> R = 0 \<and> \<not> u)"

text \<open>A wait on a condition variable changes the word only in its predicate.\<close>

lemma cv_wait_effect:
  assumes "cv_step p t c s = Some (c', r, s')" "waiting_pc b c"
  shows "(r = Cv_running \<longrightarrow> waiting_pc b c') \<and>
    (c \<noteq> Wait_pred b \<longrightarrow> cv_val s' = cv_val s \<and> (r = Cv_running \<or> r = Once_returned True \<and> b)) \<and>
    (c = Wait_pred b \<longrightarrow> cv_val s' = snd (p (cv_val s)) \<and>
       r = (if fst (p (cv_val s)) then (if b then Once_returned False else Wait_returned) else Cv_running))"
  using assms by (auto simp: waiting_pc_def cv_defs split: if_splits prod.splits)

text \<open>A notification without a predicate leaves the word alone.\<close>

lemma cv_notify_val:
  assumes "cv_step (\<lambda>x. (True, x)) t c s = Some (c', r, s')"
  shows "cv_val s' = cv_val s"
  using assms by (cases c) (auto simp: cv_defs split: if_splits)

definition rl_effect :: "nat \<Rightarrow> bool \<Rightarrow> bool \<Rightarrow> rl_pc \<Rightarrow> rl_result \<Rightarrow> rl_pc \<Rightarrow> u64 \<Rightarrow> nat \<Rightarrow> bool \<Rightarrow> bool \<Rightarrow> bool \<Rightarrow> bool" where
  "rl_effect R u w pc r pc' x R' u' b' w' \<longleftrightarrow>
     rl_pc_ok pc' \<and> rl_view x R' u' b' w' \<and> rl_fits R' u' b' w' \<and>
     R' + holds_read pc = R + holds_read pc' + got_read r \<and>
     of_bool w' + holds_write pc = of_bool w + holds_write pc' + got_write r \<and>
     of_bool u' + upgrading pc = of_bool u + upgrading pc' \<and> R' \<le> R + 1"

text \<open>A step that leaves word and holdings alone.\<close>

lemma rl_effect_same:
  assumes "rl_view x R u b w" "rl_fits R u b w" "rl_pc_ok pc'"
    and "holds_read pc' = holds_read pc" "holds_write pc' = holds_write pc" "upgrading pc' = upgrading pc"
    and "got_read r = 0" "got_write r = 0"
  shows "\<exists>R' u' b' w'. rl_effect R u w pc r pc' x R' u' b' w'"
  using assms by (intro exI [of _ R] exI [of _ u] exI [of _ b] exI [of _ w]) (simp add: rl_effect_def)

lemma got_running [simp]:
  "got_read Rl_running = 0" "got_write Rl_running = 0" "got_read (Got_rguard c) = of_bool c"
  "got_write (Got_rguard c) = 0" "got_read (Got_wguard c) = 0" "got_write (Got_wguard c) = of_bool c"
  by (simp_all add: got_read_def got_write_def)

lemma rl_reader_enters:
  assumes "rl_view e R u b w" "rl_fits R u b w" "R < 2 ^ 61 - 1" "unat e < 2 ^ 62"
    and "holds_read pc = 0" "holds_write pc = 0" "upgrading pc = 0"
  shows "rl_effect R u w pc (Got_rguard True) Rl_idle (e + 1) (R + 1) False False False"
proof -
  have "\<not> b" "\<not> w" using rl_view_small [OF assms(1,4)] by simp_all
  with assms(1,2) rl_view_inc [OF assms(1,3)] assms(5-7) show ?thesis
    by (auto simp: rl_effect_def rl_fits_def)
qed

lemma rl_step_effect:
  assumes step: "rl_step sp t pc l = Some (pc', r, l')" and ok: "rl_pc_ok pc"
    and view: "rl_view (rl_state l) R u b w" and fits: "rl_fits R u b w" and small: "R < 2 ^ 61 - 1"
    and has: "holds_read pc \<le> R" "holds_write pc \<le> of_bool w" "upgrading pc \<le> of_bool u"
  shows "\<exists>R' u' b' w'. rl_effect R u w pc r pc' (rl_state l') R' u' b' w'"
proof -
  note same = rl_effect_same [OF view fits]
  show ?thesis
  proof (cases pc)
    case Rl_idle
    with step show ?thesis by (simp add: rl_step_def)
  next
    case Rd_load
    with step rl_unmasked_small [of "rl_state l"] same [of pc' pc r] show ?thesis
      by (auto simp: rl_step_def rl_read_step_def waiting_pc_def Let_def)
  next
    case (Rd_wait e c)
    with step obtain c' cr s where cv: "cv_step (word_cas sp e (e + 1)) t c ((read_cv l)\<lparr>cv_val := rl_state l\<rparr>) = Some (c', cr, s)"
      and l': "rl_state l' = cv_val s"
      and out: "(case cr of Cv_running \<Rightarrow> pc' = Rd_wait e c' \<and> r = Rl_running
         | Once_returned b \<Rightarrow> (if b then pc' = Rd_load \<and> r = Rl_running else pc' = Rl_idle \<and> r = Got_rguard True)
         | _ \<Rightarrow> False)"
      by (auto simp: rl_step_def rl_read_step_def on_read_cv_def split: option.splits cv_result.splits if_splits)
    from ok Rd_wait have e: "unat e < 2 ^ 62" "waiting_pc True c" by simp_all
    note eff = cv_wait_effect [OF cv e(2)]
    show ?thesis
    proof (cases "c = Wait_pred True \<and> rl_state l = e \<and> \<not> sp")
      case True
      with eff l' have "rl_state l' = e + 1" "cr = Once_returned False" by (auto simp: word_cas_def)
      with out rl_reader_enters [OF view [unfolded conjunct1 [OF conjunct2 [OF True]]] fits small e(1), of pc] Rd_wait
      show ?thesis by auto
    next
      case False
      with eff l' out e have "rl_state l' = rl_state l" "cr = Cv_running \<or> cr = Once_returned True"
        "cr = Cv_running \<Longrightarrow> waiting_pc True c'"
        by (auto simp: word_cas_def split: if_splits)
      with out e Rd_wait same [of pc' pc r] show ?thesis by auto
    qed
  next
    case Trd_load
    with step rl_unmasked_small [of "rl_state l"] same [of pc' pc r] show ?thesis
      by (auto simp: rl_step_def rl_try_read_step_def Let_def split: if_splits)
  next
    case (Trd_cas e)
    show ?thesis
    proof (cases "rl_state l = e \<and> \<not> sp")
      case True
      with step Trd_cas have "pc' = Rl_idle" "r = Got_rguard True" "rl_state l' = e + 1"
        by (auto simp: rl_step_def rl_try_read_step_def word_cas_def Let_def)
      with Trd_cas ok rl_reader_enters [OF view [unfolded conjunct1 [OF True]] fits small, of pc] show ?thesis by auto
    next
      case False
      with step Trd_cas same [of pc' pc r] show ?thesis
        by (auto simp: rl_step_def rl_try_read_step_def word_cas_def Let_def)
    qed
  next
    case Wr_load
    with step same [of pc' pc r] show ?thesis by (auto simp: rl_step_def rl_write_step_def)
  next
    case (Wr_cas e)
    show ?thesis
    proof (cases "rl_state l = e \<and> \<not> sp")
      case True
      with step Wr_cas have "pc' = Wr_check" "r = Rl_running" "rl_state l' = rl_state l OR rl_write_willing_mask"
        by (auto simp: rl_step_def rl_write_step_def word_cas_def Let_def)
      with Wr_cas rl_view_willing [OF view] fits show ?thesis
        by (intro exI [of _ R] exI [of _ u] exI [of _ True] exI [of _ w]) (auto simp: rl_effect_def rl_fits_def)
    next
      case False
      with step Wr_cas same [of pc' pc r] show ?thesis
        by (auto simp: rl_step_def rl_write_step_def word_cas_def Let_def)
    qed
  next
    case Wr_check
    with step same [of pc' pc r] show ?thesis
      by (auto simp: rl_step_def rl_write_step_def Let_def waiting_pc_def split: if_splits)
  next
    case (Wr_wait e c)
    with step obtain c' cr s where cv: "cv_step (\<lambda>x. (e = rl_write_willing_mask, x)) t c ((write_cv l)\<lparr>cv_val := rl_state l\<rparr>) = Some (c', cr, s)"
      and l': "rl_state l' = cv_val s"
      and out: "(case cr of Cv_running \<Rightarrow> pc' = Wr_wait e c' \<and> r = Rl_running
         | Once_returned b \<Rightarrow> pc' = (if b then Wr_check else Wr_lock e) \<and> r = Rl_running
         | _ \<Rightarrow> False)"
      by (auto simp: rl_step_def rl_write_step_def on_write_cv_def split: option.splits cv_result.splits if_splits)
    from ok Wr_wait have c: "waiting_pc True c" by simp
    note eff = cv_wait_effect [OF cv c]
    have "rl_state l' = rl_state l" using eff l' by (cases "c = Wait_pred True") auto
    moreover have "r = Rl_running \<and> (pc' = Wr_wait e c' \<and> waiting_pc True c' \<or> pc' = Wr_check \<or>
        pc' = Wr_lock e \<and> e = rl_write_willing_mask)"
      using eff out by (cases "c = Wait_pred True") (auto split: if_splits cv_result.splits)
    ultimately show ?thesis using Wr_wait same [of pc' pc r] by auto
  next
    case (Wr_lock e)
    show ?thesis
    proof (cases "rl_state l = e")
      case True
      with Wr_lock ok view have "R = 0 \<and> \<not> u \<and> b \<and> \<not> w" using rl_view_just_willing by auto
      moreover have "pc' = Rl_idle" "r = Got_wguard True" "rl_state l' = rl_write_willing_mask OR rl_write_mask"
        using step Wr_lock ok True by (auto simp: rl_step_def rl_write_step_def word_cas_def Let_def)
      ultimately show ?thesis using Wr_lock rl_view_consts(4)
        by (intro exI [of _ 0] exI [of _ False] exI [of _ True] exI [of _ True]) (simp add: rl_effect_def rl_fits_def)
    next
      case False
      with step Wr_lock same [of pc' pc r] show ?thesis
        by (auto simp: rl_step_def rl_write_step_def word_cas_def Let_def)
    qed
  next
    case Twr_load
    with step same [of pc' pc r] show ?thesis
      by (auto simp: rl_step_def rl_try_write_step_def Let_def split: if_splits)
  next
    case (Twr_cas e)
    show ?thesis
    proof (cases "rl_state l = 0")
      case True
      with view have "R = 0 \<and> \<not> u \<and> \<not> b \<and> \<not> w" using rl_view_zero by auto
      moreover have "pc' = Rl_idle" "r = Got_wguard True" "rl_state l' = rl_write_mask"
        using step Twr_cas ok True by (auto simp: rl_step_def rl_try_write_step_def word_cas_def Let_def)
      ultimately show ?thesis using Twr_cas rl_view_consts(2)
        by (intro exI [of _ 0] exI [of _ False] exI [of _ False] exI [of _ True]) (simp add: rl_effect_def rl_fits_def)
    next
      case False
      with step Twr_cas ok same [of pc' pc r] show ?thesis
        by (auto simp: rl_step_def rl_try_write_step_def word_cas_def Let_def)
    qed
  next
    case Up_load
    with step same [of pc' pc r] show ?thesis
      by (auto simp: rl_step_def rl_upgrade_step_def Let_def split: if_splits)
  next
    case (Up_cas e)
    show ?thesis
    proof (cases "rl_state l = e \<and> \<not> sp")
      case True
      with Up_cas ok have "\<not> u \<and> \<not> b" using rl_view_unwilling [OF view] by simp
      moreover have "w = False" using fits has(1) Up_cas by (auto simp: rl_fits_def)
      moreover have "pc' = Up_wait (Wait_enter False)" "r = Rl_running"
        "rl_state l' = rl_state l OR rl_write_willing_mask OR rl_update_willing_mask"
        using step Up_cas True by (auto simp: rl_step_def rl_upgrade_step_def word_cas_def)
      ultimately show ?thesis using Up_cas rl_view_update [OF rl_view_willing [OF view]]
        by (intro exI [of _ R] exI [of _ True] exI [of _ True] exI [of _ False])
          (simp add: rl_effect_def rl_fits_def waiting_pc_def or.assoc)
    next
      case False
      with step Up_cas same [of pc' pc r] show ?thesis
        by (auto simp: rl_step_def rl_upgrade_step_def word_cas_def split: if_splits)
    qed
  next
    case (Up_wait c)
    let ?e = "rl_write_willing_mask OR (rl_update_willing_mask + 1)"
    let ?n = "rl_write_mask OR rl_write_willing_mask"
    from step Up_wait obtain c' cr s where cv: "cv_step (word_cas False ?e ?n) t c ((write_cv l)\<lparr>cv_val := rl_state l\<rparr>) = Some (c', cr, s)"
      and l': "rl_state l' = cv_val s"
      and out: "(case cr of Cv_running \<Rightarrow> pc' = Up_wait c' \<and> r = Rl_running
         | Wait_returned \<Rightarrow> pc' = Rl_idle \<and> r = Got_wguard True | _ \<Rightarrow> False)"
      by (auto simp: rl_step_def rl_upgrade_step_def on_write_cv_def split: option.splits cv_result.splits)
    from ok Up_wait have c: "waiting_pc False c" by simp
    note eff = cv_wait_effect [OF cv c]
    show ?thesis
    proof (cases "c = Wait_pred False \<and> rl_state l = ?e")
      case True
      with view have "R = 1 \<and> u \<and> b \<and> \<not> w" using rl_view_upgrading by auto
      moreover have "rl_state l' = ?n" "cr = Wait_returned" using eff l' True by (auto simp: word_cas_def)
      ultimately show ?thesis using Up_wait out rl_view_consts(3)
        by (intro exI [of _ 0] exI [of _ False] exI [of _ True] exI [of _ True]) (simp add: rl_effect_def rl_fits_def)
    next
      case False
      with eff l' have "rl_state l' = rl_state l" "cr = Cv_running" "waiting_pc False c'"
        by (auto simp: word_cas_def split: if_splits)
      with out Up_wait same [of pc' pc r] show ?thesis by auto
    qed
  next
    case Drop_read
    with has have "0 < R" by simp
    from Drop_read step have "pc' = Drop_read_r (Notify_enter False notify_max)" "r = Rl_running"
      "rl_state l' = rl_state l - 1"
      by (auto simp: rl_step_def rl_read_dtor_step_def)
    with Drop_read rl_view_dec [OF view \<open>0 < R\<close>] fits \<open>0 < R\<close> show ?thesis
      by (intro exI [of _ "R - 1"] exI [of _ u] exI [of _ b] exI [of _ w]) (auto simp: rl_effect_def rl_fits_def)
  next
    case Drop_write
    with has have "w" by (cases w) auto
    from Drop_write step have "pc' = Drop_write_w (Notify_enter False notify_max)" "r = Rl_running" "rl_state l' = 0"
      by (auto simp: rl_step_def rl_write_dtor_step_def)
    with Drop_write rl_view_consts(1) \<open>w\<close> fits show ?thesis
      by (intro exI [of _ 0] exI [of _ False] exI [of _ False] exI [of _ False]) (simp add: rl_effect_def rl_fits_def)
  next
    case (Drop_read_r c)
    with step same [of pc' pc r] show ?thesis
      by (auto simp: rl_step_def rl_read_dtor_step_def notify_read_def on_read_cv_def split: option.splits
          dest!: cv_notify_val)
  next
    case (Drop_read_w c)
    with step same [of pc' pc r] show ?thesis
      by (auto simp: rl_step_def rl_read_dtor_step_def notify_write_def on_write_cv_def split: option.splits
          dest!: cv_notify_val)
  next
    case (Drop_write_w c)
    with step same [of pc' pc r] show ?thesis
      by (auto simp: rl_step_def rl_write_dtor_step_def notify_write_def on_write_cv_def split: option.splits
          dest!: cv_notify_val)
  next
    case (Drop_write_r c)
    with step same [of pc' pc r] show ?thesis
      by (auto simp: rl_step_def rl_write_dtor_step_def notify_read_def on_read_cv_def split: option.splits
          dest!: cv_notify_val)
  qed
qed

section \<open>The invariant\<close>

abbreviation share :: "(rl_pc \<Rightarrow> nat) \<Rightarrow> rl_world \<Rightarrow> nat" where
  "share f w \<equiv> sum_list (map f (rl_pcs w))"

abbreviation held :: "bool list \<Rightarrow> nat" where
  "held gs \<equiv> count_if (\<lambda>g. g) gs"

definition rl_inv :: "nat \<Rightarrow> rl_world \<Rightarrow> bool" where
  "rl_inv n w \<longleftrightarrow>
     (\<forall>pc\<in>set (rl_pcs w). rl_pc_ok pc) \<and>
     (\<exists>R u b wr. rl_view (rl_state (rl_lock w)) R u b wr \<and> rl_fits R u b wr \<and> R \<le> n \<and>
        R = held (rl_readers w) + share holds_read w \<and>
        of_bool wr = held (rl_writers w) + share holds_write w \<and>
        of_bool u = share upgrading w)"

lemma share_ge: "t < length (rl_pcs w) \<Longrightarrow> f (rl_pcs w ! t) \<le> share f w"
  by (intro member_le_sum_list) simp_all

lemma held_drop: "i < length gs \<Longrightarrow> gs ! i \<Longrightarrow> held (gs[i := False]) + 1 = held gs"
  using count_if_update [of i gs "\<lambda>g. g" False] count_if_pos [of i gs "\<lambda>g. g"] by simp

lemma held_move: "move_into gs i j = Some gs' \<Longrightarrow> held gs' = held gs"
proof -
  assume "move_into gs i j = Some gs'"
  then have ij: "i < length gs" "j < length gs" "i \<noteq> j" "\<not> gs ! i" "gs' = gs[i := gs ! j, j := False]"
    by (auto simp: move_into_def rl_guard_move_def split: if_splits)
  have "int (held gs') = int (held (gs[i := gs ! j])) - of_bool (gs ! j)"
    using count_if_update [of j "gs[i := gs ! j]" "\<lambda>g. g" False] ij by simp
  also have "\<dots> = int (held gs)"
    using count_if_update [of i gs "\<lambda>g. g" "gs ! j"] ij by simp
  finally show ?thesis by simp
qed

lemma rl_inv_task:
  assumes inv: "rl_inv n w" and n: "n < 2 ^ 61 - 1" and t: "t < length (rl_pcs w)"
    and step: "rl_step sp t (rl_pcs w ! t) (rl_lock w) = Some (pc, r, l)"
  shows "rl_inv (Suc n) (rl_give r (w\<lparr>rl_lock := l, rl_pcs := (rl_pcs w)[t := pc]\<rparr>))"
proof -
  let ?w = "w\<lparr>rl_lock := l, rl_pcs := (rl_pcs w)[t := pc]\<rparr>"
  let ?pc = "rl_pcs w ! t"
  from inv obtain R u b wr where v: "rl_view (rl_state (rl_lock w)) R u b wr" "rl_fits R u b wr" "R \<le> n"
    "R = held (rl_readers w) + share holds_read w" "of_bool wr = held (rl_writers w) + share holds_write w"
    "of_bool u = share upgrading w" and ok: "\<forall>pc\<in>set (rl_pcs w). rl_pc_ok pc"
    unfolding rl_inv_def by blast
  have has: "holds_read ?pc \<le> R" "holds_write ?pc \<le> of_bool wr" "upgrading ?pc \<le> of_bool u"
    using share_ge [OF t, of holds_read] share_ge [OF t, of holds_write] share_ge [OF t, of upgrading] v(4-6)
    by linarith+
  have "rl_pc_ok ?pc" "R < 2 ^ 61 - 1" using ok t v(3) n by auto
  from rl_step_effect [OF step this(1) v(1,2) this(2) has] obtain R' u' b' w' where
    e: "rl_pc_ok pc" "rl_view (rl_state l) R' u' b' w'" "rl_fits R' u' b' w'"
      "R' + holds_read ?pc = R + holds_read pc + got_read r"
      "of_bool w' + holds_write ?pc = of_bool wr + holds_write pc + got_write r"
      "of_bool u' + upgrading ?pc = of_bool u + upgrading pc" "R' \<le> R + 1"
    unfolding rl_effect_def by blast
  have g: "held (rl_readers (rl_give r ?w)) = held (rl_readers w) + got_read r"
    "held (rl_writers (rl_give r ?w)) = held (rl_writers w) + got_write r"
    "rl_pcs (rl_give r ?w) = (rl_pcs w)[t := pc]" "rl_lock (rl_give r ?w) = l"
    by (cases r; simp)+
  have sh: "sum_list (map f ((rl_pcs w)[t := pc])) + f ?pc = share f w + f pc" for f
    using sum_update [OF t, of f pc] by simp
  have "R' = held (rl_readers w) + got_read r + sum_list (map holds_read ((rl_pcs w)[t := pc]))"
    using e(4) v(4) sh [of holds_read] by linarith
  moreover have "of_bool w' = held (rl_writers w) + got_write r + sum_list (map holds_write ((rl_pcs w)[t := pc]))"
    using e(5) v(5) sh [of holds_write] by linarith
  moreover have "of_bool u' = sum_list (map upgrading ((rl_pcs w)[t := pc]))"
    using e(6) v(6) sh [of upgrading] by linarith
  moreover have "\<forall>pc'\<in>set ((rl_pcs w)[t := pc]). rl_pc_ok pc'"
    using ok e(1) by (auto dest!: set_update_subset_insert [THEN subsetD])
  ultimately show ?thesis
    unfolding rl_inv_def g using e(2,3,7) v(3)
    by (intro conjI exI [of _ R'] exI [of _ u'] exI [of _ b'] exI [of _ w']) auto
qed

text \<open>Actions that leave the word alone and hand a guard to a call or back.\<close>

lemma rl_inv_shuffle:
  assumes inv: "rl_inv n w" and "rl_lock w' = rl_lock w" "\<forall>pc\<in>set (rl_pcs w'). rl_pc_ok pc"
    and "held (rl_readers w') + share holds_read w' = held (rl_readers w) + share holds_read w"
    and "held (rl_writers w') + share holds_write w' = held (rl_writers w) + share holds_write w"
    and "share upgrading w' = share upgrading w"
  shows "rl_inv (Suc n) w'"
proof -
  from inv obtain R u b wr where "rl_view (rl_state (rl_lock w)) R u b wr" "rl_fits R u b wr" "R \<le> n"
    "R = held (rl_readers w) + share holds_read w" "of_bool wr = held (rl_writers w) + share holds_write w"
    "of_bool u = share upgrading w"
    unfolding rl_inv_def by blast
  with assms(2-) show ?thesis
    unfolding rl_inv_def by (intro conjI exI [of _ R] exI [of _ u] exI [of _ b] exI [of _ wr]) simp_all
qed

lemma rl_world_inv [asco_inv]:
  assumes inv: "rl_inv n w" and n: "n < 2 ^ 61 - 1" and step: "rl_world_step a w = Some w'"
  shows "rl_inv (Suc n) w'"
proof -
  have ok: "\<forall>pc'\<in>set ((rl_pcs w)[t := pc]). rl_pc_ok pc'" if "rl_pc_ok pc" for t pc
    using that inv by (auto simp: rl_inv_def dest!: set_update_subset_insert [THEN subsetD])
  have ok0: "\<forall>pc'\<in>set (rl_pcs w). rl_pc_ok pc'" using inv by (simp add: rl_inv_def)
  have sh: "sum_list (map f ((rl_pcs w)[t := pc])) + f Rl_idle = share f w + f pc" if "rl_idle t w" for f t pc
    using that sum_update [of t "rl_pcs w" f pc] by (simp add: rl_idle_def)
  show ?thesis
  proof (cases a)
    case (Rl_call t op)
    with step have c: "rl_idle t w" "w' = w\<lparr>rl_pcs := (rl_pcs w)[t := rl_entry op]\<rparr>"
      by (auto split: if_splits)
    have e: "rl_pc_ok (rl_entry op)" "holds_read (rl_entry op) = 0" "holds_write (rl_entry op) = 0"
      "upgrading (rl_entry op) = 0"
      by (cases op; simp)+
    show ?thesis
      using sh [OF c(1), of holds_read "rl_entry op"] sh [OF c(1), of holds_write "rl_entry op"]
        sh [OF c(1), of upgrading "rl_entry op"] ok [OF e(1)] e c(2)
      by (intro rl_inv_shuffle [OF inv]) simp_all
  next
    case (Rl_upgrade t i)
    show ?thesis
    proof (cases "rl_readers w ! i")
      case True
      with Rl_upgrade step have "rl_idle t w" "i < length (rl_readers w)"
        "w' = w\<lparr>rl_pcs := (rl_pcs w)[t := Up_load], rl_readers := (rl_readers w)[i := False]\<rparr>"
        by (auto split: if_splits)
      with True sh [of t holds_read Up_load] sh [of t holds_write Up_load] sh [of t upgrading Up_load]
        ok [of Up_load] held_drop [of i "rl_readers w"] show ?thesis
        by (intro rl_inv_shuffle [OF inv]) simp_all
    next
      case False
      with Rl_upgrade step have "w' = rl_give (Got_wguard False) w" by (auto split: if_splits)
      with ok0 show ?thesis by (intro rl_inv_shuffle [OF inv]) simp_all
    qed
  next
    case (Rl_drop_read t i)
    show ?thesis
    proof (cases "rl_readers w ! i")
      case True
      with Rl_drop_read step have "rl_idle t w" "i < length (rl_readers w)"
        "w' = w\<lparr>rl_pcs := (rl_pcs w)[t := Drop_read], rl_readers := (rl_readers w)[i := False]\<rparr>"
        by (auto split: if_splits)
      with True sh [of t holds_read Drop_read] sh [of t holds_write Drop_read] sh [of t upgrading Drop_read]
        ok [of Drop_read] held_drop [of i "rl_readers w"] show ?thesis
        by (intro rl_inv_shuffle [OF inv]) simp_all
    next
      case False
      with Rl_drop_read step have "w' = w" by (auto split: if_splits)
      with ok0 show ?thesis by (intro rl_inv_shuffle [OF inv]) simp_all
    qed
  next
    case (Rl_drop_write t i)
    show ?thesis
    proof (cases "rl_writers w ! i")
      case True
      with Rl_drop_write step have "rl_idle t w" "i < length (rl_writers w)"
        "w' = w\<lparr>rl_pcs := (rl_pcs w)[t := Drop_write], rl_writers := (rl_writers w)[i := False]\<rparr>"
        by (auto split: if_splits)
      with True sh [of t holds_read Drop_write] sh [of t holds_write Drop_write] sh [of t upgrading Drop_write]
        ok [of Drop_write] held_drop [of i "rl_writers w"] show ?thesis
        by (intro rl_inv_shuffle [OF inv]) simp_all
    next
      case False
      with Rl_drop_write step have "w' = w" by (auto split: if_splits)
      with ok0 show ?thesis by (intro rl_inv_shuffle [OF inv]) simp_all
    qed
  next
    case (Rl_move_read i j)
    with step held_move ok0 show ?thesis by (intro rl_inv_shuffle [OF inv]) auto
  next
    case (Rl_move_write i j)
    with step held_move ok0 show ?thesis by (intro rl_inv_shuffle [OF inv]) auto
  next
    case (Rl_task t sp)
    with step rl_inv_task [OF inv n] show ?thesis by (auto split: if_splits option.splits)
  qed
qed

interpretation rlw: bounded_invariant_system rl_world_step rl_inv "2 ^ 61 - 1"
  by unfold_locales (rule rl_world_inv)

lemma rl_inv_init: "rl_inv 0 (rl_init n)"
  unfolding rl_inv_def
  by (intro conjI exI [of _ 0] exI [of _ False])
    (simp_all add: rl_init_def rwlock_new_def rl_view_consts rl_fits_def sum_list_replicate)

text \<open>
  C17: The lock excludes: under every interleaving of \<open>read\<close>, \<open>try_read\<close>, \<open>write\<close>, \<open>try_write\<close>,
  \<open>upgrade\<close> and of guards being moved and destroyed, by any number of tasks and of blocking
  writers, at most one write guard holds the lock, and no read guard does at the same time. (The
  bound keeps the reader count below the flag bits.)
\<close>

theorem rwlock_exclusion:
  assumes "run rl_world_step as (rl_init n) = Some w" "length as < 2 ^ 61"
  shows "held (rl_writers w) \<le> 1 \<and> (held (rl_writers w) = 1 \<longrightarrow> held (rl_readers w) = 0)"
proof -
  have "rl_inv (0 + length as) w"
    by (rule rlw.run_inv [OF rl_inv_init _ assms(1)]) (use assms(2) in simp)
  then obtain R u b wr where "rl_fits R u b wr" "R = held (rl_readers w) + share holds_read w"
    "of_bool wr = held (rl_writers w) + share holds_write w"
    unfolding rl_inv_def by blast
  then show ?thesis by (cases wr) (auto simp: rl_fits_def)
qed

theorem rwlock_exclusion_witness:
  "\<exists>w. run rl_world_step [Rl_call 0 Rl_try_read, Rl_task 0 False, Rl_task 0 False, Rl_call 1 Rl_write,
      Rl_task 1 False, Rl_task 1 False, Rl_drop_read 0 0, Rl_task 0 False, Rl_task 1 False, Rl_task 1 False,
      Rl_task 1 False, Rl_task 1 False] (rl_init 2) = Some w \<and> rl_writers w = [True] \<and> held (rl_readers w) = 0"
proof -
  let ?as = "[Rl_call 0 Rl_try_read, Rl_task 0 False, Rl_task 0 False, Rl_call 1 Rl_write,
      Rl_task 1 False, Rl_task 1 False, Rl_drop_read 0 0, Rl_task 0 False, Rl_task 1 False, Rl_task 1 False,
      Rl_task 1 False, Rl_task 1 False]"
  obtain w where w: "run rl_world_step ?as (rl_init 2) = Some w" "rl_writers w = [True]"
    by (simp add: rl_init_def rwlock_new_def cv_new_def rl_defs cv_defs rl_masks rl_idle_def)
  with rwlock_exclusion [OF w(1)] show ?thesis by auto
qed

section \<open>The lock that owns a value\<close>

text \<open>The guards of \<open>rwlock<T>\<close>: the pointer \<open>m_rwlock\<close> and the inner guard; both kinds are alike.\<close>

record rlt_guard =
  rg_lock :: bool
  rg_guard :: bool

definition rlt_null :: rlt_guard where "rlt_null = \<lparr>rg_lock = False, rg_guard = False\<rparr>"

definition rlt_guard_move :: "rlt_guard \<Rightarrow> rlt_guard \<times> rlt_guard" where
  "rlt_guard_move rhs =
     (case rl_guard_move (rg_guard rhs) of (g, r) \<Rightarrow>
        (\<lparr>rg_lock = rg_lock rhs, rg_guard = g\<rparr>, \<lparr>rg_lock = False, rg_guard = r\<rparr>))"

text \<open>\<open>read\<close> and \<open>write\<close> wrap what the inner lock returned; the \<open>try_\<close> forms look at it first.\<close>

definition rlt_wrap :: "bool \<Rightarrow> rlt_guard" where "rlt_wrap inner = \<lparr>rg_lock = True, rg_guard = inner\<rparr>"

definition rlt_try_wrap :: "bool \<Rightarrow> rlt_guard" where
  "rlt_try_wrap inner = (if inner then \<lparr>rg_lock = True, rg_guard = inner\<rparr> else rlt_null)"

text \<open>\<open>upgrade\<close>: \<open>inner\<close> is the write guard that the inner upgrade returned.\<close>

definition rlt_upgrade :: "rlt_guard \<Rightarrow> bool \<Rightarrow> rlt_guard" where
  "rlt_upgrade self inner =
     (if \<not> rg_lock self then rlt_null else \<lparr>rg_lock = rg_lock self, rg_guard = inner\<rparr>)"

definition rlt_bool :: "rlt_guard \<Rightarrow> bool" where "rlt_bool g \<longleftrightarrow> rg_lock g"

definition rlt_deref :: "rlt_guard \<Rightarrow> 'v \<Rightarrow> 'v outcome" where
  "rlt_deref g v = (if \<not> rg_lock g then Inl Null_guard_dereferenced else Inr v)"

text \<open>
  A failed upgrade of a guard of \<open>rwlock<T>\<close> looks like a successful one: when two readers
  upgrade, the second is refused, but the write guard that wraps the refusal is true and can be
  dereferenced, while the first one holds the lock for writing.
\<close>

theorem rwlock_t_failed_upgrade:
  "\<exists>as w. run rl_world_step as (rl_init 2) = Some w \<and> rl_writers w = [False, True] \<and>
     rl_pcs w = [Rl_idle, Rl_idle] \<and> rl_readers w = [False, False] \<and>
     rlt_bool (rlt_upgrade (rlt_wrap True) (rl_writers w ! 0)) \<and>
     rlt_deref (rlt_upgrade (rlt_wrap True) (rl_writers w ! 0)) v = Inr v \<and>
     rlt_deref (rlt_upgrade (rlt_wrap True) (rl_writers w ! 1)) v = Inr v"
proof -
  let ?as = "[Rl_call 0 Rl_try_read, Rl_task 0 False, Rl_task 0 False, Rl_call 1 Rl_try_read, Rl_task 1 False,
    Rl_task 1 False, Rl_upgrade 0 0, Rl_task 0 False, Rl_task 0 False, Rl_task 0 False, Rl_task 0 False, Rl_task 0 False,
    Rl_upgrade 1 1, Rl_task 1 False, Rl_task 1 False, Rl_task 1 False, Rl_task 1 False, Rl_task 1 False,
    Rl_task 1 False, Rl_task 1 False, Rl_task 1 False, Rl_task 1 False,
    Rl_task 0 False, Rl_task 0 False, Rl_task 0 False]"
  have "\<exists>w. run rl_world_step ?as (rl_init 2) = Some w \<and> rl_writers w = [False, True] \<and>
     rl_pcs w = [Rl_idle, Rl_idle] \<and> rl_readers w = [False, False]"
    by (simp add: rl_init_def rwlock_new_def cv_new_def rl_defs cv_defs rl_masks rl_idle_def notify_max_pos)
  then obtain w where "run rl_world_step ?as (rl_init 2) = Some w" "rl_writers w = [False, True]"
    "rl_pcs w = [Rl_idle, Rl_idle]" "rl_readers w = [False, False]" by blast
  then show ?thesis
    by (intro exI [of _ ?as] exI [of _ w])
      (simp add: rlt_bool_def rlt_deref_def rlt_upgrade_def rlt_wrap_def del: run.simps)
qed

end
