(* ===== verification/Channel.thy ===== *)
theory Channel
  imports Semaphore
begin

text \<open>
  \<open>asco/sync/channel.h\<close>: a bounded ring queue, a semaphore that counts its values, one that counts
  its free places, and a closed flag. The semaphores are their counters (\<open>Semaphore\<close>: an
  \<open>acquire\<close> goes on when there is a unit, a release adds one up to the bound), the ring queue is
  the bounded FIFO queue that \<open>Ring_Queue_Spec\<close> shows it to be, and every access to one of the
  four is a step of its own.
\<close>

section \<open>State and operations\<close>

definition channel_capacity :: nat where "channel_capacity = 1024"

record 'a channel =
  ch_closed :: bool
  ch_count :: nat
  ch_backpress :: nat
  ch_queue :: "'a list"

definition channel_new :: "'a channel" where
  "channel_new = \<lparr>ch_closed = False, ch_count = 0, ch_backpress = channel_capacity, ch_queue = []\<rparr>"

text \<open>\<open>release()\<close> of \<open>semaphore<channel_capacity>\<close>.\<close>

definition release_unit :: "nat \<Rightarrow> nat" where
  "release_unit c = c + min 1 (channel_capacity - c)"

text \<open>
  The ends: a sender or receiver is bound to the control block of a channel, or to nothing (when
  default-constructed or moved from). Copies share the block. Calls assert that there is one.
\<close>

type_synonym channel_end = "nat option"

definition end_copy :: "channel_end \<Rightarrow> channel_end" where "end_copy rhs = rhs"

definition end_move :: "channel_end \<Rightarrow> channel_end \<times> channel_end" where "end_move rhs = (rhs, None)"

definition end_call :: "channel_end \<Rightarrow> nat outcome" where
  "end_call e = (case e of None \<Rightarrow> Inl Assertion_failed | Some c \<Rightarrow> Inr c)"

datatype 'a ch_pc =
    Ch_idle
  | Send_closed 'a
  | Send_acquire 'a
  | Send_check 'a
  | Send_give_back 'a
  | Send_push 'a
  | Send_count
  | Recv_count
  | Recv_closed
  | Recv_acquire
  | Recv_recount
  | Recv_reclosed
  | Recv_pop
  | Recv_back "'a option"
  | Stop_closed
  | Stop_count
  | Stop_back

datatype 'a ch_result = Ch_running | Sent | Rejected 'a | Received "'a option" | Stopped

type_synonym 'a ch_move = "('a ch_pc \<times> 'a ch_result \<times> 'a channel) option"

text \<open>\<open>send\<close>: the result of \<open>try_send\<close> is not looked at.\<close>

definition send_step :: "'a ch_pc \<Rightarrow> 'a channel \<Rightarrow> 'a ch_move" where
  "send_step pc c =
     (case pc of
        Send_closed v \<Rightarrow>
          if ch_closed c then Some (Ch_idle, Rejected v, c) else Some (Send_acquire v, Ch_running, c)
      | Send_acquire v \<Rightarrow>
          if 0 < ch_backpress c
          then Some (Send_check v, Ch_running, c\<lparr>ch_backpress := ch_backpress c - 1\<rparr>) else None
      | Send_check v \<Rightarrow>
          if ch_closed c then Some (Send_give_back v, Ch_running, c) else Some (Send_push v, Ch_running, c)
      | Send_give_back v \<Rightarrow>
          Some (Ch_idle, Rejected v, c\<lparr>ch_backpress := release_unit (ch_backpress c)\<rparr>)
      | Send_push v \<Rightarrow>
          Some (Send_count, Ch_running,
                if length (ch_queue c) < channel_capacity then c\<lparr>ch_queue := ch_queue c @ [v]\<rparr> else c)
      | Send_count \<Rightarrow> Some (Ch_idle, Sent, c\<lparr>ch_count := release_unit (ch_count c)\<rparr>)
      | _ \<Rightarrow> None)"

definition ch_recv_step :: "'a ch_pc \<Rightarrow> 'a channel \<Rightarrow> 'a ch_move" where
  "ch_recv_step pc c =
     (case pc of
        Recv_count \<Rightarrow>
          if ch_count c = 0 then Some (Recv_closed, Ch_running, c) else Some (Recv_acquire, Ch_running, c)
      | Recv_closed \<Rightarrow>
          if ch_closed c then Some (Ch_idle, Received None, c) else Some (Recv_acquire, Ch_running, c)
      | Recv_acquire \<Rightarrow>
          if 0 < ch_count c then Some (Recv_recount, Ch_running, c\<lparr>ch_count := ch_count c - 1\<rparr>) else None
      | Recv_recount \<Rightarrow>
          if ch_count c = 0 then Some (Recv_reclosed, Ch_running, c) else Some (Recv_pop, Ch_running, c)
      | Recv_reclosed \<Rightarrow>
          if ch_closed c then Some (Ch_idle, Received None, c) else Some (Recv_pop, Ch_running, c)
      | Recv_pop \<Rightarrow>
          (case ch_queue c of
             [] \<Rightarrow> Some (Recv_back None, Ch_running, c)
           | v # vs \<Rightarrow> Some (Recv_back (Some v), Ch_running, c\<lparr>ch_queue := vs\<rparr>))
      | Recv_back r \<Rightarrow> Some (Ch_idle, Received r, c\<lparr>ch_backpress := release_unit (ch_backpress c)\<rparr>)
      | _ \<Rightarrow> None)"

text \<open>\<open>stop\<close> of either end.\<close>

definition stop_step :: "'a ch_pc \<Rightarrow> 'a channel \<Rightarrow> 'a ch_move" where
  "stop_step pc c =
     (case pc of
        Stop_closed \<Rightarrow> Some (Stop_count, Ch_running, c\<lparr>ch_closed := True\<rparr>)
      | Stop_count \<Rightarrow> Some (Stop_back, Ch_running, c\<lparr>ch_count := release_unit (ch_count c)\<rparr>)
      | Stop_back \<Rightarrow> Some (Ch_idle, Stopped, c\<lparr>ch_backpress := release_unit (ch_backpress c)\<rparr>)
      | _ \<Rightarrow> None)"

definition ch_step :: "'a ch_pc \<Rightarrow> 'a channel \<Rightarrow> 'a ch_move" where
  "ch_step pc c =
     (case send_step pc c of
        Some m \<Rightarrow> Some m
      | None \<Rightarrow> (case ch_recv_step pc c of Some m \<Rightarrow> Some m | None \<Rightarrow> stop_step pc c))"

lemmas ch_defs = ch_step_def send_step_def ch_recv_step_def stop_step_def

section \<open>Tasks sharing a channel\<close>

text \<open>
  \<open>cw_accepted\<close> and \<open>cw_delivered\<close> are the values that went into and came out of the queue, in
  order; \<open>cw_lost\<close> those that the queue refused although \<open>send\<close> reports success.
\<close>

record 'a ch_world =
  cw_chan :: "'a channel"
  cw_pcs :: "'a ch_pc list"
  cw_accepted :: "'a list"
  cw_delivered :: "'a list"
  cw_lost :: "'a list"
  cw_results :: "(nat \<times> 'a ch_result) list"

datatype 'a ch_action = Ch_send nat 'a | Ch_recv nat | Ch_stop nat | Ch_task nat

definition log_queue :: "'a ch_pc \<Rightarrow> 'a channel \<Rightarrow> 'a ch_world \<Rightarrow> 'a ch_world" where
  "log_queue pc c w =
     (case pc of
        Send_push v \<Rightarrow>
          if length (ch_queue c) < channel_capacity then w\<lparr>cw_accepted := cw_accepted w @ [v]\<rparr>
          else w\<lparr>cw_lost := cw_lost w @ [v]\<rparr>
      | Recv_pop \<Rightarrow> (case ch_queue c of [] \<Rightarrow> w | v # vs \<Rightarrow> w\<lparr>cw_delivered := cw_delivered w @ [v]\<rparr>)
      | _ \<Rightarrow> w)"

definition ch_idle :: "nat \<Rightarrow> 'a ch_world \<Rightarrow> bool" where
  "ch_idle t w \<longleftrightarrow> t < length (cw_pcs w) \<and> cw_pcs w ! t = Ch_idle"

fun ch_world_step :: "'a ch_action \<Rightarrow> 'a ch_world \<Rightarrow> 'a ch_world option" where
  "ch_world_step (Ch_send t v) w =
     (if ch_idle t w then Some (w\<lparr>cw_pcs := (cw_pcs w)[t := Send_closed v]\<rparr>) else None)"
| "ch_world_step (Ch_recv t) w =
     (if ch_idle t w then Some (w\<lparr>cw_pcs := (cw_pcs w)[t := Recv_count]\<rparr>) else None)"
| "ch_world_step (Ch_stop t) w =
     (if ch_idle t w then Some (w\<lparr>cw_pcs := (cw_pcs w)[t := Stop_closed]\<rparr>) else None)"
| "ch_world_step (Ch_task t) w =
     (if t < length (cw_pcs w)
      then (case ch_step (cw_pcs w ! t) (cw_chan w) of
              None \<Rightarrow> None
            | Some (pc, r, c) \<Rightarrow>
                Some ((log_queue (cw_pcs w ! t) (cw_chan w) w)
                        \<lparr>cw_chan := c, cw_pcs := (cw_pcs w)[t := pc],
                         cw_results := cw_results w @ (if r = Ch_running then [] else [(t, r)])\<rparr>))
      else None)"

definition ch_init :: "nat \<Rightarrow> 'a ch_world" where
  "ch_init n = \<lparr>cw_chan = channel_new, cw_pcs = replicate n Ch_idle, cw_accepted = [], cw_delivered = [],
     cw_lost = [], cw_results = []\<rparr>"

text \<open>Who holds a free place, a unit of the count, a place that is certain to be used.\<close>

fun holds_place :: "'a ch_pc \<Rightarrow> nat" where
  "holds_place (Send_check v) = 1"
| "holds_place (Send_give_back v) = 1"
| "holds_place (Send_push v) = 1"
| "holds_place (Recv_back r) = 1"
| "holds_place pc = 0"

fun holds_value :: "'a ch_pc \<Rightarrow> nat" where
  "holds_value Send_count = 1"
| "holds_value Recv_recount = 1"
| "holds_value Recv_reclosed = 1"
| "holds_value Recv_pop = 1"
| "holds_value pc = 0"

fun will_push :: "'a ch_pc \<Rightarrow> nat" where
  "will_push (Send_push v) = 1"
| "will_push pc = 0"

fun stopping :: "'a ch_pc \<Rightarrow> bool" where
  "stopping Stop_count = True"
| "stopping Stop_back = True"
| "stopping (Send_give_back v) = True"
| "stopping (Recv_back None) = True"
| "stopping pc = False"

definition ch_inv :: "'a ch_world \<Rightarrow> bool" where
  "ch_inv w \<longleftrightarrow>
     cw_accepted w = cw_delivered w @ ch_queue (cw_chan w) \<and> cw_lost w = [] \<and>
     length (ch_queue (cw_chan w)) + sum_list (map will_push (cw_pcs w)) \<le> channel_capacity \<and>
     (\<not> ch_closed (cw_chan w) \<longrightarrow>
        length (ch_queue (cw_chan w)) + sum_list (map holds_place (cw_pcs w)) + ch_backpress (cw_chan w) = channel_capacity \<and>
        ch_count (cw_chan w) + sum_list (map holds_value (cw_pcs w)) = length (ch_queue (cw_chan w)) \<and>
        (\<forall>pc\<in>set (cw_pcs w). \<not> stopping pc) \<and>
        list_all (\<lambda>(t, r). r \<noteq> Received None \<and> r \<noteq> Stopped \<and> (\<forall>v. r \<noteq> Rejected v)) (cw_results w))"

lemma pushes_le_places: "sum_list (map will_push pcs) \<le> sum_list (map holds_place pcs)"
proof (induction pcs)
  case (Cons pc pcs)
  have "will_push pc \<le> holds_place pc" by (cases pc) simp_all
  with Cons show ?case by simp
qed simp

lemma ch_step_simps:
  "ch_step Ch_idle c = None"
  "ch_step (Send_closed v) c =
     Some (if ch_closed c then (Ch_idle, Rejected v, c) else (Send_acquire v, Ch_running, c))"
  "ch_step (Send_acquire v) c =
     (if 0 < ch_backpress c then Some (Send_check v, Ch_running, c\<lparr>ch_backpress := ch_backpress c - 1\<rparr>) else None)"
  "ch_step (Send_check v) c = Some (if ch_closed c then Send_give_back v else Send_push v, Ch_running, c)"
  "ch_step (Send_give_back v) c = Some (Ch_idle, Rejected v, c\<lparr>ch_backpress := release_unit (ch_backpress c)\<rparr>)"
  "ch_step (Send_push v) c = Some (Send_count, Ch_running,
     if length (ch_queue c) < channel_capacity then c\<lparr>ch_queue := ch_queue c @ [v]\<rparr> else c)"
  "ch_step Send_count c = Some (Ch_idle, Sent, c\<lparr>ch_count := release_unit (ch_count c)\<rparr>)"
  "ch_step Recv_count c = Some (if ch_count c = 0 then Recv_closed else Recv_acquire, Ch_running, c)"
  "ch_step Recv_closed c =
     Some (if ch_closed c then (Ch_idle, Received None, c) else (Recv_acquire, Ch_running, c))"
  "ch_step Recv_acquire c =
     (if 0 < ch_count c then Some (Recv_recount, Ch_running, c\<lparr>ch_count := ch_count c - 1\<rparr>) else None)"
  "ch_step Recv_recount c = Some (if ch_count c = 0 then Recv_reclosed else Recv_pop, Ch_running, c)"
  "ch_step Recv_reclosed c =
     Some (if ch_closed c then (Ch_idle, Received None, c) else (Recv_pop, Ch_running, c))"
  "ch_step Recv_pop c =
     Some (case ch_queue c of [] \<Rightarrow> (Recv_back None, Ch_running, c)
           | x # xs \<Rightarrow> (Recv_back (Some x), Ch_running, c\<lparr>ch_queue := xs\<rparr>))"
  "ch_step (Recv_back res) c = Some (Ch_idle, Received res, c\<lparr>ch_backpress := release_unit (ch_backpress c)\<rparr>)"
  "ch_step Stop_closed c = Some (Stop_count, Ch_running, c\<lparr>ch_closed := True\<rparr>)"
  "ch_step Stop_count c = Some (Stop_back, Ch_running, c\<lparr>ch_count := release_unit (ch_count c)\<rparr>)"
  "ch_step Stop_back c = Some (Ch_idle, Stopped, c\<lparr>ch_backpress := release_unit (ch_backpress c)\<rparr>)"
  by (simp_all add: ch_defs split: list.splits)

text \<open>What one step does to queue, places and units.\<close>

definition ch_effect :: "'a ch_pc \<Rightarrow> 'a channel \<Rightarrow> 'a ch_pc \<Rightarrow> 'a ch_result \<Rightarrow> 'a channel \<Rightarrow> bool" where
  "ch_effect pc c pc' r c' \<longleftrightarrow>
     length (ch_queue c') + will_push pc' + of_bool (pc = Recv_pop \<and> ch_queue c \<noteq> []) =
       length (ch_queue c) + will_push pc + of_bool (ch_closed c = False \<and> will_push pc' = 1) \<and>
     (ch_closed c' \<longleftrightarrow> ch_closed c \<or> pc = Stop_closed) \<and>
     (\<not> ch_closed c' \<longrightarrow>
        length (ch_queue c') + holds_place pc' + ch_backpress c' = length (ch_queue c) + holds_place pc + ch_backpress c \<and>
        ch_count c' + holds_value pc' + length (ch_queue c) = ch_count c + holds_value pc + length (ch_queue c') \<and>
        \<not> stopping pc' \<and> r \<noteq> Received None \<and> r \<noteq> Stopped \<and> (\<forall>v. r \<noteq> Rejected v))"

lemma ch_step_effect:
  assumes step: "ch_step pc c = Some (pc', r, c')"
    and room: "length (ch_queue c) + will_push pc \<le> channel_capacity"
    and opn: "\<not> ch_closed c \<Longrightarrow> length (ch_queue c) + holds_place pc + ch_backpress c \<le> channel_capacity \<and>
      ch_count c + holds_value pc \<le> length (ch_queue c) \<and> \<not> stopping pc"
  shows "ch_effect pc c pc' r c'"
  using step room opn
  by (cases "ch_closed c"; cases pc)
    (auto simp: ch_step_simps ch_effect_def release_unit_def split: if_splits list.splits option.splits)

lemma ch_log_effect:
  assumes "ch_step pc (cw_chan w) = Some (pc', r, c')" "length (ch_queue (cw_chan w)) + will_push pc \<le> channel_capacity"
    and "cw_accepted w = cw_delivered w @ ch_queue (cw_chan w)"
  shows "cw_accepted (log_queue pc (cw_chan w) w) = cw_delivered (log_queue pc (cw_chan w) w) @ ch_queue c' \<and>
    cw_lost (log_queue pc (cw_chan w) w) = cw_lost w"
  using assms by (cases pc) (auto simp: ch_step_simps log_queue_def split: if_splits list.splits)

lemma ch_task_inv:
  assumes inv: "ch_inv w" and t: "t < length (cw_pcs w)"
    and step: "ch_step (cw_pcs w ! t) (cw_chan w) = Some (pc, r, c)"
  shows "ch_inv ((log_queue (cw_pcs w ! t) (cw_chan w) w)
      \<lparr>cw_chan := c, cw_pcs := (cw_pcs w)[t := pc], cw_results := cw_results w @ (if r = Ch_running then [] else [(t, r)])\<rparr>)"
proof -
  let ?c = "cw_chan w" and ?pc = "cw_pcs w ! t" and ?pcs = "(cw_pcs w)[t := pc]"
  have mem: "will_push ?pc \<le> sum_list (map will_push (cw_pcs w))"
    "holds_place ?pc \<le> sum_list (map holds_place (cw_pcs w))"
    "holds_value ?pc \<le> sum_list (map holds_value (cw_pcs w))"
    using t by (auto intro!: member_le_sum_list)
  have i: "cw_accepted w = cw_delivered w @ ch_queue ?c" "cw_lost w = []"
    "length (ch_queue ?c) + sum_list (map will_push (cw_pcs w)) \<le> channel_capacity"
    using inv by (simp_all add: ch_inv_def)
  have o: "length (ch_queue ?c) + sum_list (map holds_place (cw_pcs w)) + ch_backpress ?c = channel_capacity"
    "ch_count ?c + sum_list (map holds_value (cw_pcs w)) = length (ch_queue ?c)"
    "\<forall>pc\<in>set (cw_pcs w). \<not> stopping pc"
    "list_all (\<lambda>(t, r). r \<noteq> Received None \<and> r \<noteq> Stopped \<and> (\<forall>v. r \<noteq> Rejected v)) (cw_results w)"
    if "\<not> ch_closed ?c"
    using inv that by (simp_all add: ch_inv_def)
  have room: "length (ch_queue ?c) + will_push ?pc \<le> channel_capacity" using i(3) mem(1) by linarith
  have opn: "length (ch_queue ?c) + holds_place ?pc + ch_backpress ?c \<le> channel_capacity \<and>
      ch_count ?c + holds_value ?pc \<le> length (ch_queue ?c) \<and> \<not> stopping ?pc" if "\<not> ch_closed ?c"
    using o [OF that] mem(2,3) t by auto
  from ch_step_effect [OF step room opn] have eff: "ch_effect ?pc ?c pc r c" by blast
  note sums = sum_update [OF t, of will_push pc] sum_update [OF t, of holds_place pc] sum_update [OF t, of holds_value pc]
  have cap: "length (ch_queue c) + sum_list (map will_push ?pcs) \<le> channel_capacity"
  proof (cases "ch_closed ?c")
    case True
    with eff sums(1) i(3) show ?thesis by (simp add: ch_effect_def)
  next
    case False
    note o = o [OF False]
    show ?thesis
    proof (cases "will_push pc = 1")
      case True
      then obtain v where v: "pc = Send_push v" by (cases pc) auto
      with step have "holds_place ?pc = 1" "will_push ?pc = 0" "ch_queue c = ch_queue ?c"
        by (cases ?pc; auto simp: ch_step_simps split: if_splits list.splits)+
      with o(1) sums(1,2) True v pushes_le_places [of ?pcs] show ?thesis by simp
    next
      case no: False
      with eff sums(1) i(3) False show ?thesis by (simp add: ch_effect_def)
    qed
  qed
  have fifo: "cw_accepted (log_queue ?pc ?c w) = cw_delivered (log_queue ?pc ?c w) @ ch_queue c"
    "cw_lost (log_queue ?pc ?c w) = []"
    using ch_log_effect [OF step room i(1)] i(2) by simp_all
  have still: "length (ch_queue c) + sum_list (map holds_place ?pcs) + ch_backpress c = channel_capacity \<and>
      ch_count c + sum_list (map holds_value ?pcs) = length (ch_queue c) \<and>
      (\<forall>pc\<in>set ?pcs. \<not> stopping pc) \<and>
      list_all (\<lambda>(t, r). r \<noteq> Received None \<and> r \<noteq> Stopped \<and> (\<forall>v. r \<noteq> Rejected v))
        (cw_results w @ (if r = Ch_running then [] else [(t, r)]))"
    if "\<not> ch_closed c"
  proof -
    from eff that have "\<not> ch_closed ?c" by (simp add: ch_effect_def)
    note o = o [OF this]
    from eff that have e: "length (ch_queue c) + holds_place pc + ch_backpress c = length (ch_queue ?c) + holds_place ?pc + ch_backpress ?c"
      "ch_count c + holds_value pc + length (ch_queue ?c) = ch_count ?c + holds_value ?pc + length (ch_queue c)"
      "\<not> stopping pc" "r \<noteq> Received None" "r \<noteq> Stopped" "\<forall>v. r \<noteq> Rejected v"
      by (simp_all add: ch_effect_def)
    have "\<forall>pc\<in>set ?pcs. \<not> stopping pc"
      using o(3) e(3) by (auto dest!: set_update_subset_insert [THEN subsetD])
    with e o sums(2,3) show ?thesis by auto
  qed
  show ?thesis
    unfolding ch_inv_def using fifo cap still by simp
qed

lemma ch_call_inv:
  assumes inv: "ch_inv w" and t: "ch_idle t w" and pc: "will_push pc = 0" "holds_place pc = 0" "holds_value pc = 0" "\<not> stopping pc"
  shows "ch_inv (w\<lparr>cw_pcs := (cw_pcs w)[t := pc]\<rparr>)"
proof -
  have l: "t < length (cw_pcs w)" "cw_pcs w ! t = Ch_idle" using t by (simp_all add: ch_idle_def)
  note sums = sum_update [OF l(1), of will_push pc] sum_update [OF l(1), of holds_place pc] sum_update [OF l(1), of holds_value pc]
  have "\<not> ch_closed (cw_chan w) \<Longrightarrow> \<forall>pc'\<in>set ((cw_pcs w)[t := pc]). \<not> stopping pc'"
    using inv pc(4) by (auto simp: ch_inv_def dest!: set_update_subset_insert [THEN subsetD])
  with inv sums pc l(2) show ?thesis by (simp add: ch_inv_def)
qed

lemma ch_world_inv [asco_inv]: "ch_inv w \<Longrightarrow> ch_world_step a w = Some w' \<Longrightarrow> ch_inv w'"
proof (cases a)
  case (Ch_task t)
  assume "ch_inv w" "ch_world_step a w = Some w'"
  with Ch_task ch_task_inv [of w t] show ?thesis by (auto split: if_splits option.splits)
qed (auto split: if_splits intro!: ch_call_inv)

interpretation chw: invariant_system ch_world_step ch_inv
  by unfold_locales (rule ch_world_inv)

text \<open>
  The two semaphores of a channel are used as the counters that \<open>Semaphore.semaphore_refines_counter\<close> shows semaphores to be: every
  interleaving of a channel is a run of both.
\<close>

fun count_ops :: "'a ch_pc \<Rightarrow> counter_op list" where
  "count_ops Send_count = [Give 1]"
| "count_ops Stop_count = [Give 1]"
| "count_ops Recv_acquire = [Take]"
| "count_ops _ = []"

fun backpress_ops :: "'a ch_pc \<Rightarrow> counter_op list" where
  "backpress_ops (Send_acquire v) = [Take]"
| "backpress_ops (Send_give_back v) = [Give 1]"
| "backpress_ops (Recv_back r) = [Give 1]"
| "backpress_ops Stop_back = [Give 1]"
| "backpress_ops _ = []"

lemma ch_step_counters:
  assumes "ch_step pc c = Some (pc', r, c')"
  shows "run (counter_step channel_capacity) (count_ops pc) (ch_count c) = Some (ch_count c') \<and>
    run (counter_step channel_capacity) (backpress_ops pc) (ch_backpress c) = Some (ch_backpress c')"
  using assms by (cases pc) (auto simp: ch_step_simps release_unit_def split: if_splits list.splits)

definition ch_ops :: "('a ch_pc \<Rightarrow> counter_op list) \<Rightarrow> 'a ch_action \<Rightarrow> 'a ch_world \<Rightarrow> counter_op list" where
  "ch_ops ops a w = (case a of Ch_task t \<Rightarrow> ops (cw_pcs w ! t) | _ \<Rightarrow> [])"

lemma ch_world_step_counters:
  assumes "ch_world_step a w = Some w'"
  shows "run (counter_step channel_capacity) (ch_ops count_ops a w) (ch_count (cw_chan w)) = Some (ch_count (cw_chan w')) \<and>
    run (counter_step channel_capacity) (ch_ops backpress_ops a w) (ch_backpress (cw_chan w)) = Some (ch_backpress (cw_chan w'))"
proof (cases a)
  case (Ch_task t)
  with assms obtain pc r c where step: "ch_step (cw_pcs w ! t) (cw_chan w) = Some (pc, r, c)" and c: "cw_chan w' = c"
    by (auto split: if_splits option.splits)
  show ?thesis
    using ch_step_counters [OF step] by (simp add: Ch_task c ch_ops_def)
qed (use assms in \<open>auto simp: ch_ops_def split: if_splits\<close>)

interpretation ch_counts: refining_system ch_world_step "\<lambda>_. True" "counter_step channel_capacity" "ch_ops count_ops" "\<lambda>w. ch_count (cw_chan w)"
  by unfold_locales (simp_all add: ch_world_step_counters)

interpretation ch_places: refining_system ch_world_step "\<lambda>_. True" "counter_step channel_capacity" "ch_ops backpress_ops"
    "\<lambda>w. ch_backpress (cw_chan w)"
  by unfold_locales (simp_all add: ch_world_step_counters)

lemma ch_inv_init: "ch_inv (ch_init n)"
  by (simp add: ch_inv_def ch_init_def channel_new_def sum_list_replicate)



section \<open>Stopping\<close>

text \<open>A call without interference.\<close>

partial_function (option) ch_call :: "'a ch_pc \<Rightarrow> 'a channel \<Rightarrow> ('a ch_result \<times> 'a channel) option" where
  "ch_call pc c =
     (case ch_step pc c of
        None \<Rightarrow> None
      | Some (pc', r, c') \<Rightarrow> if r = Ch_running then ch_call pc' c' else Some (r, c'))"

text \<open>\<open>n\<close> calls of \<open>recv\<close> in a row.\<close>

fun recv_many :: "nat \<Rightarrow> 'a channel \<Rightarrow> ('a ch_result list \<times> 'a channel) option" where
  "recv_many 0 c = Some ([], c)"
| "recv_many (Suc n) c =
     (case ch_call Recv_count c of
        None \<Rightarrow> None
      | Some (r, c) \<Rightarrow> map_option (apfst (Cons r)) (recv_many n c))"

lemmas ch_call_eval = ch_step_simps release_unit_def
  ch_call.simps [of Recv_count] ch_call.simps [of Recv_closed] ch_call.simps [of Recv_acquire]
  ch_call.simps [of Recv_recount] ch_call.simps [of Recv_reclosed] ch_call.simps [of Recv_pop]
  ch_call.simps [of "Recv_back x" for x] ch_call.simps [of Stop_closed] ch_call.simps [of Stop_count]
  ch_call.simps [of Stop_back]

lemma recv_value:
  assumes "ch_count c = Suc (Suc m)" "ch_queue c = v # vs"
  shows "\<exists>b. ch_call Recv_count c = Some (Received (Some v), c\<lparr>ch_count := Suc m, ch_queue := vs, ch_backpress := b\<rparr>)"
  using assms by (auto simp: ch_call_eval)

lemma recv_last_unit:
  assumes "ch_closed c" "ch_count c = 1"
  shows "ch_call Recv_count c = Some (Received None, c\<lparr>ch_count := 0\<rparr>)"
  using assms by (simp add: ch_call_eval)

lemma recv_no_unit:
  assumes "ch_closed c" "ch_count c = 0"
  shows "ch_call Recv_count c = Some (Received None, c)"
  using assms by (simp add: ch_call_eval)

lemma recv_many_none: "ch_closed c \<Longrightarrow> ch_count c = 0 \<Longrightarrow> recv_many n c = Some (replicate n (Received None), c)"
  by (induction n) (simp_all add: recv_no_unit)

lemma recv_many_drains:
  "ch_closed c \<Longrightarrow> ch_count c = Suc k \<Longrightarrow> k \<le> length (ch_queue c) \<Longrightarrow>
   \<exists>c'. recv_many n c = Some (take n (map (\<lambda>v. Received (Some v)) (take k (ch_queue c)) @ replicate n (Received None)), c') \<and>
     ch_queue c' = drop (min n k) (ch_queue c)"
proof (induction n arbitrary: c k)
  case 0
  then show ?case by simp
next
  case (Suc n)
  show ?case
  proof (cases k)
    case 0
    with Suc.prems recv_last_unit [of c] recv_many_none [of "c\<lparr>ch_count := 0\<rparr>" n] show ?thesis by simp
  next
    case (Suc m)
    with Suc.prems obtain v vs where q: "ch_queue c = v # vs" by (cases "ch_queue c") auto
    from recv_value [OF _ q, of m] Suc.prems Suc obtain b where
      r: "ch_call Recv_count c = Some (Received (Some v), c\<lparr>ch_count := Suc m, ch_queue := vs, ch_backpress := b\<rparr>)"
      by auto
    let ?c = "c\<lparr>ch_count := Suc m, ch_queue := vs, ch_backpress := b\<rparr>"
    from Suc.IH [of ?c m] Suc.prems Suc q obtain c' where
      "recv_many n ?c = Some (take n (map (\<lambda>v. Received (Some v)) (take m vs) @ replicate n (Received None)), c')"
      "ch_queue c' = drop (min n m) vs" by auto
    with r q Suc show ?thesis
      by (auto simp flip: replicate_Suc)
  qed
qed



text \<open>
  \<open>stop\<close> awakes one receiver only. Of two receivers that wait on an empty channel, one
  returns empty-handed with the extra unit; the other one cannot go on, and no call is left that
  could awake it.
\<close>

theorem channel_stop_strands_receiver:
  "\<exists>as w. run ch_world_step as (ch_init 3 :: nat ch_world) = Some w \<and>
     cw_results w = [(2, Stopped), (0, Received None)] \<and> cw_pcs w = [Ch_idle, Recv_acquire, Ch_idle] \<and>
     ch_closed (cw_chan w) \<and> ch_world_step (Ch_task 1) w = None"
proof -
  let ?as = "[Ch_recv 0, Ch_recv 1, Ch_task 0, Ch_task 0, Ch_task 1, Ch_task 1, Ch_stop 2, Ch_task 2, Ch_task 2,
    Ch_task 2, Ch_task 0, Ch_task 0, Ch_task 0]"
  have "\<exists>w. run ch_world_step ?as (ch_init 3 :: nat ch_world) = Some w \<and>
     cw_results w = [(2, Stopped), (0, Received None)] \<and> cw_pcs w = [Ch_idle, Recv_acquire, Ch_idle] \<and>
     ch_closed (cw_chan w) \<and> ch_world_step (Ch_task 1) w = None"
    by (simp add: numeral_eq_Suc ch_init_def channel_new_def channel_capacity_def ch_idle_def ch_step_simps
        log_queue_def release_unit_def)
  then show ?thesis by blast
qed

end
