(* ===== verification/Join_Set.thy ===== *)
theory Join_Set
  imports Channel "HOL-Library.Multiset"
begin

text \<open>
  \<open>asco/task/join_set.h\<close>: tasks that send their results into a channel, and an owner that takes them out one by one and counts what
  is still to come. It is a client of \<open>Channel\<close>: the owner is task 0 of the channel, the spawned task \<open>i\<close> is
  task \<open>Suc i\<close>, and every step of theirs on the channel is a step here.
\<close>

section \<open>State and steps\<close>

text \<open>A task runs, sends what it has computed, has finished, or was left by an exception (and then sends nothing).\<close>

datatype js_task = Js_unspawned | Js_running | Js_sending nat | Js_finished nat | Js_threw

datatype js_owner = Js_idle | Js_counting | Js_receiving | Js_subtract nat | Js_stopping | Js_draining "nat list" | Js_joined "nat list"

text \<open>\<open>js_answers\<close>: what the awaits gave, with the number of tasks that were still outstanding then.\<close>

record join_set =
  js_chan :: "nat ch_world"
  js_tasks :: "js_task list"
  js_task_count :: u64
  js_owner :: js_owner
  js_answers :: "(nat option \<times> nat) list"

definition js_new :: "nat \<Rightarrow> join_set" where
  "js_new n = \<lparr>js_chan = ch_init (Suc n), js_tasks = replicate n Js_unspawned, js_task_count = 0, js_owner = Js_idle, js_answers = []\<rparr>"

definition js_answered :: "join_set \<Rightarrow> nat list" where
  "js_answered s = concat (map (\<lambda>(a, k). case a of None \<Rightarrow> [] | Some v \<Rightarrow> [v]) (js_answers s))"

definition js_spawned :: "join_set \<Rightarrow> nat" where
  "js_spawned s = count_if (\<lambda>t. t \<noteq> Js_unspawned) (js_tasks s)"

definition js_outstanding :: "join_set \<Rightarrow> nat" where
  "js_outstanding s = js_spawned s - length (js_answered s)"

text \<open>\<open>spawn\<close>: the task is on its way before it is counted.\<close>

definition js_spawn :: "nat \<Rightarrow> join_set \<Rightarrow> join_set option" where
  "js_spawn i s =
     (if js_owner s = Js_idle \<and> i < length (js_tasks s) \<and> js_tasks s ! i = Js_unspawned
      then Some (s\<lparr>js_tasks := (js_tasks s)[i := Js_running], js_owner := Js_counting\<rparr>) else None)"

definition js_counted :: "join_set \<Rightarrow> join_set option" where
  "js_counted s =
     (if js_owner s = Js_counting then Some (s\<lparr>js_task_count := js_task_count s + 1, js_owner := Js_idle\<rparr>) else None)"

text \<open>The lambda that is spawned: it awaits the function and sends the result, unless there was an exception.\<close>

definition js_produce :: "nat \<Rightarrow> nat \<Rightarrow> join_set \<Rightarrow> join_set option" where
  "js_produce i v s =
     (if i < length (js_tasks s) \<and> js_tasks s ! i = Js_running
      then map_option (\<lambda>w. s\<lparr>js_chan := w, js_tasks := (js_tasks s)[i := Js_sending v]\<rparr>) (ch_world_step (Ch_send (Suc i) v) (js_chan s))
      else None)"

definition js_fail :: "nat \<Rightarrow> join_set \<Rightarrow> join_set option" where
  "js_fail i s =
     (if i < length (js_tasks s) \<and> js_tasks s ! i = Js_running then Some (s\<lparr>js_tasks := (js_tasks s)[i := Js_threw]\<rparr>) else None)"

definition js_send :: "nat \<Rightarrow> join_set \<Rightarrow> join_set option" where
  "js_send i s =
     (if i < length (js_tasks s)
      then (case js_tasks s ! i of
              Js_sending v \<Rightarrow>
                map_option (\<lambda>w. s\<lparr>js_chan := w,
                    js_tasks := (js_tasks s)[i := if cw_pcs w ! Suc i = Ch_idle then Js_finished v else Js_sending v]\<rparr>)
                  (ch_world_step (Ch_task (Suc i)) (js_chan s))
            | _ \<Rightarrow> None)
      else None)"

text \<open>\<open>operator co_await\<close>.\<close>

definition js_await :: "join_set \<Rightarrow> join_set option" where
  "js_await s =
     (if js_owner s = Js_idle
      then (if js_task_count s = 0 then Some (s\<lparr>js_answers := js_answers s @ [(None, js_outstanding s)]\<rparr>)
            else map_option (\<lambda>w. s\<lparr>js_chan := w, js_owner := Js_receiving\<rparr>) (ch_world_step (Ch_recv 0) (js_chan s)))
      else None)"

definition js_subtract :: "join_set \<Rightarrow> join_set option" where
  "js_subtract s =
     (case js_owner s of
        Js_subtract v \<Rightarrow>
          Some (s\<lparr>js_task_count := js_task_count s - 1, js_owner := Js_idle, js_answers := js_answers s @ [(Some v, js_outstanding s)]\<rparr>)
      | _ \<Rightarrow> None)"

text \<open>\<open>join_all\<close> closes the channel first, then receives what there is.\<close>

definition js_join_all :: "join_set \<Rightarrow> join_set option" where
  "js_join_all s =
     (if js_owner s = Js_idle
      then map_option (\<lambda>w. s\<lparr>js_chan := w, js_owner := Js_stopping\<rparr>) (ch_world_step (Ch_stop 0) (js_chan s)) else None)"

text \<open>A step of the owner on the channel, and what it does with the result when the call has returned.\<close>

definition own_result :: "nat ch_world \<Rightarrow> nat ch_result" where
  "own_result w = (if cw_pcs w ! 0 = Ch_idle then snd (last (cw_results w)) else Ch_running)"

definition js_again :: "nat list \<Rightarrow> join_set \<Rightarrow> join_set option" where
  "js_again vs s = map_option (\<lambda>w. s\<lparr>js_chan := w, js_owner := Js_draining vs\<rparr>) (ch_world_step (Ch_recv 0) (js_chan s))"

definition js_returned :: "nat ch_result \<Rightarrow> join_set \<Rightarrow> join_set option" where
  "js_returned r s =
     (case r of
        Ch_running \<Rightarrow> Some s
      | Received None \<Rightarrow>
          (case js_owner s of
             Js_receiving \<Rightarrow> Some (s\<lparr>js_owner := Js_idle, js_answers := js_answers s @ [(None, js_outstanding s)]\<rparr>)
           | Js_draining vs \<Rightarrow> Some (s\<lparr>js_owner := Js_joined vs\<rparr>)
           | _ \<Rightarrow> None)
      | Received (Some v) \<Rightarrow>
          (case js_owner s of
             Js_receiving \<Rightarrow> Some (s\<lparr>js_owner := Js_subtract v\<rparr>)
           | Js_draining vs \<Rightarrow> js_again (vs @ [v]) s
           | _ \<Rightarrow> None)
      | Stopped \<Rightarrow> js_again [] s
      | _ \<Rightarrow> None)"

definition js_own :: "join_set \<Rightarrow> join_set option" where
  "js_own s =
     (case ch_world_step (Ch_task 0) (js_chan s) of None \<Rightarrow> None | Some w \<Rightarrow> js_returned (own_result w) (s\<lparr>js_chan := w\<rparr>))"

datatype js_action = Js_spawn nat | Js_counted | Js_produce nat nat | Js_fail nat | Js_send nat | Js_await | Js_own
  | Js_subtracted | Js_join_all

fun js_step :: "js_action \<Rightarrow> join_set \<Rightarrow> join_set option" where
  "js_step (Js_spawn i) s = js_spawn i s"
| "js_step Js_counted s = js_counted s"
| "js_step (Js_produce i v) s = js_produce i v s"
| "js_step (Js_fail i) s = js_fail i s"
| "js_step (Js_send i) s = js_send i s"
| "js_step Js_await s = js_await s"
| "js_step Js_own s = js_own s"
| "js_step Js_subtracted s = js_subtract s"
| "js_step Js_join_all s = js_join_all s"

section \<open>Steps on the channel\<close>

fun send_pc :: "nat \<Rightarrow> nat ch_pc \<Rightarrow> bool" where
  "send_pc v (Send_closed u) = (u = v)"
| "send_pc v (Send_acquire u) = (u = v)"
| "send_pc v (Send_check u) = (u = v)"
| "send_pc v (Send_give_back u) = (u = v)"
| "send_pc v (Send_push u) = (u = v)"
| "send_pc v Send_count = True"
| "send_pc v pc = False"

fun recv_pc :: "nat ch_pc \<Rightarrow> bool" where
  "recv_pc Recv_count = True"
| "recv_pc Recv_closed = True"
| "recv_pc Recv_acquire = True"
| "recv_pc Recv_recount = True"
| "recv_pc Recv_reclosed = True"
| "recv_pc Recv_pop = True"
| "recv_pc (Recv_back r) = True"
| "recv_pc pc = False"

fun stop_pc :: "nat ch_pc \<Rightarrow> bool" where
  "stop_pc Stop_closed = True"
| "stop_pc Stop_count = True"
| "stop_pc Stop_back = True"
| "stop_pc pc = False"

text \<open>The value that a receiver has taken out of the queue and not yet returned.\<close>

fun taken :: "nat ch_pc \<Rightarrow> nat list" where
  "taken (Recv_back (Some v)) = [v]"
| "taken pc = []"

fun result_value :: "nat ch_result \<Rightarrow> nat list" where
  "result_value (Received (Some v)) = [v]"
| "result_value r = []"

lemma ch_task_move:
  assumes "ch_world_step (Ch_task t) w = Some w'"
  obtains pc r c where "t < length (cw_pcs w)" "ch_step (cw_pcs w ! t) (cw_chan w) = Some (pc, r, c)"
    "cw_pcs w' = (cw_pcs w)[t := pc]" "cw_chan w' = c"
    "cw_results w' = cw_results w @ (if r = Ch_running then [] else [(t, r)])"
    "cw_accepted w' = cw_accepted (log_queue (cw_pcs w ! t) (cw_chan w) w)"
    "cw_delivered w' = cw_delivered (log_queue (cw_pcs w ! t) (cw_chan w) w)"
  using assms by (auto split: if_splits option.splits)

lemma ch_step_done: "ch_step pc c = Some (pc', r, c') \<Longrightarrow> pc' = Ch_idle \<longleftrightarrow> r \<noteq> Ch_running"
  by (cases pc) (auto simp: ch_step_simps split: if_splits list.splits)

lemma log_queue_simps:
  "cw_accepted (log_queue pc c w) = cw_accepted w @ (case pc of Send_push v \<Rightarrow> if length (ch_queue c) < channel_capacity then [v] else [] | _ \<Rightarrow> [])"
  "cw_delivered (log_queue pc c w) = cw_delivered w @ (case pc of Recv_pop \<Rightarrow> take 1 (ch_queue c) | _ \<Rightarrow> [])"
  by (cases pc; simp add: log_queue_def split: list.split)+

lemma send_moves:
  assumes "send_pc v pc" "ch_step pc c = Some (pc', r, c')"
  shows "send_pc v pc' \<or> pc' = Ch_idle" "ch_closed c' = ch_closed c"
    "pc' = Ch_idle \<Longrightarrow> pc = Send_count \<or> ch_closed c \<or> stopping pc"
    "pc' = Send_count \<longleftrightarrow> pc = Send_push v" "pc = Send_count \<Longrightarrow> pc' = Ch_idle"
proof -
  show "send_pc v pc' \<or> pc' = Ch_idle" using assms by (cases pc) (auto simp: ch_step_simps split: if_splits)
  show "ch_closed c' = ch_closed c" using assms by (cases pc) (auto simp: ch_step_simps split: if_splits)
  show "pc' = Ch_idle \<Longrightarrow> pc = Send_count \<or> ch_closed c \<or> stopping pc" using assms by (cases pc) (auto simp: ch_step_simps split: if_splits)
  show "pc' = Send_count \<longleftrightarrow> pc = Send_push v" using assms by (cases pc) (auto simp: ch_step_simps split: if_splits)
  show "pc = Send_count \<Longrightarrow> pc' = Ch_idle" using assms by (simp add: ch_step_simps)
qed

lemma recv_moves:
  assumes "recv_pc pc" "ch_step pc c = Some (pc', r, c')"
  shows "recv_pc pc' \<and> r = Ch_running \<or> pc' = Ch_idle \<and> (\<exists>a. r = Received a)" "ch_closed c' = ch_closed c"
    "taken pc @ (case pc of Recv_pop \<Rightarrow> take 1 (ch_queue c) | _ \<Rightarrow> []) = taken pc' @ result_value r"
proof -
  show "recv_pc pc' \<and> r = Ch_running \<or> pc' = Ch_idle \<and> (\<exists>a. r = Received a)"
    using assms by (cases pc) (auto simp: ch_step_simps split: if_splits list.splits)
  show "ch_closed c' = ch_closed c" using assms by (cases pc) (auto simp: ch_step_simps split: if_splits list.splits)
  show "taken pc @ (case pc of Recv_pop \<Rightarrow> take 1 (ch_queue c) | _ \<Rightarrow> []) = taken pc' @ result_value r"
  proof (cases pc)
    case (Recv_back a)
    with assms show ?thesis by (cases a) (auto simp: ch_step_simps)
  qed (use assms in \<open>auto simp: ch_step_simps split: if_splits list.splits\<close>)
qed

lemma stop_moves:
  assumes "stop_pc pc" "ch_step pc c = Some (pc', r, c')"
  shows "stop_pc pc' \<and> r = Ch_running \<or> pc' = Ch_idle \<and> r = Stopped" "ch_closed c \<Longrightarrow> ch_closed c'"
  using assms by (cases pc; auto simp: ch_step_simps)+

section \<open>The invariant\<close>

definition task_pc :: "js_task \<Rightarrow> nat ch_pc \<Rightarrow> bool" where
  "task_pc t pc = (case t of Js_sending v \<Rightarrow> send_pc v pc | _ \<Rightarrow> pc = Ch_idle)"

text \<open>What a task has put into the queue, if nothing was refused.\<close>

definition task_sent :: "js_task \<Rightarrow> nat ch_pc \<Rightarrow> nat multiset" where
  "task_sent t pc =
     (case t of
        Js_sending v \<Rightarrow> if pc = Send_count then {#v#} else {#}
      | Js_finished v \<Rightarrow> {#v#}
      | _ \<Rightarrow> {#})"

definition task_value :: "js_task \<Rightarrow> nat list" where
  "task_value t = (case t of Js_sending v \<Rightarrow> [v] | Js_finished v \<Rightarrow> [v] | _ \<Rightarrow> [])"

definition own_pc :: "js_owner \<Rightarrow> nat ch_pc \<Rightarrow> bool" where
  "own_pc own pc =
     (case own of Js_receiving \<Rightarrow> recv_pc pc | Js_draining vs \<Rightarrow> recv_pc pc | Js_stopping \<Rightarrow> stop_pc pc | _ \<Rightarrow> pc = Ch_idle)"

text \<open>The values the owner has taken out of the queue and not yet answered with.\<close>

definition held :: "js_owner \<Rightarrow> nat ch_pc \<Rightarrow> nat list" where
  "held own pc =
     (case own of Js_receiving \<Rightarrow> taken pc | Js_subtract v \<Rightarrow> [v] | Js_draining vs \<Rightarrow> vs @ taken pc | Js_joined vs \<Rightarrow> vs | _ \<Rightarrow> [])"

definition collecting :: "js_owner \<Rightarrow> bool" where
  "collecting own = (case own of Js_stopping \<Rightarrow> False | Js_draining vs \<Rightarrow> False | Js_joined vs \<Rightarrow> False | _ \<Rightarrow> True)"

definition js_sent :: "join_set \<Rightarrow> nat multiset" where
  "js_sent s = (\<Sum>i<length (js_tasks s). task_sent (js_tasks s ! i) (cw_pcs (js_chan s) ! Suc i))"

definition chan_ok :: "nat \<Rightarrow> join_set \<Rightarrow> bool" where
  "chan_ok n s \<longleftrightarrow>
     ch_inv (js_chan s) \<and> length (js_tasks s) = n \<and> length (cw_pcs (js_chan s)) = Suc n \<and>
     (\<forall>i<n. task_pc (js_tasks s ! i) (cw_pcs (js_chan s) ! Suc i)) \<and> own_pc (js_owner s) (cw_pcs (js_chan s) ! 0) \<and>
     mset (cw_accepted (js_chan s)) \<subseteq># js_sent s \<and>
     (\<not> ch_closed (cw_chan (js_chan s)) \<longrightarrow> mset (cw_accepted (js_chan s)) = js_sent s) \<and>
     (collecting (js_owner s) \<longrightarrow> \<not> ch_closed (cw_chan (js_chan s))) \<and>
     cw_delivered (js_chan s) = js_answered s @ held (js_owner s) (cw_pcs (js_chan s) ! 0)"

definition count_ok :: "nat \<Rightarrow> join_set \<Rightarrow> bool" where
  "count_ok n s \<longleftrightarrow>
     length (js_tasks s) = n \<and> n < 2 ^ 64 \<and>
     unat (js_task_count s) + of_bool (js_owner s = Js_counting) + length (js_answered s) = js_spawned s \<and>
     (js_owner s = Js_receiving \<or> (\<exists>v. js_owner s = Js_subtract v) \<longrightarrow> js_task_count s \<noteq> 0) \<and>
     list_all (\<lambda>(a, k). a = None \<longrightarrow> k = 0) (js_answers s)"

definition js_inv :: "nat \<Rightarrow> join_set \<Rightarrow> bool" where
  "js_inv n s \<longleftrightarrow> chan_ok n s \<and> count_ok n s"

lemma sum_change:
  fixes f g :: "nat \<Rightarrow> 'a::comm_monoid_add"
  assumes "i < n" "\<And>j. j < n \<Longrightarrow> j \<noteq> i \<Longrightarrow> g j = f j"
  shows "sum g {..<n} + f i = sum f {..<n} + g i"
proof -
  have "sum g ({..<n} - {i}) = sum f ({..<n} - {i})" using assms by (intro sum.cong) auto
  then show ?thesis
    using sum.remove [of "{..<n}" i f] sum.remove [of "{..<n}" i g] assms(1) by (simp add: ac_simps)
qed

lemma js_spawned_le: "js_spawned s \<le> length (js_tasks s)"
  by (simp add: js_spawned_def)

lemma js_spawned_update:
  assumes "i < length ts"
  shows "count_if (\<lambda>t. t \<noteq> Js_unspawned) (ts[i := t]) + of_bool (ts ! i \<noteq> Js_unspawned) =
    count_if (\<lambda>t. t \<noteq> Js_unspawned) ts + of_bool (t \<noteq> Js_unspawned)"
  using count_if_update [OF assms, of "\<lambda>t. t \<noteq> Js_unspawned" t] by (simp add: of_bool_def split: if_splits)

text \<open>A task goes on, with or without a step on the channel.\<close>

lemma js_sent_change:
  assumes "i < length (js_tasks s)" "length (cw_pcs (js_chan s)) = Suc (length (js_tasks s))"
    "js_tasks s' = (js_tasks s)[i := t]" "cw_pcs (js_chan s') = (cw_pcs (js_chan s))[Suc i := pc]"
  shows "js_sent s' + task_sent (js_tasks s ! i) (cw_pcs (js_chan s) ! Suc i) = js_sent s + task_sent t pc"
  using sum_change [of i "length (js_tasks s)" "\<lambda>i. task_sent (js_tasks s' ! i) (cw_pcs (js_chan s') ! Suc i)"
      "\<lambda>i. task_sent (js_tasks s ! i) (cw_pcs (js_chan s) ! Suc i)"] assms
  by (simp add: js_sent_def)

lemma chan_ok_task:
  assumes ok: "chan_ok n s" and i: "i < n" and w: "ch_inv w"
    and pcs: "cw_pcs w = (cw_pcs (js_chan s))[Suc i := pc]" and t: "task_pc t pc"
    and closed: "ch_closed (cw_chan w) = ch_closed (cw_chan (js_chan s))" and del: "cw_delivered w = cw_delivered (js_chan s)"
    and acc: "mset (cw_accepted w) + task_sent (js_tasks s ! i) (cw_pcs (js_chan s) ! Suc i) \<subseteq># mset (cw_accepted (js_chan s)) + task_sent t pc"
    and eq: "\<not> ch_closed (cw_chan w) \<Longrightarrow>
      mset (cw_accepted w) + task_sent (js_tasks s ! i) (cw_pcs (js_chan s) ! Suc i) = mset (cw_accepted (js_chan s)) + task_sent t pc"
  shows "chan_ok n (s\<lparr>js_chan := w, js_tasks := (js_tasks s)[i := t]\<rparr>)"
proof -
  let ?s = "s\<lparr>js_chan := w, js_tasks := (js_tasks s)[i := t]\<rparr>"
  let ?x = "task_sent (js_tasks s ! i) (cw_pcs (js_chan s) ! Suc i)"
  have len: "length (js_tasks s) = n" "length (cw_pcs (js_chan s)) = Suc n" using ok by (simp_all add: chan_ok_def)
  have sent: "js_sent ?s + ?x = js_sent s + task_sent t pc"
    using js_sent_change [of i s ?s t pc] len i pcs by simp
  have "mset (cw_accepted w) + ?x \<subseteq># js_sent ?s + ?x"
    unfolding sent using acc ok by (metis chan_ok_def subset_mset.add_right_mono subset_mset.order_trans)
  then have "mset (cw_accepted w) \<subseteq># js_sent ?s" by simp
  moreover have "mset (cw_accepted w) = js_sent ?s" if "\<not> ch_closed (cw_chan w)"
    using eq [OF that] ok that closed sent by (metis add_right_cancel chan_ok_def)
  moreover have "task_pc ((js_tasks s)[i := t] ! j) (cw_pcs w ! Suc j)" if "j < n" for j
    using ok that t len i by (cases "j = i") (simp_all add: chan_ok_def pcs)
  ultimately show ?thesis
    using ok len i w closed del by (simp add: chan_ok_def js_answered_def pcs)
qed

lemma js_simps:
  "js_answered (s\<lparr>js_chan := w\<rparr>) = js_answered s" "js_answered (s\<lparr>js_tasks := ts\<rparr>) = js_answered s"
  "js_answered (s\<lparr>js_owner := own\<rparr>) = js_answered s" "js_answered (s\<lparr>js_task_count := c\<rparr>) = js_answered s"
  "js_answered (s\<lparr>js_answers := as @ [(None, k)]\<rparr>) = js_answered (s\<lparr>js_answers := as\<rparr>)"
  "js_answered (s\<lparr>js_answers := as @ [(Some v, k)]\<rparr>) = js_answered (s\<lparr>js_answers := as\<rparr>) @ [v]"
  "js_answered (s\<lparr>js_answers := js_answers s\<rparr>) = js_answered s"
  "js_spawned (s\<lparr>js_chan := w\<rparr>) = js_spawned s" "js_spawned (s\<lparr>js_owner := own\<rparr>) = js_spawned s"
  "js_spawned (s\<lparr>js_task_count := c\<rparr>) = js_spawned s" "js_spawned (s\<lparr>js_answers := as\<rparr>) = js_spawned s"
  "js_sent (s\<lparr>js_owner := own\<rparr>) = js_sent s" "js_sent (s\<lparr>js_task_count := c\<rparr>) = js_sent s"
  "js_sent (s\<lparr>js_answers := as\<rparr>) = js_sent s"
  by (simp_all add: js_answered_def js_spawned_def js_sent_def)

lemma count_ok_chan [simp]: "count_ok n (s\<lparr>js_chan := w\<rparr>) = count_ok n s"
  by (simp add: count_ok_def js_simps)

lemma count_ok_task:
  assumes "count_ok n s" "i < n" "(js_tasks s ! i = Js_unspawned) = (t = Js_unspawned)"
  shows "count_ok n (s\<lparr>js_tasks := (js_tasks s)[i := t]\<rparr>)"
  using assms js_spawned_update [of i "js_tasks s" t] by (simp add: count_ok_def js_spawned_def js_simps)

lemma js_spawn_inv:
  assumes inv: "js_inv n s" and step: "js_spawn i s = Some s'"
  shows "js_inv n s'"
proof -
  let ?s = "s\<lparr>js_chan := js_chan s, js_tasks := (js_tasks s)[i := Js_running]\<rparr>"
  have i: "i < n" "js_tasks s ! i = Js_unspawned" "js_owner s = Js_idle" and s': "s' = ?s\<lparr>js_owner := Js_counting\<rparr>"
    using inv step by (auto simp: js_inv_def chan_ok_def js_spawn_def split: if_splits)
  have ok: "chan_ok n s" "count_ok n s" using inv by (simp_all add: js_inv_def)
  then have pc: "cw_pcs (js_chan s) ! Suc i = Ch_idle" "ch_inv (js_chan s)" using i by (auto simp: chan_ok_def task_pc_def)
  then have "chan_ok n ?s"
    by (intro chan_ok_task [OF ok(1) i(1), of _ Ch_idle])
      (use i pc in \<open>simp_all add: task_pc_def task_sent_def list_update_same_conv [THEN iffD2] ok(1)\<close>,
       metis list_update_id)
  then have "chan_ok n s'" unfolding s' using i(3) by (simp add: chan_ok_def js_simps own_pc_def held_def collecting_def)
  moreover have "count_ok n s'"
    using ok(2) i js_spawned_update [of i "js_tasks s" Js_running] unfolding s'
    by (simp add: count_ok_def js_spawned_def js_simps)
  ultimately show ?thesis by (simp add: js_inv_def)
qed

lemma js_produce_inv:
  assumes inv: "js_inv n s" and step: "js_produce i v s = Some s'"
  shows "js_inv n s'"
proof -
  have ok: "chan_ok n s" "count_ok n s" using inv by (simp_all add: js_inv_def)
  obtain w where i: "i < n" "js_tasks s ! i = Js_running" and w: "ch_world_step (Ch_send (Suc i) v) (js_chan s) = Some w"
    and s': "s' = s\<lparr>js_chan := w, js_tasks := (js_tasks s)[i := Js_sending v]\<rparr>"
    using ok(1) step by (auto simp: chan_ok_def js_produce_def split: if_splits)
  have w': "w = (js_chan s)\<lparr>cw_pcs := (cw_pcs (js_chan s))[Suc i := Send_closed v]\<rparr>" using w by (auto split: if_splits)
  have "ch_inv w" using ch_world_inv [OF _ w] ok(1) by (simp add: chan_ok_def)
  then have "chan_ok n s'"
    unfolding s' by (intro chan_ok_task [OF ok(1) i(1), of w "Send_closed v"]) (use i in \<open>simp_all add: w' task_pc_def task_sent_def\<close>)
  moreover have "count_ok n s'" unfolding s' using count_ok_task [OF ok(2) i(1), of "Js_sending v"] i(2)
    by (simp add: count_ok_def js_simps js_spawned_def)
  ultimately show ?thesis by (simp add: js_inv_def)
qed

lemma js_fail_inv:
  assumes inv: "js_inv n s" and step: "js_fail i s = Some s'"
  shows "js_inv n s'"
proof -
  have ok: "chan_ok n s" "count_ok n s" using inv by (simp_all add: js_inv_def)
  have i: "i < n" "js_tasks s ! i = Js_running" and s': "s' = s\<lparr>js_chan := js_chan s, js_tasks := (js_tasks s)[i := Js_threw]\<rparr>"
    using ok(1) step by (auto simp: chan_ok_def js_fail_def split: if_splits)
  have pc: "cw_pcs (js_chan s) ! Suc i = Ch_idle" "ch_inv (js_chan s)" using i ok(1) by (auto simp: chan_ok_def task_pc_def)
  then have "chan_ok n s'"
    unfolding s' by (intro chan_ok_task [OF ok(1) i(1), of _ Ch_idle])
      (use i pc in \<open>simp_all add: task_pc_def task_sent_def\<close>, metis list_update_id)
  moreover have "count_ok n s'" unfolding s' using count_ok_task [OF ok(2) i(1), of Js_threw] i(2) by simp
  ultimately show ?thesis by (simp add: js_inv_def)
qed

lemma js_send_inv:
  assumes inv: "js_inv n s" and step: "js_send i s = Some s'"
  shows "js_inv n s'"
proof -
  have ok: "chan_ok n s" "count_ok n s" using inv by (simp_all add: js_inv_def)
  have i0: "i < n" "length (js_tasks s) = n" using ok(1) step by (auto simp: chan_ok_def js_send_def split: if_splits)
  with step obtain v where i: "i < n" "js_tasks s ! i = Js_sending v" by (cases "js_tasks s ! i") (simp_all add: js_send_def)
  from step i i0 obtain w where w: "ch_world_step (Ch_task (Suc i)) (js_chan s) = Some w"
    and s': "s' = s\<lparr>js_chan := w, js_tasks := (js_tasks s)[i := if cw_pcs w ! Suc i = Ch_idle then Js_finished v else Js_sending v]\<rparr>"
    by (auto simp: js_send_def map_option_eq_Some simp del: ch_world_step.simps)
  let ?c = "js_chan s" and ?pc = "cw_pcs (js_chan s) ! Suc i"
  from w obtain pc r c where m: "Suc i < length (cw_pcs ?c)" "ch_step ?pc (cw_chan ?c) = Some (pc, r, c)"
    "cw_pcs w = (cw_pcs ?c)[Suc i := pc]" "cw_chan w = c"
    "cw_accepted w = cw_accepted (log_queue ?pc (cw_chan ?c) ?c)"
    "cw_delivered w = cw_delivered (log_queue ?pc (cw_chan ?c) ?c)"
    by (rule ch_task_move)
  have chi: "ch_inv ?c" "ch_inv w" using ch_world_inv [OF _ w] ok(1) by (simp_all add: chan_ok_def)
  have pc: "send_pc v ?pc" using ok(1) i by (auto simp: chan_ok_def task_pc_def)
  note mv = send_moves [OF pc m(2)]
  have room: "length (ch_queue (cw_chan ?c)) < channel_capacity" if "?pc = Send_push v"
  proof -
    have "will_push ?pc \<le> sum_list (map will_push (cw_pcs ?c))" using m(1) by (intro member_le_sum_list) auto
    with that chi(1) show ?thesis by (simp add: ch_inv_def)
  qed
  have acc: "cw_accepted w = cw_accepted ?c @ (if ?pc = Send_push v then [v] else [])"
    using room pc unfolding m(5) log_queue_simps by (cases ?pc) auto
  have del: "cw_delivered w = cw_delivered ?c" using pc unfolding m(6) log_queue_simps by (cases ?pc) auto
  have live: "\<not> stopping ?pc" if "\<not> ch_closed (cw_chan ?c)" using chi(1) m(1) that by (auto simp: ch_inv_def)
  let ?t = "if pc = Ch_idle then Js_finished v else Js_sending v"
  have t: "(if cw_pcs w ! Suc i = Ch_idle then Js_finished v else Js_sending v) = ?t" using m(1,3) by simp
  have sent: "task_sent (js_tasks s ! i) ?pc = (if ?pc = Send_count then {#v#} else {#})" by (simp add: i(2) task_sent_def)
  have sent': "task_sent ?t pc = (if pc = Ch_idle \<or> pc = Send_count then {#v#} else {#})" by (simp add: task_sent_def)
  have "chan_ok n s'"
    unfolding s' t
  proof (rule chan_ok_task [OF ok(1) i(1) chi(2) m(3)])
    show "task_pc ?t pc" using mv(1) by (auto simp: task_pc_def)
    show "ch_closed (cw_chan w) = ch_closed (cw_chan ?c)" using mv(2) m(4) by simp
    show "cw_delivered w = cw_delivered ?c" by (rule del)
    have no: "pc = Send_count \<Longrightarrow> ?pc \<noteq> Send_count" using mv(4,5) by auto
    show "mset (cw_accepted w) + task_sent (js_tasks s ! i) ?pc \<subseteq># mset (cw_accepted ?c) + task_sent ?t pc"
      unfolding acc sent sent' using mv(4,5) no by auto
    show "mset (cw_accepted w) + task_sent (js_tasks s ! i) ?pc = mset (cw_accepted ?c) + task_sent ?t pc"
      if "\<not> ch_closed (cw_chan w)"
      unfolding acc sent sent' using mv(2,3,4,5) no live that m(4) by auto
  qed
  moreover have "count_ok n s'"
    unfolding s' t using count_ok_task [OF ok(2) i(1), of ?t] i(2) by (simp add: count_ok_def js_simps js_spawned_def split: if_splits)
  ultimately show ?thesis by (simp add: js_inv_def)
qed

text \<open>The owner goes on, with or without a step on the channel.\<close>

lemma chan_ok_own:
  assumes ok: "chan_ok n s" and w: "ch_inv w" and s': "js_tasks s' = js_tasks s" "js_chan s' = w"
    and pcs: "cw_pcs w = (cw_pcs (js_chan s))[0 := pc]" and own: "own_pc (js_owner s') pc"
    and acc: "cw_accepted w = cw_accepted (js_chan s)"
    and closed: "collecting (js_owner s') \<Longrightarrow> \<not> ch_closed (cw_chan w)" "ch_closed (cw_chan (js_chan s)) \<Longrightarrow> ch_closed (cw_chan w)"
    and del: "cw_delivered w = js_answered s' @ held (js_owner s') pc"
  shows "chan_ok n s'"
proof -
  have "js_sent s' = js_sent s" by (simp add: js_sent_def s' pcs)
  moreover have "cw_pcs w ! 0 = pc" using ok pcs by (simp add: chan_ok_def)
  ultimately show ?thesis using ok w own acc closed del by (auto simp: chan_ok_def s' pcs)
qed

lemma own_still:
  assumes "chan_ok n s" "own_pc (js_owner s) Ch_idle" "\<And>pc. own_pc (js_owner s) pc \<Longrightarrow> pc = Ch_idle"
  shows "cw_pcs (js_chan s) = (cw_pcs (js_chan s))[0 := Ch_idle]"
  using assms by (metis chan_ok_def list_update_id)

lemma count_ok_own:
  assumes "count_ok n s" "js_tasks s' = js_tasks s" "js_task_count s' = js_task_count s" "js_answers s' = js_answers s"
    "js_owner s \<noteq> Js_counting" "js_owner s' \<noteq> Js_counting"
    "js_owner s' = Js_receiving \<or> (\<exists>v. js_owner s' = Js_subtract v) \<Longrightarrow> js_task_count s \<noteq> 0"
  shows "count_ok n s'"
  using assms by (auto simp: count_ok_def js_spawned_def js_answered_def)

lemma js_counted_inv:
  assumes inv: "js_inv n s" and step: "js_counted s = Some s'"
  shows "js_inv n s'"
proof -
  have ok: "chan_ok n s" "count_ok n s" using inv by (simp_all add: js_inv_def)
  have own: "js_owner s = Js_counting" and s': "s' = s\<lparr>js_task_count := js_task_count s + 1, js_owner := Js_idle\<rparr>"
    using step by (simp_all add: js_counted_def split: if_splits)
  have "unat (js_task_count s) + 1 < 2 ^ 64"
    using ok(2) own js_spawned_le [of s] by (simp add: count_ok_def)
  then have "unat (js_task_count s + 1) = unat (js_task_count s) + 1" by (simp add: unat_word_ariths)
  then have "count_ok n s'" using ok(2) own unfolding s' by (simp add: count_ok_def js_simps)
  moreover have "chan_ok n s'"
    by (rule chan_ok_own [OF ok(1) _ _ _ own_still [OF ok(1)]])
      (use ok(1) own in \<open>auto simp: s' own_pc_def chan_ok_def held_def collecting_def js_simps\<close>)
  ultimately show ?thesis by (simp add: js_inv_def)
qed

lemma js_await_inv:
  assumes inv: "js_inv n s" and step: "js_await s = Some s'"
  shows "js_inv n s'"
proof -
  have ok: "chan_ok n s" "count_ok n s" using inv by (simp_all add: js_inv_def)
  have own: "js_owner s = Js_idle" using step by (simp add: js_await_def split: if_splits)
  then have cn: "\<not> ch_closed (cw_chan (js_chan s))" "cw_pcs (js_chan s) ! 0 = Ch_idle" "cw_delivered (js_chan s) = js_answered s"
    using ok(1) by (simp_all add: chan_ok_def collecting_def own_pc_def held_def)
  show ?thesis
  proof (cases "js_task_count s = 0")
    case True
    then have s': "s' = s\<lparr>js_answers := js_answers s @ [(None, js_outstanding s)]\<rparr>" using step own by (simp add: js_await_def)
    have "js_outstanding s = 0" using ok(2) own True by (simp add: count_ok_def js_outstanding_def)
    then have "count_ok n s'" using ok(2) own unfolding s' by (simp add: count_ok_def js_simps)
    moreover have "chan_ok n s'"
      by (rule chan_ok_own [OF ok(1) _ _ _ own_still [OF ok(1)]])
        (use ok(1) own cn in \<open>auto simp: s' own_pc_def chan_ok_def held_def js_simps\<close>)
    ultimately show ?thesis by (simp add: js_inv_def)
  next
    case False
    then obtain w where w: "ch_world_step (Ch_recv 0) (js_chan s) = Some w" and s': "s' = s\<lparr>js_chan := w, js_owner := Js_receiving\<rparr>"
      using step own by (auto simp: js_await_def map_option_eq_Some simp del: ch_world_step.simps)
    have w': "w = (js_chan s)\<lparr>cw_pcs := (cw_pcs (js_chan s))[0 := Recv_count]\<rparr>" using w by (auto split: if_splits)
    have "count_ok n s'" by (rule count_ok_own [OF ok(2)]) (use own False in \<open>simp_all add: s'\<close>)
    moreover have "chan_ok n s'"
      by (rule chan_ok_own [OF ok(1) ch_world_inv [OF _ w]])
        (use ok(1) own cn in \<open>auto simp: s' w' own_pc_def chan_ok_def held_def js_simps\<close>)
    ultimately show ?thesis by (simp add: js_inv_def)
  qed
qed

lemma js_subtract_inv:
  assumes inv: "js_inv n s" and step: "js_subtract s = Some s'"
  shows "js_inv n s'"
proof -
  have ok: "chan_ok n s" "count_ok n s" using inv by (simp_all add: js_inv_def)
  obtain v where own: "js_owner s = Js_subtract v"
    using step by (cases "js_owner s") (simp_all add: js_subtract_def)
  with step have s': "s' = s\<lparr>js_task_count := js_task_count s - 1, js_owner := Js_idle, js_answers := js_answers s @ [(Some v, js_outstanding s)]\<rparr>"
    by (simp add: js_subtract_def)
  have "js_task_count s \<noteq> 0" using ok(2) own by (simp add: count_ok_def)
  then have "0 < unat (js_task_count s)" "unat (js_task_count s - 1) = unat (js_task_count s) - 1"
    by (simp_all add: unat_gt_0 unat_minus_one)
  then have "count_ok n s'" using ok(2) own unfolding s' by (simp add: count_ok_def js_simps)
  moreover have "chan_ok n s'"
    by (rule chan_ok_own [OF ok(1) _ _ _ own_still [OF ok(1)]])
      (use ok(1) own in \<open>auto simp: s' own_pc_def chan_ok_def held_def collecting_def js_simps\<close>)
  ultimately show ?thesis by (simp add: js_inv_def)
qed

lemma js_join_all_inv:
  assumes inv: "js_inv n s" and step: "js_join_all s = Some s'"
  shows "js_inv n s'"
proof -
  have ok: "chan_ok n s" "count_ok n s" using inv by (simp_all add: js_inv_def)
  obtain w where own: "js_owner s = Js_idle" and w: "ch_world_step (Ch_stop 0) (js_chan s) = Some w"
    and s': "s' = s\<lparr>js_chan := w, js_owner := Js_stopping\<rparr>"
    using step by (auto simp: js_join_all_def map_option_eq_Some simp del: ch_world_step.simps split: if_splits)
  have w': "w = (js_chan s)\<lparr>cw_pcs := (cw_pcs (js_chan s))[0 := Stop_closed]\<rparr>" using w by (auto split: if_splits)
  have "count_ok n s'" by (rule count_ok_own [OF ok(2)]) (use own in \<open>simp_all add: s'\<close>)
  moreover have "chan_ok n s'"
    by (rule chan_ok_own [OF ok(1) ch_world_inv [OF _ w]])
      (use ok(1) own in \<open>auto simp: s' w' own_pc_def chan_ok_def held_def collecting_def js_simps\<close>)
  ultimately show ?thesis by (simp add: js_inv_def)
qed

text \<open>A call of \<open>recv\<close> of the owner that drains the channel begins.\<close>

lemma js_again_inv:
  assumes ok: "chan_ok n s" "count_ok n s" and w: "ch_inv w"
    and pcs: "cw_pcs w = (cw_pcs (js_chan s))[0 := Ch_idle]" and own: "\<not> collecting (js_owner s)"
    and acc: "cw_accepted w = cw_accepted (js_chan s)"
    and closed: "ch_closed (cw_chan (js_chan s)) \<Longrightarrow> ch_closed (cw_chan w)"
    and del: "cw_delivered w = js_answered s @ vs" and step: "js_again vs (s\<lparr>js_chan := w\<rparr>) = Some s'"
  shows "js_inv n s'"
proof -
  obtain v where v: "ch_world_step (Ch_recv 0) w = Some v" and s': "s' = s\<lparr>js_chan := v, js_owner := Js_draining vs\<rparr>"
    using step by (auto simp: js_again_def map_option_eq_Some simp del: ch_world_step.simps)
  have v': "v = w\<lparr>cw_pcs := (cw_pcs w)[0 := Recv_count]\<rparr>" using v by (auto split: if_splits)
  have "count_ok n s'" by (rule count_ok_own [OF ok(2)]) (use own in \<open>auto simp: s' collecting_def\<close>)
  moreover have "chan_ok n s'"
    by (rule chan_ok_own [OF ok(1) ch_world_inv [OF w v]])
      (use acc closed del in \<open>auto simp: s' v' pcs own_pc_def held_def collecting_def js_simps\<close>)
  ultimately show ?thesis by (simp add: js_inv_def)
qed

lemma own_move:
  assumes ok: "chan_ok n s" and w: "ch_world_step (Ch_task 0) (js_chan s) = Some w"
  obtains pc r c where "ch_step (cw_pcs (js_chan s) ! 0) (cw_chan (js_chan s)) = Some (pc, r, c)"
    "cw_pcs w = (cw_pcs (js_chan s))[0 := pc]" "cw_chan w = c" "own_result w = r" "ch_inv w"
    "cw_accepted w = cw_accepted (log_queue (cw_pcs (js_chan s) ! 0) (cw_chan (js_chan s)) (js_chan s))"
    "cw_delivered w = cw_delivered (log_queue (cw_pcs (js_chan s) ! 0) (cw_chan (js_chan s)) (js_chan s))"
    "r = Ch_running \<or> (0, r) \<in> set (cw_results w)"
proof -
  let ?c = "js_chan s"
  from w obtain pc r c where m: "0 < length (cw_pcs ?c)" "ch_step (cw_pcs ?c ! 0) (cw_chan ?c) = Some (pc, r, c)"
    "cw_pcs w = (cw_pcs ?c)[0 := pc]" "cw_chan w = c"
    "cw_results w = cw_results ?c @ (if r = Ch_running then [] else [(0, r)])"
    "cw_accepted w = cw_accepted (log_queue (cw_pcs ?c ! 0) (cw_chan ?c) ?c)"
    "cw_delivered w = cw_delivered (log_queue (cw_pcs ?c ! 0) (cw_chan ?c) ?c)"
    by (rule ch_task_move)
  have "own_result w = r" using m(1,3,5) ch_step_done [OF m(2)] by (simp add: own_result_def)
  moreover have "ch_inv w" using ch_world_inv [OF _ w] ok by (simp add: chan_ok_def)
  ultimately show thesis using that m by simp
qed

lemma own_recv:
  assumes pc: "recv_pc (cw_pcs (js_chan s) ! 0)"
  shows "cw_accepted (log_queue (cw_pcs (js_chan s) ! 0) c (js_chan s)) = cw_accepted (js_chan s)"
    "cw_delivered (log_queue (cw_pcs (js_chan s) ! 0) c (js_chan s)) =
      cw_delivered (js_chan s) @ (case cw_pcs (js_chan s) ! 0 of Recv_pop \<Rightarrow> take 1 (ch_queue c) | _ \<Rightarrow> [])"
  using pc unfolding log_queue_simps by (cases "cw_pcs (js_chan s) ! 0"; simp)+

lemma owner_same: "js_owner s = own \<Longrightarrow> s\<lparr>js_chan := w, js_owner := own\<rparr> = s\<lparr>js_chan := w\<rparr>"
  by (cases s) simp

lemma js_receive_inv:
  assumes inv: "js_inv n s" and own: "js_owner s = Js_receiving" and step: "js_own s = Some s'"
  shows "js_inv n s'"
proof -
  have ok: "chan_ok n s" "count_ok n s" using inv by (simp_all add: js_inv_def)
  from step obtain w where w: "ch_world_step (Ch_task 0) (js_chan s) = Some w" "js_returned (own_result w) (s\<lparr>js_chan := w\<rparr>) = Some s'"
    by (auto simp: js_own_def simp del: ch_world_step.simps split: option.splits)
  let ?c = "js_chan s"
  from ok(1) w(1) obtain pc r c where m: "ch_step (cw_pcs ?c ! 0) (cw_chan ?c) = Some (pc, r, c)"
    "cw_pcs w = (cw_pcs ?c)[0 := pc]" "cw_chan w = c" "own_result w = r" "ch_inv w"
    "cw_accepted w = cw_accepted (log_queue (cw_pcs ?c ! 0) (cw_chan ?c) ?c)"
    "cw_delivered w = cw_delivered (log_queue (cw_pcs ?c ! 0) (cw_chan ?c) ?c)"
    "r = Ch_running \<or> (0, r) \<in> set (cw_results w)" by (rule own_move)
  have c: "\<not> ch_closed (cw_chan ?c)" "recv_pc (cw_pcs ?c ! 0)" "cw_delivered ?c = js_answered s @ taken (cw_pcs ?c ! 0)"
    using ok(1) own by (simp_all add: chan_ok_def collecting_def own_pc_def held_def)
  note mv = recv_moves [OF c(2) m(1)] and log = own_recv [OF c(2), of "cw_chan ?c"]
  have op: "\<not> ch_closed (cw_chan w)" using mv(2) m(3) c(1) by simp
  then have "r \<noteq> Received None" using m(5,8) by (auto simp: ch_inv_def list_all_iff)
  then consider "r = Ch_running" "recv_pc pc" | v where "r = Received (Some v)" "pc = Ch_idle"
    using mv(1) by (metis not_Some_eq)
  then obtain own' where s': "s' = s\<lparr>js_chan := w, js_owner := own'\<rparr>" and own': "own_pc own' pc" "collecting own'"
    "held own' pc = taken pc @ result_value r" "own' = Js_receiving \<or> (\<exists>v. own' = Js_subtract v)"
  proof cases
    case 1
    then have "s' = s\<lparr>js_chan := w, js_owner := Js_receiving\<rparr>" 
      using w(2) m(4) unfolding owner_same [OF own] by (simp add: js_returned_def)
    with 1 that show thesis by (simp add: own_pc_def collecting_def held_def)
  next
    case (2 v)
    then have "s' = s\<lparr>js_chan := w, js_owner := Js_subtract v\<rparr>" using w(2) m(4) own by (simp add: js_returned_def)
    with 2 that show thesis by (simp add: own_pc_def collecting_def held_def)
  qed
  have "chan_ok n s'"
    by (rule chan_ok_own [OF ok(1) m(5) _ _ m(2)])
      (use own' c op mv(3) m(6,7) log in \<open>simp_all add: s' js_simps\<close>)
  moreover have "js_task_count s \<noteq> 0" using ok(2) own by (simp add: count_ok_def)
  then have "count_ok n s'" by (intro count_ok_own [OF ok(2)]) (use own own'(4) in \<open>auto simp: s'\<close>)
  ultimately show ?thesis by (simp add: js_inv_def)
qed

lemma js_drain_inv:
  assumes inv: "js_inv n s" and own: "js_owner s = Js_draining vs" and step: "js_own s = Some s'"
  shows "js_inv n s'"
proof -
  have ok: "chan_ok n s" "count_ok n s" using inv by (simp_all add: js_inv_def)
  from step obtain w where w: "ch_world_step (Ch_task 0) (js_chan s) = Some w" "js_returned (own_result w) (s\<lparr>js_chan := w\<rparr>) = Some s'"
    by (auto simp: js_own_def simp del: ch_world_step.simps split: option.splits)
  let ?c = "js_chan s"
  from ok(1) w(1) obtain pc r c where m: "ch_step (cw_pcs ?c ! 0) (cw_chan ?c) = Some (pc, r, c)"
    "cw_pcs w = (cw_pcs ?c)[0 := pc]" "cw_chan w = c" "own_result w = r" "ch_inv w"
    "cw_accepted w = cw_accepted (log_queue (cw_pcs ?c ! 0) (cw_chan ?c) ?c)"
    "cw_delivered w = cw_delivered (log_queue (cw_pcs ?c ! 0) (cw_chan ?c) ?c)"
    "r = Ch_running \<or> (0, r) \<in> set (cw_results w)" by (rule own_move)
  have c: "recv_pc (cw_pcs ?c ! 0)" "cw_delivered ?c = js_answered s @ vs @ taken (cw_pcs ?c ! 0)"
    using ok(1) own by (simp_all add: chan_ok_def own_pc_def held_def)
  note mv = recv_moves [OF c(1) m(1)] and log = own_recv [OF c(1), of "cw_chan ?c"]
  have acc: "cw_accepted w = cw_accepted ?c" using m(6) log(1) by simp
  have del: "cw_delivered w = js_answered s @ vs @ taken pc @ result_value r" using m(7) log(2) c(2) mv(3) by simp
  have cl: "ch_closed (cw_chan ?c) \<Longrightarrow> ch_closed (cw_chan w)" using mv(2) m(3) by simp
  consider "r = Ch_running" "recv_pc pc" | "r = Received None" "pc = Ch_idle" | v where "r = Received (Some v)" "pc = Ch_idle"
    using mv(1) by (metis not_Some_eq)
  then show ?thesis
  proof cases
    case 1
    then have s': "s' = s\<lparr>js_chan := w\<rparr>" using w(2) m(4) by (simp add: js_returned_def)
    have "chan_ok n s'"
      by (rule chan_ok_own [OF ok(1) m(5) _ _ m(2)]) (use 1 own acc del cl in \<open>auto simp: s' js_simps own_pc_def held_def collecting_def\<close>)
    with ok(2) show ?thesis by (simp add: js_inv_def s')
  next
    case 2
    then have s': "s' = s\<lparr>js_chan := w, js_owner := Js_joined vs\<rparr>" using w(2) m(4) own by (simp add: js_returned_def)
    have "chan_ok n s'"
      by (rule chan_ok_own [OF ok(1) m(5) _ _ m(2)]) (use 2 own acc del cl in \<open>auto simp: s' js_simps own_pc_def held_def collecting_def\<close>)
    moreover have "count_ok n s'" by (rule count_ok_own [OF ok(2)]) (use own in \<open>simp_all add: s'\<close>)
    ultimately show ?thesis by (simp add: js_inv_def)
  next
    case (3 v)
    then have "js_again (vs @ [v]) (s\<lparr>js_chan := w\<rparr>) = Some s'" using w(2) m(4) own by (simp add: js_returned_def)
    then show ?thesis
      by (intro js_again_inv [OF ok m(5) _ _ acc cl]) (use 3 m(2) own del in \<open>simp_all add: collecting_def\<close>)
  qed
qed

lemma js_stop_inv:
  assumes inv: "js_inv n s" and own: "js_owner s = Js_stopping" and step: "js_own s = Some s'"
  shows "js_inv n s'"
proof -
  have ok: "chan_ok n s" "count_ok n s" using inv by (simp_all add: js_inv_def)
  from step obtain w where w: "ch_world_step (Ch_task 0) (js_chan s) = Some w" "js_returned (own_result w) (s\<lparr>js_chan := w\<rparr>) = Some s'"
    by (auto simp: js_own_def simp del: ch_world_step.simps split: option.splits)
  let ?c = "js_chan s"
  from ok(1) w(1) obtain pc r c where m: "ch_step (cw_pcs ?c ! 0) (cw_chan ?c) = Some (pc, r, c)"
    "cw_pcs w = (cw_pcs ?c)[0 := pc]" "cw_chan w = c" "own_result w = r" "ch_inv w"
    "cw_accepted w = cw_accepted (log_queue (cw_pcs ?c ! 0) (cw_chan ?c) ?c)"
    "cw_delivered w = cw_delivered (log_queue (cw_pcs ?c ! 0) (cw_chan ?c) ?c)"
    "r = Ch_running \<or> (0, r) \<in> set (cw_results w)" by (rule own_move)
  have c: "stop_pc (cw_pcs ?c ! 0)" "cw_delivered ?c = js_answered s"
    using ok(1) own by (simp_all add: chan_ok_def own_pc_def held_def)
  note mv = stop_moves [OF c(1) m(1)]
  have log: "cw_accepted w = cw_accepted ?c" "cw_delivered w = cw_delivered ?c"
    using c(1) unfolding m(6,7) log_queue_simps by (cases "cw_pcs ?c ! 0"; simp)+
  have cl: "ch_closed (cw_chan ?c) \<Longrightarrow> ch_closed (cw_chan w)" using mv(2) m(3) by simp
  from mv(1) show ?thesis
  proof
    assume 1: "stop_pc pc \<and> r = Ch_running"
    then have s': "s' = s\<lparr>js_chan := w\<rparr>" using w(2) m(4) by (simp add: js_returned_def)
    have "chan_ok n s'"
      by (rule chan_ok_own [OF ok(1) m(5) _ _ m(2)]) (use 1 own log c(2) cl in \<open>auto simp: s' js_simps own_pc_def held_def collecting_def\<close>)
    with ok(2) show ?thesis by (simp add: js_inv_def s')
  next
    assume 2: "pc = Ch_idle \<and> r = Stopped"
    then have "js_again [] (s\<lparr>js_chan := w\<rparr>) = Some s'" using w(2) m(4) own by (simp add: js_returned_def)
    then show ?thesis
      by (intro js_again_inv [OF ok m(5) _ _ log(1) cl]) (use 2 m(2) own log c(2) in \<open>simp_all add: collecting_def\<close>)
  qed
qed

lemma js_own_inv:
  assumes inv: "js_inv n s" and step: "js_own s = Some s'"
  shows "js_inv n s'"
proof (cases "own_pc (js_owner s) Ch_idle")
  case True
  then have "cw_pcs (js_chan s) ! 0 = Ch_idle"
    using inv by (cases "js_owner s") (simp_all add: js_inv_def chan_ok_def own_pc_def)
  with step show ?thesis by (auto simp: js_own_def ch_step_simps split: option.splits if_splits)
next
  case False
  then consider "js_owner s = Js_receiving" | vs where "js_owner s = Js_draining vs" | "js_owner s = Js_stopping"
    by (cases "js_owner s") (auto simp: own_pc_def)
  then show ?thesis using js_receive_inv [OF inv _ step] js_drain_inv [OF inv _ step] js_stop_inv [OF inv _ step] by cases
qed

lemma js_step_inv [asco_inv]:
  assumes "js_inv n s" "js_step a s = Some s'"
  shows "js_inv n s'"
  using assms(2)
  by (cases a) (auto elim: js_spawn_inv [OF assms(1)] js_counted_inv [OF assms(1)] js_produce_inv [OF assms(1)]
      js_fail_inv [OF assms(1)] js_send_inv [OF assms(1)] js_await_inv [OF assms(1)] js_own_inv [OF assms(1)]
      js_subtract_inv [OF assms(1)] js_join_all_inv [OF assms(1)])

interpretation join_sets: invariant_system js_step "js_inv n" for n
  by unfold_locales (rule js_step_inv)

lemma ch_init_simps:
  "cw_pcs (ch_init n) = replicate n Ch_idle" "cw_accepted (ch_init n) = []" "cw_delivered (ch_init n) = []"
  "cw_chan (ch_init n) = channel_new" "ch_closed channel_new = False"
  by (simp_all add: ch_init_def channel_new_def)

lemma js_new_inv: "n < 2 ^ 64 \<Longrightarrow> js_inv n (js_new n)"
  by (simp add: js_inv_def chan_ok_def count_ok_def js_new_def ch_inv_init ch_init_simps task_pc_def own_pc_def held_def
      js_answered_def js_spawned_def js_sent_def task_sent_def collecting_def nth_Cons')

section \<open>What the set promises\<close>

text \<open>What the owner has got, by awaits and by \<open>join_all\<close>, and what the tasks have computed.\<close>

definition js_received :: "join_set \<Rightarrow> nat list" where
  "js_received s = js_answered s @ (case js_owner s of Js_draining vs \<Rightarrow> vs | Js_joined vs \<Rightarrow> vs | _ \<Rightarrow> [])"

definition js_produced :: "join_set \<Rightarrow> nat list" where
  "js_produced s = concat (map task_value (js_tasks s))"

lemma sum_subset:
  fixes f g :: "nat \<Rightarrow> 'a multiset"
  shows "(\<And>i. i < n \<Longrightarrow> f i \<subseteq># g i) \<Longrightarrow> sum f {..<n} \<subseteq># sum g {..<n}"
  by (induction n) (simp_all add: subset_mset.add_mono)

lemma mset_concat_sum: "mset (concat (map f ts)) = (\<Sum>i<length ts. mset (f (ts ! i)))"
proof (induction ts rule: rev_induct)
  case (snoc t ts)
  then show ?case by (simp add: nth_append)
qed simp

lemma js_sent_produced: "js_sent s \<subseteq># mset (js_produced s)"
  unfolding js_sent_def js_produced_def mset_concat_sum
  by (rule sum_subset) (simp add: task_sent_def task_value_def split: js_task.split)

lemma js_received_delivered: "chan_ok n s \<Longrightarrow> mset (js_received s) \<subseteq># mset (cw_delivered (js_chan s))"
  by (auto simp: chan_ok_def js_received_def held_def split: js_owner.splits)

lemma js_received_produced:
  assumes "js_inv n s"
  shows "mset (js_received s) \<subseteq># mset (js_produced s)"
proof -
  have ok: "chan_ok n s" using assms by (simp add: js_inv_def)
  then have "ch_inv (js_chan s)" and sent: "mset (cw_accepted (js_chan s)) \<subseteq># js_sent s" by (simp_all add: chan_ok_def)
  then have "mset (cw_delivered (js_chan s)) \<subseteq># mset (cw_accepted (js_chan s))" by (simp add: ch_inv_def)
  with sent show ?thesis
    using js_received_delivered [OF ok] js_sent_produced [of s] by (meson subset_mset.order_trans)
qed

text \<open>As long as the channel is open, a receiver that waits in vain is the sign of a task that goes on.\<close>

lemma recv_blocked: "recv_pc pc \<Longrightarrow> ch_step pc c = None \<Longrightarrow> pc = Recv_acquire \<and> ch_count c = 0"
  by (cases pc) (auto simp: ch_step_simps split: if_splits)

lemma send_blocked: "send_pc v pc \<Longrightarrow> ch_step pc c = None \<Longrightarrow> pc = Send_acquire v \<and> ch_backpress c = 0"
  by (cases pc) (auto simp: ch_step_simps split: if_splits)

lemma value_held: "holds_value pc \<noteq> 0 \<Longrightarrow> ch_step pc c \<noteq> None"
  by (cases pc) (simp_all add: ch_step_simps)

lemma place_held: "holds_place pc \<noteq> 0 \<Longrightarrow> ch_step pc c \<noteq> None"
  by (cases pc) (simp_all add: ch_step_simps)

lemma sum_list_pos: "(0 :: nat) < sum_list (map f xs) \<Longrightarrow> \<exists>i<length xs. 0 < f (xs ! i)"
  by (metis (mono_tags, lifting) gr0I in_set_conv_nth length_map nth_map sum_list_eq_0_iff verit_comp_simplify1(1))

lemma js_own_enabled:
  assumes inv: "js_inv n s" and own: "js_owner s = Js_receiving"
    and step: "ch_step (cw_pcs (js_chan s) ! 0) (cw_chan (js_chan s)) \<noteq> None"
  shows "js_step Js_own s \<noteq> None"
proof -
  have ok: "chan_ok n s" using inv by (simp add: js_inv_def)
  then have len: "0 < length (cw_pcs (js_chan s))" by (simp add: chan_ok_def)
  then obtain w where w: "ch_world_step (Ch_task 0) (js_chan s) = Some w" using step by (auto split: option.splits)
  from ok w obtain pc r c where m: "ch_step (cw_pcs (js_chan s) ! 0) (cw_chan (js_chan s)) = Some (pc, r, c)" "own_result w = r"
    by (rule own_move)
  have pc: "recv_pc (cw_pcs (js_chan s) ! 0)" using ok own by (simp add: chan_ok_def own_pc_def)
  have "r = Ch_running \<or> (\<exists>a. r = Received a)" using recv_moves(1) [OF pc m(1)] by blast
  then have "js_returned r (s\<lparr>js_chan := w\<rparr>) \<noteq> None" using own by (auto simp: js_returned_def split: option.split)
  then show ?thesis using w m(2) by (simp add: js_own_def del: ch_world_step.simps)
qed

lemma js_send_enabled:
  assumes inv: "js_inv n s" and i: "i < n"
    and step: "ch_step (cw_pcs (js_chan s) ! Suc i) (cw_chan (js_chan s)) \<noteq> None"
  shows "js_step (Js_send i) s \<noteq> None"
proof -
  have ok: "chan_ok n s" using inv by (simp add: js_inv_def)
  then have t: "task_pc (js_tasks s ! i) (cw_pcs (js_chan s) ! Suc i)" "i < length (js_tasks s)" "Suc i < length (cw_pcs (js_chan s))"
    using i by (simp_all add: chan_ok_def)
  have "cw_pcs (js_chan s) ! Suc i \<noteq> Ch_idle" using step by (auto simp: ch_step_simps)
  then obtain v where "js_tasks s ! i = Js_sending v" using t(1) by (cases "js_tasks s ! i") (simp_all add: task_pc_def)
  then show ?thesis using t(2,3) step by (auto simp: js_send_def)
qed

lemma some_place:
  assumes inv: "js_inv n s" and own: "js_owner s = Js_receiving" and j: "j < Suc n"
    and step: "ch_step (cw_pcs (js_chan s) ! j) (cw_chan (js_chan s)) \<noteq> None"
  shows "\<exists>a. js_step a s \<noteq> None"
proof (cases j)
  case 0
  with js_own_enabled [OF inv own] step show ?thesis by blast
next
  case (Suc i)
  with js_send_enabled [OF inv, of i] step j show ?thesis by blast
qed

lemma js_receiving_goes_on:
  assumes inv: "js_inv n s" and own: "js_owner s = Js_receiving" and all: "Js_running \<notin> set (js_tasks s)" "Js_threw \<notin> set (js_tasks s)"
  shows "\<exists>a. js_step a s \<noteq> None"
proof (rule ccontr)
  assume "\<not> ?thesis"
  then have stuck: "ch_step (cw_pcs (js_chan s) ! j) (cw_chan (js_chan s)) = None" if "j < Suc n" for j
    using some_place [OF inv own that] by blast
  have ok: "chan_ok n s" "count_ok n s" using inv by (simp_all add: js_inv_def)
  let ?c = "cw_chan (js_chan s)" and ?pcs = "cw_pcs (js_chan s)"
  have len: "length ?pcs = Suc n" "length (js_tasks s) = n" using ok(1) by (simp_all add: chan_ok_def)
  have op: "\<not> ch_closed ?c" and ci: "ch_inv (js_chan s)" and pc: "recv_pc (?pcs ! 0)"
    using ok(1) own by (simp_all add: chan_ok_def collecting_def own_pc_def)
  have bal: "length (ch_queue ?c) + sum_list (map holds_place ?pcs) + ch_backpress ?c = channel_capacity"
    "ch_count ?c + sum_list (map holds_value ?pcs) = length (ch_queue ?c)"
    using ci op by (simp_all add: ch_inv_def)
  have zero: "sum_list (map holds_value ?pcs) = 0" "sum_list (map holds_place ?pcs) = 0"
    using sum_list_pos [of holds_value ?pcs] sum_list_pos [of holds_place ?pcs] stuck value_held place_held len(1)
    by (metis gr0I less_numeral_extra(3))+
  have "?pcs ! 0 = Recv_acquire" "ch_count ?c = 0" using recv_blocked [OF pc stuck] by simp_all
  then have q: "ch_queue ?c = []" using bal(2) zero(1) by simp
  then have bp: "0 < ch_backpress ?c" using bal(1) zero(2) by (simp add: channel_capacity_def)
  have ended: "js_tasks s ! i = Js_unspawned \<or> (\<exists>v. js_tasks s ! i = Js_finished v)" if i: "i < n" for i
  proof (cases "js_tasks s ! i")
    case (Js_sending v)
    then have "send_pc v (?pcs ! Suc i)" using ok(1) i by (auto simp: chan_ok_def task_pc_def)
    from send_blocked [OF this stuck] i bp show ?thesis by simp
  next
    case Js_running
    with all(1) i len(2) nth_mem [of i "js_tasks s"] show ?thesis by simp
  next
    case Js_threw
    with all(2) i len(2) nth_mem [of i "js_tasks s"] show ?thesis by simp
  qed simp_all
  have "size (js_sent s) = js_spawned s"
  proof -
    have "size (js_sent s) = (\<Sum>i<n. size (task_sent (js_tasks s ! i) (?pcs ! Suc i)))"
      by (simp add: js_sent_def len(2))
    also have "\<dots> = (\<Sum>i<n. of_bool (js_tasks s ! i \<noteq> Js_unspawned))"
    proof (intro sum.cong refl)
      fix i assume "i \<in> {..<n}"
      then show "size (task_sent (js_tasks s ! i) (?pcs ! Suc i)) = of_bool (js_tasks s ! i \<noteq> Js_unspawned)"
        using ended [of i] by (auto simp: task_sent_def)
    qed
    also have "\<dots> = js_spawned s"
      by (simp add: js_spawned_def length_filter_conv_card len(2) of_bool_def sum.If_cases Int_def lessThan_def)
    finally show ?thesis .
  qed
  moreover have "mset (cw_accepted (js_chan s)) = js_sent s" "cw_accepted (js_chan s) = js_answered s"
    using ok(1) op own ci q \<open>?pcs ! 0 = Recv_acquire\<close> by (auto simp: chan_ok_def ch_inv_def held_def)
  ultimately have "length (js_answered s) = js_spawned s" by (metis size_mset)
  then have "js_task_count s = 0" using ok(2) own by (simp add: count_ok_def unat_eq_0)
  then show False using ok(2) own by (simp add: count_ok_def)
qed


text \<open>Two tasks, one of which is received, and the answer that there is nothing more after the second.\<close>

definition js_example :: "js_action list" where
  "js_example = [Js_spawn 0, Js_counted, Js_await, Js_own, Js_own, Js_produce 0 7] @ replicate 5 (Js_send 0) @ replicate 5 Js_own @
     [Js_subtracted, Js_await]"

lemmas js_eval = js_example_def js_new_def js_spawn_def js_counted_def js_await_def js_own_def js_returned_def own_result_def
  js_produce_def js_send_def js_subtract_def js_outstanding_def js_spawned_def js_answered_def ch_init_def channel_new_def
  ch_idle_def ch_step_simps log_queue_def release_unit_def channel_capacity_def


text \<open>
  \<open>join_all\<close> closes the channel first: the result of a task that has not yet sent it is refused, whatever it
  computes. And a task that throws leaves an owner who awaits it waiting for ever.
\<close>

lemma join_all_refuses_late:
  "\<exists>s. run js_step ([Js_spawn 0, Js_counted, Js_join_all] @ replicate 7 Js_own @ [Js_produce 0 7, Js_send 0]) (js_new 1) = Some s \<and>
     js_owner s = Js_joined [] \<and> js_tasks s = [Js_finished 7] \<and> ch_queue (cw_chan (js_chan s)) = []"
  by (simp add: js_eval js_join_all_def js_again_def numeral_eq_Suc)

lemma join_set_exception_waits:
  "\<exists>s. run js_step [Js_spawn 0, Js_counted, Js_fail 0, Js_await, Js_own, Js_own] (js_new 1) = Some s \<and>
     js_owner s = Js_receiving \<and> js_own s = None \<and> js_send 0 s = None"
  by (simp add: js_eval js_fail_def)

end
