(* ===== verification/Runtime.thy ===== *)
theory Runtime
  imports Asco_Prelude
begin

text \<open>
  \<open>asco/core/runtime\<close>, \<open>asco/core/daemon\<close> and the outer part of \<open>asco/core/worker\<close>: how spawned
  tasks get from the threads that spawn them to the workers that run them. What is shared is the
  queue of new tasks, the semaphore that counts its free places (\<open>m_backsem\<close>), the queue of
  idle workers and the semaphore of every daemon; each access to one of them is a step. A
  worker's executions are the lists of its active and suspended tasks (\<open>Scheduler\<close> and
  \<open>Worker\<close> have the details); what a running task does is chosen by the actions.
\<close>

section \<open>State\<close>

definition coroutine_queue_capacity :: nat where "coroutine_queue_capacity = 1024"
definition idle_workers_capacity :: nat where "idle_workers_capacity = 1024"

type_synonym task = nat

text \<open>
  \<open>spawn\<close>: outside of a runtime it waits for a unit; inside, when there is none, the worker fetches
  a task itself. \<open>Sp_send t b\<close> is about to send; \<open>b\<close> tells whether it holds a unit.
\<close>

datatype spawn_pc =
    Sp_idle
  | Sp_acquire task
  | Sp_try task
  | Sp_fetch task
  | Sp_release task task
  | Sp_send task bool
  | Sp_awake

datatype worker_pc =
    Wk_loop
  | Wk_fetch
  | Wk_release task
  | Wk_idle
  | Wk_sleep
  | Wk_exec
  | Wk_spawn spawn_pc
  | Wk_block spawn_pc task
  | Wk_await task
  | Wk_test
  | Wk_last_release task
  | Wk_shutdown

text \<open>\<open>wk_sem\<close> is \<open>m_sem\<close> of the daemon, \<open>wk_stop\<close> its stop token.\<close>

record worker =
  wk_pc :: worker_pc
  wk_active :: "task list"
  wk_suspended :: "task list"
  wk_sem :: nat
  wk_stop :: bool

text \<open>
  The last four components are history: the tasks that were spawned, those that ran to their
  end, those that the full queue refused, and the number of sends without a unit.
\<close>

record runtime =
  rt_queue :: "task list"
  rt_units :: nat
  rt_idle :: "nat list"
  rt_workers :: "worker list"
  rt_threads :: "spawn_pc list"
  rt_spawned :: "task list"
  rt_finished :: "task list"
  rt_lost :: "task list"
  rt_bypassed :: nat

definition worker_new :: worker where
  "worker_new = \<lparr>wk_pc = Wk_loop, wk_active = [], wk_suspended = [], wk_sem = 0, wk_stop = False\<rparr>"

text \<open>The number of workers: as asked, or one per hardware thread, or one.\<close>

definition worker_count :: "nat \<Rightarrow> nat \<Rightarrow> nat" where
  "worker_count nthreads hardware = (if nthreads = 0 then (if hardware = 0 then 1 else hardware) else nthreads)"

definition runtime_new :: "nat \<Rightarrow> nat \<Rightarrow> nat \<Rightarrow> runtime" where
  "runtime_new nthreads hardware threads =
     \<lparr>rt_queue = [], rt_units = coroutine_queue_capacity, rt_idle = [],
      rt_workers = replicate (worker_count nthreads hardware) worker_new,
      rt_threads = replicate threads Sp_idle, rt_spawned = [], rt_finished = [], rt_lost = [], rt_bypassed = 0\<rparr>"

section \<open>Spawning\<close>

definition upd_worker :: "nat \<Rightarrow> (worker \<Rightarrow> worker) \<Rightarrow> runtime \<Rightarrow> runtime" where
  "upd_worker i f r = r\<lparr>rt_workers := (rt_workers r)[i := f (rt_workers r ! i)]\<rparr>"

text \<open>\<open>daemon::awake\<close>.\<close>

definition daemon_awake :: "nat \<Rightarrow> runtime \<Rightarrow> runtime" where
  "daemon_awake i r = upd_worker i (\<lambda>w. w\<lparr>wk_sem := wk_sem w + 1\<rparr>) r"

definition awake_next :: "runtime \<Rightarrow> runtime" where
  "awake_next r =
     (case rt_idle r of [] \<Rightarrow> r | i # is \<Rightarrow> daemon_awake i (r\<lparr>rt_idle := is\<rparr>))"

text \<open>\<open>m_coroutine_tx.try_send\<close>, whose result nobody looks at.\<close>

definition send_task :: "task \<Rightarrow> bool \<Rightarrow> runtime \<Rightarrow> runtime" where
  "send_task t unit r =
     (let r = (if unit then r else r\<lparr>rt_bypassed := rt_bypassed r + 1\<rparr>) in
      if length (rt_queue r) < coroutine_queue_capacity then r\<lparr>rt_queue := rt_queue r @ [t]\<rparr>
      else r\<lparr>rt_lost := rt_lost r @ [t]\<rparr>)"

text \<open>One step of a spawn; \<open>Sp_release\<close> gives a fetched task to the worker (the second result).\<close>

definition spawn_step :: "spawn_pc \<Rightarrow> runtime \<Rightarrow> (spawn_pc \<times> task list \<times> runtime) option" where
  "spawn_step pc r =
     (case pc of
        Sp_idle \<Rightarrow> None
      | Sp_acquire t \<Rightarrow>
          if 0 < rt_units r then Some (Sp_send t True, [], r\<lparr>rt_units := rt_units r - 1\<rparr>) else None
      | Sp_try t \<Rightarrow>
          if 0 < rt_units r then Some (Sp_send t True, [], r\<lparr>rt_units := rt_units r - 1\<rparr>)
          else Some (Sp_fetch t, [], r)
      | Sp_fetch t \<Rightarrow>
          (case rt_queue r of
             [] \<Rightarrow> Some (Sp_send t False, [], r)
           | u # us \<Rightarrow> Some (Sp_release t u, [], r\<lparr>rt_queue := us\<rparr>))
      | Sp_release t u \<Rightarrow> Some (Sp_send t False, [u], r\<lparr>rt_units := rt_units r + 1\<rparr>)
      | Sp_send t unit \<Rightarrow> Some (Sp_awake, [], send_task t unit r)
      | Sp_awake \<Rightarrow> Some (Sp_idle, [], awake_next r))"

section \<open>The worker\<close>

text \<open>
  What the current task does in its turn: return, yield, be suspended, spawn another task, or (in a blocking environment) call
  \<open>runtime::block_on\<close>, which spawns a task and waits for its end in the thread of the worker.
  The task that runs is the one at position \<open>n\<close> of the active ones.
\<close>

datatype turn = Turn_finish nat | Turn_yield | Turn_suspend nat | Turn_spawn task | Turn_block_on task

text \<open>
  \<open>daemon::start\<close> runs \<open>while (!stop_requested && run_once)\<close>; \<open>run_once\<close> begins at \<open>Wk_fetch\<close> and
  ends by going back to \<open>Wk_loop\<close> (true) or to \<open>Wk_shutdown\<close> (false).
\<close>

definition set_pc :: "nat \<Rightarrow> worker_pc \<Rightarrow> runtime \<Rightarrow> runtime" where
  "set_pc i pc r = upd_worker i (\<lambda>w. w\<lparr>wk_pc := pc\<rparr>) r"

definition attach_tasks :: "nat \<Rightarrow> task list \<Rightarrow> runtime \<Rightarrow> runtime" where
  "attach_tasks i ts r = upd_worker i (\<lambda>w. w\<lparr>wk_active := wk_active w @ ts\<rparr>) r"

definition drop_nth :: "nat \<Rightarrow> 'a list \<Rightarrow> 'a list" where
  "drop_nth n xs = take n xs @ drop (Suc n) xs"

definition turn_step :: "nat \<Rightarrow> turn \<Rightarrow> runtime \<Rightarrow> runtime option" where
  "turn_step i turn r =
     (let w = rt_workers r ! i in
      case turn of
        Turn_finish n \<Rightarrow>
          if n < length (wk_active w)
          then Some (set_pc i Wk_test (upd_worker i (\<lambda>w. w\<lparr>wk_active := drop_nth n (wk_active w)\<rparr>) r)
                       \<lparr>rt_finished := rt_finished r @ [wk_active w ! n]\<rparr>)
          else None
      | Turn_yield \<Rightarrow> Some (set_pc i Wk_test r)
      | Turn_suspend n \<Rightarrow>
          if n < length (wk_active w)
          then Some (set_pc i Wk_test (upd_worker i (\<lambda>w. w\<lparr>wk_active := drop_nth n (wk_active w),
                       wk_suspended := wk_suspended w @ [wk_active w ! n]\<rparr>) r))
          else None
      | Turn_spawn t \<Rightarrow> Some (set_pc i (Wk_spawn (Sp_try t)) (r\<lparr>rt_spawned := rt_spawned r @ [t]\<rparr>))
      | Turn_block_on t \<Rightarrow> Some (set_pc i (Wk_block (Sp_acquire t) t) (r\<lparr>rt_spawned := rt_spawned r @ [t]\<rparr>)))"

text \<open>
  \<open>fetch_task\<close> receives, releases a unit and attaches; \<open>found\<close> and \<open>other\<close> are where the worker goes on.
\<close>

definition fetch_recv :: "nat \<Rightarrow> (task \<Rightarrow> worker_pc) \<Rightarrow> worker_pc \<Rightarrow> runtime \<Rightarrow> runtime" where
  "fetch_recv i found other r =
     (case rt_queue r of
        t # ts \<Rightarrow> set_pc i (found t) (r\<lparr>rt_queue := ts\<rparr>)
      | [] \<Rightarrow> set_pc i other r)"

definition fetch_release :: "nat \<Rightarrow> task \<Rightarrow> worker_pc \<Rightarrow> runtime \<Rightarrow> runtime" where
  "fetch_release i t pc r = set_pc i pc (attach_tasks i [t] (r\<lparr>rt_units := rt_units r + 1\<rparr>))"

text \<open>\<open>m_idle_workers_tx.try_send\<close>, whose result nobody looks at.\<close>

definition register_idle :: "nat \<Rightarrow> runtime \<Rightarrow> runtime" where
  "register_idle i r =
     (if length (rt_idle r) < idle_workers_capacity then r\<lparr>rt_idle := rt_idle r @ [i]\<rparr> else r)"

definition sleep_until_awake :: "nat \<Rightarrow> worker_pc \<Rightarrow> runtime \<Rightarrow> runtime option" where
  "sleep_until_awake i pc r =
     (if 0 < wk_sem (rt_workers r ! i)
      then Some (set_pc i pc (upd_worker i (\<lambda>w. w\<lparr>wk_sem := wk_sem w - 1\<rparr>) r)) else None)"

text \<open>The condition of the loop of \<open>daemon::start\<close>, before \<open>run_once\<close>.\<close>

definition daemon_loop :: "nat \<Rightarrow> runtime \<Rightarrow> runtime" where
  "daemon_loop i r = set_pc i (if wk_stop (rt_workers r ! i) then Wk_shutdown else Wk_fetch) r"

text \<open>The result of \<open>run_once\<close>; its last disjunct is another \<open>fetch_task\<close>.\<close>

definition run_once_result :: "nat \<Rightarrow> runtime \<Rightarrow> runtime" where
  "run_once_result i r =
     (let w = rt_workers r ! i in
      if \<not> wk_stop w \<or> wk_active w \<noteq> [] \<or> wk_suspended w \<noteq> [] then set_pc i Wk_loop r
      else fetch_recv i Wk_last_release Wk_shutdown r)"

definition worker_spawn_step :: "nat \<Rightarrow> spawn_pc \<Rightarrow> runtime \<Rightarrow> runtime option" where
  "worker_spawn_step i pc r =
     (if pc = Sp_idle then Some (set_pc i Wk_exec r)
      else
        (case spawn_step pc r of
           None \<Rightarrow> None
         | Some (pc', ts, r) \<Rightarrow> Some (set_pc i (Wk_spawn pc') (attach_tasks i ts r))))"

text \<open>\<open>block_on\<close> acquires a unit and sends as \<open>spawn\<close> does from outside; \<open>jh.await()\<close> blocks the thread until the task is completed.\<close>

definition block_on_step :: "nat \<Rightarrow> spawn_pc \<Rightarrow> task \<Rightarrow> runtime \<Rightarrow> runtime option" where
  "block_on_step i pc t r =
     (if pc = Sp_idle then Some (set_pc i (Wk_await t) r)
      else
        (case spawn_step pc r of
           None \<Rightarrow> None
         | Some (pc', ts, r) \<Rightarrow> Some (set_pc i (Wk_block pc' t) (attach_tasks i ts r))))"

definition block_on_await :: "nat \<Rightarrow> task \<Rightarrow> runtime \<Rightarrow> runtime option" where
  "block_on_await i t r = (if t \<in> set (rt_finished r) then Some (set_pc i Wk_exec r) else None)"

definition worker_step :: "nat \<Rightarrow> turn \<Rightarrow> runtime \<Rightarrow> runtime option" where
  "worker_step i turn r =
     (let w = rt_workers r ! i in
      case wk_pc w of
        Wk_loop \<Rightarrow> Some (daemon_loop i r)
      | Wk_fetch \<Rightarrow> Some (fetch_recv i Wk_release (if wk_active w = [] then Wk_idle else Wk_exec) r)
      | Wk_release t \<Rightarrow> Some (fetch_release i t Wk_exec r)
      | Wk_idle \<Rightarrow> Some (set_pc i Wk_sleep (register_idle i r))
      | Wk_sleep \<Rightarrow> sleep_until_awake i Wk_loop r
      | Wk_exec \<Rightarrow> if wk_active w = [] then Some (set_pc i Wk_test r) else turn_step i turn r
      | Wk_spawn pc \<Rightarrow> worker_spawn_step i pc r
      | Wk_block pc t \<Rightarrow> block_on_step i pc t r
      | Wk_await t \<Rightarrow> block_on_await i t r
      | Wk_test \<Rightarrow> Some (run_once_result i r)
      | Wk_last_release t \<Rightarrow> Some (fetch_release i t Wk_loop r)
      | Wk_shutdown \<Rightarrow> None)"

text \<open>\<open>awake_token::awake\<close> of the suspended task at position \<open>n\<close>, and the first part of \<open>daemon::join\<close>.\<close>

definition awaken_task :: "nat \<Rightarrow> nat \<Rightarrow> runtime \<Rightarrow> runtime" where
  "awaken_task i n r = daemon_awake i (upd_worker i (\<lambda>w. w\<lparr>wk_suspended := drop_nth n (wk_suspended w),
                   wk_active := wk_active w @ [wk_suspended w ! n]\<rparr>) r)"

definition stop_worker :: "nat \<Rightarrow> runtime \<Rightarrow> runtime" where
  "stop_worker i r = daemon_awake i (upd_worker i (\<lambda>w. w\<lparr>wk_stop := True\<rparr>) r)"

text \<open>
  An action starts a spawn on a thread, takes a step of a thread or of a worker, awakes the
  suspended task at a position, or stops a worker.
\<close>

datatype rt_action =
    Rt_spawn nat task
  | Rt_thread nat
  | Rt_worker nat turn
  | Rt_awaken nat nat
  | Rt_stop nat

fun rt_step :: "rt_action \<Rightarrow> runtime \<Rightarrow> runtime option" where
  "rt_step (Rt_spawn k t) r =
     (if k < length (rt_threads r) \<and> rt_threads r ! k = Sp_idle
      then Some (r\<lparr>rt_threads := (rt_threads r)[k := Sp_acquire t], rt_spawned := rt_spawned r @ [t]\<rparr>) else None)"
| "rt_step (Rt_thread k) r =
     (if k < length (rt_threads r)
      then (case spawn_step (rt_threads r ! k) r of
              Some (pc, [], r) \<Rightarrow> Some (r\<lparr>rt_threads := (rt_threads r)[k := pc]\<rparr>)
            | _ \<Rightarrow> None)
      else None)"
| "rt_step (Rt_worker i turn) r = (if i < length (rt_workers r) then worker_step i turn r else None)"
| "rt_step (Rt_awaken i n) r =
     (if i < length (rt_workers r) \<and> n < length (wk_suspended (rt_workers r ! i))
      then Some (awaken_task i n r) else None)"
| "rt_step (Rt_stop i) r = (if i < length (rt_workers r) then Some (stop_worker i r) else None)"

lemmas worker_defs = worker_step_def fetch_recv_def fetch_release_def register_idle_def sleep_until_awake_def daemon_loop_def
  run_once_result_def worker_spawn_step_def block_on_step_def block_on_await_def

lemmas rt_defs = worker_defs awaken_task_def stop_worker_def turn_step_def spawn_step_def send_task_def awake_next_def daemon_awake_def
  upd_worker_def set_pc_def attach_tasks_def drop_nth_def Let_def

section \<open>Where the tasks are\<close>

text \<open>
  How often a task occurs at a place, and how many units of \<open>m_backsem\<close> a call holds: one
  after it acquired it and before it sends, and one after it fetched a task and before it
  releases.
\<close>

fun spawn_tasks :: "task \<Rightarrow> spawn_pc \<Rightarrow> nat" where
  "spawn_tasks t Sp_idle = 0"
| "spawn_tasks t (Sp_acquire u) = of_bool (u = t)"
| "spawn_tasks t (Sp_try u) = of_bool (u = t)"
| "spawn_tasks t (Sp_fetch u) = of_bool (u = t)"
| "spawn_tasks t (Sp_release u v) = of_bool (u = t) + of_bool (v = t)"
| "spawn_tasks t (Sp_send u _) = of_bool (u = t)"
| "spawn_tasks t Sp_awake = 0"

fun spawn_units :: "spawn_pc \<Rightarrow> nat" where
  "spawn_units (Sp_send _ b) = of_bool b"
| "spawn_units (Sp_release _ _) = 1"
| "spawn_units _ = 0"

fun worker_pc_tasks :: "task \<Rightarrow> worker_pc \<Rightarrow> nat" where
  "worker_pc_tasks t (Wk_spawn pc) = spawn_tasks t pc"
| "worker_pc_tasks t (Wk_block pc _) = spawn_tasks t pc"
| "worker_pc_tasks t (Wk_release u) = of_bool (u = t)"
| "worker_pc_tasks t (Wk_last_release u) = of_bool (u = t)"
| "worker_pc_tasks t _ = 0"

fun worker_pc_units :: "worker_pc \<Rightarrow> nat" where
  "worker_pc_units (Wk_spawn pc) = spawn_units pc"
| "worker_pc_units (Wk_block pc _) = spawn_units pc"
| "worker_pc_units (Wk_release _) = 1"
| "worker_pc_units (Wk_last_release _) = 1"
| "worker_pc_units _ = 0"

definition worker_tasks :: "task \<Rightarrow> worker \<Rightarrow> nat" where
  "worker_tasks t w = count_list (wk_active w) t + count_list (wk_suspended w) t + worker_pc_tasks t (wk_pc w)"

definition worker_units :: "worker \<Rightarrow> nat" where
  "worker_units w = worker_pc_units (wk_pc w)"

definition shared_tasks :: "task \<Rightarrow> runtime \<Rightarrow> nat" where
  "shared_tasks t r = count_list (rt_queue r) t + count_list (rt_finished r) t + count_list (rt_lost r) t"

definition shared_units :: "runtime \<Rightarrow> nat" where
  "shared_units r = rt_units r + length (rt_queue r) + length (rt_lost r)"

definition places_of :: "task \<Rightarrow> runtime \<Rightarrow> nat" where
  "places_of t r = shared_tasks t r + sum_list (map (worker_tasks t) (rt_workers r)) +
     sum_list (map (spawn_tasks t) (rt_threads r))"

definition units_of :: "runtime \<Rightarrow> nat" where
  "units_of r = shared_units r + sum_list (map worker_units (rt_workers r)) +
     sum_list (map spawn_units (rt_threads r))"

definition rt_inv :: "runtime \<Rightarrow> bool" where
  "rt_inv r \<longleftrightarrow> (\<forall>t. places_of t r = count_list (rt_spawned r) t) \<and>
     units_of r = coroutine_queue_capacity + rt_bypassed r \<and>
     length (rt_queue r) \<le> coroutine_queue_capacity \<and> length (rt_lost r) \<le> rt_bypassed r"

lemma count_list_drop_nth:
  "n < length xs \<Longrightarrow> count_list (drop_nth n xs) t + of_bool (xs ! n = t) = count_list xs t"
  by (subst (3) id_take_nth_drop [of n]) (auto simp: drop_nth_def)

text \<open>An awakening changes nothing but the semaphore of a worker.\<close>

definition no_sem :: "worker \<Rightarrow> worker" where
  "no_sem w = w\<lparr>wk_sem := 0\<rparr>"

lemma no_sem_simps [simp]:
  "worker_tasks t (no_sem w) = worker_tasks t w" "worker_units (no_sem w) = worker_units w"
  "wk_pc (no_sem w) = wk_pc w" "wk_active (no_sem w) = wk_active w" "wk_suspended (no_sem w) = wk_suspended w"
  by (simp_all add: no_sem_def worker_tasks_def worker_units_def)

lemma no_sem_awake: "map no_sem (rt_workers (daemon_awake i r)) = map no_sem (rt_workers r)"
proof -
  have "map no_sem ((rt_workers r)[i := (rt_workers r ! i)\<lparr>wk_sem := k\<rparr>]) = map no_sem (rt_workers r)" for k
    by (cases "i < length (rt_workers r)") (simp_all add: map_update no_sem_def list_update_same_conv list_update_beyond)
  then show ?thesis by (simp add: daemon_awake_def upd_worker_def)
qed

lemma daemon_awake_simps [simp]:
  "rt_queue (daemon_awake i r) = rt_queue r" "rt_units (daemon_awake i r) = rt_units r"
  "rt_threads (daemon_awake i r) = rt_threads r" "rt_spawned (daemon_awake i r) = rt_spawned r"
  "rt_finished (daemon_awake i r) = rt_finished r" "rt_lost (daemon_awake i r) = rt_lost r"
  "rt_bypassed (daemon_awake i r) = rt_bypassed r"
  by (simp_all add: daemon_awake_def upd_worker_def)

text \<open>What does not change when only the semaphores of workers do.\<close>

definition same_workers :: "runtime \<Rightarrow> runtime \<Rightarrow> bool" where
  "same_workers r r' \<longleftrightarrow> map no_sem (rt_workers r') = map no_sem (rt_workers r)"

lemma same_workersD:
  assumes "same_workers r r'"
  shows "length (rt_workers r') = length (rt_workers r)"
    and "sum_list (map (worker_tasks t) (rt_workers r')) = sum_list (map (worker_tasks t) (rt_workers r))"
    and "sum_list (map worker_units (rt_workers r')) = sum_list (map worker_units (rt_workers r))"
    and "i < length (rt_workers r) \<Longrightarrow> worker_tasks t (rt_workers r' ! i) = worker_tasks t (rt_workers r ! i)"
    and "i < length (rt_workers r) \<Longrightarrow> worker_units (rt_workers r' ! i) = worker_units (rt_workers r ! i)"
    and "i < length (rt_workers r) \<Longrightarrow> wk_pc (rt_workers r' ! i) = wk_pc (rt_workers r ! i)"
proof -
  note eq = assms [unfolded same_workers_def]
  show len: "length (rt_workers r') = length (rt_workers r)"
    using eq by (rule map_eq_imp_length_eq)
  have "map (worker_tasks t \<circ> no_sem) (rt_workers r') = map (worker_tasks t \<circ> no_sem) (rt_workers r)"
    using eq by (simp flip: map_map)
  then show "sum_list (map (worker_tasks t) (rt_workers r')) = sum_list (map (worker_tasks t) (rt_workers r))"
    by (simp add: comp_def)
  have "map (worker_units \<circ> no_sem) (rt_workers r') = map (worker_units \<circ> no_sem) (rt_workers r)"
    using eq by (simp flip: map_map)
  then show "sum_list (map worker_units (rt_workers r')) = sum_list (map worker_units (rt_workers r))"
    by (simp add: comp_def)
  have nth: "no_sem (rt_workers r' ! i) = no_sem (rt_workers r ! i)" if "i < length (rt_workers r)"
    using arg_cong [OF eq, of "\<lambda>ws. ws ! i"] that len by simp
  show "i < length (rt_workers r) \<Longrightarrow> worker_tasks t (rt_workers r' ! i) = worker_tasks t (rt_workers r ! i)"
    using nth no_sem_simps(1) by metis
  show "i < length (rt_workers r) \<Longrightarrow> worker_units (rt_workers r' ! i) = worker_units (rt_workers r ! i)"
    using nth no_sem_simps(2) by metis
  show "i < length (rt_workers r) \<Longrightarrow> wk_pc (rt_workers r' ! i) = wk_pc (rt_workers r ! i)"
    using nth no_sem_simps(3) by metis
qed

lemma same_workers_refl [simp]: "rt_workers r' = rt_workers r \<Longrightarrow> same_workers r r'"
  by (simp add: same_workers_def)

lemma same_workers_awake [simp]: "same_workers r (daemon_awake i r)"
  by (simp add: same_workers_def no_sem_awake)

text \<open>The effect of a step of a spawn.\<close>

lemma spawn_step_effect:
  assumes "spawn_step pc r = Some (pc', ts, r')"
  shows "same_workers r r'" "rt_threads r' = rt_threads r" "rt_spawned r' = rt_spawned r"
    and "shared_tasks t r' + spawn_tasks t pc' + count_list ts t = shared_tasks t r + spawn_tasks t pc"
    and "shared_units r' + spawn_units pc' + rt_bypassed r = shared_units r + spawn_units pc + rt_bypassed r'"
    and "length (rt_queue r) \<le> coroutine_queue_capacity \<Longrightarrow> length (rt_queue r') \<le> coroutine_queue_capacity"
    and "length (rt_queue r) \<le> coroutine_queue_capacity \<Longrightarrow> length (rt_queue r') = coroutine_queue_capacity \<or>
           length (rt_lost r') + rt_bypassed r \<le> length (rt_lost r) + rt_bypassed r'"
  using assms
  by (auto simp: spawn_step_def send_task_def awake_next_def shared_tasks_def shared_units_def Let_def same_workers_def
      no_sem_awake split: spawn_pc.splits list.splits if_splits)

text \<open>
  A step of worker \<open>i\<close>: its record changes to \<open>w\<close>, and what leaves the shared state (or the worker)
  arrives in the other, the spawned tasks \<open>ts\<close> apart.
\<close>

definition worker_move :: "nat \<Rightarrow> worker \<Rightarrow> task list \<Rightarrow> runtime \<Rightarrow> runtime \<Rightarrow> bool" where
  "worker_move i w ts r r' \<longleftrightarrow>
     (\<exists>s. same_workers r s \<and> rt_workers r' = (rt_workers s)[i := w]) \<and> rt_threads r' = rt_threads r \<and>
     rt_spawned r' = rt_spawned r @ ts \<and>
     (\<forall>t. shared_tasks t r' + worker_tasks t w = shared_tasks t r + worker_tasks t (rt_workers r ! i) + count_list ts t) \<and>
     shared_units r' + worker_units w + rt_bypassed r = shared_units r + worker_units (rt_workers r ! i) + rt_bypassed r' \<and>
     (length (rt_queue r) \<le> coroutine_queue_capacity \<longrightarrow> length (rt_queue r') \<le> coroutine_queue_capacity \<and>
     (length (rt_queue r') = coroutine_queue_capacity \<or> length (rt_lost r') + rt_bypassed r \<le> length (rt_lost r) + rt_bypassed r'))"

lemma worker_move_inv:
  assumes inv: "rt_inv r" and i: "i < length (rt_workers r)" and move: "worker_move i w ts r r'"
  shows "rt_inv r'"
proof -
  from move obtain s where s: "same_workers r s" "rt_workers r' = (rt_workers s)[i := w]"
    by (auto simp: worker_move_def)
  from i s(1) have i': "i < length (rt_workers s)" by (simp add: same_workersD)
  have tasks: "places_of t r' = count_list (rt_spawned r') t" for t
  proof -
    have "shared_tasks t r' + worker_tasks t w = shared_tasks t r + worker_tasks t (rt_workers r ! i) + count_list ts t"
      and "count_list (rt_spawned r') t = count_list (rt_spawned r) t + count_list ts t" "rt_threads r' = rt_threads r"
      and "places_of t r = count_list (rt_spawned r) t"
      using move inv by (simp_all add: worker_move_def rt_inv_def)
    then show ?thesis
      using sum_update [OF i', of "worker_tasks t" w] same_workersD(2) [OF s(1), of t] same_workersD(4) [OF s(1) i, of t] s(2)
      by (simp add: places_of_def)
  qed
  have units: "units_of r' = coroutine_queue_capacity + rt_bypassed r'"
    using move inv sum_update [OF i', of worker_units w] s i same_workersD [OF s(1)]
    by (simp add: worker_move_def rt_inv_def units_of_def)
  moreover have "length (rt_queue r') \<le> coroutine_queue_capacity" "length (rt_lost r') \<le> rt_bypassed r'"
    using units move inv by (auto simp: rt_inv_def worker_move_def units_of_def shared_units_def)
  ultimately show ?thesis
    using tasks by (simp add: rt_inv_def)
qed

lemma worker_moveI:
  assumes "rt_workers r' = (rt_workers r)[i := w]" "rt_threads r' = rt_threads r" "rt_spawned r' = rt_spawned r @ ts"
    and "\<And>t. shared_tasks t r' + worker_tasks t w = shared_tasks t r + worker_tasks t (rt_workers r ! i) + count_list ts t"
    and "shared_units r' + worker_units w + rt_bypassed r = shared_units r + worker_units (rt_workers r ! i) + rt_bypassed r'"
    and "length (rt_queue r) \<le> coroutine_queue_capacity \<Longrightarrow> length (rt_queue r') \<le> coroutine_queue_capacity"
    and "rt_lost r' = rt_lost r" "rt_bypassed r' = rt_bypassed r"
  shows "worker_move i w ts r r'"
  using assms by (auto simp: worker_move_def intro!: exI [of _ r])

lemmas place_defs = shared_tasks_def shared_units_def worker_tasks_def worker_units_def

lemma turn_step_move:
  assumes step: "turn_step i turn r = Some r'" and i: "i < length (rt_workers r)"
    and pc: "wk_pc (rt_workers r ! i) = Wk_exec"
  shows "\<exists>w ts. worker_move i w ts r r'"
proof (cases turn)
  case (Turn_finish n)
  have "worker_move i ((rt_workers r ! i)\<lparr>wk_active := drop_nth n (wk_active (rt_workers r ! i)), wk_pc := Wk_test\<rparr>) [] r r'"
    using step i pc Turn_finish 
    by (intro worker_moveI)
       (auto simp: count_list_drop_nth [of n "wk_active (rt_workers r ! i)", symmetric] turn_step_def Let_def set_pc_def upd_worker_def place_defs split: if_splits)
  then show ?thesis by blast
next
  case Turn_yield
  have "worker_move i ((rt_workers r ! i)\<lparr>wk_pc := Wk_test\<rparr>) [] r r'"
    using step i pc Turn_yield
    by (intro worker_moveI) (auto simp: turn_step_def Let_def set_pc_def upd_worker_def place_defs)
  then show ?thesis by blast
next
  case (Turn_suspend n)
  have "worker_move i ((rt_workers r ! i)\<lparr>wk_active := drop_nth n (wk_active (rt_workers r ! i)),
      wk_suspended := wk_suspended (rt_workers r ! i) @ [wk_active (rt_workers r ! i) ! n], wk_pc := Wk_test\<rparr>) [] r r'"
    using step i pc Turn_suspend 
    by (intro worker_moveI)
       (auto simp: count_list_drop_nth [of n "wk_active (rt_workers r ! i)", symmetric] turn_step_def Let_def set_pc_def upd_worker_def place_defs split: if_splits)
  then show ?thesis by blast
next
  case (Turn_spawn t)
  have "worker_move i ((rt_workers r ! i)\<lparr>wk_pc := Wk_spawn (Sp_try t)\<rparr>) [t] r r'"
    using step i pc Turn_spawn
    by (intro worker_moveI) (auto simp: turn_step_def Let_def set_pc_def upd_worker_def place_defs)
  then show ?thesis by blast
next
  case (Turn_block_on t)
  have "worker_move i ((rt_workers r ! i)\<lparr>wk_pc := Wk_block (Sp_acquire t) t\<rparr>) [t] r r'"
    using step i pc Turn_block_on
    by (intro worker_moveI) (auto simp: turn_step_def Let_def set_pc_def upd_worker_def place_defs)
  then show ?thesis by blast
qed

lemma spawning_worker_move:
  assumes step: "spawn_step pc r = Some (pc', ts, s)" and i: "i < length (rt_workers r)"
    and pc: "wk_pc (rt_workers r ! i) = at pc" and r': "r' = set_pc i (at pc') (attach_tasks i ts s)"
    and at: "\<And>t p. worker_pc_tasks t (at p) = spawn_tasks t p" "\<And>p. worker_pc_units (at p) = spawn_units p"
  shows "\<exists>w. worker_move i w [] r r'"
proof -
  note eff = spawn_step_effect [OF step]
  let ?w = "(rt_workers s ! i)\<lparr>wk_active := wk_active (rt_workers s ! i) @ ts, wk_pc := at pc'\<rparr>"
  from i eff(1) have i': "i < length (rt_workers s)" by (simp add: same_workersD)
  then have ws: "rt_workers r' = (rt_workers s)[i := ?w]"
    and rest: "rt_threads r' = rt_threads s" "rt_spawned r' = rt_spawned s" "shared_tasks t r' = shared_tasks t s"
      "shared_units r' = shared_units s" "rt_bypassed r' = rt_bypassed s"
      "rt_lost r' = rt_lost s" "rt_queue r' = rt_queue s" for t
    by (simp_all add: r' set_pc_def attach_tasks_def upd_worker_def shared_tasks_def shared_units_def)
  have "shared_tasks t r' + worker_tasks t ?w = shared_tasks t r + worker_tasks t (rt_workers r ! i)" for t
    using eff(4) [of t] same_workersD(4) [OF eff(1) i, of t] same_workersD(6) [OF eff(1) i] pc
    by (simp add: rest worker_tasks_def at)
  moreover have "shared_units r' + worker_units ?w + rt_bypassed r =
      shared_units r + worker_units (rt_workers r ! i) + rt_bypassed r'"
    using eff(5) pc by (simp add: rest worker_units_def at)
  ultimately have "worker_move i ?w [] r r'"
    using eff(1,2,3,6,7) ws by (auto simp: worker_move_def rest)
  then show ?thesis by blast
qed

lemmas move_defs = worker_defs Let_def set_pc_def attach_tasks_def upd_worker_def place_defs

lemma simple_step_move:
  assumes step: "worker_step i turn r = Some r'" and i: "i < length (rt_workers r)"
    and pc: "wk_pc (rt_workers r ! i) \<in> {Wk_loop, Wk_fetch, Wk_test, Wk_idle, Wk_sleep}"
  shows "\<exists>w ts. worker_move i w ts r r'"
proof -
  have "worker_move i (rt_workers r' ! i) [] r r'"
    using pc
  proof (elim insertE emptyE)
    assume "wk_pc (rt_workers r ! i) = Wk_loop"
    with step i show "worker_move i (rt_workers r' ! i) [] r r'"
      by (intro worker_moveI) (auto simp: move_defs)
  next
    assume "wk_pc (rt_workers r ! i) = Wk_fetch"
    with step i show "worker_move i (rt_workers r' ! i) [] r r'"
      by (intro worker_moveI) (auto simp: move_defs split: list.splits)
  next
    assume "wk_pc (rt_workers r ! i) = Wk_test"
    with step i show "worker_move i (rt_workers r' ! i) [] r r'"
      by (intro worker_moveI) (auto simp: move_defs split: list.splits if_splits)
  next
    assume "wk_pc (rt_workers r ! i) = Wk_idle"
    with step i show "worker_move i (rt_workers r' ! i) [] r r'"
      by (intro worker_moveI) (auto simp: move_defs split: if_splits)
  next
    assume "wk_pc (rt_workers r ! i) = Wk_sleep"
    with step i show "worker_move i (rt_workers r' ! i) [] r r'"
      by (intro worker_moveI) (auto simp: move_defs split: if_splits)
  qed
  then show ?thesis by blast
qed

lemma worker_step_move:
  assumes step: "worker_step i turn r = Some r'" and i: "i < length (rt_workers r)"
  shows "\<exists>w ts. worker_move i w ts r r'"
proof (cases "wk_pc (rt_workers r ! i)")
  case Wk_exec
  show ?thesis
  proof (cases "wk_active (rt_workers r ! i) = []")
    case True
    have "worker_move i ((rt_workers r ! i)\<lparr>wk_pc := Wk_test\<rparr>) [] r r'"
      using step i Wk_exec True
      by (intro worker_moveI) (auto simp: move_defs)
    then show ?thesis by blast
  next
    case False
    with step i Wk_exec show ?thesis
      by (intro turn_step_move) (simp_all add: worker_defs Let_def)
  qed
next
  case (Wk_spawn pc)
  show ?thesis
  proof (cases "pc = Sp_idle")
    case True
    have "worker_move i ((rt_workers r ! i)\<lparr>wk_pc := Wk_exec\<rparr>) [] r r'"
      using step i Wk_spawn True
      by (intro worker_moveI) (auto simp: move_defs)
    then show ?thesis by blast
  next
    case False
    with step Wk_spawn obtain pc' ts s where "spawn_step pc r = Some (pc', ts, s)"
      "r' = set_pc i (Wk_spawn pc') (attach_tasks i ts s)"
      by (auto simp: worker_defs Let_def split: option.splits)
    from spawning_worker_move [OF this(1) i Wk_spawn this(2)] show ?thesis by auto
  qed
next
  case (Wk_block pc u)
  show ?thesis
  proof (cases "pc = Sp_idle")
    case True
    have "worker_move i ((rt_workers r ! i)\<lparr>wk_pc := Wk_await u\<rparr>) [] r r'"
      using step i Wk_block True
      by (intro worker_moveI) (auto simp: move_defs)
    then show ?thesis by blast
  next
    case False
    with step Wk_block obtain pc' ts s where "spawn_step pc r = Some (pc', ts, s)"
      "r' = set_pc i (Wk_block pc' u) (attach_tasks i ts s)"
      by (auto simp: worker_defs Let_def split: option.splits)
    from spawning_worker_move [where at = "\<lambda>p. Wk_block p u", OF this(1) i Wk_block this(2)] show ?thesis by auto
  qed
next
  case (Wk_await u)
  have "worker_move i ((rt_workers r ! i)\<lparr>wk_pc := Wk_exec\<rparr>) [] r r'"
    using step i Wk_await
    by (intro worker_moveI) (auto simp: move_defs split: if_splits)
  then show ?thesis by blast
next
  case (Wk_release u)
  have "worker_move i ((rt_workers r ! i)\<lparr>wk_active := wk_active (rt_workers r ! i) @ [u], wk_pc := Wk_exec\<rparr>) [] r r'"
    using step i Wk_release
    by (intro worker_moveI) (auto simp: move_defs)
  then show ?thesis by blast
next
  case (Wk_last_release u)
  have "worker_move i ((rt_workers r ! i)\<lparr>wk_active := wk_active (rt_workers r ! i) @ [u], wk_pc := Wk_loop\<rparr>) [] r r'"
    using step i Wk_last_release
    by (intro worker_moveI) (auto simp: move_defs)
  then show ?thesis by blast
qed (simp_all add: simple_step_move [OF step i], use step in \<open>simp add: worker_defs Let_def\<close>)

lemma thread_step_inv:
  assumes inv: "rt_inv r" and k: "k < length (rt_threads r)"
    and step: "spawn_step (rt_threads r ! k) r = Some (pc, [], s)"
  shows "rt_inv (s\<lparr>rt_threads := (rt_threads r)[k := pc]\<rparr>)" (is "rt_inv ?r")
proof -
  note eff = spawn_step_effect [OF step]
  have "places_of t ?r = count_list (rt_spawned ?r) t" for t
    using inv eff(3) eff(4) [of t] sum_update [OF k, of "spawn_tasks t" pc] same_workersD(2) [OF eff(1), of t]
    by (auto simp: rt_inv_def places_of_def shared_tasks_def dest: spec [of _ t])
  moreover have "units_of ?r = coroutine_queue_capacity + rt_bypassed ?r"
    using inv eff(5) sum_update [OF k, of spawn_units pc] same_workersD(3) [OF eff(1)]
    by (simp add: rt_inv_def units_of_def shared_units_def)
  moreover have "length (rt_queue s) \<le> coroutine_queue_capacity" "length (rt_lost s) \<le> rt_bypassed s"
    using inv eff(6,7) \<open>units_of ?r = _\<close> by (auto simp: rt_inv_def units_of_def shared_units_def)
  ultimately show ?thesis
    by (simp add: rt_inv_def)
qed

lemma awaken_inv:
  assumes inv: "rt_inv r" and i: "i < length (rt_workers r)" and n: "n < length (wk_suspended (rt_workers r ! i))"
  shows "rt_inv (upd_worker i (\<lambda>w. w\<lparr>wk_suspended := drop_nth n (wk_suspended w),
    wk_active := wk_active w @ [wk_suspended w ! n]\<rparr>) r)" (is "rt_inv ?r")
proof -
  have "worker_move i (rt_workers ?r ! i) [] r ?r"
    using i n by (intro worker_moveI)
      (auto simp: upd_worker_def place_defs count_list_drop_nth [of n "wk_suspended (rt_workers r ! i)", symmetric])
  then show ?thesis by (rule worker_move_inv [OF inv i])
qed

lemma stop_inv:
  assumes inv: "rt_inv r" and i: "i < length (rt_workers r)"
  shows "rt_inv (upd_worker i (\<lambda>w. w\<lparr>wk_stop := True\<rparr>) r)" (is "rt_inv ?r")
proof -
  have "worker_move i (rt_workers ?r ! i) [] r ?r"
    using i by (intro worker_moveI) (auto simp: upd_worker_def place_defs)
  then show ?thesis by (rule worker_move_inv [OF inv i])
qed

lemma daemon_awake_inv: "rt_inv r \<Longrightarrow> rt_inv (daemon_awake i r)"
  using same_workersD(2,3) [OF same_workers_awake [of r i]]
  by (simp add: rt_inv_def places_of_def units_of_def shared_tasks_def shared_units_def)

lemma rt_step_inv: "rt_inv r \<Longrightarrow> rt_step a r = Some r' \<Longrightarrow> rt_inv r'"
proof (induction a r rule: rt_step.induct)
  case (1 k t r)
  then have k: "k < length (rt_threads r)" "rt_threads r ! k = Sp_idle"
    and r': "r' = r\<lparr>rt_threads := (rt_threads r)[k := Sp_acquire t], rt_spawned := rt_spawned r @ [t]\<rparr>"
    by (auto split: if_splits)
  have "places_of u r' = count_list (rt_spawned r') u" for u
    using 1(1) k sum_update [OF k(1), of "spawn_tasks u" "Sp_acquire t"]
    by (auto simp: r' rt_inv_def places_of_def shared_tasks_def dest: spec [of _ u])
  with 1(1) k sum_update [OF k(1), of spawn_units "Sp_acquire t"] show ?case
    by (simp add: r' rt_inv_def units_of_def shared_units_def)
next
  case (2 k r)
  then show ?case
    by (auto simp: spawn_step_effect(2) split: if_splits option.splits prod.splits list.splits intro: thread_step_inv)
next
  case (3 i turn r)
  then show ?case
    by (auto split: if_splits dest: worker_step_move intro: worker_move_inv)
next
  case (4 i n r)
  then show ?case
    by (auto simp: awaken_task_def split: if_splits intro!: daemon_awake_inv awaken_inv)
next
  case (5 i r)
  then show ?case
    by (auto simp: stop_worker_def split: if_splits intro!: daemon_awake_inv stop_inv)
qed

interpretation rt: invariant_system rt_step rt_inv
  by unfold_locales (rule rt_step_inv)

lemma rt_inv_new: "rt_inv (runtime_new n h k)"
  by (simp add: rt_inv_def runtime_new_def worker_new_def places_of_def units_of_def shared_tasks_def shared_units_def
      worker_tasks_def worker_units_def sum_list_replicate)



section \<open>A spawn without a unit\<close>

definition external_spawns :: "task \<Rightarrow> nat \<Rightarrow> rt_action list" where
  "external_spawns t n = concat (replicate n [Rt_spawn 0 t, Rt_thread 0, Rt_thread 0, Rt_thread 0])"

lemma run_external_spawns:
  assumes "n \<le> rt_units r" "n + length (rt_queue r) \<le> coroutine_queue_capacity"
    and "rt_idle r = []" "rt_threads r = [Sp_idle]"
  shows "run rt_step (external_spawns t n) r = Some (r\<lparr>rt_queue := rt_queue r @ replicate n t,
    rt_units := rt_units r - n, rt_spawned := rt_spawned r @ replicate n t\<rparr>)"
  using assms
proof (induction n arbitrary: r)
  case 0
  then show ?case by (simp add: external_spawns_def)
next
  case (Suc n)
  let ?r = "r\<lparr>rt_queue := rt_queue r @ [t], rt_units := rt_units r - 1, rt_spawned := rt_spawned r @ [t]\<rparr>"
  have "run rt_step [Rt_spawn 0 t, Rt_thread 0, Rt_thread 0, Rt_thread 0] r = Some ?r"
    using Suc.prems by (simp add: rt_defs)
  moreover have "run rt_step (external_spawns t n) ?r = Some (r\<lparr>rt_queue := rt_queue r @ replicate (Suc n) t,
      rt_units := rt_units r - Suc n, rt_spawned := rt_spawned r @ replicate (Suc n) t\<rparr>)"
    using Suc.prems by (subst Suc.IH) auto
  ultimately show ?case
    by (simp add: external_spawns_def run_append del: run.simps flip: append.simps(2))
qed

text \<open>
  A spawn can lose its task. When the units are exhausted, \<open>spawn\<close> inside of the runtime fetches
  a task, which releases a unit, and then sends without having acquired one: queue and units then
  exceed the capacity, so that the next spawn of the same task acquires the unit,
  \<open>try_send\<close> finds the queue full, and nobody looks at its result.
\<close>

theorem spawn_loses_task:
  "\<exists>as r. run rt_step as (runtime_new 1 0 1) = Some r \<and> rt_lost r = [9] \<and> rt_bypassed r = 1 \<and>
     map wk_pc (rt_workers r) = [Wk_exec]"
proof -
  obtain c where cap: "coroutine_queue_capacity = Suc c" by (simp add: coroutine_queue_capacity_def)
  let ?r = "\<lambda>q u ts sp lost b. \<lparr>rt_queue = q, rt_units = u, rt_idle = [],
     rt_workers = [\<lparr>wk_pc = Wk_exec, wk_active = ts, wk_suspended = [], wk_sem = 0, wk_stop = False\<rparr>],
     rt_threads = [Sp_idle], rt_spawned = sp, rt_finished = [], rt_lost = lost, rt_bypassed = b\<rparr>"
  let ?go = "Rt_worker 0 Turn_yield"
  let ?spawn = "\<lambda>t. Rt_worker 0 (Turn_spawn t)"
  let ?as1 = "external_spawns 5 1 @ [?go, ?go, ?go]"
  let ?as2 = "external_spawns 7 (Suc c)"
  let ?as3 = "[?spawn 8, ?go, ?go, ?go, ?go, ?go, ?go]"
  let ?as4 = "[?spawn 9, ?go, ?go, ?go, ?go]"
  have 1: "run rt_step ?as1 (runtime_new 1 0 1) = Some (?r [] (Suc c) [5] [5] [] 0)"
    by (simp add: external_spawns_def runtime_new_def worker_new_def worker_count_def rt_defs cap)
  have 2: "run rt_step ?as2 (?r [] (Suc c) [5] [5] [] 0) =
      Some (?r (replicate (Suc c) 7) 0 [5] ([5] @ replicate (Suc c) 7) [] 0)"
    by (subst run_external_spawns) (simp_all add: cap)
  have 3: "run rt_step ?as3 (?r (replicate (Suc c) 7) 0 [5] sp [] 0) =
      Some (?r (replicate c 7 @ [8]) 1 [5,7] (sp @ [8]) [] 1)" for sp
    by (simp add: rt_defs cap)
  have 4: "run rt_step ?as4 (?r (replicate c 7 @ [8]) 1 [5,7] sp [] 1) =
      Some (?r (replicate c 7 @ [8]) 0 [5,7] (sp @ [9]) [9] 1)" for sp
    by (simp add: rt_defs cap)
  note run = run_trans [OF 1 run_trans [OF 2 run_trans [OF 3 4]]]
  show ?thesis
    by (rule exI, rule exI, rule conjI, rule run) simp
qed

text \<open>
  \<open>block_on\<close> from a task of \<open>spawn_blocking\<close> on the only worker never returns: the worker waits in its thread for a task that only it
  could fetch. Nothing is enabled any more.
\<close>

lemma block_on_deadlock:
  "\<exists>as r. run rt_step as (runtime_new 1 0 1) = Some r \<and> map wk_pc (rt_workers r) = [Wk_await 6] \<and> rt_queue r = [6] \<and>
     rt_threads r = [Sp_idle] \<and> (\<forall>turn. rt_step (Rt_worker 0 turn) r = None) \<and> rt_step (Rt_thread 0) r = None"
proof -
  let ?as = "external_spawns 5 1 @ replicate 3 (Rt_worker 0 Turn_yield) @ [Rt_worker 0 (Turn_block_on 6)] @
    replicate 4 (Rt_worker 0 Turn_yield)"
  have "\<exists>r. run rt_step ?as (runtime_new 1 0 1) = Some r \<and> map wk_pc (rt_workers r) = [Wk_await 6] \<and> rt_queue r = [6] \<and>
     rt_threads r = [Sp_idle] \<and> (\<forall>turn. rt_step (Rt_worker 0 turn) r = None) \<and> rt_step (Rt_thread 0) r = None"
    by (simp add: external_spawns_def runtime_new_def worker_new_def worker_count_def rt_defs coroutine_queue_capacity_def
        idle_workers_capacity_def numeral_eq_Suc)
  then show ?thesis by (rule exI [of _ ?as])
qed

section \<open>A worker that sleeps beside a task\<close>

text \<open>
  A spawn can be missed. A worker finds the queue empty; before it registers as idle, a thread
  sends a task and finds no idle worker to awake; then the worker registers and goes to sleep. With
  one worker (and no other spawn) the task stays in the queue for ever: no step is possible.
\<close>

theorem runtime_lost_wakeup:
  "\<exists>as r. run rt_step as (runtime_new 1 0 1) = Some r \<and> rt_queue r = [5] \<and>
     rt_threads r = [Sp_idle] \<and> map wk_pc (rt_workers r) = [Wk_sleep] \<and>
     rt_step (Rt_worker 0 Turn_yield) r = None \<and> rt_step (Rt_thread 0) r = None"
proof -
  let ?as = "[Rt_worker 0 Turn_yield, Rt_worker 0 Turn_yield, Rt_spawn 0 5, Rt_thread 0, Rt_thread 0, Rt_thread 0,
    Rt_worker 0 Turn_yield]"
  have "\<exists>r. run rt_step ?as (runtime_new 1 0 1) = Some r \<and> rt_queue r = [5] \<and>
     rt_threads r = [Sp_idle] \<and> map wk_pc (rt_workers r) = [Wk_sleep] \<and>
     rt_step (Rt_worker 0 Turn_yield) r = None \<and> rt_step (Rt_thread 0) r = None"
    by (simp add: runtime_new_def worker_new_def worker_count_def rt_defs coroutine_queue_capacity_def
        idle_workers_capacity_def)
  then show ?thesis by (rule exI [of _ ?as])
qed

text \<open>
  A stopped worker drops its tasks. \<open>run_once\<close> returns true as long as there is something to
  run, but the loop of the daemon asks for the stop first: a worker that is stopped while its
  task is suspended (or while tasks wait in the queue) shuts down with them.
\<close>

theorem shutdown_drops_tasks:
  "\<exists>as r. run rt_step as (runtime_new 1 0 1) = Some r \<and>
     map wk_pc (rt_workers r) = [Wk_shutdown] \<and> map wk_active (rt_workers r) = [[5]] \<and> rt_queue r = [6] \<and>
     rt_finished r = []"
proof -
  let ?as = "[Rt_spawn 0 5, Rt_thread 0, Rt_thread 0, Rt_thread 0, Rt_spawn 0 6, Rt_thread 0, Rt_thread 0, Rt_thread 0,
    Rt_worker 0 Turn_yield, Rt_worker 0 Turn_yield, Rt_worker 0 Turn_yield, Rt_worker 0 Turn_yield,
    Rt_stop 0, Rt_worker 0 Turn_yield, Rt_worker 0 Turn_yield]"
  have "\<exists>r. run rt_step ?as (runtime_new 1 0 1) = Some r \<and>
     map wk_pc (rt_workers r) = [Wk_shutdown] \<and> map wk_active (rt_workers r) = [[5]] \<and> rt_queue r = [6] \<and>
     rt_finished r = []"
    by (simp add: runtime_new_def worker_new_def worker_count_def rt_defs coroutine_queue_capacity_def
        idle_workers_capacity_def)
  then show ?thesis by (rule exI [of _ ?as])
qed

end
