(* ===== verification/Daemon.thy ===== *)
theory Daemon
  imports Asco_Prelude
begin

text \<open>
  \<open>asco/core/daemon.h/.cpp\<close>: the thread behind a worker, a timer or an I/O adapter, from \<open>start\<close> to \<open>join\<close>. The owner starts it and joins it,
  the thread runs its loop, and anybody may awake it. The virtual functions are part of the actions: what \<open>init\<close> and
  \<open>run_once\<close> return, and whether a \<open>run_once\<close> sleeps (once at most, like those of the library).
\<close>

section \<open>State\<close>

text \<open>The thread: waiting to begin, at the barrier, ..., inside of \<open>run_once\<close> (has it slept?), asleep, at the end.\<close>

datatype dm_pc =
    D_none
  | D_begin
  | D_barrier
  | D_name
  | D_init
  | D_release bool
  | D_check
  | D_run bool
  | D_sleep
  | D_timed_sleep
  | D_shutdown
  | D_ended

datatype dm_owner =
    Ow_new
  | Ow_assign
  | Ow_arrive
  | Ow_barrier
  | Ow_init
  | Ow_idle
  | Ow_stop
  | Ow_awake
  | Ow_join

datatype dm_event = Ev_init bool | Ev_run | Ev_shutdown

text \<open>
  \<open>dm_dthread\<close>: the member holds a thread that can be joined. \<open>dm_arrived\<close>: who is at the barrier (owner, thread).
  \<open>dm_unassigned_use\<close>: the thread has looked at the member before it was assigned. \<open>dm_hooked\<close>: the hooks that were called.
\<close>

record daemon =
  dm_dthread :: bool
  dm_pc :: dm_pc
  dm_owner :: dm_owner
  dm_init_sem :: nat
  dm_sem :: nat
  dm_arrived :: "bool \<times> bool"
  dm_stop :: bool
  dm_joined :: bool
  dm_hooks :: "nat list"
  dm_hooked :: "nat list"
  dm_events :: "dm_event list"
  dm_unassigned_use :: bool

definition daemon_new :: daemon where
  "daemon_new = \<lparr>dm_dthread = False, dm_pc = D_none, dm_owner = Ow_new, dm_init_sem = 0, dm_sem = 0, dm_arrived = (False, False),
     dm_stop = False, dm_joined = False, dm_hooks = [], dm_hooked = [], dm_events = [], dm_unassigned_use = False\<rparr>"

section \<open>Operations\<close>

definition dm_awake :: "daemon \<Rightarrow> daemon" where
  "dm_awake d = d\<lparr>dm_sem := dm_sem d + 1, dm_hooked := dm_hooked d @ dm_hooks d\<rparr>"

definition register_awake_hook :: "nat \<Rightarrow> daemon \<Rightarrow> daemon" where
  "register_awake_hook h d = d\<lparr>dm_hooks := dm_hooks d @ [h]\<rparr>"

text \<open>\<open>start\<close>: the thread exists before the member holds it. The temporary it returns waits for \<open>init\<close>.\<close>

definition dm_start :: "daemon \<Rightarrow> daemon option" where
  "dm_start d =
     (case dm_owner d of
        Ow_new \<Rightarrow> Some (d\<lparr>dm_pc := D_begin, dm_owner := Ow_assign\<rparr>)
      | Ow_assign \<Rightarrow> Some (d\<lparr>dm_dthread := True, dm_owner := Ow_arrive\<rparr>)
      | Ow_arrive \<Rightarrow> Some (d\<lparr>dm_arrived := (True, snd (dm_arrived d)), dm_owner := Ow_barrier\<rparr>)
      | Ow_barrier \<Rightarrow> if dm_arrived d = (True, True) then Some (d\<lparr>dm_owner := Ow_init\<rparr>) else None
      | Ow_init \<Rightarrow> if 0 < dm_init_sem d then Some (d\<lparr>dm_init_sem := dm_init_sem d - 1, dm_owner := Ow_idle\<rparr>) else None
      | _ \<Rightarrow> None)"

text \<open>The destructor calls \<open>join\<close>, after that of a derived class may have done so.\<close>

definition dm_join :: "daemon \<Rightarrow> daemon option" where
  "dm_join d =
     (case dm_owner d of
        Ow_new \<Rightarrow> Some d
      | Ow_idle \<Rightarrow> Some (if dm_joined d \<or> \<not> dm_dthread d then d else d\<lparr>dm_owner := Ow_stop\<rparr>)
      | Ow_stop \<Rightarrow> Some (d\<lparr>dm_stop := True, dm_owner := Ow_awake\<rparr>)
      | Ow_awake \<Rightarrow> Some ((dm_awake d)\<lparr>dm_owner := Ow_join\<rparr>)
      | Ow_join \<Rightarrow> if dm_pc d = D_ended then Some (d\<lparr>dm_dthread := False, dm_joined := True, dm_owner := Ow_idle\<rparr>) else None
      | _ \<Rightarrow> None)"

text \<open>The thread. \<open>D_yes\<close> and \<open>D_no\<close> are the answers of the virtual functions.\<close>

datatype dm_choice = D_yes | D_no | D_goto_sleep | D_goto_timed_sleep | D_go_on

definition dm_thread :: "dm_choice \<Rightarrow> daemon \<Rightarrow> daemon option" where
  "dm_thread ch d =
     (case (dm_pc d, ch) of
        (D_begin, D_go_on) \<Rightarrow> Some (d\<lparr>dm_arrived := (fst (dm_arrived d), True), dm_pc := D_barrier\<rparr>)
      | (D_barrier, D_go_on) \<Rightarrow> if dm_arrived d = (True, True) then Some (d\<lparr>dm_pc := D_name\<rparr>) else None
      | (D_name, D_go_on) \<Rightarrow> Some (d\<lparr>dm_pc := D_init, dm_unassigned_use := dm_unassigned_use d \<or> \<not> dm_dthread d\<rparr>)
      | (D_init, D_yes) \<Rightarrow> Some (d\<lparr>dm_pc := D_release True, dm_events := dm_events d @ [Ev_init True]\<rparr>)
      | (D_init, D_no) \<Rightarrow> Some (d\<lparr>dm_pc := D_release False, dm_events := dm_events d @ [Ev_init False]\<rparr>)
      | (D_release b, D_go_on) \<Rightarrow> Some (d\<lparr>dm_init_sem := dm_init_sem d + 1, dm_pc := if b then D_check else D_shutdown\<rparr>)
      | (D_check, D_go_on) \<Rightarrow>
          Some (if dm_stop d then d\<lparr>dm_pc := D_shutdown\<rparr> else d\<lparr>dm_pc := D_run False, dm_events := dm_events d @ [Ev_run]\<rparr>)
      | (D_run slept, D_yes) \<Rightarrow> Some (d\<lparr>dm_pc := D_check\<rparr>)
      | (D_run slept, D_no) \<Rightarrow> Some (d\<lparr>dm_pc := D_shutdown\<rparr>)
      | (D_run False, D_goto_sleep) \<Rightarrow> Some (d\<lparr>dm_pc := D_sleep\<rparr>)
      | (D_run False, D_goto_timed_sleep) \<Rightarrow> Some (d\<lparr>dm_pc := D_timed_sleep\<rparr>)
      | (D_sleep, D_go_on) \<Rightarrow> if 0 < dm_sem d then Some (d\<lparr>dm_sem := dm_sem d - 1, dm_pc := D_run True\<rparr>) else None
      | (D_timed_sleep, D_go_on) \<Rightarrow> if 0 < dm_sem d then Some (d\<lparr>dm_sem := dm_sem d - 1, dm_pc := D_run True\<rparr>) else None
      | (D_timed_sleep, D_no) \<Rightarrow> Some (d\<lparr>dm_pc := D_run True\<rparr>)
      | (D_shutdown, D_go_on) \<Rightarrow> Some (d\<lparr>dm_pc := D_ended, dm_events := dm_events d @ [Ev_shutdown]\<rparr>)
      | _ \<Rightarrow> None)"

datatype dm_action = Dm_start | Dm_join | Dm_thread dm_choice | Dm_awake | Dm_hook nat

text \<open>Hooks are registered by the owner, before it starts the thread or in a constructor.\<close>

fun daemon_step :: "dm_action \<Rightarrow> daemon \<Rightarrow> daemon option" where
  "daemon_step Dm_start d = dm_start d"
| "daemon_step Dm_join d = dm_join d"
| "daemon_step (Dm_thread ch) d = dm_thread ch d"
| "daemon_step Dm_awake d = Some (dm_awake d)"
| "daemon_step (Dm_hook h) d = Some (register_awake_hook h d)"

section \<open>The life of a daemon\<close>

text \<open>The thread has gone past \<open>init\<close>; how much is left for it once it has been asked to stop.\<close>

definition released :: "dm_pc \<Rightarrow> bool" where
  "released pc \<longleftrightarrow> pc = D_check \<or> pc = D_sleep \<or> pc = D_timed_sleep \<or> pc = D_shutdown \<or> pc = D_ended \<or> pc = D_run True \<or> pc = D_run False"

fun dm_rank :: "dm_pc \<Rightarrow> nat" where
  "dm_rank D_ended = 0"
| "dm_rank D_shutdown = 1"
| "dm_rank D_check = 2"
| "dm_rank (D_run True) = 3"
| "dm_rank D_sleep = 4"
| "dm_rank D_timed_sleep = 4"
| "dm_rank (D_run False) = 5"
| "dm_rank (D_release b) = 6"
| "dm_rank D_init = 7"
| "dm_rank D_name = 8"
| "dm_rank D_barrier = 9"
| "dm_rank D_begin = 10"
| "dm_rank D_none = 11"

text \<open>What has been called: \<open>init\<close> first, then \<open>run_once\<close> if it succeeded, and \<open>shutdown\<close> last.\<close>

fun events_of :: "dm_pc \<Rightarrow> dm_event list \<Rightarrow> bool" where
  "events_of D_ended evs = (\<exists>b k. (b \<or> k = 0) \<and> evs = Ev_init b # replicate k Ev_run @ [Ev_shutdown])"
| "events_of D_shutdown evs = (\<exists>b k. (b \<or> k = 0) \<and> evs = Ev_init b # replicate k Ev_run)"
| "events_of (D_release b) evs = (evs = [Ev_init b])"
| "events_of D_check evs = (\<exists>k. evs = Ev_init True # replicate k Ev_run)"
| "events_of (D_run b) evs = (\<exists>k. evs = Ev_init True # replicate k Ev_run)"
| "events_of D_sleep evs = (\<exists>k. evs = Ev_init True # replicate k Ev_run)"
| "events_of D_timed_sleep evs = (\<exists>k. evs = Ev_init True # replicate k Ev_run)"
| "events_of pc evs = (evs = [])"

text \<open>What holds at each point of the owner.\<close>

definition at_barrier :: "bool \<Rightarrow> daemon \<Rightarrow> bool" where
  "at_barrier own d \<longleftrightarrow>
     dm_pc d = D_begin \<and> dm_arrived d = (own, False) \<or>
     dm_pc d \<noteq> D_none \<and> dm_pc d \<noteq> D_begin \<and> dm_arrived d = (own, True) \<and> (own \<or> dm_pc d = D_barrier)"

definition running :: "daemon \<Rightarrow> bool" where
  "running d \<longleftrightarrow> dm_arrived d = (True, True) \<and> released (dm_pc d) \<and> dm_init_sem d = 0"

fun owner_ok :: "dm_owner \<Rightarrow> daemon \<Rightarrow> bool" where
  "owner_ok Ow_new d = (dm_pc d = D_none \<and> dm_arrived d = (False, False) \<and> \<not> dm_dthread d \<and> dm_init_sem d = 0 \<and> \<not> dm_stop d \<and> \<not> dm_joined d)"
| "owner_ok Ow_assign d = (at_barrier False d \<and> \<not> dm_dthread d \<and> dm_init_sem d = 0 \<and> \<not> dm_stop d \<and> \<not> dm_joined d)"
| "owner_ok Ow_arrive d = (at_barrier False d \<and> dm_dthread d \<and> dm_init_sem d = 0 \<and> \<not> dm_stop d \<and> \<not> dm_joined d)"
| "owner_ok Ow_barrier d =
    (at_barrier True d \<and> dm_dthread d \<and> dm_init_sem d = of_bool (released (dm_pc d)) \<and> \<not> dm_stop d \<and> \<not> dm_joined d)"
| "owner_ok Ow_init d =
    (at_barrier True d \<and> dm_pc d \<noteq> D_begin \<and> dm_dthread d \<and> dm_init_sem d = of_bool (released (dm_pc d)) \<and> \<not> dm_stop d \<and> \<not> dm_joined d)"
| "owner_ok Ow_idle d =
    (running d \<and> dm_stop d = dm_joined d \<and> dm_dthread d = (\<not> dm_joined d) \<and> (dm_joined d \<longrightarrow> dm_pc d = D_ended))"
| "owner_ok Ow_stop d = (running d \<and> dm_dthread d \<and> \<not> dm_stop d \<and> \<not> dm_joined d)"
| "owner_ok Ow_awake d = (running d \<and> dm_dthread d \<and> dm_stop d \<and> \<not> dm_joined d)"
| "owner_ok Ow_join d =
    (running d \<and> dm_dthread d \<and> dm_stop d \<and> \<not> dm_joined d \<and> (dm_pc d = D_sleep \<or> dm_pc d = D_run False \<longrightarrow> 0 < dm_sem d))"

definition dm_life :: "dm_event list \<Rightarrow> bool" where
  "dm_life evs \<longleftrightarrow> evs = [] \<or>
     (\<exists>b k. (b \<or> k = 0) \<and> (evs = Ev_init b # replicate k Ev_run \<or> evs = Ev_init b # replicate k Ev_run @ [Ev_shutdown]))"

definition dm_inv :: "daemon \<Rightarrow> bool" where
  "dm_inv d \<longleftrightarrow> owner_ok (dm_owner d) d \<and> \<not> dm_unassigned_use d \<and> events_of (dm_pc d) (dm_events d)"

lemma dm_start_inv:
  assumes inv: "dm_inv d" and step: "dm_start d = Some d'"
  shows "dm_inv d'"
proof (cases "dm_owner d")
  case Ow_new
  with inv step show ?thesis by (auto simp: dm_inv_def dm_start_def at_barrier_def)
next
  case Ow_assign
  with inv step show ?thesis by (auto simp: dm_inv_def dm_start_def at_barrier_def)
next
  case Ow_arrive
  with inv step show ?thesis by (auto simp: dm_inv_def dm_start_def at_barrier_def released_def)
next
  case Ow_barrier
  with inv step show ?thesis by (auto simp: dm_inv_def dm_start_def at_barrier_def split: if_splits)
next
  case Ow_init
  with inv step show ?thesis by (auto simp: dm_inv_def dm_start_def at_barrier_def running_def split: if_splits)
qed (use step in \<open>simp_all add: dm_start_def\<close>)

lemma dm_join_inv:
  assumes inv: "dm_inv d" and step: "dm_join d = Some d'"
  shows "dm_inv d'"
proof (cases "dm_owner d")
  case Ow_idle
  with inv step show ?thesis by (auto simp: dm_inv_def dm_join_def running_def split: if_splits)
next
  case Ow_stop
  with inv step show ?thesis by (auto simp: dm_inv_def dm_join_def running_def)
next
  case Ow_awake
  with inv step show ?thesis by (auto simp: dm_inv_def dm_join_def running_def dm_awake_def)
next
  case Ow_join
  with inv step show ?thesis by (auto simp: dm_inv_def dm_join_def running_def split: if_splits)
qed (use inv step in \<open>simp_all add: dm_join_def\<close>)

text \<open>A step of the thread after the barrier, seen from the owner.\<close>

lemma dm_thread_owner:
  assumes own: "owner_ok (dm_owner d) d" and pc': "dm_pc d' \<noteq> D_none" "dm_pc d' \<noteq> D_begin" "dm_pc d' \<noteq> D_barrier"
    and still: "dm_owner d' = dm_owner d" "dm_arrived d' = dm_arrived d" "dm_dthread d' = dm_dthread d" "dm_stop d' = dm_stop d"
      "dm_joined d' = dm_joined d" "dm_arrived d = (True, True)" "dm_pc d \<noteq> D_ended"
    and init: "dm_init_sem d' + of_bool (released (dm_pc d)) = dm_init_sem d + of_bool (released (dm_pc d'))" "released (dm_pc d) \<Longrightarrow> released (dm_pc d')"
    and sleep: "dm_stop d \<Longrightarrow> dm_pc d' = D_sleep \<or> dm_pc d' = D_run False \<Longrightarrow> dm_pc d = D_run False \<and> dm_sem d' = dm_sem d"
  shows "owner_ok (dm_owner d') d'"
  using assms by (cases "dm_owner d") (auto simp: at_barrier_def running_def)

lemma dm_past_barrier:
  assumes "owner_ok (dm_owner d) d" "dm_pc d \<noteq> D_none" "dm_pc d \<noteq> D_begin" "dm_pc d \<noteq> D_barrier"
  shows "dm_arrived d = (True, True) \<and> (dm_dthread d \<or> dm_pc d = D_ended)"
  using assms by (cases "dm_owner d") (auto simp: at_barrier_def running_def)

lemma sem_same: "d\<lparr>dm_sem := dm_sem d, dm_pc := pc\<rparr> = d\<lparr>dm_pc := pc\<rparr>"
  by (cases d) simp

lemma dm_thread_inv:
  assumes inv: "dm_inv d" and step: "dm_thread ch d = Some d'"
  shows "dm_inv d'"
proof -
  have own: "owner_ok (dm_owner d) d" and use: "\<not> dm_unassigned_use d" and ev: "events_of (dm_pc d) (dm_events d)"
    using inv by (simp_all add: dm_inv_def)
  note past = dm_past_barrier [OF own]
  show ?thesis
  proof (cases "dm_pc d")
    case D_begin
    with step have d': "d' = d\<lparr>dm_arrived := (fst (dm_arrived d), True), dm_pc := D_barrier\<rparr>" by (cases ch) (simp_all add: dm_thread_def)
    have "owner_ok (dm_owner d') d'" using own D_begin by (cases "dm_owner d") (auto simp: d' at_barrier_def running_def released_def)
    with use ev D_begin show ?thesis by (simp add: dm_inv_def d')
  next
    case D_barrier
    with step have d': "d' = d\<lparr>dm_pc := D_name\<rparr>" and a: "dm_arrived d = (True, True)"
      by (cases ch; simp add: dm_thread_def split: if_splits)+
    have "owner_ok (dm_owner d') d'" using own D_barrier a by (cases "dm_owner d") (auto simp: d' at_barrier_def running_def released_def)
    with use ev D_barrier show ?thesis by (simp add: dm_inv_def d')
  next
    case D_name
    with step have d': "d' = d\<lparr>dm_pc := D_init, dm_unassigned_use := dm_unassigned_use d \<or> \<not> dm_dthread d\<rparr>" by (cases ch) (simp_all add: dm_thread_def)
    have "owner_ok (dm_owner d') d'" by (rule dm_thread_owner [OF own]) (use D_name past in \<open>simp_all add: d' released_def\<close>)
    with use ev D_name past show ?thesis by (simp add: dm_inv_def d')
  next
    case D_init
    with step have "\<exists>b. d' = d\<lparr>dm_pc := D_release b, dm_events := dm_events d @ [Ev_init b]\<rparr>" by (cases ch) (auto simp: dm_thread_def)
    then obtain b where d': "d' = d\<lparr>dm_pc := D_release b, dm_events := dm_events d @ [Ev_init b]\<rparr>" by blast
    have "owner_ok (dm_owner d') d'" by (rule dm_thread_owner [OF own]) (use D_init past in \<open>simp_all add: d' released_def\<close>)
    with use ev D_init show ?thesis by (simp add: dm_inv_def d')
  next
    case (D_release b)
    with step have d': "d' = d\<lparr>dm_init_sem := dm_init_sem d + 1, dm_pc := if b then D_check else D_shutdown\<rparr>"
      by (cases ch) (simp_all add: dm_thread_def)
    have "owner_ok (dm_owner d') d'" by (rule dm_thread_owner [OF own]) (use D_release past in \<open>auto simp: d' released_def split: if_splits\<close>)
    moreover have "events_of (dm_pc d') (dm_events d')" using ev D_release by (cases b) (auto simp: d' intro: exI [of _ 0])
    ultimately show ?thesis using use by (simp add: dm_inv_def d')
  next
    case D_check
    with ev obtain k where k: "dm_events d = Ev_init True # replicate k Ev_run" by auto
    show ?thesis
    proof (cases "dm_stop d")
      case True
      with step D_check have d': "d' = d\<lparr>dm_pc := D_shutdown\<rparr>" by (cases ch) (simp_all add: dm_thread_def)
      have "owner_ok (dm_owner d') d'" by (rule dm_thread_owner [OF own]) (use D_check past in \<open>simp_all add: d' released_def\<close>)
      with use k show ?thesis by (auto simp: dm_inv_def d')
    next
      case False
      with step D_check have d': "d' = d\<lparr>dm_pc := D_run False, dm_events := dm_events d @ [Ev_run]\<rparr>" by (cases ch) (simp_all add: dm_thread_def)
      have own': "owner_ok (dm_owner d') d'" by (rule dm_thread_owner [OF own]) (use D_check past False in \<open>simp_all add: d' released_def\<close>)
      have "dm_events d' = Ev_init True # replicate (Suc k) Ev_run" using k by (simp add: d' replicate_append_same)
      moreover have "events_of (D_run False) (Ev_init True # replicate (Suc k) Ev_run)"
        by (simp only: events_of.simps) (rule exI [of _ "Suc k"], rule refl)
      ultimately have "events_of (dm_pc d') (dm_events d')" by (simp add: d' del: events_of.simps)
      with own' use show ?thesis by (simp add: dm_inv_def d')
    qed
  next
    case (D_run b)
    with ev obtain k where k: "dm_events d = Ev_init True # replicate k Ev_run" by auto
    from step D_run have "\<exists>pc. d' = d\<lparr>dm_pc := pc\<rparr> \<and> (pc = D_check \<or> pc = D_shutdown \<or> (b = False \<and> (pc = D_sleep \<or> pc = D_timed_sleep)))"
      by (cases ch; cases b) (auto simp: dm_thread_def)
    then obtain pc where d': "d' = d\<lparr>dm_pc := pc\<rparr>"
      and pc: "pc = D_check \<or> pc = D_shutdown \<or> (b = False \<and> (pc = D_sleep \<or> pc = D_timed_sleep))" by blast
    have rel: "released (D_run b)" by (cases b) (simp_all add: released_def)
    have pc': "released pc" "pc \<noteq> D_none" "pc \<noteq> D_begin" "pc \<noteq> D_barrier" "pc \<noteq> D_run False" "pc = D_sleep \<Longrightarrow> b = False"
      using pc by (auto simp: released_def)
    have "owner_ok (dm_owner d') d'" by (rule dm_thread_owner [OF own]) (use D_run past rel pc' in \<open>simp_all add: d'\<close>)
    moreover have "events_of pc (dm_events d)" using pc k by (elim disjE conjE) (simp_all add: exI [of _ True])
    ultimately show ?thesis using use by (simp add: dm_inv_def d')
  next
    case D_sleep
    with step have d': "d' = d\<lparr>dm_sem := dm_sem d - 1, dm_pc := D_run True\<rparr>" by (cases ch) (simp_all add: dm_thread_def split: if_splits)
    have "owner_ok (dm_owner d') d'" by (rule dm_thread_owner [OF own]) (use D_sleep past in \<open>simp_all add: d' released_def\<close>)
    with use ev D_sleep show ?thesis by (simp add: dm_inv_def d')
  next
    case D_timed_sleep
    with step have "d' = d\<lparr>dm_sem := dm_sem d - 1, dm_pc := D_run True\<rparr> \<or> d' = d\<lparr>dm_pc := D_run True\<rparr>"
      by (cases ch) (simp_all add: dm_thread_def split: if_splits)
    then have "\<exists>n. d' = d\<lparr>dm_sem := n, dm_pc := D_run True\<rparr>" by (metis sem_same)
    then obtain n where d': "d' = d\<lparr>dm_sem := n, dm_pc := D_run True\<rparr>" by blast
    have "owner_ok (dm_owner d') d'" by (rule dm_thread_owner [OF own]) (use D_timed_sleep past in \<open>simp_all add: d' released_def\<close>)
    with use ev D_timed_sleep show ?thesis by (simp add: dm_inv_def d')
  next
    case D_shutdown
    with step have d': "d' = d\<lparr>dm_pc := D_ended, dm_events := dm_events d @ [Ev_shutdown]\<rparr>" by (cases ch) (simp_all add: dm_thread_def)
    have "owner_ok (dm_owner d') d'" by (rule dm_thread_owner [OF own]) (use D_shutdown past in \<open>simp_all add: d' released_def\<close>)
    moreover have "events_of (dm_pc d') (dm_events d')" using ev D_shutdown by (auto simp: d')
    ultimately show ?thesis using use by (simp add: dm_inv_def d')
  qed (use step in \<open>cases ch; simp add: dm_thread_def\<close>)+
qed

lemma daemon_step_inv [asco_inv]:
  assumes "dm_inv d" "daemon_step a d = Some d'"
  shows "dm_inv d'"
proof (cases a)
  case Dm_awake
  with assms show ?thesis by (cases "dm_owner d") (auto simp: dm_awake_def dm_inv_def at_barrier_def running_def)
next
  case (Dm_hook h)
  with assms show ?thesis by (cases "dm_owner d") (auto simp: register_awake_hook_def dm_inv_def at_barrier_def running_def)
next
  case Dm_start
  with assms dm_start_inv show ?thesis by simp
next
  case Dm_join
  with assms dm_join_inv show ?thesis by simp
next
  case (Dm_thread ch)
  with assms dm_thread_inv show ?thesis by simp
qed

interpretation daemons: invariant_system daemon_step dm_inv
  by unfold_locales (rule daemon_step_inv)

lemma daemon_new_inv: "dm_inv daemon_new"
  by (simp add: dm_inv_def daemon_new_def)

section \<open>What a daemon promises\<close>

text \<open>What is left for the thread grows smaller with every step once the stop has been requested.\<close>

lemma dm_rank_decreases:
  assumes "dm_thread ch d = Some d'" "dm_stop d"
  shows "dm_rank (dm_pc d') < dm_rank (dm_pc d)"
proof (cases "dm_pc d")
  case (D_run b)
  with assms show ?thesis by (cases ch; cases b) (auto simp: dm_thread_def)
next
  case (D_release b)
  with assms show ?thesis by (cases ch; cases b) (auto simp: dm_thread_def)
qed (use assms in \<open>cases ch; auto simp: dm_thread_def split: if_splits\<close>)+

lemma dm_joining_goes_on:
  assumes inv: "dm_inv d" and own: "dm_owner d = Ow_join" and pc: "dm_pc d \<noteq> D_ended"
  shows "\<exists>ch. dm_thread ch d \<noteq> None"
proof -
  have r: "released (dm_pc d)" "dm_pc d = D_sleep \<or> dm_pc d = D_run False \<longrightarrow> 0 < dm_sem d"
    using inv own by (simp_all add: dm_inv_def running_def)
  then consider "dm_pc d = D_check" | "dm_pc d = D_sleep" "0 < dm_sem d" | "dm_pc d = D_timed_sleep" | "dm_pc d = D_shutdown" | b where "dm_pc d = D_run b"
    using pc by (auto simp: released_def)
  then show ?thesis
  proof cases
    case 1
    then have "dm_thread D_go_on d \<noteq> None" by (simp add: dm_thread_def)
    then show ?thesis by blast
  next
    case 2
    then have "dm_thread D_go_on d \<noteq> None" by (simp add: dm_thread_def)
    then show ?thesis by blast
  next
    case 3
    then have "dm_thread D_no d \<noteq> None" by (simp add: dm_thread_def)
    then show ?thesis by blast
  next
    case 4
    then have "dm_thread D_go_on d \<noteq> None" by (simp add: dm_thread_def)
    then show ?thesis by blast
  next
    case (5 b)
    then have "dm_thread D_yes d \<noteq> None" by (cases b) (simp_all add: dm_thread_def)
    then show ?thesis by blast
  qed
qed

text \<open>
  C38: \<open>join\<close> returns: once the owner has asked the thread of a daemon to stop and has awakened it, the thread is never stuck (it is not asleep
  without a unit to take), and each of its steps brings it nearer to its end, whoever else awakes it in between.
\<close>

theorem daemon_join_returns:
  assumes "run daemon_step as daemon_new = Some d" "dm_owner d = Ow_join"
  shows "(dm_pc d = D_ended \<or> (\<exists>ch. dm_thread ch d \<noteq> None)) \<and>
    (\<forall>ch d'. dm_thread ch d = Some d' \<longrightarrow> dm_rank (dm_pc d') < dm_rank (dm_pc d))"
proof -
  have inv: "dm_inv d" by (rule daemons.run_inv [OF daemon_new_inv assms(1)])
  then have "dm_stop d" using assms(2) by (simp add: dm_inv_def)
  with dm_joining_goes_on [OF inv assms(2)] dm_rank_decreases show ?thesis by blast
qed

lemma lifeI:
  "b \<or> k = 0 \<Longrightarrow> dm_life (Ev_init b # replicate k Ev_run)"
  "b \<or> k = 0 \<Longrightarrow> dm_life (Ev_init b # replicate k Ev_run @ [Ev_shutdown])"
  unfolding dm_life_def by blast+

lemma events_of_life: "events_of pc evs \<Longrightarrow> dm_life evs"
proof (cases pc)
  case (D_release b)
  assume "events_of pc evs"
  with D_release lifeI(1) [of b 0] show ?thesis by simp
next
  case D_ended
  assume "events_of pc evs"
  with D_ended lifeI(2) show ?thesis by (auto simp del: append_Cons)
qed (auto simp: dm_life_def [of "[]"] intro: lifeI(1))

text \<open>
  The life of a daemon: the thread uses \<open>m_dthread\<close> only after the owner has assigned it; \<open>start\<close> returns after \<open>init\<close>; \<open>init\<close> is called once and
  first, \<open>run_once\<close> only after it succeeded, \<open>shutdown\<close> once and last; and after \<open>join\<close> the thread has ended.
\<close>

theorem daemon_life:
  assumes "run daemon_step as daemon_new = Some d"
  shows "\<not> dm_unassigned_use d \<and>
    (dm_owner d = Ow_idle \<longrightarrow> (\<exists>b evs. dm_events d = Ev_init b # evs)) \<and>
    dm_life (dm_events d) \<and>
    (dm_joined d \<longrightarrow> dm_pc d = D_ended \<and> last (dm_events d) = Ev_shutdown)"
proof -
  have inv: "dm_inv d" by (rule daemons.run_inv [OF daemon_new_inv assms])
  then have ev: "events_of (dm_pc d) (dm_events d)" by (simp add: dm_inv_def)
  have "dm_joined d \<Longrightarrow> dm_pc d = D_ended" using inv by (cases "dm_owner d") (simp_all add: dm_inv_def)
  moreover have "last (dm_events d) = Ev_shutdown" if "dm_pc d = D_ended" using ev that by auto
  moreover have "\<exists>b evs. dm_events d = Ev_init b # evs" if "dm_owner d = Ow_idle"
    using inv ev that by (cases "dm_pc d") (auto simp: dm_inv_def running_def released_def)
  moreover have "dm_life (dm_events d)" by (rule events_of_life [OF ev])
  ultimately show ?thesis using inv by (simp add: dm_inv_def)
qed

definition daemon_example :: "dm_action list" where
  "daemon_example = [Dm_start, Dm_thread D_go_on, Dm_start, Dm_start, Dm_start, Dm_thread D_go_on, Dm_thread D_go_on, Dm_thread D_yes,
     Dm_thread D_go_on, Dm_start, Dm_thread D_go_on, Dm_thread D_goto_sleep, Dm_join, Dm_join, Dm_join]"

lemmas dm_eval = daemon_example_def daemon_new_def dm_start_def dm_join_def dm_thread_def dm_awake_def

lemma daemon_join_returns_witness:
  "\<exists>d ch. run daemon_step daemon_example daemon_new = Some d \<and> dm_pc d = D_sleep \<and> dm_thread ch d \<noteq> None"
proof -
  have "\<exists>d. run daemon_step daemon_example daemon_new = Some d \<and> dm_owner d = Ow_join \<and> dm_pc d = D_sleep"
    by (simp add: dm_eval)
  then obtain d where d: "run daemon_step daemon_example daemon_new = Some d" "dm_owner d = Ow_join" "dm_pc d = D_sleep"
    by (elim exE conjE) (rule that)
  with daemon_join_returns [OF d(1,2)] show ?thesis by auto
qed

lemma daemon_life_witness:
  "\<exists>d. run daemon_step (daemon_example @ [Dm_thread D_go_on, Dm_thread D_yes, Dm_thread D_go_on, Dm_thread D_go_on, Dm_join]) daemon_new = Some d \<and>
     dm_events d = [Ev_init True, Ev_run, Ev_shutdown] \<and> last (dm_events d) = Ev_shutdown \<and> dm_pc d = D_ended"
proof -
  let ?as = "daemon_example @ [Dm_thread D_go_on, Dm_thread D_yes, Dm_thread D_go_on, Dm_thread D_go_on, Dm_join]"
  have "\<exists>d. run daemon_step ?as daemon_new = Some d \<and> dm_joined d \<and> dm_events d = [Ev_init True, Ev_run, Ev_shutdown]"
    by (simp add: dm_eval)
  then obtain d where d: "run daemon_step ?as daemon_new = Some d" "dm_joined d" "dm_events d = [Ev_init True, Ev_run, Ev_shutdown]"
    by (elim exE conjE) (rule that)
  with daemon_life [OF d(1)] show ?thesis by (intro exI [of _ d]) simp
qed

end
