(* ===== verification/Coroutine_Pool.thy ===== *)
theory Coroutine_Pool
  imports Asco_Prelude "HOL-Library.Multiset"
begin

text \<open>
  \<open>asco/core/mm/coroutine_pool\<close>: the allocator of coroutine frames. Every thread has a pool with one
  free list per size class and a list of blocks from which new objects are cut. Objects may be
  deallocated on another thread than the one that allocated them.

  An address inside of a block is the block and the index of a unit (64 bytes). The memory
  resource below (\<open>std::pmr\<close>) is not part of the program: the actions say whether it fails or which
  block it hands out, and the model relies on that block being none of those in use. Calls are
  atomic: a pool belongs to one thread, and what threads share is only the counter of units given
  back, which the owner of a block reads once per visit and after whose last increment
  nobody uses the block.
\<close>

section \<open>State\<close>

definition block_unit :: nat where "block_unit = 64"
definition max_object_size :: nat where "max_object_size = 4096"
definition giveback_threshold :: nat where "giveback_threshold = 1024"
definition freelist_count :: nat where "freelist_count = 63"

type_synonym addr = "nat \<times> nat"

record block =
  bk_size :: nat
  unit_count :: nat
  allocating_index :: nat
  gaveback_unit_count :: nat

text \<open>An element of a free list with the \<open>length\<close> that is stored in it.\<close>

record pool =
  freelist :: "(addr \<times> nat) list list"
  blocks_list :: "nat list"
  block_allocate_exp :: nat
  allocate_count :: nat
  block_miss_count :: nat

text \<open>
  \<open>trailer\<close> is the last word of an object, by the address of its last unit: the block it comes
  from.
\<close>

record memory =
  blocks :: "nat \<Rightarrow> block option"
  trailer :: "addr \<Rightarrow> nat option"

definition pool_new :: pool where
  "pool_new = \<lparr>freelist = replicate freelist_count [], blocks_list = [], block_allocate_exp = 0,
     allocate_count = 0, block_miss_count = 0\<rparr>"

section \<open>Blocks\<close>

text \<open>\<open>std::size_t\<close> wraps around.\<close>

definition needed_size :: "nat \<Rightarrow> nat" where
  "needed_size n = (n + 8 + 7) mod 2 ^ 64 div 8 * 8"

definition needed_units :: "nat \<Rightarrow> nat" where
  "needed_units n = (n - 1) div block_unit + 1"

text \<open>The index of the free list.\<close>

definition freelist_index :: "nat \<Rightarrow> nat" where
  "freelist_index n = (n - 1) div block_unit"

definition block_new :: "nat \<Rightarrow> block" where
  "block_new block_count =
     (let sz = max_object_size * block_count
      in \<lparr>bk_size = sz, unit_count = sz div block_unit - 1, allocating_index = 0, gaveback_unit_count = 0\<rparr>)"

definition block_allocate :: "nat \<Rightarrow> nat \<Rightarrow> memory \<Rightarrow> (addr \<times> memory) option" where
  "block_allocate b n m =
     (case blocks m b of
        None \<Rightarrow> None
      | Some bk \<Rightarrow>
          let k = needed_units n; i = allocating_index bk in
          if i + k > unit_count bk then None
          else Some ((b, i), m\<lparr>blocks := (blocks m)(b \<mapsto> bk\<lparr>allocating_index := i + k\<rparr>),
                               trailer := (trailer m)((b, i + k - 1) \<mapsto> b)\<rparr>))"

definition block_deallocate :: "nat \<Rightarrow> nat \<Rightarrow> memory \<Rightarrow> memory" where
  "block_deallocate b n m =
     m\<lparr>blocks := (blocks m)(b := map_option (\<lambda>bk. bk\<lparr>gaveback_unit_count := gaveback_unit_count bk + needed_units n\<rparr>)
        (blocks m b))\<rparr>"

definition can_free :: "nat \<Rightarrow> memory \<Rightarrow> bool" where
  "can_free b m = (case blocks m b of None \<Rightarrow> False | Some bk \<Rightarrow> gaveback_unit_count bk = unit_count bk)"

section \<open>The pool\<close>

definition update_block_allocate_exp :: "pool \<Rightarrow> pool" where
  "update_block_allocate_exp p =
     (if block_miss_count p = 0 then p
      else if allocate_count p div block_miss_count p \<le> 2
      then p\<lparr>block_allocate_exp := block_allocate_exp p + 1\<rparr>
      else p\<lparr>block_allocate_exp := (if block_allocate_exp p = 0 then 0 else block_allocate_exp p - 1)\<rparr>)"

text \<open>
  The walk along the list of blocks: the first block with room serves; blocks without room all of
  whose units were given back are unlinked and freed on the way. The result is the
  address, the remaining list and the memory.
\<close>

fun walk_blocks :: "nat \<Rightarrow> nat list \<Rightarrow> memory \<Rightarrow> addr option \<times> nat list \<times> memory" where
  "walk_blocks n [] m = (None, [], m)"
| "walk_blocks n (b # bs) m =
     (case block_allocate b n m of
        Some (a, m) \<Rightarrow> (Some a, b # bs, m)
      | None \<Rightarrow>
          if can_free b m then walk_blocks n bs (m\<lparr>blocks := (blocks m)(b := None)\<rparr>)
          else (let (r, bs, m) = walk_blocks n bs m in (r, b # bs, m)))"

text \<open>
  \<open>allocate\<close> of an object that is not too large, after \<open>needed_size\<close>. \<open>fresh\<close> is what the memory
  resource answers if it is asked: a block, or \<open>None\<close> for \<open>std::bad_alloc\<close>.
\<close>

definition pool_allocate :: "nat \<Rightarrow> nat option \<Rightarrow> pool \<Rightarrow> memory \<Rightarrow> addr option \<times> pool \<times> memory" where
  "pool_allocate n fresh p m =
     (let p = p\<lparr>allocate_count := allocate_count p + 1\<rparr>; index = freelist_index n in
      case freelist p ! index of
        (a, _) # rest \<Rightarrow> (Some a, update_block_allocate_exp (p\<lparr>freelist := (freelist p)[index := rest]\<rparr>), m)
      | [] \<Rightarrow>
          (case walk_blocks n (blocks_list p) m of
             (Some a, bs, m) \<Rightarrow> (Some a, p\<lparr>blocks_list := bs\<rparr>, m)
           | (None, bs, m) \<Rightarrow>
               let p = update_block_allocate_exp (p\<lparr>blocks_list := bs, block_miss_count := block_miss_count p + 1\<rparr>) in
               case fresh of
                 None \<Rightarrow> (None, p, m)
               | Some b \<Rightarrow>
                   (case block_allocate b n (m\<lparr>blocks := (blocks m)(b \<mapsto> block_new (2 ^ block_allocate_exp p))\<rparr>) of
                      None \<Rightarrow> (None, p\<lparr>blocks_list := b # blocks_list p\<rparr>, m)
                    | Some (a, m) \<Rightarrow> (Some a, p\<lparr>blocks_list := b # blocks_list p\<rparr>, m))))"

definition pool_deallocate :: "addr \<Rightarrow> nat \<Rightarrow> pool \<Rightarrow> memory \<Rightarrow> (pool \<times> memory) option" where
  "pool_deallocate a n p m =
     (let index = freelist_index n in
      case freelist p ! index of
        [] \<Rightarrow> Some (p\<lparr>freelist := (freelist p)[index := [(a, 1)]]\<rparr>, m)
      | (b, len) # rest \<Rightarrow>
          if len \<le> giveback_threshold
          then Some (p\<lparr>freelist := (freelist p)[index := (a, len + 1) # (b, len) # rest]\<rparr>, m)
          else
            (case trailer m (fst a, snd a + needed_units n - 1) of
               None \<Rightarrow> None
             | Some b \<Rightarrow> Some (p, block_deallocate b n m)))"

section \<open>Threads\<close>

text \<open>
  \<open>live\<close> is history: the small objects that are allocated, with the size that was asked for.
  Large objects go to the memory resource directly.
\<close>

record pool_world =
  pools :: "pool list"
  mem :: memory
  live :: "(addr \<times> nat) list"

definition pool_world_new :: "nat \<Rightarrow> pool_world" where
  "pool_world_new threads =
     \<lparr>pools = replicate threads pool_new, mem = \<lparr>blocks = \<lambda>_. None, trailer = \<lambda>_. None\<rparr>, live = []\<rparr>"

definition too_large :: "nat \<Rightarrow> bool" where
  "too_large n \<longleftrightarrow> max_object_size - block_unit < needed_size n"

datatype pool_action = Pool_alloc nat nat "nat option" | Pool_free nat nat

text \<open>
  \<open>Pool_alloc t n fresh\<close>: thread \<open>t\<close> allocates \<open>n\<close> bytes (a frame is never so large that
  \<open>needed_size\<close> wraps around). \<open>Pool_free t i\<close>: thread \<open>t\<close> deallocates the \<open>i\<close>-th live object, with
  the size it was allocated with.
\<close>

fun pool_step :: "pool_action \<Rightarrow> pool_world \<Rightarrow> pool_world option" where
  "pool_step (Pool_alloc t n fresh) w =
     (if t < length (pools w) \<and> n + 15 < 2 ^ 64 \<and> (\<forall>b \<in> set_option fresh. blocks (mem w) b = None)
      then if too_large n then Some w
           else (case pool_allocate (needed_size n) fresh (pools w ! t) (mem w) of
                   (r, p, m) \<Rightarrow>
                     Some \<lparr>pools = (pools w)[t := p], mem = m,
                           live = (case r of None \<Rightarrow> live w | Some a \<Rightarrow> (a, n) # live w)\<rparr>)
      else None)"
| "pool_step (Pool_free t i) w =
     (if t < length (pools w) \<and> i < length (live w)
      then (case live w ! i of
              (a, n) \<Rightarrow>
                (case pool_deallocate a (needed_size n) (pools w ! t) (mem w) of
                   None \<Rightarrow> None
                 | Some (p, m) \<Rightarrow>
                     Some \<lparr>pools = (pools w)[t := p], mem = m, live = take i (live w) @ drop (Suc i) (live w)\<rparr>))
      else None)"

section \<open>Objects and cells\<close>

text \<open>
  An object is its address and its number of units; it covers that many cells. The objects of a
  world are the live ones and the elements of the free lists (in list \<open>i\<close> all have
  \<open>i + 1\<close> units).
\<close>

type_synonym obj = "addr \<times> nat"

fun cells :: "obj \<Rightarrow> addr set" where
  "cells ((b, i), k) = {b} \<times> {i..<i + k}"

fun units_in :: "nat \<Rightarrow> obj \<Rightarrow> nat" where
  "units_in b ((b', _), k) = (if b' = b then k else 0)"

definition live_units :: "nat \<Rightarrow> nat" where
  "live_units n = needed_units (needed_size n)"

definition live_objects :: "(addr \<times> nat) list \<Rightarrow> obj multiset" where
  "live_objects xs = image_mset (\<lambda>(a, n). (a, live_units n)) (mset xs)"

definition class_objects :: "nat \<Rightarrow> (addr \<times> nat) list \<Rightarrow> obj multiset" where
  "class_objects i fl = image_mset (\<lambda>(a, _). (a, Suc i)) (mset fl)"

definition free_objects :: "pool \<Rightarrow> obj multiset" where
  "free_objects p = (\<Sum>i<length (freelist p). class_objects i (freelist p ! i))"

definition objects :: "pool_world \<Rightarrow> obj multiset" where
  "objects w = live_objects (live w) + sum_list (map free_objects (pools w))"

definition object_ok :: "memory \<Rightarrow> obj \<Rightarrow> bool" where
  "object_ok m ob \<longleftrightarrow>
     (case ob of ((b, i), k) \<Rightarrow>
        0 < k \<and> trailer m (b, i + k - 1) = Some b \<and>
        (case blocks m b of None \<Rightarrow> False | Some bk \<Rightarrow> i + k \<le> allocating_index bk))"

definition mem_inv :: "obj multiset \<Rightarrow> memory \<Rightarrow> bool" where
  "mem_inv M m \<longleftrightarrow>
     (\<forall>ob \<in># M. object_ok m ob) \<and> (\<forall>c. size {#ob \<in># M. c \<in> cells ob#} \<le> 1) \<and>
     (\<forall>b bk. blocks m b = Some bk \<longrightarrow>
        sum_mset (image_mset (units_in b) M) + gaveback_unit_count bk = allocating_index bk \<and>
        allocating_index bk \<le> unit_count bk)"

lemma needed_units_pos [simp]: "0 < needed_units n"
  by (simp add: needed_units_def)

lemma object_okD:
  assumes "object_ok m ((b, i), k)"
  obtains bk where "0 < k" "trailer m (b, i + k - 1) = Some b" "blocks m b = Some bk" "i + k \<le> allocating_index bk"
  using assms by (auto simp: object_ok_def split: option.splits)

lemma mem_inv_object: "mem_inv M m \<Longrightarrow> ob \<in># M \<Longrightarrow> object_ok m ob"
  by (simp add: mem_inv_def)

lemma mem_inv_block:
  "mem_inv M m \<Longrightarrow> blocks m b = Some bk \<Longrightarrow>
     sum_mset (image_mset (units_in b) M) + gaveback_unit_count bk = allocating_index bk \<and>
     allocating_index bk \<le> unit_count bk"
  by (simp add: mem_inv_def)

text \<open>What is cut from a block overlaps with no object.\<close>

lemma mem_inv_allocate:
  assumes inv: "mem_inv M m" and alloc: "block_allocate b n m = Some (a, m')"
  shows "mem_inv (add_mset (a, needed_units n) M) m'"
proof -
  let ?k = "needed_units n"
  from alloc obtain bk where bk: "blocks m b = Some bk" and room: "allocating_index bk + ?k \<le> unit_count bk"
    and a: "a = (b, allocating_index bk)"
    and m': "m' = m\<lparr>blocks := (blocks m)(b \<mapsto> bk\<lparr>allocating_index := allocating_index bk + ?k\<rparr>),
                   trailer := (trailer m)((b, allocating_index bk + ?k - 1) \<mapsto> b)\<rparr>"
    by (auto simp: block_allocate_def Let_def split: option.splits if_splits)
  have old: "object_ok m' ob \<and> cells ob \<inter> cells (a, ?k) = {}" if ob: "ob \<in># M" for ob
  proof -
    obtain b' i k where obj: "ob = ((b', i), k)" by (metis surj_pair)
    from mem_inv_object [OF inv ob] obtain bk' where
      "0 < k" "trailer m (b', i + k - 1) = Some b'" "blocks m b' = Some bk'" "i + k \<le> allocating_index bk'"
      unfolding obj by (rule object_okD)
    with bk needed_units_pos [of n] show ?thesis
      by (auto simp: obj object_ok_def m' a)
  qed
  have new: "object_ok m' (a, ?k)"
    using needed_units_pos [of n] by (simp add: object_ok_def a m')
  have "size {#ob \<in># add_mset (a, ?k) M. c \<in> cells ob#} \<le> 1" for c
  proof (cases "c \<in> cells (a, ?k)")
    case True
    with old have "\<forall>ob. ob \<in># M \<longrightarrow> c \<notin> cells ob" by blast
    then have "{#ob \<in># M. c \<in> cells ob#} = {#}" by (simp only: filter_mset_eq_mempty_iff)
    with True show ?thesis by (simp del: cells.simps)
  next
    case False
    with inv show ?thesis by (simp add: mem_inv_def del: cells.simps split_paired_All)
  qed
  moreover have "sum_mset (image_mset (units_in d) (add_mset (a, ?k) M)) + gaveback_unit_count dk = allocating_index dk \<and>
      allocating_index dk \<le> unit_count dk" if "blocks m' d = Some dk" for d dk
    using that mem_inv_block [OF inv, of d] mem_inv_block [OF inv bk] room
    by (auto simp: m' a split: if_splits)
  ultimately show ?thesis
    using old new by (simp add: mem_inv_def)
qed

lemma mem_inv_give_back:
  assumes inv: "mem_inv M m" and ob: "((b, i), needed_units n) \<in># M"
  shows "mem_inv (M - {#((b, i), needed_units n)#}) (block_deallocate b n m)"
proof -
  let ?ob = "((b, i), needed_units n)"
  obtain M' where M: "M = add_mset ?ob M'" using ob by (metis insert_DiffM)
  have "object_ok (block_deallocate b n m) ob" if "object_ok m ob" for ob
    using that by (auto simp: object_ok_def block_deallocate_def split: option.splits prod.splits)
  moreover have "size {#ob \<in># M'. c \<in> cells ob#} \<le> 1" for c
  proof -
    have "size {#ob \<in># add_mset ?ob M'. c \<in> cells ob#} \<le> 1"
      using inv unfolding mem_inv_def M by blast
    moreover have "size {#ob \<in># M'. c \<in> cells ob#} \<le> size {#ob \<in># add_mset ?ob M'. c \<in> cells ob#}"
      by (simp del: cells.simps)
    ultimately show ?thesis by linarith
  qed
  moreover have "sum_mset (image_mset (units_in d) M') + gaveback_unit_count dk = allocating_index dk \<and>
      allocating_index dk \<le> unit_count dk" if "blocks (block_deallocate b n m) d = Some dk" for d dk
    using that mem_inv_block [OF inv, of d] by (auto simp: block_deallocate_def M split: if_splits)
  ultimately show ?thesis
    using inv by (simp add: mem_inv_def M)
qed

lemma mem_inv_free:
  assumes inv: "mem_inv M m" and free: "can_free b m"
  shows "mem_inv M (m\<lparr>blocks := (blocks m)(b := None)\<rparr>)"
proof -
  from free obtain bk where bk: "blocks m b = Some bk" "gaveback_unit_count bk = unit_count bk"
    by (auto simp: can_free_def split: option.splits)
  with mem_inv_block [OF inv bk(1)] have none: "sum_mset (image_mset (units_in b) M) = 0" by linarith
  have "object_ok (m\<lparr>blocks := (blocks m)(b := None)\<rparr>) ob" if ob: "ob \<in># M" for ob
  proof -
    obtain b' i k where obj: "ob = ((b', i), k)" by (metis surj_pair)
    have "units_in b ob = 0" using none ob by (simp add: sum_mset_0_iff)
    with mem_inv_object [OF inv ob] show ?thesis
      by (auto simp: obj object_ok_def split: if_splits option.splits)
  qed
  with inv show ?thesis by (simp add: mem_inv_def)
qed

lemma block_new_index [simp]: "allocating_index (block_new c) = 0"
  by (simp add: block_new_def Let_def)

lemma mem_inv_new_block:
  assumes inv: "mem_inv M m" and fresh: "blocks m b = None"
  shows "mem_inv M (m\<lparr>blocks := (blocks m)(b \<mapsto> block_new c)\<rparr>)"
proof -
  have other: "object_ok (m\<lparr>blocks := (blocks m)(b \<mapsto> block_new c)\<rparr>) ob \<and> units_in b ob = 0" if "ob \<in># M" for ob
    using mem_inv_object [OF inv that] fresh by (auto simp: object_ok_def split: option.splits prod.splits)
  then have "sum_mset (image_mset (units_in b) M) = 0"
    by (simp add: sum_mset_0_iff)
  with other inv show ?thesis
    by (simp add: mem_inv_def) (simp add: block_new_def Let_def)
qed

text \<open>The walk along the blocks serves from one of them, or frees some; the others stay.\<close>

lemma block_allocate_frame:
  "block_allocate b n m = Some (a, m') \<Longrightarrow> c \<noteq> b \<Longrightarrow> blocks m' c = blocks m c"
  "block_allocate b n m = Some (a, m') \<Longrightarrow> blocks m' b \<noteq> None \<and> blocks m b \<noteq> None"
  by (auto simp: block_allocate_def Let_def split: option.splits if_splits)

lemma walk_blocks_inv:
  assumes "mem_inv M m" "distinct bs" "\<forall>b\<in>set bs. blocks m b \<noteq> None" "walk_blocks n bs m = (r, bs', m')"
  shows "mem_inv (case r of None \<Rightarrow> M | Some a \<Rightarrow> add_mset (a, needed_units n) M) m' \<and>
    distinct bs' \<and> set bs' \<subseteq> set bs \<and> (\<forall>b\<in>set bs'. blocks m' b \<noteq> None) \<and>
    (\<forall>c. c \<notin> set bs \<longrightarrow> blocks m' c = blocks m c)"
  using assms
proof (induction bs arbitrary: m r bs' m')
  case Nil
  then show ?case by simp
next
  case (Cons b bs)
  show ?case
  proof (cases "block_allocate b n m")
    case (Some am)
    then obtain a m2 where am: "block_allocate b n m = Some (a, m2)" by (cases am) auto
    from Cons.prems(4) am have "r = Some a" "bs' = b # bs" "m' = m2" by simp_all
    moreover have "\<forall>c. c \<noteq> b \<longrightarrow> blocks m2 c = blocks m c" "\<forall>c\<in>set bs. c \<noteq> b"
      using block_allocate_frame(1) [OF am] Cons.prems(2) by auto
    ultimately show ?thesis
      using mem_inv_allocate [OF Cons.prems(1) am] block_allocate_frame(2) [OF am] Cons.prems(2,3) by simp
  next
    case None
    show ?thesis
    proof (cases "can_free b m")
      case True
      let ?m = "m\<lparr>blocks := (blocks m)(b := None)\<rparr>"
      have "mem_inv M ?m" by (rule mem_inv_free [OF Cons.prems(1) True])
      moreover have "distinct bs" "\<forall>c\<in>set bs. blocks ?m c \<noteq> None" "walk_blocks n bs ?m = (r, bs', m')"
        using Cons.prems None True by auto
      ultimately have "mem_inv (case r of None \<Rightarrow> M | Some a \<Rightarrow> add_mset (a, needed_units n) M) m' \<and>
          distinct bs' \<and> set bs' \<subseteq> set bs \<and> (\<forall>b\<in>set bs'. blocks m' b \<noteq> None) \<and>
          (\<forall>c. c \<notin> set bs \<longrightarrow> blocks m' c = blocks ?m c)"
        by (rule Cons.IH)
      then show ?thesis by auto
    next
      case False
      obtain bs2 where bs2: "walk_blocks n bs m = (r, bs2, m')" "bs' = b # bs2"
        using Cons.prems(4) None False by (auto simp: Let_def split: prod.splits)
      with Cons.IH [OF Cons.prems(1) _ _ bs2(1)] Cons.prems show ?thesis by auto
    qed
  qed
qed

text \<open>The free lists of a pool.\<close>

lemma free_objects_update:
  assumes "i < length (freelist p)"
  shows "free_objects (p\<lparr>freelist := (freelist p)[i := fl]\<rparr>) + class_objects i (freelist p ! i) =
    free_objects p + class_objects i fl"
proof -
  have "(\<Sum>j\<in>{..<length (freelist p)} - {i}. class_objects j ((freelist p)[i := fl] ! j)) =
      (\<Sum>j\<in>{..<length (freelist p)} - {i}. class_objects j (freelist p ! j))"
    by (rule sum.cong) auto
  with assms show ?thesis
    by (simp add: free_objects_def sum.remove [of _ i] ac_simps)
qed

lemma free_objects_same: "freelist p' = freelist p \<Longrightarrow> free_objects p' = free_objects p"
  by (simp add: free_objects_def)

lemma update_exp_simps [simp]:
  "freelist (update_block_allocate_exp p) = freelist p" "blocks_list (update_block_allocate_exp p) = blocks_list p"
  by (simp_all add: update_block_allocate_exp_def)

lemma class_index: "needed_units n = Suc (freelist_index n)"
  by (simp add: needed_units_def freelist_index_def)

definition pool_ok :: "pool \<Rightarrow> memory \<Rightarrow> bool" where
  "pool_ok p m \<longleftrightarrow> length (freelist p) = freelist_count \<and> distinct (blocks_list p) \<and>
     (\<forall>b\<in>set (blocks_list p). blocks m b \<noteq> None)"

lemma pool_allocate_inv:
  assumes inv: "mem_inv (M + free_objects p) m" and ok: "pool_ok p m"
    and small: "freelist_index n < freelist_count" and fresh: "\<forall>b\<in>set_option fresh. blocks m b = None"
    and res: "pool_allocate n fresh p m = (r, p', m')"
  shows "mem_inv ((case r of None \<Rightarrow> M | Some a \<Rightarrow> add_mset (a, needed_units n) M) + free_objects p') m' \<and>
    pool_ok p' m' \<and> set (blocks_list p') \<subseteq> set (blocks_list p) \<union> set_option fresh \<and>
    (\<forall>c. c \<notin> set (blocks_list p) \<and> c \<notin> set_option fresh \<longrightarrow> blocks m' c = blocks m c)"
proof (cases "freelist p ! (freelist_index n)")
  case (Cons al rest)
  let ?i = "freelist_index n"
  obtain a l where al: "al = (a, l)" by (cases al)
  have r: "r = Some a" "m' = m" "blocks_list p' = blocks_list p" and fl: "freelist p' = (freelist p)[?i := rest]"
    using res Cons by (auto simp: pool_allocate_def Let_def al)
  have "free_objects p' + class_objects ?i (freelist p ! ?i) = free_objects p + class_objects ?i rest"
    using free_objects_update [of ?i p rest] small ok fl
    by (simp add: pool_ok_def free_objects_same [of p' "p\<lparr>freelist := (freelist p)[?i := rest]\<rparr>"])
  then have eq: "add_mset (a, needed_units n) (free_objects p') = free_objects p"
    by (simp add: Cons al class_objects_def class_index)
  have "mem_inv (add_mset (a, needed_units n) M + free_objects p') m"
    using inv by (simp flip: eq)
  with ok small show ?thesis
    by (auto simp: r pool_ok_def fl)
next
  case Nil
  obtain r1 bs1 m1 where walk: "walk_blocks n (blocks_list p) m = (r1, bs1, m1)" by (cases "walk_blocks n (blocks_list p) m")
  have w: "mem_inv (case r1 of None \<Rightarrow> M + free_objects p | Some a \<Rightarrow> add_mset (a, needed_units n) (M + free_objects p)) m1"
    "distinct bs1" "set bs1 \<subseteq> set (blocks_list p)" "\<forall>b\<in>set bs1. blocks m1 b \<noteq> None"
    "\<forall>c. c \<notin> set (blocks_list p) \<longrightarrow> blocks m1 c = blocks m c"
    using walk_blocks_inv [OF inv _ _ walk] ok by (simp_all add: pool_ok_def)
  show ?thesis
  proof (cases r1)
    case (Some a)
    with res Nil walk have "r = Some a" "m' = m1" "blocks_list p' = bs1" "freelist p' = freelist p"
      by (auto simp: pool_allocate_def Let_def)
    with w Some ok free_objects_same [of p' p] show ?thesis by (auto simp: pool_ok_def)
  next
    case None
    show ?thesis
    proof (cases fresh)
      case None
      with res Nil walk \<open>r1 = None\<close> have "r = None" "m' = m1" "blocks_list p' = bs1" "freelist p' = freelist p"
        by (auto simp: pool_allocate_def Let_def)
      with w \<open>r1 = None\<close> ok free_objects_same [of p' p] show ?thesis by (auto simp: pool_ok_def)
    next
      case (Some b)
      then have b0: "b \<notin> set (blocks_list p)" "blocks m b = None"
        using fresh ok by (auto simp: pool_ok_def)
      with w(5) have b: "b \<notin> set (blocks_list p)" "blocks m1 b = None"
        by simp_all
      let ?p = "update_block_allocate_exp (p\<lparr>allocate_count := allocate_count p + 1, blocks_list := bs1,
        block_miss_count := block_miss_count p + 1\<rparr>)"
      let ?m = "m1\<lparr>blocks := (blocks m1)(b \<mapsto> block_new (2 ^ block_allocate_exp ?p))\<rparr>"
      have m: "mem_inv (M + free_objects p) ?m"
        using w(1) None b(2) by (simp add: mem_inv_new_block)
      have "block_allocate b n ?m \<noteq> None"
      proof -
        have "1 \<le> (2::nat) ^ block_allocate_exp ?p" by (rule one_le_power) simp
        with small have "\<not> unit_count (block_new (2 ^ block_allocate_exp ?p)) < needed_units n"
          unfolding class_index freelist_count_def
          by (simp only: block_new_def Let_def block_unit_def max_object_size_def block.simps)
        then show ?thesis
          by (simp add: block_allocate_def Let_def)
      qed
      then obtain a m2 where am: "block_allocate b n ?m = Some (a, m2)" by auto
      with res Nil walk None Some have "r = Some a" "m' = m2" "blocks_list p' = b # bs1" "freelist p' = freelist p"
        by (auto simp: pool_allocate_def Let_def)
      moreover have "\<forall>c. c \<noteq> b \<longrightarrow> blocks m2 c = blocks m1 c" "\<forall>c\<in>set bs1. c \<noteq> b"
        using block_allocate_frame(1) [OF am] w(3) b(1) by auto
      ultimately show ?thesis
        using mem_inv_allocate [OF m am] block_allocate_frame(2) [OF am] w b Some ok free_objects_same [of p' p]
        by (auto simp: pool_ok_def)
    qed
  qed
qed

lemma pool_deallocate_inv:
  assumes inv: "mem_inv (add_mset (a, needed_units n) M + free_objects p) m" and ok: "pool_ok p m"
    and small: "freelist_index n < freelist_count"
  shows "\<exists>p' m'. pool_deallocate a n p m = Some (p', m') \<and> mem_inv (M + free_objects p') m' \<and>
    pool_ok p' m' \<and> blocks_list p' = blocks_list p \<and> (\<forall>c. blocks m' c = None \<longleftrightarrow> blocks m c = None)"
proof -
  let ?i = "freelist_index n"
  have i: "?i < length (freelist p)" using small ok by (simp add: pool_ok_def)
  have push: "mem_inv (M + free_objects (p\<lparr>freelist := (freelist p)[?i := (a, l) # freelist p ! ?i]\<rparr>)) m" for l
    using inv free_objects_update [OF i, of "(a, l) # freelist p ! ?i"]
    by (simp add: class_objects_def class_index)
  obtain b u where a: "a = (b, u)" by (cases a)
  have "object_ok m (a, needed_units n)"
    using mem_inv_object [OF inv] by simp
  then have trailer: "trailer m (fst a, snd a + needed_units n - 1) = Some b"
    by (simp add: object_ok_def a)
  have given: "mem_inv (M + free_objects p) (block_deallocate b n m)"
    using mem_inv_give_back [OF inv, of b u n] by (simp add: a)
  have same: "blocks (block_deallocate b n m) c = None \<longleftrightarrow> blocks m c = None" for c
    by (simp add: block_deallocate_def)
  show ?thesis
  proof (cases "freelist p ! ?i")
    case Nil
    with push [of 1] ok show ?thesis by (auto simp: pool_deallocate_def Let_def pool_ok_def)
  next
    case (Cons al rest)
    obtain c l where "al = (c, l)" by (cases al)
    with Cons push [of "l + 1"] ok given same trailer show ?thesis
      by (cases "l \<le> giveback_threshold") (simp_all add: pool_deallocate_def Let_def pool_ok_def del: not_None_eq)
  qed
qed

section \<open>All threads\<close>

definition request_ok :: "nat \<Rightarrow> bool" where
  "request_ok n \<longleftrightarrow> n + 15 < 2 ^ 64 \<and> \<not> too_large n"

text \<open>A request of a small object fits into its units together with the trailer.\<close>

lemma request_fits:
  assumes "request_ok n"
  shows "freelist_index (needed_size n) < freelist_count" "n + 8 \<le> block_unit * live_units n"
proof -
  have ns: "needed_size n = (n + 15) div 8 * 8"
    using assms by (simp add: request_ok_def needed_size_def)
  have "needed_size n \<le> 4032"
    using assms by (simp add: request_ok_def too_large_def max_object_size_def block_unit_def)
  then show "freelist_index (needed_size n) < freelist_count"
    by (simp add: freelist_index_def freelist_count_def block_unit_def)
  have "n + 8 \<le> needed_size n"
    using div_mult_mod_eq [of "n + 15" 8] mod_less_divisor [of 8 "n + 15"] unfolding ns by linarith
  moreover have "m \<le> 64 * ((m - 1) div 64 + 1)" for m :: nat
    using dividend_less_times_div [of 64 "m - 1"] by (cases m) simp_all
  ultimately have "n + 8 \<le> 64 * ((needed_size n - 1) div 64 + 1)"
    by (rule order_trans)
  then show "n + 8 \<le> block_unit * live_units n"
    unfolding live_units_def needed_units_def block_unit_def .
qed

definition pool_inv :: "pool_world \<Rightarrow> bool" where
  "pool_inv w \<longleftrightarrow> mem_inv (objects w) (mem w) \<and>
     (\<forall>t<length (pools w). pool_ok (pools w ! t) (mem w)) \<and>
     (\<forall>t<length (pools w). \<forall>t'<length (pools w). t \<noteq> t' \<longrightarrow>
        set (blocks_list (pools w ! t)) \<inter> set (blocks_list (pools w ! t')) = {}) \<and>
     (\<forall>(a, n)\<in>set (live w). request_ok n)"

lemma objects_of_thread:
  assumes "t < length (pools w)"
  obtains M where "\<And>l. objects (w\<lparr>live := l\<rparr>) = live_objects l + M + free_objects (pools w ! t)"
    and "\<And>p m l. objects \<lparr>pools = (pools w)[t := p], mem = m, live = l\<rparr> = live_objects l + M + free_objects p"
proof -
  have mem: "free_objects (pools w ! t) \<subseteq># sum_list (map free_objects (pools w))"
  proof -
    have "pools w = take t (pools w) @ pools w ! t # drop (Suc t) (pools w)"
      using assms by (rule id_take_nth_drop)
    then have "map free_objects (pools w) =
        map free_objects (take t (pools w)) @ free_objects (pools w ! t) # map free_objects (drop (Suc t) (pools w))"
      by (metis list.simps(9) map_append)
    then show ?thesis by (simp add: subset_mset.add_increasing)
  qed
  then obtain M where M: "sum_list (map free_objects (pools w)) = free_objects (pools w ! t) + M"
    by (metis subset_mset.le_iff_add)
  have upd: "sum_list (map free_objects ((pools w)[t := p])) = M + free_objects p" for p
  proof (rule add_right_imp_eq)
    show "sum_list (map free_objects ((pools w)[t := p])) + free_objects (pools w ! t) =
        (M + free_objects p) + free_objects (pools w ! t)"
      using sum_update [OF assms, of free_objects p] by (simp add: M ac_simps)
  qed
  show ?thesis
  proof (rule that [of M])
    show "objects (w\<lparr>live := l\<rparr>) = live_objects l + M + free_objects (pools w ! t)" for l
      by (simp add: objects_def M ac_simps)
    show "objects \<lparr>pools = (pools w)[t := p], mem = m, live = l\<rparr> = live_objects l + M + free_objects p" for p m l
      by (simp add: objects_def upd ac_simps)
  qed
qed

lemma pool_inv_thread:
  assumes inv: "pool_inv w" and t: "t < length (pools w)" and objs: "mem_inv (objects \<lparr>pools = (pools w)[t := p], mem = m, live = l\<rparr>) m"
    and ok: "pool_ok p m" and news: "set (blocks_list p) \<subseteq> set (blocks_list (pools w ! t)) \<union> F"
    and fresh: "\<forall>b\<in>F. blocks (mem w) b = None"
    and frame: "\<forall>c. c \<notin> set (blocks_list (pools w ! t)) \<and> c \<notin> F \<longrightarrow> (blocks m c = None \<longrightarrow> blocks (mem w) c = None)"
    and live: "\<forall>(a, n)\<in>set l. request_ok n"
  shows "pool_inv \<lparr>pools = (pools w)[t := p], mem = m, live = l\<rparr>"
proof -
  have other: "pool_ok (pools w ! u) m \<and> set (blocks_list p) \<inter> set (blocks_list (pools w ! u)) = {}"
    if u: "u < length (pools w)" "u \<noteq> t" for u
  proof -
    have u_ok: "pool_ok (pools w ! u) (mem w)"
      and disj: "set (blocks_list (pools w ! t)) \<inter> set (blocks_list (pools w ! u)) = {}"
      using inv t u by (auto simp: pool_inv_def)
    then have notF: "b \<notin> F" if "b \<in> set (blocks_list (pools w ! u))" for b
      using that fresh by (auto simp: pool_ok_def)
    have "blocks m b \<noteq> None" if "b \<in> set (blocks_list (pools w ! u))" for b
      using that notF [OF that] disj u_ok frame [rule_format, of b]
      by (auto simp: pool_ok_def simp del: not_None_eq)
    with u_ok notF disj news show ?thesis by (auto simp: pool_ok_def)
  qed
  with inv t ok objs live show ?thesis
    by (auto simp: pool_inv_def nth_list_update Int_commute)
qed

lemma live_objects_Cons [simp]: "live_objects ((a, n) # l) = add_mset (a, needed_units (needed_size n)) (live_objects l)"
  by (simp add: live_objects_def live_units_def)

lemma pool_alloc_inv:
  assumes inv: "pool_inv w" and step: "pool_step (Pool_alloc t n fresh) w = Some w'"
  shows "pool_inv w'"
proof (cases "too_large n")
  case True
  with inv step show ?thesis by (auto split: if_splits)
next
  case False
  obtain r p m where call: "pool_allocate (needed_size n) fresh (pools w ! t) (mem w) = (r, p, m)"
    by (cases "pool_allocate (needed_size n) fresh (pools w ! t) (mem w)")
  let ?l = "case r of None \<Rightarrow> live w | Some a \<Rightarrow> (a, n) # live w"
  from step False call have t: "t < length (pools w)" and req: "request_ok n"
    and fresh: "\<forall>b \<in> set_option fresh. blocks (mem w) b = None"
    and w': "w' = \<lparr>pools = (pools w)[t := p], mem = m, live = ?l\<rparr>"
    by (auto simp: request_ok_def split: if_splits)
  obtain M where M: "\<And>l. objects (w\<lparr>live := l\<rparr>) = live_objects l + M + free_objects (pools w ! t)"
    "\<And>p m l. objects \<lparr>pools = (pools w)[t := p], mem = m, live = l\<rparr> = live_objects l + M + free_objects p"
    using objects_of_thread [OF t] by blast
  have "mem_inv (live_objects (live w) + M + free_objects (pools w ! t)) (mem w)"
    using inv M(1) [of "live w"] by (simp add: pool_inv_def)
  moreover have "pool_ok (pools w ! t) (mem w)" using inv t by (simp add: pool_inv_def)
  ultimately have res: "mem_inv ((case r of None \<Rightarrow> live_objects (live w) + M
        | Some a \<Rightarrow> add_mset (a, needed_units (needed_size n)) (live_objects (live w) + M)) + free_objects p) m"
    "pool_ok p m" "set (blocks_list p) \<subseteq> set (blocks_list (pools w ! t)) \<union> set_option fresh"
    "\<forall>c. c \<notin> set (blocks_list (pools w ! t)) \<and> c \<notin> set_option fresh \<longrightarrow> blocks m c = blocks (mem w) c"
    using pool_allocate_inv [OF _ _ request_fits(1) [OF req] fresh call] by blast+
  have "mem_inv (objects \<lparr>pools = (pools w)[t := p], mem = m, live = ?l\<rparr>) m"
    using res(1) unfolding M(2) by (cases r) simp_all
  moreover have "\<forall>(a, n)\<in>set ?l. request_ok n"
    using inv req by (auto simp: pool_inv_def split: option.splits)
  ultimately show ?thesis
    unfolding w' using pool_inv_thread [OF inv t _ res(2,3) fresh] res(4) by simp
qed

lemma pool_free_inv:
  assumes inv: "pool_inv w" and t: "t < length (pools w)" and i: "i < length (live w)"
  shows "\<exists>w'. pool_step (Pool_free t i) w = Some w' \<and> pool_inv w'"
proof -
  obtain a n where an: "live w ! i = (a, n)" by (cases "live w ! i")
  let ?l = "take i (live w) @ drop (Suc i) (live w)"
  have req: "request_ok n" using inv nth_mem [OF i] by (auto simp: pool_inv_def an)
  obtain M where M: "\<And>l. objects (w\<lparr>live := l\<rparr>) = live_objects l + M + free_objects (pools w ! t)"
    "\<And>p m l. objects \<lparr>pools = (pools w)[t := p], mem = m, live = l\<rparr> = live_objects l + M + free_objects p"
    using objects_of_thread [OF t] by blast
  have "mset (live w) = add_mset (a, n) (mset ?l)"
    by (subst id_take_nth_drop [OF i]) (simp add: an)
  then have "live_objects (live w) = add_mset (a, needed_units (needed_size n)) (live_objects ?l)"
    by (simp add: live_objects_def live_units_def)
  then have "mem_inv (add_mset (a, needed_units (needed_size n)) (live_objects ?l + M) + free_objects (pools w ! t)) (mem w)"
    using inv M(1) [of "live w"] by (simp add: pool_inv_def)
  moreover have "pool_ok (pools w ! t) (mem w)" using inv t by (simp add: pool_inv_def)
  ultimately obtain p m where res: "pool_deallocate a (needed_size n) (pools w ! t) (mem w) = Some (p, m)"
    "mem_inv (live_objects ?l + M + free_objects p) m" "pool_ok p m" "blocks_list p = blocks_list (pools w ! t)"
    "\<forall>c. blocks m c = None \<longleftrightarrow> blocks (mem w) c = None"
    using pool_deallocate_inv [OF _ _ request_fits(1) [OF req]] by blast
  have "\<forall>(a, n)\<in>set ?l. request_ok n"
    using inv by (auto simp: pool_inv_def dest: in_set_takeD in_set_dropD)
  moreover have "mem_inv (objects \<lparr>pools = (pools w)[t := p], mem = m, live = ?l\<rparr>) m"
    using res(2) unfolding M(2) .
  ultimately have "pool_inv \<lparr>pools = (pools w)[t := p], mem = m, live = ?l\<rparr>"
    using pool_inv_thread [OF inv t _ res(3), of ?l "{}"] res(4,5) by simp
  with t i an res(1) show ?thesis by simp
qed

lemma pool_step_inv: "pool_inv w \<Longrightarrow> pool_step act w = Some w' \<Longrightarrow> pool_inv w'"
proof (cases act)
  case (Pool_alloc t n fresh)
  then show "pool_inv w \<Longrightarrow> pool_step act w = Some w' \<Longrightarrow> pool_inv w'"
    using pool_alloc_inv by blast
next
  case (Pool_free t i)
  assume inv: "pool_inv w" and step: "pool_step act w = Some w'"
  from step Pool_free have "t < length (pools w)" "i < length (live w)" by (auto split: if_splits)
  from pool_free_inv [OF inv this] step Pool_free show "pool_inv w'" by auto
qed

interpretation cp: invariant_system pool_step pool_inv
  by unfold_locales (rule pool_step_inv)

lemma sum_list_replicate_empty: "sum_list (replicate n {#}) = {#}"
  by (induction n) simp_all

lemma pool_world_new_inv: "pool_inv (pool_world_new threads)"
  by (simp add: pool_inv_def pool_world_new_def pool_new_def objects_def live_objects_def free_objects_def
      class_objects_def mem_inv_def pool_ok_def sum_list_replicate_empty)



end
