(* ===== verification/Join_Handle.thy ===== *)
theory Join_Handle
  imports Asco_Prelude
begin

text \<open>
  \<open>asco/join_handle\<close>: how the end of a task (a value, an exception, a cancellation) gets to whoever
  waits for it, a coroutine (\<open>co_await\<close>) or a thread (\<open>await\<close>). Every access to the shared state of
  the task is a step. A coroutine that is suspended goes on when it was awakened since it
  created its token (this is the contract of the schedulers, \<open>Scheduler\<close>).
\<close>

section \<open>State\<close>

datatype complete_state = Not_completed | Awaitable_waiting | Completed

datatype exn = Task_exception | Coroutine_cancelled

text \<open>What a completion stores; \<open>final_suspend\<close> stores nothing.\<close>

datatype 'v completion = Ret 'v | Exn | Canc | Final

text \<open>
  \<open>ts_token\<close> and \<open>ts_cancel_token\<close> tell whether the tokens of the caller and of the task are set,
  \<open>ts_awoken\<close> whether the caller was awakened, \<open>ts_cancelled\<close> whether cancellation was requested, \<open>ts_task_awoken\<close> whether \<open>cancel\<close>
  awakened the task. \<open>ts_winner\<close> and \<open>ts_fetched_cancelled\<close> are history: the completion whose compare-exchange succeeded, and whether
  the request was there already when a worker fetched the task.
\<close>

record 'v task_state =
  ts_cstate :: complete_state
  ts_value :: "'v option"
  ts_e_ptr :: "exn option"
  ts_sync_awaiter :: nat
  ts_token :: bool
  ts_cancel_token :: bool
  ts_awoken :: bool
  ts_cancelled :: bool
  ts_task_awoken :: bool
  ts_fetched_cancelled :: bool
  ts_winner :: "(nat \<times> 'v completion) option"

datatype 'v cm_pc =
    Cm_load "'v completion"
  | Cm_cas "'v completion" complete_state
  | Cm_write "'v completion"
  | Cm_request
  | Cm_release "'v completion"
  | Cm_token "'v completion"
  | Cm_awake "'v completion"
  | Cm_cancel_token
  | Cm_cancel_awake
  | Cm_done

datatype 'v jh_result = Res_value 'v | Res_exception exn | Res_uninitialized

text \<open>The reader waits as a coroutine (\<open>Aw\<close>) or as a thread (\<open>Bl\<close>); its flag tells whether it had to wait.\<close>

datatype 'v rd_pc =
    Aw_ready
  | Aw_store
  | Aw_load
  | Aw_cas complete_state
  | Aw_suspend
  | Aw_parked
  | Bl_acquire
  | Rd_exception bool
  | Rd_value bool
  | Rd_done bool "'v jh_result"

definition task_state_new :: "'v task_state" where
  "task_state_new =
     \<lparr>ts_cstate = Not_completed, ts_value = None, ts_e_ptr = None, ts_sync_awaiter = 0, ts_token = False,
      ts_cancel_token = False, ts_awoken = False, ts_cancelled = False, ts_task_awoken = False, ts_fetched_cancelled = False,
      ts_winner = None\<rparr>"

section \<open>Completion\<close>

text \<open>
  After \<open>return_value\<close>, \<open>return_void\<close> or \<open>unhandled_exception\<close> comes \<open>final_suspend\<close>, which tries to
  complete once more.
\<close>

definition after_completion :: "'v completion \<Rightarrow> 'v cm_pc" where
  "after_completion k = (case k of Ret _ \<Rightarrow> Cm_load Final | Exn \<Rightarrow> Cm_load Final | _ \<Rightarrow> Cm_done)"

definition store_result :: "'v completion \<Rightarrow> 'v task_state \<Rightarrow> 'v task_state" where
  "store_result k s =
     (case k of
        Ret v \<Rightarrow> s\<lparr>ts_value := Some v\<rparr>
      | Exn \<Rightarrow> s\<lparr>ts_e_ptr := Some Task_exception\<rparr>
      | Canc \<Rightarrow> s\<lparr>ts_e_ptr := Some Coroutine_cancelled\<rparr>
      | Final \<Rightarrow> s)"

text \<open>
  \<open>try_mark_completed\<close>: \<open>i\<close> is the number of the completer, \<open>spurious\<close> whether a weak
  compare-exchange fails without reason.
\<close>

definition mark_step :: "bool \<Rightarrow> nat \<Rightarrow> 'v cm_pc \<Rightarrow> 'v task_state \<Rightarrow> ('v cm_pc \<times> 'v task_state) option" where
  "mark_step spurious i pc s =
     (case pc of
        Cm_load k \<Rightarrow>
          Some (if ts_cstate s = Completed then after_completion k else Cm_cas k (ts_cstate s), s)
      | Cm_cas k e \<Rightarrow>
          if ts_cstate s = e \<and> \<not> spurious
          then Some (Cm_write k, s\<lparr>ts_cstate := Completed, ts_winner := Some (i, k)\<rparr>)
          else Some (Cm_load k, s)
      | _ \<Rightarrow> None)"

text \<open>What \<open>cancel\<close> does beyond the other completions.\<close>

definition cancel_step :: "'v cm_pc \<Rightarrow> 'v task_state \<Rightarrow> ('v cm_pc \<times> 'v task_state) option" where
  "cancel_step pc s =
     (case pc of
        Cm_request \<Rightarrow> Some (Cm_release Canc, s\<lparr>ts_cancelled := True\<rparr>)
      | Cm_cancel_token \<Rightarrow> Some (if ts_cancel_token s then Cm_cancel_awake else Cm_done, s)
      | Cm_cancel_awake \<Rightarrow> Some (Cm_done, s\<lparr>ts_task_awoken := True\<rparr>)
      | _ \<Rightarrow> None)"

definition completion_step :: "bool \<Rightarrow> nat \<Rightarrow> 'v cm_pc \<Rightarrow> 'v task_state \<Rightarrow> ('v cm_pc \<times> 'v task_state) option" where
  "completion_step spurious i pc s =
     (case pc of
        Cm_load _ \<Rightarrow> mark_step spurious i pc s
      | Cm_cas _ _ \<Rightarrow> mark_step spurious i pc s
      | Cm_write k \<Rightarrow> Some (if k = Canc then Cm_request else Cm_release k, store_result k s)
      | Cm_release k \<Rightarrow> Some (Cm_token k, s\<lparr>ts_sync_awaiter := ts_sync_awaiter s + 1\<rparr>)
      | Cm_token k \<Rightarrow>
          Some (if ts_token s then Cm_awake k else if k = Canc then Cm_cancel_token else after_completion k, s)
      | Cm_awake k \<Rightarrow>
          Some (if k = Canc then Cm_cancel_token else after_completion k, s\<lparr>ts_awoken := True\<rparr>)
      | _ \<Rightarrow> cancel_step pc s)"

lemmas completion_defs = completion_step_def mark_step_def cancel_step_def

section \<open>Waiting\<close>

definition await_suspend_step :: "bool \<Rightarrow> 'v rd_pc \<Rightarrow> 'v task_state \<Rightarrow> ('v rd_pc \<times> 'v task_state) option" where
  "await_suspend_step spurious pc s =
     (case pc of
        Aw_store \<Rightarrow> Some (Aw_load, s\<lparr>ts_token := True\<rparr>)
      | Aw_load \<Rightarrow> Some (if ts_cstate s = Completed then Rd_exception False else Aw_cas (ts_cstate s), s)
      | Aw_cas e \<Rightarrow>
          if ts_cstate s = e \<and> \<not> spurious then Some (Aw_suspend, s\<lparr>ts_cstate := Awaitable_waiting\<rparr>)
          else Some (Aw_load, s)
      | Aw_suspend \<Rightarrow> Some (Aw_parked, s)
      | Aw_parked \<Rightarrow> if ts_awoken s then Some (Rd_exception True, s) else None
      | _ \<Rightarrow> None)"

text \<open>The end of \<open>await_resume\<close> and of \<open>await\<close>.\<close>

definition resume_step :: "'v rd_pc \<Rightarrow> 'v task_state \<Rightarrow> ('v rd_pc \<times> 'v task_state) option" where
  "resume_step pc s =
     (case pc of
        Rd_exception b \<Rightarrow>
          (case ts_e_ptr s of Some e \<Rightarrow> Some (Rd_done b (Res_exception e), s) | None \<Rightarrow> Some (Rd_value b, s))
      | Rd_value b \<Rightarrow>
          Some (Rd_done b (case ts_value s of None \<Rightarrow> Res_uninitialized | Some v \<Rightarrow> Res_value v), s)
      | _ \<Rightarrow> None)"

definition await_step :: "'v rd_pc \<Rightarrow> 'v task_state \<Rightarrow> ('v rd_pc \<times> 'v task_state) option" where
  "await_step pc s =
     (case pc of
        Bl_acquire \<Rightarrow>
          if 0 < ts_sync_awaiter s
          then Some (Rd_exception True, s\<lparr>ts_sync_awaiter := ts_sync_awaiter s - 1\<rparr>) else None
      | _ \<Rightarrow> resume_step pc s)"

definition reader_step :: "bool \<Rightarrow> 'v rd_pc \<Rightarrow> 'v task_state \<Rightarrow> ('v rd_pc \<times> 'v task_state) option" where
  "reader_step spurious pc s =
     (case pc of
        Aw_ready \<Rightarrow> Some (if ts_cstate s = Completed then Rd_exception False else Aw_store, s)
      | Bl_acquire \<Rightarrow> await_step pc s
      | Rd_exception _ \<Rightarrow> resume_step pc s
      | Rd_value _ \<Rightarrow> resume_step pc s
      | Rd_done _ _ \<Rightarrow> None
      | _ \<Rightarrow> await_suspend_step spurious pc s)"

text \<open>
  What \<open>worker::fetch_task\<close> does to the state of a task: it makes the token of the task in the storage for it and publishes the pointer. A task
  is sent to the workers once.
\<close>

definition place_token :: "'v task_state \<Rightarrow> 'v task_state option" where
  "place_token s =
     (if ts_cancel_token s then None else Some (s\<lparr>ts_cancel_token := True, ts_fetched_cancelled := ts_cancelled s\<rparr>))"

text \<open>
  \<open>~task_state\<close>, when the last pointer to the state goes (the frame and the handle each have one): the values whose destructors
  run, or \<open>None\<close> for a destructor over raw memory.
\<close>

definition task_state_dtor :: "'v task_state \<Rightarrow> 'v list option" where
  "task_state_dtor s =
     (if ts_cstate s = Completed \<and> ts_e_ptr s = None then map_option (\<lambda>v. [v]) (ts_value s) else Some [])"

lemmas reader_defs = reader_step_def await_step_def resume_step_def await_suspend_step_def

section \<open>A task, its completers and its reader\<close>

record 'v jh_world =
  jh_state :: "'v task_state"
  jh_completers :: "'v cm_pc list"
  jh_reader :: "'v rd_pc"

datatype jh_action = Complete nat bool | Read bool | Fetch

fun jh_step :: "jh_action \<Rightarrow> 'v jh_world \<Rightarrow> 'v jh_world option" where
  "jh_step (Complete i spurious) w =
     (if i < length (jh_completers w)
      then (case completion_step spurious i (jh_completers w ! i) (jh_state w) of
              None \<Rightarrow> None
            | Some (pc, s) \<Rightarrow> Some (w\<lparr>jh_state := s, jh_completers := (jh_completers w)[i := pc]\<rparr>))
      else None)"
| "jh_step (Read spurious) w =
     (case reader_step spurious (jh_reader w) (jh_state w) of
        None \<Rightarrow> None
      | Some (pc, s) \<Rightarrow> Some (w\<lparr>jh_state := s, jh_reader := pc\<rparr>))"
| "jh_step Fetch w = map_option (\<lambda>s. w\<lparr>jh_state := s\<rparr>) (place_token (jh_state w))"

text \<open>\<open>ks\<close> is what the task and the cancelling threads are going to do; the reader uses \<open>co_await\<close> or \<open>await\<close>.\<close>

definition jh_new :: "'v completion list \<Rightarrow> bool \<Rightarrow> 'v jh_world" where
  "jh_new ks blocking =
     \<lparr>jh_state = task_state_new, jh_completers = map Cm_load ks,
      jh_reader = (if blocking then Bl_acquire else Aw_ready)\<rparr>"

section \<open>The invariant\<close>

text \<open>
  How far the completion that won has come: 1 before it stores its result, 2 before it releases the
  semaphore, 3 before it reads the token, 4 before it awakes the caller, 5 after that. 0 for a
  completer that did not win (yet), or is done.
\<close>

fun stage :: "'v cm_pc \<Rightarrow> nat" where
  "stage (Cm_write _) = 1"
| "stage Cm_request = 2"
| "stage (Cm_release _) = 2"
| "stage (Cm_token _) = 3"
| "stage (Cm_awake _) = 4"
| "stage Cm_cancel_token = 5"
| "stage Cm_cancel_awake = 5"
| "stage _ = 0"

fun completion_of :: "'v cm_pc \<Rightarrow> 'v completion option" where
  "completion_of (Cm_load k) = Some k"
| "completion_of (Cm_cas k _) = Some k"
| "completion_of (Cm_write k) = Some k"
| "completion_of Cm_request = Some Canc"
| "completion_of (Cm_release k) = Some k"
| "completion_of (Cm_token k) = Some k"
| "completion_of (Cm_awake k) = Some k"
| "completion_of Cm_cancel_token = Some Canc"
| "completion_of Cm_cancel_awake = Some Canc"
| "completion_of Cm_done = None"

definition stored :: "'v completion \<Rightarrow> 'v task_state \<Rightarrow> bool" where
  "stored k s \<longleftrightarrow>
     (case k of
        Ret v \<Rightarrow> ts_value s = Some v \<and> ts_e_ptr s = None
      | Exn \<Rightarrow> ts_e_ptr s = Some Task_exception
      | Canc \<Rightarrow> ts_e_ptr s = Some Coroutine_cancelled
      | Final \<Rightarrow> False)"

fun result_of :: "'v completion \<Rightarrow> 'v jh_result" where
  "result_of (Ret v) = Res_value v"
| "result_of Exn = Res_exception Task_exception"
| "result_of Canc = Res_exception Coroutine_cancelled"
| "result_of Final = Res_uninitialized"

definition has_waited :: "'v rd_pc \<Rightarrow> bool" where
  "has_waited pc \<longleftrightarrow> (case pc of Rd_exception b \<Rightarrow> b | Rd_value b \<Rightarrow> b | Rd_done b _ \<Rightarrow> b | _ \<Rightarrow> False)"

text \<open>What holds of completer \<open>i\<close>, of the shared state, and of the reader; \<open>st\<close> is the stage of the winner.\<close>

definition cm_ok :: "'v completion list \<Rightarrow> nat \<Rightarrow> 'v cm_pc \<Rightarrow> 'v task_state \<Rightarrow> bool" where
  "cm_ok ks i pc s \<longleftrightarrow>
     (case completion_of pc of
        None \<Rightarrow> ts_winner s \<noteq> None
      | Some k \<Rightarrow> if k = Final then ts_winner s \<noteq> None else k \<in> set ks) \<and>
     (\<forall>k. pc \<noteq> Cm_cas k Completed) \<and>
     (0 < stage pc \<longrightarrow> (\<exists>k. completion_of pc = Some k \<and> ts_winner s = Some (i, k)))"

definition ts_ok :: "'v completion list \<Rightarrow> nat \<Rightarrow> 'v task_state \<Rightarrow> bool" where
  "ts_ok ks st s \<longleftrightarrow>
     (case ts_winner s of
        None \<Rightarrow> ts_cstate s \<noteq> Completed \<and> ts_value s = None \<and> ts_e_ptr s = None \<and> ts_sync_awaiter s = 0 \<and>
                \<not> ts_awoken s
      | Some (i, k) \<Rightarrow>
          ts_cstate s = Completed \<and> k \<in> set ks \<and> k \<noteq> Final \<and>
          (if st = 1 then ts_value s = None \<and> ts_e_ptr s = None else stored k s) \<and>
          (st \<in> {1, 2} \<longrightarrow> ts_sync_awaiter s = 0) \<and> ts_sync_awaiter s \<le> 1 \<and> (st \<in> {1, 2, 3, 4} \<longrightarrow> \<not> ts_awoken s))"

definition rd_ok :: "nat \<Rightarrow> 'v rd_pc \<Rightarrow> 'v task_state \<Rightarrow> bool" where
  "rd_ok st pc s \<longleftrightarrow>
     (case pc of
        Aw_ready \<Rightarrow> True
      | Aw_store \<Rightarrow> True
      | Aw_load \<Rightarrow> ts_token s
      | Aw_cas e \<Rightarrow> ts_token s \<and> e \<noteq> Completed
      | Aw_suspend \<Rightarrow> ts_token s \<and> (ts_winner s \<noteq> None \<and> st \<notin> {1, 2, 3, 4} \<longrightarrow> ts_awoken s)
      | Aw_parked \<Rightarrow> ts_token s \<and> (ts_winner s \<noteq> None \<and> st \<notin> {1, 2, 3, 4} \<longrightarrow> ts_awoken s)
      | Bl_acquire \<Rightarrow> ts_winner s \<noteq> None \<and> st \<notin> {1, 2} \<longrightarrow> ts_sync_awaiter s = 1
      | Rd_exception b \<Rightarrow> b \<longrightarrow> ts_winner s \<noteq> None \<and> st \<noteq> 1
      | Rd_value b \<Rightarrow> b \<longrightarrow> ts_winner s \<noteq> None \<and> st \<noteq> 1 \<and> ts_e_ptr s = None
      | Rd_done b r \<Rightarrow> b \<longrightarrow> st \<noteq> 1 \<and> (\<exists>i k. ts_winner s = Some (i, k) \<and> r = result_of k))"

definition winner_stage :: "'v task_state \<Rightarrow> 'v cm_pc list \<Rightarrow> nat" where
  "winner_stage s cs = (case ts_winner s of None \<Rightarrow> 0 | Some (i, _) \<Rightarrow> stage (cs ! i))"

definition jh_inv :: "'v completion list \<Rightarrow> 'v jh_world \<Rightarrow> bool" where
  "jh_inv ks w \<longleftrightarrow>
     length (jh_completers w) = length ks \<and>
     (\<forall>i k. ts_winner (jh_state w) = Some (i, k) \<longrightarrow> i < length ks) \<and>
     (\<forall>i<length ks. cm_ok ks i (jh_completers w ! i) (jh_state w)) \<and>
     ts_ok ks (winner_stage (jh_state w) (jh_completers w)) (jh_state w) \<and>
     rd_ok (winner_stage (jh_state w) (jh_completers w)) (jh_reader w) (jh_state w)"

lemmas jh_ok_defs = cm_ok_def ts_ok_def rd_ok_def

text \<open>The winner of a step of completer \<open>i\<close>.\<close>

lemma completion_step_winner:
  assumes "completion_step sp i pc s = Some (pc', s')" "ts_ok ks st s" "cm_ok ks i pc s"
  shows "ts_winner s' = ts_winner s \<or> (ts_winner s = None \<and> (\<exists>k. ts_winner s' = Some (i, k)))"
  using assms
  by (auto simp: completion_defs jh_ok_defs store_result_def split: cm_pc.splits if_splits completion.splits option.splits)

lemma ts_ok_None: "ts_ok ks st s \<Longrightarrow> ts_cstate s \<noteq> Completed \<Longrightarrow> ts_winner s = None"
  by (auto simp: ts_ok_def split: option.splits)

lemma ts_ok_Some: "ts_ok ks st s \<Longrightarrow> ts_cstate s = Completed \<Longrightarrow> ts_winner s \<noteq> None"
  by (auto simp: ts_ok_def split: option.splits)

lemma stage_after_completion [simp]: "stage (after_completion k) = 0"
  by (cases k) (simp_all add: after_completion_def)

text \<open>A step before the result is decided.\<close>

lemma racing_step_ok:
  assumes step: "completion_step sp i pc s = Some (pc', s')"
    and ok: "cm_ok ks i pc s" "ts_ok ks st s" "rd_ok st rd s"
    and pc: "pc = Cm_load k \<or> pc = Cm_cas k e" and st: "ts_winner s = None \<Longrightarrow> st = 0"
  shows "cm_ok ks i pc' s' \<and> (s' = s \<and> stage pc' = 0 \<or>
    ts_winner s = None \<and> ts_winner s' = Some (i, k) \<and> stage pc' = 1 \<and> ts_ok ks 1 s' \<and> rd_ok 1 rd s')"
  using pc
proof
  assume pc: "pc = Cm_load k"
  show ?thesis
  proof (cases "ts_cstate s = Completed")
    case True
    with step pc have "s' = s" "pc' = after_completion k" by (auto simp: completion_defs)
    moreover have "cm_ok ks i (after_completion k) s"
      using ts_ok_Some [OF ok(2) True] by (cases k) (simp_all add: cm_ok_def after_completion_def)
    ultimately show ?thesis by simp
  next
    case False
    with step pc have "s' = s" "pc' = Cm_cas k (ts_cstate s)" by (auto simp: completion_defs)
    with ok(1) pc False show ?thesis by (simp add: cm_ok_def)
  qed
next
  assume pc: "pc = Cm_cas k e"
  show ?thesis
  proof (cases "ts_cstate s = e \<and> \<not> sp")
    case False
    with step pc have "s' = s" "pc' = Cm_load k" by (auto simp: completion_defs)
    with ok(1) pc show ?thesis by (simp add: cm_ok_def)
  next
    case True
    with step pc have s': "s' = s\<lparr>ts_cstate := Completed, ts_winner := Some (i, k)\<rparr>" and pc': "pc' = Cm_write k"
      by (auto simp: completion_defs)
    have None: "ts_winner s = None" using True pc ok(1) ts_ok_None [OF ok(2)] by (auto simp: cm_ok_def)
    then have k: "k \<in> set ks" "k \<noteq> Final" using ok(1) pc by (auto simp: cm_ok_def split: if_splits)
    have "rd_ok 1 rd s'"
      using ok(3) st [OF None] by (cases rd) (simp_all add: rd_ok_def s' None)
    moreover have "ts_ok ks 1 s'" using ok(2) k by (simp add: ts_ok_def s' None)
    moreover have "cm_ok ks i pc' s'" using k by (simp add: cm_ok_def s' pc')
    ultimately show ?thesis using None by (simp add: s' pc')
  qed
qed

text \<open>A step of the winner.\<close>

lemma winner_step_ok:
  assumes step: "completion_step sp i pc s = Some (pc', s')"
    and ok: "cm_ok ks i pc s" "ts_ok ks (stage pc) s" "rd_ok (stage pc) rd s" and pc: "0 < stage pc"
  shows "cm_ok ks i pc' s' \<and> ts_winner s' = ts_winner s \<and> ts_ok ks (stage pc') s' \<and> rd_ok (stage pc') rd s'"
proof -
  from ok(1) pc obtain k where k: "completion_of pc = Some k" "ts_winner s = Some (i, k)" by (auto simp: cm_ok_def)
  then have kset: "k \<in> set ks" "k \<noteq> Final" using ok(2) by (auto simp: ts_ok_def)
  have eqs: "pc' = fst (the (completion_step sp i pc s))" "s' = snd (the (completion_step sp i pc s))"
    using step by simp_all
  note defs = completion_defs store_result_def stored_def after_completion_def
  have w: "ts_winner s' = ts_winner s"
    using pc k(1) unfolding eqs by (cases pc; cases k; simp add: defs)
  have cm: "cm_ok ks i pc' s'"
    using pc k kset unfolding cm_ok_def w unfolding eqs by (cases pc; cases k; simp add: defs)
  have ts: "ts_ok ks (stage pc') s'"
    using pc k kset ok(2) unfolding ts_ok_def w unfolding eqs by (cases pc; cases k; simp add: defs)
  have "stage pc = 2 \<Longrightarrow> ts_sync_awaiter s = 0"
    using ok(2) k(2) by (simp add: ts_ok_def)
  then have sem: "ts_sync_awaiter s' = 1" if "stage pc' \<notin> {1, 2}" "stage pc \<notin> {1, 2} \<Longrightarrow> ts_sync_awaiter s = 1"
    using that pc k(1) kset unfolding eqs by (cases pc; cases k; simp add: defs)
  have awoken: "ts_awoken s'"
    if "stage pc' \<notin> {1, 2, 3, 4}" "ts_token s" "stage pc \<notin> {1, 2, 3, 4} \<Longrightarrow> ts_awoken s"
    using that pc k(1) kset unfolding eqs by (cases pc; cases k; simp add: defs)
  have frame: "ts_token s' = ts_token s" "stage pc \<noteq> 1 \<Longrightarrow> ts_e_ptr s' = ts_e_ptr s" "stage pc' \<noteq> 1"
    using pc k(1) kset unfolding eqs by (cases pc; cases k; simp add: defs)+
  have "rd_ok (stage pc') rd s'"
    using ok(3) frame sem awoken k(2) w by (cases rd) (simp_all add: rd_ok_def)
  with cm ts w show ?thesis by simp
qed

text \<open>The other completers, and the reader.\<close>

lemma cm_ok_other:
  assumes "cm_ok ks j pc s" "ts_winner s' = ts_winner s \<or> ts_winner s = None \<and> ts_winner s' \<noteq> None"
  shows "cm_ok ks j pc s'"
  using assms by (cases "completion_of pc") (auto simp: cm_ok_def split: if_splits)

lemma stored_simps [simp]:
  "stored k (s\<lparr>ts_token := b\<rparr>) = stored k s" "stored k (s\<lparr>ts_sync_awaiter := n\<rparr>) = stored k s"
  by (cases k; simp add: stored_def)+

lemma ts_ok_token [simp]: "ts_ok ks st (s\<lparr>ts_token := b\<rparr>) \<longleftrightarrow> ts_ok ks st s"
  by (cases "ts_winner s") (simp_all add: ts_ok_def split: prod.splits)

text \<open>The arrival of the task's own token concerns nobody who waits for the task.\<close>

lemma place_token_frame:
  assumes "place_token s = Some s'"
  shows "ts_winner s' = ts_winner s" "cm_ok ks i pc s' = cm_ok ks i pc s" "ts_ok ks st s' = ts_ok ks st s" "rd_ok st rd s' = rd_ok st rd s"
proof -
  have s': "s' = s\<lparr>ts_cancel_token := True, ts_fetched_cancelled := ts_cancelled s\<rparr>"
    using assms by (simp add: place_token_def split: if_splits)
  show "ts_winner s' = ts_winner s" by (simp add: s')
  show "cm_ok ks i pc s' = cm_ok ks i pc s" by (cases "completion_of pc") (simp_all add: s' cm_ok_def)
  have "stored k s' = stored k s" for k by (cases k) (simp_all add: s' stored_def)
  then show "ts_ok ks st s' = ts_ok ks st s" by (cases "ts_winner s") (simp_all add: s' ts_ok_def split: prod.splits)
  show "rd_ok st rd s' = rd_ok st rd s" by (cases rd) (simp_all add: s' rd_ok_def)
qed

lemma ts_ok_acquire: "ts_ok ks st s \<Longrightarrow> ts_ok ks st (s\<lparr>ts_sync_awaiter := ts_sync_awaiter s - 1\<rparr>)"
  by (cases "ts_winner s") (simp_all add: ts_ok_def split: prod.splits)

lemma reader_step_ok:
  assumes step: "reader_step sp rd s = Some (rd', s')" and ok: "ts_ok ks st s" "rd_ok st rd s"
    and st: "ts_winner s = None \<Longrightarrow> st = 0"
  shows "ts_winner s' = ts_winner s \<and> ts_ok ks st s' \<and> rd_ok st rd' s'"
proof (cases rd)
  case Aw_ready
  with step ok show ?thesis by (auto simp: reader_defs rd_ok_def)
next
  case Aw_store
  with step ok show ?thesis by (auto simp: reader_defs rd_ok_def)
next
  case Aw_load
  with step ok show ?thesis by (auto simp: reader_defs rd_ok_def)
next
  case (Aw_cas e)
  show ?thesis
  proof (cases "ts_cstate s = e \<and> \<not> sp")
    case True
    then have "ts_winner s = None" using Aw_cas ok ts_ok_None [OF ok(1)] by (auto simp: rd_ok_def)
    with step ok Aw_cas True show ?thesis by (auto simp: reader_defs rd_ok_def ts_ok_def)
  next
    case False
    with step ok Aw_cas show ?thesis by (auto simp: reader_defs rd_ok_def)
  qed
next
  case Aw_suspend
  with step ok show ?thesis by (auto simp: reader_defs rd_ok_def)
next
  case Aw_parked
  then have "ts_awoken s" "rd' = Rd_exception True" "s' = s"
    using step by (auto simp: reader_defs split: if_splits)
  moreover have "ts_winner s \<noteq> None \<and> st \<noteq> 1"
    using ok(1) \<open>ts_awoken s\<close> by (auto simp: ts_ok_def split: option.splits)
  ultimately show ?thesis using ok by (simp add: rd_ok_def)
next
  case Bl_acquire
  then have sem: "0 < ts_sync_awaiter s" and eqs: "rd' = Rd_exception True" "s' = s\<lparr>ts_sync_awaiter := ts_sync_awaiter s - 1\<rparr>"
    using step by (auto simp: reader_defs split: if_splits)
  have "ts_winner s \<noteq> None \<and> st \<noteq> 1"
    using ok(1) sem by (auto simp: ts_ok_def split: option.splits)
  with ts_ok_acquire [OF ok(1)] show ?thesis by (simp add: eqs rd_ok_def)
next
  case (Rd_exception b)
  with step have s': "s' = s" by (auto simp: reader_defs split: option.splits)
  show ?thesis
  proof (cases "b \<and> ts_e_ptr s \<noteq> None")
    case True
    with ok Rd_exception obtain i k where k: "ts_winner s = Some (i, k)" "st \<noteq> 1" "stored k s" "k \<noteq> Final"
      by (auto simp: rd_ok_def ts_ok_def)
    with step ok True Rd_exception show ?thesis
      by (cases k) (auto simp: reader_defs rd_ok_def stored_def)
  next
    case False
    with step ok Rd_exception show ?thesis by (auto simp: reader_defs rd_ok_def split: option.splits)
  qed
next
  case (Rd_value b)
  show ?thesis
  proof (cases b)
    case True
    with ok Rd_value obtain i k where k: "ts_winner s = Some (i, k)" "st \<noteq> 1" "stored k s" "k \<noteq> Final" "ts_e_ptr s = None"
      by (auto simp: rd_ok_def ts_ok_def)
    with step ok True Rd_value show ?thesis
      by (cases k) (auto simp: reader_defs rd_ok_def stored_def)
  next
    case False
    with step ok Rd_value show ?thesis by (auto simp: reader_defs rd_ok_def)
  qed
next
  case (Rd_done b r)
  with step show ?thesis by (simp add: reader_defs)
qed

lemma jh_complete_inv:
  assumes inv: "jh_inv ks w" and i: "i < length (jh_completers w)"
    and step: "completion_step sp i (jh_completers w ! i) (jh_state w) = Some (pc', s')"
  shows "jh_inv ks (w\<lparr>jh_state := s', jh_completers := (jh_completers w)[i := pc']\<rparr>)"
proof -
  let ?cs = "jh_completers w" and ?s = "jh_state w"
  let ?st = "winner_stage ?s ?cs"
  have len: "length ?cs = length ks" and bound: "\<And>j k. ts_winner ?s = Some (j, k) \<Longrightarrow> j < length ks"
    and cm: "\<And>j. j < length ks \<Longrightarrow> cm_ok ks j (?cs ! j) ?s" and ts: "ts_ok ks ?st ?s" and rd: "rd_ok ?st (jh_reader w) ?s"
    using inv by (simp_all add: jh_inv_def)
  have i': "i < length ks" using i len by simp
  have "cm_ok ks i pc' s' \<and> (ts_winner s' = ts_winner ?s \<or> ts_winner ?s = None \<and> (\<exists>k. ts_winner s' = Some (i, k))) \<and>
      ts_ok ks (winner_stage s' (?cs[i := pc'])) s' \<and> rd_ok (winner_stage s' (?cs[i := pc'])) (jh_reader w) s'"
  proof (cases "0 < stage (?cs ! i)")
    case True
    then obtain k where k: "ts_winner ?s = Some (i, k)" using cm [OF i'] by (auto simp: cm_ok_def)
    then have st: "?st = stage (?cs ! i)" by (simp add: winner_stage_def)
    from winner_step_ok [OF step cm [OF i'] ts [unfolded st] rd [unfolded st] True] k i show ?thesis
      by (simp add: winner_stage_def)
  next
    case False
    then obtain k e where pc: "?cs ! i = Cm_load k \<or> ?cs ! i = Cm_cas k e"
      using step by (cases "?cs ! i") (auto simp: completion_defs)
    have "ts_winner ?s = None \<Longrightarrow> ?st = 0" by (simp add: winner_stage_def)
    from racing_step_ok [OF step cm [OF i'] ts rd pc this]
    have cases: "cm_ok ks i pc' s'" "s' = ?s \<and> stage pc' = 0 \<or>
      ts_winner ?s = None \<and> ts_winner s' = Some (i, k) \<and> stage pc' = 1 \<and> ts_ok ks 1 s' \<and> rd_ok 1 (jh_reader w) s'"
      by blast+
    from cases(2) show ?thesis
    proof
      assume eq: "s' = ?s \<and> stage pc' = 0"
      have "stage (?cs[i := pc'] ! a) = stage (?cs ! a)" for a
        using False eq i by (cases "a = i") simp_all
      with eq have "winner_stage s' (?cs[i := pc']) = ?st"
        by (simp add: winner_stage_def split: option.splits)
      with eq cases(1) ts rd show ?thesis by simp
    next
      assume won: "ts_winner ?s = None \<and> ts_winner s' = Some (i, k) \<and> stage pc' = 1 \<and> ts_ok ks 1 s' \<and>
        rd_ok 1 (jh_reader w) s'"
      then have "winner_stage s' (?cs[i := pc']) = 1" using i by (simp add: winner_stage_def)
      with won cases(1) show ?thesis by simp
    qed
  qed
  then have res: "cm_ok ks i pc' s'" "ts_winner s' = ts_winner ?s \<or> ts_winner ?s = None \<and> (\<exists>k. ts_winner s' = Some (i, k))"
    "ts_ok ks (winner_stage s' (?cs[i := pc'])) s'" "rd_ok (winner_stage s' (?cs[i := pc'])) (jh_reader w) s'"
    by blast+
  have "cm_ok ks j (?cs[i := pc'] ! j) s'" if "j < length ks" for j
    using that res(1) cm_ok_other [OF cm [OF that], of s'] res(2) len by (cases "j = i") auto
  with res bound i' len show ?thesis
    by (auto simp: jh_inv_def)
qed

lemma jh_step_inv: "jh_inv ks w \<Longrightarrow> jh_step a w = Some w' \<Longrightarrow> jh_inv ks w'"
proof (induction a w rule: jh_step.induct)
  case (1 i sp w)
  then show ?case
    by (auto split: if_splits option.splits prod.splits intro: jh_complete_inv)
next
  case (2 sp w)
  then obtain pc s where step: "reader_step sp (jh_reader w) (jh_state w) = Some (pc, s)"
    and w': "w' = w\<lparr>jh_state := s, jh_reader := pc\<rparr>"
    by (auto split: option.splits)
  let ?st = "winner_stage (jh_state w) (jh_completers w)"
  have "ts_winner (jh_state w) = None \<Longrightarrow> ?st = 0" by (simp add: winner_stage_def)
  with reader_step_ok [OF step, of ks ?st] 2(1)
  have res: "ts_winner s = ts_winner (jh_state w)" "ts_ok ks ?st s" "rd_ok ?st pc s"
    by (simp_all add: jh_inv_def)
  then have "winner_stage s (jh_completers w) = ?st" by (simp add: winner_stage_def)
  moreover have "cm_ok ks i (jh_completers w ! i) s" if "i < length ks" for i
    using that 2(1) cm_ok_other [of ks i "jh_completers w ! i" "jh_state w" s] res(1) by (simp add: jh_inv_def)
  ultimately show ?case
    using res 2(1) by (simp add: w' jh_inv_def)
next
  case (3 w)
  then obtain s where s: "place_token (jh_state w) = Some s" "w' = w\<lparr>jh_state := s\<rparr>"
    by (auto simp: map_option_eq_Some)
  with 3(1) show ?case by (simp add: jh_inv_def winner_stage_def place_token_frame [OF s(1)])
qed

interpretation jh: invariant_system jh_step "jh_inv ks" for ks
  by unfold_locales (rule jh_step_inv)

lemma jh_new_inv: "Final \<notin> set ks \<Longrightarrow> jh_inv ks (jh_new ks blocking)"
  by (auto simp: jh_inv_def jh_new_def task_state_new_def winner_stage_def jh_ok_defs in_set_conv_nth)

section \<open>Properties\<close>



section \<open>Cancellation reaches the task\<close>

text \<open>What has happened when the thread whose \<open>cancel\<close> completed the task has come to \<open>pc\<close>.\<close>

definition cancel_told :: "'v cm_pc \<Rightarrow> 'v task_state \<Rightarrow> bool" where
  "cancel_told pc s \<longleftrightarrow>
     (case pc of
        Cm_write k \<Rightarrow> k = Canc
      | Cm_request \<Rightarrow> True
      | Cm_release k \<Rightarrow> k = Canc \<and> ts_cancelled s
      | Cm_token k \<Rightarrow> k = Canc \<and> ts_cancelled s
      | Cm_awake k \<Rightarrow> k = Canc \<and> ts_cancelled s
      | Cm_cancel_token \<Rightarrow> ts_cancelled s
      | Cm_cancel_awake \<Rightarrow> ts_cancelled s
      | Cm_done \<Rightarrow> ts_cancelled s \<and> (ts_cancel_token s \<longrightarrow> ts_task_awoken s \<or> ts_fetched_cancelled s)
      | _ \<Rightarrow> False)"

definition cancel_inv :: "'v completion list \<Rightarrow> 'v jh_world \<Rightarrow> bool" where
  "cancel_inv ks w \<longleftrightarrow>
     jh_inv ks w \<and>
     (\<forall>i. ts_winner (jh_state w) = Some (i, Canc) \<longrightarrow> cancel_told (jh_completers w ! i) (jh_state w))"

lemma winner_cancel_told:
  assumes "completion_step sp i pc s = Some (pc', s')" "cm_ok ks i pc s" "ts_ok ks st s"
  shows "ts_winner s' = Some (i, Canc) \<and> (ts_winner s = Some (i, Canc) \<longrightarrow> cancel_told pc s) \<longrightarrow> cancel_told pc' s'"
proof (cases pc)
  case (Cm_cas k e)
  show ?thesis
  proof (cases "ts_winner s")
    case None
    with assms Cm_cas show ?thesis by (auto simp: completion_defs cancel_told_def split: if_splits)
  next
    case (Some p)
    with assms Cm_cas show ?thesis by (auto simp: completion_defs cancel_told_def cm_ok_def ts_ok_def split: if_splits)
  qed
qed (use assms in \<open>auto simp: completion_defs cancel_told_def store_result_def after_completion_def
    split: if_splits completion.splits\<close>)

lemma others_cancel_told:
  assumes "completion_step sp i pc s = Some (pc', s')" "cm_ok ks i pc s" "ts_ok ks st s" "ts_winner s = Some (j, k)" "j \<noteq> i"
  shows "s' = s"
proof -
  have "stage pc = 0" using assms(2,4,5) by (auto simp: cm_ok_def)
  moreover have "ts_cstate s = Completed" "pc \<noteq> Cm_cas k' Completed" for k' using assms(2-4) by (auto simp: ts_ok_def cm_ok_def)
  ultimately show ?thesis
    using assms(1) by (cases pc) (auto simp: completion_defs split: if_splits)
qed

lemma reader_cancel_told: "reader_step sp rd s = Some (rd', s') \<Longrightarrow> cancel_told pc s' = cancel_told pc s"
  by (cases rd; cases pc) (auto simp: cancel_told_def reader_defs split: if_splits option.splits)

lemma place_token_told: "place_token s = Some s' \<Longrightarrow> cancel_told pc s \<Longrightarrow> cancel_told pc s'"
  unfolding cancel_told_def by (cases pc) (auto simp: place_token_def split: if_splits)

lemma cancel_inv_step:
  assumes "cancel_inv ks w" "jh_step a w = Some w'"
  shows "cancel_inv ks w'"
proof -
  have inv: "jh_inv ks w" "jh_inv ks w'" using assms jh_step_inv by (auto simp: cancel_inv_def)
  have told: "cancel_told (jh_completers w ! j) (jh_state w)" if "ts_winner (jh_state w) = Some (j, Canc)" for j
    using that assms(1) by (simp add: cancel_inv_def)
  have "cancel_told (jh_completers w' ! j) (jh_state w')" if won: "ts_winner (jh_state w') = Some (j, Canc)" for j
  proof (cases a)
    case (Complete i sp)
    then obtain pc s where step: "completion_step sp i (jh_completers w ! i) (jh_state w) = Some (pc, s)" and i: "i < length ks"
      and w': "w' = w\<lparr>jh_state := s, jh_completers := (jh_completers w)[i := pc]\<rparr>"
      using assms(2) inv(1) by (auto simp: jh_inv_def split: if_splits option.splits)
    note cm = inv(1) [unfolded jh_inv_def]
    have ok: "cm_ok ks i (jh_completers w ! i) (jh_state w)" "ts_ok ks (winner_stage (jh_state w) (jh_completers w)) (jh_state w)"
      using cm i by simp_all
    show ?thesis
    proof (cases "j = i")
      case True
      with winner_cancel_told [OF step ok] told [of i] won cm i show ?thesis by (simp add: w')
    next
      case False
      from completion_step_winner [OF step ok(2,1)] won False have "ts_winner (jh_state w) = Some (j, Canc)" by (auto simp: w')
      with others_cancel_told [OF step ok this False] told [of j] False show ?thesis by (simp add: w')
    qed
  next
    case (Read sp)
    then obtain pc s where step: "reader_step sp (jh_reader w) (jh_state w) = Some (pc, s)"
      and w': "w' = w\<lparr>jh_state := s, jh_reader := pc\<rparr>"
      using assms(2) by (auto split: option.splits)
    have "ts_winner (jh_state w) = None \<Longrightarrow> winner_stage (jh_state w) (jh_completers w) = 0" by (simp add: winner_stage_def)
    with reader_step_ok [OF step, of ks] inv(1) have "ts_winner s = ts_winner (jh_state w)" by (auto simp: jh_inv_def)
    with reader_cancel_told [OF step] told [of j] won show ?thesis by (simp add: w')
  next
    case Fetch
    then obtain s where s: "place_token (jh_state w) = Some s" "w' = w\<lparr>jh_state := s\<rparr>"
      using assms(2) by (auto simp: map_option_eq_Some)
    with place_token_told [OF s(1)] place_token_frame(1) [OF s(1)] told [of j] won show ?thesis by simp
  qed
  with inv(2) show ?thesis by (simp add: cancel_inv_def)
qed

interpretation cancelled_task: invariant_system jh_step "cancel_inv ks" for ks
  by unfold_locales (rule cancel_inv_step)

text \<open>
  No cancellation is lost between \<open>cancel\<close> and the worker that fetches the task: when a \<open>cancel\<close> that completed the task has returned, the
  request is made, and a worker that has the task was awakened for it or has found the request when it fetched the task (either way
  the next turn of the task ends it, see \<open>Worker_Cancel\<close>).
\<close>

theorem cancellation_reaches_task:
  assumes "Final \<notin> set ks" "run jh_step as (jh_new ks blocking) = Some w"
    and "ts_winner (jh_state w) = Some (i, Canc)" "jh_completers w ! i = Cm_done"
  shows "ts_cancelled (jh_state w) \<and>
    (ts_cancel_token (jh_state w) \<longrightarrow> ts_task_awoken (jh_state w) \<or> ts_fetched_cancelled (jh_state w))"
proof -
  have "cancel_inv ks (jh_new ks blocking)"
    using jh_new_inv [OF assms(1)] by (simp add: cancel_inv_def jh_new_def task_state_new_def)
  from cancelled_task.run_inv [OF this assms(2)] assms(3,4) show ?thesis by (simp add: cancel_inv_def cancel_told_def)
qed

text \<open>The state destroys the value of a task that returned one, and nothing else, however reading and cancellation went.\<close>

lemma task_state_destroys_result:
  assumes "Final \<notin> set ks" "run jh_step as (jh_new ks blocking) = Some w" "list_all (\<lambda>pc. pc = Cm_done) (jh_completers w)"
  shows "task_state_dtor (jh_state w) = Some (case ts_winner (jh_state w) of Some (i, Ret v) \<Rightarrow> [v] | _ \<Rightarrow> [])"
proof -
  have inv: "jh_inv ks w" by (rule jh.run_inv [OF jh_new_inv [OF assms(1)] assms(2)])
  have "jh_completers w ! i = Cm_done" if "i < length ks" for i
    using assms(3) that inv by (simp add: list_all_length jh_inv_def)
  with inv have "winner_stage (jh_state w) (jh_completers w) = 0"
    by (auto simp: winner_stage_def jh_inv_def split: option.splits)
  then have "ts_ok ks 0 (jh_state w)" using inv by (simp add: jh_inv_def)
  then show ?thesis
    by (auto simp: ts_ok_def task_state_dtor_def stored_def split: option.splits completion.splits)
qed

text \<open>
  A coroutine that need not wait can read too early. \<open>try_mark_completed\<close> publishes \<open>completed\<close>
  before the value is constructed, and \<open>await_ready\<close> (or \<open>await_suspend\<close>) only looks at that mark:
  the reader moves out of uninitialized storage. In the second run the late awakening of the
  completer reaches a coroutine that is no longer suspended.
\<close>

theorem join_handle_reads_too_early:
  "(\<exists>as w. run jh_step as (jh_new [Ret (7::nat)] False) = Some w \<and>
      jh_reader w = Rd_done False Res_uninitialized) \<and>
   (\<exists>as w. run jh_step as (jh_new [Ret (7::nat)] False) = Some w \<and>
      jh_reader w = Rd_done False (Res_value 7) \<and> ts_awoken (jh_state w))"
proof
  let ?as = "[Complete 0 False, Complete 0 False, Read False, Read False, Read False]"
  have "\<exists>w. run jh_step ?as (jh_new [Ret (7::nat)] False) = Some w \<and> jh_reader w = Rd_done False Res_uninitialized"
    by (simp add: jh_new_def task_state_new_def completion_defs reader_defs)
  then show "\<exists>as w. run jh_step as (jh_new [Ret (7::nat)] False) = Some w \<and>
      jh_reader w = Rd_done False Res_uninitialized"
    by (rule exI [of _ ?as])
next
  let ?as = "[Read False, Read False, Complete 0 False, Complete 0 False, Complete 0 False,
    Read False, Read False, Read False, Complete 0 False, Complete 0 False, Complete 0 False]"
  have "\<exists>w. run jh_step ?as (jh_new [Ret (7::nat)] False) = Some w \<and>
      jh_reader w = Rd_done False (Res_value 7) \<and> ts_awoken (jh_state w)"
    by (simp add: jh_new_def task_state_new_def completion_defs reader_defs store_result_def after_completion_def)
  then show "\<exists>as w. run jh_step as (jh_new [Ret (7::nat)] False) = Some w \<and>
      jh_reader w = Rd_done False (Res_value 7) \<and> ts_awoken (jh_state w)"
    by (rule exI [of _ ?as])
qed

end
