(* ===== verification/Timer.thy ===== *)
theory Timer
  imports Asco_Prelude
begin

text \<open>
  \<open>asco/core/time/high_resolution_timer\<close> with \<open>asco/time/sleep\<close> and \<open>asco/time/interval\<close>: the tree of timers (one area per second, in
  each the timers of that second and the identifiers of the cancelled ones), the thread that
  awakes what is due, and its sleep. Time points are numbers of nanoseconds since the epoch of the
  steady clock. The standard hashes of the three addresses in a token are parameters.
\<close>

section \<open>Identifiers of timers\<close>

text \<open>\<open>awake_token::hash\<close>, from the hashes of the worker, the domain and the execution.\<close>

definition awake_token_hash :: "u64 \<Rightarrow> u64 \<Rightarrow> u64 \<Rightarrow> u64" where
  "awake_token_hash h1 h2 h3 = (h1 XOR push_bit 1 h2) XOR push_bit 2 h3"

text \<open>It tells apart the executions of one domain, as long as their addresses differ below bit 62, but not those of any two domains.\<close>

lemma awake_token_hash_inject:
  assumes "awake_token_hash w d e = awake_token_hash w d e'"
  shows "take_bit 62 e = take_bit 62 e'"
proof -
  have eq: "push_bit 2 e = push_bit 2 e'" using assms by (simp add: awake_token_hash_def)
  have "bit e n = bit e' n" if "n < 62" for n
    using arg_cong [OF eq, of "\<lambda>x. bit x (n + 2)"] that by (simp add: bit_simps)
  then show ?thesis by (auto simp: bit_eq_iff bit_simps)
qed

lemma awake_token_hash_collides: "awake_token_hash w d e = awake_token_hash w (d XOR push_bit 1 x) (e XOR x)"
  by (rule bit_eqI) (auto simp: awake_token_hash_def bit_push_bit_iff bit_xor_iff numeral_2_eq_2 simp del: push_bit_numeral push_bit_Suc)

text \<open>\<open>timer_id\<close> with its ordering, first by \<open>seq\<close> (the time point), then by \<open>hash\<close>.\<close>

datatype timer_id = Timer_id (tm_seq: nat) (tm_hash: nat)

definition timer_id_less :: "timer_id \<Rightarrow> timer_id \<Rightarrow> bool" where
  "timer_id_less a b \<longleftrightarrow> (if tm_seq a = tm_seq b then tm_hash a < tm_hash b else tm_seq a < tm_seq b)"

instantiation timer_id :: linorder
begin

definition less_eq_timer_id :: "timer_id \<Rightarrow> timer_id \<Rightarrow> bool" where
  "a \<le> b \<longleftrightarrow> \<not> timer_id_less b a"

definition less_timer_id :: "timer_id \<Rightarrow> timer_id \<Rightarrow> bool" where
  "a < b \<longleftrightarrow> timer_id_less a b"

instance
  by standard (auto simp: less_eq_timer_id_def less_timer_id_def timer_id_less_def timer_id.expand split: if_splits)

end

lemma less_timer_id_seq: "a < (b :: timer_id) \<Longrightarrow> tm_seq a \<le> tm_seq b"
  by (auto simp: less_timer_id_def timer_id_less_def split: if_splits)

section \<open>The tree\<close>

text \<open>
  \<open>std::map\<close> is an association list with ascending keys; \<open>emplace\<close> does nothing when the key is there.
\<close>

fun emplace :: "'k::linorder \<Rightarrow> 'v \<Rightarrow> ('k \<times> 'v) list \<Rightarrow> ('k \<times> 'v) list" where
  "emplace k v [] = [(k, v)]"
| "emplace k v ((k', v') # xs) =
     (if k = k' then (k', v') # xs
      else if k < k' then (k, v) # (k', v') # xs
      else (k', v') # emplace k v xs)"

text \<open>\<open>at\<close>, to change the value of a key that is there.\<close>

fun update_at :: "'k \<Rightarrow> ('v \<Rightarrow> 'v) \<Rightarrow> ('k \<times> 'v) list \<Rightarrow> ('k \<times> 'v) list" where
  "update_at k f [] = []"
| "update_at k f ((k', v) # xs) = (if k = k' then (k', f v) # xs else (k', v) # update_at k f xs)"

record 't entry =
  en_time_point :: nat
  en_token :: 't

record 't area =
  ar_entries :: "(timer_id \<times> 't entry) list"
  ar_removed :: "timer_id list"

type_synonym 't tree = "(nat \<times> 't area) list"

definition sec_from_epoch :: "nat \<Rightarrow> nat" where
  "sec_from_epoch tp = tp div 1000000000"

section \<open>Operations\<close>

text \<open>The entry is put into the tree under the writer's lock; \<open>None\<close> for a time point in the past.\<close>

definition register_timer :: "nat \<Rightarrow> nat \<Rightarrow> 't \<Rightarrow> nat \<Rightarrow> 't tree \<Rightarrow> timer_id option \<times> 't tree" where
  "register_timer now tp token hash tree =
     (if tp < now then (None, tree)
      else
        (let tmid = Timer_id tp hash; s = sec_from_epoch tp;
             tree = (if map_of tree s = None then emplace s \<lparr>ar_entries = [], ar_removed = []\<rparr> tree else tree)
         in (Some tmid,
             update_at s (\<lambda>a. a\<lparr>ar_entries := emplace tmid \<lparr>en_time_point = tp, en_token = token\<rparr> (ar_entries a)\<rparr>) tree)))"

text \<open>The second result tells whether the thread is awakened.\<close>

definition cancel_timer :: "timer_id \<Rightarrow> 't tree \<Rightarrow> 't tree \<times> bool" where
  "cancel_timer tmid tree =
     (let s = sec_from_epoch (tm_seq tmid) in
      if map_of tree s = None then (tree, False)
      else (update_at s (\<lambda>a. a\<lparr>ar_removed := List.insert tmid (ar_removed a)\<rparr>) tree, True))"

definition is_expired :: "timer_id \<Rightarrow> 't tree \<Rightarrow> bool" where
  "is_expired tmid tree =
     (case map_of tree (sec_from_epoch (tm_seq tmid)) of
        None \<Rightarrow> True
      | Some a \<Rightarrow> map_of (ar_entries a) tmid = None \<or> tmid \<in> set (ar_removed a))"

text \<open>The loop over the entries of an area: the awakened tokens, what is left, and the cancelled ones left.\<close>

fun expire_entries :: "nat \<Rightarrow> (timer_id \<times> 't entry) list \<Rightarrow> timer_id list \<Rightarrow>
    't list \<times> (timer_id \<times> 't entry) list \<times> timer_id list" where
  "expire_entries now [] removed = ([], [], removed)"
| "expire_entries now ((tmid, e) # es) removed =
     (if tmid \<in> set removed then expire_entries now es (removeAll tmid removed)
      else if en_time_point e > now then ([], (tmid, e) # es, removed)
      else (case expire_entries now es removed of (ws, es, removed) \<Rightarrow> (en_token e # ws, es, removed)))"

definition expire :: "nat \<Rightarrow> 't tree \<Rightarrow> 't list \<times> 't tree" where
  "expire now tree =
     (case tree of
        [] \<Rightarrow> ([], tree)
      | (s, a) # rest \<Rightarrow>
          if s > sec_from_epoch now then ([], tree)
          else (case expire_entries now (ar_entries a) (ar_removed a) of
                  (ws, es, removed) \<Rightarrow> (ws, (s, \<lparr>ar_entries = es, ar_removed = removed\<rparr>) # rest)))"

definition clean :: "'t tree \<Rightarrow> 't tree" where
  "clean tree = dropWhile (\<lambda>(_, a). ar_entries a = []) tree"

definition next_time_point :: "'t tree \<Rightarrow> nat option" where
  "next_time_point tree =
     (case tree of
        [] \<Rightarrow> None
      | (_, a) # _ \<Rightarrow> (case ar_entries a of [] \<Rightarrow> None | (_, e) # _ \<Rightarrow> Some (en_time_point e)))"

section \<open>The timer thread and its users\<close>

text \<open>
  \<open>Tm_sleep d\<close> sleeps until it is awakened or, if \<open>d\<close> is a time point, until then. The semaphore of the
  daemon is \<open>tw_sem\<close>; \<open>tw_calls\<close> counts the calls of \<open>register_timer\<close> and \<open>cancel_timer\<close> that have
  changed the tree and are about to awake the thread. \<open>tw_awakened\<close> is history.
\<close>

datatype timer_pc = Tm_loop | Tm_clean | Tm_next | Tm_sleep "nat option" | Tm_stopped

record 't timer_world =
  tw_tree :: "'t tree"
  tw_pc :: timer_pc
  tw_sem :: nat
  tw_stop :: bool
  tw_calls :: nat
  tw_awakened :: "'t list"

definition timer_new :: "'t timer_world" where
  "timer_new = \<lparr>tw_tree = [], tw_pc = Tm_loop, tw_sem = 0, tw_stop = False, tw_calls = 0, tw_awakened = []\<rparr>"

datatype 't timer_action =
    Register nat nat 't nat
  | Cancel timer_id
  | Awake
  | Request_stop
  | Thread nat

text \<open>\<open>Thread now\<close> is a step of the timer thread at the time \<open>now\<close>.\<close>

definition timer_thread_step :: "nat \<Rightarrow> 't timer_world \<Rightarrow> 't timer_world option" where
  "timer_thread_step now w =
     (case tw_pc w of
        Tm_loop \<Rightarrow>
          if tw_stop w then Some (w\<lparr>tw_pc := Tm_stopped\<rparr>)
          else (case expire now (tw_tree w) of
                  (ws, tree) \<Rightarrow> Some (w\<lparr>tw_tree := tree, tw_pc := Tm_clean, tw_awakened := tw_awakened w @ ws\<rparr>))
      | Tm_clean \<Rightarrow> Some (w\<lparr>tw_tree := clean (tw_tree w), tw_pc := Tm_next\<rparr>)
      | Tm_next \<Rightarrow>
          if tw_stop w \<and> tw_tree w = [] then Some (w\<lparr>tw_pc := Tm_stopped\<rparr>)
          else Some (w\<lparr>tw_pc := Tm_sleep (next_time_point (tw_tree w))\<rparr>)
      | Tm_sleep d \<Rightarrow>
          if 0 < tw_sem w then Some (w\<lparr>tw_sem := tw_sem w - 1, tw_pc := Tm_loop\<rparr>)
          else (case d of
                  None \<Rightarrow> None
                | Some tp \<Rightarrow> if tp \<le> now then Some (w\<lparr>tw_pc := Tm_loop\<rparr>) else None)
      | Tm_stopped \<Rightarrow> None)"

fun timer_step :: "'t timer_action \<Rightarrow> 't timer_world \<Rightarrow> 't timer_world option" where
  "timer_step (Register now tp token hash) w =
     (case register_timer now tp token hash (tw_tree w) of
        (None, _) \<Rightarrow> Some w
      | (Some _, tree) \<Rightarrow> Some (w\<lparr>tw_tree := tree, tw_calls := tw_calls w + 1\<rparr>))"
| "timer_step (Cancel tmid) w =
     (case cancel_timer tmid (tw_tree w) of
        (tree, b) \<Rightarrow> Some (w\<lparr>tw_tree := tree, tw_calls := tw_calls w + of_bool b\<rparr>))"
| "timer_step Awake w =
     (if 0 < tw_calls w then Some (w\<lparr>tw_calls := tw_calls w - 1, tw_sem := tw_sem w + 1\<rparr>) else None)"
| "timer_step Request_stop w = Some (w\<lparr>tw_stop := True, tw_sem := tw_sem w + 1\<rparr>)"
| "timer_step (Thread now) w = timer_thread_step now w"

section \<open>Intervals\<close>

record interval =
  begin_time :: nat
  duration :: nat
  tick_count :: nat

text \<open>The time point the next tick waits for, if it waits.\<close>

definition tick :: "nat \<Rightarrow> interval \<Rightarrow> nat option \<times> interval" where
  "tick now iv =
     (let tp = begin_time iv + tick_count iv * duration iv in
      (if tp > now then Some tp else None, iv\<lparr>tick_count := tick_count iv + 1\<rparr>))"

section \<open>Pending timers\<close>

text \<open>What the tree stands for: the timers that are neither awakened nor cancelled, by time.\<close>

definition area_pending :: "'t area \<Rightarrow> (timer_id \<times> 't entry) list" where
  "area_pending a = filter (\<lambda>(i, _). i \<notin> set (ar_removed a)) (ar_entries a)"

definition pending :: "'t tree \<Rightarrow> (timer_id \<times> 't entry) list" where
  "pending tree = concat (map (\<lambda>(_, a). area_pending a) tree)"

definition due :: "nat \<Rightarrow> timer_id \<times> 't entry \<Rightarrow> bool" where
  "due now x \<longleftrightarrow> en_time_point (snd x) \<le> now"

definition token_of :: "timer_id \<times> 't entry \<Rightarrow> 't" where
  "token_of x = en_token (snd x)"

definition entry_ok :: "nat \<Rightarrow> timer_id \<times> 't entry \<Rightarrow> bool" where
  "entry_ok s x \<longleftrightarrow> tm_seq (fst x) = en_time_point (snd x) \<and> sec_from_epoch (en_time_point (snd x)) = s"

definition area_ok :: "nat \<Rightarrow> 't area \<Rightarrow> bool" where
  "area_ok s a \<longleftrightarrow> sorted_wrt (<) (map fst (ar_entries a)) \<and> (\<forall>x\<in>set (ar_entries a). entry_ok s x)"

definition tree_ok :: "'t tree \<Rightarrow> bool" where
  "tree_ok tree \<longleftrightarrow> sorted_wrt (<) (map fst tree) \<and> (\<forall>(s, a)\<in>set tree. area_ok s a)"

lemma pending_simps [simp]:
  "pending [] = []" "pending ((s, a) # tree) = area_pending a @ pending tree"
  by (simp_all add: pending_def)

lemma pending_in: "x \<in> set (pending tree) \<longleftrightarrow> (\<exists>s a. (s, a) \<in> set tree \<and> x \<in> set (area_pending a))"
  by (force simp: pending_def)

lemma sec_less: "sec_from_epoch a < sec_from_epoch b \<Longrightarrow> a < b"
  unfolding sec_from_epoch_def by (meson div_le_mono leD le_less_linear)

text \<open>Association lists with ascending keys.\<close>

lemma emplace_keys: "fst ` set (emplace k v xs) = insert k (fst ` set xs)"
  by (induction k v xs rule: emplace.induct) (simp_all add: insert_commute)

lemma emplace_set: "x \<in> set (emplace k v xs) \<Longrightarrow> x = (k, v) \<or> x \<in> set xs"
  by (induction xs) (auto split: if_splits)

lemma emplace_sorted: "sorted_wrt (<) (map fst xs) \<Longrightarrow> sorted_wrt (<) (map fst (emplace k v xs))"
proof (induction xs)
  case Nil
  then show ?case by simp
next
  case (Cons x xs)
  obtain k' v' where x: "x = (k', v')" by (cases x)
  have "\<forall>y\<in>set (map fst (emplace k v xs)). k' < y" if "k' < k"
    using that Cons.prems emplace_keys [of k v xs] by (auto simp: x)
  with Cons show ?case by (auto simp: x not_less_iff_gr_or_eq)
qed

lemma update_at_keys [simp]: "map fst (update_at k f xs) = map fst xs"
  by (induction xs) auto

lemma update_at_set:
  "(k', v') \<in> set (update_at k f xs) \<Longrightarrow> \<exists>v. (k', v) \<in> set xs \<and> (v' = v \<or> k' = k \<and> v' = f v)"
proof (induction k f xs rule: update_at.induct)
  case (2 k f k2 v xs)
  then show ?case by (cases "k = k2") auto
qed simp

lemma tree_ok_Cons:
  "tree_ok ((s, a) # tree) \<longleftrightarrow> (\<forall>(s', _)\<in>set tree. s < s') \<and> area_ok s a \<and> tree_ok tree"
  by (auto simp: tree_ok_def)

lemma tree_ok_update:
  assumes "tree_ok tree" "\<And>a. area_ok s a \<Longrightarrow> area_ok s (f a)"
  shows "tree_ok (update_at s f tree)"
  using assms by (fastforce simp: tree_ok_def dest!: update_at_set)

lemma register_ok: "tree_ok tree \<Longrightarrow> tree_ok (snd (register_timer now tp tok h tree))"
proof -
  assume ok: "tree_ok tree"
  let ?s = "sec_from_epoch tp"
  have "tree_ok (emplace ?s \<lparr>ar_entries = [], ar_removed = []\<rparr> tree)"
    using ok emplace_sorted by (auto simp: tree_ok_def area_ok_def dest!: emplace_set)
  moreover have "area_ok ?s (a\<lparr>ar_entries := emplace (Timer_id tp h) \<lparr>en_time_point = tp, en_token = tok\<rparr> (ar_entries a)\<rparr>)"
    if "area_ok ?s a" for a
    using that by (auto simp: area_ok_def entry_ok_def emplace_sorted dest!: emplace_set)
  ultimately show ?thesis
    using ok by (auto simp: register_timer_def Let_def intro!: tree_ok_update)
qed

lemma cancel_ok: "tree_ok tree \<Longrightarrow> tree_ok (fst (cancel_timer tmid tree))"
  by (auto simp: cancel_timer_def Let_def area_ok_def intro!: tree_ok_update)

section \<open>Expiry\<close>

lemma expire_entries_spec:
  assumes "sorted_wrt (<) (map fst es)" "\<forall>x\<in>set es. tm_seq (fst x) = en_time_point (snd x)"
    and "expire_entries now es removed = (ws, es', removed')"
  shows "ws = map token_of (filter (due now) (filter (\<lambda>(i, _). i \<notin> set removed) es)) \<and>
    filter (\<lambda>(i, _). i \<notin> set removed') es' = filter (\<lambda>x. \<not> due now x) (filter (\<lambda>(i, _). i \<notin> set removed) es) \<and>
    (\<exists>zs. es = zs @ es') \<and> (es' \<noteq> [] \<longrightarrow> \<not> due now (hd es'))"
  using assms
proof (induction es arbitrary: removed ws es' removed')
  case Nil
  then show ?case by simp
next
  case (Cons x es)
  obtain i e where x: "x = (i, e)" by (cases x)
  show ?case
  proof (cases "i \<in> set removed")
    case True
    have same: "filter (\<lambda>(j, _). j \<notin> set (removeAll i removed)) es = filter (\<lambda>(j, _). j \<notin> set removed) es"
      using Cons.prems(1) by (auto simp: x intro!: filter_cong)
    have "expire_entries now es (removeAll i removed) = (ws, es', removed')" "sorted_wrt (<) (map fst es)"
      "\<forall>x\<in>set es. tm_seq (fst x) = en_time_point (snd x)"
      using Cons.prems True by (simp_all add: x)
    from Cons.IH [OF this(2,3,1)] obtain zs where
      "ws = map token_of (filter (due now) (filter (\<lambda>(j, _). j \<notin> set removed) es))"
      "filter (\<lambda>(j, _). j \<notin> set removed') es' = filter (\<lambda>x. \<not> due now x) (filter (\<lambda>(j, _). j \<notin> set removed) es)"
      "es = zs @ es'" "es' \<noteq> [] \<longrightarrow> \<not> due now (hd es')"
      unfolding same by blast
    with True show ?thesis by (intro conjI exI [of _ "x # zs"]) (simp_all add: x)
  next
    case False
    show ?thesis
    proof (cases "now < en_time_point e")
      case True
      have "\<not> due now y" if "y \<in> set es" for y
        using that Cons.prems(1,2) True less_timer_id_seq [of i "fst y"] by (force simp: x due_def)
      then have "filter (due now) (filter (\<lambda>(j, _). j \<notin> set removed) es) = []"
        "filter (\<lambda>x. \<not> due now x) (filter (\<lambda>(j, _). j \<notin> set removed) es) = filter (\<lambda>(j, _). j \<notin> set removed) es"
        by (auto simp: filter_empty_conv intro!: filter_cong)
      with Cons.prems(3) True False show ?thesis by (auto simp: x due_def)
    next
      case later: False
      obtain ws2 where "expire_entries now es removed = (ws2, es', removed')" "ws = en_token e # ws2"
        using Cons.prems(3) False later by (auto simp: x split: prod.splits)
      with Cons.IH [of removed ws2 es' removed'] Cons.prems(1,2) False later show ?thesis
        by (auto simp: x due_def token_of_def)
    qed
  qed
qed

lemma pending_entry:
  assumes "tree_ok tree" "x \<in> set (pending tree)"
  obtains s a where "(s, a) \<in> set tree" "entry_ok s x"
proof -
  from assms(2) obtain s a where a: "(s, a) \<in> set tree" "x \<in> set (area_pending a)"
    by (auto simp: pending_in)
  with assms(1) have "area_ok s a" by (auto simp: tree_ok_def)
  with a(2) have "entry_ok s x" by (auto simp: area_ok_def area_pending_def)
  with a(1) that show ?thesis by blast
qed

lemma later_not_due:
  assumes "tree_ok tree" "\<forall>(s', _)\<in>set tree. s < s'" "now < tp" "sec_from_epoch tp = s"
    and "x \<in> set (pending tree)"
  shows "\<not> due now x"
proof -
  from assms(1,5) obtain s' a where "(s', a) \<in> set tree" "entry_ok s' x"
    by (rule pending_entry)
  then have "s < s'" "sec_from_epoch (en_time_point (snd x)) = s'"
    using assms(2) by (auto simp: entry_ok_def)
  with assms(4) have "tp < en_time_point (snd x)" using sec_less [of tp] by simp
  with assms(3) show ?thesis by (simp add: due_def)
qed

lemma expire_spec:
  assumes ok: "tree_ok tree" and ex: "expire now tree = (ws, tree')"
  shows "tree_ok tree'" "ws @ map token_of (filter (due now) (pending tree')) = map token_of (filter (due now) (pending tree))"
    "filter (\<lambda>x. \<not> due now x) (pending tree') = filter (\<lambda>x. \<not> due now x) (pending tree)"
    "length tree' = length tree" "filter (due now) (pending tree') = [] \<or> length (clean tree') < length tree"
proof -
  have "tree_ok tree' \<and> ws @ map token_of (filter (due now) (pending tree')) = map token_of (filter (due now) (pending tree)) \<and>
    filter (\<lambda>x. \<not> due now x) (pending tree') = filter (\<lambda>x. \<not> due now x) (pending tree) \<and>
    length tree' = length tree \<and> (filter (due now) (pending tree') = [] \<or> length (clean tree') < length tree)"
  proof (cases tree)
    case Nil
    with ok ex show ?thesis by (simp add: expire_def)
  next
    case (Cons sa rest)
    obtain s a where sa: "sa = (s, a)" by (cases sa)
    have ok': "area_ok s a" "tree_ok rest" "\<forall>(s', _)\<in>set rest. s < s'"
      using ok by (simp_all add: Cons sa tree_ok_Cons)
    show ?thesis
    proof (cases "sec_from_epoch now < s")
      case True
      have "\<not> due now x" if "x \<in> set (pending tree)" for x
      proof -
        from ok that obtain s' b where "(s', b) \<in> set tree" "entry_ok s' x"
          by (rule pending_entry)
        with True ok'(3) have "sec_from_epoch now < sec_from_epoch (en_time_point (snd x))"
          by (auto simp: Cons sa entry_ok_def)
        then show ?thesis using sec_less by (simp add: due_def not_le)
      qed
      with True ok ex show ?thesis by (auto simp: expire_def Cons sa filter_empty_conv)
    next
      case False
      obtain es' rem' where ee: "expire_entries now (ar_entries a) (ar_removed a) = (ws, es', rem')"
        and tree': "tree' = (s, \<lparr>ar_entries = es', ar_removed = rem'\<rparr>) # rest"
        using ex False by (auto simp: expire_def Cons sa split: prod.splits)
      have "sorted_wrt (<) (map fst (ar_entries a))" "\<forall>x\<in>set (ar_entries a). tm_seq (fst x) = en_time_point (snd x)"
        using ok'(1) by (simp_all add: area_ok_def entry_ok_def)
      from expire_entries_spec [OF this ee] obtain zs where
        e: "ws = map token_of (filter (due now) (area_pending a))"
          "area_pending \<lparr>ar_entries = es', ar_removed = rem'\<rparr> = filter (\<lambda>x. \<not> due now x) (area_pending a)"
          "ar_entries a = zs @ es'" "es' \<noteq> [] \<Longrightarrow> \<not> due now (hd es')"
        by (auto simp: area_pending_def)
      have "area_ok s \<lparr>ar_entries = es', ar_removed = rem'\<rparr>"
        using ok'(1) by (simp add: area_ok_def e(3) sorted_wrt_append)
      moreover have "filter (due now) (pending rest) = [] \<or> length (clean tree') < length tree"
      proof (cases es')
        case Nil
        then have "clean tree' = clean rest" by (simp add: tree' clean_def)
        moreover have "length (clean rest) \<le> length rest" by (simp add: clean_def length_dropWhile_le)
        ultimately show ?thesis by (simp add: Cons)
      next
        case (Cons x xs)
        then have "now < en_time_point (snd x)" "entry_ok s x"
          using e(3,4) ok'(1) by (simp_all add: due_def area_ok_def)
        then have "\<not> due now y" if "y \<in> set (pending rest)" for y
          using later_not_due [OF ok'(2,3) _ _ that] by (simp add: entry_ok_def)
        then show ?thesis by (simp add: filter_empty_conv)
      qed
      ultimately show ?thesis
        using ok' by (simp add: tree' Cons sa tree_ok_Cons e(1,2) filter_empty_conv)
    qed
  qed
  then show "tree_ok tree'" "ws @ map token_of (filter (due now) (pending tree')) = map token_of (filter (due now) (pending tree))"
    "filter (\<lambda>x. \<not> due now x) (pending tree') = filter (\<lambda>x. \<not> due now x) (pending tree)"
    "length tree' = length tree" "filter (due now) (pending tree') = [] \<or> length (clean tree') < length tree"
    by blast+
qed

lemma clean_pending [simp]: "pending (clean tree) = pending tree"
  by (induction tree) (auto simp: clean_def area_pending_def)

lemma clean_ok: "tree_ok tree \<Longrightarrow> tree_ok (clean tree)"
  by (induction tree) (auto simp: clean_def tree_ok_Cons tree_ok_def)

text \<open>The rounds of the timer thread at one time: expire and clean, again and again.\<close>

fun rounds :: "nat \<Rightarrow> nat \<Rightarrow> 't tree \<Rightarrow> 't list \<times> 't tree" where
  "rounds now 0 tree = ([], tree)"
| "rounds now (Suc n) tree =
     (let (ws, tree) = expire now tree; (ws', tree) = rounds now n (clean tree) in (ws @ ws', tree))"

lemma rounds_spec:
  assumes "tree_ok tree" "length tree \<le> n \<or> filter (due now) (pending tree) = []" "rounds now n tree = (ws, tree')"
  shows "ws = map token_of (filter (due now) (pending tree)) \<and>
    pending tree' = filter (\<lambda>x. \<not> due now x) (pending tree)"
  using assms
proof (induction n arbitrary: tree ws)
  case 0
  then show ?case by (auto simp: filter_empty_conv intro!: filter_True [symmetric])
next
  case (Suc n)
  obtain ws1 t1 where ex: "expire now tree = (ws1, t1)" by (cases "expire now tree")
  obtain ws2 where rec: "rounds now n (clean t1) = (ws2, tree')" and ws: "ws = ws1 @ ws2"
    using Suc.prems(3) ex by (auto simp: Let_def split: prod.splits)
  note e = expire_spec [OF Suc.prems(1) ex]
  have "length (clean t1) \<le> n \<or> filter (due now) (pending (clean t1)) = []"
    using Suc.prems(2) e(2,5) by auto
  from Suc.IH [OF clean_ok [OF e(1)] this rec] e(2,3) show ?case
    by (simp add: ws)
qed

lemma is_expired_pending:
  assumes "tree_ok tree"
  shows "is_expired tmid tree \<longleftrightarrow> tmid \<notin> fst ` set (pending tree)"
proof -
  let ?s = "sec_from_epoch (tm_seq tmid)"
  have dist: "distinct (map fst tree)"
    using assms by (auto simp: tree_ok_def strict_sorted_iff)
  have "tmid \<in> fst ` set (pending tree) \<longleftrightarrow>
      (\<exists>a. map_of tree ?s = Some a \<and> map_of (ar_entries a) tmid \<noteq> None \<and> tmid \<notin> set (ar_removed a))"
  proof
    assume "tmid \<in> fst ` set (pending tree)"
    then obtain s a e where a: "(s, a) \<in> set tree" "(tmid, e) \<in> set (ar_entries a)" "tmid \<notin> set (ar_removed a)"
      by (auto simp: pending_in area_pending_def)
    with assms have "entry_ok s (tmid, e)" by (auto simp: tree_ok_def area_ok_def)
    then have "s = ?s" by (simp add: entry_ok_def)
    with a dist show "\<exists>a. map_of tree ?s = Some a \<and> map_of (ar_entries a) tmid \<noteq> None \<and> tmid \<notin> set (ar_removed a)"
      by (force simp: map_of_eq_None_iff)
  next
    assume "\<exists>a. map_of tree ?s = Some a \<and> map_of (ar_entries a) tmid \<noteq> None \<and> tmid \<notin> set (ar_removed a)"
    then obtain a e where "map_of tree ?s = Some a" "map_of (ar_entries a) tmid = Some e" "tmid \<notin> set (ar_removed a)"
      by auto
    then show "tmid \<in> fst ` set (pending tree)"
      by (force simp: pending_in area_pending_def dest!: map_of_SomeD)
  qed
  then show ?thesis
    by (auto simp: is_expired_def split: option.splits)
qed

section \<open>All threads\<close>

text \<open>
  The timer thread never sleeps beside a timer that is due, unless a call is about to awake it; when
  it looks for the next time point, the first area has an entry.
\<close>

definition first_filled :: "'t tree \<Rightarrow> bool" where
  "first_filled tree \<longleftrightarrow> (case tree of [] \<Rightarrow> True | (_, a) # _ \<Rightarrow> ar_entries a \<noteq> [])"

definition sleep_ok :: "nat option \<Rightarrow> 't tree \<Rightarrow> bool" where
  "sleep_ok d tree \<longleftrightarrow>
     (case d of None \<Rightarrow> pending tree = [] | Some tp \<Rightarrow> \<forall>x\<in>set (pending tree). tp \<le> en_time_point (snd x))"

definition timer_inv :: "'t timer_world \<Rightarrow> bool" where
  "timer_inv w \<longleftrightarrow> tree_ok (tw_tree w) \<and>
     (case tw_pc w of
        Tm_next \<Rightarrow> first_filled (tw_tree w)
      | Tm_sleep d \<Rightarrow> tw_sem w + tw_calls w = 0 \<longrightarrow> sleep_ok d (tw_tree w)
      | _ \<Rightarrow> True)"

lemma clean_first: "first_filled (clean tree)"
  by (induction tree) (auto simp: first_filled_def clean_def)

lemma emplace_not_Nil: "emplace k v xs \<noteq> []"
  by (cases xs) (auto split: if_splits)

lemma first_filled_update:
  "first_filled tree \<Longrightarrow> (\<And>a. ar_entries a \<noteq> [] \<Longrightarrow> ar_entries (f a) \<noteq> []) \<Longrightarrow> first_filled (update_at s f tree)"
  by (cases tree) (auto simp: first_filled_def split: prod.splits)

lemma first_filled_register:
  assumes "first_filled tree"
  shows "first_filled (snd (register_timer now tp tok h tree))"
proof -
  let ?s = "sec_from_epoch tp"
  let ?f = "\<lambda>a. a\<lparr>ar_entries := emplace (Timer_id tp h) \<lparr>en_time_point = tp, en_token = tok\<rparr> (ar_entries a)\<rparr>"
  have "first_filled (update_at ?s ?f (emplace ?s \<lparr>ar_entries = [], ar_removed = []\<rparr> tree))"
    using assms by (cases tree) (auto simp: first_filled_def emplace_not_Nil split: prod.splits)
  moreover have "first_filled (update_at ?s ?f tree)"
    using assms by (rule first_filled_update) (simp add: emplace_not_Nil)
  ultimately show ?thesis
    using assms by (simp add: register_timer_def Let_def)
qed

lemma next_time_point_ok:
  assumes "tree_ok tree" "first_filled tree"
  shows "sleep_ok (next_time_point tree) tree"
proof (cases tree)
  case Nil
  then show ?thesis by (simp add: next_time_point_def sleep_ok_def)
next
  case (Cons sa rest)
  then obtain s a x es where tree: "tree = (s, a) # rest" and es: "ar_entries a = x # es"
    using assms(2) by (cases sa; cases "ar_entries (snd sa)") (auto simp: first_filled_def)
  have a: "area_ok s a" "tree_ok rest" "\<forall>(s', _)\<in>set rest. s < s'"
    using assms(1) by (simp_all add: tree tree_ok_Cons)
  let ?tp = "en_time_point (snd x)"
  have x: "entry_ok s x" using a(1) by (simp add: area_ok_def es)
  have "?tp \<le> en_time_point (snd y)" if "y \<in> set (area_pending a)" for y
  proof -
    from that have "y = x \<or> (fst x < fst y)" "entry_ok s y"
      using a(1) by (auto simp: area_pending_def area_ok_def es split: if_splits)
    with x show ?thesis using less_timer_id_seq [of "fst x" "fst y"] by (auto simp: entry_ok_def)
  qed
  moreover have "?tp \<le> en_time_point (snd y)" if "y \<in> set (pending rest)" for y
  proof -
    from a(2) that obtain s' b where "(s', b) \<in> set rest" "entry_ok s' y" by (rule pending_entry)
    with a(3) x have "sec_from_epoch ?tp < sec_from_epoch (en_time_point (snd y))"
      by (auto simp: entry_ok_def)
    then show ?thesis using sec_less less_imp_le by blast
  qed
  ultimately show ?thesis
    by (cases x) (auto simp: tree es next_time_point_def sleep_ok_def)
qed

lemma sleep_ok_subset: "sleep_ok d tree \<Longrightarrow> set (pending tree') \<subseteq> set (pending tree) \<Longrightarrow> sleep_ok d tree'"
  by (cases d) (auto simp: sleep_ok_def)

lemma timer_step_inv: "timer_inv w \<Longrightarrow> timer_step a w = Some w' \<Longrightarrow> timer_inv w'"
proof (induction a w rule: timer_step.induct)
  case (1 now tp tok h w)
  then show ?case
    using register_ok [of "tw_tree w" now tp tok h] first_filled_register [of "tw_tree w" now tp tok h]
    by (auto simp: timer_inv_def split: prod.splits option.splits timer_pc.splits)
next
  case (2 tmid w)
  have first: "first_filled (fst (cancel_timer tmid (tw_tree w)))" if "first_filled (tw_tree w)"
    using that by (auto simp: cancel_timer_def Let_def intro!: first_filled_update)
  have same: "snd (cancel_timer tmid (tw_tree w)) \<or> fst (cancel_timer tmid (tw_tree w)) = tw_tree w"
    by (simp add: cancel_timer_def Let_def)
  from 2 cancel_ok [of "tw_tree w" tmid] first same show ?case
    by (auto simp: timer_inv_def split: prod.splits timer_pc.splits)
next
  case (3 w)
  then show ?case by (auto simp: timer_inv_def split: if_splits timer_pc.splits)
next
  case (4 w)
  then show ?case by (auto simp: timer_inv_def split: timer_pc.splits)
next
  case (5 now w)
  then show ?case
    using expire_spec(1) [of "tw_tree w" now] clean_ok [of "tw_tree w"] clean_first [of "tw_tree w"]
      next_time_point_ok [of "tw_tree w"]
    by (auto simp: timer_inv_def timer_thread_step_def split: timer_pc.splits if_splits prod.splits option.splits)
qed

interpretation tm: invariant_system timer_step timer_inv
  by unfold_locales (rule timer_step_inv)

lemma timer_new_inv: "timer_inv timer_new"
  by (simp add: timer_inv_def timer_new_def tree_ok_def)

section \<open>Properties\<close>





text \<open>
  A timer that is cancelled and registered again, for the same time point and token, is lost:
  the entry is still there, so that \<open>emplace\<close> does nothing, and the mark of the cancellation stays and
  takes the entry away. The identifier that \<open>register_timer\<close> returned is not pending, and nobody
  is awakened when its time comes.
\<close>

theorem timer_registered_again_lost:
  "\<exists>w. run timer_step [Register 0 5 (1::nat) 7, Cancel (Timer_id 5 7), Register 0 5 1 7, Awake, Awake, Awake,
        Thread 9, Thread 9] timer_new = Some w \<and>
     fst (register_timer 0 5 (1::nat) 7 (tw_tree timer_new)) = Some (Timer_id 5 7) \<and>
     tw_tree w = [] \<and> tw_awakened w = []"
  by (simp add: timer_new_def register_timer_def cancel_timer_def timer_thread_step_def expire_def clean_def
      sec_from_epoch_def Let_def)

end
