(* ===== verification/Io_Adapter.thy ===== *)
theory Io_Adapter
  imports Flags "HOL-Library.Multiset"
begin

text \<open>
  \<open>asco/core/os/io.h\<close> and its implementation \<open>asco/core/os/linux/io_uring.cpp\<close>: what is asked of the kernel, and how
  its answers find the coroutines that wait for them. The kernel is not part of the program: the
  actions say which submission it completes next and with which result. Its constants are parameters.
\<close>

section \<open>Opening a file\<close>

datatype open_flag = Open_read | Open_write | Open_create | Open_truncate | Open_append | Open_exclusive | Open_temporary

fun open_flag_value :: "open_flag \<Rightarrow> nat" where
  "open_flag_value Open_read = 0"
| "open_flag_value Open_write = 1"
| "open_flag_value Open_create = 2"
| "open_flag_value Open_truncate = 3"
| "open_flag_value Open_append = 4"
| "open_flag_value Open_exclusive = 5"
| "open_flag_value Open_temporary = 6"

datatype create_mode = Mode_read | Mode_write | Mode_execute | Mode_read_share | Mode_write_share | Mode_execute_share

fun create_mode_value :: "create_mode \<Rightarrow> nat" where
  "create_mode_value Mode_read = 0"
| "create_mode_value Mode_write = 1"
| "create_mode_value Mode_execute = 2"
| "create_mode_value Mode_read_share = 3"
| "create_mode_value Mode_write_share = 4"
| "create_mode_value Mode_execute_share = 5"

definition has_flag :: "flags \<Rightarrow> open_flag \<Rightarrow> bool" where
  "has_flag f e \<longleftrightarrow> flags_contains_e f (open_flag_value e) = Some True"

definition has_mode :: "flags \<Rightarrow> create_mode \<Rightarrow> bool" where
  "has_mode f e \<longleftrightarrow> flags_contains_e f (create_mode_value e) = Some True"

text \<open>The constants of \<open>fcntl.h\<close>.\<close>

record fcntl =
  o_rdonly :: u32
  o_wronly :: u32
  o_rdwr :: u32
  o_creat :: u32
  o_trunc :: u32
  o_append :: u32
  o_excl :: u32
  o_tmpfile :: u32

definition access_flags :: "fcntl \<Rightarrow> flags \<Rightarrow> u32" where
  "access_flags c f =
     (if has_flag f Open_read \<and> has_flag f Open_write then o_rdwr c
      else if has_flag f Open_write then o_wronly c
      else o_rdonly c)"

definition os_open_flags :: "fcntl \<Rightarrow> flags \<Rightarrow> u32" where
  "os_open_flags c f =
     access_flags c f OR (if has_flag f Open_create then o_creat c else 0) OR
     (if has_flag f Open_truncate then o_trunc c else 0) OR (if has_flag f Open_append then o_append c else 0) OR
     (if has_flag f Open_exclusive then o_excl c else 0) OR (if has_flag f Open_temporary then o_tmpfile c else 0)"

definition os_open_mode :: "flags \<Rightarrow> u32" where
  "os_open_mode m =
     (if has_mode m Mode_read then push_bit 8 1 else 0) OR (if has_mode m Mode_write then push_bit 7 1 else 0) OR
     (if has_mode m Mode_execute then push_bit 6 1 else 0) OR (if has_mode m Mode_read_share then push_bit 2 9 else 0) OR
     (if has_mode m Mode_write_share then push_bit 1 9 else 0) OR (if has_mode m Mode_execute_share then 9 else 0)"

section \<open>Identifiers of requests\<close>

text \<open>Addresses, sizes, handles and time stamps are words.\<close>

definition open_request_id :: "u64 \<Rightarrow> u64 \<Rightarrow> flags \<Rightarrow> flags \<Rightarrow> u64 \<Rightarrow> u64" where
  "open_request_id path_data path_size f m timestamp =
     xor (xor (xor (xor path_data path_size) (flags_underlying f)) (flags_underlying m)) timestamp"

definition close_request_id :: "u64 \<Rightarrow> u64" where
  "close_request_id handle = handle"

definition read_request_id :: "u64 \<Rightarrow> u64 \<Rightarrow> u64 \<Rightarrow> u64 \<Rightarrow> u64" where
  "read_request_id handle offset buffer_data sz = xor (xor (xor handle offset) buffer_data) sz"

definition write_request_id :: "u64 \<Rightarrow> u64 \<Rightarrow> u64 \<Rightarrow> u64" where
  "write_request_id handle buffer_data buffer_size = xor (xor handle buffer_data) buffer_size"

section \<open>Results\<close>

text \<open>The constants of \<open>errno.h\<close>.\<close>

record errno =
  enoent :: int
  eacces :: int
  eexist :: int
  enametoolong :: int
  enotdir :: int
  eisdir :: int
  emfile :: int
  enfile :: int
  ebadf :: int
  efault :: int

datatype open_failed = Not_found | Open_permission_denied | Already_exists | Invalid_path | Too_many_open_files | Open_other

datatype rw_failed = Invalid_handle | Bad_buffer | Rw_permission_denied | Rw_other

definition open_result :: "errno \<Rightarrow> int \<Rightarrow> (open_failed \<times> int) + u64" where
  "open_result c res =
     (if res < 0
      then Inl (if - res = enoent c then Not_found
                else if - res = eacces c then Open_permission_denied
                else if - res = eexist c then Already_exists
                else if - res \<in> {enametoolong c, enotdir c, eisdir c} then Invalid_path
                else if - res \<in> {emfile c, enfile c} then Too_many_open_files
                else Open_other, res)
      else Inr (of_int res))"

text \<open>\<open>complete_read\<close> and \<open>complete_write\<close>.\<close>

definition rw_result :: "errno \<Rightarrow> int \<Rightarrow> (rw_failed \<times> int) + u64" where
  "rw_result c res =
     (if res < 0
      then Inl (if - res = ebadf c then Invalid_handle
                else if - res = efault c then Bad_buffer
                else if - res = eacces c then Rw_permission_denied
                else Rw_other, res)
      else Inr (of_int res))"

section \<open>The adapter\<close>

text \<open>
  A task is named by its number, which is also its token. What the kernel has is the list of submissions (with, as
  history, the task that made them) and the list of completions that were not taken yet.
  \<open>io_requests\<close> is the hash map as a finite map (\<open>insert\<close> leaves a key that is there unchanged).
\<close>

datatype io_pc = Io_idle | Io_waiting u64 | Io_done int

definition is_waiting :: "io_pc \<Rightarrow> bool" where
  "is_waiting pc \<longleftrightarrow> (case pc of Io_waiting _ \<Rightarrow> True | _ \<Rightarrow> False)"

record io =
  io_requests :: "u64 \<Rightarrow> (nat \<times> int) option"
  io_submitted :: "(u64 \<times> nat) list"
  io_completed :: "(u64 \<times> nat \<times> int) list"
  io_awoken :: "nat set"
  io_panic :: bool
  io_tasks :: "io_pc list"
  io_answers :: "nat \<Rightarrow> int option"

definition io_new :: "nat \<Rightarrow> io" where
  "io_new n = \<lparr>io_requests = (\<lambda>_. None), io_submitted = [], io_completed = [], io_awoken = {}, io_panic = False,
     io_tasks = replicate n Io_idle, io_answers = (\<lambda>_. None)\<rparr>"

text \<open>\<open>submit\<close>; the result of a request is 0 until the kernel has answered.\<close>

definition io_submit :: "nat \<Rightarrow> u64 \<Rightarrow> io \<Rightarrow> io" where
  "io_submit t reqid w =
     w\<lparr>io_requests := (case io_requests w reqid of None \<Rightarrow> (io_requests w)(reqid \<mapsto> (t, 0)) | Some _ \<Rightarrow> io_requests w),
       io_submitted := io_submitted w @ [(reqid, t)]\<rparr>"

text \<open>\<open>complete\<close>: the result, or \<open>None\<close> for a panic.\<close>

definition io_complete :: "u64 \<Rightarrow> io \<Rightarrow> int option \<times> io" where
  "io_complete reqid w =
     (case io_requests w reqid of
        Some (_, res) \<Rightarrow> (Some res, w\<lparr>io_requests := (io_requests w)(reqid := None)\<rparr>)
      | None \<Rightarrow> (None, w\<lparr>io_panic := True\<rparr>))"

text \<open>\<open>run_once\<close> of the daemon, when there is a completion.\<close>

definition io_run_once :: "io \<Rightarrow> io option" where
  "io_run_once w =
     (case io_completed w of
        [] \<Rightarrow> None
      | (reqid, _, res) # rest \<Rightarrow>
          (case io_requests w reqid of
             Some (token, _) \<Rightarrow>
               Some (w\<lparr>io_requests := (io_requests w)(reqid \<mapsto> (token, res)), io_completed := rest,
                       io_awoken := insert token (io_awoken w)\<rparr>)
           | None \<Rightarrow> Some (w\<lparr>io_panic := True\<rparr>)))"

datatype io_action = Io_submit nat u64 | Io_kernel nat int | Io_daemon | Io_resume nat

text \<open>
  A task that is not waiting submits a request with the given identifier; the kernel completes its \<open>n\<close>-th
  submission; the daemon takes a completion; a task that was awakened completes its request.
\<close>

fun io_step :: "io_action \<Rightarrow> io \<Rightarrow> io option" where
  "io_step (Io_submit t reqid) w =
     (if \<not> io_panic w \<and> t < length (io_tasks w) \<and> \<not> is_waiting (io_tasks w ! t)
      then Some ((io_submit t reqid w)\<lparr>io_tasks := (io_tasks w)[t := Io_waiting reqid],
                   io_answers := (io_answers w)(t := None)\<rparr>)
      else None)"
| "io_step (Io_kernel n res) w =
     (if n < length (io_submitted w)
      then (case io_submitted w ! n of
              (reqid, t) \<Rightarrow>
                Some (w\<lparr>io_submitted := take n (io_submitted w) @ drop (Suc n) (io_submitted w),
                        io_completed := io_completed w @ [(reqid, t, res)],
                        io_answers := (io_answers w)(t \<mapsto> res)\<rparr>))
      else None)"
| "io_step Io_daemon w = (if io_panic w then None else io_run_once w)"
| "io_step (Io_resume t) w =
     (if \<not> io_panic w \<and> t < length (io_tasks w) \<and> t \<in> io_awoken w
      then (case io_tasks w ! t of
              Io_waiting reqid \<Rightarrow>
                (case io_complete reqid w of
                   (None, w) \<Rightarrow> Some w
                 | (Some res, w) \<Rightarrow>
                     Some (w\<lparr>io_tasks := (io_tasks w)[t := Io_done res], io_awoken := io_awoken w - {t}\<rparr>))
            | _ \<Rightarrow> None)
      else None)"

section \<open>The permission bits\<close>

text \<open>
  The mode of a created file has exactly the permission bits that the flags ask for: bits 8, 7 and 6 for
  the owner; bits 5 and 2, 4 and 1, 3 and 0 (group and others) for sharing; and no other bit.
\<close>

theorem os_open_mode_bits:
  "bit (os_open_mode m) i \<longleftrightarrow>
     i = 8 \<and> has_mode m Mode_read \<or> i = 7 \<and> has_mode m Mode_write \<or> i = 6 \<and> has_mode m Mode_execute \<or>
     (i = 5 \<or> i = 2) \<and> has_mode m Mode_read_share \<or> (i = 4 \<or> i = 1) \<and> has_mode m Mode_write_share \<or>
     (i = 3 \<or> i = 0) \<and> has_mode m Mode_execute_share"
proof -
  have nine: "bit (9 :: u32) j \<longleftrightarrow> j = 0 \<or> j = 3" for j
  proof -
    have eq: "(9 :: u32) = 2 ^ 3 OR 2 ^ 0" by simp
    show ?thesis unfolding eq bit_or_iff bit_exp_iff by auto
  qed
  have cond: "bit (if b then x else 0) i \<longleftrightarrow> b \<and> bit x i" for b and x :: u32
    by simp
  have one: "bit (push_bit k (1 :: u32)) i \<longleftrightarrow> i = k" if "k < 32" for k
    using that by (auto simp: bit_exp_iff)
  have share: "bit (push_bit k (9 :: u32)) i \<longleftrightarrow> i = k \<or> i = k + 3" if "k < 3" for k
  proof -
    have "bit (push_bit k (9 :: u32)) i \<longleftrightarrow> i < 32 \<and> k \<le> i \<and> bit (9 :: u32) (i - k)"
      by (auto simp: bit_push_bit_iff)
    with that show ?thesis unfolding nine by auto
  qed
  have bits: "bit (push_bit 8 (1 :: u32)) i \<longleftrightarrow> i = 8" "bit (push_bit 7 (1 :: u32)) i \<longleftrightarrow> i = 7"
    "bit (push_bit 6 (1 :: u32)) i \<longleftrightarrow> i = 6" "bit (push_bit 2 (9 :: u32)) i \<longleftrightarrow> i = 2 \<or> i = 2 + 3"
    "bit (push_bit 1 (9 :: u32)) i \<longleftrightarrow> i = 1 \<or> i = 1 + 3"
    by (rule one share, simp)+
  have sums: "(2 :: nat) + 3 = 5" "(1 :: nat) + 3 = 4" by simp_all
  show ?thesis
    unfolding os_open_mode_def bit_or_iff cond bits nine sums by blast
qed

section \<open>Answers find their tasks\<close>

text \<open>The requests that are under way have different identifiers.\<close>

definition io_step_distinct :: "io_action \<Rightarrow> io \<Rightarrow> io option" where
  "io_step_distinct a w =
     (case a of
        Io_submit t reqid \<Rightarrow> if Io_waiting reqid \<in> set (io_tasks w) then None else io_step a w
      | _ \<Rightarrow> io_step a w)"

definition io_owners :: "io \<Rightarrow> nat list" where
  "io_owners w = map snd (io_submitted w) @ map (\<lambda>(_, t, _). t) (io_completed w)"

definition io_inv :: "io \<Rightarrow> bool" where
  "io_inv w \<longleftrightarrow>
     \<not> io_panic w \<and> distinct (io_owners w) \<and> (\<forall>t\<in>io_awoken w. t \<notin> set (io_owners w)) \<and>
     (\<forall>(r, t)\<in>set (io_submitted w). t < length (io_tasks w) \<and> io_tasks w ! t = Io_waiting r) \<and>
     (\<forall>(r, t, a)\<in>set (io_completed w). t < length (io_tasks w) \<and> io_tasks w ! t = Io_waiting r \<and> io_answers w t = Some a) \<and>
     (\<forall>t\<in>io_awoken w. \<exists>r a. t < length (io_tasks w) \<and> io_tasks w ! t = Io_waiting r \<and> io_answers w t = Some a \<and>
        io_requests w r = Some (t, a)) \<and>
     (\<forall>r t a. io_requests w r = Some (t, a) \<longrightarrow> t < length (io_tasks w) \<and> io_tasks w ! t = Io_waiting r) \<and>
     (\<forall>t<length (io_tasks w).
        case io_tasks w ! t of
          Io_idle \<Rightarrow> True
        | Io_waiting r \<Rightarrow> (\<exists>a. io_requests w r = Some (t, a)) \<and> (t \<in> set (io_owners w) \<or> t \<in> io_awoken w)
        | Io_done a \<Rightarrow> io_answers w t = Some a)"

lemma io_invD:
  assumes "io_inv w"
  shows "\<not> io_panic w" "distinct (io_owners w)" "t \<in> io_awoken w \<Longrightarrow> t \<notin> set (io_owners w)"
    "(r, t) \<in> set (io_submitted w) \<Longrightarrow> t < length (io_tasks w) \<and> io_tasks w ! t = Io_waiting r"
    "(r, t, a) \<in> set (io_completed w) \<Longrightarrow>
       t < length (io_tasks w) \<and> io_tasks w ! t = Io_waiting r \<and> io_answers w t = Some a"
    "t \<in> io_awoken w \<Longrightarrow> \<exists>r a. t < length (io_tasks w) \<and> io_tasks w ! t = Io_waiting r \<and> io_answers w t = Some a \<and>
        io_requests w r = Some (t, a)"
    "io_requests w r = Some (t, a) \<Longrightarrow> t < length (io_tasks w) \<and> io_tasks w ! t = Io_waiting r"
  using assms unfolding io_inv_def by blast+

lemma io_inv_waiting:
  assumes "io_inv w" "t < length (io_tasks w)" "io_tasks w ! t = Io_waiting r"
  shows "\<exists>a. io_requests w r = Some (t, a)" "t \<in> set (io_owners w) \<or> t \<in> io_awoken w"
proof -
  have "case io_tasks w ! t of
          Io_idle \<Rightarrow> True
        | Io_waiting r \<Rightarrow> (\<exists>a. io_requests w r = Some (t, a)) \<and> (t \<in> set (io_owners w) \<or> t \<in> io_awoken w)
        | Io_done a \<Rightarrow> io_answers w t = Some a"
    using assms(1,2) unfolding io_inv_def by blast
  with assms(3) show "\<exists>a. io_requests w r = Some (t, a)" "t \<in> set (io_owners w) \<or> t \<in> io_awoken w"
    by simp_all
qed

lemma io_inv_done:
  assumes "io_inv w" "t < length (io_tasks w)" "io_tasks w ! t = Io_done a"
  shows "io_answers w t = Some a"
proof -
  have "case io_tasks w ! t of
          Io_idle \<Rightarrow> True
        | Io_waiting r \<Rightarrow> (\<exists>a. io_requests w r = Some (t, a)) \<and> (t \<in> set (io_owners w) \<or> t \<in> io_awoken w)
        | Io_done a \<Rightarrow> io_answers w t = Some a"
    using assms(1,2) unfolding io_inv_def by blast
  with assms(3) show ?thesis by simp
qed

lemma io_owners_in: "t \<in> set (io_owners w) \<longleftrightarrow> (\<exists>r. (r, t) \<in> set (io_submitted w)) \<or> (\<exists>r a. (r, t, a) \<in> set (io_completed w))"
  by (force simp: io_owners_def)

lemma io_invI:
  assumes "\<not> io_panic w" "distinct (io_owners w)" "\<And>t. t \<in> io_awoken w \<Longrightarrow> t \<notin> set (io_owners w)"
    "\<And>r t. (r, t) \<in> set (io_submitted w) \<Longrightarrow> t < length (io_tasks w) \<and> io_tasks w ! t = Io_waiting r"
    "\<And>r t a. (r, t, a) \<in> set (io_completed w) \<Longrightarrow>
       t < length (io_tasks w) \<and> io_tasks w ! t = Io_waiting r \<and> io_answers w t = Some a"
    "\<And>t. t \<in> io_awoken w \<Longrightarrow> \<exists>r a. t < length (io_tasks w) \<and> io_tasks w ! t = Io_waiting r \<and> io_answers w t = Some a \<and>
        io_requests w r = Some (t, a)"
    "\<And>r t a. io_requests w r = Some (t, a) \<Longrightarrow> t < length (io_tasks w) \<and> io_tasks w ! t = Io_waiting r"
    "\<And>t r. t < length (io_tasks w) \<Longrightarrow> io_tasks w ! t = Io_waiting r \<Longrightarrow>
       (\<exists>a. io_requests w r = Some (t, a)) \<and> (t \<in> set (io_owners w) \<or> t \<in> io_awoken w)"
    "\<And>t a. t < length (io_tasks w) \<Longrightarrow> io_tasks w ! t = Io_done a \<Longrightarrow> io_answers w t = Some a"
  shows "io_inv w"
  using assms unfolding io_inv_def by (auto split: io_pc.split)

text \<open>A task that is not waiting is nowhere in the queues.\<close>

lemma not_waiting_absent:
  assumes "io_inv w" "t < length (io_tasks w)" "\<not> is_waiting (io_tasks w ! t)"
  shows "t \<notin> set (io_owners w)" "t \<notin> io_awoken w" "io_requests w r \<noteq> Some (t, a)"
  using assms(3) io_invD(4) [OF assms(1), of _ t] io_invD(5) [OF assms(1), of _ t]
    io_invD(6) [OF assms(1), of t] io_invD(7) [OF assms(1), of r t a]
  by (auto simp: io_owners_in is_waiting_def)

lemma io_submit_inv:
  assumes inv: "io_inv w" and step: "io_step_distinct (Io_submit t reqid) w = Some w'"
  shows "io_inv w'"
proof -
  have t: "t < length (io_tasks w)" "\<not> is_waiting (io_tasks w ! t)" and new: "Io_waiting reqid \<notin> set (io_tasks w)"
    and w': "w' = (io_submit t reqid w)\<lparr>io_tasks := (io_tasks w)[t := Io_waiting reqid], io_answers := (io_answers w)(t := None)\<rparr>"
    using step by (auto simp: io_step_distinct_def split: if_splits)
  have fresh: "io_requests w reqid = None"
    using new io_invD(7) [OF inv, of reqid] by (metis nth_mem option.exhaust surj_pair)
  note absent = not_waiting_absent [OF inv t]
  have ows: "io_owners w' = map snd (io_submitted w) @ t # map (\<lambda>(_, t, _). t) (io_completed w)"
    by (simp add: w' io_submit_def io_owners_def)
  then have in_ows: "set (io_owners w') = insert t (set (io_owners w))" by (auto simp: io_owners_def)
  have other: "u \<noteq> t" if "u \<in> set (io_owners w) \<or> u \<in> io_awoken w" for u using that absent by auto
  show ?thesis
  proof (rule io_invI)
    show "distinct (io_owners w')"
      unfolding ows using io_invD(2) [OF inv] absent(1) by (auto simp: io_owners_def)
    show "u \<notin> set (io_owners w')" if "u \<in> io_awoken w'" for u
      using that absent io_invD(3) [OF inv, of u] unfolding in_ows by (auto simp: w' io_submit_def)
    show "u < length (io_tasks w') \<and> io_tasks w' ! u = Io_waiting r" if "(r, u) \<in> set (io_submitted w')" for r u
      using that io_invD(4) [OF inv, of r u] other [of u] t
      by (cases "u = t") (auto simp: w' io_submit_def io_owners_in)
    show "u < length (io_tasks w') \<and> io_tasks w' ! u = Io_waiting r \<and> io_answers w' u = Some a"
      if "(r, u, a) \<in> set (io_completed w')" for r u a
      using that io_invD(5) [OF inv, of r u a] other [of u] by (auto simp: w' io_submit_def io_owners_in)
    show "\<exists>r a. u < length (io_tasks w') \<and> io_tasks w' ! u = Io_waiting r \<and> io_answers w' u = Some a \<and>
        io_requests w' r = Some (u, a)" if "u \<in> io_awoken w'" for u
    proof -
      have u: "u \<in> io_awoken w" using that by (simp add: w' io_submit_def)
      from io_invD(6) [OF inv this] obtain q a where "u < length (io_tasks w)" "io_tasks w ! u = Io_waiting q"
        "io_answers w u = Some a" "io_requests w q = Some (u, a)" by blast
      moreover from this fresh have "q \<noteq> reqid" by auto
      ultimately show ?thesis using other [of u] u fresh
        by (intro exI [of _ q] exI [of _ a]) (simp add: w' io_submit_def)
    qed
    show "u < length (io_tasks w') \<and> io_tasks w' ! u = Io_waiting r" if "io_requests w' r = Some (u, a)" for r u a
      using that io_invD(7) [OF inv, of r u a] absent(3) fresh t
      by (cases "u = t") (auto simp: w' io_submit_def split: if_splits)
    show "(\<exists>a. io_requests w' r = Some (u, a)) \<and> (u \<in> set (io_owners w') \<or> u \<in> io_awoken w')"
      if "u < length (io_tasks w')" "io_tasks w' ! u = Io_waiting r" for u r
      using that io_inv_waiting [OF inv, of u r] fresh t(1) unfolding in_ows
      by (cases "u = t") (auto simp: w' io_submit_def)
    show "io_answers w' u = Some a" if "u < length (io_tasks w')" "io_tasks w' ! u = Io_done a" for u a
      using that io_inv_done [OF inv, of u a] by (auto simp: w' io_submit_def nth_list_update split: if_splits)
  qed (use io_invD(1) [OF inv] in \<open>simp add: w' io_submit_def\<close>)
qed

lemma io_kernel_inv:
  assumes inv: "io_inv w" and step: "io_step (Io_kernel n res) w = Some w'"
  shows "io_inv w'"
proof -
  obtain r t where n: "n < length (io_submitted w)" and rt: "io_submitted w ! n = (r, t)"
    and w': "w' = w\<lparr>io_submitted := take n (io_submitted w) @ drop (Suc n) (io_submitted w),
      io_completed := io_completed w @ [(r, t, res)], io_answers := (io_answers w)(t \<mapsto> res)\<rparr>"
    using step by (auto split: if_splits prod.splits)
  have split: "io_submitted w = take n (io_submitted w) @ (r, t) # drop (Suc n) (io_submitted w)"
    using id_take_nth_drop [OF n] by (simp add: rt)
  have dist: "distinct (io_owners w)" by (rule io_invD(2) [OF inv])
  have ms: "mset (io_owners w') = mset (io_owners w)"
    by (subst (2) io_owners_def, subst split) (simp add: io_owners_def w')
  then have in_ows: "set (io_owners w') = set (io_owners w)" by (rule mset_eq_setD)
  have sub: "set (io_submitted w) = insert (r, t) (set (io_submitted w'))"
    by (subst split) (auto simp: w')
  have waiting: "t < length (io_tasks w)" "io_tasks w ! t = Io_waiting r" "t \<in> set (io_owners w)"
    using io_invD(4) [OF inv, of r t] sub by (auto simp: io_owners_in)
  have once: "(r', t, a) \<notin> set (io_completed w)" for r' a
  proof -
    have "t \<in> set (map snd (io_submitted w))" using sub by force
    then show ?thesis using dist by (force simp: io_owners_def)
  qed
  have awoken: "u \<noteq> t" if "u \<in> io_awoken w" for u using that waiting(3) io_invD(3) [OF inv] by blast
  show ?thesis
  proof (rule io_invI)
    show "distinct (io_owners w')" using dist mset_eq_imp_distinct_iff [OF ms] by simp
    show "u \<notin> set (io_owners w')" if "u \<in> io_awoken w'" for u
      using that io_invD(3) [OF inv, of u] unfolding in_ows by (simp add: w')
    show "u < length (io_tasks w') \<and> io_tasks w' ! u = Io_waiting q" if "(q, u) \<in> set (io_submitted w')" for q u
      using that sub io_invD(4) [OF inv, of q u] by (auto simp: w')
    show "u < length (io_tasks w') \<and> io_tasks w' ! u = Io_waiting q \<and> io_answers w' u = Some a"
      if "(q, u, a) \<in> set (io_completed w')" for q u a
      using that io_invD(5) [OF inv, of q u a] once waiting by (auto simp: w')
    show "\<exists>q a. u < length (io_tasks w') \<and> io_tasks w' ! u = Io_waiting q \<and> io_answers w' u = Some a \<and>
        io_requests w' q = Some (u, a)" if "u \<in> io_awoken w'" for u
      using that io_invD(6) [OF inv, of u] awoken [of u] by (auto simp: w')
    show "u < length (io_tasks w') \<and> io_tasks w' ! u = Io_waiting q" if "io_requests w' q = Some (u, a)" for q u a
      using that io_invD(7) [OF inv, of q u a] by (simp add: w')
    show "(\<exists>a. io_requests w' q = Some (u, a)) \<and> (u \<in> set (io_owners w') \<or> u \<in> io_awoken w')"
      if "u < length (io_tasks w')" "io_tasks w' ! u = Io_waiting q" for u q
      using that io_inv_waiting [OF inv, of u q] unfolding in_ows by (simp add: w')
    show "io_answers w' u = Some a" if "u < length (io_tasks w')" "io_tasks w' ! u = Io_done a" for u a
      using that io_inv_done [OF inv, of u a] waiting by (auto simp: w')
  qed (use io_invD(1) [OF inv] in \<open>simp add: w'\<close>)
qed

lemma io_daemon_inv:
  assumes inv: "io_inv w" and step: "io_step Io_daemon w = Some w'"
  shows "io_inv w'"
proof -
  obtain r t res rest where c: "io_completed w = (r, t, res) # rest"
    using step by (auto simp: io_run_once_def split: if_splits list.splits)
  have waiting: "t < length (io_tasks w)" "io_tasks w ! t = Io_waiting r" "io_answers w t = Some res"
    using io_invD(5) [OF inv, of r t res] by (auto simp: c)
  then obtain a where req: "io_requests w r = Some (t, a)" using io_inv_waiting(1) [OF inv] by blast
  have w': "w' = w\<lparr>io_requests := (io_requests w)(r \<mapsto> (t, res)), io_completed := rest, io_awoken := insert t (io_awoken w)\<rparr>"
    using step by (simp add: io_run_once_def c req split: if_splits)
  have dist: "distinct (io_owners w)" by (rule io_invD(2) [OF inv])
  have ows: "set (io_owners w) = insert t (set (io_owners w'))" and new: "t \<notin> set (io_owners w')" "distinct (io_owners w')"
    using dist by (auto simp: io_owners_def c w')
  have same: "u = t" if "io_tasks w ! u = Io_waiting r" "u < length (io_tasks w)" for u
    using that io_inv_waiting(1) [OF inv, of u r] req by simp
  show ?thesis
  proof (rule io_invI)
    show "distinct (io_owners w')" by fact
    show "u \<notin> set (io_owners w')" if "u \<in> io_awoken w'" for u
      using that io_invD(3) [OF inv, of u] new unfolding ows by (auto simp: w')
    show "u < length (io_tasks w') \<and> io_tasks w' ! u = Io_waiting q" if "(q, u) \<in> set (io_submitted w')" for q u
      using that io_invD(4) [OF inv, of q u] by (simp add: w')
    show "u < length (io_tasks w') \<and> io_tasks w' ! u = Io_waiting q \<and> io_answers w' u = Some a"
      if "(q, u, a) \<in> set (io_completed w')" for q u a
      using that io_invD(5) [OF inv, of q u a] by (simp add: w' c)
    show "\<exists>q a. u < length (io_tasks w') \<and> io_tasks w' ! u = Io_waiting q \<and> io_answers w' u = Some a \<and>
        io_requests w' q = Some (u, a)" if "u \<in> io_awoken w'" for u
    proof (cases "u = t")
      case True
      with waiting show ?thesis by (simp add: w')
    next
      case False
      then have "u \<in> io_awoken w" using that by (simp add: w')
      from io_invD(6) [OF inv this] obtain q a where "u < length (io_tasks w)" "io_tasks w ! u = Io_waiting q"
        "io_answers w u = Some a" "io_requests w q = Some (u, a)" by blast
      moreover have "q \<noteq> r" using same [of u] False calculation by auto
      ultimately show ?thesis by (intro exI [of _ q] exI [of _ a]) (simp add: w')
    qed
    show "u < length (io_tasks w') \<and> io_tasks w' ! u = Io_waiting q" if "io_requests w' q = Some (u, a)" for q u a
      using that io_invD(7) [OF inv, of q u a] waiting by (auto simp: w' split: if_splits)
    show "(\<exists>a. io_requests w' q = Some (u, a)) \<and> (u \<in> set (io_owners w') \<or> u \<in> io_awoken w')"
      if "u < length (io_tasks w')" "io_tasks w' ! u = Io_waiting q" for u q
      using that io_inv_waiting [OF inv, of u q] same unfolding ows by (auto simp: w')
    show "io_answers w' u = Some a" if "u < length (io_tasks w')" "io_tasks w' ! u = Io_done a" for u a
      using that io_inv_done [OF inv, of u a] by (simp add: w')
  qed (use io_invD(1) [OF inv] in \<open>simp add: w'\<close>)
qed

lemma io_resume_inv:
  assumes inv: "io_inv w" and step: "io_step (Io_resume t) w = Some w'"
  shows "io_inv w'"
proof -
  from step have aw: "t \<in> io_awoken w" by (simp split: if_splits)
  then obtain r a where t: "t < length (io_tasks w)" "io_tasks w ! t = Io_waiting r" "io_answers w t = Some a"
    and req: "io_requests w r = Some (t, a)"
    using io_invD(6) [OF inv] by blast
  have w': "w' = w\<lparr>io_requests := (io_requests w)(r := None), io_tasks := (io_tasks w)[t := Io_done a],
      io_awoken := io_awoken w - {t}\<rparr>"
    using step aw t req by (simp add: io_complete_def split: if_splits)
  have ows: "io_owners w' = io_owners w" by (simp add: io_owners_def w')
  have absent: "t \<notin> set (io_owners w)" using aw io_invD(3) [OF inv] by blast
  have other: "q \<noteq> r" if "io_tasks w ! u = Io_waiting q" "u < length (io_tasks w)" "u \<noteq> t" for u q
    using that io_inv_waiting(1) [OF inv, of u q] req by auto
  show ?thesis
  proof (rule io_invI)
    show "distinct (io_owners w')" using io_invD(2) [OF inv] by (simp add: ows)
    show "u \<notin> set (io_owners w')" if "u \<in> io_awoken w'" for u
      using that io_invD(3) [OF inv, of u] by (simp add: ows) (simp add: w')
    show "u < length (io_tasks w') \<and> io_tasks w' ! u = Io_waiting q" if "(q, u) \<in> set (io_submitted w')" for q u
      using that io_invD(4) [OF inv, of q u] absent by (cases "u = t") (auto simp: w' io_owners_in)
    show "u < length (io_tasks w') \<and> io_tasks w' ! u = Io_waiting q \<and> io_answers w' u = Some b"
      if "(q, u, b) \<in> set (io_completed w')" for q u b
      using that io_invD(5) [OF inv, of q u b] absent by (cases "u = t") (auto simp: w' io_owners_in)
    show "\<exists>q b. u < length (io_tasks w') \<and> io_tasks w' ! u = Io_waiting q \<and> io_answers w' u = Some b \<and>
        io_requests w' q = Some (u, b)" if "u \<in> io_awoken w'" for u
      using that io_invD(6) [OF inv, of u] other [of u] by (auto simp: w')
    show "u < length (io_tasks w') \<and> io_tasks w' ! u = Io_waiting q" if "io_requests w' q = Some (u, b)" for q u b
      using that io_invD(7) [OF inv, of q u b] t by (auto simp: w' nth_list_update split: if_splits)
    show "(\<exists>a. io_requests w' q = Some (u, a)) \<and> (u \<in> set (io_owners w') \<or> u \<in> io_awoken w')"
      if "u < length (io_tasks w')" "io_tasks w' ! u = Io_waiting q" for u q
      using that io_inv_waiting [OF inv, of u q] other [of u q] t unfolding ows
      by (cases "u = t") (simp_all add: w')
    show "io_answers w' u = Some b" if "u < length (io_tasks w')" "io_tasks w' ! u = Io_done b" for u b
      using that io_inv_done [OF inv, of u b] t by (auto simp: w' nth_list_update split: if_splits)
  qed (use io_invD(1) [OF inv] in \<open>simp add: w'\<close>)
qed

lemma io_step_inv: "io_inv w \<Longrightarrow> io_step_distinct a w = Some w' \<Longrightarrow> io_inv w'"
proof (cases a)
  case (Io_submit t reqid)
  then show "io_inv w \<Longrightarrow> io_step_distinct a w = Some w' \<Longrightarrow> io_inv w'" using io_submit_inv by blast
next
  case (Io_kernel n res)
  then show "io_inv w \<Longrightarrow> io_step_distinct a w = Some w' \<Longrightarrow> io_inv w'"
    using io_kernel_inv by (simp add: io_step_distinct_def del: io_step.simps)
next
  case Io_daemon
  then show "io_inv w \<Longrightarrow> io_step_distinct a w = Some w' \<Longrightarrow> io_inv w'"
    using io_daemon_inv by (simp add: io_step_distinct_def del: io_step.simps)
next
  case (Io_resume t)
  then show "io_inv w \<Longrightarrow> io_step_distinct a w = Some w' \<Longrightarrow> io_inv w'"
    using io_resume_inv by (simp add: io_step_distinct_def del: io_step.simps)
qed

interpretation io: invariant_system io_step_distinct io_inv
  by unfold_locales (rule io_step_inv)

lemma io_new_inv: "io_inv (io_new n)"
  by (simp add: io_inv_def io_new_def io_owners_def)



text \<open>
  Identifiers of requests can collide: reading two adjacent pages of a file into two adjacent pages of memory
  gives both requests the same identifier (it is the exclusive or of handle, offset, address and
  size). Then the second task is never awakened, and the daemon panics when its answer comes.
\<close>

theorem io_requests_collide:
  "\<exists>as w. run io_step as (io_new 2) = Some w \<and>
     as = [Io_submit 0 (read_request_id 3 0 8192 4096), Io_submit 1 (read_request_id 3 4096 12288 4096),
           Io_kernel 0 4096, Io_daemon, Io_resume 0, Io_kernel 0 4096, Io_daemon] \<and>
     io_tasks w = [Io_done 4096, Io_waiting (read_request_id 3 4096 12288 4096)] \<and> io_panic w \<and> io_awoken w = {}"
  by (simp add: io_new_def io_submit_def io_run_once_def io_complete_def is_waiting_def read_request_id_def)

end
