(* ===== verification/Io_Linux.thy ===== *)
theory Io_Linux
  imports Io_Adapter
begin

text \<open>
  What \<open>io_uring.cpp\<close> hands to the kernel: the handles, and the submission entry of each request as the preparation functions of
  \<open>liburing\<close> fill it in (their lengths are 32 bits wide), with the forwarding functions of \<open>io_adapter\<close>.
\<close>

section \<open>Handles\<close>

text \<open>A file descriptor is a 32-bit \<open>int\<close>; it is extended with its sign.\<close>

definition io_handle_from_unix_fd :: "u32 \<Rightarrow> u64" where
  "io_handle_from_unix_fd fd = scast fd"

definition io_handle_from_windows_handle :: "u64 \<Rightarrow> u64 outcome" where
  "io_handle_from_windows_handle h = Inl Os_failure"

definition fd_from_io_handle :: "u64 \<Rightarrow> u32" where
  "fd_from_io_handle h = ucast h"

lemma fd_roundtrip: "fd_from_io_handle (io_handle_from_unix_fd fd) = fd"
  by (rule bit_word_eqI) (auto simp: fd_from_io_handle_def io_handle_from_unix_fd_def bit_simps)

section \<open>Submission entries\<close>

text \<open>
  The buffer of a request as far as it matters: its address, its size and its cursor (the number of bytes in it).
\<close>

record io_buffer =
  ib_data :: u64
  ib_size :: u64
  ib_cursor :: u64

datatype sqe =
    Sqe_openat u64 u32 u32
  | Sqe_close u32
  | Sqe_read u32 u64 u32 u64
  | Sqe_write u32 u64 u32 u64
  | Sqe_nop

text \<open>\<open>io_uring_prep_read\<close> and \<open>io_uring_prep_write\<close> take an \<open>unsigned\<close> number of bytes.\<close>

definition prep_read :: "u32 \<Rightarrow> u64 \<Rightarrow> u64 \<Rightarrow> u64 \<Rightarrow> sqe" where
  "prep_read fd addr n offset = Sqe_read fd addr (ucast n) offset"

definition prep_write :: "u32 \<Rightarrow> u64 \<Rightarrow> u64 \<Rightarrow> u64 \<Rightarrow> sqe" where
  "prep_write fd addr n offset = Sqe_write fd addr (ucast n) offset"

text \<open>Each submission: the identifier that \<open>set_data64\<close> attaches, and the entry.\<close>

definition submit_open :: "fcntl \<Rightarrow> u64 \<Rightarrow> u64 \<Rightarrow> u64 \<Rightarrow> flags \<Rightarrow> flags \<Rightarrow> u64 \<Rightarrow> u64 \<times> sqe" where
  "submit_open c path_data path_size path_cstr f m timestamp =
     (open_request_id path_data path_size f m timestamp, Sqe_openat path_cstr (os_open_flags c f) (os_open_mode m))"

definition submit_close :: "u64 \<Rightarrow> u64 \<times> sqe" where
  "submit_close handle = (close_request_id handle, Sqe_close (fd_from_io_handle handle))"

definition submit_read :: "u64 \<Rightarrow> u64 \<Rightarrow> io_buffer \<Rightarrow> u64 \<Rightarrow> u64 \<times> sqe" where
  "submit_read handle offset buf n =
     (read_request_id handle offset (ib_data buf) n, prep_read (fd_from_io_handle handle) (ib_data buf) n offset)"

definition submit_write :: "u64 \<Rightarrow> u64 \<Rightarrow> io_buffer \<Rightarrow> u64 \<times> sqe" where
  "submit_write handle offset buf =
     (write_request_id handle (ib_data buf) (ib_size buf), prep_write (fd_from_io_handle handle) (ib_data buf) (ib_cursor buf) offset)"

text \<open>\<open>complete_open\<close> on the answer of the kernel; the descriptor becomes a handle.\<close>

definition complete_open :: "errno \<Rightarrow> u32 \<Rightarrow> (open_failed \<times> int) + u64" where
  "complete_open c res =
     (case open_result c (sint res) of Inl e \<Rightarrow> Inl e | Inr _ \<Rightarrow> Inr (io_handle_from_unix_fd res))"

section \<open>State of a file\<close>

text \<open>The fields of \<open>struct stat\<close> that are used; times are seconds since the epoch. \<open>None\<close> if \<open>fstat\<close> fails.\<close>

record stat =
  ss_size :: int
  ss_atime :: int
  ss_mtime :: int
  ss_ctime :: int
  ss_uid :: u32

record linux_io_state =
  ls_size :: u64
  ls_last_access :: int
  ls_last_modification :: int
  ls_last_status_change :: int
  ls_owner :: u64

definition linux_get_state :: "(u32 \<Rightarrow> stat option) \<Rightarrow> u64 \<Rightarrow> linux_io_state outcome" where
  "linux_get_state fstat handle =
     (case fstat (fd_from_io_handle handle) of
        None \<Rightarrow> Inl Os_failure
      | Some st \<Rightarrow>
          Inr \<lparr>ls_size = of_int (ss_size st), ls_last_access = ss_atime st, ls_last_modification = ss_mtime st,
               ls_last_status_change = ss_ctime st, ls_owner = ucast (ss_uid st)\<rparr>)"

section \<open>What a request asks for\<close>

lemma fd_of_opened: "complete_open c res = Inr h \<Longrightarrow> fd_from_io_handle h = res"
  by (auto simp: complete_open_def fd_roundtrip split: sum.splits)

lemma nbytes_exact: "(unat (ucast n :: u32) = unat (n :: u64)) \<longleftrightarrow> n < 2 ^ 32"
proof -
  have "unat (ucast n :: u32) = unat n mod 2 ^ 32" by (simp add: unsigned_ucast_eq take_bit_eq_mod)
  moreover have "unat n mod 2 ^ 32 = unat n \<longleftrightarrow> unat n < 2 ^ 32"
    using mod_less mod_less_divisor [of "2 ^ 32" "unat n"] by fastforce
  ultimately show ?thesis by (simp add: word_less_nat_alt)
qed

text \<open>
  C40: What reaches the kernel: on a handle that \<open>complete_open\<close> gave, a close, a read or a write names the descriptor that the kernel opened,
  with the address and the offset of the request; the number of bytes is that of the request exactly if it is less than
  4 GiB (beyond, only its low 32 bits are asked for, so that a read of 4 GiB asks for nothing).
\<close>

theorem linux_request_exact:
  assumes "complete_open c fd = Inr h"
  shows "snd (submit_close h) = Sqe_close fd \<and>
    (\<exists>k l. snd (submit_read h offset buf n) = Sqe_read fd (ib_data buf) k offset \<and> (unat k = unat n \<longleftrightarrow> n < 2 ^ 32) \<and>
       snd (submit_write h offset buf) = Sqe_write fd (ib_data buf) l offset \<and> (unat l = unat (ib_cursor buf) \<longleftrightarrow> ib_cursor buf < 2 ^ 32)) \<and>
    snd (submit_read h offset buf (2 ^ 32)) = Sqe_read fd (ib_data buf) 0 offset"
proof -
  have "(ucast (2 ^ 32 :: u64) :: u32) = 0" by simp
  then show ?thesis
    using fd_of_opened [OF assms] nbytes_exact
    by (simp add: submit_close_def submit_read_def submit_write_def prep_read_def prep_write_def)
qed

definition linux_errno :: errno where
  "linux_errno = \<lparr>enoent = 2, eacces = 13, eexist = 17, enametoolong = 36, enotdir = 20, eisdir = 21, emfile = 24, enfile = 23,
     ebadf = 9, efault = 14\<rparr>"

lemma linux_request_exact_witness:
  "\<exists>h. complete_open linux_errno 5 = Inr h \<and> snd (submit_close h) = Sqe_close 5 \<and>
     snd (submit_read h 100 \<lparr>ib_data = 4096, ib_size = 64, ib_cursor = 0\<rparr> (2 ^ 32)) = Sqe_read 5 4096 0 100"
proof -
  have "\<exists>h. complete_open linux_errno 5 = Inr h" by (simp add: complete_open_def open_result_def)
  then obtain h where h: "complete_open linux_errno 5 = Inr h" by blast
  with linux_request_exact [OF h, of 100 "\<lparr>ib_data = 4096, ib_size = 64, ib_cursor = 0\<rparr>"] show ?thesis by (intro exI [of _ h]) simp
qed

end
