(* ===== verification/Iocp.thy ===== *)
theory Iocp
  imports Io_Adapter Murmur
begin

text \<open>
  \<open>asco/core/os/windows/iocp.cpp\<close>: the I/O adapter of Windows. As on Linux, the kernel is not part of the program: its
  answers are arguments, its constants parameters, and what is relied on of it is stated as hypotheses.
\<close>

section \<open>Opening a file\<close>

text \<open>The constants of \<open>winnt.h\<close> and \<open>winbase.h\<close>.\<close>

record winnt =
  generic_read :: u32
  generic_write :: u32
  file_append_data :: u32
  delete_access :: u32
  attribute_normal :: u32
  flag_overlapped :: u32
  attribute_temporary :: u32
  flag_delete_on_close :: u32

definition win_access :: "winnt \<Rightarrow> flags \<Rightarrow> u32" where
  "win_access c f =
     (if has_flag f Open_read then generic_read c else 0) OR (if has_flag f Open_write then generic_write c else 0) OR
     (if has_flag f Open_append then file_append_data c else 0) OR (if has_flag f Open_temporary then delete_access c else 0)"

definition win_attributes :: "winnt \<Rightarrow> flags \<Rightarrow> u32" where
  "win_attributes c f =
     attribute_normal c OR flag_overlapped c OR
     (if has_flag f Open_temporary then attribute_temporary c OR flag_delete_on_close c else 0)"

text \<open>The creation disposition; \<open>Creation_none\<close> is the 0 that the variable starts with.\<close>

datatype creation = Creation_none | Open_existing | Open_always | Create_new | Create_always | Truncate_existing

definition win_creation :: "flags \<Rightarrow> creation" where
  "win_creation f =
     (if \<not> has_flag f Open_create \<and> \<not> has_flag f Open_truncate then Open_existing
      else if has_flag f Open_create \<and> \<not> has_flag f Open_exclusive \<and> \<not> has_flag f Open_truncate then Open_always
      else if has_flag f Open_create \<and> \<not> has_flag f Open_truncate then Create_new
      else if has_flag f Open_create \<and> \<not> has_flag f Open_exclusive \<and> has_flag f Open_truncate then Create_always
      else if \<not> has_flag f Open_create \<and> \<not> has_flag f Open_exclusive \<and> has_flag f Open_truncate then Truncate_existing
      else Creation_none)"

text \<open>The access control entries, in the order in which they are appended.\<close>

definition gen_sddl :: "flags \<Rightarrow> string" where
  "gen_sddl m =
     ''D:'' @ (if has_mode m Mode_read then ''(A;;FR;;;OW)'' else []) @
     (if has_mode m Mode_write then ''(A;;FW;;;OW)'' else []) @
     (if has_mode m Mode_execute then ''(A;;FX;;;OW)'' else []) @
     (if has_mode m Mode_read_share then ''(A;;FR;;;WD)'' else []) @
     (if has_mode m Mode_write_share then ''(A;;FW;;;WD)'' else []) @
     (if has_mode m Mode_execute_share then ''(A;;FX;;;WD)'' else [])"

text \<open>The constants of \<open>winerror.h\<close>.\<close>

record winerror =
  e_file_not_found :: u32
  e_path_not_found :: u32
  e_access_denied :: u32
  e_file_exists :: u32
  e_invalid_name :: u32
  e_too_many_open_files :: u32
  e_invalid_handle :: u32
  e_noaccess :: u32
  e_handle_eof :: u32
  e_io_pending :: u32

definition win_open_failed :: "winerror \<Rightarrow> u32 \<Rightarrow> open_failed \<times> int" where
  "win_open_failed c err =
     (if err = e_file_not_found c then Not_found
      else if err = e_path_not_found c then Not_found
      else if err = e_access_denied c then Open_permission_denied
      else if err = e_file_exists c then Already_exists
      else if err = e_invalid_name c then Invalid_path
      else if err = e_too_many_open_files c then Too_many_open_files
      else Open_other, sint err)"

text \<open>
  \<open>submit_open\<close> and \<open>complete_open\<close>. The answers of the system are whether the descriptor could be made, the handle or the
  error of \<open>CreateFile\<close>, and whether the port took the handle. \<open>wo_descriptors\<close> counts the descriptors that are allocated.
\<close>

record win_opens =
  wo_results :: "u64 \<Rightarrow> ((open_failed \<times> int) + u64) option"
  wo_associated :: "u64 set"
  wo_descriptors :: nat

definition win_submit_open :: "winerror \<Rightarrow> u64 \<Rightarrow> bool \<Rightarrow> u32 + u64 \<Rightarrow> bool \<Rightarrow> win_opens \<Rightarrow> win_opens outcome" where
  "win_submit_open c reqid sd_ok answer port_ok w =
     (if \<not> sd_ok then Inl Os_failure
      else
        (let res = (case answer of Inl err \<Rightarrow> Inl (win_open_failed c err) | Inr handle \<Rightarrow> Inr handle);
             w = w\<lparr>wo_descriptors := wo_descriptors w + 1,
                   wo_results := (if wo_results w reqid = None then (wo_results w)(reqid \<mapsto> res) else wo_results w)\<rparr>;
             w = (case answer of Inl _ \<Rightarrow> w | Inr handle \<Rightarrow> w\<lparr>wo_associated := insert handle (wo_associated w)\<rparr>)
         in if \<not> isl answer \<and> \<not> port_ok then Inl Os_failure
            else Inr (w\<lparr>wo_descriptors := wo_descriptors w - 1\<rparr>)))"

definition win_complete_open :: "u64 \<Rightarrow> win_opens \<Rightarrow> (((open_failed \<times> int) + u64) \<times> win_opens) outcome" where
  "win_complete_open reqid w =
     (case wo_results w reqid of
        None \<Rightarrow> Inl Missing_entry
      | Some res \<Rightarrow> Inr (res, w\<lparr>wo_results := (wo_results w)(reqid := None)\<rparr>))"

text \<open>An opening that gets through is answered with the handle or the error of this call, and leaves no descriptor.\<close>

lemma win_open_answered:
  assumes "wo_results w reqid = None" "win_submit_open c reqid sd_ok answer port_ok w = Inr w1"
  shows "\<exists>w2. win_complete_open reqid w1 = Inr (map_sum (win_open_failed c) id answer, w2) \<and>
     wo_results w2 = wo_results w \<and> wo_descriptors w2 = wo_descriptors w \<and>
     (\<forall>handle. answer = Inr handle \<longrightarrow> handle \<in> wo_associated w2)"
  using assms
  by (cases answer) (auto simp: win_submit_open_def win_complete_open_def Let_def fun_upd_idem split: if_splits)

section \<open>What the two systems make of the flags\<close>

text \<open>
  What opening does to a file that is there or not, as the systems document it: \<open>CreateFile\<close> by its creation
  disposition, \<open>open\<close> by \<open>O_CREAT\<close>, \<open>O_EXCL\<close> and \<open>O_TRUNC\<close>.
\<close>

datatype open_effect = Opened | Truncated | Created | Refused_missing | Refused_existing | Refused_invalid

definition createfile_documented :: "(creation \<Rightarrow> bool \<Rightarrow> open_effect) \<Rightarrow> bool" where
  "createfile_documented cf \<longleftrightarrow>
     cf Open_existing True = Opened \<and> cf Open_existing False = Refused_missing \<and>
     cf Open_always True = Opened \<and> cf Open_always False = Created \<and>
     cf Create_new True = Refused_existing \<and> cf Create_new False = Created \<and>
     cf Create_always True = Truncated \<and> cf Create_always False = Created \<and>
     cf Truncate_existing True = Truncated \<and> cf Truncate_existing False = Refused_missing \<and>
     cf Creation_none True = Refused_invalid \<and> cf Creation_none False = Refused_invalid"

definition posix_open_documented :: "(bool \<Rightarrow> bool \<Rightarrow> bool \<Rightarrow> bool \<Rightarrow> open_effect) \<Rightarrow> bool" where
  "posix_open_documented po \<longleftrightarrow>
     (\<forall>trunc. po True True trunc True = Refused_existing) \<and> (\<forall>trunc. po True True trunc False = Created) \<and>
     po True False False True = Opened \<and> po True False True True = Truncated \<and> (\<forall>trunc. po True False trunc False = Created) \<and>
     po False False False True = Opened \<and> po False False True True = Truncated \<and> (\<forall>trunc. po False False trunc False = Refused_missing)"

text \<open>
  The two implementations of the adapter open files alike: for flags that ask for \<open>exclusive\<close> only together with
  \<open>create\<close>, and not together with \<open>truncate\<close>, the creation disposition that goes to \<open>CreateFile\<close> has the effect
  that the flags have in \<open>open\<close>. Only for \<open>create\<close>, \<open>exclusive\<close> and \<open>truncate\<close> together they differ: Windows refuses
  the call, where Linux creates the file.
\<close>

theorem open_platforms_agree:
  assumes win: "createfile_documented cf" and linux: "posix_open_documented po"
    and excl: "has_flag f Open_exclusive \<longrightarrow> has_flag f Open_create"
  shows "cf (win_creation f) there = po (has_flag f Open_create) (has_flag f Open_exclusive) (has_flag f Open_truncate) there \<longleftrightarrow>
     \<not> (has_flag f Open_exclusive \<and> has_flag f Open_truncate)"
  using assms
  by (cases there; cases "has_flag f Open_create"; cases "has_flag f Open_exclusive"; cases "has_flag f Open_truncate")
    (simp_all add: win_creation_def createfile_documented_def posix_open_documented_def)

definition createfile_example :: "creation \<Rightarrow> bool \<Rightarrow> open_effect" where
  "createfile_example d there =
     (case d of
        Creation_none \<Rightarrow> Refused_invalid
      | Open_existing \<Rightarrow> if there then Opened else Refused_missing
      | Open_always \<Rightarrow> if there then Opened else Created
      | Create_new \<Rightarrow> if there then Refused_existing else Created
      | Create_always \<Rightarrow> if there then Truncated else Created
      | Truncate_existing \<Rightarrow> if there then Truncated else Refused_missing)"

definition posix_open_example :: "bool \<Rightarrow> bool \<Rightarrow> bool \<Rightarrow> bool \<Rightarrow> open_effect" where
  "posix_open_example creat excl trunc there =
     (if there then (if creat \<and> excl then Refused_existing else if trunc then Truncated else Opened)
      else if creat then Created else Refused_missing)"

lemma open_platforms_agree_witness:
  "createfile_example (win_creation \<lparr>m_bits = 36\<rparr>) True = posix_open_example True True False True"
proof -
  have f: "has_flag \<lparr>m_bits = 36\<rparr> Open_create" "has_flag \<lparr>m_bits = 36\<rparr> Open_exclusive" "\<not> has_flag \<lparr>m_bits = 36\<rparr> Open_truncate"
    by (simp_all add: has_flag_def flags_contains_e_def bit_of_def)
  have d: "createfile_documented createfile_example" "posix_open_documented posix_open_example"
    by (simp_all add: createfile_documented_def createfile_example_def posix_open_documented_def posix_open_example_def)
  show ?thesis using open_platforms_agree [OF d, of "\<lparr>m_bits = 36\<rparr>" True] f by simp
qed

section \<open>Requests\<close>

text \<open>
  A \<open>request_wrap\<close> begins with its \<open>OVERLAPPED\<close>, so the pointer in a packet of the port is the address of the
  wrap. The result of a read or a write as the waiting coroutine computes it from the wrap.
\<close>

record request_wrap =
  wrap_reqid :: u64
  wrap_token :: nat
  wrap_finished :: bool
  wrap_ok :: bool
  wrap_bytes :: u32
  wrap_error :: u32

definition wrap_new :: "u64 \<Rightarrow> nat \<Rightarrow> request_wrap" where
  "wrap_new reqid t = \<lparr>wrap_reqid = reqid, wrap_token = t, wrap_finished = False, wrap_ok = False, wrap_bytes = 0, wrap_error = 0\<rparr>"

text \<open>\<open>complete_read\<close> and \<open>complete_write\<close>, from the fields that they look at.\<close>

definition win_rw_failed :: "winerror \<Rightarrow> u32 \<Rightarrow> rw_failed \<times> int" where
  "win_rw_failed c err =
     (if err = e_invalid_handle c then Invalid_handle
      else if err = e_noaccess c then Bad_buffer
      else if err = e_access_denied c then Rw_permission_denied
      else Rw_other, uint err)"

definition win_read_result :: "winerror \<Rightarrow> bool \<times> u32 \<times> u32 \<Rightarrow> (rw_failed \<times> int) + u64" where
  "win_read_result c r =
     (case r of (ok, bytes, err) \<Rightarrow>
        if \<not> ok then (if err = e_handle_eof c then Inr 0 else Inl (win_rw_failed c err)) else Inr (ucast bytes))"

definition win_write_result :: "winerror \<Rightarrow> bool \<times> u32 \<times> u32 \<Rightarrow> (rw_failed \<times> int) + u64" where
  "win_write_result c r =
     (case r of (ok, bytes, err) \<Rightarrow> if \<not> ok then Inl (win_rw_failed c err) else Inr (ucast bytes))"

text \<open>What a transfer is told: the two halves of the offset, and the length, a \<open>DWORD\<close>.\<close>

definition overlapped_offset :: "u64 \<Rightarrow> u32 \<times> u32" where
  "overlapped_offset offset = (ucast (offset AND 0xFFFFFFFF), ucast (drop_bit 32 offset AND 0xFFFFFFFF))"

definition transfer_length :: "u64 \<Rightarrow> u32" where
  "transfer_length n = ucast n"

text \<open>
  A packet of the port: the address of the wrap (none for the packet of the awake hook), and the answer.
  The kernel holds the addresses of \<open>ip_pending\<close>. \<open>ip_answers\<close> is history: what each task was answered.
\<close>

record packet =
  pk_wrap :: "nat option"
  pk_ok :: bool
  pk_bytes :: u32
  pk_error :: u32

datatype iocp_fault = Iocp_panic | Iocp_use_after_free

datatype iocp_pc = Ip_idle | Ip_waiting u64 | Ip_done "bool \<times> u32 \<times> u32"

record iocp =
  ip_heap :: "nat \<Rightarrow> request_wrap option"
  ip_requests :: "u64 \<Rightarrow> nat option"
  ip_pending :: "nat list"
  ip_port :: "packet list"
  ip_awoken :: "nat set"
  ip_fault :: "iocp_fault option"
  ip_tasks :: "iocp_pc list"
  ip_answers :: "nat \<Rightarrow> (bool \<times> u32 \<times> u32) option"

definition iocp_new :: "nat \<Rightarrow> iocp" where
  "iocp_new n = \<lparr>ip_heap = Map.empty, ip_requests = Map.empty, ip_pending = [], ip_port = [], ip_awoken = {},
     ip_fault = None, ip_tasks = replicate n Ip_idle, ip_answers = Map.empty\<rparr>"

text \<open>
  \<open>submit\<close> for task \<open>t\<close>, with the wrap at address \<open>a\<close>. The start of the transfer succeeds or is pending (\<open>None\<close>), or fails
  with an error; then the packet is posted by hand. At the end of the file \<open>ok\<close> is set.
\<close>

definition iocp_submit :: "winerror \<Rightarrow> nat \<Rightarrow> u64 \<Rightarrow> nat \<Rightarrow> u32 option \<Rightarrow> iocp \<Rightarrow> iocp" where
  "iocp_submit c t reqid a start w =
     (case ip_requests w reqid of
        Some _ \<Rightarrow> w\<lparr>ip_heap := (ip_heap w)(a \<mapsto> wrap_new reqid t), ip_fault := Some Iocp_panic\<rparr>
      | None \<Rightarrow>
          (let w = w\<lparr>ip_requests := (ip_requests w)(reqid \<mapsto> a)\<rparr> in
           case start of
             None \<Rightarrow> w\<lparr>ip_heap := (ip_heap w)(a \<mapsto> wrap_new reqid t), ip_pending := ip_pending w @ [a]\<rparr>
           | Some err \<Rightarrow>
               w\<lparr>ip_heap := (ip_heap w)(a \<mapsto> (wrap_new reqid t)\<lparr>wrap_finished := True, wrap_ok := (err = e_handle_eof c),
                     wrap_bytes := 0, wrap_error := err\<rparr>),
                  ip_port := ip_port w @ [\<lparr>pk_wrap = Some a, pk_ok = True, pk_bytes = 0, pk_error = 0\<rparr>],
                  ip_answers := (ip_answers w)(t \<mapsto> (err = e_handle_eof c, 0, err))\<rparr>))"

text \<open>\<open>complete\<close>: the fields of the wrap, which is freed.\<close>

definition wrap_answer :: "request_wrap \<Rightarrow> bool \<times> u32 \<times> u32" where
  "wrap_answer r = (wrap_ok r, wrap_bytes r, wrap_error r)"

definition iocp_complete :: "u64 \<Rightarrow> iocp \<Rightarrow> (bool \<times> u32 \<times> u32) option \<times> iocp" where
  "iocp_complete reqid w =
     (case ip_requests w reqid of
        None \<Rightarrow> (None, w\<lparr>ip_fault := Some Iocp_panic\<rparr>)
      | Some a \<Rightarrow>
          (case ip_heap w a of
             None \<Rightarrow> (None, w\<lparr>ip_fault := Some Iocp_use_after_free\<rparr>)
           | Some r \<Rightarrow> (Some (wrap_answer r), w\<lparr>ip_requests := (ip_requests w)(reqid := None), ip_heap := (ip_heap w)(a := None)\<rparr>)))"

text \<open>\<open>run_once\<close> of the daemon, with a packet. The identifier is read from the wrap of the packet.\<close>

definition iocp_deliver :: "packet \<Rightarrow> iocp \<Rightarrow> iocp" where
  "iocp_deliver p w =
     (case pk_wrap p of
        None \<Rightarrow> w
      | Some a \<Rightarrow>
          (case ip_heap w a of
             None \<Rightarrow> w\<lparr>ip_fault := Some Iocp_use_after_free\<rparr>
           | Some r0 \<Rightarrow>
               (case ip_requests w (wrap_reqid r0) of
                  None \<Rightarrow> w\<lparr>ip_fault := Some Iocp_panic\<rparr>
                | Some b \<Rightarrow>
                    (case ip_heap w b of
                       None \<Rightarrow> w\<lparr>ip_fault := Some Iocp_use_after_free\<rparr>
                     | Some r \<Rightarrow>
                         (let r = (if wrap_finished r then r
                                   else r\<lparr>wrap_ok := pk_ok p, wrap_bytes := pk_bytes p, wrap_error := (if pk_ok p then 0 else pk_error p)\<rparr>)
                          in w\<lparr>ip_heap := (ip_heap w)(b \<mapsto> r), ip_awoken := insert (wrap_token r) (ip_awoken w)\<rparr>)))))"

definition iocp_run_once :: "bool \<Rightarrow> iocp \<Rightarrow> (bool \<times> iocp) option" where
  "iocp_run_once stop_requested w =
     (case ip_port w of
        [] \<Rightarrow> None
      | p # rest \<Rightarrow>
          (let w = w\<lparr>ip_port := rest\<rparr> in
           if stop_requested then Some (False, w) else Some (True, iocp_deliver p w)))"

text \<open>
  Tasks submit; the kernel answers the \<open>n\<close>-th transfer it holds; somebody runs the awake hook; the daemon takes a
  packet; a task goes on with its request, after it was awakened (\<open>Ip_resume\<close>) or whenever else (\<open>Ip_resume_early\<close>).
\<close>

datatype iocp_action =
    Ip_submit nat u64 nat "u32 option"
  | Ip_kernel nat bool u32 u32
  | Ip_awake_hook
  | Ip_daemon
  | Ip_resume nat
  | Ip_resume_early nat

definition ip_is_waiting :: "iocp_pc \<Rightarrow> bool" where
  "ip_is_waiting pc = (case pc of Ip_waiting _ \<Rightarrow> True | _ \<Rightarrow> False)"

definition iocp_resume :: "nat \<Rightarrow> iocp \<Rightarrow> iocp option" where
  "iocp_resume t w =
     (if ip_fault w = None \<and> t < length (ip_tasks w)
      then (case ip_tasks w ! t of
              Ip_waiting reqid \<Rightarrow>
                (case iocp_complete reqid w of
                   (None, w) \<Rightarrow> Some w
                 | (Some r, w) \<Rightarrow> Some (w\<lparr>ip_tasks := (ip_tasks w)[t := Ip_done r], ip_awoken := ip_awoken w - {t}\<rparr>))
            | _ \<Rightarrow> None)
      else None)"

fun iocp_step :: "winerror \<Rightarrow> iocp_action \<Rightarrow> iocp \<Rightarrow> iocp option" where
  "iocp_step c (Ip_submit t reqid a start) w =
     (if ip_fault w = None \<and> t < length (ip_tasks w) \<and> \<not> ip_is_waiting (ip_tasks w ! t) \<and> ip_heap w a = None
      then Some (iocp_submit c t reqid a start (w\<lparr>ip_tasks := (ip_tasks w)[t := Ip_waiting reqid], ip_answers := (ip_answers w)(t := None)\<rparr>))
      else None)"
| "iocp_step c (Ip_kernel n ok bytes err) w =
     (if n < length (ip_pending w)
      then (let a = ip_pending w ! n in
            Some (w\<lparr>ip_pending := take n (ip_pending w) @ drop (Suc n) (ip_pending w),
                    ip_port := ip_port w @ [\<lparr>pk_wrap = Some a, pk_ok = ok, pk_bytes = bytes, pk_error = err\<rparr>],
                    ip_answers := (case ip_heap w a of None \<Rightarrow> ip_answers w
                       | Some r \<Rightarrow> (ip_answers w)(wrap_token r \<mapsto> (ok, bytes, if ok then 0 else err)))\<rparr>))
      else None)"
| "iocp_step c Ip_awake_hook w =
     Some (w\<lparr>ip_port := ip_port w @ [\<lparr>pk_wrap = None, pk_ok = True, pk_bytes = 0, pk_error = 0\<rparr>]\<rparr>)"
| "iocp_step c Ip_daemon w = (if ip_fault w = None then map_option snd (iocp_run_once False w) else None)"
| "iocp_step c (Ip_resume t) w = (if t \<in> ip_awoken w then iocp_resume t w else None)"
| "iocp_step c (Ip_resume_early t) w = iocp_resume t w"

section \<open>Answers find their tasks\<close>

text \<open>
  How the adapter is used: the requests under way have different identifiers, and a task goes on with its
  request only after it was awakened.
\<close>

definition iocp_step_meant :: "winerror \<Rightarrow> iocp_action \<Rightarrow> iocp \<Rightarrow> iocp option" where
  "iocp_step_meant c act w =
     (case act of
        Ip_submit t reqid a start \<Rightarrow> if Ip_waiting reqid \<in> set (ip_tasks w) then None else iocp_step c act w
      | Ip_resume_early t \<Rightarrow> None
      | _ \<Rightarrow> iocp_step c act w)"

text \<open>The addresses for which a packet is to come or has come.\<close>

definition port_wraps :: "packet list \<Rightarrow> nat list" where
  "port_wraps ps = List.map_filter pk_wrap ps"

lemma port_wraps_simps [simp]: "port_wraps [] = []" "port_wraps (p # ps) = (case pk_wrap p of None \<Rightarrow> [] | Some a \<Rightarrow> [a]) @ port_wraps ps"
  "port_wraps (ps @ qs) = port_wraps ps @ port_wraps qs"
  by (simp_all add: port_wraps_def map_filter_simps map_filter_def split: option.split)

lemma in_port_wraps: "a \<in> set (port_wraps ps) \<longleftrightarrow> (\<exists>p\<in>set ps. pk_wrap p = Some a)"
  by (induction ps) (auto split: option.split)

definition held :: "iocp \<Rightarrow> nat list" where
  "held w = ip_pending w @ port_wraps (ip_port w)"

definition slot :: "iocp \<Rightarrow> nat \<Rightarrow> u64 \<Rightarrow> nat \<Rightarrow> request_wrap \<Rightarrow> bool" where
  "slot w t r a x \<longleftrightarrow>
     t < length (ip_tasks w) \<and> ip_tasks w ! t = Ip_waiting r \<and> ip_requests w r = Some a \<and> ip_heap w a = Some x \<and>
     wrap_reqid x = r \<and> wrap_token x = t"

text \<open>What the wrap holds after the packet has been delivered.\<close>

definition delivered :: "packet \<Rightarrow> request_wrap \<Rightarrow> request_wrap" where
  "delivered p r =
     (if wrap_finished r then r
      else r\<lparr>wrap_ok := pk_ok p, wrap_bytes := pk_bytes p, wrap_error := (if pk_ok p then 0 else pk_error p)\<rparr>)"

definition iocp_inv :: "iocp \<Rightarrow> bool" where
  "iocp_inv w \<longleftrightarrow>
     ip_fault w = None \<and> distinct (held w) \<and>
     (\<forall>a. ip_heap w a \<noteq> None \<longrightarrow> (\<exists>t r x. slot w t r a x)) \<and>
     (\<forall>r. ip_requests w r \<noteq> None \<longrightarrow> (\<exists>t a x. slot w t r a x)) \<and>
     (\<forall>a\<in>set (held w). \<exists>t r x. slot w t r a x \<and> t \<notin> ip_awoken w) \<and>
     (\<forall>t\<in>ip_awoken w. \<exists>r a x. slot w t r a x \<and> ip_answers w t = Some (wrap_answer x)) \<and>
     (\<forall>a\<in>set (ip_pending w). \<forall>x. ip_heap w a = Some x \<longrightarrow> \<not> wrap_finished x) \<and>
     (\<forall>p\<in>set (ip_port w). \<forall>a x. pk_wrap p = Some a \<longrightarrow> ip_heap w a = Some x \<longrightarrow>
        ip_answers w (wrap_token x) = Some (wrap_answer (delivered p x))) \<and>
     (\<forall>t<length (ip_tasks w). \<forall>r. ip_tasks w ! t = Ip_waiting r \<longrightarrow>
        (\<exists>a x. slot w t r a x \<and> (t \<in> ip_awoken w \<or> a \<in> set (held w)))) \<and>
     (\<forall>t<length (ip_tasks w). \<forall>r. ip_tasks w ! t = Ip_done r \<longrightarrow> ip_answers w t = Some r)"

lemma iocp_invD:
  assumes "iocp_inv w"
  shows "ip_fault w = None" "distinct (held w)" "ip_heap w a \<noteq> None \<Longrightarrow> \<exists>t r x. slot w t r a x"
    "ip_requests w r \<noteq> None \<Longrightarrow> \<exists>t a x. slot w t r a x" "a \<in> set (held w) \<Longrightarrow> \<exists>t r x. slot w t r a x \<and> t \<notin> ip_awoken w"
    "t \<in> ip_awoken w \<Longrightarrow> \<exists>r a x. slot w t r a x \<and> ip_answers w t = Some (wrap_answer x)"
    "a \<in> set (ip_pending w) \<Longrightarrow> ip_heap w a = Some x \<Longrightarrow> \<not> wrap_finished x"
    "p \<in> set (ip_port w) \<Longrightarrow> pk_wrap p = Some a \<Longrightarrow> ip_heap w a = Some x \<Longrightarrow>
       ip_answers w (wrap_token x) = Some (wrap_answer (delivered p x))"
    "t < length (ip_tasks w) \<Longrightarrow> ip_tasks w ! t = Ip_waiting r \<Longrightarrow>
       \<exists>a x. slot w t r a x \<and> (t \<in> ip_awoken w \<or> a \<in> set (held w))"
    "t < length (ip_tasks w) \<Longrightarrow> ip_tasks w ! t = Ip_done z \<Longrightarrow> ip_answers w t = Some z"
  using assms unfolding iocp_inv_def by blast+

lemma iocp_invI:
  assumes "ip_fault w = None" "distinct (held w)" "\<And>a. ip_heap w a \<noteq> None \<Longrightarrow> \<exists>t r x. slot w t r a x"
    "\<And>r. ip_requests w r \<noteq> None \<Longrightarrow> \<exists>t a x. slot w t r a x" "\<And>a. a \<in> set (held w) \<Longrightarrow> \<exists>t r x. slot w t r a x \<and> t \<notin> ip_awoken w"
    "\<And>t. t \<in> ip_awoken w \<Longrightarrow> \<exists>r a x. slot w t r a x \<and> ip_answers w t = Some (wrap_answer x)"
    "\<And>a x. a \<in> set (ip_pending w) \<Longrightarrow> ip_heap w a = Some x \<Longrightarrow> \<not> wrap_finished x"
    "\<And>p a x. p \<in> set (ip_port w) \<Longrightarrow> pk_wrap p = Some a \<Longrightarrow> ip_heap w a = Some x \<Longrightarrow>
       ip_answers w (wrap_token x) = Some (wrap_answer (delivered p x))"
    "\<And>t r. t < length (ip_tasks w) \<Longrightarrow> ip_tasks w ! t = Ip_waiting r \<Longrightarrow>
       \<exists>a x. slot w t r a x \<and> (t \<in> ip_awoken w \<or> a \<in> set (held w))"
    "\<And>t z. t < length (ip_tasks w) \<Longrightarrow> ip_tasks w ! t = Ip_done z \<Longrightarrow> ip_answers w t = Some z"
  shows "iocp_inv w"
  using assms unfolding iocp_inv_def by blast

text \<open>Slots with the same task, identifier or address are the same.\<close>

lemma slot_unique:
  assumes "slot w t r a x" "slot w t' r' a' x'" "t = t' \<or> r = r' \<or> a = a'"
  shows "t' = t \<and> r' = r \<and> a' = a \<and> x' = x"
proof -
  note S = assms(1,2) [unfolded slot_def]
  have tr: "t = t' \<longleftrightarrow> r = r'" using S by (metis iocp_pc.inject(1) option.inject)
  have ra: "r = r' \<longleftrightarrow> a = a'" using S by (metis option.inject)
  have "a = a' \<Longrightarrow> x = x'" using S by (metis option.inject)
  with tr ra assms(3) show ?thesis by metis
qed

lemma iocp_submit_inv:
  assumes inv: "iocp_inv w" and step: "iocp_step_meant c (Ip_submit t reqid a start) w = Some w'"
  shows "iocp_inv w'"
proof -
  have t: "t < length (ip_tasks w)" "\<not> ip_is_waiting (ip_tasks w ! t)" "ip_heap w a = None"
    and new: "Ip_waiting reqid \<notin> set (ip_tasks w)"
    and w'0: "w' = iocp_submit c t reqid a start (w\<lparr>ip_tasks := (ip_tasks w)[t := Ip_waiting reqid], ip_answers := (ip_answers w)(t := None)\<rparr>)"
    using step by (auto simp: iocp_step_meant_def split: if_splits)
  have fresh: "ip_requests w reqid = None"
  proof (rule ccontr)
    assume "ip_requests w reqid \<noteq> None"
    from iocp_invD(4) [OF inv this] new show False by (auto simp: slot_def in_set_conv_nth)
  qed
  define x where "x = (case start of None \<Rightarrow> wrap_new reqid t
    | Some err \<Rightarrow> (wrap_new reqid t)\<lparr>wrap_finished := True, wrap_ok := (err = e_handle_eof c), wrap_bytes := 0, wrap_error := err\<rparr>)"
  have x: "wrap_reqid x = reqid" "wrap_token x = t" by (simp_all add: x_def wrap_new_def split: option.split)
  define v where "v = w\<lparr>ip_tasks := (ip_tasks w)[t := Ip_waiting reqid], ip_answers := (ip_answers w)(t := None)\<rparr>"
  have v: "ip_requests v reqid = None" "ip_fault v = None" using iocp_invD(1) [OF inv] fresh by (simp_all add: v_def)
  have w': "w' = v\<lparr>ip_requests := (ip_requests v)(reqid \<mapsto> a), ip_heap := (ip_heap v)(a \<mapsto> x),
      ip_pending := ip_pending v @ (if start = None then [a] else []),
      ip_port := ip_port v @ (if start = None then [] else [\<lparr>pk_wrap = Some a, pk_ok = True, pk_bytes = 0, pk_error = 0\<rparr>]),
      ip_answers := (case start of None \<Rightarrow> ip_answers v | Some err \<Rightarrow> (ip_answers v)(t \<mapsto> (err = e_handle_eof c, 0, err)))\<rparr>"
    unfolding w'0 v_def [symmetric] iocp_submit_def v(1) x_def by (cases start) simp_all
  have f: "ip_fault w' = None" "ip_heap w' = (ip_heap w)(a \<mapsto> x)" "ip_requests w' = (ip_requests w)(reqid \<mapsto> a)"
    "ip_awoken w' = ip_awoken w" "ip_tasks w' = (ip_tasks w)[t := Ip_waiting reqid]"
    "ip_pending w' = ip_pending w @ (if start = None then [a] else [])"
    "ip_port w' = ip_port w @ (if start = None then [] else [\<lparr>pk_wrap = Some a, pk_ok = True, pk_bytes = 0, pk_error = 0\<rparr>])"
    "ip_answers w' = (case start of None \<Rightarrow> (ip_answers w)(t := None) | Some err \<Rightarrow> (ip_answers w)(t \<mapsto> (err = e_handle_eof c, 0, err)))"
    using v(2) by (simp_all add: w' v_def split: option.split)
  have in_held: "set (held w') = insert a (set (held w))" by (cases start) (simp_all add: held_def f)
  have old_ne: "t' \<noteq> t \<and> r' \<noteq> reqid \<and> a' \<noteq> a" if "slot w t' r' a' x'" for t' r' a' x'
    using that t fresh by (auto simp: slot_def ip_is_waiting_def)
  have keep: "slot w' t' r' a' x'" if "slot w t' r' a' x'" for t' r' a' x'
    using that old_ne [OF that] by (simp add: slot_def f)
  have here: "slot w' t reqid a x" using t(1) x by (simp add: slot_def f)
  have ta: "t \<notin> ip_awoken w" using iocp_invD(6) [OF inv] old_ne by blast
  have ah: "a \<notin> set (held w)" using iocp_invD(5) [OF inv] old_ne by blast
  have ans: "ip_answers w' u = ip_answers w u" if "u \<noteq> t" for u
    using that fresh by (simp add: f split: option.split)
  show ?thesis
  proof (rule iocp_invI)
    show "distinct (held w')"
      using iocp_invD(2) [OF inv] ah by (cases start) (auto simp: held_def f)
    show "\<exists>t r x. slot w' t r b x" if "ip_heap w' b \<noteq> None" for b
      using that here keep iocp_invD(3) [OF inv, of b] by (cases "b = a") (simp_all add: f, blast+)
    show "\<exists>t a x. slot w' t r a x" if "ip_requests w' r \<noteq> None" for r
      using that here keep iocp_invD(4) [OF inv, of r] by (cases "r = reqid") (simp_all add: f, blast+)
    show "\<exists>t r x. slot w' t r b x \<and> t \<notin> ip_awoken w'" if "b \<in> set (held w')" for b
    proof (cases "b = a")
      case True
      with here ta show ?thesis by (auto simp: f(4))
    next
      case False
      with that have "b \<in> set (held w)" using in_held by simp
      with keep iocp_invD(5) [OF inv] f(4) show ?thesis by metis
    qed
    show "\<exists>r b y. slot w' u r b y \<and> ip_answers w' u = Some (wrap_answer y)" if "u \<in> ip_awoken w'" for u
    proof -
      have u: "u \<in> ip_awoken w" "u \<noteq> t" using that ta f(4) by auto
      from iocp_invD(6) [OF inv u(1)] keep ans [OF u(2)] show ?thesis by metis
    qed
    show "\<not> wrap_finished y" if "b \<in> set (ip_pending w')" "ip_heap w' b = Some y" for b y
    proof (cases "b = a")
      case True
      with that ah show ?thesis by (auto simp: held_def f x_def wrap_new_def split: if_splits)
    next
      case False
      with that have "b \<in> set (ip_pending w)" "ip_heap w b = Some y" by (auto simp: f split: if_splits)
      then show ?thesis by (rule iocp_invD(7) [OF inv])
    qed
    show "ip_answers w' (wrap_token y) = Some (wrap_answer (delivered p y))"
      if p: "p \<in> set (ip_port w')" "pk_wrap p = Some b" "ip_heap w' b = Some y" for p b y
    proof (cases "b = a")
      case True
      have "p \<notin> set (ip_port w)" using True p(2) ah by (auto simp: held_def in_port_wraps)
      with p(1) obtain err where "start = Some err" by (auto simp: f split: if_splits)
      with True p(3) show ?thesis by (auto simp: f x_def wrap_new_def delivered_def wrap_answer_def)
    next
      case False
      with p have "p \<in> set (ip_port w)" "ip_heap w b = Some y" by (auto simp: f split: if_splits)
      moreover from iocp_invD(3) [OF inv, of b] this(2) obtain t' r' x' where "slot w t' r' b x'" by auto
      then have "wrap_token y \<noteq> t" using old_ne \<open>ip_heap w b = Some y\<close> by (auto simp: slot_def)
      ultimately show ?thesis using iocp_invD(8) [OF inv _ p(2)] ans by simp
    qed
    show "\<exists>b y. slot w' u r b y \<and> (u \<in> ip_awoken w' \<or> b \<in> set (held w'))"
      if "u < length (ip_tasks w')" "ip_tasks w' ! u = Ip_waiting r" for u r
    proof (cases "u = t")
      case True
      with that here t(1) in_held show ?thesis by (auto simp: f)
    next
      case False
      with that have "u < length (ip_tasks w)" "ip_tasks w ! u = Ip_waiting r" by (simp_all add: f)
      from iocp_invD(9) [OF inv this] keep show ?thesis unfolding f(4) in_held by blast
    qed
    show "ip_answers w' u = Some z" if "u < length (ip_tasks w')" "ip_tasks w' ! u = Ip_done z" for u z
      using that t(1) iocp_invD(10) [OF inv, of u z] ans [of u] by (cases "u = t") (simp_all add: f)
  qed (rule f(1))
qed

lemma iocp_kernel_inv:
  assumes inv: "iocp_inv w" and step: "iocp_step c (Ip_kernel n ok bytes err) w = Some w'"
  shows "iocp_inv w'"
proof -
  have n: "n < length (ip_pending w)" using step by (simp split: if_splits)
  define a where "a = ip_pending w ! n"
  let ?pre = "take n (ip_pending w)" and ?post = "drop (Suc n) (ip_pending w)"
  have split: "ip_pending w = ?pre @ a # ?post" using n by (simp add: a_def id_take_nth_drop)
  have ah: "a \<in> set (ip_pending w)" "a \<in> set (held w)" using n by (simp_all add: a_def held_def)
  from iocp_invD(5) [OF inv ah(2)] obtain t r x where sl: "slot w t r a x" "t \<notin> ip_awoken w" by blast
  then have x: "ip_heap w a = Some x" "wrap_token x = t" by (simp_all add: slot_def)
  have fin: "\<not> wrap_finished x" by (rule iocp_invD(7) [OF inv ah(1) x(1)])
  define p where "p = \<lparr>pk_wrap = Some a, pk_ok = ok, pk_bytes = bytes, pk_error = err\<rparr>"
  have w': "w' = w\<lparr>ip_pending := ?pre @ ?post, ip_port := ip_port w @ [p],
      ip_answers := (ip_answers w)(t \<mapsto> (ok, bytes, if ok then 0 else err))\<rparr>"
    using step n x by (simp add: a_def [symmetric] p_def Let_def)
  have slot: "slot w' = slot w" by (simp add: w' slot_def fun_eq_iff)
  have held: "set (held w') = set (held w)" unfolding held_def w' p_def by (subst (3) split) auto
  have others: "a' \<noteq> a" if "a' \<in> set (?pre @ ?post)" for a'
    using that iocp_invD(2) [OF inv] unfolding held_def by (subst (asm) (3) split) auto
  show ?thesis
  proof (rule iocp_invI)
    show "distinct (held w')"
      using iocp_invD(2) [OF inv] unfolding held_def w' p_def by (subst (asm) split) auto
    show "\<exists>r a x. slot w' u r a x \<and> ip_answers w' u = Some (wrap_answer x)" if "u \<in> ip_awoken w'" for u
    proof -
      from that sl(2) have "u \<in> ip_awoken w" "u \<noteq> t" by (auto simp: w')
      with iocp_invD(6) [OF inv, of u] show ?thesis unfolding slot by (simp add: w')
    qed
    show "\<not> wrap_finished y" if "b \<in> set (ip_pending w')" "ip_heap w' b = Some y" for b y
    proof -
      have "b \<in> set (ip_pending w)" using that(1) by (subst split) (auto simp: w')
      with iocp_invD(7) [OF inv this, of y] that(2) show ?thesis by (simp add: w')
    qed
    show "ip_answers w' (wrap_token y) = Some (wrap_answer (delivered q y))"
      if q: "q \<in> set (ip_port w')" "pk_wrap q = Some b" "ip_heap w' b = Some y" for q b y
    proof (cases "q = p")
      case True
      with q(2,3) x have "y = x" by (simp add: p_def w')
      with True x(2) fin show ?thesis by (simp add: w' p_def delivered_def wrap_answer_def)
    next
      case False
      with q have q': "q \<in> set (ip_port w)" "ip_heap w b = Some y" by (auto simp: w')
      have "b \<noteq> a"
      proof
        assume "b = a"
        then have "a \<in> set (port_wraps (ip_port w))" using q'(1) q(2) by (auto simp: in_port_wraps)
        with ah(1) iocp_invD(2) [OF inv] show False by (auto simp: held_def)
      qed
      moreover from iocp_invD(3) [OF inv, of b] q'(2) obtain u s y' where "slot w u s b y'" by auto
      moreover from this q'(2) have "y' = y" by (simp add: slot_def)
      ultimately have "wrap_token y \<noteq> t" using slot_unique [OF sl(1)] by (auto simp: slot_def)
      with iocp_invD(8) [OF inv q'(1) q(2) q'(2)] show ?thesis by (simp add: w')
    qed
    show "ip_answers w' u = Some z" if "u < length (ip_tasks w')" "ip_tasks w' ! u = Ip_done z" for u z
      using that iocp_invD(10) [OF inv, of u z] sl(1) by (auto simp: w' slot_def)
    show "\<exists>t r x. slot w' t r b x" if "ip_heap w' b \<noteq> None" for b
      using that iocp_invD(3) [OF inv, of b] unfolding slot by (simp add: w')
    show "\<exists>t a x. slot w' t q a x" if "ip_requests w' q \<noteq> None" for q
      using that iocp_invD(4) [OF inv, of q] unfolding slot by (simp add: w')
    show "\<exists>t r x. slot w' t r b x \<and> t \<notin> ip_awoken w'" if "b \<in> set (held w')" for b
      using that iocp_invD(5) [OF inv, of b] unfolding slot held by (simp add: w')
    show "\<exists>a x. slot w' u q a x \<and> (u \<in> ip_awoken w' \<or> a \<in> set (held w'))"
      if "u < length (ip_tasks w')" "ip_tasks w' ! u = Ip_waiting q" for u q
      using that iocp_invD(9) [OF inv, of u q] unfolding slot held by (simp add: w')
  qed (use iocp_invD(1) [OF inv] in \<open>simp add: w'\<close>)
qed

lemma iocp_hook_inv:
  assumes inv: "iocp_inv w" and step: "iocp_step c Ip_awake_hook w = Some w'"
  shows "iocp_inv w'"
proof -
  have w': "w' = w\<lparr>ip_port := ip_port w @ [\<lparr>pk_wrap = None, pk_ok = True, pk_bytes = 0, pk_error = 0\<rparr>]\<rparr>"
    using step by simp
  have "held w' = held w" "slot w' = slot w" by (simp_all add: w' held_def slot_def fun_eq_iff)
  with inv show ?thesis by (simp add: iocp_inv_def) (simp add: w')
qed

lemma iocp_daemon_inv:
  assumes inv: "iocp_inv w" and step: "iocp_step c Ip_daemon w = Some w'"
  shows "iocp_inv w'"
proof -
  obtain p rest where port: "ip_port w = p # rest" and w'0: "w' = iocp_deliver p (w\<lparr>ip_port := rest\<rparr>)"
    using step by (auto simp: iocp_run_once_def Let_def split: if_splits list.splits)
  show ?thesis
  proof (cases "pk_wrap p")
    case None
    have w': "w' = w\<lparr>ip_port := rest\<rparr>" by (simp add: w'0 iocp_deliver_def None)
    have "held w' = held w" "slot w' = slot w" by (simp_all add: w' held_def slot_def fun_eq_iff port None)
    with inv show ?thesis by (simp add: iocp_inv_def) (simp add: w' port)
  next
    case (Some a)
    have ah: "a \<in> set (held w)" by (simp add: held_def port Some)
    from iocp_invD(5) [OF inv ah] obtain t r x where sl: "slot w t r a x" "t \<notin> ip_awoken w" by blast
    then have x: "ip_heap w a = Some x" "wrap_token x = t" "wrap_reqid x = r" "ip_requests w r = Some a" by (simp_all add: slot_def)
    have keepx: "wrap_reqid (delivered p x) = r" "wrap_token (delivered p x) = t" using x by (simp_all add: delivered_def)
    have w': "w' = w\<lparr>ip_port := rest, ip_heap := (ip_heap w)(a \<mapsto> delivered p x), ip_awoken := insert t (ip_awoken w)\<rparr>"
      using x by (simp add: w'0 iocp_deliver_def Some delivered_def Let_def)
    have ans: "ip_answers w t = Some (wrap_answer (delivered p x))"
      using iocp_invD(8) [OF inv _ Some x(1)] x(2) by (simp add: port)
    have slot: "slot w' u s b y \<longleftrightarrow> (if b = a then slot w u s a x \<and> y = delivered p x else slot w u s b y)" for u s b y
      using x(1-3) keepx by (auto simp: w' slot_def)
    have old: "slot w u s b y \<Longrightarrow> slot w' u s b (if b = a then delivered p x else y)" for u s b y
      using slot_unique [OF sl(1), of u s b y] by (auto simp: slot)
    have held: "distinct (a # held w')" "set (held w) = insert a (set (held w'))"
      using iocp_invD(2) [OF inv] by (auto simp: held_def w' port Some)
    show ?thesis
    proof (rule iocp_invI)
      show "distinct (held w')" using held(1) by simp
      show "\<exists>t r x. slot w' t r b x" if "ip_heap w' b \<noteq> None" for b
      proof -
        have "ip_heap w b \<noteq> None" using that x(1) by (auto simp: w' split: if_splits)
        with iocp_invD(3) [OF inv this] old show ?thesis by blast
      qed
      show "\<exists>t a x. slot w' t q a x" if "ip_requests w' q \<noteq> None" for q
        using that iocp_invD(4) [OF inv, of q] old by (simp add: w') blast
      show "\<exists>u s y. slot w' u s b y \<and> u \<notin> ip_awoken w'" if "b \<in> set (held w')" for b
      proof -
        have b: "b \<in> set (held w)" "b \<noteq> a" using that held by auto
        from iocp_invD(5) [OF inv b(1)] obtain u s y where u: "slot w u s b y" "u \<notin> ip_awoken w" by blast
        have "u \<noteq> t" using slot_unique [OF sl(1) u(1)] b(2) by auto
        with old [OF u(1)] u(2) show ?thesis by (auto simp: w')
      qed
      show "\<exists>s b y. slot w' u s b y \<and> ip_answers w' u = Some (wrap_answer y)" if "u \<in> ip_awoken w'" for u
      proof (cases "u = t")
        case True
        with old [OF sl(1)] ans show ?thesis by (auto simp: w')
      next
        case False
        with that have "u \<in> ip_awoken w" by (simp add: w')
        from iocp_invD(6) [OF inv this] obtain s b y where u: "slot w u s b y" "ip_answers w u = Some (wrap_answer y)" by blast
        have "b \<noteq> a" using slot_unique [OF sl(1) u(1)] False by auto
        with old [OF u(1)] u(2) show ?thesis by (auto simp: w')
      qed
      show "\<not> wrap_finished y" if "b \<in> set (ip_pending w')" "ip_heap w' b = Some y" for b y
      proof -
        have b: "b \<in> set (ip_pending w)" "b \<in> set (held w')" using that(1) by (simp_all add: w' held_def)
        then have "b \<noteq> a" using held(1) by auto
        with iocp_invD(7) [OF inv b(1), of y] that(2) show ?thesis by (simp add: w')
      qed
      show "ip_answers w' (wrap_token y) = Some (wrap_answer (delivered q y))"
        if q: "q \<in> set (ip_port w')" "pk_wrap q = Some b" "ip_heap w' b = Some y" for q b y
      proof -
        have "b \<in> set (held w')" using q(1,2) by (auto simp: held_def in_port_wraps)
        then have "b \<noteq> a" using held(1) by auto
        with iocp_invD(8) [OF inv _ q(2), of y] q(1,3) show ?thesis by (simp add: w' port)
      qed
      show "\<exists>b y. slot w' u q b y \<and> (u \<in> ip_awoken w' \<or> b \<in> set (held w'))"
        if u: "u < length (ip_tasks w')" "ip_tasks w' ! u = Ip_waiting q" for u q
      proof -
        from iocp_invD(9) [OF inv, of u q] u obtain b y where b: "slot w u q b y" "u \<in> ip_awoken w \<or> b \<in> set (held w)"
          by (auto simp: w')
        have "b = a \<longrightarrow> u = t" using slot_unique [OF sl(1) b(1)] by auto
        with old [OF b(1)] b(2) held(2) show ?thesis by (auto simp: w')
      qed
      show "ip_answers w' u = Some z" if "u < length (ip_tasks w')" "ip_tasks w' ! u = Ip_done z" for u z
        using that iocp_invD(10) [OF inv, of u z] by (simp add: w')
    qed (use iocp_invD(1) [OF inv] in \<open>simp add: w'\<close>)
  qed
qed

lemma iocp_resume_inv:
  assumes inv: "iocp_inv w" and step: "iocp_step c (Ip_resume t) w = Some w'"
  shows "iocp_inv w'"
proof -
  have t: "t \<in> ip_awoken w" "iocp_resume t w = Some w'" using step by (auto split: if_splits)
  from iocp_invD(6) [OF inv t(1)] obtain r a x where sl: "slot w t r a x" "ip_answers w t = Some (wrap_answer x)" by blast
  then have x: "t < length (ip_tasks w)" "ip_tasks w ! t = Ip_waiting r" "ip_requests w r = Some a" "ip_heap w a = Some x"
    by (simp_all add: slot_def)
  have w': "w' = w\<lparr>ip_requests := (ip_requests w)(r := None), ip_heap := (ip_heap w)(a := None),
      ip_tasks := (ip_tasks w)[t := Ip_done (wrap_answer x)], ip_awoken := ip_awoken w - {t}\<rparr>"
    using t(2) x iocp_invD(1) [OF inv] by (simp add: iocp_resume_def iocp_complete_def)
  have slot: "slot w' u q b y \<longleftrightarrow> slot w u q b y \<and> u \<noteq> t" for u q b y
  proof (cases "u = t")
    case True
    then show ?thesis using x(1) by (simp add: slot_def w')
  next
    case False
    moreover have "q \<noteq> r" "b \<noteq> a" if "slot w u q b y" using slot_unique [OF sl(1) that] False by auto
    ultimately show ?thesis by (auto simp: slot_def w')
  qed
  have ah: "a \<notin> set (held w)"
    using iocp_invD(5) [OF inv, of a] slot_unique [OF sl(1)] t(1) by blast
  have held: "held w' = held w" by (simp add: held_def w')
  have f: "ip_awoken w' = ip_awoken w - {t}" "ip_answers w' = ip_answers w" by (simp_all add: w')
  show ?thesis
  proof (rule iocp_invI)
    show "distinct (held w')" using iocp_invD(2) [OF inv] by (simp add: held)
    show "\<exists>u q y. slot w' u q b y" if "ip_heap w' b \<noteq> None" for b
    proof -
      have b: "b \<noteq> a" "ip_heap w b \<noteq> None" using that by (auto simp: w' split: if_splits)
      from iocp_invD(3) [OF inv b(2)] obtain u q y where "slot w u q b y" by blast
      with slot_unique [OF sl(1) this] b(1) show ?thesis by (auto simp: slot)
    qed
    show "\<exists>u b y. slot w' u q b y" if "ip_requests w' q \<noteq> None" for q
    proof -
      have q: "q \<noteq> r" "ip_requests w q \<noteq> None" using that by (auto simp: w' split: if_splits)
      from iocp_invD(4) [OF inv q(2)] obtain u b y where "slot w u q b y" by blast
      with slot_unique [OF sl(1) this] q(1) show ?thesis by (auto simp: slot)
    qed
    show "\<exists>u q y. slot w' u q b y \<and> u \<notin> ip_awoken w'" if "b \<in> set (held w')" for b
    proof -
      have b: "b \<in> set (held w)" "b \<noteq> a" using that ah held by auto
      from iocp_invD(5) [OF inv b(1)] obtain u q y where u: "slot w u q b y" "u \<notin> ip_awoken w" by blast
      with slot_unique [OF sl(1) u(1)] b(2) show ?thesis by (auto simp: slot f)
    qed
    show "\<exists>q b y. slot w' u q b y \<and> ip_answers w' u = Some (wrap_answer y)" if "u \<in> ip_awoken w'" for u
    proof -
      have u: "u \<in> ip_awoken w" "u \<noteq> t" using that by (auto simp: w')
      from iocp_invD(6) [OF inv u(1)] u(2) show ?thesis by (auto simp: slot f)
    qed
    show "\<not> wrap_finished y" if "b \<in> set (ip_pending w')" "ip_heap w' b = Some y" for b y
      using that iocp_invD(7) [OF inv, of b y] by (auto simp: w' split: if_splits)
    show "ip_answers w' (wrap_token y) = Some (wrap_answer (delivered q y))"
      if "q \<in> set (ip_port w')" "pk_wrap q = Some b" "ip_heap w' b = Some y" for q b y
      using that iocp_invD(8) [OF inv, of q b y] by (auto simp: w' split: if_splits)
    show "\<exists>b y. slot w' u q b y \<and> (u \<in> ip_awoken w' \<or> b \<in> set (held w'))"
      if u: "u < length (ip_tasks w')" "ip_tasks w' ! u = Ip_waiting q" for u q
    proof -
      have ne: "u \<noteq> t" using u x(1) by (auto simp: w')
      with u have "u < length (ip_tasks w)" "ip_tasks w ! u = Ip_waiting q" by (simp_all add: w')
      from iocp_invD(9) [OF inv this] ne show ?thesis unfolding held by (auto simp: slot f)
    qed
    show "ip_answers w' u = Some z" if "u < length (ip_tasks w')" "ip_tasks w' ! u = Ip_done z" for u z
      using that x(1) sl(2) iocp_invD(10) [OF inv, of u z] by (cases "u = t") (simp_all add: w')
  qed (use iocp_invD(1) [OF inv] in \<open>simp add: w'\<close>)
qed

lemma iocp_step_inv:
  assumes "iocp_inv w" "iocp_step_meant c act w = Some w'"
  shows "iocp_inv w'"
proof (cases act)
  case (Ip_submit t reqid a start)
  with assms iocp_submit_inv show ?thesis by blast
next
  case (Ip_kernel n ok bytes err)
  with assms iocp_kernel_inv show ?thesis by (simp add: iocp_step_meant_def del: iocp_step.simps)
next
  case Ip_awake_hook
  with assms iocp_hook_inv show ?thesis by (simp add: iocp_step_meant_def del: iocp_step.simps)
next
  case Ip_daemon
  with assms iocp_daemon_inv show ?thesis by (simp add: iocp_step_meant_def del: iocp_step.simps)
next
  case (Ip_resume t)
  with assms iocp_resume_inv show ?thesis by (simp add: iocp_step_meant_def del: iocp_step.simps)
next
  case (Ip_resume_early t)
  with assms show ?thesis by (simp add: iocp_step_meant_def)
qed

interpretation iocp: invariant_system "iocp_step_meant c" iocp_inv for c
  by unfold_locales (rule iocp_step_inv)

lemma iocp_new_inv: "iocp_inv (iocp_new n)"
  by (simp add: iocp_inv_def iocp_new_def held_def)

text \<open>
  C28: With different identifiers under way, and tasks that go on only when awakened: under every interleaving
  of tasks, kernel, awake hook and daemon there is no panic and no access to a freed \<open>request_wrap\<close>; a task that has completed
  its request got the answer to it, also when the start of the transfer failed; and every wrap on the heap
  belongs to a task that still waits, so none leaks.
\<close>

theorem iocp_answers_find_tasks:
  assumes "run (iocp_step_meant c) as (iocp_new n) = Some w"
  shows "ip_fault w = None \<and>
    (\<forall>t<length (ip_tasks w). \<forall>z. ip_tasks w ! t = Ip_done z \<longrightarrow> ip_answers w t = Some z) \<and>
    (\<forall>a x. ip_heap w a = Some x \<longrightarrow> wrap_token x < length (ip_tasks w) \<and> ip_tasks w ! wrap_token x = Ip_waiting (wrap_reqid x) \<and>
       ip_requests w (wrap_reqid x) = Some a)"
proof -
  have inv: "iocp_inv w" by (rule iocp.run_inv [OF iocp_new_inv assms])
  have "wrap_token x < length (ip_tasks w) \<and> ip_tasks w ! wrap_token x = Ip_waiting (wrap_reqid x) \<and>
      ip_requests w (wrap_reqid x) = Some a" if x: "ip_heap w a = Some x" for a x
  proof -
    from iocp_invD(3) [OF inv, of a] x obtain t r y where "slot w t r a y" by auto
    with x show ?thesis unfolding slot_def by (metis option.inject)
  qed
  then show ?thesis using iocp_invD(1,10) [OF inv] by blast
qed

definition winerror_example :: winerror where
  "winerror_example = \<lparr>e_file_not_found = 2, e_path_not_found = 3, e_access_denied = 5, e_file_exists = 80, e_invalid_name = 123,
     e_too_many_open_files = 4, e_invalid_handle = 6, e_noaccess = 998, e_handle_eof = 38, e_io_pending = 997\<rparr>"

definition iocp_example :: "iocp_action list" where
  "iocp_example = [Ip_submit 0 11 700 None, Ip_submit 1 12 800 (Some 38), Ip_daemon, Ip_awake_hook, Ip_kernel 0 False 0 5,
     Ip_daemon, Ip_daemon, Ip_resume 1, Ip_resume 0]"

lemmas iocp_eval = iocp_new_def iocp_step_meant_def iocp_submit_def iocp_run_once_def iocp_deliver_def iocp_resume_def
  iocp_complete_def wrap_new_def wrap_answer_def ip_is_waiting_def Let_def

lemma iocp_answers_find_tasks_witness:
  "\<exists>w. run (iocp_step_meant winerror_example) iocp_example (iocp_new 2) = Some w \<and>
     ip_tasks w = [Ip_done (False, 0, 5), Ip_done (True, 0, 38)] \<and> ip_fault w = None \<and> ip_answers w 0 = Some (False, 0, 5)"
proof -
  have "\<exists>w. run (iocp_step_meant winerror_example) iocp_example (iocp_new 2) = Some w \<and>
     ip_tasks w = [Ip_done (False, 0, 5), Ip_done (True, 0, 38)]"
    by (simp add: iocp_eval iocp_example_def winerror_example_def)
  then obtain w where w: "run (iocp_step_meant winerror_example) iocp_example (iocp_new 2) = Some w"
    "ip_tasks w = [Ip_done (False, 0, 5), Ip_done (True, 0, 38)]" by (elim exE conjE) (rule that)
  have "ip_fault w = None \<and> ip_answers w 0 = Some (False, 0, 5)"
    using iocp_answers_find_tasks [OF w(1)] by (simp add: w(2))
  with w show ?thesis by (intro exI [of _ w] conjI) simp_all
qed

text \<open>
  A task that is awakened by something else while its transfer is under way takes an answer that is no answer,
  and frees the wrap that the kernel and the daemon still use.
\<close>

theorem iocp_spurious_use_after_free:
  "\<exists>w. run (iocp_step winerror_example) [Ip_submit 0 11 700 None, Ip_resume_early 0, Ip_kernel 0 True 64 0, Ip_daemon] (iocp_new 1) = Some w \<and>
     ip_tasks w = [Ip_done (False, 0, 0)] \<and> ip_fault w = Some Iocp_use_after_free"
  by (simp add: iocp_eval)

text \<open>
  A transfer is told the whole offset, but only the low half of the length: a read of 4 GiB asks for nothing,
  and its answer reads like the end of the file.
\<close>

theorem overlapped_offset_roundtrip:
  "push_bit 32 (ucast (snd (overlapped_offset offset))) OR ucast (fst (overlapped_offset offset)) = offset"
proof (rule bit_word_eqI)
  have m: "(0xFFFFFFFF :: u64) = mask 32" by (simp add: mask_eq_exp_minus_1)
  fix i assume "i < LENGTH(64)"
  then show "bit (push_bit 32 (ucast (snd (overlapped_offset offset))) OR ucast (fst (overlapped_offset offset)) :: u64) i = bit offset i"
    by (auto simp: overlapped_offset_def m bit_simps)
qed

theorem transfer_length_truncates: "transfer_length (2 ^ 32) = 0 \<and> win_read_result c (True, 0, 0) = Inr 0"
  by (simp add: transfer_length_def win_read_result_def)

end
