(* ===== verification/Win_State.thy ===== *)
theory Win_State
  imports Io_Adapter Murmur
begin

text \<open>
  \<open>io_adapter::get_state\<close> and \<open>io_adapter::submit_close\<close> of \<open>asco/core/os/windows/iocp.cpp\<close>: the size and the times of a file,
  and the cache of the owners, which shares one security descriptor among the handles of an owner and counts them.
\<close>

section \<open>Size and times\<close>

record io_state =
  st_size :: u64
  st_last_access :: u64
  st_last_modification :: u64
  st_last_status_change :: u64
  st_owner :: u64

text \<open>A \<open>LARGE_INTEGER\<close> from its halves; times in units of 100 nanoseconds since 1970.\<close>

definition quad_part :: "u32 \<Rightarrow> u32 \<Rightarrow> u64" where
  "quad_part high low = push_bit 32 (ucast high) OR ucast low"

definition unix_epoch_as_filetime :: u64 where
  "unix_epoch_as_filetime = 116444736000000000"

definition filetime_to_system_clock :: "u32 \<Rightarrow> u32 \<Rightarrow> u64" where
  "filetime_to_system_clock high low =
     (let v = quad_part high low in if v < unix_epoch_as_filetime then 0 else v - unix_epoch_as_filetime)"

text \<open>Conversion never wraps around, and keeps the order of all times that are not before 1970.\<close>

lemma filetime_exact:
  "unat (filetime_to_system_clock high low) = unat (quad_part high low) - unat unix_epoch_as_filetime"
proof (cases "quad_part high low < unix_epoch_as_filetime")
  case True
  then have "unat (quad_part high low) < unat unix_epoch_as_filetime" by (rule unat_mono)
  with True show ?thesis by (simp add: filetime_to_system_clock_def Let_def)
next
  case False
  then have "unix_epoch_as_filetime \<le> quad_part high low" by simp
  with False show ?thesis by (simp add: filetime_to_system_clock_def Let_def unat_sub)
qed

section \<open>The cache of owners\<close>

text \<open>
  \<open>sc_map\<close> is \<open>_sid_map\<close> (the descriptor and its count), \<open>sc_handles\<close> is \<open>_handle_sid_map\<close>; \<open>sc_live\<close> are the descriptors that have
  been allocated and not freed. Freeing another one is a fault.
\<close>

record sid_cache =
  sc_map :: "u64 \<Rightarrow> (nat \<times> nat) option"
  sc_handles :: "u64 \<Rightarrow> u64 option"
  sc_live :: "nat set"
  sc_fault :: bool

definition sid_cache_new :: sid_cache where
  "sid_cache_new = \<lparr>sc_map = Map.empty, sc_handles = Map.empty, sc_live = {}, sc_fault = False\<rparr>"

definition owner_hash :: "byte list \<Rightarrow> u64" where
  "owner_hash sid = (case hash_str sid of (h0, h1) \<Rightarrow> h0 XOR h1)"

definition local_free :: "nat \<Rightarrow> sid_cache \<Rightarrow> sid_cache" where
  "local_free sd w = w\<lparr>sc_live := sc_live w - {sd}, sc_fault := sc_fault w \<or> sd \<notin> sc_live w\<rparr>"

text \<open>\<open>get_state\<close>, for the descriptor \<open>sd\<close> and the owner that \<open>GetSecurityInfo\<close> answers with.\<close>

definition sid_get :: "u64 \<Rightarrow> nat \<Rightarrow> byte list \<Rightarrow> sid_cache \<Rightarrow> u64 \<times> sid_cache" where
  "sid_get h sd sid w =
     (case sc_handles w h of
        Some hash \<Rightarrow> (hash, w)
      | None \<Rightarrow>
          (let hash = owner_hash sid;
               w = w\<lparr>sc_live := insert sd (sc_live w)\<rparr>;
               w = (case sc_map w hash of
                      None \<Rightarrow> w\<lparr>sc_map := (sc_map w)(hash \<mapsto> (sd, 1))\<rparr>
                    | Some (sd', n) \<Rightarrow> (local_free sd w)\<lparr>sc_map := (sc_map w)(hash \<mapsto> (sd', n + 1))\<rparr>)
           in (hash, w\<lparr>sc_handles := (sc_handles w)(h \<mapsto> hash)\<rparr>)))"

text \<open>The whole of \<open>get_state\<close>, from the answer of \<open>GetFileInformationByHandle\<close>; each pair is a high and a low half.\<close>

record file_information =
  fi_size :: "u32 \<times> u32"
  fi_last_access :: "u32 \<times> u32"
  fi_last_write :: "u32 \<times> u32"
  fi_creation :: "u32 \<times> u32"

definition win_get_state :: "u64 \<Rightarrow> file_information \<Rightarrow> nat \<Rightarrow> byte list \<Rightarrow> sid_cache \<Rightarrow> io_state \<times> sid_cache" where
  "win_get_state h info sd sid w =
     (case sid_get h sd sid w of (owner, w) \<Rightarrow>
        (\<lparr>st_size = (case fi_size info of (high, low) \<Rightarrow> quad_part high low),
          st_last_access = (case fi_last_access info of (high, low) \<Rightarrow> filetime_to_system_clock high low),
          st_last_modification = (case fi_last_write info of (high, low) \<Rightarrow> filetime_to_system_clock high low),
          st_last_status_change = (case fi_creation info of (high, low) \<Rightarrow> filetime_to_system_clock high low),
          st_owner = owner\<rparr>, w))"

text \<open>\<open>submit_close\<close>: first under the guard of the entry, and then its removal.\<close>

definition sid_drop :: "u64 \<Rightarrow> sid_cache \<Rightarrow> u64 option \<times> sid_cache" where
  "sid_drop h w =
     (case sc_handles w h of
        None \<Rightarrow> (None, w)
      | Some hash \<Rightarrow>
          (let w = w\<lparr>sc_handles := (sc_handles w)(h := None)\<rparr> in
           case sc_map w hash of
             None \<Rightarrow> (None, w)
           | Some (sd, n) \<Rightarrow>
               (let w = w\<lparr>sc_map := (sc_map w)(hash \<mapsto> (sd, n - 1))\<rparr> in
                if n - 1 = 0 then (Some hash, local_free sd w) else (None, w))))"

definition sid_remove :: "u64 option \<Rightarrow> sid_cache \<Rightarrow> sid_cache" where
  "sid_remove removed w =
     (case removed of None \<Rightarrow> w | Some hash \<Rightarrow> w\<lparr>sc_map := (sc_map w)(hash := None)\<rparr>)"

definition sid_close :: "u64 \<Rightarrow> sid_cache \<Rightarrow> sid_cache" where
  "sid_close h w = (case sid_drop h w of (removed, w) \<Rightarrow> sid_remove removed w)"

datatype sid_action = Sid_get u64 nat "byte list" | Sid_close u64

text \<open>A new descriptor is at a new address.\<close>

fun sid_step :: "sid_action \<Rightarrow> sid_cache \<Rightarrow> sid_cache option" where
  "sid_step (Sid_get h sd sid) w = (if sd \<in> sc_live w then None else Some (snd (sid_get h sd sid w)))"
| "sid_step (Sid_close h) w = Some (sid_close h w)"

section \<open>The counts are exact\<close>

definition handles_of :: "sid_cache \<Rightarrow> u64 \<Rightarrow> u64 set" where
  "handles_of w hash = {h. sc_handles w h = Some hash}"

definition sid_inv :: "sid_cache \<Rightarrow> bool" where
  "sid_inv w \<longleftrightarrow>
     \<not> sc_fault w \<and> (\<forall>hash. finite (handles_of w hash)) \<and>
     (\<forall>hash. sc_map w hash = None \<longrightarrow> handles_of w hash = {}) \<and>
     (\<forall>hash sd n. sc_map w hash = Some (sd, n) \<longrightarrow> n = card (handles_of w hash) \<and> 0 < n \<and> sd \<in> sc_live w) \<and>
     (\<forall>hash hash' sd n n'. sc_map w hash = Some (sd, n) \<longrightarrow> sc_map w hash' = Some (sd, n') \<longrightarrow> hash = hash') \<and>
     (\<forall>sd\<in>sc_live w. \<exists>hash n. sc_map w hash = Some (sd, n))"

lemma sid_invD:
  assumes "sid_inv w"
  shows "\<not> sc_fault w" "finite (handles_of w hash)" "sc_map w hash = None \<Longrightarrow> handles_of w hash = {}"
    "sc_map w hash = Some (sd, n) \<Longrightarrow> n = card (handles_of w hash) \<and> 0 < n \<and> sd \<in> sc_live w"
    "sc_map w hash = Some (sd, n) \<Longrightarrow> sc_map w hash' = Some (sd, n') \<Longrightarrow> hash = hash'"
    "sd \<in> sc_live w \<Longrightarrow> \<exists>hash n. sc_map w hash = Some (sd, n)"
  using assms unfolding sid_inv_def by blast+

lemma sid_invI:
  assumes "\<not> sc_fault w" "\<And>hash. finite (handles_of w hash)" "\<And>hash. sc_map w hash = None \<Longrightarrow> handles_of w hash = {}"
    "\<And>hash sd n. sc_map w hash = Some (sd, n) \<Longrightarrow> n = card (handles_of w hash) \<and> 0 < n \<and> sd \<in> sc_live w"
    "\<And>hash hash' sd n n'. sc_map w hash = Some (sd, n) \<Longrightarrow> sc_map w hash' = Some (sd, n') \<Longrightarrow> hash = hash'"
    "\<And>sd. sd \<in> sc_live w \<Longrightarrow> \<exists>hash n. sc_map w hash = Some (sd, n)"
  shows "sid_inv w"
  using assms unfolding sid_inv_def by blast

lemma handles_of_upd:
  assumes "sc_handles w h = None"
  shows "handles_of (w\<lparr>sc_handles := (sc_handles w)(h \<mapsto> hash)\<rparr>) hash' = (if hash' = hash then insert h (handles_of w hash') else handles_of w hash')"
  using assms by (auto simp: handles_of_def)

lemma handles_of_other [simp]:
  "handles_of (w\<lparr>sc_map := m\<rparr>) = handles_of w" "handles_of (w\<lparr>sc_live := l\<rparr>) = handles_of w" "handles_of (w\<lparr>sc_fault := b\<rparr>) = handles_of w"
  by (simp_all add: handles_of_def fun_eq_iff)

lemma sid_get_inv:
  assumes inv: "sid_inv w" and sd: "sd \<notin> sc_live w"
  shows "sid_inv (snd (sid_get h sd sid w))"
proof (cases "sc_handles w h")
  case (Some hash)
  with inv show ?thesis by (simp add: sid_get_def)
next
  case None
  define hash where "hash = owner_hash sid"
  have nh: "h \<notin> handles_of w k" for k using None by (simp add: handles_of_def)
  show ?thesis
  proof (cases "sc_map w hash")
    case m: None
    define w' where "w' = snd (sid_get h sd sid w)"
    have w': "w' = w\<lparr>sc_live := insert sd (sc_live w), sc_map := (sc_map w)(hash \<mapsto> (sd, 1)), sc_handles := (sc_handles w)(h \<mapsto> hash)\<rparr>"
      by (simp add: w'_def sid_get_def None m hash_def [symmetric] Let_def)
    have H: "handles_of w' k = (if k = hash then {h} else handles_of w k)" for k
      using None sid_invD(3) [OF inv m] by (auto simp: w' handles_of_def)
    have new: "sc_map w k \<noteq> Some (sd, n)" for k n using sid_invD(4) [OF inv, of k sd n] sd by blast
    have f: "sc_map w' = (sc_map w)(hash \<mapsto> (sd, 1))" "sc_live w' = insert sd (sc_live w)" "sc_fault w' = sc_fault w" by (simp_all add: w')
    have "sid_inv w'"
    proof (rule sid_invI)
      show "finite (handles_of w' k)" for k using sid_invD(2) [OF inv] by (simp add: H)
      show "handles_of w' k = {}" if "sc_map w' k = None" for k
        using that sid_invD(3) [OF inv, of k] by (auto simp: H f split: if_splits)
      show "n = card (handles_of w' k) \<and> 0 < n \<and> d \<in> sc_live w'" if "sc_map w' k = Some (d, n)" for k d n
        using that sid_invD(4) [OF inv, of k d n] unfolding H by (auto simp: f split: if_splits)
      show "k = k'" if "sc_map w' k = Some (d, n)" "sc_map w' k' = Some (d, n')" for k k' d n n'
        using that new sid_invD(5) [OF inv, of k d n k' n'] by (auto simp: f split: if_splits)
      show "\<exists>k n. sc_map w' k = Some (d, n)" if "d \<in> sc_live w'" for d
      proof (cases "d = sd")
        case True
        then show ?thesis by (intro exI [of _ hash] exI [of _ 1]) (simp add: f)
      next
        case False
        with that have "d \<in> sc_live w" by (simp add: f)
        from sid_invD(6) [OF inv this] obtain k n where "sc_map w k = Some (d, n)" by blast
        with m show ?thesis by (intro exI [of _ k] exI [of _ n]) (auto simp: f)
      qed
    qed (use sid_invD(1) [OF inv] in \<open>simp add: f\<close>)
    then show ?thesis by (simp add: w'_def)
  next
    case (Some e)
    obtain d0 n0 where e: "sc_map w hash = Some (d0, n0)" using Some by (cases e) auto
    define w' where "w' = snd (sid_get h sd sid w)"
    have live: "insert sd (sc_live w) - {sd} = sc_live w" using sd by simp
    have w': "w' = w\<lparr>sc_map := (sc_map w)(hash \<mapsto> (d0, n0 + 1)), sc_handles := (sc_handles w)(h \<mapsto> hash)\<rparr>"
      using live by (simp add: w'_def sid_get_def None e hash_def [symmetric] Let_def local_free_def)
    have H: "handles_of w' k = (if k = hash then insert h (handles_of w k) else handles_of w k)" for k
      using None by (auto simp: w' handles_of_def)
    note E = sid_invD(4) [OF inv e]
    have f: "sc_map w' = (sc_map w)(hash \<mapsto> (d0, n0 + 1))" "sc_live w' = sc_live w" "sc_fault w' = sc_fault w" by (simp_all add: w')
    have "sid_inv w'"
    proof (rule sid_invI)
      show "finite (handles_of w' k)" for k using sid_invD(2) [OF inv] by (simp add: H)
      show "handles_of w' k = {}" if "sc_map w' k = None" for k
        using that sid_invD(3) [OF inv, of k] by (auto simp: H f split: if_splits)
      show "n = card (handles_of w' k) \<and> 0 < n \<and> d \<in> sc_live w'" if m: "sc_map w' k = Some (d, n)" for k d n
      proof (cases "k = hash")
        case True
        with m E nh [of hash] sid_invD(2) [OF inv, of hash] show ?thesis unfolding H by (simp add: f)
      next
        case False
        with m sid_invD(4) [OF inv, of k d n] show ?thesis unfolding H by (simp add: f)
      qed
      show "k = k'" if "sc_map w' k = Some (d, n)" "sc_map w' k' = Some (d, n')" for k k' d n n'
        using that e sid_invD(5) [OF inv] by (auto simp: f split: if_splits)
      show "\<exists>k n. sc_map w' k = Some (d, n)" if "d \<in> sc_live w'" for d
      proof -
        from that have "d \<in> sc_live w" by (simp add: f)
        from sid_invD(6) [OF inv this] obtain k n where k: "sc_map w k = Some (d, n)" by blast
        with e show ?thesis by (intro exI [of _ k]) (auto simp: f)
      qed
    qed (use sid_invD(1) [OF inv] in \<open>simp add: f\<close>)
    then show ?thesis by (simp add: w'_def)
  qed
qed

lemma sid_close_inv:
  assumes inv: "sid_inv w"
  shows "sid_inv (sid_close h w)"
proof (cases "sc_handles w h")
  case None
  with inv show ?thesis by (simp add: sid_close_def sid_drop_def sid_remove_def)
next
  case (Some hash)
  have h: "h \<in> handles_of w hash" using Some by (simp add: handles_of_def)
  then obtain d0 n0 where e: "sc_map w hash = Some (d0, n0)" using sid_invD(3) [OF inv, of hash] by fastforce
  note E = sid_invD(4) [OF inv e]
  define w' where "w' = sid_close h w"
  have same: "k = hash" if "sc_map w k = Some (d0, n)" for k n using sid_invD(5) [OF inv that e] .
  show ?thesis
  proof (cases "n0 = 1")
    case True
    have w': "w' = w\<lparr>sc_handles := (sc_handles w)(h := None), sc_map := (sc_map w)(hash := None), sc_live := sc_live w - {d0}\<rparr>"
      using E sid_invD(1) [OF inv] by (simp add: w'_def sid_close_def sid_drop_def sid_remove_def Some e True local_free_def Let_def)
    have f: "sc_map w' = (sc_map w)(hash := None)" "sc_live w' = sc_live w - {d0}" "sc_fault w' = sc_fault w" by (simp_all add: w')
    have "handles_of w hash = {h}" using E True h by (metis card_1_singletonE singletonD)
    then have H: "handles_of w' k = (if k = hash then {} else handles_of w k)" for k
      using Some by (auto simp: w' handles_of_def)
    have "sid_inv w'"
    proof (rule sid_invI)
      show "finite (handles_of w' k)" for k using sid_invD(2) [OF inv] by (simp add: H)
      show "handles_of w' k = {}" if "sc_map w' k = None" for k
        using that sid_invD(3) [OF inv, of k] by (auto simp: H f split: if_splits)
      show "n = card (handles_of w' k) \<and> 0 < n \<and> d \<in> sc_live w'" if "sc_map w' k = Some (d, n)" for k d n
        using that sid_invD(4) [OF inv, of k d n] same [of k n] unfolding H by (auto simp: f split: if_splits)
      show "k = k'" if "sc_map w' k = Some (d, n)" "sc_map w' k' = Some (d, n')" for k k' d n n'
        using that sid_invD(5) [OF inv, of k d n k' n'] by (auto simp: f split: if_splits)
      show "\<exists>k n. sc_map w' k = Some (d, n)" if "d \<in> sc_live w'" for d
      proof -
        from that have d: "d \<in> sc_live w" "d \<noteq> d0" by (simp_all add: f)
        from sid_invD(6) [OF inv d(1)] obtain k n where "sc_map w k = Some (d, n)" by blast
        with e d(2) show ?thesis by (intro exI [of _ k] exI [of _ n]) (auto simp: f)
      qed
    qed (use sid_invD(1) [OF inv] in \<open>simp add: f\<close>)
    then show ?thesis by (simp add: w'_def)
  next
    case False
    with E have n0: "n0 - 1 \<noteq> 0" by simp
    have w': "w' = w\<lparr>sc_handles := (sc_handles w)(h := None), sc_map := (sc_map w)(hash \<mapsto> (d0, n0 - 1))\<rparr>"
      using n0 by (simp add: w'_def sid_close_def sid_drop_def sid_remove_def Some e Let_def)
    have f: "sc_map w' = (sc_map w)(hash \<mapsto> (d0, n0 - 1))" "sc_live w' = sc_live w" "sc_fault w' = sc_fault w" by (simp_all add: w')
    have H: "handles_of w' k = (if k = hash then handles_of w k - {h} else handles_of w k)" for k
      using Some by (auto simp: w' handles_of_def)
    have "sid_inv w'"
    proof (rule sid_invI)
      show "finite (handles_of w' k)" for k using sid_invD(2) [OF inv] by (simp add: H)
      show "handles_of w' k = {}" if "sc_map w' k = None" for k
        using that sid_invD(3) [OF inv, of k] by (auto simp: H f split: if_splits)
      show "n = card (handles_of w' k) \<and> 0 < n \<and> d \<in> sc_live w'" if m: "sc_map w' k = Some (d, n)" for k d n
      proof (cases "k = hash")
        case True
        with m E n0 h sid_invD(2) [OF inv, of hash] show ?thesis unfolding H by (auto simp: f)
      next
        case False
        with m sid_invD(4) [OF inv, of k d n] show ?thesis unfolding H by (simp add: f)
      qed
      show "k = k'" if "sc_map w' k = Some (d, n)" "sc_map w' k' = Some (d, n')" for k k' d n n'
        using that same sid_invD(5) [OF inv, of k d n k' n'] by (auto simp: f split: if_splits)
      show "\<exists>k n. sc_map w' k = Some (d, n)" if "d \<in> sc_live w'" for d
      proof -
        from that have "d \<in> sc_live w" by (simp add: f)
        from sid_invD(6) [OF inv this] obtain k n where "sc_map w k = Some (d, n)" by blast
        with e show ?thesis by (intro exI [of _ k]) (auto simp: f)
      qed
    qed (use sid_invD(1) [OF inv] in \<open>simp add: f\<close>)
    then show ?thesis by (simp add: w'_def)
  qed
qed

lemma sid_step_inv: "sid_inv w \<Longrightarrow> sid_step act w = Some w' \<Longrightarrow> sid_inv w'"
  using sid_get_inv sid_close_inv by (cases act) (auto split: if_splits)

interpretation sids: invariant_system sid_step sid_inv
  by unfold_locales (rule sid_step_inv)

lemma sid_new_inv: "sid_inv sid_cache_new"
  by (simp add: sid_inv_def sid_cache_new_def handles_of_def)

text \<open>
  The cache of the owners is exact: after any sequence of \<open>get_state\<close> and \<open>submit_close\<close> on any handles, no security
  descriptor has been freed twice, the count of an owner is the number of the open handles that were asked for it, and the
  descriptors that are allocated are those of the entries; so none is left when all handles are closed.
\<close>

theorem sid_cache_exact:
  assumes "run sid_step as sid_cache_new = Some w"
  shows "\<not> sc_fault w \<and>
    (\<forall>hash. (case sc_map w hash of None \<Rightarrow> 0 | Some (_, n) \<Rightarrow> n) = card {h. sc_handles w h = Some hash}) \<and>
    sc_live w = {sd. \<exists>hash n. sc_map w hash = Some (sd, n)} \<and> (sc_handles w = Map.empty \<longrightarrow> sc_live w = {})"
proof -
  have inv: "sid_inv w" by (rule sids.run_inv [OF sid_new_inv assms])
  have card: "(case sc_map w hash of None \<Rightarrow> 0 | Some (_, n) \<Rightarrow> n) = card {h. sc_handles w h = Some hash}" for hash
    using sid_invD(3) [OF inv, of hash] sid_invD(4) [OF inv, of hash] by (auto simp: handles_of_def split: option.split)
  moreover have live: "sc_live w = {sd. \<exists>hash n. sc_map w hash = Some (sd, n)}"
    using sid_invD(4) [OF inv] sid_invD(6) [OF inv] by blast
  moreover have "sc_live w = {}" if "sc_handles w = Map.empty"
  proof (rule ccontr)
    assume "sc_live w \<noteq> {}"
    then obtain hash sd n where "sc_map w hash = Some (sd, n)" using live by auto
    from sid_invD(4) [OF inv this] that show False by (auto simp: handles_of_def)
  qed
  ultimately show ?thesis using sid_invD(1) [OF inv] by blast
qed

lemma sid_cache_exact_witness:
  "\<exists>w. run sid_step [Sid_get 4 700 [1, 2], Sid_get 8 701 [1, 2], Sid_close 4] sid_cache_new = Some w \<and>
     sc_live w = {700} \<and> \<not> sc_fault w \<and> card {h. sc_handles w h = Some (owner_hash [1, 2])} = 1"
proof -
  have "\<exists>w. run sid_step [Sid_get 4 700 [1, 2], Sid_get 8 701 [1, 2], Sid_close 4] sid_cache_new = Some w \<and>
      sc_live w = {700} \<and> sc_map w (owner_hash [1, 2]) = Some (700, 1)"
    by (simp add: sid_cache_new_def sid_get_def sid_close_def sid_drop_def sid_remove_def local_free_def Let_def)
  then obtain w where w: "run sid_step [Sid_get 4 700 [1, 2], Sid_get 8 701 [1, 2], Sid_close 4] sid_cache_new = Some w"
    "sc_live w = {700}" "sc_map w (owner_hash [1, 2]) = Some (700, 1)" by (elim exE conjE) (rule that)
  from sid_cache_exact [OF w(1)] have "\<not> sc_fault w"
    "(case sc_map w (owner_hash [1, 2]) of None \<Rightarrow> 0 | Some (_, n) \<Rightarrow> n) = card {h. sc_handles w h = Some (owner_hash [1, 2])}"
    by blast+
  with w show ?thesis by (intro exI [of _ w]) simp
qed

text \<open>
  Between the two steps of \<open>submit_close\<close> another thread can ask for a file of the same owner: its descriptor is freed, the
  freed one is counted again, and then the entry goes; closing that handle finds nothing to count.
\<close>

theorem sid_close_race:
  "\<exists>w1 removed w2 w3. sid_step (Sid_get 4 700 sid) sid_cache_new = Some w1 \<and> sid_drop 4 w1 = (removed, w2) \<and>
     sid_step (Sid_get 8 701 sid) w2 = Some w3 \<and>
     sc_map w3 (owner_hash sid) = Some (700, 1) \<and> 700 \<notin> sc_live w3 \<and>
     sc_map (sid_remove removed w3) (owner_hash sid) = None \<and> sc_handles (sid_remove removed w3) 8 = Some (owner_hash sid)"
  by (simp add: sid_cache_new_def sid_get_def sid_drop_def sid_remove_def local_free_def Let_def)

end
