(* ===== verification/Process.thy ===== *)
theory Process
  imports Asco_Prelude
begin

text \<open>
  \<open>asco/core/os/process\<close>: sets of processors and the affinity of a thread, on Linux and on Windows, where processors come in groups
  and a thread runs in one group only. A worker asks for the processor of its own number. The names of threads. And \<open>asco/core/os/terminal\<close>.
\<close>

section \<open>Sets of processors\<close>

definition cpu_set_with :: "nat \<Rightarrow> nat list \<Rightarrow> nat list" where
  "cpu_set_with i cpus = cpus @ [i]"

text \<open>Linux: the mask of the kernel; the call fails if it names no processor that is there (\<open>online\<close>).\<close>

definition linux_affinity :: "nat set \<Rightarrow> nat list \<Rightarrow> nat set option" where
  "linux_affinity online cpus = (if set cpus \<inter> online = {} then None else Some (set cpus \<inter> online))"

section \<open>Processor groups\<close>

text \<open>\<open>counts\<close> are the numbers of active processors of the groups, \<open>base\<close> is \<open>base_index\<close>.\<close>

definition group_mask :: "nat \<Rightarrow> nat \<Rightarrow> nat list \<Rightarrow> u64" where
  "group_mask base cnt cpus =
     foldl (\<lambda>mask i. if base \<le> i \<and> i < base + cnt then mask OR push_bit (i - base) 1 else mask) 0 cpus"

fun group_affinity :: "nat \<Rightarrow> nat \<Rightarrow> nat list \<Rightarrow> nat list \<Rightarrow> (nat \<times> u64) option \<Rightarrow> (nat \<times> u64) option" where
  "group_affinity g base [] cpus found = found"
| "group_affinity g base (cnt # counts) cpus found =
     (let mask = group_mask base cnt cpus in
      if mask \<noteq> 0
      then (if found \<noteq> None then None else group_affinity (g + 1) (base + cnt) counts cpus (Some (g, mask)))
      else group_affinity (g + 1) (base + cnt) counts cpus found)"

definition win_affinity :: "nat list \<Rightarrow> nat list \<Rightarrow> (nat \<times> u64) option" where
  "win_affinity counts cpus = (if cpus = [] then None else group_affinity 0 0 counts cpus None)"

section \<open>What the mask is\<close>

lemma bit_group_mask:
  assumes "cnt \<le> 64"
  shows "bit (group_mask base cnt cpus) k \<longleftrightarrow> k < cnt \<and> base + k \<in> set cpus"
proof -
  have one: "bit (push_bit m (1 :: u64)) k \<longleftrightarrow> k = m \<and> m < 64" for m
    by (auto simp: push_bit_of_1 bit_exp_iff)
  have "bit (foldl (\<lambda>mask i. if base \<le> i \<and> i < base + cnt then mask OR push_bit (i - base) 1 else mask) (m :: u64) cpus) k \<longleftrightarrow>
      bit m k \<or> (k < cnt \<and> base + k \<in> set cpus)" for m
  proof (induction cpus arbitrary: m)
    case (Cons i cpus)
    let ?m = "if base \<le> i \<and> i < base + cnt then m OR push_bit (i - base) 1 else m"
    have "bit ?m k \<longleftrightarrow> bit m k \<or> (k < cnt \<and> base + k = i)"
    proof (cases "base \<le> i \<and> i < base + cnt")
      case True
      then have "bit ?m k \<longleftrightarrow> bit m k \<or> k = i - base \<and> i - base < 64"
        by (simp add: bit_or_iff one del: push_bit_of_1)
      with True assms show ?thesis by auto
    next
      case False
      then show ?thesis by auto
    qed
    with Cons.IH [of ?m] show ?case by auto
  qed simp
  then show ?thesis by (simp add: group_mask_def)
qed

lemma group_mask_zero: "cnt \<le> 64 \<Longrightarrow> group_mask base cnt cpus = 0 \<longleftrightarrow> (\<forall>k<cnt. base + k \<notin> set cpus)"
  by (auto simp: bit_eq_iff bit_group_mask)

text \<open>Where a group begins.\<close>

definition group_base :: "nat list \<Rightarrow> nat \<Rightarrow> nat" where
  "group_base counts g = sum_list (take g counts)"

lemma group_affinity_found:
  assumes "\<forall>c\<in>set counts. c \<le> 64" "group_affinity g base counts cpus (Some r) = Some r'"
  shows "r' = r \<and> (\<forall>j<length counts. \<forall>k<counts ! j. base + group_base counts j + k \<notin> set cpus)"
  using assms
proof (induction counts arbitrary: g base)
  case (Cons cnt counts)
  then have z: "group_mask base cnt cpus = 0" "group_affinity (g + 1) (base + cnt) counts cpus (Some r) = Some r'"
    by (auto simp: Let_def split: if_splits)
  with Cons.IH [of "g + 1" "base + cnt"] Cons.prems(1) have IH: "r' = r"
    "\<And>j k. j < length counts \<Longrightarrow> k < counts ! j \<Longrightarrow> base + cnt + group_base counts j + k \<notin> set cpus" by auto
  have "\<forall>k<cnt. base + k \<notin> set cpus" using z(1) Cons.prems(1) by (simp add: group_mask_zero)
  with IH show ?case by (auto simp: group_base_def nth_Cons less_Suc_eq_0_disj add.assoc split: nat.splits)
qed simp

lemma group_affinity_none:
  assumes "\<forall>c\<in>set counts. c \<le> 64" "group_affinity g base counts cpus None = Some (g', ms)"
  shows "\<exists>i<length counts. g' = g + i \<and> ms = group_mask (base + group_base counts i) (counts ! i) cpus \<and> ms \<noteq> 0 \<and>
    (\<forall>j<length counts. j \<noteq> i \<longrightarrow> (\<forall>k<counts ! j. base + group_base counts j + k \<notin> set cpus))"
  using assms
proof (induction counts arbitrary: g base)
  case (Cons cnt counts)
  show ?case
  proof (cases "group_mask base cnt cpus = 0")
    case True
    with Cons.prems have "group_affinity (g + 1) (base + cnt) counts cpus None = Some (g', ms)" "\<forall>c\<in>set counts. c \<le> 64"
      by (simp_all add: Let_def)
    from Cons.IH [OF this(2,1)] obtain i where i: "i < length counts" "g' = g + 1 + i"
      "ms = group_mask (base + cnt + group_base counts i) (counts ! i) cpus" "ms \<noteq> 0"
      "\<And>j k. j < length counts \<Longrightarrow> j \<noteq> i \<Longrightarrow> k < counts ! j \<Longrightarrow> base + cnt + group_base counts j + k \<notin> set cpus" by blast
    have "\<forall>k<cnt. base + k \<notin> set cpus" using True Cons.prems(1) by (simp add: group_mask_zero)
    with i show ?thesis
      by (intro exI [of _ "Suc i"]) (auto simp: group_base_def nth_Cons add.assoc less_Suc_eq_0_disj split: nat.splits)
  next
    case False
    with Cons.prems have "group_affinity (g + 1) (base + cnt) counts cpus (Some (g, group_mask base cnt cpus)) = Some (g', ms)"
      "\<forall>c\<in>set counts. c \<le> 64" by (simp_all add: Let_def)
    from group_affinity_found [OF this(2,1)] have r: "g' = g" "ms = group_mask base cnt cpus"
      "\<And>j k. j < length counts \<Longrightarrow> k < counts ! j \<Longrightarrow> base + cnt + group_base counts j + k \<notin> set cpus" by auto
    with False show ?thesis
      by (intro exI [of _ 0]) (auto simp: group_base_def nth_Cons add.assoc less_Suc_eq_0_disj split: nat.splits)
  qed
qed simp

text \<open>
  The affinity that is set names exactly the processors asked for, all of which are in its group, as far as they exist.
\<close>

theorem win_affinity_exact:
  assumes "\<forall>c\<in>set counts. c \<le> 64" "win_affinity counts cpus = Some (g, ms)"
  shows "g < length counts \<and> (\<forall>k. bit ms k \<longleftrightarrow> k < counts ! g \<and> group_base counts g + k \<in> set cpus) \<and>
    (\<forall>j<length counts. j \<noteq> g \<longrightarrow> (\<forall>k<counts ! j. group_base counts j + k \<notin> set cpus))"
proof -
  have "group_affinity 0 0 counts cpus None = Some (g, ms)" using assms(2) by (simp add: win_affinity_def split: if_splits)
  from group_affinity_none [OF assms(1) this] obtain i where i: "i < length counts" "g = i"
    "ms = group_mask (group_base counts i) (counts ! i) cpus"
    "\<forall>j<length counts. j \<noteq> i \<longrightarrow> (\<forall>k<counts ! j. group_base counts j + k \<notin> set cpus)" by auto
  moreover have "counts ! i \<le> 64" using assms(1) i(1) by simp
  ultimately show ?thesis by (simp add: bit_group_mask)
qed

section \<open>Workers\<close>

text \<open>\<open>worker::init\<close>: the worker of number \<open>i\<close> runs on the processor of that number, or panics.\<close>

definition worker_init :: "(nat list \<Rightarrow> 'a option) \<Rightarrow> nat \<Rightarrow> 'a outcome" where
  "worker_init set_affinity i = (case set_affinity (cpu_set_with i []) of None \<Rightarrow> Inl Os_failure | Some r \<Rightarrow> Inr r)"

lemma linux_worker_init: "worker_init (linux_affinity online) i = (if i \<in> online then Inr {i} else Inl Os_failure)"
  by (auto simp: worker_init_def linux_affinity_def cpu_set_with_def)

lemma win_worker_init:
  assumes "\<forall>c\<in>set counts. c \<le> 64" "worker_init (win_affinity counts) i = Inr (g, ms)" "bit ms k"
  shows "group_base counts g + k = i"
proof -
  have "win_affinity counts [i] = Some (g, ms)"
    using assms(2) by (simp add: worker_init_def cpu_set_with_def split: option.splits)
  from win_affinity_exact [OF assms(1) this] assms(3) show ?thesis by simp
qed

section \<open>Names of threads\<close>

text \<open>
  \<open>set_thread_name\<close>: \<open>sys\<close> and \<open>api\<close> are what the systems make of a name. Linux gets the characters before the first null. On Windows
  a character becomes a \<open>wchar_t\<close> of its own, by sign extension, as \<open>char\<close> is signed there.
\<close>

definition linux_set_name :: "(string \<Rightarrow> int) \<Rightarrow> string \<Rightarrow> bool" where
  "linux_set_name sys name \<longleftrightarrow> sys (takeWhile (\<lambda>c. c \<noteq> CHR 0x00) name) = 0"

definition win_set_name :: "(16 word list \<Rightarrow> int) \<Rightarrow> byte list \<Rightarrow> bool" where
  "win_set_name api name \<longleftrightarrow> 0 \<le> api (takeWhile (\<lambda>c. c \<noteq> 0) (map scast name))"

text \<open>\<open>std::format("asco::w{}", id)\<close>.\<close>

fun decimal :: "nat \<Rightarrow> string" where
  "decimal n = (if n < 10 then [char_of (48 + n)] else decimal (n div 10) @ [char_of (48 + n mod 10)])"

declare decimal.simps [simp del]

definition worker_name :: "nat \<Rightarrow> string" where
  "worker_name i = ''asco::w'' @ decimal i"

lemma decimal_length: "0 < k \<Longrightarrow> n < 10 ^ k \<Longrightarrow> length (decimal n) \<le> k"
proof (induction n arbitrary: k rule: decimal.induct)
  case (1 n)
  show ?case
  proof (cases "n < 10")
    case True
    with 1 show ?thesis by (subst decimal.simps) simp
  next
    case False
    with 1(2,3) obtain j where j: "k = Suc j" "0 < j" by (cases k; cases "k - 1") auto
    with 1(3) have "n div 10 < 10 ^ j" by (simp add: div_less_iff_less_mult mult.commute)
    with 1(1) [OF False j(2)] False j(1) show ?thesis by (subst decimal.simps) simp
  qed
qed

text \<open>The kernel takes names of at most 15 characters: those of the first hundred million workers are.\<close>

lemma worker_name_fits:
  assumes "\<And>name. length name \<le> 15 \<Longrightarrow> sys name = 0" "i < 10 ^ 8"
  shows "linux_set_name sys (worker_name i)"
proof -
  have "length (worker_name i) \<le> 15" using decimal_length [of 8 i] assms(2) by (simp add: worker_name_def)
  then have "length (takeWhile (\<lambda>c. c \<noteq> CHR 0x00) (worker_name i)) \<le> 15"
    using length_takeWhile_le [of "\<lambda>c. c \<noteq> CHR 0x00" "worker_name i"] by linarith
  with assms(1) show ?thesis by (simp add: linux_set_name_def)
qed

section \<open>The terminal\<close>

text \<open>
  On Linux a \<open>terminal\<close> is the screen of curses: the constructor begins it, the destructor ends it, also that of the temporary from
  which \<open>get\<close> moves into its result. \<open>cs_on\<close> tells whether the screen is up, the others count the calls.
\<close>

record curses =
  cs_on :: bool
  cs_begun :: nat
  cs_ended :: nat

definition terminal_ctor :: "curses \<Rightarrow> curses" where
  "terminal_ctor c = c\<lparr>cs_on := True, cs_begun := cs_begun c + 1\<rparr>"

definition terminal_dtor :: "curses \<Rightarrow> curses" where
  "terminal_dtor c = c\<lparr>cs_on := False, cs_ended := cs_ended c + 1\<rparr>"

definition terminal_get :: "bool \<Rightarrow> curses \<Rightarrow> bool \<times> curses" where
  "terminal_get isatty c = (if \<not> isatty then (False, c) else (True, terminal_dtor (terminal_ctor c)))"

text \<open>\<open>width\<close> and \<open>height\<close>: \<open>getmaxx\<close> and \<open>getmaxy\<close> give an \<open>int\<close>, which is -1 for an error.\<close>

definition linux_width :: "32 word \<Rightarrow> u64" where
  "linux_width maxx = scast maxx"

definition linux_height :: "32 word \<Rightarrow> u64" where
  "linux_height maxy = scast maxy"

lemma linux_width_exact:
  assumes "0 \<le> sint x"
  shows "uint (linux_width x) = sint x"
proof -
  have "sint x < 2 ^ 31" using sint_lt [of x] by simp
  with assms have k: "take_bit 64 (sint x) = sint x" by (intro take_bit_int_eq_self) simp_all
  have "linux_width x = word_of_int (sint x)" by (simp add: linux_width_def)
  then have "uint (linux_width x) = take_bit 64 (sint x)" by (simp only: unsigned_of_int) simp
  with k show ?thesis by simp
qed

lemma linux_width_error: "linux_width (- 1) = - 1" "linux_height (- 1) = - 1"
  by (simp_all add: linux_width_def linux_height_def)

text \<open>
  Windows: \<open>get\<close> keeps the handle of the standard output, which has to be one of a console; \<open>mode_ok\<close> is the answer of \<open>GetConsoleMode\<close>.
\<close>

definition win_terminal_get :: "u64 \<Rightarrow> bool \<Rightarrow> u64 option" where
  "win_terminal_get h mode_ok = (if h = 0 \<or> h = - 1 \<or> \<not> mode_ok then None else Some h)"

text \<open>Windows: \<open>width\<close> and \<open>height\<close> of the window, whose borders are \<open>SHORT\<close>; a console that does not answer is a panic.\<close>

record win_screen =
  sw_left :: "16 word"
  sw_top :: "16 word"
  sw_right :: "16 word"
  sw_bottom :: "16 word"

definition win_width :: "win_screen option \<Rightarrow> u64 outcome" where
  "win_width info = (case info of None \<Rightarrow> Inl Os_failure | Some i \<Rightarrow> Inr (word_of_int (sint (sw_right i) - sint (sw_left i) + 1)))"

definition win_height :: "win_screen option \<Rightarrow> u64 outcome" where
  "win_height info = (case info of None \<Rightarrow> Inl Os_failure | Some i \<Rightarrow> Inr (word_of_int (sint (sw_bottom i) - sint (sw_top i) + 1)))"

lemma terminal_session:
  assumes "terminal_get True c = (True, c')"
  shows "\<not> cs_on c' \<and> cs_ended (terminal_dtor c') = cs_ended c + 2 \<and> cs_begun (terminal_dtor c') = cs_begun c + 1"
  using assms by (auto simp: terminal_get_def terminal_ctor_def terminal_dtor_def)

lemma win_width_exact:
  assumes "sint (sw_left i) \<le> sint (sw_right i)"
  shows "\<exists>n. win_width (Some i) = Inr n \<and> int (unat n) = sint (sw_right i) - sint (sw_left i) + 1"
proof -
  have "sint (sw_right i) < 2 ^ 15" "- (2 ^ 15) \<le> sint (sw_left i)"
    using sint_lt [of "sw_right i"] sint_ge [of "sw_left i"] by simp_all
  then have k: "0 \<le> sint (sw_right i) - sint (sw_left i) + 1" "sint (sw_right i) - sint (sw_left i) + 1 < 2 ^ 64"
    using assms by simp_all
  have "uint (word_of_int m :: u64) = m" if "0 \<le> m" "m < 2 ^ 64" for m
    using that by (simp add: unsigned_of_int take_bit_int_eq_self)
  from this [OF k] show ?thesis
    unfolding win_width_def option.case uint_nat [symmetric] by blast
qed

end
