(* ===== verification/File.thy ===== *)
theory File
  imports Io_Adapter
begin

text \<open>
  \<open>asco/io/file\<close>: files over the adapter. The answers of the kernel are parameters; what is submitted to
  the adapter besides reads and writes is the list of handles to close.
\<close>

section \<open>Files\<close>

text \<open>\<open>fl_ptr\<close> is \<open>m_fptr\<close>, a \<open>std::ptrdiff_t\<close>; arithmetic that leaves its range is undefined (\<open>None\<close>).\<close>

record io_file =
  fl_handle :: u64
  fl_valid :: bool
  fl_ptr :: int

definition ptrdiff :: "int \<Rightarrow> int option" where
  "ptrdiff x = (if - (2 ^ 63) \<le> x \<and> x < 2 ^ 63 then Some x else None)"

definition file_default :: io_file where
  "file_default = \<lparr>fl_handle = 0, fl_valid = False, fl_ptr = 0\<rparr>"

definition file_from_handle :: "u64 \<Rightarrow> io_file" where
  "file_from_handle h = \<lparr>fl_handle = h, fl_valid = True, fl_ptr = 0\<rparr>"

text \<open>The move constructor: the new file, and the source afterwards.\<close>

definition file_move :: "io_file \<Rightarrow> io_file \<times> io_file" where
  "file_move rhs = (rhs, rhs\<lparr>fl_valid := False\<rparr>)"

text \<open>The second result is the list of handles whose closing was submitted.\<close>

definition file_close :: "io_file \<Rightarrow> io_file \<times> u64 list" where
  "file_close f = (if fl_valid f then (f\<lparr>fl_valid := False\<rparr>, [fl_handle f]) else (f, []))"

definition file_open :: "errno \<Rightarrow> int \<Rightarrow> io_file \<Rightarrow> ((open_failed \<times> int) + unit) \<times> io_file \<times> u64 list" where
  "file_open c res f =
     (case file_close f of
        (f, cs) \<Rightarrow>
          (case open_result c res of
             Inl e \<Rightarrow> (Inl e, f, cs)
           | Inr h \<Rightarrow> (Inr (), f\<lparr>fl_handle := h, fl_valid := True, fl_ptr := 0\<rparr>, cs)))"

section \<open>Positions\<close>

datatype seek_mode = Seek_set | Seek_current | Seek_end

datatype 'a file_result = File_ok 'a | File_panic | File_undefined

text \<open>\<open>file_size\<close> is what \<open>get_state\<close> tells, as a \<open>std::ptrdiff_t\<close>.\<close>

definition file_seek :: "int \<Rightarrow> int \<Rightarrow> seek_mode \<Rightarrow> io_file \<Rightarrow> io_file file_result" where
  "file_seek file_size offset mode f =
     (if \<not> fl_valid f then File_panic
      else
        (case mode of
           Seek_set \<Rightarrow> File_ok (f\<lparr>fl_ptr := (if offset < 0 then 0 else offset)\<rparr>)
         | Seek_current \<Rightarrow>
             if offset < 0 \<and> ptrdiff (- offset) = None then File_undefined
             else if offset < 0 \<and> - offset > fl_ptr f then File_ok (f\<lparr>fl_ptr := 0\<rparr>)
             else (case ptrdiff (fl_ptr f + offset) of None \<Rightarrow> File_undefined | Some p \<Rightarrow> File_ok (f\<lparr>fl_ptr := p\<rparr>))
         | Seek_end \<Rightarrow>
             let p = (if offset > 0 then 0 else offset) in
             if ptrdiff (- p) = None then File_undefined
             else if - p > file_size then File_ok (f\<lparr>fl_ptr := 0\<rparr>)
             else (case ptrdiff (p + file_size) of None \<Rightarrow> File_undefined | Some p \<Rightarrow> File_ok (f\<lparr>fl_ptr := p\<rparr>))))"

text \<open>
  \<open>read\<close> and \<open>write\<close> ask for the bytes from \<open>fl_ptr\<close> on; \<open>res\<close> is the answer of the kernel. The result is
  the error or the number of bytes, and the file afterwards.
\<close>

definition file_transfer :: "errno \<Rightarrow> int \<Rightarrow> io_file \<Rightarrow> (((rw_failed \<times> int) + u64) \<times> io_file) file_result" where
  "file_transfer c res f =
     (if \<not> fl_valid f then File_panic
      else
        (case rw_result c res of
           Inl e \<Rightarrow> File_ok (Inl e, f)
         | Inr n \<Rightarrow>
             (case ptrdiff (fl_ptr f + uint n) of
                None \<Rightarrow> File_undefined
              | Some p \<Rightarrow> File_ok (Inr n, f\<lparr>fl_ptr := p\<rparr>))))"

section \<open>The builder\<close>

record file_builder =
  fb_path :: string
  fb_flags :: flags
  fb_modes :: flags

text \<open>\<open>file::at\<close> and \<open>file::create\<close>.\<close>

definition file_builder_new :: "string \<Rightarrow> bool \<Rightarrow> file_builder option" where
  "file_builder_new path create =
     (case (flags_of_list ((if create then [open_flag_value Open_create] else []) @ [open_flag_value Open_read]),
            flags_of_list (map create_mode_value [Mode_read, Mode_write, Mode_read_share])) of
        (Some f, Some m) \<Rightarrow> Some \<lparr>fb_path = path, fb_flags = f, fb_modes = m\<rparr>
      | _ \<Rightarrow> None)"

definition enable_flag :: "open_flag \<Rightarrow> file_builder \<Rightarrow> file_builder option" where
  "enable_flag e b = map_option (\<lambda>f. b\<lparr>fb_flags := f\<rparr>) (flags_or_assign_e (fb_flags b) (open_flag_value e))"

definition disable_flag :: "open_flag \<Rightarrow> file_builder \<Rightarrow> file_builder option" where
  "disable_flag e b = map_option (\<lambda>f. b\<lparr>fb_flags := f\<rparr>) (flags_minus_assign (fb_flags b) (open_flag_value e))"

definition with_mode :: "flags \<Rightarrow> file_builder \<Rightarrow> file_builder" where
  "with_mode m b = b\<lparr>fb_modes := m\<rparr>"

text \<open>\<open>file_open::open\<close>: what the kernel is asked for (access flags, mode), and the file made of its answer.\<close>

definition builder_request :: "fcntl \<Rightarrow> file_builder \<Rightarrow> string \<times> u32 \<times> u32" where
  "builder_request c b = (fb_path b, os_open_flags c (fb_flags b), os_open_mode (fb_modes b))"

definition builder_open :: "errno \<Rightarrow> int \<Rightarrow> (open_failed \<times> int) + io_file" where
  "builder_open c res = (case open_result c res of Inl e \<Rightarrow> Inl e | Inr h \<Rightarrow> Inr (file_from_handle h))"

section \<open>Sessions\<close>

text \<open>
  A program with file variables. \<open>fs_opened\<close> and \<open>fs_closed\<close> are history: the handles that the kernel
  gave out, and those whose closing was submitted.
\<close>

record files =
  fs_files :: "io_file list"
  fs_opened :: "u64 list"
  fs_closed :: "u64 list"

datatype file_action =
    File_new
  | File_build int
  | File_open nat int
  | File_close nat
  | File_move_new nat
  | File_move_assign nat nat
  | File_destroy nat
  | File_seek nat int int seek_mode
  | File_transfer nat int

definition answer_handle :: "errno \<Rightarrow> int \<Rightarrow> u64 list" where
  "answer_handle c res = (case open_result c res of Inl _ \<Rightarrow> [] | Inr h \<Rightarrow> [h])"

text \<open>\<open>operator=\<close> of the \<open>i\<close>-th from the \<open>j\<close>-th file.\<close>

definition file_assign :: "nat \<Rightarrow> nat \<Rightarrow> io_file list \<Rightarrow> io_file list \<times> u64 list" where
  "file_assign i j fs =
     (if i = j then (fs, [])
      else (case (file_close (fs ! i), file_move (fs ! j)) of
              ((_, cs), (new, old)) \<Rightarrow> (fs[i := new, j := old], cs)))"

fun files_step :: "errno \<Rightarrow> file_action \<Rightarrow> files \<Rightarrow> files option" where
  "files_step c File_new w = Some (w\<lparr>fs_files := fs_files w @ [file_default]\<rparr>)"
| "files_step c (File_build res) w =
     (case builder_open c res of
        Inl _ \<Rightarrow> Some w
      | Inr f \<Rightarrow> Some (w\<lparr>fs_files := fs_files w @ [f], fs_opened := fs_opened w @ answer_handle c res\<rparr>))"
| "files_step c (File_open i res) w =
     (if i < length (fs_files w)
      then (case file_open c res (fs_files w ! i) of
              (_, f, cs) \<Rightarrow>
                Some \<lparr>fs_files = (fs_files w)[i := f], fs_opened = fs_opened w @ answer_handle c res,
                      fs_closed = fs_closed w @ cs\<rparr>)
      else None)"
| "files_step c (File_close i) w =
     (if i < length (fs_files w)
      then (case file_close (fs_files w ! i) of
              (f, cs) \<Rightarrow> Some (w\<lparr>fs_files := (fs_files w)[i := f], fs_closed := fs_closed w @ cs\<rparr>))
      else None)"
| "files_step c (File_move_new i) w =
     (if i < length (fs_files w)
      then (case file_move (fs_files w ! i) of
              (new, old) \<Rightarrow> Some (w\<lparr>fs_files := (fs_files w)[i := old] @ [new]\<rparr>))
      else None)"
| "files_step c (File_move_assign i j) w =
     (if i < length (fs_files w) \<and> j < length (fs_files w)
      then (case file_assign i j (fs_files w) of
              (fs, cs) \<Rightarrow> Some (w\<lparr>fs_files := fs, fs_closed := fs_closed w @ cs\<rparr>))
      else None)"
| "files_step c (File_destroy i) w =
     (if i < length (fs_files w)
      then (case file_close (fs_files w ! i) of
              (_, cs) \<Rightarrow> Some (w\<lparr>fs_files := take i (fs_files w) @ drop (Suc i) (fs_files w),
                                fs_closed := fs_closed w @ cs\<rparr>))
      else None)"
| "files_step c (File_seek i sz offset mode) w =
     (if i < length (fs_files w)
      then (case file_seek sz offset mode (fs_files w ! i) of
              File_ok f \<Rightarrow> Some (w\<lparr>fs_files := (fs_files w)[i := f]\<rparr>)
            | _ \<Rightarrow> None)
      else None)"
| "files_step c (File_transfer i res) w =
     (if i < length (fs_files w)
      then (case file_transfer c res (fs_files w ! i) of
              File_ok (_, f) \<Rightarrow> Some (w\<lparr>fs_files := (fs_files w)[i := f]\<rparr>)
            | _ \<Rightarrow> None)
      else None)"

definition files_new :: files where
  "files_new = \<lparr>fs_files = [], fs_opened = [], fs_closed = []\<rparr>"

section \<open>Handles\<close>

text \<open>How often a file holds a handle; every file has a position that is not negative.\<close>

definition holds_handle :: "u64 \<Rightarrow> io_file \<Rightarrow> nat" where
  "holds_handle h f = of_bool (fl_valid f \<and> fl_handle f = h)"

definition held :: "u64 \<Rightarrow> io_file list \<Rightarrow> nat" where
  "held h fs = sum_list (map (holds_handle h) fs)"

definition files_inv :: "files \<Rightarrow> bool" where
  "files_inv w \<longleftrightarrow> (\<forall>h. count_list (fs_opened w) h = count_list (fs_closed w) h + held h (fs_files w)) \<and>
     (\<forall>f\<in>set (fs_files w). 0 \<le> fl_ptr f)"

lemma held_simps [simp]: "held h (fs @ gs) = held h fs + held h gs" "held h [] = 0" "held h (f # fs) = holds_handle h f + held h fs"
  by (simp_all add: held_def)

lemma held_update: "i < length fs \<Longrightarrow> held h (fs[i := f]) + holds_handle h (fs ! i) = held h fs + holds_handle h f"
  unfolding held_def by (rule sum_update)

text \<open>Closing a file moves its handle to the closed ones.\<close>

lemma file_close_held:
  assumes "file_close f = (f', cs)"
  shows "holds_handle h f' = 0" "count_list cs h = holds_handle h f" "fl_ptr f' = fl_ptr f"
  using assms by (auto simp: file_close_def holds_handle_def split: if_splits)

lemma file_open_held:
  assumes "file_open c res f = (r, f', cs)"
  shows "holds_handle h f' = count_list (answer_handle c res) h" "count_list cs h = holds_handle h f" "0 \<le> fl_ptr f \<Longrightarrow> 0 \<le> fl_ptr f'"
proof -
  obtain f1 cs1 where cl: "file_close f = (f1, cs1)" by (cases "file_close f")
  note held = file_close_held(1,2) [OF cl, of h] file_close_held(3) [OF cl]
  from assms cl held show "holds_handle h f' = count_list (answer_handle c res) h" "count_list cs h = holds_handle h f" "0 \<le> fl_ptr f \<Longrightarrow> 0 \<le> fl_ptr f'"
    by (auto simp: file_open_def answer_handle_def holds_handle_def split: sum.splits)
qed

lemma file_seek_frame:
  assumes "file_seek sz offset mode f = File_ok f'" "0 \<le> fl_ptr f"
  shows "holds_handle h f' = holds_handle h f" "0 \<le> fl_ptr f'"
  using assms
  by (auto simp: file_seek_def holds_handle_def ptrdiff_def Let_def split: seek_mode.splits if_splits option.splits)

lemma file_transfer_frame:
  assumes "file_transfer c res f = File_ok (r, f')" "0 \<le> fl_ptr f"
  shows "holds_handle h f' = holds_handle h f" "0 \<le> fl_ptr f'"
  using assms
  by (auto simp: file_transfer_def holds_handle_def ptrdiff_def split: if_splits sum.splits option.splits)

lemma files_inv_update:
  assumes inv: "files_inv w" and i: "i < length (fs_files w)" and pos: "0 \<le> fl_ptr f"
    and opened: "\<And>h. count_list os h + holds_handle h (fs_files w ! i) = count_list cs h + holds_handle h f"
  shows "files_inv \<lparr>fs_files = (fs_files w)[i := f], fs_opened = fs_opened w @ os, fs_closed = fs_closed w @ cs\<rparr>"
proof -
  have "count_list (fs_opened w @ os) h = count_list (fs_closed w @ cs) h + held h ((fs_files w)[i := f])" for h
    using inv held_update [OF i, of h f] opened [of h] by (simp add: files_inv_def)
  with inv pos show ?thesis
    by (auto simp: files_inv_def dest!: set_update_subset_insert [THEN subsetD])
qed

lemma files_inv_same:
  assumes "files_inv w" "i < length (fs_files w)" "0 \<le> fl_ptr f" "\<And>h. holds_handle h f = holds_handle h (fs_files w ! i)"
  shows "files_inv (w\<lparr>fs_files := (fs_files w)[i := f]\<rparr>)"
  using files_inv_update [OF assms(1-3), of "[]" "[]"] assms(4) by (simp add: files_inv_def)

lemma files_inv_assign:
  assumes inv: "files_inv w" and ij: "i < length (fs_files w)" "j < length (fs_files w)"
    and asgn: "file_assign i j (fs_files w) = (fs, cs)"
  shows "files_inv (w\<lparr>fs_files := fs, fs_closed := fs_closed w @ cs\<rparr>)"
proof (cases "i = j")
  case True
  with inv asgn show ?thesis by (cases w) (auto simp: file_assign_def)
next
  case False
  obtain f1 where cl: "file_close (fs_files w ! i) = (f1, cs)"
    and fs: "fs = (fs_files w)[i := fs_files w ! j, j := (fs_files w ! j)\<lparr>fl_valid := False\<rparr>]"
    using asgn False by (auto simp: file_assign_def file_move_def split: prod.splits)
  have "held h fs + holds_handle h (fs_files w ! i) = held h (fs_files w)" for h
  proof -
    have "holds_handle h ((fs_files w ! j)\<lparr>fl_valid := False\<rparr>) = 0" by (simp add: holds_handle_def)
    then show ?thesis
      using held_update [OF ij(1), of h "fs_files w ! j"] False ij
        held_update [of j "(fs_files w)[i := fs_files w ! j]" h "(fs_files w ! j)\<lparr>fl_valid := False\<rparr>"]
      by (simp add: fs)
  qed
  moreover have "\<forall>f\<in>set fs. 0 \<le> fl_ptr f"
    using inv ij by (auto simp: fs files_inv_def dest!: set_update_subset_insert [THEN subsetD])
  ultimately show ?thesis
    using inv file_close_held(2) [OF cl] by (simp add: files_inv_def) (metis add.assoc add.commute)
qed

lemma files_step_inv: "files_inv w \<Longrightarrow> files_step c a w = Some w' \<Longrightarrow> files_inv w'"
proof (induction c a w rule: files_step.induct)
  case (1 c w)
  then show ?case by (auto simp: files_inv_def file_default_def holds_handle_def)
next
  case (2 c res w)
  then show ?case
    by (auto simp: files_inv_def builder_open_def answer_handle_def file_from_handle_def holds_handle_def split: sum.splits)
next
  case (3 c i res w)
  then obtain r f cs where i: "i < length (fs_files w)" and op: "file_open c res (fs_files w ! i) = (r, f, cs)"
    and w': "w' = \<lparr>fs_files = (fs_files w)[i := f], fs_opened = fs_opened w @ answer_handle c res, fs_closed = fs_closed w @ cs\<rparr>"
    by (auto split: if_splits prod.splits)
  have "0 \<le> fl_ptr (fs_files w ! i)" using 3(1) i by (simp add: files_inv_def)
  then show ?case
    unfolding w' using file_open_held [OF op] 3(1) i by (intro files_inv_update) simp_all
next
  case (4 c i w)
  then obtain f cs where i: "i < length (fs_files w)" and cl: "file_close (fs_files w ! i) = (f, cs)"
    and w': "w' = w\<lparr>fs_files := (fs_files w)[i := f], fs_closed := fs_closed w @ cs\<rparr>"
    by (auto split: if_splits prod.splits)
  have "0 \<le> fl_ptr (fs_files w ! i)" using 4(1) i by (simp add: files_inv_def)
  then have "files_inv \<lparr>fs_files = (fs_files w)[i := f], fs_opened = fs_opened w @ [], fs_closed = fs_closed w @ cs\<rparr>"
    using file_close_held [OF cl] 4(1) i by (intro files_inv_update) simp_all
  then show ?case by (simp add: w' files_inv_def)
next
  case (5 c i w)
  then have i: "i < length (fs_files w)"
    and w': "w' = w\<lparr>fs_files := (fs_files w)[i := (fs_files w ! i)\<lparr>fl_valid := False\<rparr>] @ [fs_files w ! i]\<rparr>"
    by (auto simp: file_move_def split: if_splits)
  have "held h (fs_files w') = held h (fs_files w)" for h
    using held_update [OF i, of h "(fs_files w ! i)\<lparr>fl_valid := False\<rparr>"] by (simp add: w') (simp add: holds_handle_def)
  moreover have "\<forall>f\<in>set (fs_files w'). 0 \<le> fl_ptr f"
    using 5(1) i by (auto simp: w' files_inv_def dest!: set_update_subset_insert [THEN subsetD])
  ultimately show ?case using 5(1) by (simp add: files_inv_def) (simp add: w')
next
  case (6 c i j w)
  then show ?case by (auto split: if_splits prod.splits intro: files_inv_assign)
next
  case (7 c i w)
  then obtain f cs where i: "i < length (fs_files w)" and cl: "file_close (fs_files w ! i) = (f, cs)"
    and w': "w' = w\<lparr>fs_files := take i (fs_files w) @ drop (Suc i) (fs_files w), fs_closed := fs_closed w @ cs\<rparr>"
    by (auto split: if_splits prod.splits)
  have "held h (fs_files w) = held h (fs_files w') + holds_handle h (fs_files w ! i)" for h
    by (subst id_take_nth_drop [OF i]) (simp add: w')
  moreover have "\<forall>f\<in>set (fs_files w'). 0 \<le> fl_ptr f"
    using 7(1) by (auto simp: w' files_inv_def dest: in_set_takeD in_set_dropD)
  ultimately show ?case
    using 7(1) file_close_held(2) [OF cl] by (simp add: files_inv_def) (simp add: w')
next
  case (8 c i sz offset mode w)
  then obtain f where i: "i < length (fs_files w)" and sk: "file_seek sz offset mode (fs_files w ! i) = File_ok f"
    and w': "w' = w\<lparr>fs_files := (fs_files w)[i := f]\<rparr>"
    by (auto split: if_splits file_result.splits)
  have "0 \<le> fl_ptr (fs_files w ! i)" using 8(1) i by (simp add: files_inv_def)
  with file_seek_frame [OF sk] 8(1) i show ?case unfolding w' by (intro files_inv_same) auto
next
  case (9 c i res w)
  then obtain r f where i: "i < length (fs_files w)" and tr: "file_transfer c res (fs_files w ! i) = File_ok (r, f)"
    and w': "w' = w\<lparr>fs_files := (fs_files w)[i := f]\<rparr>"
    by (auto split: if_splits file_result.splits)
  have "0 \<le> fl_ptr (fs_files w ! i)" using 9(1) i by (simp add: files_inv_def)
  with file_transfer_frame [OF tr] 9(1) i show ?case unfolding w' by (intro files_inv_same) auto
qed

interpretation fl: invariant_system "files_step c" files_inv for c
  by unfold_locales (rule files_step_inv)

lemma files_new_inv: "files_inv files_new"
  by (simp add: files_inv_def files_new_def)

section \<open>Properties\<close>

text \<open>
  C29: Handles are closed once. In any session with any number of files (opened, opened again, closed,
  moved, assigned, destroyed, read, written and repositioned), every handle that the kernel gave out was
  closed or is held by exactly one valid file, as often as it was given out; no file has a negative position.
\<close>

theorem file_handles_closed_once:
  assumes "run (files_step c) as files_new = Some w"
  shows "count_list (fs_opened w) h =
      count_list (fs_closed w) h + length (filter (\<lambda>f. fl_valid f \<and> fl_handle f = h) (fs_files w)) \<and>
    list_all (\<lambda>f. 0 \<le> fl_ptr f) (fs_files w)"
proof -
  have inv: "files_inv w" by (rule fl.run_inv [OF files_new_inv assms])
  have "held h fs = length (filter (\<lambda>f. fl_valid f \<and> fl_handle f = h) fs)" for fs
    by (induction fs) (auto simp: holds_handle_def)
  with inv show ?thesis by (simp add: files_inv_def list_all_iff)
qed

definition linux_errno :: errno where
  "linux_errno = \<lparr>enoent = 2, eacces = 13, eexist = 17, enametoolong = 36, enotdir = 20, eisdir = 21, emfile = 24,
     enfile = 23, ebadf = 9, efault = 14\<rparr>"

lemma file_handles_closed_once_witness:
  "\<exists>w. run (files_step linux_errno) [File_build 5, File_new, File_move_assign 1 0, File_open 1 6, File_move_new 1,
        File_seek 2 100 (- 10) Seek_end, File_transfer 2 10, File_destroy 0, File_build (- 2)] files_new = Some w \<and>
     fs_opened w = [5, 6] \<and> fs_closed w = [5] \<and> count_list (fs_opened w) 6 = 1 \<and>
     list_all (\<lambda>f. 0 \<le> fl_ptr f) (fs_files w)"
proof -
  let ?as = "[File_build 5, File_new, File_move_assign 1 0, File_open 1 6, File_move_new 1,
        File_seek 2 100 (- 10) Seek_end, File_transfer 2 10, File_destroy 0, File_build (- 2)]"
  have "\<exists>w. run (files_step linux_errno) ?as files_new = Some w \<and> fs_opened w = [5, 6] \<and> fs_closed w = [5]"
    by (simp add: files_new_def builder_open_def open_result_def linux_errno_def file_from_handle_def file_default_def
        file_assign_def file_close_def file_move_def file_open_def answer_handle_def file_seek_def ptrdiff_def
        file_transfer_def rw_result_def Let_def)
  then obtain w where w: "run (files_step linux_errno) ?as files_new = Some w" "fs_opened w = [5, 6]" "fs_closed w = [5]"
    by (elim exE conjE) (rule that)
  have "list_all (\<lambda>f. 0 \<le> fl_ptr f) (fs_files w)"
    using file_handles_closed_once [OF w(1)] by (rule conjunct2)
  with w show ?thesis by (intro exI [of _ w] conjI) simp_all
qed

text \<open>
  Where \<open>seek\<close> goes: on a valid file, unless the arithmetic overflows, the new position is the
  requested one (from the start, from the current position, or from the end of the file), but never
  before the start, and from the end never behind the end. On an invalid file it panics.
\<close>

theorem file_seek_position:
  assumes "0 \<le> fl_ptr f" "0 \<le> sz" "\<bar>offset\<bar> + fl_ptr f + sz < 2 ^ 63"
  shows "file_seek sz offset mode f =
    (if \<not> fl_valid f then File_panic
     else File_ok (f\<lparr>fl_ptr := max 0
       (case mode of Seek_set \<Rightarrow> offset | Seek_current \<Rightarrow> fl_ptr f + offset | Seek_end \<Rightarrow> sz + min offset 0)\<rparr>))"
  using assms
  by (cases mode) (auto simp: file_seek_def ptrdiff_def Let_def max_def min_def)

lemma file_seek_position_witness:
  "file_seek 100 (- 30) Seek_end \<lparr>fl_handle = 3, fl_valid = True, fl_ptr = 7\<rparr> =
     File_ok \<lparr>fl_handle = 3, fl_valid = True, fl_ptr = 70\<rparr>"
  using file_seek_position [of "\<lparr>fl_handle = 3, fl_valid = True, fl_ptr = 7\<rparr>" 100 "- 30" Seek_end] by simp

end
