(* ===== verification/Storage.thy ===== *)
theory Storage
  imports Murmur
begin

text \<open>
  \<open>asco/util/erased.h\<close>, \<open>asco/util/safe_erased.h\<close> and \<open>asco/util/type_id.h\<close>: containers that own (or refer to) an object of any type; and
  \<open>asco/core/mm/cstring\<close>: strings with a terminating zero and a small buffer of their own. The name
  of a type (what the compiler makes of \<open>__PRETTY_FUNCTION__\<close>) is a list of bytes.
\<close>

section \<open>Type identifiers\<close>

text \<open>A default-constructed identifier has no name and the hash zero.\<close>

type_synonym type_name = "byte list"
type_synonym type_id = "type_name \<times> hash_val"

definition type_id_default :: type_id where
  "type_id_default = ([], (0, 0))"

definition type_id_of :: "type_name \<Rightarrow> type_id" where
  "type_id_of t = (t, hash_str t)"

text \<open>
  What \<open>of\<close> takes from the name of the function: the part between the first \<open>=\<close> (and the blank after
  it) and the last \<open>]\<close>. Positions are of type \<open>std::size_t\<close>, \<open>npos\<close> is the greatest of them; \<open>substr\<close> from a
  position after the end throws, which is \<open>None\<close>.
\<close>

definition npos :: nat where "npos = 2 ^ 64 - 1"

fun find_first_of :: "byte list \<Rightarrow> byte \<Rightarrow> nat" where
  "find_first_of [] c = npos"
| "find_first_of (x # xs) c =
     (if x = c then 0 else let i = find_first_of xs c in if i = npos then npos else Suc i)"

definition find_last_of :: "byte list \<Rightarrow> byte \<Rightarrow> nat" where
  "find_last_of xs c = (let i = find_first_of (rev xs) c in if i = npos then npos else length xs - 1 - i)"

definition substr :: "nat \<Rightarrow> nat \<Rightarrow> byte list \<Rightarrow> byte list option" where
  "substr start n xs = (if start > length xs then None else Some (take n (drop start xs)))"

definition name_in_function :: "byte list \<Rightarrow> type_name option" where
  "name_in_function funcname =
     (let start = (find_first_of funcname 61 + 2) mod 2 ^ 64; last = find_last_of funcname 93
      in substr start ((last + 2 ^ 64 - start) mod 2 ^ 64) funcname)"

text \<open>The names are compared, too, unless \<open>NDEBUG\<close> is defined.\<close>

definition type_id_eq :: "bool \<Rightarrow> type_id \<Rightarrow> type_id \<Rightarrow> bool" where
  "type_id_eq ndebug a b \<longleftrightarrow> (ndebug \<or> fst a = fst b) \<and> snd a = snd b"

section \<open>Erased objects\<close>

text \<open>
  The objects that were made and not destroyed, by address. An object that is referred to belongs
  to somebody else and is never destroyed here.
\<close>

record 'v object =
  ob_type :: type_name
  ob_value :: 'v

type_synonym 'v objects = "nat \<Rightarrow> 'v object option"

datatype storage_error = Destroyed_twice | Null_dereference | Wrong_type

text \<open>\<open>er_deleter\<close> tells whether there is a deleter.\<close>

record erased =
  er_storage :: "nat option"
  er_deleter :: bool

definition erased_default :: erased where
  "erased_default = \<lparr>er_storage = None, er_deleter = False\<rparr>"

definition erased_of :: "nat \<Rightarrow> type_name \<Rightarrow> 'v \<Rightarrow> 'v objects \<Rightarrow> erased \<times> 'v objects" where
  "erased_of addr t v obs = (\<lparr>er_storage = Some addr, er_deleter = True\<rparr>, obs(addr \<mapsto> \<lparr>ob_type = t, ob_value = v\<rparr>))"

definition erased_ref :: "nat \<Rightarrow> erased" where
  "erased_ref addr = \<lparr>er_storage = Some addr, er_deleter = False\<rparr>"

text \<open>The move constructor: the new container, and the source afterwards.\<close>

definition erased_move :: "erased \<Rightarrow> erased \<times> erased" where
  "erased_move rhs = (rhs, \<lparr>er_storage = None, er_deleter = False\<rparr>)"

definition erased_dtor :: "erased \<Rightarrow> 'v objects \<Rightarrow> storage_error + 'v objects" where
  "erased_dtor e obs =
     (case er_storage e of
        None \<Rightarrow> Inr obs
      | Some addr \<Rightarrow>
          if er_deleter e
          then (if obs addr = None then Inl Destroyed_twice else Inr (obs(addr := None)))
          else Inr obs)"

definition erased_get :: "erased \<Rightarrow> 'v objects \<Rightarrow> storage_error + 'v object" where
  "erased_get e obs =
     (case er_storage e of
        None \<Rightarrow> Inl Null_dereference
      | Some addr \<Rightarrow> (case obs addr of None \<Rightarrow> Inl Null_dereference | Some ob \<Rightarrow> Inr ob))"

section \<open>Checked containers\<close>

record safe_erased =
  se_erased :: erased
  se_tid :: type_id

definition safe_erased_default :: safe_erased where
  "safe_erased_default = \<lparr>se_erased = erased_default, se_tid = type_id_default\<rparr>"

definition safe_erased_of_void :: "type_name \<Rightarrow> safe_erased" where
  "safe_erased_of_void void_name = \<lparr>se_erased = erased_default, se_tid = type_id_of void_name\<rparr>"

definition safe_erased_of :: "nat \<Rightarrow> type_name \<Rightarrow> 'v \<Rightarrow> 'v objects \<Rightarrow> safe_erased \<times> 'v objects" where
  "safe_erased_of addr t v obs =
     (case erased_of addr t v obs of (e, obs) \<Rightarrow> (\<lparr>se_erased = e, se_tid = type_id_of t\<rparr>, obs))"

text \<open>The default: members are moved one by one, and the identifier of the source stays as it is.\<close>

definition safe_erased_move :: "safe_erased \<Rightarrow> safe_erased \<times> safe_erased" where
  "safe_erased_move rhs =
     (case erased_move (se_erased rhs) of
        (e, r) \<Rightarrow> (\<lparr>se_erased = e, se_tid = se_tid rhs\<rparr>, rhs\<lparr>se_erased := r\<rparr>))"

definition safe_erased_dtor :: "safe_erased \<Rightarrow> 'v objects \<Rightarrow> storage_error + 'v objects" where
  "safe_erased_dtor e obs = erased_dtor (se_erased e) obs"

text \<open>\<open>asco_assert_lint\<close> does nothing if \<open>NDEBUG\<close> is defined.\<close>

definition safe_erased_get :: "bool \<Rightarrow> type_name \<Rightarrow> safe_erased \<Rightarrow> 'v objects \<Rightarrow> storage_error + 'v object" where
  "safe_erased_get ndebug t e obs =
     (if ndebug \<or> type_id_eq ndebug (se_tid e) (type_id_of t) then erased_get (se_erased e) obs else Inl Wrong_type)"

section \<open>Sessions\<close>

text \<open>
  A program with containers. \<open>sw_next\<close> is the next address that \<open>operator new\<close> gives out (it was
  given out never before, so that a second destruction cannot hide behind a new object).
\<close>

record 'v storage_world =
  sw_containers :: "safe_erased list"
  sw_objects :: "'v objects"
  sw_next :: nat

datatype 'v storage_action =
    Se_default
  | Se_void type_name
  | Se_make type_name 'v
  | Se_move nat
  | Se_assign nat nat
  | Se_destroy nat

text \<open>\<open>operator=\<close> destroys the target and moves into it, unless it is the source.\<close>

definition safe_erased_assign ::
    "nat \<Rightarrow> nat \<Rightarrow> safe_erased list \<Rightarrow> 'v objects \<Rightarrow> storage_error + (safe_erased list \<times> 'v objects)" where
  "safe_erased_assign i j cs obs =
     (if i = j then Inr (cs, obs)
      else
        (case safe_erased_dtor (cs ! i) obs of
           Inl e \<Rightarrow> Inl e
         | Inr obs \<Rightarrow> (case safe_erased_move (cs ! j) of (new, old) \<Rightarrow> Inr (cs[i := new, j := old], obs))))"

fun storage_step :: "'v storage_action \<Rightarrow> 'v storage_world \<Rightarrow> 'v storage_world option" where
  "storage_step Se_default w = Some (w\<lparr>sw_containers := sw_containers w @ [safe_erased_default]\<rparr>)"
| "storage_step (Se_void t) w = Some (w\<lparr>sw_containers := sw_containers w @ [safe_erased_of_void t]\<rparr>)"
| "storage_step (Se_make t v) w =
     (case safe_erased_of (sw_next w) t v (sw_objects w) of
        (e, obs) \<Rightarrow>
          Some \<lparr>sw_containers = sw_containers w @ [e], sw_objects = obs, sw_next = sw_next w + 1\<rparr>)"
| "storage_step (Se_move i) w =
     (if i < length (sw_containers w)
      then (case safe_erased_move (sw_containers w ! i) of
              (new, old) \<Rightarrow> Some (w\<lparr>sw_containers := (sw_containers w)[i := old] @ [new]\<rparr>))
      else None)"
| "storage_step (Se_assign i j) w =
     (if i < length (sw_containers w) \<and> j < length (sw_containers w)
      then (case safe_erased_assign i j (sw_containers w) (sw_objects w) of
              Inl _ \<Rightarrow> None
            | Inr (cs, obs) \<Rightarrow> Some (w\<lparr>sw_containers := cs, sw_objects := obs\<rparr>))
      else None)"
| "storage_step (Se_destroy i) w =
     (if i < length (sw_containers w)
      then (case safe_erased_dtor (sw_containers w ! i) (sw_objects w) of
              Inl _ \<Rightarrow> None
            | Inr obs \<Rightarrow>
                Some (w\<lparr>sw_containers := take i (sw_containers w) @ drop (Suc i) (sw_containers w), sw_objects := obs\<rparr>))
      else None)"

definition storage_new :: "'v storage_world" where
  "storage_new = \<lparr>sw_containers = [], sw_objects = (\<lambda>_. None), sw_next = 0\<rparr>"

section \<open>Strings\<close>

text \<open>
  Where the characters are: in the small buffer of 24 bytes, or in a block from the memory resource;
  a block is the list of its bytes. Writing outside of them is \<open>None\<close>.
\<close>

definition sso_size :: nat where "sso_size = 24"

datatype cstring = Cs_sso "byte list" | Cs_heap nat nat

type_synonym blocks = "nat \<Rightarrow> byte list option"

definition store_string :: "byte list \<Rightarrow> byte list \<Rightarrow> byte list option" where
  "store_string str mem =
     (if length str < length mem then Some (str @ 0 # drop (Suc (length str)) mem) else None)"

text \<open>\<open>fresh\<close> is the block that the memory resource hands out, \<open>fill\<close> what memory holds before it is written.\<close>

definition cstring_new :: "nat \<Rightarrow> byte \<Rightarrow> byte list \<Rightarrow> blocks \<Rightarrow> (cstring \<times> blocks) option" where
  "cstring_new fresh fill str bs =
     (let sz = length str + 1 in
      if sz > sso_size
      then map_option (\<lambda>m. (Cs_heap fresh sz, bs(fresh \<mapsto> m))) (store_string str (replicate sz fill))
      else map_option (\<lambda>m. (Cs_sso m, bs)) (store_string str (replicate sso_size fill)))"

text \<open>\<open>deallocate_bytes\<close> must be given the size of the block.\<close>

definition cstring_dtor :: "cstring \<Rightarrow> blocks \<Rightarrow> blocks option" where
  "cstring_dtor s bs =
     (case s of
        Cs_sso _ \<Rightarrow> Some bs
      | Cs_heap b sz \<Rightarrow>
          (case bs b of None \<Rightarrow> None | Some m \<Rightarrow> if length m = sz then Some (bs(b := None)) else None))"

text \<open>What a C function reads: the bytes up to the first zero, if there is one in the memory.\<close>

fun read_c_string :: "byte list \<Rightarrow> byte list option" where
  "read_c_string [] = None"
| "read_c_string (x # xs) = (if x = 0 then Some [] else map_option (\<lambda>r. x # r) (read_c_string xs))"

definition c_str :: "cstring \<Rightarrow> blocks \<Rightarrow> byte list option" where
  "c_str s bs = (case s of Cs_sso m \<Rightarrow> read_c_string m | Cs_heap b _ \<Rightarrow> Option.bind (bs b) read_c_string)"

section \<open>Lemmas\<close>

lemma read_c_string_stored: "0 \<notin> set str \<Longrightarrow> read_c_string (str @ 0 # rest) = Some str"
  by (induction str) auto

lemma find_first_of_append: "c \<notin> set xs \<Longrightarrow> length xs < npos \<Longrightarrow> find_first_of (xs @ c # ys) c = length xs"
  by (induction xs) (auto simp: Let_def)

text \<open>What gcc and clang make of \<open>of<T>\<close> has the name of \<open>T\<close> between \<open>= \<close> and \<open>]\<close>.\<close>

lemma name_in_function_between:
  assumes "61 \<notin> set pre" "93 \<notin> set post" "length pre + length name + length post + 3 < npos"
  shows "name_in_function (pre @ 61 # 32 # name @ 93 # post) = Some name"
proof -
  let ?f = "pre @ 61 # 32 # name @ 93 # post"
  have first: "find_first_of ?f 61 = length pre"
    using find_first_of_append [of 61 pre "32 # name @ 93 # post"] assms by simp
  have "rev ?f = rev post @ 93 # (rev name @ 32 # 61 # rev pre)" by simp
  then have "find_first_of (rev ?f) 93 = length post"
    using find_first_of_append [of 93 "rev post" "rev name @ 32 # 61 # rev pre"] assms by simp
  then have last: "find_last_of ?f 93 = length pre + 2 + length name"
    using assms(3) unfolding find_last_of_def by (simp add: Let_def)
  have start: "(length pre + 2) mod 2 ^ 64 = length pre + 2"
    by (rule mod_less) (use assms(3) in \<open>simp add: npos_def\<close>)
  have "(length pre + 2 + length name + 2 ^ 64 - (length pre + 2)) mod 2 ^ 64 = length name"
  proof -
    have "length pre + 2 + length name + 2 ^ 64 - (length pre + 2) = length name + 2 ^ 64" by simp
    moreover have "length name < 2 ^ 64" using assms(3) by (simp add: npos_def)
    ultimately show ?thesis by simp
  qed
  then have "name_in_function ?f = substr (length pre + 2) (length name) ?f"
    unfolding name_in_function_def Let_def first last start by simp
  also have "\<dots> = Some name" by (simp add: substr_def)
  finally show ?thesis .
qed

text \<open>
  How many containers own an address: one if there is an object, none otherwise. The identifier of a
  container tells the type of its object.
\<close>

definition owns :: "nat \<Rightarrow> safe_erased \<Rightarrow> nat" where
  "owns addr e = of_bool (er_deleter (se_erased e) \<and> er_storage (se_erased e) = Some addr)"

definition owners :: "nat \<Rightarrow> safe_erased list \<Rightarrow> nat" where
  "owners addr cs = sum_list (map (owns addr) cs)"

definition container_ok :: "nat \<Rightarrow> 'v objects \<Rightarrow> safe_erased \<Rightarrow> bool" where
  "container_ok next_addr obs e \<longleftrightarrow>
     (case er_storage (se_erased e) of
        None \<Rightarrow> True
      | Some addr \<Rightarrow> er_deleter (se_erased e) \<and> addr < next_addr \<and>
          (\<forall>ob. obs addr = Some ob \<longrightarrow> se_tid e = type_id_of (ob_type ob)))"

definition storage_inv :: "'v storage_world \<Rightarrow> bool" where
  "storage_inv w \<longleftrightarrow>
     (\<forall>e\<in>set (sw_containers w). container_ok (sw_next w) (sw_objects w) e) \<and>
     (\<forall>addr. owners addr (sw_containers w) = of_bool (sw_objects w addr \<noteq> None)) \<and>
     (\<forall>addr. sw_objects w addr \<noteq> None \<longrightarrow> addr < sw_next w)"

lemma owners_simps [simp]:
  "owners addr [] = 0" "owners addr (e # cs) = owns addr e + owners addr cs" "owners addr (cs @ ds) = owners addr cs + owners addr ds"
  by (simp_all add: owners_def)

lemma owners_update: "i < length cs \<Longrightarrow> owners addr (cs[i := e]) + owns addr (cs ! i) = owners addr cs + owns addr e"
  unfolding owners_def by (rule sum_update)

lemma owns_le_owners: "i < length cs \<Longrightarrow> owns addr (cs ! i) \<le> owners addr cs"
  using owners_update [of i cs addr "safe_erased_default"]
  by (simp add: owns_def safe_erased_default_def erased_default_def)

lemma safe_erased_move_simps:
  "safe_erased_move e = (e, e\<lparr>se_erased := \<lparr>er_storage = None, er_deleter = False\<rparr>\<rparr>)"
  by (simp add: safe_erased_move_def erased_move_def)

text \<open>The destructor of a container of a consistent world succeeds, and destroys what it owns.\<close>

lemma dtor_ok:
  assumes inv: "storage_inv w" and i: "i < length (sw_containers w)"
  shows "\<exists>obs. safe_erased_dtor (sw_containers w ! i) (sw_objects w) = Inr obs \<and>
    (\<forall>addr. obs addr = (if owns addr (sw_containers w ! i) = 1 then None else sw_objects w addr))"
proof -
  have "sw_objects w addr \<noteq> None" if "owns addr (sw_containers w ! i) = 1" for addr
  proof -
    have "owners addr (sw_containers w) = of_bool (sw_objects w addr \<noteq> None)"
      using inv unfolding storage_inv_def by blast
    with that owns_le_owners [OF i, of addr] show ?thesis by (cases "sw_objects w addr") simp_all
  qed
  then have "sw_objects w addr \<noteq> None"
    if "er_deleter (se_erased (sw_containers w ! i))" "er_storage (se_erased (sw_containers w ! i)) = Some addr" for addr
    using that by (simp add: owns_def)
  then show ?thesis
    by (auto simp: safe_erased_dtor_def erased_dtor_def owns_def split: option.splits)
qed

lemma container_ok_less:
  assumes "container_ok n obs e" "\<And>addr ob. obs' addr = Some ob \<Longrightarrow> obs addr = Some ob"
  shows "container_ok n obs' e"
  using assms by (auto simp: container_ok_def split: option.splits)

lemma storage_make_inv:
  assumes inv: "storage_inv w" and step: "storage_step (Se_make t v) w = Some w'"
  shows "storage_inv w'"
proof -
  let ?n = "sw_next w" and ?ob = "\<lparr>ob_type = t, ob_value = v\<rparr>"
  let ?e = "\<lparr>se_erased = \<lparr>er_storage = Some ?n, er_deleter = True\<rparr>, se_tid = type_id_of t\<rparr>"
  have w': "w' = \<lparr>sw_containers = sw_containers w @ [?e], sw_objects = (sw_objects w)(?n \<mapsto> ?ob), sw_next = ?n + 1\<rparr>"
    using step by (simp add: safe_erased_of_def erased_of_def)
  have free: "sw_objects w ?n = None" using inv by (auto simp: storage_inv_def)
  have "container_ok (?n + 1) ((sw_objects w)(?n \<mapsto> ?ob)) e" if "container_ok ?n (sw_objects w) e" for e
    using that by (auto simp: container_ok_def split: option.splits)
  moreover have "container_ok (?n + 1) ((sw_objects w)(?n \<mapsto> ?ob)) ?e" by (simp add: container_ok_def)
  moreover have "owners addr (sw_containers w @ [?e]) = of_bool (((sw_objects w)(?n \<mapsto> ?ob)) addr \<noteq> None)" for addr
    using inv free by (auto simp: storage_inv_def owns_def)
  moreover have "\<forall>addr. ((sw_objects w)(?n \<mapsto> ?ob)) addr \<noteq> None \<longrightarrow> addr < ?n + 1"
    using inv by (auto simp: storage_inv_def less_SucI)
  ultimately show ?thesis
    using inv by (auto simp: w' storage_inv_def)
qed

lemma owns_none [simp]: "owns addr (e\<lparr>se_erased := \<lparr>er_storage = None, er_deleter = False\<rparr>\<rparr>) = 0"
  by (simp add: owns_def)

lemma container_none [simp]: "container_ok n obs (e\<lparr>se_erased := \<lparr>er_storage = None, er_deleter = False\<rparr>\<rparr>)"
  by (simp add: container_ok_def)

lemma storage_move_inv:
  assumes inv: "storage_inv w" and step: "storage_step (Se_move i) w = Some w'"
  shows "storage_inv w'"
proof -
  let ?cs = "sw_containers w"
  let ?old = "(?cs ! i)\<lparr>se_erased := \<lparr>er_storage = None, er_deleter = False\<rparr>\<rparr>"
  have i: "i < length ?cs" and w': "w' = w\<lparr>sw_containers := ?cs[i := ?old] @ [?cs ! i]\<rparr>"
    using step by (auto simp: safe_erased_move_simps split: if_splits)
  have "owners addr (?cs[i := ?old] @ [?cs ! i]) = owners addr ?cs" for addr
    using owners_update [OF i, of addr ?old] by simp
  moreover have "\<forall>e\<in>set (?cs[i := ?old] @ [?cs ! i]). container_ok (sw_next w) (sw_objects w) e"
    using inv i by (auto simp: storage_inv_def dest!: set_update_subset_insert [THEN subsetD])
  ultimately show ?thesis using inv by (simp add: w' storage_inv_def)
qed

lemma owners_destroyed:
  assumes inv: "storage_inv w" and n: "n + owns addr e = owners addr (sw_containers w)"
    and obs: "obs addr = (if owns addr e = 1 then None else sw_objects w addr)"
  shows "n = of_bool (obs addr \<noteq> None)"
proof -
  have own: "owners addr (sw_containers w) = of_bool (sw_objects w addr \<noteq> None)"
    using inv unfolding storage_inv_def by blast
  show ?thesis
  proof (cases "owns addr e = 1")
    case True
    with n own have "n = 0" by (cases "sw_objects w addr") simp_all
    with True obs show ?thesis by simp
  next
    case False
    then have "owns addr e = 0" unfolding owns_def by (metis of_bool_eq(1,2))
    with n own obs show ?thesis by simp
  qed
qed

lemma storage_assign_inv:
  assumes inv: "storage_inv w" and ij: "i < length (sw_containers w)" "j < length (sw_containers w)"
  shows "\<exists>cs obs. safe_erased_assign i j (sw_containers w) (sw_objects w) = Inr (cs, obs) \<and>
    storage_inv (w\<lparr>sw_containers := cs, sw_objects := obs\<rparr>)"
proof (cases "i = j")
  case True
  with inv show ?thesis by (cases w) (simp add: safe_erased_assign_def)
next
  case False
  let ?cs = "sw_containers w"
  let ?old = "(?cs ! j)\<lparr>se_erased := \<lparr>er_storage = None, er_deleter = False\<rparr>\<rparr>"
  let ?ds = "?cs[i := ?cs ! j, j := ?old]"
  obtain obs where d: "safe_erased_dtor (?cs ! i) (sw_objects w) = Inr obs"
    and obs: "\<And>addr. obs addr = (if owns addr (?cs ! i) = 1 then None else sw_objects w addr)"
    using dtor_ok [OF inv ij(1)] by blast
  have "owners addr ?ds + owns addr (?cs ! i) = owners addr ?cs" for addr
    using owners_update [OF ij(1), of addr "?cs ! j"] owners_update [of j "?cs[i := ?cs ! j]" addr ?old] ij False by simp
  then have "\<forall>addr. owners addr ?ds = of_bool (obs addr \<noteq> None)"
    using owners_destroyed [where obs = obs, OF inv _ obs] by blast
  moreover have "\<forall>e\<in>set ?ds. container_ok (sw_next w) obs e"
  proof
    fix e assume "e \<in> set ?ds"
    then have "e = ?old \<or> e \<in> set ?cs" using ij by (auto dest!: set_update_subset_insert [THEN subsetD])
    then have "container_ok (sw_next w) (sw_objects w) e" using inv by (auto simp: storage_inv_def)
    then show "container_ok (sw_next w) obs e" by (rule container_ok_less) (simp add: obs split: if_splits)
  qed
  moreover have "\<forall>addr. obs addr \<noteq> None \<longrightarrow> addr < sw_next w"
    using inv by (auto simp: storage_inv_def obs)
  ultimately have "storage_inv (w\<lparr>sw_containers := ?ds, sw_objects := obs\<rparr>)"
    by (simp add: storage_inv_def)
  then show ?thesis
    using False d by (auto simp: safe_erased_assign_def safe_erased_move_simps)
qed

lemma storage_destroy_inv:
  assumes inv: "storage_inv w" and i: "i < length (sw_containers w)"
  shows "\<exists>w'. storage_step (Se_destroy i) w = Some w' \<and> storage_inv w'"
proof -
  let ?cs = "sw_containers w"
  let ?ds = "take i ?cs @ drop (Suc i) ?cs"
  obtain obs where d: "safe_erased_dtor (?cs ! i) (sw_objects w) = Inr obs"
    and obs: "\<And>addr. obs addr = (if owns addr (?cs ! i) = 1 then None else sw_objects w addr)"
    using dtor_ok [OF inv i] by blast
  have "owners addr ?ds + owns addr (?cs ! i) = owners addr ?cs" for addr
  proof -
    have "?cs = take i ?cs @ ?cs ! i # drop (Suc i) ?cs" by (rule id_take_nth_drop [OF i])
    then have "owners addr ?cs = owners addr (take i ?cs @ ?cs ! i # drop (Suc i) ?cs)" by (rule arg_cong)
    then show ?thesis by simp
  qed
  then have "\<forall>addr. owners addr ?ds = of_bool (obs addr \<noteq> None)"
    using owners_destroyed [where obs = obs, OF inv _ obs] by blast
  moreover have "\<forall>e\<in>set ?ds. container_ok (sw_next w) obs e"
  proof
    fix e assume "e \<in> set ?ds"
    then have "container_ok (sw_next w) (sw_objects w) e"
      using inv by (auto simp: storage_inv_def dest: in_set_takeD in_set_dropD)
    then show "container_ok (sw_next w) obs e" by (rule container_ok_less) (simp add: obs split: if_splits)
  qed
  moreover have "\<forall>addr. obs addr \<noteq> None \<longrightarrow> addr < sw_next w"
    using inv by (auto simp: storage_inv_def obs)
  ultimately have "storage_inv (w\<lparr>sw_containers := ?ds, sw_objects := obs\<rparr>)"
    by (simp add: storage_inv_def)
  with i d show ?thesis by simp
qed

lemma storage_add_inv:
  assumes inv: "storage_inv w" and e: "container_ok (sw_next w) (sw_objects w) e" "\<And>addr. owns addr e = 0"
  shows "storage_inv (w\<lparr>sw_containers := sw_containers w @ [e]\<rparr>)"
  using inv e by (simp add: storage_inv_def ball_Un)

lemma empty_container [simp]:
  "container_ok n obs \<lparr>se_erased = erased_default, se_tid = t\<rparr>"
  "owns addr \<lparr>se_erased = erased_default, se_tid = t\<rparr> = 0"
  by (simp_all add: container_ok_def owns_def erased_default_def)

lemma storage_step_inv: "storage_inv w \<Longrightarrow> storage_step a w = Some w' \<Longrightarrow> storage_inv w'"
proof (induction a w rule: storage_step.induct)
  case (1 w)
  then have w': "w' = w\<lparr>sw_containers := sw_containers w @ [safe_erased_default]\<rparr>" by simp
  show ?case unfolding w' by (rule storage_add_inv [OF 1(1)]) (simp_all add: safe_erased_default_def)
next
  case (2 t w)
  then have w': "w' = w\<lparr>sw_containers := sw_containers w @ [safe_erased_of_void t]\<rparr>" by simp
  show ?case unfolding w' by (rule storage_add_inv [OF 2(1)]) (simp_all add: safe_erased_of_void_def)
next
  case (3 t v w)
  then show ?case by (rule storage_make_inv)
next
  case (4 i w)
  then show ?case by (rule storage_move_inv)
next
  case (5 i j w)
  then have ij: "i < length (sw_containers w)" "j < length (sw_containers w)" by (auto split: if_splits)
  from storage_assign_inv [OF 5(1) ij] 5(2) ij show ?case by auto
next
  case (6 i w)
  then have "i < length (sw_containers w)" by (auto split: if_splits)
  from storage_destroy_inv [OF 6(1) this] 6(2) show ?case by auto
qed

interpretation st: invariant_system storage_step storage_inv
  by unfold_locales (rule storage_step_inv)

lemma storage_new_inv: "storage_inv storage_new"
  by (simp add: storage_inv_def storage_new_def)

section \<open>Properties\<close>

text \<open>
  C31: Type safety of \<open>safe_erased\<close>. In any session of constructions, moves, assignments (to itself, too) and
  destructions: with assertions on, an access that yields an object yields one of the type that was
  asked for, and it does yield it whenever the container has an object of that type; no
  object is destroyed twice, and an object lives exactly as long as one container owns it.
\<close>

theorem safe_erased_type_safe:
  assumes "run storage_step as storage_new = Some w"
  shows "(\<forall>i<length (sw_containers w). \<forall>ob.
      safe_erased_get False t (sw_containers w ! i) (sw_objects w) = Inr ob \<longleftrightarrow>
      ob_type ob = t \<and> erased_get (se_erased (sw_containers w ! i)) (sw_objects w) = Inr ob) \<and>
    (\<forall>addr. owners addr (sw_containers w) = of_bool (sw_objects w addr \<noteq> None)) \<and>
    (\<forall>i<length (sw_containers w). storage_step (Se_destroy i) w \<noteq> None)"
proof (intro conjI allI impI)
  have inv: "storage_inv w" by (rule st.run_inv [OF storage_new_inv assms])
  show "owners addr (sw_containers w) = of_bool (sw_objects w addr \<noteq> None)" for addr
    using inv unfolding storage_inv_def by blast
  show "storage_step (Se_destroy i) w \<noteq> None" if "i < length (sw_containers w)" for i
    using storage_destroy_inv [OF inv that] by (auto simp del: storage_step.simps)
  fix i ob
  assume "i < length (sw_containers w)"
  then have "container_ok (sw_next w) (sw_objects w) (sw_containers w ! i)"
    using inv by (simp add: storage_inv_def)
  then have "se_tid (sw_containers w ! i) = type_id_of (ob_type ob)"
    if "erased_get (se_erased (sw_containers w ! i)) (sw_objects w) = Inr ob"
    using that by (auto simp: erased_get_def container_ok_def split: option.splits)
  then show "safe_erased_get False t (sw_containers w ! i) (sw_objects w) = Inr ob \<longleftrightarrow>
      ob_type ob = t \<and> erased_get (se_erased (sw_containers w ! i)) (sw_objects w) = Inr ob"
    by (auto simp: safe_erased_get_def type_id_eq_def type_id_of_def)
qed

lemma safe_erased_type_safe_witness:
  "\<exists>w. run storage_step [Se_make [105] (7 :: nat), Se_make [98] 1, Se_move 0, Se_assign 1 2, Se_destroy 0] storage_new = Some w \<and>
     safe_erased_get False [105] (sw_containers w ! 0) (sw_objects w) = Inr \<lparr>ob_type = [105], ob_value = 7\<rparr> \<and>
     owners 0 (sw_containers w) = 1 \<and> owners 1 (sw_containers w) = 0"
proof -
  let ?as = "[Se_make [105] (7 :: nat), Se_make [98] 1, Se_move 0, Se_assign 1 2, Se_destroy 0]"
  have "\<exists>w. run storage_step ?as storage_new = Some w \<and>
     safe_erased_get False [105] (sw_containers w ! 0) (sw_objects w) = Inr \<lparr>ob_type = [105], ob_value = 7\<rparr> \<and>
     sw_objects w 0 \<noteq> None \<and> sw_objects w 1 = None"
    by (simp add: storage_new_def safe_erased_of_def erased_of_def safe_erased_move_simps safe_erased_assign_def
        safe_erased_dtor_def erased_dtor_def safe_erased_get_def erased_get_def type_id_eq_def type_id_of_def)
  then obtain w where w: "run storage_step ?as storage_new = Some w"
     "safe_erased_get False [105] (sw_containers w ! 0) (sw_objects w) = Inr \<lparr>ob_type = [105], ob_value = 7\<rparr>"
     "sw_objects w 0 \<noteq> None" "sw_objects w 1 = None"
    by (elim exE conjE) (rule that)
  have "owners 0 (sw_containers w) = 1" "owners 1 (sw_containers w) = 0"
    using safe_erased_type_safe [OF w(1), of "[]"] w(3,4) by (simp_all add: conj_assoc)
  with w(1,2) show ?thesis by (intro exI [of _ w] conjI)
qed

text \<open>
  C33: A string survives the way to a C function: for a string without zero bytes, of any length, construction
  succeeds and stays within its memory, reading up to the first zero gives the string, and destruction
  gives back the block with the size it was allocated with, which leaves the memory as it was.
\<close>

theorem cstring_roundtrip:
  assumes "0 \<notin> set str" "bs fresh = None"
  shows "\<exists>s bs'. cstring_new fresh fill str bs = Some (s, bs') \<and> c_str s bs' = Some str \<and> cstring_dtor s bs' = Some bs"
proof (cases "length str + 1 > sso_size")
  case True
  then have "cstring_new fresh fill str bs =
      Some (Cs_heap fresh (length str + 1), bs(fresh \<mapsto> str @ [0]))"
    by (simp add: cstring_new_def store_string_def Let_def)
  moreover have "bs(fresh := None) = bs" using assms(2) by auto
  ultimately show ?thesis
    using read_c_string_stored [OF assms(1), of "[]"] by (simp add: c_str_def cstring_dtor_def)
next
  case False
  then have "cstring_new fresh fill str bs =
      Some (Cs_sso (str @ 0 # drop (Suc (length str)) (replicate sso_size fill)), bs)"
    by (simp add: cstring_new_def store_string_def Let_def)
  then show ?thesis
    using read_c_string_stored [OF assms(1)] by (simp add: c_str_def cstring_dtor_def)
qed

lemma cstring_roundtrip_witness:
  "\<exists>s bs'. cstring_new 5 255 (replicate 30 97) (\<lambda>_. None) = Some (s, bs') \<and> c_str s bs' = Some (replicate 30 97) \<and>
     cstring_dtor s bs' = Some (\<lambda>_. None)"
  by (rule cstring_roundtrip) simp_all

end
