(* ===== verification/Task_Env.thy ===== *)
theory Task_Env
  imports Storage Execution Timer Runtime
begin

text \<open>
  What a task can ask about itself: \<open>asco/this_task\<close>, \<open>task_local\<close> (\<open>core/worker.h\<close>), the metadata that \<open>spawn\<close>, \<open>spawn_blocking\<close> and \<open>block_on\<close>
  (\<open>core/runtime.h\<close>) send to the workers, the services of a runtime (\<open>runtime_builder\<close>, \<open>get_timer\<close>, \<open>get_io_adapter\<close>, \<open>asco_main.cpp\<close>), and
  \<open>asco/time/sleep\<close>, which uses them.
\<close>

section \<open>Building a runtime\<close>

text \<open>Timers and I/O adapters are numbers here.\<close>

record runtime_builder =
  rb_nthreads :: nat
  rb_timer :: "nat option"
  rb_io_adapter :: "nat option"

definition multi_threaded :: "nat \<Rightarrow> runtime_builder" where
  "multi_threaded nthreads = \<lparr>rb_nthreads = nthreads, rb_timer = None, rb_io_adapter = None\<rparr>"

definition single_threaded :: runtime_builder where
  "single_threaded = \<lparr>rb_nthreads = 1, rb_timer = None, rb_io_adapter = None\<rparr>"

definition with_timer :: "nat \<Rightarrow> runtime_builder \<Rightarrow> runtime_builder" where
  "with_timer t b = b\<lparr>rb_timer := Some t\<rparr>"

definition with_io :: "nat \<Rightarrow> runtime_builder \<Rightarrow> runtime_builder" where
  "with_io a b = b\<lparr>rb_io_adapter := Some a\<rparr>"

definition enable_all :: "nat \<Rightarrow> nat \<Rightarrow> runtime_builder \<Rightarrow> runtime_builder" where
  "enable_all t a b = with_io a (with_timer t b)"

record services =
  sv_workers :: nat
  sv_timer :: "nat option"
  sv_io_adapter :: "nat option"

definition build :: "nat \<Rightarrow> runtime_builder \<Rightarrow> services" where
  "build hardware b =
     \<lparr>sv_workers = worker_count (rb_nthreads b) hardware, sv_timer = rb_timer b, sv_io_adapter = rb_io_adapter b\<rparr>"

text \<open>\<open>_current_runtime\<close> of a thread.\<close>

definition in_runtime :: "services option \<Rightarrow> bool" where
  "in_runtime rt = (rt \<noteq> None)"

definition current_runtime :: "services option \<Rightarrow> services outcome" where
  "current_runtime rt = (case rt of None \<Rightarrow> Inl Assertion_failed | Some s \<Rightarrow> Inr s)"

definition get_timer :: "services \<Rightarrow> nat outcome" where
  "get_timer s = (case sv_timer s of None \<Rightarrow> Inl Missing_entry | Some t \<Rightarrow> Inr t)"

definition get_io_adapter :: "services \<Rightarrow> nat outcome" where
  "get_io_adapter s = (case sv_io_adapter s of None \<Rightarrow> Inl Missing_entry | Some a \<Rightarrow> Inr a)"

lemma build_services:
  "get_timer (build hw (enable_all t a b)) = Inr t" "get_io_adapter (build hw (enable_all t a b)) = Inr a"
  "get_timer (build hw (multi_threaded n)) = Inl Missing_entry" "0 < sv_workers (build hw b)"
  by (simp_all add: get_timer_def get_io_adapter_def build_def enable_all_def with_io_def with_timer_def multi_threaded_def worker_count_def)

text \<open>The runtime of \<open>main\<close> in \<open>asco_main.cpp\<close>: it has a timer, and a file that \<open>async_main\<close> opens is a panic.\<close>

definition asco_main :: "nat \<Rightarrow> nat \<Rightarrow> services" where
  "asco_main hardware timer = build hardware (with_timer timer (multi_threaded 0))"

lemma asco_main_services:
  "get_timer (asco_main hw t) = Inr t" "get_io_adapter (asco_main hw t) = Inl Missing_entry"
  "sv_workers (asco_main hw t) = max 1 hw"
  by (simp_all add: get_timer_def get_io_adapter_def asco_main_def build_def with_timer_def multi_threaded_def worker_count_def)

section \<open>The metadata of a task\<close>

text \<open>
  \<open>coroutine_meta\<close>. The two pointers for the awake token are those of the state of the join handle and belong to \<open>Join_Handle\<close>.
\<close>

record coroutine_meta =
  cm_handle :: handle
  cm_cancel_source :: nat
  cm_tls :: safe_erased
  cm_blocking :: bool

text \<open>The second argument of \<open>spawn\<close>: \<open>std::monostate\<close> if there is none.\<close>

datatype 'v tls_arg = Tls_monostate | Tls_value type_name 'v

text \<open>
  \<open>initialize_task_local_storage\<close>: the value lives in the state of the task, which is its address here; the container refers to it.
\<close>

definition initialize_tls :: "handle \<Rightarrow> 'v tls_arg \<Rightarrow> 'v objects \<Rightarrow> safe_erased \<times> 'v objects" where
  "initialize_tls h arg obs =
     (case arg of
        Tls_monostate \<Rightarrow> (safe_erased_default, obs)
      | Tls_value t v \<Rightarrow>
          (\<lparr>se_erased = erased_ref h, se_tid = type_id_of t\<rparr>, obs(h \<mapsto> \<lparr>ob_type = t, ob_value = v\<rparr>)))"

definition spawn_meta :: "handle \<Rightarrow> nat \<Rightarrow> 'v tls_arg \<Rightarrow> 'v objects \<Rightarrow> coroutine_meta \<times> 'v objects" where
  "spawn_meta h src arg obs =
     (case initialize_tls h arg obs of
        (tls, obs) \<Rightarrow> (\<lparr>cm_handle = h, cm_cancel_source = src, cm_tls = tls, cm_blocking = False\<rparr>, obs))"

definition spawn_blocking_meta :: "handle \<Rightarrow> nat \<Rightarrow> 'v tls_arg \<Rightarrow> 'v objects \<Rightarrow> coroutine_meta \<times> 'v objects" where
  "spawn_blocking_meta h src arg obs =
     (case initialize_tls h arg obs of
        (tls, obs) \<Rightarrow> (\<lparr>cm_handle = h, cm_cancel_source = src, cm_tls = tls, cm_blocking = True\<rparr>, obs))"

section \<open>Questions\<close>

text \<open>
  The metadata of a worker and the execution that its executor runs (0 when it runs none; \<open>get\<close> does not find it).
  \<open>value()\<close> asserts that the guard is one.
\<close>

type_synonym metas = "handle \<Rightarrow> coroutine_meta option"

definition meta_value :: "handle \<Rightarrow> metas \<Rightarrow> coroutine_meta outcome" where
  "meta_value h m = (case m h of None \<Rightarrow> Inl Assertion_failed | Some c \<Rightarrow> Inr c)"

definition is_blocking_env :: "bool \<Rightarrow> handle \<Rightarrow> metas \<Rightarrow> bool outcome" where
  "is_blocking_env inside exec m =
     (if \<not> inside then Inr True
      else (case meta_value exec m of Inl p \<Rightarrow> Inl p | Inr c \<Rightarrow> Inr (cm_blocking c)))"

text \<open>\<open>block_on\<close> asks first.\<close>

definition block_on_allowed :: "bool \<Rightarrow> handle \<Rightarrow> metas \<Rightarrow> unit outcome" where
  "block_on_allowed inside exec m =
     (case is_blocking_env inside exec m of
        Inl p \<Rightarrow> Inl p
      | Inr b \<Rightarrow> if b then Inr () else Inl Assertion_failed)"

datatype task_local_error = Tl_panic panic | Tl_storage storage_error

definition task_local :: "type_name \<Rightarrow> handle \<Rightarrow> metas \<Rightarrow> 'v objects \<Rightarrow> task_local_error + 'v object" where
  "task_local t exec m obs =
     (if exec = 0 then Inl (Tl_panic Missing_entry)
      else (case meta_value exec m of
              Inl p \<Rightarrow> Inl (Tl_panic p)
            | Inr c \<Rightarrow> (case safe_erased_get False t (cm_tls c) obs of Inl e \<Rightarrow> Inl (Tl_storage e) | Inr ob \<Rightarrow> Inr ob)))"

definition get_current_cancel_token :: "bool \<Rightarrow> exec_world \<Rightarrow> nat outcome" where
  "get_current_cancel_token inside w =
     (if \<not> inside then Inl Not_in_runtime
      else if current_coroutine w = 0 then Inl Missing_entry
      else Inr (last (tokens w)))"

section \<open>Tasks on a worker\<close>

text \<open>
  \<open>te_owned\<close> is history: how the tasks that have not ended were spawned (blocking, and what is in their storage).
  \<open>te_nested\<close>: the executions of nested domains.
\<close>

record 'v task_env =
  te_queue :: "coroutine_meta list"
  te_metas :: metas
  te_nested :: "handle set"
  te_current :: handle
  te_objects :: "'v objects"
  te_owned :: "handle \<Rightarrow> (bool \<times> 'v tls_arg) option"

definition te_new :: "'v task_env" where
  "te_new = \<lparr>te_queue = [], te_metas = Map.empty, te_nested = {}, te_current = 0, te_objects = Map.empty, te_owned = Map.empty\<rparr>"

datatype 'v te_action =
    Te_spawn bool handle nat "'v tls_arg"
  | Te_fetch
  | Te_nest handle
  | Te_turn handle
  | Te_write 'v
  | Te_end bool

text \<open>The parts of \<open>fetch_task\<close> and of the end of \<open>run_once\<close> that concern the metadata.\<close>

definition te_fetch :: "'v task_env \<Rightarrow> 'v task_env option" where
  "te_fetch w =
     (case te_queue w of
        [] \<Rightarrow> None
      | c # cs \<Rightarrow> Some (w\<lparr>te_queue := cs, te_metas := (te_metas w)(cm_handle c \<mapsto> c)\<rparr>))"

definition te_retire :: "handle \<Rightarrow> 'v task_env \<Rightarrow> 'v task_env" where
  "te_retire h w = w\<lparr>te_metas := (te_metas w)(h := None), te_nested := te_nested w - {h}, te_owned := (te_owned w)(h := None)\<rparr>"

text \<open>A new frame has an address of its own.\<close>

definition fresh :: "handle \<Rightarrow> 'v task_env \<Rightarrow> bool" where
  "fresh h w \<longleftrightarrow> h \<noteq> 0 \<and> te_owned w h = None \<and> h \<notin> te_nested w"

definition te_step :: "'v te_action \<Rightarrow> 'v task_env \<Rightarrow> 'v task_env option" where
  "te_step a w =
     (case a of
        Te_spawn blocking h src arg \<Rightarrow>
          if fresh h w
          then (case (if blocking then spawn_blocking_meta else spawn_meta) h src arg (te_objects w) of
                  (c, obs) \<Rightarrow>
                    Some (w\<lparr>te_queue := te_queue w @ [c], te_objects := obs, te_owned := (te_owned w)(h \<mapsto> (blocking, arg))\<rparr>))
          else None
      | Te_fetch \<Rightarrow> te_fetch w
      | Te_nest h \<Rightarrow> if te_current w \<noteq> 0 \<and> fresh h w then Some (w\<lparr>te_nested := insert h (te_nested w)\<rparr>) else None
      | Te_turn h \<Rightarrow>
          if te_current w = 0 \<and> (te_metas w h \<noteq> None \<or> h \<in> te_nested w) then Some (w\<lparr>te_current := h\<rparr>) else None
      | Te_write v \<Rightarrow>
          (case te_owned w (te_current w) of
             Some (b, Tls_value t u) \<Rightarrow>
               (case task_local t (te_current w) (te_metas w) (te_objects w) of
                  Inl e \<Rightarrow> None
                | Inr ob \<Rightarrow> Some (w\<lparr>te_objects := (te_objects w)(te_current w \<mapsto> ob\<lparr>ob_value := v\<rparr>),
                                    te_owned := (te_owned w)(te_current w \<mapsto> (b, Tls_value t v))\<rparr>))
           | _ \<Rightarrow> None)
      | Te_end finished \<Rightarrow>
          if te_current w = 0 then None
          else Some ((if finished then te_retire (te_current w) w else w)\<lparr>te_current := 0\<rparr>))"

text \<open>The metadata of a task that has not ended tell how it was spawned and refer to its storage.\<close>

definition meta_fits :: "(bool \<times> 'v tls_arg) option \<Rightarrow> 'v object option \<Rightarrow> coroutine_meta \<Rightarrow> bool" where
  "meta_fits own ob c \<longleftrightarrow>
     (case own of
        None \<Rightarrow> False
      | Some (b, arg) \<Rightarrow>
          cm_blocking c = b \<and>
          (case arg of
             Tls_monostate \<Rightarrow> cm_tls c = safe_erased_default
           | Tls_value t v \<Rightarrow>
               cm_tls c = \<lparr>se_erased = erased_ref (cm_handle c), se_tid = type_id_of t\<rparr> \<and> ob = Some \<lparr>ob_type = t, ob_value = v\<rparr>))"

definition meta_ok :: "'v task_env \<Rightarrow> coroutine_meta \<Rightarrow> bool" where
  "meta_ok w c \<longleftrightarrow> meta_fits (te_owned w (cm_handle c)) (te_objects w (cm_handle c)) c"

lemma meta_fits_simps:
  "\<not> meta_fits None ob c"
  "meta_fits (Some (b, Tls_monostate)) ob c \<longleftrightarrow> cm_blocking c = b \<and> cm_tls c = safe_erased_default"
  "meta_fits (Some (b, Tls_value t v)) ob c \<longleftrightarrow>
     cm_blocking c = b \<and> cm_tls c = \<lparr>se_erased = erased_ref (cm_handle c), se_tid = type_id_of t\<rparr> \<and> ob = Some \<lparr>ob_type = t, ob_value = v\<rparr>"
  by (simp_all add: meta_fits_def)

definition te_inv :: "'v task_env \<Rightarrow> bool" where
  "te_inv w \<longleftrightarrow>
     te_owned w 0 = None \<and> 0 \<notin> te_nested w \<and> (\<forall>h\<in>te_nested w. te_owned w h = None) \<and>
     (te_current w = 0 \<or> te_metas w (te_current w) \<noteq> None \<or> te_current w \<in> te_nested w) \<and>
     (\<forall>h c. te_metas w h = Some c \<longrightarrow> cm_handle c = h \<and> meta_ok w c) \<and>
     (\<forall>c\<in>set (te_queue w). meta_ok w c \<and> te_metas w (cm_handle c) = None) \<and>
     distinct (map cm_handle (te_queue w))"

lemma meta_ok_still [simp]:
  "meta_ok (w\<lparr>te_nested := N\<rparr>) = meta_ok w" "meta_ok (w\<lparr>te_current := h\<rparr>) = meta_ok w"
  by (simp_all add: meta_ok_def fun_eq_iff)

lemma meta_ok_owned: "meta_ok w c \<Longrightarrow> te_owned w (cm_handle c) \<noteq> None"
  by (cases "te_owned w (cm_handle c)") (simp_all add: meta_ok_def meta_fits_simps)

text \<open>What happens to another task does not touch a task.\<close>

lemma meta_ok_other:
  assumes "meta_ok w c" "te_owned w' (cm_handle c) = te_owned w (cm_handle c)" "te_objects w' (cm_handle c) = te_objects w (cm_handle c)"
  shows "meta_ok w' c"
  using assms unfolding meta_ok_def by simp

lemma te_spawn_inv:
  assumes inv: "te_inv w" and f: "fresh h w"
    and c: "(if blocking then spawn_blocking_meta else spawn_meta) h src arg (te_objects w) = (c, obs)"
  shows "te_inv (w\<lparr>te_queue := te_queue w @ [c], te_objects := obs, te_owned := (te_owned w)(h \<mapsto> (blocking, arg))\<rparr>)"
    (is "te_inv ?w")
proof -
  have h: "cm_handle c = h" and obs: "\<And>k. k \<noteq> h \<Longrightarrow> obs k = te_objects w k" and ok: "meta_ok ?w c"
    using c by (auto simp: spawn_meta_def spawn_blocking_meta_def initialize_tls_def meta_ok_def meta_fits_simps split: if_splits tls_arg.splits)
  have free: "te_owned w h = None" "h \<noteq> 0" "h \<notin> te_nested w" using f by (simp_all add: fresh_def)
  have other: "meta_ok ?w d \<and> cm_handle d \<noteq> h" if "meta_ok w d" for d
  proof -
    have "cm_handle d \<noteq> h" using meta_ok_owned [OF that] free(1) by auto
    with meta_ok_other [OF that] obs show ?thesis by simp
  qed
  have "te_metas w h = None"
  proof (cases "te_metas w h")
    case (Some d)
    with inv have "meta_ok w d" "cm_handle d = h" by (simp_all add: te_inv_def)
    with other show ?thesis by blast
  qed
  moreover have "h \<notin> cm_handle ` set (te_queue w)"
  proof
    assume "h \<in> cm_handle ` set (te_queue w)"
    then obtain d where "d \<in> set (te_queue w)" "cm_handle d = h" by blast
    with inv other show False by (auto simp: te_inv_def)
  qed
  moreover have "meta_ok ?w d" if "meta_ok w d" for d using other [OF that] by simp
  ultimately show ?thesis
    using inv ok h free unfolding te_inv_def by auto
qed

lemma te_fetch_inv:
  assumes inv: "te_inv w" and step: "te_fetch w = Some w'"
  shows "te_inv w'"
proof -
  obtain c cs where q: "te_queue w = c # cs" and w': "w' = w\<lparr>te_queue := cs, te_metas := (te_metas w)(cm_handle c \<mapsto> c)\<rparr>"
    using step by (auto simp: te_fetch_def split: list.splits)
  have ok: "meta_ok w' d = meta_ok w d" for d by (simp add: meta_ok_def w')
  have "cm_handle c \<notin> cm_handle ` set cs" using inv q by (simp add: te_inv_def)
  then have "cm_handle d \<noteq> cm_handle c" if "d \<in> set cs" for d using that by (metis imageI)
  then show ?thesis using inv q unfolding te_inv_def ok by (auto simp: w')
qed

lemma te_write_inv:
  assumes inv: "te_inv w" and own: "te_owned w (te_current w) = Some (b, Tls_value t u)"
    and tl: "task_local t (te_current w) (te_metas w) (te_objects w) = Inr ob"
  shows "te_inv (w\<lparr>te_objects := (te_objects w)(te_current w \<mapsto> ob\<lparr>ob_value := v\<rparr>),
                    te_owned := (te_owned w)(te_current w \<mapsto> (b, Tls_value t v))\<rparr>)" (is "te_inv ?w")
proof -
  have "te_current w \<noteq> 0"
  proof
    assume "te_current w = 0"
    with inv own show False by (simp add: te_inv_def)
  qed
  moreover have "te_current w \<notin> te_nested w" using inv own by (auto simp: te_inv_def)
  ultimately have cur: "te_current w \<noteq> 0" "te_current w \<notin> te_nested w" .
  then obtain c where c: "te_metas w (te_current w) = Some c" using inv cur by (auto simp: te_inv_def)
  then have h: "cm_handle c = te_current w" "meta_ok w c" using inv by (auto simp: te_inv_def)
  have ob: "ob = \<lparr>ob_type = t, ob_value = u\<rparr>"
    using tl h own c cur(1)
    by (auto simp: task_local_def meta_value_def meta_ok_def meta_fits_simps safe_erased_get_def erased_get_def erased_ref_def type_id_eq_def split: if_splits)
  have okc: "meta_ok ?w c" using h own ob by (simp add: meta_ok_def meta_fits_simps)
  have other: "meta_ok ?w d" if "meta_ok w d" "cm_handle d \<noteq> te_current w" for d
    by (rule meta_ok_other [OF that(1)]) (use that(2) in simp_all)
  have metas: "meta_ok ?w d" if "te_metas w k = Some d" for k d
  proof (cases "k = te_current w")
    case True
    with that c okc show ?thesis by simp
  next
    case False
    with that inv have "meta_ok w d" "cm_handle d \<noteq> te_current w" by (auto simp: te_inv_def)
    then show ?thesis by (rule other)
  qed
  have queue: "meta_ok ?w d" if "d \<in> set (te_queue w)" for d
  proof -
    have "meta_ok w d" "te_metas w (cm_handle d) = None" using inv that by (auto simp: te_inv_def)
    with c have "cm_handle d \<noteq> te_current w" by auto
    with \<open>meta_ok w d\<close> show ?thesis by (rule other)
  qed
  have "te_metas ?w = te_metas w" "te_queue ?w = te_queue w" "te_nested ?w = te_nested w" "te_current ?w = te_current w" by simp_all
  with inv metas queue own cur show ?thesis
    unfolding te_inv_def by auto
qed

lemma te_end_inv:
  assumes inv: "te_inv w"
  shows "te_inv ((if finished then te_retire (te_current w) w else w)\<lparr>te_current := 0\<rparr>)"
proof -
  let ?h = "te_current w" and ?w = "te_retire (te_current w) w"
  have ok: "meta_ok ?w d" if "meta_ok w d" "cm_handle d \<noteq> ?h" for d
    by (rule meta_ok_other [OF that(1)]) (use that(2) in \<open>simp_all add: te_retire_def\<close>)
  have cur: "meta_ok (u\<lparr>te_current := 0\<rparr>) = meta_ok u" for u :: "'a task_env" by (simp add: meta_ok_def fun_eq_iff)
  have metas: "cm_handle d = k \<and> meta_ok w d" if "te_metas w k = Some d" for k d using inv that by (auto simp: te_inv_def)
  have queue: "meta_ok w d" "te_metas w (cm_handle d) = None" "cm_handle d \<noteq> ?h" if "d \<in> set (te_queue w)" for d
  proof -
    show "meta_ok w d" and n: "te_metas w (cm_handle d) = None" using inv that by (auto simp: te_inv_def)
    then show "cm_handle d \<noteq> ?h" using inv meta_ok_owned [of w d] by (auto simp: te_inv_def)
  qed
  have "te_inv (?w\<lparr>te_current := 0\<rparr>)"
    unfolding te_inv_def cur using inv ok metas queue by (auto simp: te_retire_def te_inv_def split: if_splits)
  moreover have "te_inv (w\<lparr>te_current := 0\<rparr>)" using inv unfolding te_inv_def cur by simp
  ultimately show ?thesis by simp
qed

lemma te_step_inv [asco_inv]:
  assumes inv: "te_inv w" and step: "te_step a w = Some w'"
  shows "te_inv w'"
proof (cases a)
  case (Te_spawn blocking h src arg)
  obtain c obs where c: "(if blocking then spawn_blocking_meta else spawn_meta) h src arg (te_objects w) = (c, obs)"
    by (cases "(if blocking then spawn_blocking_meta else spawn_meta) h src arg (te_objects w)")
  with step Te_spawn have f: "fresh h w" and
    w': "w' = w\<lparr>te_queue := te_queue w @ [c], te_objects := obs, te_owned := (te_owned w)(h \<mapsto> (blocking, arg))\<rparr>"
    unfolding te_step_def by (simp_all only: te_action.case c prod.case split: if_splits) (simp_all del: if_split)
  show ?thesis unfolding w' by (rule te_spawn_inv [OF inv f c])
next
  case Te_fetch
  with step te_fetch_inv [OF inv] show ?thesis by (simp add: te_step_def)
next
  case (Te_nest h)
  with step inv show ?thesis by (auto simp: te_step_def te_inv_def fresh_def split: if_splits)
next
  case (Te_turn h)
  with step inv show ?thesis by (auto simp: te_step_def te_inv_def split: if_splits)
next
  case (Te_write v)
  with step te_write_inv [OF inv] show ?thesis
    by (auto simp: te_step_def split: option.splits prod.splits tls_arg.splits sum.splits)
next
  case (Te_end finished)
  with step have "w' = (if finished then te_retire (te_current w) w else w)\<lparr>te_current := 0\<rparr>"
    by (simp add: te_step_def split: if_splits)
  then show ?thesis using te_end_inv [OF inv] by (simp only:)
qed

interpretation task_envs: invariant_system te_step te_inv
  by unfold_locales (rule te_step_inv)

lemma te_new_inv: "te_inv te_new"
  by (simp add: te_inv_def te_new_def)


definition te_example :: "nat te_action list" where
  "te_example = [Te_spawn True 1 7 (Tls_value [105] 5), Te_spawn False 2 8 (Tls_value [105] 9), Te_fetch, Te_fetch, Te_turn 2, Te_write 3,
     Te_end True, Te_turn 1, Te_write 6]"

lemmas te_eval = te_example_def te_step_def te_new_def te_fetch_def te_retire_def fresh_def spawn_meta_def spawn_blocking_meta_def
  initialize_tls_def task_local_def meta_value_def safe_erased_get_def erased_get_def erased_ref_def type_id_eq_def type_id_of_def


text \<open>
  A branch of \<open>select\<close> or \<open>join_all\<close> is an execution without metadata: in it, the same questions fail, even if the task that
  waits for it was spawned by \<open>spawn_blocking\<close>.
\<close>

theorem nested_has_no_environment:
  "\<exists>w. run te_step [Te_spawn True 1 7 (Tls_value [105] (5 :: nat)), Te_fetch, Te_turn 1, Te_nest 2, Te_end False, Te_turn 2] te_new = Some w \<and>
     te_current w = 2 \<and> is_blocking_env True 2 (te_metas w) = Inl Assertion_failed \<and>
     task_local [105] 2 (te_metas w) (te_objects w) = Inl (Tl_panic Assertion_failed)"
  by (simp add: te_eval is_blocking_env_def)

section \<open>Sleeping\<close>

text \<open>
  \<open>sleep_until\<close>: the runtime and its timer have to be there; a time that is past is not waited for; otherwise the
  cancellation of the task cancels the timer, and the task is suspended. \<open>cb\<close> names the callback.
\<close>

datatype sleep_outcome = Slept | Suspended timer_id

definition sleep_until ::
    "services option \<Rightarrow> nat \<Rightarrow> nat \<Rightarrow> nat \<Rightarrow> nat \<Rightarrow> nat \<Rightarrow> nat tree \<Rightarrow> exec_world \<Rightarrow> (sleep_outcome \<times> nat tree \<times> exec_world) outcome" where
  "sleep_until rt now tp token hash cb tree w =
     (case current_runtime rt of
        Inl p \<Rightarrow> Inl p
      | Inr s \<Rightarrow>
          (case get_timer s of
             Inl p \<Rightarrow> Inl p
           | Inr _ \<Rightarrow>
               (case register_timer now tp token hash tree of
                  (None, tree) \<Rightarrow> Inr (Slept, tree, w)
                | (Some tmid, tree) \<Rightarrow> Inr (Suspended tmid, tree, callback_new cb w))))"

definition sleep_for ::
    "services option \<Rightarrow> nat \<Rightarrow> nat \<Rightarrow> nat \<Rightarrow> nat \<Rightarrow> nat \<Rightarrow> nat tree \<Rightarrow> exec_world \<Rightarrow> (sleep_outcome \<times> nat tree \<times> exec_world) outcome" where
  "sleep_for rt now d token hash cb tree w = sleep_until rt now (now + d) token hash cb tree w"

text \<open>A sleep that is cancelled is over for the timer.\<close>

lemma sleep_cancelled_expired:
  assumes "sleep_until rt now tp token hash cb tree w = Inr (Suspended tmid, tree', w')"
  shows "is_expired tmid (fst (cancel_timer tmid tree'))"
proof -
  have reg: "register_timer now tp token hash tree = (Some tmid, tree')"
    using assms by (auto simp: sleep_until_def split: sum.splits prod.splits option.splits)
  have upd: "map_of (update_at k f xs) k = map_option f (map_of xs k)" for k :: nat and f :: "nat area \<Rightarrow> nat area" and xs
    by (induction xs) auto
  show ?thesis
    by (cases "map_of tree' (sec_from_epoch (tm_seq tmid))") (simp_all add: is_expired_def cancel_timer_def Let_def upd)
qed

end
