(* ===== verification/Worker.thy ===== *)
theory Worker
  imports Scheduler
begin

text \<open>
  \<open>asco/core/worker.cpp\<close> from \<open>schedule\<close> to the end of a turn, \<open>asco/core/task/execution_domain_proxy.h\<close>
  (nested domains, as \<open>select\<close> and \<open>join_all\<close> make them) and \<open>awake_token\<close>: the domains of a worker as a
  store of addresses (0 is the domain of the worker itself), one turn of the worker, and what a
  coroutine can do to all this while it runs.
\<close>

section \<open>Schedulers of either kind\<close>

text \<open>
  A context is the index of the entry, or the id for the priority scheduler. \<open>None\<close> is a call that does
  not return; \<open>n\<close> chooses among the entries of least priority.
\<close>

definition sched_schedule :: "nat \<Rightarrow> sched \<Rightarrow> (handle \<times> nat \<times> sched) outcome option" where
  "sched_schedule n s =
     (case s of
        Cycle c \<Rightarrow>
          (case cyc_schedule c of
             None \<Rightarrow> None
           | Some (j, c') \<Rightarrow> Some (Inr (ce_id (cs_entries c ! j), j, Cycle c')))
      | Dynprio p \<Rightarrow>
          Some (case dyn_schedule n p of Inl e \<Rightarrow> Inl e | Inr (i, p') \<Rightarrow> Inr (i, i, Dynprio p')))"

definition sched_begin :: "u64 \<Rightarrow> nat \<Rightarrow> sched \<Rightarrow> sched" where
  "sched_begin tsc ctx s = (case s of Cycle c \<Rightarrow> Cycle c | Dynprio p \<Rightarrow> Dynprio (dyn_begin tsc ctx p))"

definition sched_end :: "u64 \<Rightarrow> nat \<Rightarrow> bool \<Rightarrow> sched \<times> domain \<Rightarrow> (sched \<times> domain) outcome" where
  "sched_end tsc ctx completed sd =
     (case sd of (s, d) \<Rightarrow>
        case s of
          Cycle c \<Rightarrow> map_sum id (apfst Cycle) (cyc_end ctx completed (c, d))
        | Dynprio p \<Rightarrow> map_sum id (apfst Dynprio) (dyn_end tsc ctx completed (p, d)))"

definition sched_suspend :: "handle \<Rightarrow> sched \<times> domain \<Rightarrow> (sched \<times> domain) outcome" where
  "sched_suspend i sd =
     (case sd of (s, d) \<Rightarrow>
        case s of
          Cycle c \<Rightarrow> map_sum id (apfst Cycle) (cyc_suspend i (c, d))
        | Dynprio p \<Rightarrow> map_sum id (apfst Dynprio) (dyn_suspend i (p, d)))"

definition sched_attach :: "handle \<Rightarrow> sched \<Rightarrow> sched outcome" where
  "sched_attach i s =
     (case s of
        Cycle c \<Rightarrow> map_sum id Cycle (cyc_attach i c)
      | Dynprio p \<Rightarrow> map_sum id Dynprio (dyn_attach i p))"

definition sched_detach :: "handle \<Rightarrow> sched \<Rightarrow> sched outcome" where
  "sched_detach i s =
     (case s of
        Cycle c \<Rightarrow> map_sum id Cycle (cyc_detach i c)
      | Dynprio p \<Rightarrow> Inr (Dynprio (dyn_detach i p)))"

definition sched_has_active :: "sched \<Rightarrow> bool" where
  "sched_has_active s = (case s of Cycle c \<Rightarrow> cyc_has_active c | Dynprio p \<Rightarrow> dyn_has_active p)"

section \<open>The domains of a worker\<close>

text \<open>
  \<open>wk_metas\<close> are the keys of \<open>m_coroutine_metas\<close>. The three stacks of the worker are one list of levels,
  the outermost first. Using a domain that is not there is \<open>Inl Missing_entry\<close>.
\<close>

record worker_state =
  wk_doms :: "nat \<Rightarrow> (sched \<times> domain) option"
  wk_metas :: "handle set"
  wk_stopped :: "nat set"
  wk_events :: "exec_event list"

record level =
  lv_dom :: nat
  lv_ctx :: nat
  lv_exec :: handle

definition worker_new :: worker_state where
  "worker_new = \<lparr>wk_doms = [0 \<mapsto> (Dynprio dyn_new, domain_new)], wk_metas = {}, wk_stopped = {}, wk_events = []\<rparr>"

definition obind :: "'a outcome \<Rightarrow> ('a \<Rightarrow> 'b outcome) \<Rightarrow> 'b outcome" where
  "obind m f = (case m of Inl e \<Rightarrow> Inl e | Inr x \<Rightarrow> f x)"

definition get_dom :: "nat \<Rightarrow> worker_state \<Rightarrow> (sched \<times> domain) outcome" where
  "get_dom a w = (case wk_doms w a of None \<Rightarrow> Inl Missing_entry | Some sd \<Rightarrow> Inr sd)"

definition set_dom :: "nat \<Rightarrow> sched \<times> domain \<Rightarrow> worker_state \<Rightarrow> worker_state" where
  "set_dom a sd w = w\<lparr>wk_doms := (wk_doms w)(a \<mapsto> sd)\<rparr>"

definition on_dom :: "nat \<Rightarrow> (sched \<times> domain \<Rightarrow> (sched \<times> domain) outcome) \<Rightarrow> worker_state \<Rightarrow> worker_state outcome" where
  "on_dom a f w = obind (get_dom a w) (\<lambda>sd. obind (f sd) (\<lambda>sd. Inr (set_dom a sd w)))"

text \<open>The end of \<open>fetch_task\<close>: the new task, with its own cancel source only.\<close>

definition attach_task :: "handle \<Rightarrow> nat \<Rightarrow> worker_state \<Rightarrow> worker_state outcome" where
  "attach_task h src w =
     obind (on_dom 0 (\<lambda>(s, d). obind (domain_attach h [] src d) (\<lambda>d. Inr (s, d))) (w\<lparr>wk_metas := insert h (wk_metas w)\<rparr>))
       (on_dom 0 (\<lambda>(s, d). obind (sched_attach h s) (\<lambda>s. Inr (s, d))))"

text \<open>\<open>awake_execution\<close> goes on to the owner of the domain if that is suspended.\<close>

partial_function (option) awake_at :: "nat \<Rightarrow> handle \<Rightarrow> worker_state \<Rightarrow> worker_state outcome option" where
  "awake_at a i w =
     (case wk_doms w a of
        None \<Rightarrow> Some (Inl Missing_entry)
      | Some sd \<Rightarrow>
          if sched_ignores i (fst sd) then Some (Inr w)
          else
            (case sched_awake i sd of
               Inl e \<Rightarrow> Some (Inl e)
             | Inr sd' \<Rightarrow>
                 (case parent_domain (snd sd') of
                    None \<Rightarrow> Some (Inr (set_dom a sd' w))
                  | Some pa \<Rightarrow>
                      (case wk_doms (set_dom a sd' w) pa of
                         None \<Rightarrow> Some (Inl Missing_entry)
                       | Some pd \<Rightarrow>
                           (case get_execution_state (parent_execution (snd sd')) (snd pd) of
                              Inl e \<Rightarrow> Some (Inl e)
                            | Inr st \<Rightarrow>
                                if st = Exec_suspended
                                then awake_at pa (parent_execution (snd sd')) (set_dom a sd' w)
                                else Some (Inr (set_dom a sd' w)))))))"

section \<open>The coroutine that runs\<close>

text \<open>The executor's view of the world while it runs execution \<open>i\<close> of domain \<open>a\<close>.\<close>

definition on_exec :: "nat \<Rightarrow> handle \<Rightarrow> nat list \<Rightarrow> (exec_world \<Rightarrow> ('r \<times> exec_world) outcome) \<Rightarrow> worker_state \<Rightarrow>
    ('r \<times> worker_state) outcome" where
  "on_exec a i toks f w =
     obind (get_dom a w)
       (\<lambda>(s, d). obind (f \<lparr>w_domain = d, current = Some i, tokens = toks, stopped = wk_stopped w, events = wk_events w\<rparr>)
          (\<lambda>(r, ew). Inr (r, (set_dom a (s, w_domain ew) w)\<lparr>wk_stopped := stopped ew, wk_events := events ew\<rparr>)))"

text \<open>The proxy: its constructor, and \<open>attach_execution\<close>. The sources are those of the execution that runs.\<close>

definition proxy_new :: "nat \<Rightarrow> nat \<Rightarrow> nat \<Rightarrow> handle \<Rightarrow> worker_state \<Rightarrow> worker_state outcome" where
  "proxy_new x n a i w =
     obind (on_dom a (\<lambda>(s, d). case executions d i of
                None \<Rightarrow> Inl Missing_entry
              | Some e \<Rightarrow> Inr (s, d\<lparr>executions := (executions d)(i \<mapsto> e\<lparr>subdomain := Some x\<rparr>)\<rparr>)) w)
       (\<lambda>w. Inr (set_dom x (Cycle (cyc_new n), domain_new\<lparr>parent_domain := Some a, parent_execution := i\<rparr>) w))"

definition proxy_attach :: "nat \<Rightarrow> nat \<Rightarrow> nat list \<Rightarrow> handle \<Rightarrow> worker_state \<Rightarrow> worker_state outcome" where
  "proxy_attach x src parents h w =
     obind (on_dom x (\<lambda>(s, d). obind (domain_attach h parents src d) (\<lambda>d. Inr (s, d))) w)
       (on_dom x (\<lambda>(s, d). obind (sched_attach h s) (\<lambda>s. Inr (s, d))))"

fun proxy_attach_all :: "nat \<Rightarrow> nat \<Rightarrow> nat list \<Rightarrow> handle list \<Rightarrow> worker_state \<Rightarrow> worker_state outcome" where
  "proxy_attach_all x src parents [] w = Inr w"
| "proxy_attach_all x src parents (h # hs) w =
     obind (proxy_attach x src parents h w) (proxy_attach_all x src parents hs)"

text \<open>\<open>cancel\<close> of the proxy: the domain sets the state of all its executions (the scheduler does not hear of it).\<close>

definition proxy_cancel :: "nat \<Rightarrow> nat \<Rightarrow> handle list \<Rightarrow> worker_state \<Rightarrow> worker_state outcome" where
  "proxy_cancel x src order w =
     on_dom x (\<lambda>(s, d). obind (activate_all order d) (\<lambda>d. Inr (s, d))) (w\<lparr>wk_stopped := insert src (wk_stopped w)\<rparr>)"

text \<open>
  What a coroutine does between two suspension points, as far as the worker is concerned: it suspends
  its execution with a token, awakes executions, registers and destroys callbacks, asks a source to stop,
  and makes a domain of \<open>hs\<close> executions. Other threads awake executions at the same time.
\<close>

datatype co_op =
    Co_suspend
  | Co_awake nat handle
  | Co_callback nat
  | Co_callback_end
  | Co_stop nat
  | Co_nest nat nat "handle list"

text \<open>It ends by suspending, by awaiting another coroutine, or by returning.\<close>

datatype co_end = End_suspend | End_await handle | End_return

definition parent_sources :: "handle \<Rightarrow> domain \<Rightarrow> nat list" where
  "parent_sources i d =
     (case executions d i of None \<Rightarrow> [] | Some e \<Rightarrow> take (cancel_src_stack_size e) (cancel_src_stack e))"

definition nest :: "nat \<Rightarrow> nat \<Rightarrow> handle list \<Rightarrow> nat \<Rightarrow> handle \<Rightarrow> worker_state \<Rightarrow> worker_state outcome" where
  "nest x src hs a i w =
     obind (get_dom a w) (\<lambda>(s, d). obind (proxy_new x (length hs) a i w) (proxy_attach_all x src (parent_sources i d) hs))"

fun co_step :: "nat \<Rightarrow> handle \<Rightarrow> co_op \<Rightarrow> worker_state \<Rightarrow> worker_state outcome option" where
  "co_step a i Co_suspend w = Some (on_dom a (sched_suspend i) w)"
| "co_step a i (Co_awake b k) w = awake_at b k w"
| "co_step a i (Co_callback c) w = Some (map_sum id snd (on_exec a i [] (\<lambda>ew. Inr ((), callback_new c ew)) w))"
| "co_step a i Co_callback_end w = Some (map_sum id snd (on_exec a i [] (\<lambda>ew. Inr ((), callback_dtor ew)) w))"
| "co_step a i (Co_stop src) w = Some (Inr (w\<lparr>wk_stopped := insert src (wk_stopped w)\<rparr>))"
| "co_step a i (Co_nest x src hs) w = Some (nest x src hs a i w)"

text \<open>\<open>final_suspend\<close> of a future: it is asked whether the coroutine is the first of its stack after it was popped.\<close>

definition final_suspend :: "nat \<Rightarrow> handle \<Rightarrow> worker_state \<Rightarrow> worker_state outcome" where
  "final_suspend a i w =
     obind (on_exec a i [] (\<lambda>ew. obind (pop_handle ew) (\<lambda>(h, ew). Inr ((h, is_base_coroutine h ew), ew))) w)
       (\<lambda>((h, base), w). obind (if base then on_dom a (sched_suspend h) w else Inr w)
          (\<lambda>w. Inr (w\<lparr>wk_events := wk_events w @ [Destroy_frame h]\<rparr>)))"

definition co_finish :: "nat \<Rightarrow> handle \<Rightarrow> co_end \<Rightarrow> worker_state \<Rightarrow> worker_state outcome" where
  "co_finish a i fin w =
     (case fin of
        End_suspend \<Rightarrow> Inr w
      | End_await h \<Rightarrow> map_sum id snd (on_exec a i [] (\<lambda>ew. obind (push_handle h ew) (\<lambda>ew. Inr ((), ew))) w)
      | End_return \<Rightarrow> final_suspend a i w)"

text \<open>
  How the interfaces are meant to be used: tokens belong to executions that still live; an execution
  suspends itself or makes a domain only if it has no domain (it does not both announce a suspension and make one); domains are
  made at addresses that are free, of different coroutines, and not deeper than the limit; and
  a coroutine does not return while its domain exists. Calls that are not meant to be are left out.
\<close>

definition exec_alive :: "nat \<Rightarrow> handle \<Rightarrow> worker_state \<Rightarrow> bool" where
  "exec_alive a i w = (case wk_doms w a of None \<Rightarrow> False | Some sd \<Rightarrow> executions (snd sd) i \<noteq> None)"

definition exec_of :: "nat \<Rightarrow> handle \<Rightarrow> worker_state \<Rightarrow> execution option" where
  "exec_of a i w = (case wk_doms w a of None \<Rightarrow> None | Some sd \<Rightarrow> executions (snd sd) i)"

definition no_subdomain :: "nat \<Rightarrow> handle \<Rightarrow> worker_state \<Rightarrow> bool" where
  "no_subdomain a i w = (case exec_of a i w of None \<Rightarrow> False | Some e \<Rightarrow> subdomain e = None)"

definition is_running :: "nat \<Rightarrow> handle \<Rightarrow> worker_state \<Rightarrow> bool" where
  "is_running a i w = (case exec_of a i w of None \<Rightarrow> False | Some e \<Rightarrow> exec_state e = Exec_running)"

definition can_nest :: "nat \<Rightarrow> handle \<Rightarrow> worker_state \<Rightarrow> bool" where
  "can_nest a i w = (case exec_of a i w of None \<Rightarrow> False | Some e \<Rightarrow> cancel_src_stack_size e < nest_max_depth)"

definition co_meant :: "nat \<Rightarrow> handle \<Rightarrow> co_op \<Rightarrow> worker_state \<Rightarrow> bool" where
  "co_meant a i cop w =
     (case cop of
        Co_suspend \<Rightarrow> no_subdomain a i w
      | Co_awake b k \<Rightarrow> exec_alive b k w
      | Co_nest x src hs \<Rightarrow>
          wk_doms w x = None \<and> distinct hs \<and> length hs < 2 ^ 64 \<and> no_subdomain a i w \<and> is_running a i w \<and> can_nest a i w
      | _ \<Rightarrow> True)"

fun co_run :: "nat \<Rightarrow> handle \<Rightarrow> co_op list \<Rightarrow> worker_state \<Rightarrow> worker_state outcome option" where
  "co_run a i [] w = Some (Inr w)"
| "co_run a i (cop # cops) w =
     (if co_meant a i cop w
      then (case co_step a i cop w of
              None \<Rightarrow> None
            | Some (Inl e) \<Rightarrow> Some (Inl e)
            | Some (Inr w) \<Rightarrow> co_run a i cops w)
      else co_run a i cops w)"

section \<open>A turn\<close>

datatype descent = Reached | Sub_empty | Sub_idle

text \<open>
  The loop of \<open>run_once\<close> that goes down from the domain of the worker to an execution without a domain, or stops
  at an empty domain, or at one with nothing to run.
\<close>

definition remove_subdomain :: "handle \<Rightarrow> domain \<Rightarrow> domain" where
  "remove_subdomain i d = d\<lparr>executions := (executions d)(i := map_option (\<lambda>e. e\<lparr>subdomain := None\<rparr>) (executions d i))\<rparr>"

partial_function (option) descend ::
    "nat \<Rightarrow> nat \<Rightarrow> level list \<Rightarrow> worker_state \<Rightarrow> (descent \<times> level list \<times> worker_state) outcome option" where
  "descend n a lvs w =
     (case wk_doms w a of
        None \<Rightarrow> Some (Inl Missing_entry)
      | Some (s, d) \<Rightarrow>
          (case sched_schedule n s of
             None \<Rightarrow> None
           | Some (Inl e) \<Rightarrow> Some (Inl e)
           | Some (Inr (i, ctx, s)) \<Rightarrow>
               (case schedule_execution i d of
                  Inl e \<Rightarrow> Some (Inl e)
                | Inr d \<Rightarrow>
                    (let lvs = lvs @ [\<lparr>lv_dom = a, lv_ctx = ctx, lv_exec = i\<rparr>]; w = set_dom a (s, d) w in
                     case subdomain (the (executions d i)) of
                       None \<Rightarrow> Some (Inr (Reached, lvs, w))
                     | Some x \<Rightarrow>
                         (case wk_doms w x of
                            None \<Rightarrow> Some (Inl Missing_entry)
                          | Some (sx, dx) \<Rightarrow>
                              if domain_is_empty dx
                              then Some (Inr (Sub_empty, lvs, set_dom a (s, remove_subdomain i d) w))
                              else if \<not> sched_has_active sx
                              then (case parent_domain dx of
                                      None \<Rightarrow> Some (Inl Missing_entry)
                                    | Some pa \<Rightarrow>
                                        Some (obind (on_dom pa (sched_suspend i) w) (\<lambda>w. Inr (Sub_idle, lvs, w))))
                              else descend n x lvs w)))))"

fun begin_all :: "u64 \<Rightarrow> level list \<Rightarrow> worker_state \<Rightarrow> worker_state outcome" where
  "begin_all tsc [] w = Inr w"
| "begin_all tsc (l # ls) w =
     obind (on_dom (lv_dom l) (\<lambda>(s, d). Inr (sched_begin tsc (lv_ctx l) s, d)) w) (begin_all tsc ls)"

text \<open>Only the first, that is the innermost, is told whether it completed.\<close>

fun end_all :: "u64 \<Rightarrow> bool \<Rightarrow> level list \<Rightarrow> worker_state \<Rightarrow> worker_state outcome" where
  "end_all tsc completed [] w = Inr w"
| "end_all tsc completed (l # ls) w =
     obind (on_dom (lv_dom l) (sched_end tsc (lv_ctx l) completed) w) (end_all tsc False ls)"

definition worker_cleanup :: "nat \<Rightarrow> handle \<Rightarrow> nat list \<Rightarrow> worker_state \<Rightarrow> (bool \<times> worker_state) outcome" where
  "worker_cleanup a i toks w = on_exec a i toks cancel_cleanup w"

text \<open>\<open>execute\<close>, with the contexts that belong to the schedulers; the reads of the clock are \<open>tb\<close> and \<open>te\<close>.\<close>

definition worker_execute ::
    "u64 \<Rightarrow> u64 \<Rightarrow> co_op list \<Rightarrow> co_end \<Rightarrow> level list \<Rightarrow> worker_state \<Rightarrow> (bool \<times> worker_state) outcome option" where
  "worker_execute tb te cops fin lvs w =
     (let a = lv_dom (last lvs); i = lv_exec (last lvs) in
      case exec_of a i w of
        None \<Rightarrow> Some (Inl Missing_entry)
      | Some e \<Rightarrow>
          if handle_stack e = [] then Some (Inr (False, w))
          else
            (let toks = take (cancel_src_stack_size e) (cancel_src_stack e) in
             case obind (begin_all tb lvs w) (worker_cleanup a i toks) of
               Inl er \<Rightarrow> Some (Inl er)
             | Inr (True, w) \<Rightarrow> Some (obind (end_all te True (rev lvs) w) (\<lambda>w. Inr (False, w)))
             | Inr (False, w) \<Rightarrow>
                 (case co_run a i cops w of
                    None \<Rightarrow> None
                  | Some (Inl er) \<Rightarrow> Some (Inl er)
                  | Some (Inr w) \<Rightarrow>
                      Some (obind (obind (if fin = End_return \<and> \<not> no_subdomain a i w then Inr w else co_finish a i fin w)
                               (worker_cleanup a i toks))
                        (\<lambda>(cancelled, w).
                           let alive = \<not> cancelled \<and> (case exec_of a i w of None \<Rightarrow> False | Some e \<Rightarrow> handle_stack e \<noteq> [])
                           in obind (end_all te (\<not> alive) (rev lvs) w) (\<lambda>w. Inr (alive, w)))))))"

text \<open>
  What \<open>run_once\<close> does when \<open>execute\<close> returned false. If the execution was cancelled, its frames are gone,
  and with them the proxy of its domain, if it had just made one.
\<close>

definition drop_subdomain :: "nat \<Rightarrow> handle \<Rightarrow> worker_state \<Rightarrow> worker_state" where
  "drop_subdomain a i w =
     (case exec_of a i w of
        None \<Rightarrow> w
      | Some e \<Rightarrow> (case subdomain e of None \<Rightarrow> w | Some x \<Rightarrow> w\<lparr>wk_doms := (wk_doms w)(x := None)\<rparr>))"

definition retire_execution :: "nat \<Rightarrow> handle \<Rightarrow> worker_state \<Rightarrow> worker_state outcome" where
  "retire_execution a i w =
     obind (on_dom a (\<lambda>(s, d). obind (sched_detach i s) (\<lambda>s. Inr (s, d)))
              ((drop_subdomain a i w)\<lparr>wk_metas := wk_metas w - {i}\<rparr>))
       (on_dom a (\<lambda>(s, d). Inr (s, domain_detach i d)))"

definition worker_turn :: "nat \<Rightarrow> u64 \<Rightarrow> u64 \<Rightarrow> co_op list \<Rightarrow> co_end \<Rightarrow> worker_state \<Rightarrow> worker_state outcome option" where
  "worker_turn n tb te cops fin w =
     (case descend n 0 [] w of
        None \<Rightarrow> None
      | Some (Inl e) \<Rightarrow> Some (Inl e)
      | Some (Inr (Reached, lvs, w)) \<Rightarrow>
          (case worker_execute tb te cops fin lvs w of
             None \<Rightarrow> None
           | Some (Inl e) \<Rightarrow> Some (Inl e)
           | Some (Inr (True, w)) \<Rightarrow> Some (Inr w)
           | Some (Inr (False, w)) \<Rightarrow> Some (retire_execution (lv_dom (last lvs)) (lv_exec (last lvs)) w))
      | Some (Inr (_, lvs, w)) \<Rightarrow> Some (obind (begin_all tb lvs w) (end_all te False (rev lvs))))"

section \<open>Sessions of a worker\<close>

text \<open>
  A task arrives, somebody awakes an execution or asks a source to stop, and turns. A turn needs
  something to run, and the entry it takes is one of least priority.
\<close>

datatype worker_action =
    Wk_task handle nat
  | Wk_awake nat handle
  | Wk_stop nat
  | Wk_turn nat u64 u64 "co_op list" co_end

definition worker_meant :: "worker_action \<Rightarrow> worker_state \<Rightarrow> bool" where
  "worker_meant act w =
     (case act of
        Wk_task h _ \<Rightarrow> \<not> exec_alive 0 h w
      | Wk_awake a i \<Rightarrow> exec_alive a i w
      | Wk_stop _ \<Rightarrow> True
      | Wk_turn n _ _ _ _ \<Rightarrow> (case wk_doms w 0 of Some (Dynprio p, _) \<Rightarrow> dyn_is_top n (dp_active p) | _ \<Rightarrow> False))"

fun worker_do :: "worker_action \<Rightarrow> worker_state \<Rightarrow> worker_state outcome option" where
  "worker_do (Wk_task h src) w = Some (attach_task h src w)"
| "worker_do (Wk_awake a i) w = awake_at a i w"
| "worker_do (Wk_stop src) w = Some (Inr (w\<lparr>wk_stopped := insert src (wk_stopped w)\<rparr>))"
| "worker_do (Wk_turn n tb te cops fin) w = worker_turn n tb te cops fin w"

fun worker_session :: "worker_action list \<Rightarrow> worker_state \<Rightarrow> worker_state outcome option" where
  "worker_session [] w = Some (Inr w)"
| "worker_session (act # acts) w =
     (if worker_meant act w
      then (case worker_do act w of
              None \<Rightarrow> None
            | Some (Inl e) \<Rightarrow> Some (Inl e)
            | Some (Inr w) \<Rightarrow> worker_session acts w)
      else worker_session acts w)"

end
