(* ===== verification/Worker_Sched.thy ===== *)
theory Worker_Sched
  imports Worker
begin

text \<open>
  What a scheduler (of either kind) and its domain keep of each other, through every operation.
\<close>

section \<open>A scheduler and its domain\<close>

text \<open>
  \<open>sched_active\<close>: the scheduler can choose the execution; \<open>sched_flag\<close>, \<open>sched_token\<close>: a suspension of the
  execution that runs was announced, an awakening is pending.
\<close>

definition sched_active :: "sched \<Rightarrow> handle \<Rightarrow> bool" where
  "sched_active s i =
     (case s of
        Cycle c \<Rightarrow> (case cyc_find i c of None \<Rightarrow> False | Some j \<Rightarrow> ce_active (cs_entries c ! j))
      | Dynprio p \<Rightarrow> i \<in> fst ` set (dp_active p))"

definition sched_flag :: "sched \<Rightarrow> handle \<Rightarrow> bool" where
  "sched_flag s i =
     (case s of
        Cycle c \<Rightarrow> (case cyc_find i c of None \<Rightarrow> False | Some j \<Rightarrow> ce_suspend_now (cs_entries c ! j))
      | Dynprio p \<Rightarrow> dp_current_suspend p)"

definition sched_token :: "sched \<Rightarrow> handle \<Rightarrow> bool" where
  "sched_token s i =
     (case s of
        Cycle c \<Rightarrow> (case cyc_find i c of None \<Rightarrow> False | Some j \<Rightarrow> ce_preawaken (cs_entries c ! j))
      | Dynprio p \<Rightarrow> i \<in> dp_preawake p)"

definition ctx_ok :: "sched \<Rightarrow> nat \<Rightarrow> handle \<Rightarrow> bool" where
  "ctx_ok s ctx i = (case s of Cycle c \<Rightarrow> cyc_find i c = Some ctx | Dynprio p \<Rightarrow> ctx = i)"

lemmas sched_view = sched_active_def sched_flag_def sched_token_def ctx_ok_def

definition cyc_entry_ok :: "handle option \<Rightarrow> domain \<Rightarrow> handle \<Rightarrow> cyc_entry \<Rightarrow> bool" where
  "cyc_entry_ok cur d i e \<longleftrightarrow>
     (if ce_detached e then \<not> ce_active e \<and> executions d i = None \<and> cur \<noteq> Some i
      else ce_id e = i \<and> executions d i \<noteq> None) \<and>
     (ce_suspend_now e \<longrightarrow> cur = Some i) \<and> (cur = Some i \<longrightarrow> ce_active e)"

definition cyc_ok :: "handle option \<Rightarrow> cycle_scheduler \<Rightarrow> domain \<Rightarrow> bool" where
  "cyc_ok cur c d \<longleftrightarrow>
     length (cs_index_map c) = length (cs_entries c) \<and> length (cs_entries c) < 2 ^ 64 \<and>
     distinct (map fst (cs_index_map c)) \<and>
     (\<forall>j<length (cs_entries c). snd (cs_index_map c ! j) = j \<and>
        cyc_entry_ok cur d (fst (cs_index_map c ! j)) (cs_entries c ! j)) \<and>
     (\<forall>k. executions d k \<noteq> None \<longrightarrow> k \<in> fst ` set (cs_index_map c)) \<and>
     cs_active_count c = of_nat (count_if ce_active (cs_entries c)) \<and>
     (\<forall>i. cur = Some i \<longrightarrow> executions d i \<noteq> None)"

definition dyn_ok :: "handle option \<Rightarrow> dynprio_scheduler \<Rightarrow> domain \<Rightarrow> bool" where
  "dyn_ok cur p d \<longleftrightarrow>
     (\<forall>k. (dp_ctx p k \<noteq> None) = (executions d k \<noteq> None)) \<and> distinct (map fst (dp_active p)) \<and>
     fst ` set (dp_active p) \<inter> dp_suspended p = {} \<and>
     fst ` set (dp_active p) \<union> dp_suspended p = {k. executions d k \<noteq> None} - set_option cur \<and>
     (\<forall>i. cur = Some i \<longrightarrow> executions d i \<noteq> None \<and> fst (dp_current p) = i) \<and>
     (cur = None \<longrightarrow> \<not> dp_current_suspend p)"

definition states_ok :: "handle option \<Rightarrow> sched \<Rightarrow> domain \<Rightarrow> bool" where
  "states_ok cur s d \<longleftrightarrow>
     (\<forall>k e. executions d k = Some e \<longrightarrow> exec_state e =
        (if cur = Some k then (if sched_flag s k then Exec_suspended else Exec_running)
         else if sched_active s k then Exec_active else Exec_suspended))"

definition sd_ok :: "handle option \<Rightarrow> sched \<times> domain \<Rightarrow> bool" where
  "sd_ok cur sd \<longleftrightarrow>
     (case fst sd of Cycle c \<Rightarrow> cyc_ok cur c (snd sd) | Dynprio p \<Rightarrow> dyn_ok cur p (snd sd)) \<and>
     states_ok cur (fst sd) (snd sd)"

text \<open>A domain without the states of its executions; the schedulers change nothing else of it.\<close>

definition erase :: "domain \<Rightarrow> domain" where
  "erase d = d\<lparr>executions := (\<lambda>k. map_option (\<lambda>e. e\<lparr>exec_state := Exec_active\<rparr>) (executions d k))\<rparr>"

definition set_state :: "handle \<Rightarrow> execution_state \<Rightarrow> domain \<Rightarrow> domain" where
  "set_state i st d = d\<lparr>executions := (executions d)(i := map_option (\<lambda>e. e\<lparr>exec_state := st\<rparr>) (executions d i))\<rparr>"

lemma executions_set_state [simp]:
  "executions (set_state i st d) k = (if k = i then map_option (\<lambda>e. e\<lparr>exec_state := st\<rparr>) (executions d i) else executions d k)"
  by (simp add: set_state_def)

lemma erase_set_state [simp]: "erase (set_state i st d) = erase d"
  by (auto simp: erase_def set_state_def fun_eq_iff option.map_comp comp_def)

lemma set_state_ok: "executions d i \<noteq> None \<Longrightarrow> domain_set_state i st d = Inr (set_state i st d)"
  by (auto simp: set_state_def)

lemma states_okI:
  assumes "\<And>k e. executions d k = Some e \<Longrightarrow> exec_state e =
        (if cur = Some k then (if sched_flag s k then Exec_suspended else Exec_running)
         else if sched_active s k then Exec_active else Exec_suspended)"
  shows "states_ok cur s d"
  using assms by (simp add: states_ok_def)

lemma states_okD:
  "states_ok cur s d \<Longrightarrow> executions d k = Some e \<Longrightarrow> exec_state e =
     (if cur = Some k then (if sched_flag s k then Exec_suspended else Exec_running)
      else if sched_active s k then Exec_active else Exec_suspended)"
  by (simp add: states_ok_def)

text \<open>The new states after a step on execution \<open>i\<close>.\<close>

lemma states_ok_set:
  assumes "states_ok cur s d"
    and "\<And>k. k \<noteq> i \<Longrightarrow> executions d k \<noteq> None \<Longrightarrow> (cur' = Some k) = (cur = Some k)"
    and "\<And>k. k \<noteq> i \<Longrightarrow> executions d k \<noteq> None \<Longrightarrow> sched_active s' k = sched_active s k"
    and "\<And>k. k \<noteq> i \<Longrightarrow> cur = Some k \<Longrightarrow> sched_flag s' k = sched_flag s k"
    and "st = (if cur' = Some i then (if sched_flag s' i then Exec_suspended else Exec_running)
         else if sched_active s' i then Exec_active else Exec_suspended)"
  shows "states_ok cur' s' (set_state i st d)"
proof (rule states_okI)
  fix k e assume e: "executions (set_state i st d) k = Some e"
  show "exec_state e = (if cur' = Some k then (if sched_flag s' k then Exec_suspended else Exec_running)
         else if sched_active s' k then Exec_active else Exec_suspended)"
  proof (cases "k = i")
    case True
    with e assms(5) show ?thesis by auto
  next
    case False
    with e have ex: "executions d k = Some e" by simp
    from states_okD [OF assms(1) ex] assms(2-4) [OF False] ex show ?thesis by auto
  qed
qed

lemma states_ok_same:
  assumes "states_ok cur s d" "\<And>k. executions d k \<noteq> None \<Longrightarrow> sched_active s' k = sched_active s k"
    "\<And>k. cur = Some k \<Longrightarrow> sched_flag s' k = sched_flag s k"
  shows "states_ok cur s' d"
  by (rule states_okI) (use assms states_okD [OF assms(1)] in auto)

section \<open>The round-robin scheduler keeps it\<close>

lemma cyc_okD:
  assumes "cyc_ok cur c d"
  shows "length (cs_index_map c) = length (cs_entries c)" "length (cs_entries c) < 2 ^ 64"
    "distinct (map fst (cs_index_map c))"
    "j < length (cs_entries c) \<Longrightarrow> snd (cs_index_map c ! j) = j"
    "j < length (cs_entries c) \<Longrightarrow> cyc_entry_ok cur d (fst (cs_index_map c ! j)) (cs_entries c ! j)"
    "executions d k \<noteq> None \<Longrightarrow> k \<in> fst ` set (cs_index_map c)"
    "cs_active_count c = of_nat (count_if ce_active (cs_entries c))"
    "cur = Some i \<Longrightarrow> executions d i \<noteq> None"
  using assms by (auto simp: cyc_ok_def)

lemma cyc_find_iff:
  assumes "cyc_ok cur c d"
  shows "cyc_find i c = Some j \<longleftrightarrow> j < length (cs_entries c) \<and> fst (cs_index_map c ! j) = i"
proof
  assume "cyc_find i c = Some j"
  then have "(i, j) \<in> set (cs_index_map c)" by (rule cyc_find_member)
  then obtain k where "k < length (cs_index_map c)" "cs_index_map c ! k = (i, j)" by (auto simp: in_set_conv_nth)
  with cyc_okD(1,4) [OF assms] show "j < length (cs_entries c) \<and> fst (cs_index_map c ! j) = i" by fastforce
next
  assume j: "j < length (cs_entries c) \<and> fst (cs_index_map c ! j) = i"
  have "find (\<lambda>p. fst p = i) (cs_index_map c) = Some (cs_index_map c ! j)"
    unfolding find_Some_iff
  proof (intro exI conjI allI impI)
    show "j < length (cs_index_map c)" using j cyc_okD(1) [OF assms] by simp
    show "fst (cs_index_map c ! k) \<noteq> i" if "k < j" for k
      using that j cyc_okD(1,3) [OF assms] by (auto simp: distinct_conv_nth)
  qed (use j in auto)
  with j cyc_okD(4) [OF assms] show "cyc_find i c = Some j" by (simp add: cyc_find_def)
qed

lemma cyc_find_alive:
  assumes "cyc_ok cur c d" "executions d i \<noteq> None"
  obtains j where "cyc_find i c = Some j" "j < length (cs_entries c)" "fst (cs_index_map c ! j) = i"
    "\<not> ce_detached (cs_entries c ! j)" "ce_id (cs_entries c ! j) = i"
proof -
  from cyc_okD(6) [OF assms] obtain j where "j < length (cs_index_map c)" "fst (cs_index_map c ! j) = i"
    by (auto simp: in_set_conv_nth)
  with cyc_okD(1) [OF assms(1)] have j: "j < length (cs_entries c)" "fst (cs_index_map c ! j) = i" by simp_all
  moreover have "cyc_find i c = Some j" using j cyc_find_iff [OF assms(1)] by blast
  ultimately show ?thesis
    using that [of j] cyc_okD(5) [OF assms(1) j(1)] assms(2) by (auto simp: cyc_entry_ok_def split: if_splits)
qed

text \<open>An entry is replaced by a consistent one.\<close>

lemma cyc_ok_update:
  assumes ok: "cyc_ok cur c d" and j: "j < length (cs_entries c)"
    and c': "cs_index_map c' = cs_index_map c" "cs_entries c' = (cs_entries c)[j := e]"
    and cnt: "cs_active_count c' = of_nat (count_if ce_active ((cs_entries c)[j := e]))"
    and ex: "\<And>k. k \<noteq> fst (cs_index_map c ! j) \<Longrightarrow> (executions d' k = None) = (executions d k = None)"
    and e: "cyc_entry_ok cur' d' (fst (cs_index_map c ! j)) e"
    and cur: "\<And>k. k \<noteq> fst (cs_index_map c ! j) \<Longrightarrow> (cur' = Some k) = (cur = Some k)"
    and cov: "executions d' (fst (cs_index_map c ! j)) \<noteq> None \<or> cur' \<noteq> Some (fst (cs_index_map c ! j))"
  shows "cyc_ok cur' c' d'"
  unfolding cyc_ok_def
proof (intro conjI allI impI)
  let ?i = "fst (cs_index_map c ! j)"
  note D = cyc_okD [OF ok]
  show "length (cs_index_map c') = length (cs_entries c')" "length (cs_entries c') < 2 ^ 64"
    "distinct (map fst (cs_index_map c'))" using D(1-3) by (simp_all add: c')
  show "cs_active_count c' = of_nat (count_if ce_active (cs_entries c'))" by (simp add: cnt c')
  show "k \<in> fst ` set (cs_index_map c')" if "executions d' k \<noteq> None" for k
  proof (cases "k = ?i")
    case True
    with j D(1) show ?thesis by (auto simp: c')
  next
    case False
    with that ex [of k] D(6) [of k] show ?thesis by (simp add: c')
  qed
  show "executions d' k \<noteq> None" if "cur' = Some k" for k
    using that cov cur [of k] ex [of k] D(8) [of k] by (cases "k = ?i") auto
  fix m assume m: "m < length (cs_entries c')"
  then have m': "m < length (cs_entries c)" by (simp add: c')
  show "snd (cs_index_map c' ! m) = m" using D(4) [OF m'] by (simp add: c')
  show "cyc_entry_ok cur' d' (fst (cs_index_map c' ! m)) (cs_entries c' ! m)"
  proof (cases "m = j")
    case True
    with e j show ?thesis by (simp add: c')
  next
    case False
    then have ne: "fst (cs_index_map c ! m) \<noteq> ?i"
      using D(1,3) m' j by (auto simp: distinct_conv_nth)
    from D(5) [OF m'] ex [OF ne] cur [OF ne] False show ?thesis
      by (simp add: c' cyc_entry_ok_def split: if_splits)
  qed
qed

lemma count_update_on:
  assumes "j < length xs" "\<not> P (xs ! j)" "P x"
  shows "count_if P (xs[j := x]) = Suc (count_if P xs)"
  using count_if_update [OF assms(1), of P x] assms(2,3) by simp

lemma count_update_off:
  assumes "j < length xs" "P (xs ! j)" "\<not> P x"
  shows "Suc (count_if P (xs[j := x])) = count_if P xs"
  using count_if_update [OF assms(1), of P x] assms(2,3) by simp

lemma count_update_same:
  assumes "j < length xs" "P (xs ! j) = P x"
  shows "count_if P (xs[j := x]) = count_if P xs"
  using count_if_update [OF assms(1), of P x] assms(2) by simp


lemma sd_ok_Cycle: "sd_ok cur (Cycle c, d) \<longleftrightarrow> cyc_ok cur c d \<and> states_ok cur (Cycle c) d"
  by (simp add: sd_ok_def)

lemma sd_ok_Dynprio: "sd_ok cur (Dynprio p, d) \<longleftrightarrow> dyn_ok cur p d \<and> states_ok cur (Dynprio p) d"
  by (simp add: sd_ok_def)

text \<open>Where the entries of the other executions are: not at \<open>j\<close>.\<close>

lemma cyc_find_other:
  assumes "cyc_ok cur c d" "cyc_find k c = Some l" "fst (cs_index_map c ! j) \<noteq> k"
  shows "l \<noteq> j"
  using assms cyc_find_iff by blast

lemma cyc_view_update:
  assumes ok: "cyc_ok cur c d" and j: "j < length (cs_entries c)" "fst (cs_index_map c ! j) = i"
    and c': "cs_index_map c' = cs_index_map c" "cs_entries c' = (cs_entries c)[j := e]"
  shows "sched_active (Cycle c') k = (if k = i then ce_active e else sched_active (Cycle c) k)"
    "sched_flag (Cycle c') k = (if k = i then ce_suspend_now e else sched_flag (Cycle c) k)"
    "sched_token (Cycle c') k = (if k = i then ce_preawaken e else sched_token (Cycle c) k)"
    "ctx_ok (Cycle c') ctx k = ctx_ok (Cycle c) ctx k"
proof -
  have f: "cyc_find k c' = cyc_find k c" for k by (simp add: cyc_find_def c')
  show "ctx_ok (Cycle c') ctx k = ctx_ok (Cycle c) ctx k" by (simp add: ctx_ok_def f)
  have "cyc_find i c = Some j" using cyc_find_iff [OF ok] j by blast
  moreover have "(cs_entries c)[j := e] ! l = cs_entries c ! l" if "cyc_find k c = Some l" "k \<noteq> i" for l
    using cyc_find_other [OF ok that(1), of j] that(2) j by simp
  ultimately show "sched_active (Cycle c') k = (if k = i then ce_active e else sched_active (Cycle c) k)"
    "sched_flag (Cycle c') k = (if k = i then ce_suspend_now e else sched_flag (Cycle c) k)"
    "sched_token (Cycle c') k = (if k = i then ce_preawaken e else sched_token (Cycle c) k)"
    using j(1) by (simp_all add: sched_view f c' split: option.splits)
qed

lemma cyc_suspend_ok:
  assumes ok: "sd_ok (Some i) (Cycle c, d)"
  shows "\<exists>c' d'. cyc_suspend i (c, d) = Inr (c', d') \<and> sd_ok (Some i) (Cycle c', d') \<and> erase d' = erase d \<and>
    (\<forall>k. sched_active (Cycle c') k = sched_active (Cycle c) k) \<and>
    (\<forall>ctx k. ctx_ok (Cycle c') ctx k = ctx_ok (Cycle c) ctx k)"
proof -
  from ok have c: "cyc_ok (Some i) c d" and st: "states_ok (Some i) (Cycle c) d" by (simp_all add: sd_ok_Cycle)
  from cyc_okD(8) [OF c refl] have alive: "executions d i \<noteq> None" .
  obtain j where j: "cyc_find i c = Some j" "j < length (cs_entries c)" "fst (cs_index_map c ! j) = i"
    "\<not> ce_detached (cs_entries c ! j)" "ce_id (cs_entries c ! j) = i"
    by (rule cyc_find_alive [OF c alive])
  let ?e = "cs_entries c ! j"
  have act: "ce_active ?e" using cyc_okD(5) [OF c j(2)] j(3) by (simp add: cyc_entry_ok_def)
  show ?thesis
  proof (cases "ce_preawaken ?e")
    case True
    let ?c = "cyc_update j (\<lambda>e. e\<lparr>ce_preawaken := False\<rparr>) c"
    let ?e' = "?e\<lparr>ce_preawaken := False\<rparr>"
    have c': "cs_index_map ?c = cs_index_map c" "cs_entries ?c = (cs_entries c)[j := ?e']" "cs_active_count ?c = cs_active_count c"
      by (simp_all add: cyc_update_def)
    note V = cyc_view_update [OF c j(2,3) c'(1,2)]
    have "cyc_ok (Some i) ?c d"
    proof (rule cyc_ok_update [OF c j(2) c'(1,2)])
      show "cs_active_count ?c = of_nat (count_if ce_active ((cs_entries c)[j := ?e']))"
        using count_update_same [OF j(2), of ce_active ?e'] cyc_okD(7) [OF c] by (simp add: c')
      show "cyc_entry_ok (Some i) d (fst (cs_index_map c ! j)) ?e'"
        using cyc_okD(5) [OF c j(2)] j(3,4) by (simp add: cyc_entry_ok_def)
    qed (use alive j in auto)
    moreover have "states_ok (Some i) (Cycle ?c) d"
      by (rule states_ok_same [OF st]) (use V act j in \<open>auto simp: sched_view\<close>)
    ultimately have "sd_ok (Some i) (Cycle ?c, d)" by (simp add: sd_ok_Cycle)
    moreover have "cyc_suspend i (c, d) = Inr (?c, d)" using j(1) True by (simp add: cyc_suspend_def)
    moreover have "\<forall>k. sched_active (Cycle ?c) k = sched_active (Cycle c) k"
      using V(1) act j(1) by (auto simp: sched_view)
    ultimately show ?thesis using V(4) by blast
  next
    case False
    let ?c = "cyc_update j (\<lambda>e. e\<lparr>ce_suspend_now := True\<rparr>) c"
    let ?e' = "?e\<lparr>ce_suspend_now := True\<rparr>"
    let ?d = "set_state i Exec_suspended d"
    have c': "cs_index_map ?c = cs_index_map c" "cs_entries ?c = (cs_entries c)[j := ?e']" "cs_active_count ?c = cs_active_count c"
      by (simp_all add: cyc_update_def)
    note V = cyc_view_update [OF c j(2,3) c'(1,2)]
    have "cyc_ok (Some i) ?c ?d"
    proof (rule cyc_ok_update [OF c j(2) c'(1,2)])
      show "cs_active_count ?c = of_nat (count_if ce_active ((cs_entries c)[j := ?e']))"
        using count_update_same [OF j(2), of ce_active ?e'] cyc_okD(7) [OF c] by (simp add: c')
      show "cyc_entry_ok (Some i) ?d (fst (cs_index_map c ! j)) ?e'"
        using cyc_okD(5) [OF c j(2)] j(3,4) alive by (simp add: cyc_entry_ok_def)
    qed (use alive j in auto)
    moreover have "states_ok (Some i) (Cycle ?c) ?d"
      by (rule states_ok_set [OF st]) (use V act j in \<open>auto simp: sched_view\<close>)
    ultimately have "sd_ok (Some i) (Cycle ?c, ?d)" by (simp add: sd_ok_Cycle)
    moreover have "cyc_suspend i (c, d) = Inr (?c, ?d)"
      using j(1) False alive by (simp add: cyc_suspend_def suspend_execution_def set_state_ok Let_def)
    moreover have "\<forall>k. sched_active (Cycle ?c) k = sched_active (Cycle c) k"
      using V(1) act j(1) by (auto simp: sched_view)
    ultimately show ?thesis using V(4) by (metis erase_set_state)
  qed
qed

lemma cyc_awake_ok:
  assumes ok: "sd_ok cur (Cycle c, d)" and alive: "executions d i \<noteq> None"
  shows "\<exists>c' d'. cyc_awake i (c, d) = Inr (c', d') \<and> sd_ok cur (Cycle c', d') \<and> erase d' = erase d \<and>
    (\<forall>k. sched_active (Cycle c') k = (sched_active (Cycle c) k \<or> k = i)) \<and>
    (\<forall>k. sched_flag (Cycle c') k = sched_flag (Cycle c) k) \<and>
    (\<forall>k. cur = Some k \<longrightarrow> sched_token (Cycle c') k = (sched_token (Cycle c) k \<or> k = i)) \<and>
    (\<forall>ctx k. ctx_ok (Cycle c') ctx k = ctx_ok (Cycle c) ctx k)"
proof -
  from ok have c: "cyc_ok cur c d" and st: "states_ok cur (Cycle c) d" by (simp_all add: sd_ok_Cycle)
  obtain j where j: "cyc_find i c = Some j" "j < length (cs_entries c)" "fst (cs_index_map c ! j) = i"
    "\<not> ce_detached (cs_entries c ! j)" "ce_id (cs_entries c ! j) = i"
    by (rule cyc_find_alive [OF c alive])
  let ?e = "cs_entries c ! j"
  note eok = cyc_okD(5) [OF c j(2)]
  show ?thesis
  proof (cases "ce_active ?e")
    case True
    let ?c = "cyc_update j (\<lambda>e. e\<lparr>ce_preawaken := True\<rparr>) c"
    let ?e' = "?e\<lparr>ce_preawaken := True\<rparr>"
    have c': "cs_index_map ?c = cs_index_map c" "cs_entries ?c = (cs_entries c)[j := ?e']" "cs_active_count ?c = cs_active_count c"
      by (simp_all add: cyc_update_def)
    note V = cyc_view_update [OF c j(2,3) c'(1,2)]
    have "cyc_ok cur ?c d"
    proof (rule cyc_ok_update [OF c j(2) c'(1,2)])
      show "cs_active_count ?c = of_nat (count_if ce_active ((cs_entries c)[j := ?e']))"
        using count_update_same [OF j(2), of ce_active ?e'] cyc_okD(7) [OF c] by (simp add: c')
      show "cyc_entry_ok cur d (fst (cs_index_map c ! j)) ?e'" using eok j(4) by (simp add: cyc_entry_ok_def)
    qed (use alive j in auto)
    moreover have "states_ok cur (Cycle ?c) d"
      by (rule states_ok_same [OF st]) (use V True j in \<open>auto simp: sched_view\<close>)
    ultimately have "sd_ok cur (Cycle ?c, d)" by (simp add: sd_ok_Cycle)
    moreover have "cyc_awake i (c, d) = Inr (?c, d)" using j(1) True by (simp add: cyc_awake_def)
    moreover have "\<forall>k. sched_active (Cycle ?c) k = (sched_active (Cycle c) k \<or> k = i)"
      "\<forall>k. sched_flag (Cycle ?c) k = sched_flag (Cycle c) k"
      "\<forall>k. cur = Some k \<longrightarrow> sched_token (Cycle ?c) k = (sched_token (Cycle c) k \<or> k = i)"
      using V True j(1) by (auto simp: sched_view)
    ultimately show ?thesis using V(4) by blast
  next
    case False
    let ?c = "(cyc_update j (\<lambda>e. e\<lparr>ce_suspend_now := False, ce_active := True\<rparr>) c)\<lparr>cs_active_count := cs_active_count c + 1\<rparr>"
    let ?e' = "?e\<lparr>ce_suspend_now := False, ce_active := True\<rparr>"
    let ?d = "set_state i Exec_active d"
    have c': "cs_index_map ?c = cs_index_map c" "cs_entries ?c = (cs_entries c)[j := ?e']" "cs_active_count ?c = cs_active_count c + 1"
      by (simp_all add: cyc_update_def)
    note V = cyc_view_update [OF c j(2,3) c'(1,2)]
    have cur: "cur \<noteq> Some i" and now: "\<not> ce_suspend_now ?e"
      using eok False j(3) by (auto simp: cyc_entry_ok_def)
    have "cyc_ok cur ?c ?d"
    proof (rule cyc_ok_update [OF c j(2) c'(1,2)])
      show "cs_active_count ?c = of_nat (count_if ce_active ((cs_entries c)[j := ?e']))"
        using count_update_on [OF j(2), of ce_active ?e'] cyc_okD(7) [OF c] False by (simp add: c' add.commute)
      show "cyc_entry_ok cur ?d (fst (cs_index_map c ! j)) ?e'"
        using eok j(3-5) alive by (simp add: cyc_entry_ok_def)
    qed (use alive j in auto)
    moreover have "states_ok cur (Cycle ?c) ?d"
      by (rule states_ok_set [OF st]) (use V cur in auto)
    ultimately have "sd_ok cur (Cycle ?c, ?d)" by (simp add: sd_ok_Cycle)
    moreover have "cyc_awake i (c, d) = Inr (?c, ?d)"
      using j(1) False alive by (simp add: cyc_awake_def activate_execution_def set_state_ok Let_def cyc_update_def)
    moreover have "\<forall>k. sched_active (Cycle ?c) k = (sched_active (Cycle c) k \<or> k = i)"
      "\<forall>k. sched_flag (Cycle ?c) k = sched_flag (Cycle c) k"
      "\<forall>k. cur = Some k \<longrightarrow> sched_token (Cycle ?c) k = (sched_token (Cycle c) k \<or> k = i)"
      using V cur now j(1) by (auto simp: sched_view)
    ultimately show ?thesis using V(4) by (metis erase_set_state)
  qed
qed

lemma cyc_end_ok:
  assumes ok: "sd_ok (Some i) (Cycle c, d)" and ctx: "ctx_ok (Cycle c) ctx i"
  shows "\<exists>c' d'. cyc_end ctx completed (c, d) = Inr (c', d') \<and> sd_ok None (Cycle c', d') \<and> erase d' = erase d \<and>
    (\<forall>k. sched_active (Cycle c') k =
       (if k = i then \<not> (sched_flag (Cycle c) i \<and> \<not> sched_token (Cycle c) i \<or> completed) else sched_active (Cycle c) k))"
proof -
  from ok have c: "cyc_ok (Some i) c d" and st: "states_ok (Some i) (Cycle c) d" by (simp_all add: sd_ok_Cycle)
  from cyc_okD(8) [OF c refl] have alive: "executions d i \<noteq> None" .
  from ctx have f: "cyc_find i c = Some ctx" by (simp add: ctx_ok_def)
  obtain j where "cyc_find i c = Some j" and j: "j < length (cs_entries c)" "fst (cs_index_map c ! j) = i"
    "\<not> ce_detached (cs_entries c ! j)" "ce_id (cs_entries c ! j) = i"
    by (rule cyc_find_alive [OF c alive])
  with f have [simp]: "ctx = j" by simp
  let ?e = "cs_entries c ! j"
  note eok = cyc_okD(5) [OF c j(1)]
  have act: "ce_active ?e" using eok j(2) by (simp add: cyc_entry_ok_def)
  define park where "park = (ce_suspend_now ?e \<and> \<not> ce_preawaken ?e \<or> completed)"
  let ?e' = "?e\<lparr>ce_active := \<not> park, ce_suspend_now := False\<rparr>"
  let ?c = "c\<lparr>cs_entries := (cs_entries c)[j := ?e'],
      cs_active_count := (if park then cs_active_count c - 1 else cs_active_count c)\<rparr>"
  let ?d = "set_state i (if park then Exec_suspended else Exec_active) d"
  have c': "cs_index_map ?c = cs_index_map c" "cs_entries ?c = (cs_entries c)[j := ?e']" by simp_all
  note V = cyc_view_update [OF c j(1,2) c']
  have su: "suspend_execution i d = Inr (set_state i Exec_suspended d)"
    "activate_execution i d = Inr (set_state i Exec_active d)"
    using alive by (simp_all add: domain_ops set_state_ok)
  have cend: "cyc_end j completed (c, d) = Inr (?c, ?d)"
  proof (cases park)
    case True
    then show ?thesis unfolding cyc_end_def Let_def prod.case park_def [symmetric]
      using j su by (simp add: cyc_update_def)
  next
    case False
    moreover have "?e\<lparr>ce_active := True, ce_suspend_now := False\<rparr> = ?e\<lparr>ce_suspend_now := False\<rparr>"
      using act by (cases ?e) simp
    ultimately show ?thesis unfolding cyc_end_def Let_def prod.case park_def [symmetric]
      using j su by (simp add: cyc_update_def)
  qed
  have "cyc_ok None ?c ?d"
  proof (rule cyc_ok_update [OF c j(1) c'])
    show "cs_active_count ?c = of_nat (count_if ce_active ((cs_entries c)[j := ?e']))"
    proof (cases park)
      case True
      then have "\<not> ce_active ?e'" by simp
      from count_update_off [OF j(1), of ce_active ?e', OF act this]
      have "(of_nat (count_if ce_active (cs_entries c)) :: u64) = of_nat (Suc (count_if ce_active ((cs_entries c)[j := ?e'])))"
        by simp
      with cyc_okD(7) [OF c] True show ?thesis by simp
    next
      case False
      with count_update_same [OF j(1), of ce_active ?e'] act cyc_okD(7) [OF c] show ?thesis by simp
    qed
    show "cyc_entry_ok None ?d (fst (cs_index_map c ! j)) ?e'"
      using j alive by (simp add: cyc_entry_ok_def)
  qed (use alive j in auto)
  moreover have "states_ok None (Cycle ?c) ?d"
    by (rule states_ok_set [OF st]) (use V in simp_all)
  ultimately have "sd_ok None (Cycle ?c, ?d)" by (simp add: sd_ok_Cycle)
  moreover have "sched_flag (Cycle c) i = ce_suspend_now ?e" "sched_token (Cycle c) i = ce_preawaken ?e"
    using f by (simp_all add: sched_view)
  ultimately show ?thesis
    using cend V(1) by (intro exI [of _ ?c] exI [of _ ?d]) (simp add: park_def)
qed


lemma cyc_current_view [simp]:
  "sched_active (Cycle (c\<lparr>cs_current := n\<rparr>)) = sched_active (Cycle c)"
  "sched_flag (Cycle (c\<lparr>cs_current := n\<rparr>)) = sched_flag (Cycle c)"
  "sched_token (Cycle (c\<lparr>cs_current := n\<rparr>)) = sched_token (Cycle c)"
  "ctx_ok (Cycle (c\<lparr>cs_current := n\<rparr>)) = ctx_ok (Cycle c)"
proof -
  have "cyc_find i (c\<lparr>cs_current := n\<rparr>) = cyc_find i c" for i by (simp add: cyc_find_def)
  then show "sched_active (Cycle (c\<lparr>cs_current := n\<rparr>)) = sched_active (Cycle c)"
    "sched_flag (Cycle (c\<lparr>cs_current := n\<rparr>)) = sched_flag (Cycle c)"
    "sched_token (Cycle (c\<lparr>cs_current := n\<rparr>)) = sched_token (Cycle c)"
    "ctx_ok (Cycle (c\<lparr>cs_current := n\<rparr>)) = ctx_ok (Cycle c)"
    by (simp_all add: sched_view fun_eq_iff split: option.split)
qed

lemma cyc_schedule_returns:
  assumes "k < length (cs_entries s)" "cyc_eligible s k"
  shows "\<exists>j n. cyc_schedule s = Some (j, s\<lparr>cs_current := n\<rparr>) \<and> j < length (cs_entries s) \<and> cyc_eligible s j"
proof -
  let ?P = "\<lambda>m. cyc_eligible s (cs_current s + m)"
  obtain m0 where "(cs_current s + m0) mod length (cs_entries s) = k"
    using residue_ahead [OF assms(1)] by blast
  then have "?P m0" using assms(2) by (metis cyc_eligible_mod)
  then have m: "?P (LEAST m. ?P m)" "\<forall>l<LEAST m. ?P m. \<not> ?P l"
    by (auto intro: LeastI dest: not_less_Least)
  have "0 < length (cs_entries s)" using assms(1) by (cases "cs_entries s") auto
  then show ?thesis
    using cyc_schedule_next [OF m] m(1) by (metis cyc_eligible_mod mod_less_divisor)
qed

lemma cyc_has_active_iff:
  assumes "cyc_ok cur c d"
  shows "cyc_has_active c \<longleftrightarrow> (\<exists>j<length (cs_entries c). ce_active (cs_entries c ! j))"
proof -
  let ?n = "count_if ce_active (cs_entries c)"
  have "?n < 2 ^ 64" using count_if_le_length [of ce_active "cs_entries c"] cyc_okD(2) [OF assms] by linarith
  then have "unat (of_nat ?n :: u64) = ?n" by (simp add: unat_of_nat)
  moreover have "cyc_has_active c \<longleftrightarrow> unat (cs_active_count c) > 0"
    by (simp add: cyc_has_active_def unat_gt_0 word_neq_0_conv)
  ultimately have "cyc_has_active c \<longleftrightarrow> ?n > 0" using cyc_okD(7) [OF assms] by simp
  also have "\<dots> \<longleftrightarrow> (\<exists>j<length (cs_entries c). ce_active (cs_entries c ! j))"
    by (auto simp: filter_empty_conv in_set_conv_nth) (meson nth_mem)
  finally show ?thesis .
qed

lemma cyc_has_active_exec:
  assumes "cyc_ok cur c d"
  shows "cyc_has_active c \<longleftrightarrow> (\<exists>k. executions d k \<noteq> None \<and> sched_active (Cycle c) k)"
proof
  assume "cyc_has_active c"
  then obtain j where j: "j < length (cs_entries c)" "ce_active (cs_entries c ! j)"
    using cyc_has_active_iff [OF assms] by blast
  moreover have "cyc_find (fst (cs_index_map c ! j)) c = Some j" using cyc_find_iff [OF assms] j(1) by blast
  moreover have "executions d (fst (cs_index_map c ! j)) \<noteq> None"
    using cyc_okD(5) [OF assms j(1)] j(2) by (auto simp: cyc_entry_ok_def split: if_splits)
  ultimately show "\<exists>k. executions d k \<noteq> None \<and> sched_active (Cycle c) k"
    by (intro exI [of _ "fst (cs_index_map c ! j)"]) (simp add: sched_view)
next
  assume "\<exists>k. executions d k \<noteq> None \<and> sched_active (Cycle c) k"
  then obtain k j where "cyc_find k c = Some j" "ce_active (cs_entries c ! j)"
    by (auto simp: sched_view split: option.splits)
  then show "cyc_has_active c" using cyc_has_active_iff [OF assms] cyc_find_iff [OF assms] by blast
qed

lemma cyc_schedule_ok:
  assumes ok: "sd_ok None (Cycle c, d)" and some: "cyc_has_active c"
  shows "\<exists>j n i. cyc_schedule c = Some (j, c\<lparr>cs_current := n\<rparr>) \<and> ce_id (cs_entries c ! j) = i \<and>
    executions d i \<noteq> None \<and> ctx_ok (Cycle c) j i \<and> sched_active (Cycle c) i \<and>
    sd_ok (Some i) (Cycle (c\<lparr>cs_current := n\<rparr>), set_state i Exec_running d)"
proof -
  from ok have c: "cyc_ok None c d" and st: "states_ok None (Cycle c) d" by (simp_all add: sd_ok_Cycle)
  from some obtain k where k: "k < length (cs_entries c)" "ce_active (cs_entries c ! k)"
    using cyc_has_active_iff [OF c] by blast
  then have "cyc_eligible c k" using cyc_okD(5) [OF c k(1)] by (auto simp: cyc_eligible_def cyc_entry_ok_def Let_def)
  from cyc_schedule_returns [OF k(1) this] obtain j n where
    j: "cyc_schedule c = Some (j, c\<lparr>cs_current := n\<rparr>)" "j < length (cs_entries c)" "cyc_eligible c j" by blast
  let ?e = "cs_entries c ! j"
  define i where "i = fst (cs_index_map c ! j)"
  from j(2,3) have e: "ce_active ?e" "\<not> ce_detached ?e" by (simp_all add: cyc_eligible_def Let_def)
  with cyc_okD(5) [OF c j(2)] have i: "ce_id ?e = i" "executions d i \<noteq> None" "\<not> ce_suspend_now ?e"
    by (auto simp: cyc_entry_ok_def i_def)
  have f: "cyc_find i c = Some j" using cyc_find_iff [OF c] j(2) by (simp add: i_def)
  have flag: "\<not> sched_flag (Cycle c) i" using i(3) f by (simp add: sched_view)
  have "cyc_ok (Some i) (c\<lparr>cs_current := n\<rparr>) (set_state i Exec_running d)"
    by (rule cyc_ok_update [OF c j(2), of _ ?e])
      (use cyc_okD(7) [OF c] e i in \<open>auto simp: cyc_entry_ok_def i_def\<close>)
  moreover have "states_ok (Some i) (Cycle (c\<lparr>cs_current := n\<rparr>)) (set_state i Exec_running d)"
    by (rule states_ok_set [OF st]) (use flag in auto)
  moreover have "sched_active (Cycle c) i" "ctx_ok (Cycle c) j i" using f e(1) by (simp_all add: sched_view)
  ultimately show ?thesis
    using j(1) i by (intro exI [of _ j] exI [of _ n] exI [of _ i]) (simp add: sd_ok_Cycle)
qed

lemma cyc_detach_ok:
  assumes ok: "sd_ok None (Cycle c, d)" and alive: "executions d i \<noteq> None" and park: "\<not> sched_active (Cycle c) i"
  shows "\<exists>c'. cyc_detach i c = Inr c' \<and> sd_ok None (Cycle c', domain_detach i d) \<and>
    (\<forall>k. sched_active (Cycle c') k = sched_active (Cycle c) k)"
proof -
  from ok have c: "cyc_ok None c d" and st: "states_ok None (Cycle c) d" by (simp_all add: sd_ok_Cycle)
  obtain j where j: "cyc_find i c = Some j" "j < length (cs_entries c)" "fst (cs_index_map c ! j) = i"
    "\<not> ce_detached (cs_entries c ! j)" "ce_id (cs_entries c ! j) = i"
    by (rule cyc_find_alive [OF c alive])
  let ?e = "cs_entries c ! j"
  let ?e' = "?e\<lparr>ce_detached := True, ce_id := 0\<rparr>"
  let ?c = "(cyc_update j (\<lambda>e. e\<lparr>ce_detached := True, ce_id := 0\<rparr>) c)\<lparr>cs_detached_count := cs_detached_count c + 1\<rparr>"
  have c': "cs_index_map ?c = cs_index_map c" "cs_entries ?c = (cs_entries c)[j := ?e']" "cs_active_count ?c = cs_active_count c"
    by (simp_all add: cyc_update_def)
  note V = cyc_view_update [OF c j(2,3) c'(1,2)]
  have act: "\<not> ce_active ?e" using park j(1) by (simp add: sched_view)
  have same: "sched_active (Cycle ?c) k = sched_active (Cycle c) k" for k
    using V(1) [of k] act park by simp
  have "cyc_ok None ?c (domain_detach i d)"
  proof (rule cyc_ok_update [OF c j(2) c'(1,2)])
    show "cs_active_count ?c = of_nat (count_if ce_active ((cs_entries c)[j := ?e']))"
      using count_update_same [OF j(2), of ce_active ?e'] cyc_okD(7) [OF c] by (simp add: c')
    show "cyc_entry_ok None (domain_detach i d) (fst (cs_index_map c ! j)) ?e'"
      using cyc_okD(5) [OF c j(2)] j(3) act by (simp add: cyc_entry_ok_def domain_detach_def)
  qed (use j in \<open>auto simp: domain_detach_def\<close>)
  moreover have "states_ok None (Cycle ?c) (domain_detach i d)"
    by (rule states_okI)
      (use same states_okD [OF st] in \<open>auto simp: domain_detach_def split: if_splits\<close>)
  moreover have "cyc_detach i c = Inr ?c" using j(1) act by (simp add: cyc_detach_def)
  ultimately show ?thesis using same by (intro exI [of _ ?c]) (simp add: sd_ok_Cycle)
qed

section \<open>The priority scheduler keeps it\<close>

lemma dyn_okD:
  assumes "dyn_ok cur p d"
  shows "(dp_ctx p k \<noteq> None) = (executions d k \<noteq> None)" "distinct (map fst (dp_active p))"
    "k \<in> fst ` set (dp_active p) \<Longrightarrow> k \<notin> dp_suspended p"
    "k \<in> fst ` set (dp_active p) \<or> k \<in> dp_suspended p \<longleftrightarrow> executions d k \<noteq> None \<and> cur \<noteq> Some k"
    "cur = Some i \<Longrightarrow> executions d i \<noteq> None" "cur = Some i \<Longrightarrow> fst (dp_current p) = i"
    "cur = None \<Longrightarrow> \<not> dp_current_suspend p"
proof -
  show "k \<in> fst ` set (dp_active p) \<or> k \<in> dp_suspended p \<longleftrightarrow> executions d k \<noteq> None \<and> cur \<noteq> Some k"
  proof -
    have "fst ` set (dp_active p) \<union> dp_suspended p = {k. executions d k \<noteq> None} - set_option cur"
      using assms by (simp add: dyn_ok_def)
    then have "k \<in> fst ` set (dp_active p) \<union> dp_suspended p \<longleftrightarrow> k \<in> {k. executions d k \<noteq> None} - set_option cur" by simp
    then show ?thesis by (cases cur) auto
  qed
qed (use assms in \<open>auto simp: dyn_ok_def\<close>)

lemma dyn_okI:
  assumes "\<And>k. (dp_ctx p k \<noteq> None) = (executions d k \<noteq> None)" "distinct (map fst (dp_active p))"
    "\<And>k. k \<in> fst ` set (dp_active p) \<Longrightarrow> k \<notin> dp_suspended p"
    "\<And>k. k \<in> fst ` set (dp_active p) \<or> k \<in> dp_suspended p \<longleftrightarrow> executions d k \<noteq> None \<and> cur \<noteq> Some k"
    "\<And>i. cur = Some i \<Longrightarrow> executions d i \<noteq> None \<and> fst (dp_current p) = i"
    "cur = None \<Longrightarrow> \<not> dp_current_suspend p"
  shows "dyn_ok cur p d"
proof -
  have "fst ` set (dp_active p) \<union> dp_suspended p = {k. executions d k \<noteq> None} - set_option cur"
  proof (rule set_eqI)
    fix k
    show "k \<in> fst ` set (dp_active p) \<union> dp_suspended p \<longleftrightarrow> k \<in> {k. executions d k \<noteq> None} - set_option cur"
      using assms(4) [of k] by (cases cur) auto
  qed
  moreover have "fst ` set (dp_active p) \<inter> dp_suspended p = {}" using assms(3) by blast
  ultimately show ?thesis using assms by (simp add: dyn_ok_def)
qed

lemma dyn_suspend_ok:
  assumes ok: "sd_ok (Some i) (Dynprio p, d)"
  shows "\<exists>p' d'. dyn_suspend i (p, d) = Inr (p', d') \<and> sd_ok (Some i) (Dynprio p', d') \<and> erase d' = erase d \<and>
    (\<forall>k. sched_active (Dynprio p') k = sched_active (Dynprio p) k)"
proof -
  from ok have p: "dyn_ok (Some i) p d" and st: "states_ok (Some i) (Dynprio p) d" by (simp_all add: sd_ok_Dynprio)
  note D = dyn_okD [OF p]
  have alive: "executions d i \<noteq> None" "dp_ctx p i \<noteq> None" "fst (dp_current p) = i" using D(1) [of i] D(5,6) by auto
  show ?thesis
  proof (cases "i \<in> dp_preawake p")
    case True
    let ?p = "p\<lparr>dp_preawake := dp_preawake p - {i}\<rparr>"
    have "dyn_ok (Some i) ?p d" using p by (simp add: dyn_ok_def)
    moreover have "states_ok (Some i) (Dynprio ?p) d"
      by (rule states_ok_same [OF st]) (simp_all add: sched_view)
    moreover have "dyn_suspend i (p, d) = Inr (?p, d)" using alive True by (auto simp: dyn_suspend_def)
    ultimately show ?thesis by (intro exI [of _ ?p] exI [of _ d]) (simp add: sd_ok_Dynprio sched_view)
  next
    case False
    let ?p = "p\<lparr>dp_current_suspend := True\<rparr>"
    let ?d = "set_state i Exec_suspended d"
    have "dyn_ok (Some i) ?p ?d" by (rule dyn_okI) (use D alive in auto)
    moreover have "states_ok (Some i) (Dynprio ?p) ?d"
      by (rule states_ok_set [OF st]) (simp_all add: sched_view)
    moreover have "dyn_suspend i (p, d) = Inr (?p, ?d)"
      using alive False by (auto simp: dyn_suspend_def suspend_execution_def set_state_ok)
    ultimately show ?thesis by (intro exI [of _ ?p] exI [of _ ?d]) (simp add: sd_ok_Dynprio sched_view)
  qed
qed

lemma dyn_awake_ok:
  assumes ok: "sd_ok cur (Dynprio p, d)" and alive: "executions d i \<noteq> None"
  shows "\<exists>p' d'. dyn_awake i (p, d) = Inr (p', d') \<and> sd_ok cur (Dynprio p', d') \<and> erase d' = erase d \<and>
    (\<forall>k. sched_active (Dynprio p') k \<or> cur = Some k \<longleftrightarrow> sched_active (Dynprio p) k \<or> cur = Some k \<or> k = i) \<and>
    (\<forall>k. sched_flag (Dynprio p') k = sched_flag (Dynprio p) k) \<and>
    (\<forall>k. cur = Some k \<longrightarrow> sched_token (Dynprio p') k = (sched_token (Dynprio p) k \<or> k = i))"
proof -
  from ok have p: "dyn_ok cur p d" and st: "states_ok cur (Dynprio p) d" by (simp_all add: sd_ok_Dynprio)
  note D = dyn_okD [OF p]
  have ctx: "dp_ctx p i \<noteq> None" using D(1) [of i] alive by auto
  show ?thesis
  proof (cases "i \<in> dp_suspended p")
    case True
    let ?p = "p\<lparr>dp_suspended := dp_suspended p - {i}, dp_active := dp_active p @ [(i, 0)]\<rparr>"
    let ?d = "set_state i Exec_active d"
    have cur: "cur \<noteq> Some i" and new: "i \<notin> fst ` set (dp_active p)" using D(3,4) [of i] True by auto
    have "dyn_ok cur ?p ?d"
    proof (rule dyn_okI)
      show "(k \<in> fst ` set (dp_active ?p) \<or> k \<in> dp_suspended ?p) = (executions ?d k \<noteq> None \<and> cur \<noteq> Some k)" for k
        using D(4) [of k] cur alive by auto
      show "k \<notin> dp_suspended ?p" if "k \<in> fst ` set (dp_active ?p)" for k
        using that D(3) [of k] by auto
      show "distinct (map fst (dp_active ?p))" using D(2) new by simp
    qed (use D ctx alive in auto)
    moreover have "states_ok cur (Dynprio ?p) ?d"
      by (rule states_ok_set [OF st]) (use cur in \<open>auto simp: sched_view\<close>)
    moreover have "dyn_awake i (p, d) = Inr (?p, ?d)"
      using ctx alive True by (auto simp: dyn_awake_def activate_execution_def set_state_ok)
    ultimately show ?thesis
      using cur by (intro exI [of _ ?p] exI [of _ ?d]) (auto simp: sd_ok_Dynprio sched_view)
  next
    case False
    let ?p = "p\<lparr>dp_preawake := insert i (dp_preawake p)\<rparr>"
    have "dyn_ok cur ?p d" using p by (simp add: dyn_ok_def)
    moreover have "states_ok cur (Dynprio ?p) d"
      by (rule states_ok_same [OF st]) (simp_all add: sched_view)
    moreover have "dyn_awake i (p, d) = Inr (?p, d)" using ctx False by (auto simp: dyn_awake_def)
    moreover have "i \<in> fst ` set (dp_active p) \<or> cur = Some i" using D(4) [of i] alive False by auto
    ultimately show ?thesis by (intro exI [of _ ?p] exI [of _ d]) (auto simp: sd_ok_Dynprio sched_view)
  qed
qed

lemma dyn_end_ok:
  assumes ok: "sd_ok (Some i) (Dynprio p, d)"
  shows "\<exists>p' d'. dyn_end tsc i completed (p, d) = Inr (p', d') \<and> sd_ok None (Dynprio p', d') \<and> erase d' = erase d \<and>
    (\<forall>k. sched_active (Dynprio p') k =
       (if k = i then \<not> (sched_flag (Dynprio p) i \<and> \<not> sched_token (Dynprio p) i \<or> completed) else sched_active (Dynprio p) k))"
proof -
  from ok have p: "dyn_ok (Some i) p d" and st: "states_ok (Some i) (Dynprio p) d" by (simp_all add: sd_ok_Dynprio)
  note D = dyn_okD [OF p]
  have alive: "executions d i \<noteq> None" "i \<notin> fst ` set (dp_active p)" "i \<notin> dp_suspended p" using D(4) [of i] D(5) by auto
  define park where "park = (dp_current_suspend p \<and> i \<notin> dp_preawake p \<or> completed)"
  let ?pre = "if dp_current_suspend p then dp_preawake p - {i} else dp_preawake p"
  let ?t = "snd (dp_current p) + (tsc - the (dp_ctx p i))"
  let ?p = "p\<lparr>dp_current_suspend := False, dp_active := (if park then dp_active p else dp_active p @ [(i, ?t)]),
     dp_suspended := (if park then insert i (dp_suspended p) else dp_suspended p), dp_preawake := ?pre\<rparr>"
  let ?d = "set_state i (if park then Exec_suspended else Exec_active) d"
  have su: "suspend_execution i d = Inr (set_state i Exec_suspended d)"
    "activate_execution i d = Inr (set_state i Exec_active d)"
    using alive by (simp_all add: domain_ops set_state_ok)
  have test: "dyn_end_test i completed p = (park, p\<lparr>dp_preawake := ?pre\<rparr>)"
    by (cases p) (auto simp: dyn_end_test_def park_def)
  have "dyn_end tsc i completed (p, d) = Inr (?p, ?d)"
    using alive(3) by (cases park) (simp_all add: dyn_end_def test dyn_end_apply_def su Let_def)
  moreover have "dyn_ok None ?p ?d"
  proof (rule dyn_okI)
    show "(k \<in> fst ` set (dp_active ?p) \<or> k \<in> dp_suspended ?p) = (executions ?d k \<noteq> None \<and> None \<noteq> Some k)" for k
      using D(4) [of k] alive by auto
    show "k \<notin> dp_suspended ?p" if "k \<in> fst ` set (dp_active ?p)" for k
      using that D(3) [of k] alive by (auto split: if_splits)
  qed (use D alive in auto)
  moreover have "states_ok None (Dynprio ?p) ?d"
    by (rule states_ok_set [OF st]) (use alive in \<open>auto simp: sched_view\<close>)
  ultimately show ?thesis
    using alive by (intro exI [of _ ?p] exI [of _ ?d]) (auto simp: sd_ok_Dynprio sched_view park_def)
qed

lemma dyn_schedule_ok:
  assumes ok: "sd_ok None (Dynprio p, d)" and n: "n < length (dp_active p)"
  shows "\<exists>i p'. dyn_schedule n p = Inr (i, p') \<and> executions d i \<noteq> None \<and> sched_active (Dynprio p) i \<and>
    sd_ok (Some i) (Dynprio p', set_state i Exec_running d) \<and>
    (\<forall>k. k \<noteq> i \<longrightarrow> sched_active (Dynprio p') k = sched_active (Dynprio p) k)"
proof -
  from ok have p: "dyn_ok None p d" and st: "states_ok None (Dynprio p) d" by (simp_all add: sd_ok_Dynprio)
  note D = dyn_okD [OF p]
  define q1 where "q1 = take n (dp_active p)"
  define e where "e = dp_active p ! n"
  define q2 where "q2 = drop (Suc n) (dp_active p)"
  let ?i = "fst e"
  let ?p = "p\<lparr>dp_current := e, dp_active := q1 @ q2\<rparr>"
  have split: "dp_active p = q1 @ e # q2"
    unfolding q1_def q2_def e_def by (rule id_take_nth_drop [OF n])
  have dist: "distinct (map fst (q1 @ e # q2))" using D(2) by (simp add: split)
  have others: "k \<in> fst ` set (dp_active ?p) \<longleftrightarrow> k \<in> fst ` set (dp_active p) \<and> k \<noteq> ?i" for k
    using dist unfolding split by (auto simp: image_iff)
  have i: "?i \<in> fst ` set (dp_active p)" by (simp add: split)
  with D(4) [of ?i] D(3) [of ?i] have alive: "executions d ?i \<noteq> None" "?i \<notin> dp_suspended p" by auto
  then have "dp_ctx p ?i \<noteq> None" using D(1) by blast
  with n have "dyn_schedule n p = Inr (?i, ?p)"
    by (auto simp: dyn_schedule_def Let_def simp flip: q1_def q2_def e_def)
  moreover have "dyn_ok (Some ?i) ?p (set_state ?i Exec_running d)"
  proof (rule dyn_okI)
    show "distinct (map fst (dp_active ?p))" using dist by simp
    show "(k \<in> fst ` set (dp_active ?p) \<or> k \<in> dp_suspended ?p) =
        (executions (set_state ?i Exec_running d) k \<noteq> None \<and> Some ?i \<noteq> Some k)" for k
      unfolding others using D(4) [of k] alive by auto
    show "k \<notin> dp_suspended ?p" if "k \<in> fst ` set (dp_active ?p)" for k
      using that D(3) [of k] unfolding others by simp
  qed (use D(1) alive in auto)
  moreover have "states_ok (Some ?i) (Dynprio ?p) (set_state ?i Exec_running d)"
    by (rule states_ok_set [OF st]) (use others D(7) in \<open>auto simp: sched_view\<close>)
  moreover have "\<forall>k. k \<noteq> ?i \<longrightarrow> sched_active (Dynprio ?p) k = sched_active (Dynprio p) k"
    unfolding sched_active_def sched.case others by simp
  moreover have "sched_active (Dynprio p) ?i" using i by (simp add: sched_view)
  ultimately show ?thesis
    using alive by (intro exI [of _ ?i] exI [of _ ?p]) (simp add: sd_ok_Dynprio)
qed

lemma dyn_detach_ok:
  assumes ok: "sd_ok None (Dynprio p, d)" and alive: "executions d i \<noteq> None" and park: "\<not> sched_active (Dynprio p) i"
  shows "sd_ok None (Dynprio (dyn_detach i p), domain_detach i d) \<and>
    (\<forall>k. sched_active (Dynprio (dyn_detach i p)) k = sched_active (Dynprio p) k)"
proof -
  from ok have p: "dyn_ok None p d" and st: "states_ok None (Dynprio p) d" by (simp_all add: sd_ok_Dynprio)
  note D = dyn_okD [OF p]
  have i: "i \<in> dp_suspended p" "i \<notin> fst ` set (dp_active p)" using D(4) [of i] alive park by (auto simp: sched_view)
  have "dyn_ok None (dyn_detach i p) (domain_detach i d)"
    by (rule dyn_okI) (use D i in \<open>auto simp: dyn_detach_def domain_detach_def\<close>)
  moreover have "states_ok None (Dynprio (dyn_detach i p)) (domain_detach i d)"
    by (rule states_okI)
      (use states_okD [OF st] i in \<open>auto simp: domain_detach_def dyn_detach_def sched_view split: if_splits\<close>)
  ultimately show ?thesis using i by (simp add: sd_ok_Dynprio sched_view dyn_detach_def)
qed

section \<open>Either scheduler\<close>

text \<open>Whether the execution that runs will be parked at the end of its turn.\<close>

definition sched_parks :: "sched \<Rightarrow> handle \<Rightarrow> bool" where
  "sched_parks s i \<longleftrightarrow> sched_flag s i \<and> \<not> sched_token s i"

lemma sd_ok_alive: "sd_ok (Some i) (s, d) \<Longrightarrow> executions d i \<noteq> None"
  using cyc_okD(8) dyn_okD(5) by (cases s) (auto simp: sd_ok_def)

lemma sched_suspend_ok:
  assumes "sd_ok (Some i) (s, d)"
  shows "\<exists>s' d'. sched_suspend i (s, d) = Inr (s', d') \<and> sd_ok (Some i) (s', d') \<and> erase d' = erase d \<and>
    (\<forall>k. sched_active s' k = sched_active s k) \<and> (\<forall>ctx k. ctx_ok s' ctx k = ctx_ok s ctx k)"
proof (cases s)
  case (Cycle c)
  with cyc_suspend_ok [of i c d] assms obtain c' d' where "cyc_suspend i (c, d) = Inr (c', d')"
    "sd_ok (Some i) (Cycle c', d')" "erase d' = erase d" "\<forall>k. sched_active (Cycle c') k = sched_active (Cycle c) k"
    "\<forall>ctx k. ctx_ok (Cycle c') ctx k = ctx_ok (Cycle c) ctx k" by blast
  with Cycle show ?thesis by (intro exI [of _ "Cycle c'"] exI [of _ d']) (simp add: sched_suspend_def)
next
  case (Dynprio p)
  with dyn_suspend_ok [of i p d] assms obtain p' d' where "dyn_suspend i (p, d) = Inr (p', d')"
    "sd_ok (Some i) (Dynprio p', d')" "erase d' = erase d" "\<forall>k. sched_active (Dynprio p') k = sched_active (Dynprio p) k"
    by blast
  with Dynprio show ?thesis
    by (intro exI [of _ "Dynprio p'"] exI [of _ d']) (simp add: sched_suspend_def ctx_ok_def)
qed

lemma sched_awake_ok:
  assumes ok: "sd_ok cur (s, d)" and alive: "executions d i \<noteq> None"
  shows "\<not> sched_ignores i s \<and> (\<exists>s' d'. sched_awake i (s, d) = Inr (s', d') \<and> sd_ok cur (s', d') \<and> erase d' = erase d \<and>
    (\<forall>k. sched_active s' k \<or> cur = Some k \<longleftrightarrow> sched_active s k \<or> cur = Some k \<or> k = i) \<and>
    (\<forall>k. cur = Some k \<longrightarrow> sched_parks s' k = (sched_parks s k \<and> k \<noteq> i)) \<and>
    (\<forall>ctx k. ctx_ok s' ctx k = ctx_ok s ctx k))"
proof (cases s)
  case (Cycle c)
  with cyc_awake_ok [of cur c d i] assms obtain c' d' where "cyc_awake i (c, d) = Inr (c', d')"
    "sd_ok cur (Cycle c', d')" "erase d' = erase d" "\<forall>k. sched_active (Cycle c') k = (sched_active (Cycle c) k \<or> k = i)"
    "\<forall>k. sched_flag (Cycle c') k = sched_flag (Cycle c) k"
    "\<forall>k. cur = Some k \<longrightarrow> sched_token (Cycle c') k = (sched_token (Cycle c) k \<or> k = i)"
    "\<forall>ctx k. ctx_ok (Cycle c') ctx k = ctx_ok (Cycle c) ctx k" by blast
  with Cycle show ?thesis
    by (intro conjI exI [of _ "Cycle c'"] exI [of _ d']) (auto simp: sched_awake_def sched_ignores_def sched_parks_def)
next
  case (Dynprio p)
  with dyn_awake_ok [of cur p d i] assms obtain p' d' where "dyn_awake i (p, d) = Inr (p', d')"
    "sd_ok cur (Dynprio p', d')" "erase d' = erase d"
    "\<forall>k. sched_active (Dynprio p') k \<or> cur = Some k \<longleftrightarrow> sched_active (Dynprio p) k \<or> cur = Some k \<or> k = i"
    "\<forall>k. sched_flag (Dynprio p') k = sched_flag (Dynprio p) k"
    "\<forall>k. cur = Some k \<longrightarrow> sched_token (Dynprio p') k = (sched_token (Dynprio p) k \<or> k = i)" by blast
  moreover have "dp_ctx p i \<noteq> None" using assms Dynprio dyn_okD(1) [of cur p d i] by (auto simp: sd_ok_def)
  ultimately show ?thesis using Dynprio
    by (intro conjI exI [of _ "Dynprio p'"] exI [of _ d'])
      (auto simp: sched_awake_def sched_ignores_def sched_parks_def ctx_ok_def)
qed

lemma sched_end_ok:
  assumes "sd_ok (Some i) (s, d)" "ctx_ok s ctx i"
  shows "\<exists>s' d'. sched_end tsc ctx completed (s, d) = Inr (s', d') \<and> sd_ok None (s', d') \<and> erase d' = erase d \<and>
    (\<forall>k. sched_active s' k = (if k = i then \<not> (sched_parks s i \<or> completed) else sched_active s k))"
proof (cases s)
  case (Cycle c)
  with cyc_end_ok [of i c d ctx completed] assms obtain c' d' where "cyc_end ctx completed (c, d) = Inr (c', d')"
    "sd_ok None (Cycle c', d')" "erase d' = erase d"
    "\<forall>k. sched_active (Cycle c') k =
       (if k = i then \<not> (sched_flag (Cycle c) i \<and> \<not> sched_token (Cycle c) i \<or> completed) else sched_active (Cycle c) k)"
    by blast
  with Cycle show ?thesis
    by (intro exI [of _ "Cycle c'"] exI [of _ d']) (simp add: sched_end_def sched_parks_def)
next
  case (Dynprio p)
  with assms(2) have [simp]: "ctx = i" by (simp add: ctx_ok_def)
  from dyn_end_ok [of i p d tsc completed] Dynprio assms(1) obtain p' d' where
    "dyn_end tsc i completed (p, d) = Inr (p', d')" "sd_ok None (Dynprio p', d')" "erase d' = erase d"
    "\<forall>k. sched_active (Dynprio p') k =
       (if k = i then \<not> (sched_flag (Dynprio p) i \<and> \<not> sched_token (Dynprio p) i \<or> completed) else sched_active (Dynprio p) k)"
    by blast
  with Dynprio show ?thesis
    by (intro exI [of _ "Dynprio p'"] exI [of _ d']) (simp add: sched_end_def sched_parks_def)
qed

lemma sched_begin_ok:
  assumes "sd_ok (Some i) (s, d)" "ctx_ok s ctx i"
  shows "sd_ok (Some i) (sched_begin tsc ctx s, d)" "sched_active (sched_begin tsc ctx s) k = sched_active s k"
    "sched_parks (sched_begin tsc ctx s) k = sched_parks s k" "ctx_ok (sched_begin tsc ctx s) c k = ctx_ok s c k"
proof -
  show "sched_active (sched_begin tsc ctx s) k = sched_active s k" "ctx_ok (sched_begin tsc ctx s) c k = ctx_ok s c k"
    "sched_parks (sched_begin tsc ctx s) k = sched_parks s k"
    by (simp_all add: sched_begin_def sched_parks_def sched_view dyn_begin_def split: sched.split)
  show "sd_ok (Some i) (sched_begin tsc ctx s, d)"
  proof (cases s)
    case (Cycle c)
    with assms show ?thesis by (simp add: sched_begin_def)
  next
    case (Dynprio p)
    with assms have p: "dyn_ok (Some i) p d" "states_ok (Some i) (Dynprio p) d" "ctx = i"
      by (simp_all add: sd_ok_Dynprio ctx_ok_def)
    have "dyn_ok (Some i) (dyn_begin tsc i p) d"
      by (rule dyn_okI) (use dyn_okD [OF p(1)] in \<open>auto simp: dyn_begin_def\<close>)
    moreover have "states_ok (Some i) (Dynprio (dyn_begin tsc i p)) d"
      by (rule states_ok_same [OF p(2)]) (simp_all add: sched_view dyn_begin_def)
    ultimately show ?thesis using Dynprio p(3) by (simp add: sched_begin_def sd_ok_Dynprio)
  qed
qed

text \<open>Whether \<open>n\<close> can be chosen.\<close>

definition sched_can :: "nat \<Rightarrow> sched \<Rightarrow> bool" where
  "sched_can n s = (case s of Cycle c \<Rightarrow> cyc_has_active c | Dynprio p \<Rightarrow> n < length (dp_active p))"

lemma sched_schedule_ok:
  assumes ok: "sd_ok None (s, d)" and can: "sched_can n s"
  shows "\<exists>i ctx s'. sched_schedule n s = Some (Inr (i, ctx, s')) \<and> executions d i \<noteq> None \<and> ctx_ok s' ctx i \<and>
    sched_active s i \<and> sd_ok (Some i) (s', set_state i Exec_running d) \<and>
    (\<forall>k. k \<noteq> i \<longrightarrow> sched_active s' k = sched_active s k) \<and> (\<exists>c. s' = Cycle c) = (\<exists>c. s = Cycle c)"
proof (cases s)
  case (Cycle c)
  with cyc_schedule_ok [of c d] assms obtain j n i where "cyc_schedule c = Some (j, c\<lparr>cs_current := n\<rparr>)"
    "ce_id (cs_entries c ! j) = i" "executions d i \<noteq> None" "ctx_ok (Cycle c) j i" "sched_active (Cycle c) i"
    "sd_ok (Some i) (Cycle (c\<lparr>cs_current := n\<rparr>), set_state i Exec_running d)"
    by (auto simp: sched_can_def)
  with Cycle show ?thesis
    by (intro exI [of _ i] exI [of _ j] exI [of _ "Cycle (c\<lparr>cs_current := n\<rparr>)"]) (simp add: sched_schedule_def)
next
  case (Dynprio p)
  with dyn_schedule_ok [of p d n] assms obtain i p' where "dyn_schedule n p = Inr (i, p')" "executions d i \<noteq> None"
    "sched_active (Dynprio p) i" "sd_ok (Some i) (Dynprio p', set_state i Exec_running d)"
    "\<forall>k. k \<noteq> i \<longrightarrow> sched_active (Dynprio p') k = sched_active (Dynprio p) k"
    by (auto simp: sched_can_def)
  with Dynprio show ?thesis
    by (intro exI [of _ i] exI [of _ i] exI [of _ "Dynprio p'"]) (simp add: sched_schedule_def ctx_ok_def)
qed

lemma sched_detach_ok:
  assumes "sd_ok None (s, d)" "executions d i \<noteq> None" "\<not> sched_active s i"
  shows "\<exists>s'. sched_detach i s = Inr s' \<and> sd_ok None (s', domain_detach i d) \<and>
    (\<forall>k. sched_active s' k = sched_active s k) \<and> (\<exists>c. s' = Cycle c) = (\<exists>c. s = Cycle c)"
proof (cases s)
  case (Cycle c)
  with cyc_detach_ok [of c d i] assms show ?thesis by (auto simp: sched_detach_def)
next
  case (Dynprio p)
  with dyn_detach_ok [of p d i] assms show ?thesis by (auto simp: sched_detach_def)
qed

lemma sched_has_active_iff:
  assumes "sd_ok cur (Cycle c, d)"
  shows "sched_has_active (Cycle c) \<longleftrightarrow> (\<exists>k. executions d k \<noteq> None \<and> sched_active (Cycle c) k)"
  using cyc_has_active_exec [of cur c d] assms by (simp add: sched_has_active_def sd_ok_Cycle)

lemma sched_active_alive:
  assumes "sd_ok cur (s, d)" "sched_active s k"
  shows "executions d k \<noteq> None"
proof (cases s)
  case (Cycle c)
  with assms have c: "cyc_ok cur c d" by (simp add: sd_ok_Cycle)
  from Cycle assms(2) obtain j where j: "cyc_find k c = Some j" "ce_active (cs_entries c ! j)"
    by (auto simp: sched_view split: option.splits)
  then have "j < length (cs_entries c)" "fst (cs_index_map c ! j) = k" using cyc_find_iff [OF c] by blast+
  with cyc_okD(5) [OF c, of j] j(2) show ?thesis by (simp add: cyc_entry_ok_def split: if_splits)
next
  case (Dynprio p)
  with dyn_okD(4) [of cur p d k] assms show ?thesis by (auto simp: sd_ok_Dynprio sched_view)
qed

text \<open>Scheduler and domain agree about everything but the parts of the executions that no scheduler looks at.\<close>

lemma sd_ok_frame:
  assumes ok: "sd_ok cur (s, d)"
    and same: "\<And>k. map_option exec_state (executions d' k) = map_option exec_state (executions d k)"
  shows "sd_ok cur (s, d')"
proof -
  have alive: "(executions d' k = None) = (executions d k = None)" for k
    using same [of k] by (metis option.map_disc_iff)
  have "states_ok cur s d'"
  proof (rule states_okI)
    fix k e assume e: "executions d' k = Some e"
    with same [of k] obtain e0 where "executions d k = Some e0" "exec_state e0 = exec_state e"
      by (cases "executions d k") auto
    with states_okD [of cur s d k e0] ok show "exec_state e =
       (if cur = Some k then (if sched_flag s k then Exec_suspended else Exec_running)
        else if sched_active s k then Exec_active else Exec_suspended)"
      by (simp add: sd_ok_def)
  qed
  moreover have "cyc_ok cur c d' = cyc_ok cur c d" for c
    by (simp add: cyc_ok_def cyc_entry_ok_def alive)
  moreover have "dyn_ok cur p d' = dyn_ok cur p d" for p
    by (simp add: dyn_ok_def alive)
  ultimately show ?thesis using ok by (cases s) (simp_all add: sd_ok_def)
qed

end
