(* ===== verification/Worker_Spec.thy ===== *)
theory Worker_Spec
  imports Worker_Sched
begin

text \<open>
  Correctness of the turns of a worker: the tree of domains, which every turn and every awakening keeps, and
  that no work is lost: above an execution that can run, every owner can run.
\<close>

section \<open>The invariant\<close>

text \<open>What no scheduler and no coroutine changes of a domain once its executions are attached.\<close>

definition core :: "domain \<Rightarrow> domain" where
  "core d = d\<lparr>execution_list := {}, corohandle_exec_map := Map.empty,
     executions := (\<lambda>k. map_option (\<lambda>e. e\<lparr>exec_state := Exec_active, handle_stack := [], cancel_callback_stack := []\<rparr>) (executions d k))\<rparr>"

definition is_cycle :: "sched \<Rightarrow> bool" where
  "is_cycle s = (case s of Cycle _ \<Rightarrow> True | Dynprio _ \<Rightarrow> False)"

definition shape :: "worker_state \<Rightarrow> nat \<Rightarrow> (bool \<times> domain) option" where
  "shape w a = map_option (\<lambda>sd. (is_cycle (fst sd), core (snd sd))) (wk_doms w a)"

text \<open>The tree of domains: \<open>dep\<close> is the depth of the nesting.\<close>

definition exec_fit :: "(nat \<Rightarrow> nat) \<Rightarrow> (nat \<Rightarrow> (bool \<times> domain) option) \<Rightarrow> nat \<Rightarrow> handle \<Rightarrow> execution \<Rightarrow> bool" where
  "exec_fit dep T a i e \<longleftrightarrow>
     cancel_src_stack_size e = dep a + 1 \<and> dep a < nest_max_depth \<and> length (cancel_src_stack e) = nest_max_depth + 1 \<and>
     (\<forall>x. subdomain e = Some x \<longrightarrow> x \<noteq> 0 \<and> dep x = dep a + 1 \<and>
        (\<exists>b d. T x = Some (b, d) \<and> parent_domain d = Some a \<and> parent_execution d = i))"

definition owned :: "(nat \<Rightarrow> (bool \<times> domain) option) \<Rightarrow> nat \<Rightarrow> domain \<Rightarrow> bool" where
  "owned T x d \<longleftrightarrow>
     (\<exists>a b da e. parent_domain d = Some a \<and> T a = Some (b, da) \<and>
        executions da (parent_execution d) = Some e \<and> subdomain e = Some x)"

definition tree_ok :: "(nat \<Rightarrow> nat) \<Rightarrow> (nat \<Rightarrow> (bool \<times> domain) option) \<Rightarrow> bool" where
  "tree_ok dep T \<longleftrightarrow>
     (\<exists>d. T 0 = Some (False, d) \<and> parent_domain d = None) \<and> dep 0 = 0 \<and>
     (\<forall>a b d. a \<noteq> 0 \<longrightarrow> T a = Some (b, d) \<longrightarrow> b) \<and>
     (\<forall>a b d i e. T a = Some (b, d) \<longrightarrow> executions d i = Some e \<longrightarrow> exec_fit dep T a i e) \<and>
     (\<forall>x b d k. x \<noteq> 0 \<longrightarrow> T x = Some (b, d) \<longrightarrow> executions d k \<noteq> None \<longrightarrow> owned T x d)"

text \<open>
  The stack of an execution begins with its own handle; only the executions of \<open>Z\<close> (which have
  just ended) may have none.
\<close>

definition stacks_ok :: "(nat \<times> handle) set \<Rightarrow> worker_state \<Rightarrow> bool" where
  "stacks_ok Z w \<longleftrightarrow>
     (\<forall>a i e. exec_of a i w = Some e \<longrightarrow>
        (if handle_stack e = [] then (a, i) \<in> Z else hd (handle_stack e) = i))"

text \<open>
  \<open>cur\<close> says which execution of a domain runs. An execution stays if it can run after the turn. A domain that
  has something to run (or runs) needs an owner that stays.
\<close>

definition stay :: "handle option \<Rightarrow> sched \<Rightarrow> handle \<Rightarrow> bool" where
  "stay c s i = (if c = Some i then \<not> sched_parks s i else sched_active s i)"

definition busy_sched :: "handle option \<Rightarrow> sched \<Rightarrow> bool" where
  "busy_sched c s \<longleftrightarrow> c \<noteq> None \<or> (\<exists>k. sched_active s k)"

definition stays :: "(nat \<Rightarrow> handle option) \<Rightarrow> worker_state \<Rightarrow> nat \<Rightarrow> handle \<Rightarrow> bool" where
  "stays cur w a i = (case wk_doms w a of None \<Rightarrow> False | Some sd \<Rightarrow> stay (cur a) (fst sd) i)"

definition busy :: "(nat \<Rightarrow> handle option) \<Rightarrow> worker_state \<Rightarrow> nat \<Rightarrow> bool" where
  "busy cur w x = (case wk_doms w x of None \<Rightarrow> False | Some sd \<Rightarrow> busy_sched (cur x) (fst sd))"

definition linked :: "(nat \<Rightarrow> handle option) \<Rightarrow> worker_state \<Rightarrow> nat \<Rightarrow> bool" where
  "linked cur w x \<longleftrightarrow>
     (busy cur w x \<longrightarrow> (\<forall>b d. shape w x = Some (b, d) \<longrightarrow> stays cur w (the (parent_domain d)) (parent_execution d)))"

definition worker_inv :: "(nat \<Rightarrow> nat) \<Rightarrow> (nat \<Rightarrow> handle option) \<Rightarrow> nat set \<Rightarrow> (nat \<times> handle) set \<Rightarrow> worker_state \<Rightarrow> bool" where
  "worker_inv dep cur X Z w \<longleftrightarrow>
     (\<forall>a sd. wk_doms w a = Some sd \<longrightarrow> sd_ok (cur a) sd) \<and> (\<forall>a. wk_doms w a = None \<longrightarrow> cur a = None) \<and>
     tree_ok dep (shape w) \<and> stacks_ok Z w \<and> (\<forall>x. x \<noteq> 0 \<longrightarrow> x \<notin> X \<longrightarrow> linked cur w x)"

lemma worker_invD:
  assumes "worker_inv dep cur X Z w"
  shows "wk_doms w a = Some sd \<Longrightarrow> sd_ok (cur a) sd" "wk_doms w a = None \<Longrightarrow> cur a = None"
    "tree_ok dep (shape w)" "stacks_ok Z w" "x \<noteq> 0 \<Longrightarrow> x \<notin> X \<Longrightarrow> linked cur w x"
  using assms unfolding worker_inv_def by blast+

lemma worker_invI:
  assumes "\<And>a sd. wk_doms w a = Some sd \<Longrightarrow> sd_ok (cur a) sd" "\<And>a. wk_doms w a = None \<Longrightarrow> cur a = None"
    "tree_ok dep (shape w)" "stacks_ok Z w" "\<And>x. x \<noteq> 0 \<Longrightarrow> x \<notin> X \<Longrightarrow> linked cur w x"
  shows "worker_inv dep cur X Z w"
  using assms unfolding worker_inv_def by blast

lemma worker_inv_more:
  assumes "worker_inv dep cur X Z w" "X \<subseteq> X'" "Z \<subseteq> Z'"
  shows "worker_inv dep cur X' Z' w"
proof (rule worker_invI)
  show "stacks_ok Z' w"
    using worker_invD(4) [OF assms(1)] assms(3) unfolding stacks_ok_def by (auto split: if_splits)
  show "linked cur w x" if "x \<noteq> 0" "x \<notin> X'" for x
    by (rule worker_invD(5) [OF assms(1) that(1)]) (use that(2) assms(2) in blast)
qed (use worker_invD(1-3) [OF assms(1)] in blast)+

section \<open>Shapes\<close>

lemma set_dom_simps [simp]:
  "wk_doms (set_dom a sd w) = (wk_doms w)(a \<mapsto> sd)" "wk_metas (set_dom a sd w) = wk_metas w"
  "wk_stopped (set_dom a sd w) = wk_stopped w" "wk_events (set_dom a sd w) = wk_events w"
  by (simp_all add: set_dom_def)

lemma core_erase: "core (erase d) = core d"
  by (simp add: core_def erase_def fun_eq_iff option.map_comp comp_def)

lemma erase_core: "erase d' = erase d \<Longrightarrow> core d' = core d"
  by (metis core_erase)

lemma core_simps [simp]: "parent_domain (core d) = parent_domain d" "parent_execution (core d) = parent_execution d"
  "(executions (core d) k = None) = (executions d k = None)"
  by (simp_all add: core_def)

lemma core_exec:
  "executions (core d) k = map_option (\<lambda>e. e\<lparr>exec_state := Exec_active, handle_stack := [], cancel_callback_stack := []\<rparr>) (executions d k)"
  by (simp add: core_def)

lemma erase_exec: "erase d' = erase d \<Longrightarrow>
   map_option (\<lambda>e. e\<lparr>exec_state := Exec_active\<rparr>) (executions d' k) = map_option (\<lambda>e. e\<lparr>exec_state := Exec_active\<rparr>) (executions d k)"
  by (drule arg_cong [of _ _ "\<lambda>d. executions d k"]) (simp add: erase_def)

lemma erase_stack:
  assumes "erase d' = erase d"
  shows "map_option handle_stack (executions d' k) = map_option handle_stack (executions d k)"
proof -
  have "map_option handle_stack x = map_option handle_stack (map_option (\<lambda>e. e\<lparr>exec_state := Exec_active\<rparr>) x)" for x
    by (simp add: option.map_comp comp_def)
  then show ?thesis using erase_exec [OF assms] by metis
qed

lemma shape_set_dom:
  assumes "wk_doms w a = Some (s, d)" "is_cycle s' = is_cycle s" "core d' = core d"
  shows "shape (set_dom a (s', d') w) = shape w"
  using assms by (auto simp: shape_def)

lemma shape_Some: "wk_doms w a = Some (s, d) \<Longrightarrow> shape w a = Some (is_cycle s, core d)"
  by (simp add: shape_def)

lemma exec_of_set_dom: "exec_of b k (set_dom a (s, d) w) = (if b = a then executions d k else exec_of b k w)"
  by (simp add: exec_of_def)

lemma exec_of_dom: "wk_doms w a = Some (s, d) \<Longrightarrow> exec_of a k w = executions d k"
  by (simp add: exec_of_def)

lemma other_fields [simp]:
  "exec_of a k (w\<lparr>wk_stopped := S\<rparr>) = exec_of a k w" "exec_of a k (w\<lparr>wk_events := E\<rparr>) = exec_of a k w"
  "exec_of a k (w\<lparr>wk_metas := M\<rparr>) = exec_of a k w"
  "shape (w\<lparr>wk_stopped := S\<rparr>) = shape w" "shape (w\<lparr>wk_events := E\<rparr>) = shape w" "shape (w\<lparr>wk_metas := M\<rparr>) = shape w"
  by (simp_all add: exec_of_def shape_def fun_eq_iff)

lemma other_fields_inv [simp]:
  "worker_inv dep cur X Z (w\<lparr>wk_stopped := S\<rparr>) = worker_inv dep cur X Z w"
  "worker_inv dep cur X Z (w\<lparr>wk_events := E\<rparr>) = worker_inv dep cur X Z w"
  "worker_inv dep cur X Z (w\<lparr>wk_metas := M\<rparr>) = worker_inv dep cur X Z w"
  by (simp_all add: worker_inv_def stacks_ok_def linked_def busy_def stays_def)

text \<open>A domain with something to run has executions, and so an owner in another domain.\<close>

lemma busy_nonempty:
  assumes "worker_inv dep cur X Z w" "busy cur w x"
  obtains s d k where "wk_doms w x = Some (s, d)" "executions d k \<noteq> None"
proof -
  from assms(2) obtain s d where sd: "wk_doms w x = Some (s, d)" "busy_sched (cur x) s"
    by (auto simp: busy_def split: option.splits)
  then have ok: "sd_ok (cur x) (s, d)" using worker_invD(1) [OF assms(1)] by blast
  show ?thesis
  proof (cases "cur x")
    case None
    with sd(2) obtain k where "sched_active s k" by (auto simp: busy_sched_def)
    with sched_active_alive [OF ok] sd(1) that show ?thesis by blast
  next
    case (Some k)
    with sd_ok_alive [of k s d] ok sd(1) that show ?thesis by simp
  qed
qed

lemma tree_okD:
  assumes "tree_ok dep T"
  shows "\<exists>d. T 0 = Some (False, d) \<and> parent_domain d = None" "dep 0 = 0" "a \<noteq> 0 \<Longrightarrow> T a = Some (b, d) \<Longrightarrow> b"
    "T a = Some (b, d) \<Longrightarrow> executions d i = Some e \<Longrightarrow> exec_fit dep T a i e"
    "x \<noteq> 0 \<Longrightarrow> T x = Some (b, d) \<Longrightarrow> executions d k \<noteq> None \<Longrightarrow> owned T x d"
  using assms unfolding tree_ok_def by blast+

lemma exec_core_fit:
  assumes "tree_ok dep (shape w)" "exec_of a i w = Some e"
  shows "exec_fit dep (shape w) a i e"
proof -
  from assms(2) obtain s d where d: "wk_doms w a = Some (s, d)" "executions d i = Some e"
    by (auto simp: exec_of_def split: option.splits)
  let ?e = "e\<lparr>exec_state := Exec_active, handle_stack := [], cancel_callback_stack := []\<rparr>"
  have "exec_fit dep (shape w) a i ?e"
    by (rule tree_okD(4) [OF assms(1) shape_Some [OF d(1)]]) (simp add: core_exec d(2))
  then show ?thesis by (simp add: exec_fit_def)
qed

text \<open>The owner of a domain that has executions.\<close>

lemma owner_exec:
  assumes "tree_ok dep (shape w)" "x \<noteq> 0" "wk_doms w x = Some (s, d)" "executions d k \<noteq> None"
  obtains a sa da e where "parent_domain d = Some a" "wk_doms w a = Some (sa, da)" "dep x = dep a + 1"
    "executions da (parent_execution d) = Some e" "subdomain e = Some x"
proof -
  have "owned (shape w) x (core d)"
    by (rule tree_okD(5) [OF assms(1,2) shape_Some [OF assms(3)]]) (use assms(4) in simp)
  then obtain a b da e where o: "parent_domain d = Some a" "shape w a = Some (b, da)"
    "executions da (parent_execution d) = Some e" "subdomain e = Some x"
    by (auto simp: owned_def)
  with tree_okD(4) [OF assms(1) o(2,3)] have "dep x = dep a + 1" by (simp add: exec_fit_def)
  moreover from o(2) obtain sa d0 where "wk_doms w a = Some (sa, d0)" "da = core d0" by (auto simp: shape_def)
  moreover from this(2) o(3,4) obtain e0 where "executions d0 (parent_execution d) = Some e0" "subdomain e0 = Some x"
    by (auto simp: core_exec)
  ultimately show ?thesis using that o(1) by blast
qed

section \<open>Steps of one domain\<close>

lemma inv_dom_step:
  assumes inv: "worker_inv dep cur X Z w" and sd: "wk_doms w a = Some (s, d)" and ok: "sd_ok c (s', d')"
    and kind: "is_cycle s' = is_cycle s" "core d' = core d"
    and stack: "\<And>k e. executions d' k = Some e \<Longrightarrow> (if handle_stack e = [] then (a, k) \<in> Z' else hd (handle_stack e) = k)"
    and sub: "Z \<subseteq> Z'" "X \<subseteq> X'"
    and stay: "\<And>i. stay (cur a) s i \<Longrightarrow> stay c s' i \<or>
       (\<forall>x sx dx. wk_doms w x = Some (sx, dx) \<longrightarrow> parent_domain dx = Some a \<longrightarrow> parent_execution dx = i \<longrightarrow>
          x \<noteq> 0 \<longrightarrow> x \<notin> X' \<longrightarrow> \<not> busy cur w x)"
    and busy: "busy_sched c s' \<Longrightarrow> busy_sched (cur a) s \<or> a \<in> X' \<or> a = 0"
  shows "worker_inv dep (cur(a := c)) X' Z' (set_dom a (s', d') w)"
proof (rule worker_invI)
  let ?w = "set_dom a (s', d') w" and ?cur = "cur(a := c)"
  note D = worker_invD [OF inv]
  have shape: "shape ?w = shape w" by (rule shape_set_dom [OF sd kind])
  show "sd_ok (?cur b) sdb" if "wk_doms ?w b = Some sdb" for b sdb
    using that ok D(1) by (auto split: if_splits)
  show "?cur b = None" if "wk_doms ?w b = None" for b using that D(2) by (auto split: if_splits)
  show "tree_ok dep (shape ?w)" using D(3) by (simp add: shape)
  show "stacks_ok Z' ?w" unfolding stacks_ok_def
  proof (intro allI impI)
    fix b k e assume e: "exec_of b k ?w = Some e"
    show "if handle_stack e = [] then (b, k) \<in> Z' else hd (handle_stack e) = k"
    proof (cases "b = a")
      case True
      with e stack show ?thesis by (simp add: exec_of_set_dom)
    next
      case False
      with e have "exec_of b k w = Some e" by (simp add: exec_of_set_dom)
      with D(4) sub(1) show ?thesis unfolding stacks_ok_def by (auto split: if_splits)
    qed
  qed
  show "linked ?cur ?w x" if x: "x \<noteq> 0" "x \<notin> X'" for x
    unfolding linked_def
  proof (intro impI allI)
    fix b dx assume b: "busy ?cur ?w x" and sh: "shape ?w x = Some (b, dx)"
    have old: "busy cur w x"
      using b busy x sd by (cases "x = a") (auto simp: busy_def split: option.splits)
    obtain sx d0 k where d0: "wk_doms w x = Some (sx, d0)" "executions d0 k \<noteq> None"
      by (rule busy_nonempty [OF inv old])
    with sh have dx: "dx = core d0" by (simp add: shape shape_def)
    obtain pa sa da e where pa: "parent_domain d0 = Some pa" "wk_doms w pa = Some (sa, da)"
      by (rule owner_exec [OF D(3) x(1) d0])
    have "x \<notin> X" using x(2) sub(2) by blast
    with D(5) [OF x(1) this] old sh have "stays cur w pa (parent_execution d0)"
      unfolding linked_def shape dx using pa(1) by simp
    then show "stays ?cur ?w (the (parent_domain dx)) (parent_execution dx)"
      using stay [of "parent_execution d0"] sd d0(1) pa(1) x old
      by (cases "pa = a") (auto simp: stays_def dx split: option.splits)
  qed
qed

text \<open>Steps that change neither stacks nor Z.\<close>

lemma stacks_erase:
  assumes inv: "worker_inv dep cur X Z w" and sd: "wk_doms w a = Some (s, d)" and er: "erase d' = erase d"
    and e: "executions d' k = Some e"
  shows "if handle_stack e = [] then (a, k) \<in> Z else hd (handle_stack e) = k"
proof -
  from erase_stack [OF er, of k] e obtain e0 where "executions d k = Some e0" "handle_stack e0 = handle_stack e"
    by (cases "executions d k") auto
  with worker_invD(4) [OF inv] exec_of_dom [OF sd, of k] show ?thesis unfolding stacks_ok_def by metis
qed

lemma inv_sched_step:
  assumes inv: "worker_inv dep cur X Z w" and sd: "wk_doms w a = Some (s, d)" and ok: "sd_ok c (s', d')"
    and kind: "is_cycle s' = is_cycle s" "erase d' = erase d" and sub: "X \<subseteq> X'"
    and stay: "\<And>i. stay (cur a) s i \<Longrightarrow> stay c s' i \<or>
       (\<forall>x sx dx. wk_doms w x = Some (sx, dx) \<longrightarrow> parent_domain dx = Some a \<longrightarrow> parent_execution dx = i \<longrightarrow>
          x \<noteq> 0 \<longrightarrow> x \<notin> X' \<longrightarrow> \<not> busy cur w x)"
    and busy: "busy_sched c s' \<Longrightarrow> busy_sched (cur a) s \<or> a \<in> X' \<or> a = 0"
  shows "worker_inv dep (cur(a := c)) X' Z (set_dom a (s', d') w)"
  by (rule inv_dom_step [OF inv sd ok kind(1) erase_core [OF kind(2)] stacks_erase [OF inv sd kind(2)] order.refl sub stay busy])

text \<open>An execution without a domain owns nothing that is busy.\<close>

lemma owns_nothing:
  assumes inv: "worker_inv dep cur X Z w" and e: "exec_of a i w = Some e" "subdomain e = None"
    and x: "wk_doms w x = Some (sx, dx)" "parent_domain dx = Some a" "parent_execution dx = i" "x \<noteq> 0"
  shows "\<not> busy cur w x"
proof
  assume "busy cur w x"
  then obtain s d k where d: "wk_doms w x = Some (s, d)" "executions d k \<noteq> None" by (rule busy_nonempty [OF inv])
  then obtain b sa da e' where "parent_domain d = Some b" "wk_doms w b = Some (sa, da)"
    "executions da (parent_execution d) = Some e'" "subdomain e' = Some x"
    by (rule owner_exec [OF worker_invD(3) [OF inv] x(4)])
  with d x e show False by (simp add: exec_of_def)
qed

lemma owns_idle:
  assumes inv: "worker_inv dep cur X Z w" and e: "exec_of a i w = Some e" "subdomain e = Some y" "\<not> busy cur w y"
    and x: "wk_doms w x = Some (sx, dx)" "parent_domain dx = Some a" "parent_execution dx = i" "x \<noteq> 0"
  shows "\<not> busy cur w x"
proof
  assume b: "busy cur w x"
  then obtain s d k where d: "wk_doms w x = Some (s, d)" "executions d k \<noteq> None" by (rule busy_nonempty [OF inv])
  then obtain b sa da e' where "parent_domain d = Some b" "wk_doms w b = Some (sa, da)"
    "executions da (parent_execution d) = Some e'" "subdomain e' = Some x"
    by (rule owner_exec [OF worker_invD(3) [OF inv] x(4)])
  with d x e b show False by (simp add: exec_of_def)
qed

lemma stays_set_dom:
  "stays (cur(a := c)) (set_dom a (s', d') w) b i = (if b = a then stay c s' i else stays cur w b i)"
  by (simp add: stays_def split: option.split)

lemma stays_dom: "wk_doms w a = Some (s, d) \<Longrightarrow> stays cur w a i = stay (cur a) s i"
  by (simp add: stays_def)

text \<open>The end of a turn of \<open>i\<close>.\<close>

lemma stay_after_end:
  assumes "\<forall>k. sched_active s' k = (if k = i then \<not> (sched_parks s i \<or> completed) else sched_active s k)"
    and "stay (Some i) s k" "k \<noteq> i \<or> \<not> completed"
  shows "stay None s' k"
  using assms by (auto simp: stay_def split: if_splits)

lemma running_not_parks:
  assumes "sd_ok (Some i) (s, d)" "executions d i = Some e" "exec_state e = Exec_running"
  shows "\<not> sched_parks s i"
  using assms states_okD [of "Some i" s d i e] by (auto simp: sd_ok_def sched_parks_def split: if_splits)

section \<open>Awakenings\<close>

lemma map_sum_Inr [simp]: "map_sum f g x = Inr y \<longleftrightarrow> (\<exists>z. x = Inr z \<and> y = g z)"
  by (cases x) auto

lemma sched_kind:
  "sched_awake k (s, d) = Inr (s', d') \<Longrightarrow> is_cycle s' = is_cycle s"
  "sched_suspend k (s, d) = Inr (s', d') \<Longrightarrow> is_cycle s' = is_cycle s"
  "sched_end tsc ctx completed (s, d) = Inr (s', d') \<Longrightarrow> is_cycle s' = is_cycle s"
  by (auto simp: sched_awake_def sched_suspend_def sched_end_def is_cycle_def apfst_def split: sched.splits)

definition dom_ctx :: "worker_state \<Rightarrow> nat \<Rightarrow> nat \<Rightarrow> handle \<Rightarrow> bool" where
  "dom_ctx w a ctx i = (case wk_doms w a of None \<Rightarrow> False | Some sd \<Rightarrow> ctx_ok (fst sd) ctx i)"

lemma dom_ctx_set_dom:
  assumes "wk_doms w a = Some (s, d)" "\<And>ctx k. ctx_ok s' ctx k = ctx_ok s ctx k"
  shows "dom_ctx (set_dom a (s', d') w) = dom_ctx w"
  using assms by (auto simp: dom_ctx_def fun_eq_iff)

lemma inv_unexcept:
  assumes inv: "worker_inv dep cur (insert a X) Z w" and l: "a \<noteq> 0 \<Longrightarrow> linked cur w a"
  shows "worker_inv dep cur X Z w"
proof (rule worker_invI)
  show "linked cur w x" if "x \<noteq> 0" "x \<notin> X" for x
    using worker_invD(5) [OF inv that(1)] that l by (cases "x = a") auto
qed (use worker_invD [OF inv] in blast)+

lemma linkedI:
  assumes "wk_doms w a = Some (s, d)" "parent_domain d = Some b" "stays cur w b (parent_execution d)"
  shows "linked cur w a"
  using assms by (simp add: linked_def shape_def)

text \<open>The owner stays unless it is suspended.\<close>

lemma stay_not_suspended:
  assumes "sd_ok c (s, d)" "executions d i = Some e" "exec_state e \<noteq> Exec_suspended"
  shows "stay c s i"
  using assms states_okD [of c s d i e] by (auto simp: sd_ok_def stay_def sched_parks_def split: if_splits)

lemma awake_at_inv:
  assumes "worker_inv dep cur X Z w" "exec_of a k w = Some e0"
  shows "\<exists>w'. awake_at a k w = Some (Inr w') \<and> worker_inv dep cur X Z w' \<and> shape w' = shape w \<and>
    stays cur w' a k \<and> (\<forall>b j. stays cur w b j \<longrightarrow> stays cur w' b j) \<and> dom_ctx w' = dom_ctx w"
  using assms
proof (induction "dep a" arbitrary: a k e0 w X rule: less_induct)
  case less
  note inv = less.prems(1)
  from less.prems(2) obtain s d where sd: "wk_doms w a = Some (s, d)" "executions d k = Some e0"
    by (auto simp: exec_of_def split: option.splits)
  have ok: "sd_ok (cur a) (s, d)" using worker_invD(1) [OF inv sd(1)] .
  obtain s' d' where aw: "\<not> sched_ignores k s" "sched_awake k (s, d) = Inr (s', d')" "sd_ok (cur a) (s', d')" "erase d' = erase d"
    and act: "\<forall>l. sched_active s' l \<or> cur a = Some l \<longleftrightarrow> sched_active s l \<or> cur a = Some l \<or> l = k"
    and par: "\<forall>l. cur a = Some l \<longrightarrow> sched_parks s' l = (sched_parks s l \<and> l \<noteq> k)"
    and ctx: "\<forall>ctx l. ctx_ok s' ctx l = ctx_ok s ctx l"
    using sched_awake_ok [OF ok, of k] sd(2) by auto
  have kind: "is_cycle s' = is_cycle s"
    using aw(2) by (rule sched_kind(1))
  let ?w = "set_dom a (s', d') w"
  have stay: "stay (cur a) s' l" if "stay (cur a) s l \<or> l = k" for l
    using that act par by (auto simp: stay_def split: if_splits)
  have inv1: "worker_inv dep cur (insert a X) Z ?w"
    using inv_sched_step [OF inv sd(1) aw(3) kind aw(4), of "insert a X"] stay by auto
  have shape: "shape ?w = shape w" by (rule shape_set_dom [OF sd(1) kind erase_core [OF aw(4)]])
  have mono: "stays cur ?w b j" if "stays cur w b j" for b j
    using that stays_set_dom [of cur a "cur a" s' d' w b j] stay stays_dom [OF sd(1)] by auto
  have here: "stays cur ?w a k" using stays_set_dom [of cur a "cur a" s' d' w a k] stay by simp
  have dctx: "dom_ctx ?w = dom_ctx w" by (rule dom_ctx_set_dom [OF sd(1)]) (use ctx in simp)
  have pd: "parent_domain d' = parent_domain d" "parent_execution d' = parent_execution d"
    using erase_core [OF aw(4)] by (metis core_simps(1,2))+
  show ?case
  proof (cases "a = 0")
    case True
    have "parent_domain d = None"
      using tree_okD(1) [OF worker_invD(3) [OF inv]] shape_Some [OF sd(1)] True by auto
    then have "awake_at a k w = Some (Inr ?w)"
      by (subst awake_at.simps) (simp add: sd(1) aw(1,2) pd)
    moreover have "worker_inv dep cur X Z ?w" by (rule inv_unexcept [OF inv1]) (use True in simp)
    ultimately show ?thesis using shape here mono dctx by blast
  next
    case False
    have "executions d k \<noteq> None" using sd(2) by simp
    then obtain pa sa da e where pa: "parent_domain d = Some pa" "wk_doms w pa = Some (sa, da)" "dep a = dep pa + 1"
      "executions da (parent_execution d) = Some e" "subdomain e = Some a"
      by (rule owner_exec [OF worker_invD(3) [OF inv] False sd(1)])
    have ne: "pa \<noteq> a" using pa(3) by auto
    have w1: "wk_doms ?w pa = Some (sa, da)" "wk_doms ?w a = Some (s', d')" using pa(2) ne by simp_all
    show ?thesis
    proof (cases "exec_state e = Exec_suspended")
      case True
      have "exec_of pa (parent_execution d) ?w = Some e" using w1(1) pa(4) by (simp add: exec_of_def)
      from less.hyps [OF _ inv1 this] pa(3) obtain w2 where
        w2: "awake_at pa (parent_execution d) ?w = Some (Inr w2)" "worker_inv dep cur (insert a X) Z w2"
          "shape w2 = shape ?w" "stays cur w2 pa (parent_execution d)" "\<forall>b j. stays cur ?w b j \<longrightarrow> stays cur w2 b j"
          "dom_ctx w2 = dom_ctx ?w"
        by auto
      have "awake_at a k w = Some (Inr w2)"
        by (subst awake_at.simps)
          (simp add: sd(1) aw(1,2) pd pa(1) w1(1) get_execution_state_def pa(4) True w2(1) ne pa(2))
      moreover have "worker_inv dep cur X Z w2"
      proof (rule inv_unexcept [OF w2(2)])
        have "shape w2 a = Some (is_cycle s', core d')" using w2(3) shape_Some [OF w1(2)] by simp
        then obtain s2 d2 where "wk_doms w2 a = Some (s2, d2)" "core d2 = core d'" by (auto simp: shape_def)
        moreover from this have "parent_domain d2 = Some pa" "parent_execution d2 = parent_execution d"
          using pd pa(1) by (metis core_simps(1,2))+
        ultimately show "linked cur w2 a" using w2(4) by (auto intro: linkedI)
      qed
      ultimately show ?thesis using w2 shape here mono dctx by (intro exI [of _ w2]) simp
    next
      case susp: False
      have "awake_at a k w = Some (Inr ?w)"
        by (subst awake_at.simps) (simp add: sd(1) aw(1,2) pd pa(1) get_execution_state_def pa(4) susp ne pa(2))
      moreover have "stays cur ?w pa (parent_execution d)"
        using stay_not_suspended [OF worker_invD(1) [OF inv pa(2)] pa(4) susp] w1(1) by (simp add: stays_dom)
      then have "linked cur ?w a" using linkedI [OF w1(2)] pd pa(1) by simp
      then have "worker_inv dep cur X Z ?w" by (intro inv_unexcept [OF inv1])
      ultimately show ?thesis using shape here mono dctx by blast
    qed
  qed
qed

section \<open>The running execution\<close>

lemma obind_Inr [simp]: "obind (Inr x) f = f x" "obind (Inl e) f = Inl e"
  by (simp_all add: obind_def)

lemma on_dom_Some: "wk_doms w a = Some sd \<Longrightarrow> on_dom a f w = obind (f sd) (\<lambda>sd. Inr (set_dom a sd w))"
  by (simp add: on_dom_def get_dom_def)

text \<open>An execution announces its suspension; its domain has nothing to run, if it has one.\<close>

lemma suspend_inv:
  assumes inv: "worker_inv dep cur X Z w" and cur: "cur a = Some i" and e: "exec_of a i w = Some e"
    and idle: "\<And>y. subdomain e = Some y \<Longrightarrow> \<not> busy cur w y"
  shows "\<exists>w'. on_dom a (sched_suspend i) w = Inr w' \<and> worker_inv dep cur X Z w' \<and> shape w' = shape w \<and>
    dom_ctx w' = dom_ctx w"
proof -
  from e obtain s d where sd: "wk_doms w a = Some (s, d)" by (auto simp: exec_of_def split: option.splits)
  have "sd_ok (Some i) (s, d)" using worker_invD(1) [OF inv sd] by (simp add: cur)
  from sched_suspend_ok [OF this] obtain s' d' where su: "sched_suspend i (s, d) = Inr (s', d')"
    "sd_ok (cur a) (s', d')" "erase d' = erase d" and act: "\<forall>k. sched_active s' k = sched_active s k"
    and ctx: "\<forall>ctx k. ctx_ok s' ctx k = ctx_ok s ctx k"
    by (auto simp: cur)
  have "stay (cur a) s' k \<or> (\<forall>x sx dx. wk_doms w x = Some (sx, dx) \<longrightarrow> parent_domain dx = Some a \<longrightarrow> parent_execution dx = k \<longrightarrow>
          x \<noteq> 0 \<longrightarrow> x \<notin> X \<longrightarrow> \<not> busy cur w x)" if "stay (cur a) s k" for k
  proof (cases "k = i")
    case True
    then show ?thesis
      using owns_nothing [OF inv e] owns_idle [OF inv e _ idle] by (cases "subdomain e") blast+
  next
    case False
    with that act show ?thesis by (simp add: stay_def cur)
  qed
  then have "worker_inv dep (cur(a := cur a)) X Z (set_dom a (s', d') w)"
    by (rule inv_sched_step [OF inv sd su(2) sched_kind(2) [OF su(1)] su(3) order.refl]) (simp_all add: busy_sched_def cur)
  then show ?thesis
    using shape_set_dom [OF sd sched_kind(2) [OF su(1)] erase_core [OF su(3)]] dom_ctx_set_dom [OF sd, of s' d'] ctx
    by (intro exI [of _ "set_dom a (s', d') w"]) (simp add: on_dom_Some [OF sd] su(1))
qed

text \<open>What an operation of the executor on \<open>i\<close> leaves alone.\<close>

definition leaf_frame :: "handle \<Rightarrow> exec_world \<Rightarrow> exec_world \<Rightarrow> bool" where
  "leaf_frame i w w' \<longleftrightarrow>
     current w = Some i \<and> current w' = Some i \<and> core (w_domain w') = core (w_domain w) \<and>
     (\<forall>k. map_option exec_state (executions (w_domain w') k) = map_option exec_state (executions (w_domain w) k)) \<and>
     (\<forall>k. k \<noteq> i \<longrightarrow> executions (w_domain w') k = executions (w_domain w) k)"

lemma leaf_frame_refl: "current w = Some i \<Longrightarrow> leaf_frame i w w"
  by (simp add: leaf_frame_def)

lemma leaf_frame_trans: "leaf_frame i u v \<Longrightarrow> leaf_frame i v w \<Longrightarrow> leaf_frame i u w"
  by (simp add: leaf_frame_def)

lemma update_running_frame:
  assumes "current w = Some i"
    and f: "\<And>e. (f e)\<lparr>exec_state := Exec_active, handle_stack := [], cancel_callback_stack := []\<rparr> =
        e\<lparr>exec_state := Exec_active, handle_stack := [], cancel_callback_stack := []\<rparr>" "\<And>e. exec_state (f e) = exec_state e"
  shows "leaf_frame i w (update_running f w)"
  using assms by (auto simp: leaf_frame_def update_running_def core_def fun_eq_iff option.map_comp comp_def)

lemma other_frame:
  "current w = Some i \<Longrightarrow> leaf_frame i w (w\<lparr>w_domain := (w_domain w)\<lparr>corohandle_exec_map := m\<rparr>\<rparr>)"
  "current w = Some i \<Longrightarrow> leaf_frame i w (w\<lparr>events := evs\<rparr>)"
  by (simp_all add: leaf_frame_def core_def)

lemma leaf_frame_current: "leaf_frame i w w' \<Longrightarrow> current w' = Some i"
  by (simp add: leaf_frame_def)

lemma callback_frame:
  assumes "current w = Some i"
  shows "leaf_frame i w (callback_new c w)" "leaf_frame i w (callback_dtor w)"
  by (simp_all add: callback_new_def callback_dtor_def update_running_frame assms)

lemma callback_running:
  "running_execution (callback_new c w) = map_option (\<lambda>e. e\<lparr>cancel_callback_stack := cancel_callback_stack e @ [c]\<rparr>) (running_execution w)"
  "running_execution (callback_dtor w) = map_option (\<lambda>e. e\<lparr>cancel_callback_stack := butlast (cancel_callback_stack e)\<rparr>) (running_execution w)"
  by (simp_all add: callback_new_def callback_dtor_def running_update)

lemma pop_handle_frame:
  assumes "running_execution w = Some e" "current w = Some i" "handle_stack e \<noteq> []"
  shows "\<exists>w'. pop_handle w = Inr (last (handle_stack e), w') \<and> leaf_frame i w w' \<and>
    running_execution w' = Some (e\<lparr>handle_stack := butlast (handle_stack e)\<rparr>)"
proof -
  let ?w = "update_running (\<lambda>e. e\<lparr>handle_stack := butlast (handle_stack e)\<rparr>) w"
  let ?w' = "?w\<lparr>w_domain := (w_domain ?w)\<lparr>corohandle_exec_map := (corohandle_exec_map (w_domain ?w))(last (handle_stack e) := None)\<rparr>\<rparr>"
  have 1: "leaf_frame i w ?w" by (rule update_running_frame [OF assms(2)]) simp_all
  have "leaf_frame i w ?w'" by (rule leaf_frame_trans [OF 1 other_frame(1) [OF leaf_frame_current [OF 1]]])
  moreover have "pop_handle w = Inr (last (handle_stack e), ?w')"
    using assms by (simp add: pop_handle_def Let_def)
  ultimately show ?thesis using assms by (simp add: running_update)
qed

lemma push_handle_frame:
  assumes "running_execution w = Some e" "current w = Some i"
  shows "\<exists>w'. push_handle h w = Inr w' \<and> leaf_frame i w w' \<and>
    running_execution w' = Some (e\<lparr>handle_stack := handle_stack e @ [h]\<rparr>)"
proof -
  let ?w = "update_running (\<lambda>e. e\<lparr>handle_stack := handle_stack e @ [h]\<rparr>) w"
  let ?w' = "?w\<lparr>w_domain := (w_domain ?w)\<lparr>corohandle_exec_map :=
      insert_new h (hd (handle_stack e @ [h])) (corohandle_exec_map (w_domain ?w))\<rparr>\<rparr>"
  have 1: "leaf_frame i w ?w" by (rule update_running_frame [OF assms(2)]) simp_all
  have "leaf_frame i w ?w'" by (rule leaf_frame_trans [OF 1 other_frame(1) [OF leaf_frame_current [OF 1]]])
  moreover have "push_handle h w = Inr ?w'" using assms by (simp add: push_handle_def Let_def)
  ultimately show ?thesis using assms by (simp add: running_update)
qed

lemma destroy_frames_frame:
  "running_execution w = Some e \<Longrightarrow> current w = Some i \<Longrightarrow> length (handle_stack e) = n \<Longrightarrow>
   \<exists>w'. destroy_frames n w = Inr w' \<and> leaf_frame i w w' \<and> running_execution w' = Some (e\<lparr>handle_stack := []\<rparr>)"
proof (induction n arbitrary: w e)
  case 0
  then show ?case by (simp add: leaf_frame_refl)
next
  case (Suc n)
  then have "handle_stack e \<noteq> []" by auto
  from pop_handle_frame [OF Suc.prems(1,2) this] obtain w1 where w1: "pop_handle w = Inr (last (handle_stack e), w1)"
    "leaf_frame i w w1" "running_execution w1 = Some (e\<lparr>handle_stack := butlast (handle_stack e)\<rparr>)" by blast
  let ?w = "w1\<lparr>events := events w1 @ [Destroy_frame (last (handle_stack e))]\<rparr>"
  have c: "current ?w = Some i" using leaf_frame_current [OF w1(2)] by simp
  have "running_execution ?w = Some (e\<lparr>handle_stack := butlast (handle_stack e)\<rparr>)" using w1(3) by simp
  from Suc.IH [OF this c] Suc.prems(3) obtain w2 where w2: "destroy_frames n ?w = Inr w2" "leaf_frame i ?w w2"
    "running_execution w2 = Some (e\<lparr>handle_stack := []\<rparr>)" by auto
  have "leaf_frame i w w2"
    by (rule leaf_frame_trans [OF leaf_frame_trans [OF w1(2) other_frame(2) [OF leaf_frame_current [OF w1(2)]]] w2(2)])
  with w1(1) w2 show ?case by simp
qed

lemma cancel_cleanup_frame:
  assumes run: "running_execution w = Some e" "current w = Some i"
  shows "\<exists>b w' e'. cancel_cleanup w = Inr (b, w') \<and> leaf_frame i w w' \<and> running_execution w' = Some e' \<and>
    (if b then handle_stack e' = [] else w' = w)"
proof (cases "list_all (\<lambda>src. src \<notin> stopped w) (tokens w)")
  case True
  with run show ?thesis
    by (intro exI [of _ False] exI [of _ w] exI [of _ e]) (simp add: cancel_cleanup_def leaf_frame_refl)
next
  case False
  let ?w = "invoke_callbacks w" and ?e = "e\<lparr>cancel_callback_stack := []\<rparr>"
  have 1: "leaf_frame i w (update_running (\<lambda>e. e\<lparr>cancel_callback_stack := []\<rparr>) w)"
    by (rule update_running_frame [OF run(2)]) simp_all
  have f: "leaf_frame i w ?w"
    using leaf_frame_trans [OF 1 other_frame(2) [OF leaf_frame_current [OF 1]]] run(1) by (simp add: invoke_callbacks_def)
  have "running_execution ?w = Some ?e" using run(1) by (simp add: invoke_callbacks_def running_update)
  from destroy_frames_frame [OF this leaf_frame_current [OF f] refl] obtain w' where
    w': "destroy_frames (length (handle_stack ?e)) ?w = Inr w'" "leaf_frame i ?w w'"
      "running_execution w' = Some (?e\<lparr>handle_stack := []\<rparr>)" by blast
  have "cancel_cleanup w = Inr (True, w')"
    using False w'(1) \<open>running_execution ?w = Some ?e\<close> by (simp add: cancel_cleanup_def Let_def)
  with w' leaf_frame_trans [OF f w'(2)] show ?thesis
    by (intro exI [of _ True] exI [of _ w'] exI [of _ "?e\<lparr>handle_stack := []\<rparr>"]) simp
qed

lemma on_exec_inv:
  assumes inv: "worker_inv dep cur X Z w" and sd: "wk_doms w a = Some (s, d)"
    and f: "f \<lparr>w_domain = d, current = Some i, tokens = toks, stopped = wk_stopped w, events = wk_events w\<rparr> = Inr (r, ew)"
    and frame: "leaf_frame i \<lparr>w_domain = d, current = Some i, tokens = toks, stopped = wk_stopped w, events = wk_events w\<rparr> ew"
    and e: "running_execution ew = Some e" "if handle_stack e = [] then (a, i) \<in> Z else hd (handle_stack e) = i"
  shows "\<exists>w'. on_exec a i toks f w = Inr (r, w') \<and> worker_inv dep cur X Z w' \<and> shape w' = shape w \<and>
    dom_ctx w' = dom_ctx w \<and> exec_of a i w' = Some e"
proof -
  let ?d = "w_domain ew"
  let ?w' = "(set_dom a (s, ?d) w)\<lparr>wk_stopped := stopped ew, wk_events := events ew\<rparr>"
  from frame have fr: "core ?d = core d" "\<And>k. map_option exec_state (executions ?d k) = map_option exec_state (executions d k)"
    "\<And>k. k \<noteq> i \<Longrightarrow> executions ?d k = executions d k" "current ew = Some i"
    by (simp_all add: leaf_frame_def)
  from e(1) fr(4) have ei: "executions ?d i = Some e" by (simp add: running_execution_def)
  have ok: "sd_ok (cur a) (s, ?d)" by (rule sd_ok_frame [OF worker_invD(1) [OF inv sd] fr(2)])
  have "worker_inv dep (cur(a := cur a)) X Z (set_dom a (s, ?d) w)"
  proof (rule inv_dom_step [OF inv sd ok refl fr(1)])
    fix k e' assume e': "executions ?d k = Some e'"
    show "if handle_stack e' = [] then (a, k) \<in> Z else hd (handle_stack e') = k"
    proof (cases "k = i")
      case True
      with e' ei e(2) show ?thesis by auto
    next
      case False
      with e' fr(3) have "exec_of a k w = Some e'" using exec_of_dom [OF sd] by simp
      with worker_invD(4) [OF inv] show ?thesis by (simp add: stacks_ok_def)
    qed
  qed simp_all
  then have "worker_inv dep cur X Z ?w'" by simp
  moreover have "on_exec a i toks f w = Inr (r, ?w')"
    by (simp add: on_exec_def get_dom_def sd f)
  moreover have "shape ?w' = shape w" using shape_set_dom [OF sd refl fr(1)] by simp
  moreover have "dom_ctx ?w' = dom_ctx w"
    using dom_ctx_set_dom [OF sd, of s ?d] by (simp add: dom_ctx_def fun_eq_iff)
  moreover have "exec_of a i ?w' = Some e" using ei by (simp add: exec_of_set_dom)
  ultimately show ?thesis by blast
qed

text \<open>The subdomain of an execution, as the shape tells it; nothing below the domain of \<open>i\<close>.\<close>

definition sub_of :: "(nat \<Rightarrow> (bool \<times> domain) option) \<Rightarrow> nat \<Rightarrow> handle \<Rightarrow> nat option option" where
  "sub_of T a i = (case T a of None \<Rightarrow> None | Some (b, d) \<Rightarrow> map_option subdomain (executions d i))"

definition fresh_below :: "nat \<Rightarrow> handle \<Rightarrow> (nat \<Rightarrow> (bool \<times> domain) option) \<Rightarrow> bool" where
  "fresh_below a i T \<longleftrightarrow> (\<forall>x k y. sub_of T a i = Some (Some x) \<longrightarrow> sub_of T x k = Some y \<longrightarrow> y = None)"

lemma sub_of_shape: "sub_of (shape w) a i = map_option subdomain (exec_of a i w)"
  by (simp add: sub_of_def shape_def exec_of_def core_exec option.map_comp comp_def split: option.split prod.split)

text \<open>While \<open>i\<close> of domain \<open>a\<close> runs.\<close>

definition leaf_inv :: "(nat \<times> handle) set \<Rightarrow> (nat \<Rightarrow> nat) \<Rightarrow> (nat \<Rightarrow> handle option) \<Rightarrow> nat \<Rightarrow> handle \<Rightarrow> worker_state \<Rightarrow> bool" where
  "leaf_inv Z dep cur a i w \<longleftrightarrow>
     worker_inv dep cur {} Z w \<and> cur a = Some i \<and> fresh_below a i (shape w)"

lemma leaf_inv_exec:
  assumes "leaf_inv Z dep cur a i w"
  obtains s d e where "wk_doms w a = Some (s, d)" "executions d i = Some e" "exec_of a i w = Some e"
    "if handle_stack e = [] then (a, i) \<in> Z else hd (handle_stack e) = i"
proof -
  from assms have inv: "worker_inv dep cur {} Z w" and cur: "cur a = Some i" by (simp_all add: leaf_inv_def)
  from worker_invD(2) [OF inv, of a] cur obtain s d where sd: "wk_doms w a = Some (s, d)"
    by (cases "wk_doms w a") auto
  from worker_invD(1) [OF inv sd] cur have "sd_ok (Some i) (s, d)" by simp
  from sd_ok_alive [OF this] obtain e where e: "executions d i = Some e" by auto
  moreover have ex: "exec_of a i w = Some e" using e exec_of_dom [OF sd] by simp
  moreover have "if handle_stack e = [] then (a, i) \<in> Z else hd (handle_stack e) = i"
    using worker_invD(4) [OF inv] ex unfolding stacks_ok_def by metis
  ultimately show ?thesis using that sd by blast
qed

lemma leaf_exec_op:
  assumes leaf: "leaf_inv Z dep cur a i w"
    and f: "\<And>ew e. current ew = Some i \<Longrightarrow> running_execution ew = Some e \<Longrightarrow> exec_of a i w = Some e \<Longrightarrow> tokens ew = toks \<Longrightarrow>
      \<exists>r ew' e'. f ew = Inr (r, ew') \<and> leaf_frame i ew ew' \<and> running_execution ew' = Some e' \<and>
        (if handle_stack e' = [] then (a, i) \<in> Z else hd (handle_stack e') = i) \<and> P r e'"
  shows "\<exists>r w' e'. on_exec a i toks f w = Inr (r, w') \<and> leaf_inv Z dep cur a i w' \<and> shape w' = shape w \<and>
    dom_ctx w' = dom_ctx w \<and> exec_of a i w' = Some e' \<and> P r e'"
proof -
  obtain s d e where sd: "wk_doms w a = Some (s, d)" "executions d i = Some e" "exec_of a i w = Some e"
    by (rule leaf_inv_exec [OF leaf])
  let ?ew = "\<lparr>w_domain = d, current = Some i, tokens = toks, stopped = wk_stopped w, events = wk_events w\<rparr>"
  have "running_execution ?ew = Some e" using sd(2) by (simp add: running_execution_def)
  from f [OF _ this sd(3)] obtain r ew' e' where o: "f ?ew = Inr (r, ew')" "leaf_frame i ?ew ew'"
    "running_execution ew' = Some e'" "if handle_stack e' = [] then (a, i) \<in> Z else hd (handle_stack e') = i" "P r e'"
    by fastforce
  from leaf have inv: "worker_inv dep cur {} Z w" by (simp add: leaf_inv_def)
  from on_exec_inv [where f = f, OF inv sd(1) o(1-4)] leaf o(5) show ?thesis
    unfolding leaf_inv_def by metis
qed

section \<open>New domains\<close>

definition cyc_attached :: "handle list \<Rightarrow> nat \<Rightarrow> cycle_scheduler" where
  "cyc_attached hs n =
     \<lparr>cs_current = 0, cs_entries = map cyc_entry_new hs @ replicate (n - length hs) (cyc_entry_new 0), cs_fill = length hs,
      cs_active_count = of_nat (length hs), cs_detached_count = 0,
      cs_index_map = zip hs [0..<length hs] @ replicate (n - length hs) (0, 0)\<rparr>"

lemma cyc_new_attached: "cyc_new n = cyc_attached [] n"
  by (simp add: cyc_new_def cyc_attached_def)

lemma list_update_fill: "n < m \<Longrightarrow> (xs @ replicate (m - n) y)[length xs := z] = (xs @ [z]) @ replicate (m - Suc n) y"
  by (cases "m - n") (auto simp: list_update_append Suc_diff_Suc)

lemma cyc_attach_next: "length hs < n \<Longrightarrow> cyc_attach h (cyc_attached hs n) = Inr (cyc_attached (hs @ [h]) n)"
  using list_update_fill [of "length hs" n "map cyc_entry_new hs" "cyc_entry_new 0" "cyc_entry_new h"]
    list_update_fill [of "length hs" n "zip hs [0..<length hs]" "(0, 0)" "(h, length hs)"]
  by (simp add: cyc_attach_def cyc_attached_def add.commute)

text \<open>A new execution below \<open>parents\<close>.\<close>

definition newborn :: "nat list \<Rightarrow> handle \<Rightarrow> execution \<Rightarrow> bool" where
  "newborn parents k e \<longleftrightarrow>
     exec_state e = Exec_active \<and> handle_stack e = [k] \<and> subdomain e = None \<and>
     cancel_src_stack_size e = length parents + 1 \<and> length (cancel_src_stack e) = nest_max_depth + 1"

lemma domain_attach_new:
  assumes "executions d h = None" "length parents < nest_max_depth"
  shows "\<exists>d' e. domain_attach h parents src d = Inr d' \<and> executions d' = (executions d)(h \<mapsto> e) \<and> newborn parents h e \<and>
    parent_domain d' = parent_domain d \<and> parent_execution d' = parent_execution d"
proof -
  obtain st where st: "attach_sources parents src (cancel_src_stack (execution_new h)) = Inr st"
    and "length st = nest_max_depth + 1"
    using attach_sources_ok [OF assms(2), of "cancel_src_stack (execution_new h)" src]
    by (auto simp: execution_new_def)
  moreover define e where "e = (execution_new h)\<lparr>cancel_src_stack := st, cancel_src_stack_size := length parents + 1\<rparr>"
  ultimately have "newborn parents h e" "execution_move e = e"
    by (simp_all add: newborn_def execution_new_def execution_move_def)
  moreover have "domain_attach h parents src d =
      Inr (d\<lparr>executions := (executions d)(h \<mapsto> execution_move e), corohandle_exec_map := insert_new h h (corohandle_exec_map d),
             execution_list := insert h (execution_list d)\<rparr>)"
    using st assms(1) by (simp add: domain_attach_def insert_new_def Let_def e_def)
  ultimately show ?thesis
    by (intro exI [of _ "d\<lparr>executions := (executions d)(h \<mapsto> e), corohandle_exec_map := insert_new h h (corohandle_exec_map d),
             execution_list := insert h (execution_list d)\<rparr>"] exI [of _ e]) simp
qed

lemma proxy_attach_all_ok:
  assumes "wk_doms w x = Some (Cycle (cyc_attached pre n), d)" "\<And>k. (executions d k \<noteq> None) = (k \<in> set pre)"
    "\<And>k e. executions d k = Some e \<Longrightarrow> newborn parents k e"
    "distinct (pre @ hs)" "length pre + length hs \<le> n" "length parents < nest_max_depth"
  shows "\<exists>d'. proxy_attach_all x src parents hs w = Inr (set_dom x (Cycle (cyc_attached (pre @ hs) n), d') w) \<and>
    (\<forall>k. (executions d' k \<noteq> None) = (k \<in> set (pre @ hs))) \<and> (\<forall>k e. executions d' k = Some e \<longrightarrow> newborn parents k e) \<and>
    parent_domain d' = parent_domain d \<and> parent_execution d' = parent_execution d"
  using assms
proof (induction hs arbitrary: w pre d)
  case Nil
  then have "set_dom x (Cycle (cyc_attached pre n), d) w = w"
    by (cases w) (auto simp: set_dom_def)
  with Nil show ?case by (intro exI [of _ d]) simp
next
  case (Cons h hs)
  have "executions d h = None" using Cons.prems(2) [of h] Cons.prems(4) by auto
  from domain_attach_new [OF this Cons.prems(6)] obtain d1 e where d1: "domain_attach h parents src d = Inr d1"
    "executions d1 = (executions d)(h \<mapsto> e)" "newborn parents h e"
    "parent_domain d1 = parent_domain d" "parent_execution d1 = parent_execution d" by blast
  let ?w1 = "set_dom x (Cycle (cyc_attached pre n), d1) w"
  let ?w2 = "set_dom x (Cycle (cyc_attached (pre @ [h]) n), d1) ?w1"
  have "proxy_attach x src parents h w = Inr ?w2"
    using Cons.prems(1,5) d1(1)
    by (simp add: proxy_attach_def on_dom_Some [OF Cons.prems(1)] on_dom_def get_dom_def sched_attach_def cyc_attach_next)
  moreover have w2: "wk_doms ?w2 x = Some (Cycle (cyc_attached (pre @ [h]) n), d1)" by simp
  have in1: "(executions d1 k \<noteq> None) = (k \<in> set (pre @ [h]))" for k
    using Cons.prems(2) [of k] by (simp add: d1(2))
  have in2: "newborn parents k e'" if "executions d1 k = Some e'" for k e'
    using that Cons.prems(3) [of k e'] d1(3) by (auto simp: d1(2) split: if_splits)
  obtain d' where d': "proxy_attach_all x src parents hs ?w2 =
      Inr (set_dom x (Cycle (cyc_attached ((pre @ [h]) @ hs) n), d') ?w2)"
    "\<forall>k. (executions d' k \<noteq> None) = (k \<in> set ((pre @ [h]) @ hs))" "\<forall>k e. executions d' k = Some e \<longrightarrow> newborn parents k e"
    "parent_domain d' = parent_domain d1" "parent_execution d' = parent_execution d1"
    using Cons.IH [OF w2 in1 in2 _ _ Cons.prems(6)] Cons.prems(4,5) by auto
  ultimately show ?case using d1(4,5) by (intro exI [of _ d']) (simp add: set_dom_def)
qed

lemma cyc_attached_ok:
  assumes hs: "distinct hs" "length hs < 2 ^ 64"
    and d: "\<And>k. (executions d k \<noteq> None) = (k \<in> set hs)" "\<And>k e. executions d k = Some e \<Longrightarrow> newborn parents k e"
  shows "sd_ok None (Cycle (cyc_attached hs (length hs)), d)"
proof -
  let ?c = "cyc_attached hs (length hs)"
  have all: "count_if ce_active (map cyc_entry_new hs) = length hs"
    by (induction hs) (simp_all add: cyc_entry_new_def)
  have keys: "map fst (zip hs [0..<length hs]) = hs" by simp
  then have "fst ` set (zip hs [0..<length hs]) = set hs" by (metis set_map)
  then have c: "cyc_ok None ?c d"
    unfolding cyc_ok_def cyc_attached_def using hs d(1) all keys
    by (simp add: cyc_entry_ok_def cyc_entry_new_def)
  have "sched_active (Cycle ?c) k" if alive: "executions d k \<noteq> None" for k
  proof -
    obtain j where "cyc_find k ?c = Some j" "j < length (cs_entries ?c)" by (rule cyc_find_alive [OF c alive])
    then show ?thesis by (simp add: sched_view cyc_attached_def cyc_entry_new_def)
  qed
  then have "states_ok None (Cycle ?c) d"
    by (intro states_okI) (use d(2) in \<open>auto simp: newborn_def\<close>)
  with c show ?thesis by (simp add: sd_ok_Cycle)
qed

text \<open>The tree with a new domain \<open>x\<close> below execution \<open>i\<close> of domain \<open>a\<close>.\<close>

lemma tree_nest:
  assumes T: "tree_ok dep T" and a: "T a = Some (b, d)" "executions d i = Some e" "subdomain e = None" and x: "T x = None"
    and dx: "parent_domain dx = Some a" "parent_execution dx = i"
      "\<And>k f. executions dx k = Some f \<Longrightarrow> cancel_src_stack_size f = dep a + 2 \<and> dep a + 1 < nest_max_depth \<and>
         length (cancel_src_stack f) = nest_max_depth + 1 \<and> subdomain f = None"
  shows "tree_ok (dep(x := dep a + 1)) (T(a \<mapsto> (b, d\<lparr>executions := (executions d)(i \<mapsto> e\<lparr>subdomain := Some x\<rparr>)\<rparr>), x \<mapsto> (True, dx)))"
    (is "tree_ok ?dep ?T")
proof -
  note D = tree_okD [OF T]
  have x0: "x \<noteq> 0" "a \<noteq> x" using D(1) x a(1) by (metis option.distinct(1))+
  have fit: "exec_fit ?dep ?T a' i' e'" if e': "exec_fit dep T a' i' e'" "a' \<noteq> x" for a' i' e'
  proof -
    have "y \<noteq> 0 \<and> ?dep y = dep a' + 1 \<and> (\<exists>b d. ?T y = Some (b, d) \<and> parent_domain d = Some a' \<and> parent_execution d = i')"
      if "subdomain e' = Some y" for y
      using that e' x a by (cases "y = a") (auto simp: exec_fit_def)
    with e' show ?thesis by (simp add: exec_fit_def)
  qed
  show ?thesis
    unfolding tree_ok_def
  proof (intro conjI allI impI)
    show "\<exists>d. ?T 0 = Some (False, d) \<and> parent_domain d = None" using D(1) a x0 by (cases "a = 0") auto
    show "?dep 0 = 0" using D(2) x0 by simp
    show b' if "a' \<noteq> 0" "?T a' = Some (b', d')" for a' b' d'
      using that D(3) [of a'] a by (auto split: if_splits)
    show "exec_fit ?dep ?T a' i' e'" if "?T a' = Some (b', d')" "executions d' i' = Some e'" for a' b' d' i' e'
    proof (cases "a' = x")
      case True
      with that dx(3) [of i' e'] show ?thesis by (auto simp: exec_fit_def)
    next
      case False
      show ?thesis
      proof (cases "a' = a \<and> i' = i")
        case True
        with that False have e'': "e' = e\<lparr>subdomain := Some x\<rparr>" by auto
        from D(4) [OF a(1,2)] show ?thesis using True x0 dx by (auto simp: exec_fit_def e'')
      next
        case other: False
        with that False a D(4) [of a' b' _ i' e'] have "exec_fit dep T a' i' e'" by (cases "a' = a") auto
        then show ?thesis by (rule fit [OF _ False])
      qed
    qed
    show "owned ?T y d'" if y: "y \<noteq> 0" "?T y = Some (b', d')" "executions d' k \<noteq> None" for y b' d' k
    proof (cases "y = x")
      case True
      with y dx x0 show ?thesis by (auto simp: owned_def)
    next
      case False
      obtain d0 where d0: "T y = Some (b', d0)" "parent_domain d' = parent_domain d0"
        "parent_execution d' = parent_execution d0" "executions d0 k \<noteq> None"
        using y(2,3) False a by (cases "y = a") (auto split: if_splits)
      with D(5) [OF y(1) d0(1,4)] obtain pa pb pd pe where o: "parent_domain d0 = Some pa" "T pa = Some (pb, pd)"
        "executions pd (parent_execution d0) = Some pe" "subdomain pe = Some y" by (auto simp: owned_def)
      have "pa \<noteq> x" using o(2) x by auto
      moreover have "\<not> (pa = a \<and> parent_execution d0 = i)" using o a by auto
      ultimately show ?thesis using o d0 a by (cases "pa = a") (auto simp: owned_def)
    qed
  qed
qed

lemma nest_inv:
  assumes leaf: "leaf_inv Z dep cur a i w" and x: "wk_doms w x = None" and hs: "distinct hs" "length hs < 2 ^ 64"
    and ex: "exec_of a i w = Some e" "subdomain e = None" "exec_state e = Exec_running" "cancel_src_stack_size e < nest_max_depth"
  shows "\<exists>w' dep'. nest x src hs a i w = Inr w' \<and> leaf_inv Z dep' cur a i w' \<and> (\<forall>b ctx k. dom_ctx w b ctx k \<longrightarrow> dom_ctx w' b ctx k)"
proof -
  obtain s d where sd: "wk_doms w a = Some (s, d)" "executions d i = Some e"
    by (rule leaf_inv_exec [OF leaf]) (use ex(1) in simp)
  from leaf have inv: "worker_inv dep cur {} Z w" and cur: "cur a = Some i" by (simp_all add: leaf_inv_def)
  note D = worker_invD [OF inv]
  have ax: "a \<noteq> x" using sd x by auto
  have fit: "exec_fit dep (shape w) a i e" by (rule exec_core_fit [OF D(3) ex(1)])
  let ?parents = "parent_sources i d"
  have len: "length ?parents = dep a + 1" "length ?parents < nest_max_depth"
    using fit ex(4) by (simp_all add: parent_sources_def sd(2) exec_fit_def)
  let ?di = "d\<lparr>executions := (executions d)(i \<mapsto> e\<lparr>subdomain := Some x\<rparr>)\<rparr>"
  let ?w1 = "set_dom a (s, ?di) w"
  let ?dn = "domain_new\<lparr>parent_domain := Some a, parent_execution := i\<rparr>"
  let ?w2 = "set_dom x (Cycle (cyc_attached [] (length hs)), ?dn) ?w1"
  have new: "proxy_new x (length hs) a i w = Inr ?w2"
    by (simp add: proxy_new_def on_dom_Some [OF sd(1)] sd(2) cyc_new_attached)
  have "wk_doms ?w2 x = Some (Cycle (cyc_attached [] (length hs)), ?dn)" by simp
  from proxy_attach_all_ok [OF this, of ?parents hs src] hs(1) len(2) obtain d' where
    d': "proxy_attach_all x src ?parents hs ?w2 = Inr (set_dom x (Cycle (cyc_attached hs (length hs)), d') ?w2)"
      "\<And>k. (executions d' k \<noteq> None) = (k \<in> set hs)" "\<And>k e. executions d' k = Some e \<Longrightarrow> newborn ?parents k e"
      "parent_domain d' = Some a" "parent_execution d' = i"
    by (auto simp: domain_new_def)
  let ?w' = "set_dom x (Cycle (cyc_attached hs (length hs)), d') ?w1"
  have same: "set_dom x (Cycle (cyc_attached hs (length hs)), d') ?w2 = ?w'"
    by (simp add: set_dom_def)
  have run: "nest x src hs a i w = Inr ?w'"
    by (simp add: nest_def get_dom_def sd(1) new d'(1) same)
  let ?e = "e\<lparr>exec_state := Exec_active, handle_stack := [], cancel_callback_stack := []\<rparr>"
  have core: "core ?di = (core d)\<lparr>executions := (executions (core d))(i \<mapsto> ?e\<lparr>subdomain := Some x\<rparr>)\<rparr>"
    by (simp add: core_def fun_eq_iff)
  have shape: "shape ?w' = (shape w)(a \<mapsto> (is_cycle s, core ?di), x \<mapsto> (True, core d'))"
    using ax by (auto simp: shape_def fun_eq_iff is_cycle_def)
  have okx: "sd_ok None (Cycle (cyc_attached hs (length hs)), d')" by (rule cyc_attached_ok [OF hs d'(2,3)])
  have oka: "sd_ok (cur a) (s, ?di)"
    by (rule sd_ok_frame [OF D(1) [OF sd(1)]]) (simp add: sd(2))
  have "worker_inv (dep(x := dep a + 1)) cur {} Z ?w'"
  proof (rule worker_invI)
    show "sd_ok (cur b) sb" if "wk_doms ?w' b = Some sb" for b sb
      using that oka okx D(1) [of b] D(2) [OF x] by (auto split: if_splits)
    show "cur b = None" if "wk_doms ?w' b = None" for b using that D(2) [of b] by (simp split: if_splits)
    show "tree_ok (dep(x := dep a + 1)) (shape ?w')"
      unfolding shape core
    proof (rule tree_nest [OF D(3) shape_Some [OF sd(1)]])
      show "executions (core d) i = Some ?e" by (simp add: core_exec sd(2))
      show "shape w x = None" using x by (simp add: shape_def)
      show "cancel_src_stack_size f = dep a + 2 \<and> dep a + 1 < nest_max_depth \<and>
          length (cancel_src_stack f) = nest_max_depth + 1 \<and> subdomain f = None" if "executions (core d') k = Some f" for k f
        using that d'(3) [of k] len by (auto simp: core_exec newborn_def)
    qed (use ex(2) d' in simp_all)
    show "stacks_ok Z ?w'"
      unfolding stacks_ok_def
    proof (intro allI impI)
      fix b k e' assume e': "exec_of b k ?w' = Some e'"
      show "if handle_stack e' = [] then (b, k) \<in> Z else hd (handle_stack e') = k"
      proof (cases "b = x")
        case True
        with e' d'(3) [of k e'] show ?thesis by (simp add: exec_of_set_dom newborn_def)
      next
        case False
        with e' obtain e0 where "exec_of b k w = Some e0" "handle_stack e0 = handle_stack e'"
          using ex(1) by (cases "b = a"; cases "k = i") (auto simp: exec_of_set_dom exec_of_dom [OF sd(1)])
        with D(4) show ?thesis unfolding stacks_ok_def by metis
      qed
    qed
    show "linked cur ?w' y" if y: "y \<noteq> 0" "y \<notin> {}" for y
    proof (cases "y = x")
      case True
      have "\<not> sched_parks s i"
        using running_not_parks [OF _ sd(2) ex(3)] D(1) [OF sd(1)] cur by simp
      then have "stays cur ?w' a i" using ax cur by (simp add: stays_def stay_def)
      with d'(4,5) have "linked cur ?w' x" by (intro linkedI [where d = d' and b = a]) simp_all
      with True show ?thesis by simp
    next
      case False
      show ?thesis unfolding linked_def
      proof (intro impI allI)
        fix b dy assume b: "busy cur ?w' y" and sh: "shape ?w' y = Some (b, dy)"
        have old: "busy cur w y" using b False sd(1) by (auto simp: busy_def split: if_splits)
        obtain sy d0 k where d0: "wk_doms w y = Some (sy, d0)" "executions d0 k \<noteq> None"
          by (rule busy_nonempty [OF inv old])
        have par: "parent_domain dy = parent_domain d0" "parent_execution dy = parent_execution d0"
          using sh d0(1) False sd(1) by (cases "y = a"; auto simp: shape_def)+
        obtain pa sa da e' where pa: "parent_domain d0 = Some pa" "wk_doms w pa = Some (sa, da)"
          by (rule owner_exec [OF D(3) y(1) d0])
        have "stays cur w pa (parent_execution d0)"
          using D(5) [OF y(1)] old shape_Some [OF d0(1)] pa(1) by (simp add: linked_def)
        moreover have "pa \<noteq> x" using pa(2) x by auto
        ultimately show "stays cur ?w' (the (parent_domain dy)) (parent_execution dy)"
          using sd(1) pa(1) by (cases "pa = a") (simp_all add: stays_def par)
      qed
    qed
  qed
  moreover have "fresh_below a i (shape ?w')"
    unfolding fresh_below_def sub_of_shape
    using ax d'(3) by (auto simp: exec_of_set_dom newborn_def)
  moreover have "dom_ctx ?w' b ctx k" if "dom_ctx w b ctx k" for b ctx k
    using that x sd(1) by (auto simp: dom_ctx_def split: option.splits)
  ultimately show ?thesis
    using run cur by (intro exI [of _ ?w'] exI [of _ "dep(x := dep a + 1)"]) (simp add: leaf_inv_def)
qed

section \<open>What a coroutine does\<close>

lemma co_step_inv:
  assumes leaf: "leaf_inv Z dep cur a i w" and meant: "co_meant a i cop w"
  shows "\<exists>w' dep'. co_step a i cop w = Some (Inr w') \<and> leaf_inv Z dep' cur a i w' \<and>
    (\<forall>b ctx k. dom_ctx w b ctx k \<longrightarrow> dom_ctx w' b ctx k)"
proof -
  from leaf have inv: "worker_inv dep cur {} Z w" and cur: "cur a = Some i" and fresh: "fresh_below a i (shape w)"
    by (simp_all add: leaf_inv_def)
  obtain s d e where sd: "wk_doms w a = Some (s, d)" "executions d i = Some e" "exec_of a i w = Some e"
    "if handle_stack e = [] then (a, i) \<in> Z else hd (handle_stack e) = i"
    by (rule leaf_inv_exec [OF leaf])
  show ?thesis
  proof (cases cop)
    case Co_suspend
    with meant sd(3) have "subdomain e = None" by (simp add: co_meant_def no_subdomain_def)
    with suspend_inv [OF inv cur sd(3)] obtain w' where "on_dom a (sched_suspend i) w = Inr w'"
      "worker_inv dep cur {} Z w'" "shape w' = shape w" "dom_ctx w' = dom_ctx w" by auto
    with Co_suspend cur fresh show ?thesis
      by (intro exI [of _ w'] exI [of _ dep]) (simp add: leaf_inv_def)
  next
    case (Co_awake b k)
    with meant obtain e0 where "exec_of b k w = Some e0"
      by (auto simp: co_meant_def exec_alive_def exec_of_def split: option.splits)
    from awake_at_inv [OF inv this] obtain w' where "awake_at b k w = Some (Inr w')"
      "worker_inv dep cur {} Z w'" "shape w' = shape w" "dom_ctx w' = dom_ctx w" by blast
    with Co_awake cur fresh show ?thesis
      by (intro exI [of _ w'] exI [of _ dep]) (simp add: leaf_inv_def)
  next
    case (Co_callback c)
    have "\<exists>r w' e'. on_exec a i [] (\<lambda>ew. Inr ((), callback_new c ew)) w = Inr (r, w') \<and> leaf_inv Z dep cur a i w' \<and>
        shape w' = shape w \<and> dom_ctx w' = dom_ctx w \<and> exec_of a i w' = Some e' \<and> True"
      by (rule leaf_exec_op [OF leaf]) (use sd in \<open>auto simp: callback_frame callback_running\<close>)
    with Co_callback show ?thesis by auto
  next
    case Co_callback_end
    have "\<exists>r w' e'. on_exec a i [] (\<lambda>ew. Inr ((), callback_dtor ew)) w = Inr (r, w') \<and> leaf_inv Z dep cur a i w' \<and>
        shape w' = shape w \<and> dom_ctx w' = dom_ctx w \<and> exec_of a i w' = Some e' \<and> True"
      by (rule leaf_exec_op [OF leaf]) (use sd in \<open>auto simp: callback_frame callback_running\<close>)
    with Co_callback_end show ?thesis by auto
  next
    case (Co_stop src)
    with leaf show ?thesis
      by (intro exI [of _ "w\<lparr>wk_stopped := insert src (wk_stopped w)\<rparr>"] exI [of _ dep]) (simp add: leaf_inv_def dom_ctx_def)
  next
    case (Co_nest x src hs)
    with meant sd(3) have "wk_doms w x = None" "distinct hs" "length hs < 2 ^ 64" "subdomain e = None"
      "exec_state e = Exec_running" "cancel_src_stack_size e < nest_max_depth"
      by (simp_all add: co_meant_def no_subdomain_def is_running_def can_nest_def)
    from nest_inv [OF leaf this(1-3) sd(3) this(4-6), of src] Co_nest show ?thesis by auto
  qed
qed

lemma co_run_inv:
  "leaf_inv Z dep cur a i w \<Longrightarrow>
   \<exists>w' dep'. co_run a i cops w = Some (Inr w') \<and> leaf_inv Z dep' cur a i w' \<and>
     (\<forall>b ctx k. dom_ctx w b ctx k \<longrightarrow> dom_ctx w' b ctx k)"
proof (induction cops arbitrary: w dep)
  case Nil
  then show ?case by auto
next
  case (Cons cop cops)
  show ?case
  proof (cases "co_meant a i cop w")
    case True
    from co_step_inv [OF Cons.prems True] obtain w1 dep1 where w1: "co_step a i cop w = Some (Inr w1)"
      "leaf_inv Z dep1 cur a i w1" "\<forall>b ctx k. dom_ctx w b ctx k \<longrightarrow> dom_ctx w1 b ctx k" by blast
    from Cons.IH [OF w1(2)] obtain w2 dep2 where "co_run a i cops w1 = Some (Inr w2)" "leaf_inv Z dep2 cur a i w2"
      "\<forall>b ctx k. dom_ctx w1 b ctx k \<longrightarrow> dom_ctx w2 b ctx k" by blast
    with w1 True show ?thesis by (intro exI [of _ w2] exI [of _ dep2]) simp
  next
    case False
    with Cons.IH [OF Cons.prems] show ?thesis by simp
  qed
qed

lemma co_finish_inv:
  assumes start: "leaf_inv {} dep cur a i w" and ret: "fin = End_return \<Longrightarrow> no_subdomain a i w"
  shows "\<exists>w'. co_finish a i fin w = Inr w' \<and> leaf_inv {(a, i)} dep cur a i w' \<and> dom_ctx w' = dom_ctx w"
proof -
  have leaf: "leaf_inv {(a, i)} dep cur a i w"
    using start worker_inv_more [of dep cur "{}" "{}" w "{}" "{(a, i)}"] by (simp add: leaf_inv_def)
  obtain s d e where sd: "exec_of a i w = Some e" "handle_stack e \<noteq> []" "hd (handle_stack e) = i"
    by (rule leaf_inv_exec [OF start]) (simp split: if_splits)
  show ?thesis
  proof (cases fin)
    case End_suspend
    with leaf show ?thesis by (simp add: co_finish_def)
  next
    case (End_await h)
    have "\<exists>r w' e'. on_exec a i [] (\<lambda>ew. obind (push_handle h ew) (\<lambda>ew. Inr ((), ew))) w = Inr (r, w') \<and> leaf_inv {(a, i)} dep cur a i w' \<and>
        shape w' = shape w \<and> dom_ctx w' = dom_ctx w \<and> exec_of a i w' = Some e' \<and> True"
    proof (rule leaf_exec_op [OF leaf])
      fix ew e1 assume ew: "current ew = Some i" "running_execution ew = Some e1" "exec_of a i w = Some e1"
      have base: "handle_stack e1 \<noteq> []" "hd (handle_stack e1) = i" using sd ew(3) by simp_all
      from push_handle_frame [OF ew(2,1), of h] obtain ew' where ew': "push_handle h ew = Inr ew'" "leaf_frame i ew ew'"
        "running_execution ew' = Some (e1\<lparr>handle_stack := handle_stack e1 @ [h]\<rparr>)" by blast
      show "\<exists>r ew' e'. obind (push_handle h ew) (\<lambda>ew. Inr ((), ew)) = Inr (r, ew') \<and> leaf_frame i ew ew' \<and>
          running_execution ew' = Some e' \<and> (if handle_stack e' = [] then (a, i) \<in> {(a, i)} else hd (handle_stack e') = i) \<and> True"
        using ew' base by auto
    qed
    with End_await show ?thesis by (auto simp: co_finish_def)
  next
    case End_return
    let ?f = "\<lambda>ew. obind (pop_handle ew) (\<lambda>(h, ew). Inr ((h, is_base_coroutine h ew), ew))"
    have "\<exists>r w' e'. on_exec a i [] ?f w = Inr (r, w') \<and> leaf_inv {(a, i)} dep cur a i w' \<and>
        shape w' = shape w \<and> dom_ctx w' = dom_ctx w \<and> exec_of a i w' = Some e' \<and> (snd r \<longrightarrow> fst r = i)"
    proof (rule leaf_exec_op [OF leaf])
      fix ew e1 assume ew: "current ew = Some i" "running_execution ew = Some e1" "exec_of a i w = Some e1"
      have base: "handle_stack e1 \<noteq> []" "hd (handle_stack e1) = i" using sd ew(3) by simp_all
      show "\<exists>r ew' e'. ?f ew = Inr (r, ew') \<and> leaf_frame i ew ew' \<and> running_execution ew' = Some e' \<and>
          (if handle_stack e' = [] then (a, i) \<in> {(a, i)} else hd (handle_stack e') = i) \<and> (snd r \<longrightarrow> fst r = i)"
      proof -
        from pop_handle_frame [OF ew(2,1) base(1)] obtain ew' where ew': "pop_handle ew = Inr (last (handle_stack e1), ew')"
          "leaf_frame i ew ew'" "running_execution ew' = Some (e1\<lparr>handle_stack := butlast (handle_stack e1)\<rparr>)" by blast
        have "butlast (handle_stack e1) = [] \<or> hd (butlast (handle_stack e1)) = i"
          using base by (cases "handle_stack e1") (auto simp: hd_append)
        with ew' show ?thesis by (auto simp: is_base_coroutine_def)
      qed
    qed
    then obtain h base w1 e' where w1: "on_exec a i [] ?f w = Inr ((h, base), w1)" "leaf_inv {(a, i)} dep cur a i w1"
      "shape w1 = shape w" "dom_ctx w1 = dom_ctx w" "exec_of a i w1 = Some e'" "base \<Longrightarrow> h = i" by auto
    have sub: "subdomain e' = None"
    proof -
      have "map_option subdomain (exec_of a i w1) = map_option subdomain (exec_of a i w)"
        using w1(3) sub_of_shape by metis
      with w1(5) ret [OF End_return] sd(1) show ?thesis by (simp add: no_subdomain_def)
    qed
    let ?ev = "\<lambda>w. w\<lparr>wk_events := wk_events w @ [Destroy_frame h]\<rparr>"
    have ctx: "dom_ctx (?ev v) = dom_ctx v" for v by (simp add: dom_ctx_def fun_eq_iff)
    have "\<exists>w2. (if base then on_dom a (sched_suspend h) w1 else Inr w1) = Inr w2 \<and> leaf_inv {(a, i)} dep cur a i w2 \<and> dom_ctx w2 = dom_ctx w"
    proof (cases base)
      case True
      from w1(2) have inv: "worker_inv dep cur {} {(a, i)} w1" "cur a = Some i" "fresh_below a i (shape w1)"
        by (simp_all add: leaf_inv_def)
      from suspend_inv [OF inv(1,2) w1(5)] sub w1(4,6) inv True show ?thesis by (auto simp: leaf_inv_def)
    next
      case False
      with w1 show ?thesis by simp
    qed
    then obtain w2 where w2: "(if base then on_dom a (sched_suspend h) w1 else Inr w1) = Inr w2" "leaf_inv {(a, i)} dep cur a i w2"
      "dom_ctx w2 = dom_ctx w" by blast
    have "co_finish a i fin w = Inr (?ev w2)"
      by (simp add: co_finish_def End_return final_suspend_def w1(1) w2(1))
    moreover have "leaf_inv {(a, i)} dep cur a i (?ev w2)" using w2(2) by (simp add: leaf_inv_def)
    ultimately show ?thesis using w2(3) ctx by auto
  qed
qed

lemma worker_cleanup_inv:
  assumes leaf: "leaf_inv {(a, i)} dep cur a i w" and e: "exec_of a i w = Some e"
  shows "\<exists>b w' e'. worker_cleanup a i toks w = Inr (b, w') \<and> leaf_inv {(a, i)} dep cur a i w' \<and> shape w' = shape w \<and>
    dom_ctx w' = dom_ctx w \<and> exec_of a i w' = Some e' \<and> (if b then handle_stack e' = [] else e' = e)"
  unfolding worker_cleanup_def
proof (rule leaf_exec_op [OF leaf])
  fix ew e1 assume ew: "current ew = Some i" "running_execution ew = Some e1" "exec_of a i w = Some e1"
  obtain s d e0 where "exec_of a i w = Some e0" "handle_stack e0 = [] \<or> hd (handle_stack e0) = i"
    by (rule leaf_inv_exec [OF leaf]) (simp split: if_splits)
  with ew(3) e have base: "handle_stack e = [] \<or> hd (handle_stack e) = i" "e1 = e" by auto
  from cancel_cleanup_frame [OF ew(2,1)] obtain b ew' e' where c: "cancel_cleanup ew = Inr (b, ew')" "leaf_frame i ew ew'"
    "running_execution ew' = Some e'" "if b then handle_stack e' = [] else ew' = ew" by blast
  with base ew show "\<exists>r ew' e'. cancel_cleanup ew = Inr (r, ew') \<and> leaf_frame i ew ew' \<and> running_execution ew' = Some e' \<and>
      (if handle_stack e' = [] then (a, i) \<in> {(a, i)} else hd (handle_stack e') = i) \<and> (if r then handle_stack e' = [] else e' = e)"
    by (intro exI [of _ b] exI [of _ ew'] exI [of _ e']) (auto split: if_splits)
qed

section \<open>Beginning and ending the contexts\<close>

lemma begin_all_inv:
  assumes "worker_inv dep cur X Z w"
    and "\<And>l. l \<in> set ls \<Longrightarrow> cur (lv_dom l) = Some (lv_exec l) \<and> dom_ctx w (lv_dom l) (lv_ctx l) (lv_exec l)"
  shows "\<exists>w'. begin_all tsc ls w = Inr w' \<and> worker_inv dep cur X Z w' \<and> shape w' = shape w \<and> dom_ctx w' = dom_ctx w \<and>
    (\<forall>a k. exec_of a k w' = exec_of a k w)"
  using assms
proof (induction ls arbitrary: w)
  case Nil
  then show ?case by simp
next
  case (Cons l ls)
  let ?a = "lv_dom l" and ?i = "lv_exec l" and ?c = "lv_ctx l"
  have l: "cur ?a = Some ?i" "dom_ctx w ?a ?c ?i" using Cons.prems(2) [of l] by simp_all
  then obtain s d where sd: "wk_doms w ?a = Some (s, d)" "ctx_ok s ?c ?i" by (auto simp: dom_ctx_def split: option.splits)
  have ok: "sd_ok (Some ?i) (s, d)" using worker_invD(1) [OF Cons.prems(1) sd(1)] l(1) by simp
  note B = sched_begin_ok [OF ok sd(2), of tsc]
  let ?w = "set_dom ?a (sched_begin tsc ?c s, d) w"
  have kind: "is_cycle (sched_begin tsc ?c s) = is_cycle s" by (simp add: is_cycle_def sched_begin_def split: sched.split)
  have "worker_inv dep (cur(?a := cur ?a)) X Z ?w"
    by (rule inv_sched_step [OF Cons.prems(1) sd(1) _ kind refl order.refl])
      (use B l in \<open>simp_all add: stay_def busy_sched_def\<close>)
  then have inv: "worker_inv dep cur X Z ?w" by simp
  have ctx: "dom_ctx ?w = dom_ctx w" by (rule dom_ctx_set_dom [OF sd(1) B(4)])
  have same: "exec_of b k ?w = exec_of b k w" for b k using exec_of_dom [OF sd(1)] by (simp add: exec_of_set_dom)
  have "cur (lv_dom m) = Some (lv_exec m) \<and> dom_ctx ?w (lv_dom m) (lv_ctx m) (lv_exec m)" if "m \<in> set ls" for m
    using Cons.prems(2) [of m] that ctx by simp
  from Cons.IH [OF inv this] obtain w' where "begin_all tsc ls ?w = Inr w'" "worker_inv dep cur X Z w'"
    "shape w' = shape ?w" "dom_ctx w' = dom_ctx ?w" "\<forall>a k. exec_of a k w' = exec_of a k ?w" by blast
  then show ?case
    using shape_set_dom [OF sd(1) kind refl] ctx same by (intro exI [of _ w']) (simp add: on_dom_Some [OF sd(1)])
qed

definition dom_active :: "worker_state \<Rightarrow> nat \<Rightarrow> handle \<Rightarrow> bool" where
  "dom_active w a i = (case wk_doms w a of None \<Rightarrow> False | Some sd \<Rightarrow> sched_active (fst sd) i)"

definition clear_levels :: "level list \<Rightarrow> (nat \<Rightarrow> handle option) \<Rightarrow> nat \<Rightarrow> handle option" where
  "clear_levels ls cur a = (if a \<in> lv_dom ` set ls then None else cur a)"

lemma end_all_inv:
  assumes "worker_inv dep cur X Z w" "distinct (map lv_dom ls)"
    and "\<And>l. l \<in> set ls \<Longrightarrow> cur (lv_dom l) = Some (lv_exec l) \<and> dom_ctx w (lv_dom l) (lv_ctx l) (lv_exec l)"
    and "completed \<Longrightarrow> ls \<noteq> [] \<Longrightarrow> \<forall>x sx dx. wk_doms w x = Some (sx, dx) \<longrightarrow> parent_domain dx = Some (lv_dom (hd ls)) \<longrightarrow>
          parent_execution dx = lv_exec (hd ls) \<longrightarrow> x \<noteq> 0 \<longrightarrow> x \<notin> X \<longrightarrow> \<not> busy cur w x"
  shows "\<exists>w'. end_all tsc completed ls w = Inr w' \<and> worker_inv dep (clear_levels ls cur) X Z w' \<and> shape w' = shape w \<and>
    (\<forall>a k. map_option handle_stack (exec_of a k w') = map_option handle_stack (exec_of a k w)) \<and>
    (\<forall>a. a \<notin> lv_dom ` set ls \<longrightarrow> wk_doms w' a = wk_doms w a) \<and>
    (completed \<longrightarrow> ls \<noteq> [] \<longrightarrow> \<not> dom_active w' (lv_dom (hd ls)) (lv_exec (hd ls)))"
  using assms
proof (induction ls arbitrary: w cur completed)
  case Nil
  then show ?case by (simp add: clear_levels_def)
next
  case (Cons l ls)
  let ?a = "lv_dom l" and ?i = "lv_exec l" and ?c = "lv_ctx l"
  have l: "cur ?a = Some ?i" "dom_ctx w ?a ?c ?i" using Cons.prems(3) [of l] by simp_all
  then obtain s d where sd: "wk_doms w ?a = Some (s, d)" "ctx_ok s ?c ?i" by (auto simp: dom_ctx_def split: option.splits)
  have ok: "sd_ok (Some ?i) (s, d)" using worker_invD(1) [OF Cons.prems(1) sd(1)] l(1) by simp
  from sched_end_ok [OF ok sd(2), of tsc completed] obtain s' d' where e: "sched_end tsc ?c completed (s, d) = Inr (s', d')"
    "sd_ok None (s', d')" "erase d' = erase d"
    and act: "\<forall>k. sched_active s' k = (if k = ?i then \<not> (sched_parks s ?i \<or> completed) else sched_active s k)" by blast
  note kind = sched_kind(3) [OF e(1)]
  let ?w = "set_dom ?a (s', d') w" and ?cur = "cur(?a := None)"
  have inv: "worker_inv dep ?cur X Z ?w"
  proof (rule inv_sched_step [OF Cons.prems(1) sd(1) e(2) kind e(3) order.refl])
    fix k assume k: "stay (cur ?a) s k"
    show "stay None s' k \<or> (\<forall>x sx dx. wk_doms w x = Some (sx, dx) \<longrightarrow> parent_domain dx = Some ?a \<longrightarrow> parent_execution dx = k \<longrightarrow>
          x \<noteq> 0 \<longrightarrow> x \<notin> X \<longrightarrow> \<not> busy cur w x)"
    proof (cases "k = ?i \<and> completed")
      case True
      with Cons.prems(4) show ?thesis by simp
    next
      case False
      with stay_after_end [OF act, of k] k l(1) show ?thesis by auto
    qed
  qed (simp add: busy_sched_def l(1))
  have frame: "shape ?w = shape w" by (rule shape_set_dom [OF sd(1) kind erase_core [OF e(3)]])
  have stack: "map_option handle_stack (exec_of b k ?w) = map_option handle_stack (exec_of b k w)" for b k
    using erase_stack [OF e(3), of k] exec_of_dom [OF sd(1), of k] by (simp add: exec_of_set_dom)
  have levels: "?cur (lv_dom m) = Some (lv_exec m) \<and> dom_ctx ?w (lv_dom m) (lv_ctx m) (lv_exec m)" if "m \<in> set ls" for m
  proof -
    have "lv_dom m \<noteq> ?a" using imageI [OF that, of lv_dom] Cons.prems(2) by auto
    with Cons.prems(3) [of m] that show ?thesis by (simp add: dom_ctx_def)
  qed
  have "distinct (map lv_dom ls)" using Cons.prems(2) by simp
  from Cons.IH [OF inv this levels, of False] obtain w' where w': "end_all tsc False ls ?w = Inr w'"
    "worker_inv dep (clear_levels ls ?cur) X Z w'" "shape w' = shape ?w"
    "\<forall>a k. map_option handle_stack (exec_of a k w') = map_option handle_stack (exec_of a k ?w)"
    "\<forall>a. a \<notin> lv_dom ` set ls \<longrightarrow> wk_doms w' a = wk_doms ?w a" by blast
  have cl: "clear_levels ls ?cur = clear_levels (l # ls) cur" by (auto simp: clear_levels_def fun_eq_iff)
  have "?a \<notin> lv_dom ` set ls" using Cons.prems(2) by auto
  with w'(5) have "wk_doms w' ?a = Some (s', d')" by simp
  then have "completed \<longrightarrow> \<not> dom_active w' ?a ?i" using act by (simp add: dom_active_def)
  with w' frame stack cl show ?case
    by (intro exI [of _ w']) (simp add: on_dom_Some [OF sd(1)] e(1))
qed

section \<open>Going down\<close>

definition cur_of :: "level list \<Rightarrow> nat \<Rightarrow> handle option" where
  "cur_of lvs = map_of (map (\<lambda>l. (lv_dom l, lv_exec l)) lvs)"

definition levels_ok :: "level list \<Rightarrow> worker_state \<Rightarrow> bool" where
  "levels_ok lvs w \<longleftrightarrow>
     distinct (map lv_dom lvs) \<and> (\<forall>l\<in>set lvs. dom_ctx w (lv_dom l) (lv_ctx l) (lv_exec l))"

lemma cur_of_None: "cur_of lvs a = None \<longleftrightarrow> a \<notin> lv_dom ` set lvs"
  by (induction lvs) (auto simp: cur_of_def)

lemma cur_of_level: "distinct (map lv_dom lvs) \<Longrightarrow> l \<in> set lvs \<Longrightarrow> cur_of lvs (lv_dom l) = Some (lv_exec l)"
  by (induction lvs) (auto simp: cur_of_def image_iff)

lemma cur_of_snoc: "lv_dom l \<notin> lv_dom ` set lvs \<Longrightarrow> cur_of (lvs @ [l]) = (cur_of lvs)(lv_dom l \<mapsto> lv_exec l)"
  unfolding cur_of_def by (induction lvs) (auto simp: fun_eq_iff)

lemma clear_cur_of: "clear_levels (rev lvs) (cur_of lvs) = (\<lambda>_. None)"
  using cur_of_None [of lvs] by (auto simp: clear_levels_def fun_eq_iff)

lemma descend_step:
  assumes inv: "worker_inv dep (cur_of lvs) {} {} w" and lv: "levels_ok lvs w" and new: "a \<notin> lv_dom ` set lvs"
    and sd: "wk_doms w a = Some (s, d)" and can: "sched_can n s"
  shows "\<exists>i ctx s1 e. sched_schedule n s = Some (Inr (i, ctx, s1)) \<and> executions d i = Some e \<and>
    schedule_execution i d = Inr (set_state i Exec_running d) \<and>
    worker_inv dep (cur_of (lvs @ [\<lparr>lv_dom = a, lv_ctx = ctx, lv_exec = i\<rparr>])) {} {} (set_dom a (s1, set_state i Exec_running d) w) \<and>
    levels_ok (lvs @ [\<lparr>lv_dom = a, lv_ctx = ctx, lv_exec = i\<rparr>]) (set_dom a (s1, set_state i Exec_running d) w) \<and>
    shape (set_dom a (s1, set_state i Exec_running d) w) = shape w"
proof -
  have cur: "cur_of lvs a = None" using new by (simp add: cur_of_None)
  have ok: "sd_ok None (s, d)" using worker_invD(1) [OF inv sd] cur by simp
  from sched_schedule_ok [OF ok can] obtain i ctx s1 where sc: "sched_schedule n s = Some (Inr (i, ctx, s1))"
    "executions d i \<noteq> None" "ctx_ok s1 ctx i" "sched_active s i" "sd_ok (Some i) (s1, set_state i Exec_running d)"
    "\<forall>k. k \<noteq> i \<longrightarrow> sched_active s1 k = sched_active s k" "(\<exists>c. s1 = Cycle c) = (\<exists>c. s = Cycle c)" by blast
  let ?l = "\<lparr>lv_dom = a, lv_ctx = ctx, lv_exec = i\<rparr>" and ?w = "set_dom a (s1, set_state i Exec_running d) w"
  have kind: "is_cycle s1 = is_cycle s" using sc(7) by (auto simp: is_cycle_def split: sched.splits)
  have run: "\<not> sched_parks s1 i"
  proof -
    from sc(2) obtain e where "executions d i = Some e" by auto
    then have "executions (set_state i Exec_running d) i = Some (e\<lparr>exec_state := Exec_running\<rparr>)" by simp
    from running_not_parks [OF sc(5) this] show ?thesis by simp
  qed
  have "worker_inv dep ((cur_of lvs)(a := Some i)) {} {} ?w"
  proof (rule inv_sched_step [OF inv sd sc(5) kind erase_set_state order.refl])
    show "stay (Some i) s1 k \<or> (\<forall>x sx dx. wk_doms w x = Some (sx, dx) \<longrightarrow> parent_domain dx = Some a \<longrightarrow> parent_execution dx = k \<longrightarrow>
          x \<noteq> 0 \<longrightarrow> x \<notin> {} \<longrightarrow> \<not> busy (cur_of lvs) w x)" if "stay (cur_of lvs a) s k" for k
      using that run sc(6) by (auto simp: stay_def cur)
  qed (use sc(4) in \<open>auto simp: busy_sched_def\<close>)
  then have inv1: "worker_inv dep (cur_of (lvs @ [?l])) {} {} ?w" using cur_of_snoc [of ?l lvs] new by simp
  have "dom_ctx ?w (lv_dom l) (lv_ctx l) (lv_exec l)" if "l \<in> set lvs" for l
  proof -
    have "lv_dom l \<noteq> a" using imageI [OF that, of lv_dom] new by auto
    with lv that show ?thesis by (simp add: levels_ok_def dom_ctx_def)
  qed
  then have "levels_ok (lvs @ [?l]) ?w"
    using lv new sc(3) by (auto simp: levels_ok_def dom_ctx_def)
  moreover have "shape ?w = shape w" by (rule shape_set_dom [OF sd kind erase_core [OF erase_set_state]])
  moreover have "schedule_execution i d = Inr (set_state i Exec_running d)"
    using sc(2) by (simp add: schedule_execution_def set_state_ok)
  ultimately show ?thesis using sc(1,2) inv1 by blast
qed

text \<open>Taking an empty domain away from its owner.\<close>

lemma remove_subdomain_inv:
  assumes inv: "worker_inv dep cur X Z w" and sd: "wk_doms w a = Some (s, d)" "executions d i = Some e" "subdomain e = Some x"
    and x: "wk_doms w x = Some (sx, dx)" "domain_is_empty dx" and ne: "x \<noteq> a"
  shows "worker_inv dep cur X Z (set_dom a (s, remove_subdomain i d) w) \<and>
    dom_ctx (set_dom a (s, remove_subdomain i d) w) = dom_ctx w"
proof
  let ?d = "remove_subdomain i d"
  let ?w = "set_dom a (s, ?d) w"
  note D = worker_invD [OF inv]
  have ex: "executions ?d = (executions d)(i \<mapsto> e\<lparr>subdomain := None\<rparr>)" "parent_domain ?d = parent_domain d"
    "parent_execution ?d = parent_execution d"
    by (simp_all add: remove_subdomain_def sd(2))
  let ?e = "e\<lparr>exec_state := Exec_active, handle_stack := [], cancel_callback_stack := []\<rparr>"
  have core: "core ?d = (core d)\<lparr>executions := (executions (core d))(i \<mapsto> ?e\<lparr>subdomain := None\<rparr>)\<rparr>"
    by (simp add: remove_subdomain_def core_def sd(2) fun_eq_iff)
  have shape: "shape ?w = (shape w)(a \<mapsto> (is_cycle s, core ?d))" by (auto simp: shape_def fun_eq_iff)
  have shx: "shape w x = Some (is_cycle sx, core dx)" by (rule shape_Some [OF x(1)])
  have empty: "executions dx k = None" for k using x(2) by (auto simp: domain_is_empty_def dom_def)
  show "dom_ctx ?w = dom_ctx w" by (rule dom_ctx_set_dom [OF sd(1)]) simp
  show "worker_inv dep cur X Z ?w"
  proof (rule worker_invI)
    show "sd_ok (cur b) sb" if "wk_doms ?w b = Some sb" for b sb
      using that D(1) [of b] sd_ok_frame [OF D(1) [OF sd(1)], of ?d] sd(2) by (auto simp: ex split: if_splits)
    show "cur b = None" if "wk_doms ?w b = None" for b using that D(2) [of b] by (simp split: if_splits)
    show "tree_ok dep (shape ?w)"
      unfolding tree_ok_def
    proof (intro conjI allI impI)
      note T = tree_okD [OF D(3)]
      show "\<exists>d. shape ?w 0 = Some (False, d) \<and> parent_domain d = None"
        unfolding shape using T(1) shape_Some [OF sd(1)] by (cases "a = 0") (auto simp: ex)
      show "dep 0 = 0" by (rule T(2))
      show b' if "a' \<noteq> 0" "shape ?w a' = Some (b', d')" for a' b' d'
        using that T(3) [of a'] shape_Some [OF sd(1)] by (auto simp: shape split: if_splits)
      show "exec_fit dep (shape ?w) a' i' e'" if "shape ?w a' = Some (b', d')" "executions d' i' = Some e'" for a' b' d' i' e'
      proof -
        have "\<exists>e0. exec_fit dep (shape w) a' i' e0 \<and> cancel_src_stack_size e' = cancel_src_stack_size e0 \<and>
            cancel_src_stack e' = cancel_src_stack e0 \<and> (subdomain e' = subdomain e0 \<or> subdomain e' = None)"
        proof (cases "a' = a \<and> i' = i")
          case True
          with that have "e' = ?e\<lparr>subdomain := None\<rparr>" by (auto simp: shape core)
          with T(4) [OF shape_Some [OF sd(1)], of i ?e] True show ?thesis
            by (intro exI [of _ ?e]) (simp add: core_exec sd(2))
        next
          case False
          with that T(4) [of a' b' _ i' e'] shape_Some [OF sd(1)] show ?thesis
            by (intro exI [of _ e']) (auto simp: shape core split: if_splits)
        qed
        then obtain e0 where e0: "exec_fit dep (shape w) a' i' e0" "cancel_src_stack_size e' = cancel_src_stack_size e0"
          "cancel_src_stack e' = cancel_src_stack e0" "subdomain e' = subdomain e0 \<or> subdomain e' = None" by blast
        have "y \<noteq> 0 \<and> dep y = dep a' + 1 \<and> (\<exists>b d. shape ?w y = Some (b, d) \<and> parent_domain d = Some a' \<and> parent_execution d = i')"
          if "subdomain e' = Some y" for y
        proof -
          from e0(1,4) that have y: "y \<noteq> 0 \<and> dep y = dep a' + 1"
            "\<exists>b d. shape w y = Some (b, d) \<and> parent_domain d = Some a' \<and> parent_execution d = i'"
            by (auto simp: exec_fit_def)
          with shape_Some [OF sd(1)] show ?thesis by (cases "y = a") (auto simp: shape ex)
        qed
        with e0 show ?thesis by (simp add: exec_fit_def)
      qed
      show "owned (shape ?w) y d'" if y: "y \<noteq> 0" "shape ?w y = Some (b', d')" "executions d' k \<noteq> None" for y b' d' k
      proof -
        obtain d0 where d0: "shape w y = Some (b', d0)" "parent_domain d' = parent_domain d0"
          "parent_execution d' = parent_execution d0" "executions d0 k \<noteq> None"
          using y(2,3) shape_Some [OF sd(1)] sd(2) by (cases "y = a") (auto simp: shape ex core_exec split: if_splits)
        with T(5) [OF y(1) d0(1,4)] obtain pa pb pd pe where o: "parent_domain d0 = Some pa" "shape w pa = Some (pb, pd)"
          "executions pd (parent_execution d0) = Some pe" "subdomain pe = Some y" by (auto simp: owned_def)
        have "y \<noteq> x" using d0(1,4) shx empty by (auto simp: core_exec)
        then have "\<not> (pa = a \<and> parent_execution d0 = i)"
          using o shape_Some [OF sd(1)] sd(2,3) by (auto simp: core_exec)
        then show ?thesis using o d0 shape_Some [OF sd(1)]
          by (cases "pa = a") (auto simp: owned_def shape core)
      qed
    qed
    have old: "\<exists>e0. exec_of b k w = Some e0 \<and> handle_stack e0 = handle_stack e'" if "exec_of b k ?w = Some e'" for b k e'
      using that sd(2) exec_of_dom [OF sd(1)] by (auto simp: exec_of_set_dom ex split: if_splits)
    show "stacks_ok Z ?w"
      unfolding stacks_ok_def
    proof (intro allI impI)
      fix b k e' assume "exec_of b k ?w = Some e'"
      then obtain e0 where "exec_of b k w = Some e0" "handle_stack e0 = handle_stack e'" using old by blast
      with D(4) show "if handle_stack e' = [] then (b, k) \<in> Z else hd (handle_stack e') = k"
        unfolding stacks_ok_def by metis
    qed
    show "linked cur ?w y" if y: "y \<noteq> 0" "y \<notin> X" for y
    proof -
      have "busy cur ?w y = busy cur w y" "stays cur ?w b k = stays cur w b k" for b k
        using sd(1) by (auto simp: busy_def stays_def)
      moreover have "parent_domain dy = parent_domain d0 \<and> parent_execution dy = parent_execution d0"
        if "shape ?w y = Some (b, dy)" "shape w y = Some (b, d0)" for b dy d0
        using that shape_Some [OF sd(1)] by (cases "y = a") (auto simp: shape ex)
      moreover have "shape ?w y = Some (b, dy) \<Longrightarrow> \<exists>d0. shape w y = Some (b, d0)" for b dy
        using shape_Some [OF sd(1)] by (cases "y = a") (auto simp: shape)
      ultimately show ?thesis using D(5) [OF y] unfolding linked_def by metis
    qed
  qed
qed

end
