(* ===== verification/Worker_Turn.thy ===== *)
theory Worker_Turn
  imports Worker_Spec
begin

text \<open>
  The turns of a worker keep the invariant and end: going down the tree, executing, retiring an execution, and the
  sessions made of them.
\<close>

section \<open>The way down\<close>

lemma descend_inv:
  assumes "worker_inv dep (cur_of lvs) {} {} w" "levels_ok lvs w" "\<forall>l\<in>set lvs. dep (lv_dom l) < dep a"
    "wk_doms w a = Some (s, d)" "sched_can n s"
  shows "\<exists>r lvs' w'. descend n a lvs w = Some (Inr (r, lvs', w')) \<and> worker_inv dep (cur_of lvs') {} {} w' \<and>
    levels_ok lvs' w' \<and> lvs' \<noteq> [] \<and> (r = Reached \<longrightarrow> no_subdomain (lv_dom (last lvs')) (lv_exec (last lvs')) w')"
  using assms
proof (induction "nest_max_depth - dep a" arbitrary: a lvs w s d rule: less_induct)
  case less
  note inv = less.prems(1) and sd = less.prems(4)
  have new: "a \<notin> lv_dom ` set lvs" using less.prems(3) by auto
  from descend_step [OF inv less.prems(2) new sd less.prems(5)] obtain i ctx s1 e where
    st: "sched_schedule n s = Some (Inr (i, ctx, s1))" "executions d i = Some e"
      "schedule_execution i d = Inr (set_state i Exec_running d)"
    and inv1: "worker_inv dep (cur_of (lvs @ [\<lparr>lv_dom = a, lv_ctx = ctx, lv_exec = i\<rparr>])) {} {} (set_dom a (s1, set_state i Exec_running d) w)"
    and lv1: "levels_ok (lvs @ [\<lparr>lv_dom = a, lv_ctx = ctx, lv_exec = i\<rparr>]) (set_dom a (s1, set_state i Exec_running d) w)"
    and shape: "shape (set_dom a (s1, set_state i Exec_running d) w) = shape w" by blast
  define l where "l = \<lparr>lv_dom = a, lv_ctx = ctx, lv_exec = i\<rparr>"
  define d1 where "d1 = set_state i Exec_running d"
  define w1 where "w1 = set_dom a (s1, d1) w"
  have l [simp]: "lv_dom l = a" "lv_exec l = i" by (simp_all add: l_def)
  note inv1 = inv1 [folded l_def d1_def, folded w1_def] and lv1 = lv1 [folded l_def d1_def, folded w1_def]
  note shape = shape [folded d1_def, folded w1_def]
  have sd1: "wk_doms w1 a = Some (s1, d1)" by (simp add: w1_def)
  have e1: "executions d1 i = Some (e\<lparr>exec_state := Exec_running\<rparr>)" by (simp add: d1_def st(2))
  have ex1: "exec_of a i w1 = Some (e\<lparr>exec_state := Exec_running\<rparr>)" using e1 exec_of_dom [OF sd1] by simp
  have un: "descend n a lvs w =
     (case subdomain e of
        None \<Rightarrow> Some (Inr (Reached, lvs @ [l], w1))
      | Some x \<Rightarrow>
          (case wk_doms w1 x of
             None \<Rightarrow> Some (Inl Missing_entry)
           | Some (sx, dx) \<Rightarrow>
               if domain_is_empty dx then Some (Inr (Sub_empty, lvs @ [l], set_dom a (s1, remove_subdomain i d1) w1))
               else if \<not> sched_has_active sx
               then (case parent_domain dx of
                       None \<Rightarrow> Some (Inl Missing_entry)
                     | Some pa \<Rightarrow> Some (obind (on_dom pa (sched_suspend i) w1) (\<lambda>w. Inr (Sub_idle, lvs @ [l], w))))
               else descend n x (lvs @ [l]) w1))"
    by (subst descend.simps)
      (simp add: sd st(1,3) Let_def l_def d1_def w1_def st(2) cong: option.case_cong if_cong)
  show ?case
  proof (cases "subdomain e")
    case None
    then have "no_subdomain a i w1" by (simp add: no_subdomain_def ex1)
    with un None inv1 lv1 show ?thesis by (intro exI [of _ Reached] exI [of _ "lvs @ [l]"] exI [of _ w1]) simp
  next
    case (Some x)
    have fit: "exec_fit dep (shape w1) a i (e\<lparr>exec_state := Exec_running\<rparr>)"
      by (rule exec_core_fit [OF worker_invD(3) [OF inv1] ex1])
    with Some obtain b dc where x: "x \<noteq> 0" "dep x = dep a + 1" "dep a < nest_max_depth" "shape w1 x = Some (b, dc)"
      "parent_domain dc = Some a" "parent_execution dc = i"
      by (auto simp: exec_fit_def)
    then obtain sx dx where sdx: "wk_doms w1 x = Some (sx, dx)" "dc = core dx" "b = is_cycle sx"
      by (auto simp: shape_def)
    have ne: "x \<noteq> a" using x(2) by auto
    have newx: "\<forall>m\<in>set (lvs @ [l]). dep (lv_dom m) < dep x" using less.prems(3) x(2) by auto
    show ?thesis
    proof (cases "domain_is_empty dx")
      case True
      let ?w2 = "set_dom a (s1, remove_subdomain i d1) w1"
      have sub: "subdomain (e\<lparr>exec_state := Exec_running\<rparr>) = Some x" using Some by simp
      from remove_subdomain_inv [OF inv1 sd1 e1 sub sdx(1) True ne]
      have "worker_inv dep (cur_of (lvs @ [l])) {} {} ?w2" "dom_ctx ?w2 = dom_ctx w1" by blast+
      with un Some sdx(1) True lv1 show ?thesis
        by (intro exI [of _ Sub_empty] exI [of _ "lvs @ [l]"] exI [of _ ?w2]) (simp add: levels_ok_def)
    next
      case False
      obtain c where c: "sx = Cycle c"
        using tree_okD(3) [OF worker_invD(3) [OF inv1] x(1) x(4)] sdx(3) by (auto simp: is_cycle_def split: sched.splits)
      have curx: "cur_of (lvs @ [l]) x = None" using newx by (auto simp: cur_of_None)
      have okx: "sd_ok None (Cycle c, dx)" using worker_invD(1) [OF inv1 sdx(1)] curx c by simp
      show ?thesis
      proof (cases "sched_has_active sx")
        case True
        have "nest_max_depth - dep x < nest_max_depth - dep a" using x(2,3) by simp
        moreover have "sched_can n sx" using True c by (simp add: sched_can_def sched_has_active_def)
        ultimately show ?thesis
          using less.hyps [OF _ inv1 lv1 newx sdx(1)] un Some sdx(1) False True by simp
      next
        case idle: False
        have "\<not> busy (cur_of (lvs @ [l])) w1 x"
        proof
          assume "busy (cur_of (lvs @ [l])) w1 x"
          then obtain k where "sched_active (Cycle c) k" using sdx(1) curx c by (auto simp: busy_def busy_sched_def)
          moreover from this have "executions dx k \<noteq> None" by (rule sched_active_alive [OF okx])
          ultimately have "sched_has_active (Cycle c)" using sched_has_active_iff [OF okx] by blast
          with idle c show False by simp
        qed
        moreover have "cur_of (lvs @ [l]) a = Some i" using cur_of_snoc [of l lvs] new by simp
        ultimately obtain w2 where "on_dom a (sched_suspend i) w1 = Inr w2" "worker_inv dep (cur_of (lvs @ [l])) {} {} w2"
          "dom_ctx w2 = dom_ctx w1"
          using suspend_inv [OF inv1 _ ex1] Some by auto
        with un Some sdx False idle lv1 x(5) show ?thesis
          by (intro exI [of _ Sub_idle] exI [of _ "lvs @ [l]"] exI [of _ w2]) (simp add: levels_ok_def)
      qed
    qed
  qed
qed

section \<open>Executing\<close>

lemma inv_no_empty:
  assumes inv: "worker_inv dep cur X {(a, i)} w" and e: "\<And>e. exec_of a i w = Some e \<Longrightarrow> handle_stack e \<noteq> []"
  shows "worker_inv dep cur X {} w"
proof (rule worker_invI)
  show "stacks_ok {} w"
    unfolding stacks_ok_def
  proof (intro allI impI)
    fix b k x assume x: "exec_of b k w = Some x"
    with worker_invD(4) [OF inv] have "if handle_stack x = [] then (b, k) \<in> {(a, i)} else hd (handle_stack x) = k"
      unfolding stacks_ok_def by blast
    with x e show "if handle_stack x = [] then (b, k) \<in> {} else hd (handle_stack x) = k" by (auto split: if_splits)
  qed
qed (use worker_invD [OF inv] in blast)+

lemma owns_only:
  assumes inv: "worker_inv dep cur X Z w"
    and x: "wk_doms w x = Some (sx, dx)" "parent_domain dx = Some a" "parent_execution dx = i" "x \<noteq> 0" "busy cur w x"
  shows "sub_of (shape w) a i = Some (Some x)"
proof -
  obtain s d k where d: "wk_doms w x = Some (s, d)" "executions d k \<noteq> None" by (rule busy_nonempty [OF inv x(5)])
  then obtain b sa da e where "parent_domain d = Some b" "wk_doms w b = Some (sa, da)"
    "executions da (parent_execution d) = Some e" "subdomain e = Some x"
    by (rule owner_exec [OF worker_invD(3) [OF inv] x(4)])
  with d x show ?thesis by (simp add: sub_of_shape exec_of_def)
qed

definition subs :: "nat \<Rightarrow> handle \<Rightarrow> worker_state \<Rightarrow> nat set" where
  "subs a i w = {x. sub_of (shape w) a i = Some (Some x)}"

lemma end_levels:
  assumes inv: "worker_inv dep (cur_of lvs) {} {(a, i)} w" and lv: "levels_ok lvs w" "lvs \<noteq> []"
    and a: "a = lv_dom (last lvs)" "i = lv_exec (last lvs)"
  shows "\<exists>w'. end_all te completed (rev lvs) w = Inr w' \<and>
    worker_inv dep (\<lambda>_. None) (if completed then subs a i w else {}) {(a, i)} w' \<and> shape w' = shape w \<and>
    map_option handle_stack (exec_of a i w') = map_option handle_stack (exec_of a i w) \<and> (completed \<longrightarrow> \<not> dom_active w' a i)"
proof -
  let ?X = "if completed then subs a i w else {}"
  have inv': "worker_inv dep (cur_of lvs) ?X {(a, i)} w" by (rule worker_inv_more [OF inv]) simp_all
  have hd: "hd (rev lvs) = last lvs" by (simp add: hd_rev)
  have l: "cur_of lvs (lv_dom l) = Some (lv_exec l) \<and> dom_ctx w (lv_dom l) (lv_ctx l) (lv_exec l)" if "l \<in> set (rev lvs)" for l
    using that lv(1) by (simp add: levels_ok_def cur_of_level)
  have own: "\<forall>x sx dx. wk_doms w x = Some (sx, dx) \<longrightarrow> parent_domain dx = Some (lv_dom (hd (rev lvs))) \<longrightarrow>
      parent_execution dx = lv_exec (hd (rev lvs)) \<longrightarrow> x \<noteq> 0 \<longrightarrow> x \<notin> ?X \<longrightarrow> \<not> busy (cur_of lvs) w x" if completed
    using owns_only [OF inv] that a unfolding hd subs_def by auto
  have dist: "distinct (map lv_dom (rev lvs))" using lv(1) by (simp add: levels_ok_def rev_map [symmetric])
  from end_all_inv [where completed = completed and tsc = te, OF inv' dist l own] obtain w' where
    "end_all te completed (rev lvs) w = Inr w'" "worker_inv dep (\<lambda>_. None) ?X {(a, i)} w'" "shape w' = shape w"
    "\<forall>a k. map_option handle_stack (exec_of a k w') = map_option handle_stack (exec_of a k w)"
    "completed \<longrightarrow> rev lvs \<noteq> [] \<longrightarrow> \<not> dom_active w' a i"
    unfolding clear_cur_of hd a by blast
  then show ?thesis using lv(2) by auto
qed

lemma worker_execute_inv:
  assumes inv: "worker_inv dep (cur_of lvs) {} {} w" and lv: "levels_ok lvs w" "lvs \<noteq> []"
    and a: "a = lv_dom (last lvs)" "i = lv_exec (last lvs)" and sub: "no_subdomain a i w"
  shows "\<exists>alive w' dep'. worker_execute tb te cops fin lvs w = Some (Inr (alive, w')) \<and>
    (if alive then worker_inv dep' (\<lambda>_. None) {} {} w'
     else worker_inv dep' (\<lambda>_. None) (subs a i w') {(a, i)} w' \<and> fresh_below a i (shape w') \<and> \<not> dom_active w' a i \<and>
       exec_of a i w' \<noteq> None)"
proof -
  let ?cur = "cur_of lvs"
  have cur: "?cur a = Some i" using lv cur_of_level [of lvs "last lvs"] a by (simp add: levels_ok_def)
  from sub obtain e where e: "exec_of a i w = Some e" "subdomain e = None"
    by (auto simp: no_subdomain_def split: option.splits)
  have st: "handle_stack e \<noteq> []" using worker_invD(4) [OF inv] e(1) unfolding stacks_ok_def by (metis empty_iff)
  let ?toks = "take (cancel_src_stack_size e) (cancel_src_stack e)"
  have fresh: "fresh_below a i (shape w)" using e by (simp add: fresh_below_def sub_of_shape)
  have l: "?cur (lv_dom l) = Some (lv_exec l) \<and> dom_ctx w (lv_dom l) (lv_ctx l) (lv_exec l)" if "l \<in> set lvs" for l
    using that lv(1) by (simp add: levels_ok_def cur_of_level)
  from begin_all_inv [OF inv l, of lvs tb] obtain w1 where w1: "begin_all tb lvs w = Inr w1" "worker_inv dep ?cur {} {} w1"
    "shape w1 = shape w" "dom_ctx w1 = dom_ctx w" "\<forall>b k. exec_of b k w1 = exec_of b k w" by blast
  have leaf1: "leaf_inv {(a, i)} dep ?cur a i w1"
    using worker_inv_more [OF w1(2), of "{}" "{(a, i)}"] cur fresh w1(3) by (simp add: leaf_inv_def)
  have e1: "exec_of a i w1 = Some e" using w1(5) e(1) by simp
  from worker_cleanup_inv [OF leaf1 e1, of ?toks] obtain b w2 e2 where
    w2: "worker_cleanup a i ?toks w1 = Inr (b, w2)" "leaf_inv {(a, i)} dep ?cur a i w2" "shape w2 = shape w1"
      "dom_ctx w2 = dom_ctx w1" "exec_of a i w2 = Some e2" "if b then handle_stack e2 = [] else e2 = e" by blast
  have lv2: "levels_ok lvs w2" using lv(1) w1(4) w2(4) by (simp add: levels_ok_def)
  have inv2: "worker_inv dep ?cur {} {(a, i)} w2" using w2(2) by (simp add: leaf_inv_def)
  have ex: "worker_execute tb te cops fin lvs w =
     (case Inr (b, w2) of
        Inl er \<Rightarrow> Some (Inl er)
      | Inr (True, w) \<Rightarrow> Some (obind (end_all te True (rev lvs) w) (\<lambda>w. Inr (False, w)))
      | Inr (False, w) \<Rightarrow>
          (case co_run a i cops w of
             None \<Rightarrow> None
           | Some (Inl er) \<Rightarrow> Some (Inl er)
           | Some (Inr w) \<Rightarrow>
               Some (obind (obind (if fin = End_return \<and> \<not> no_subdomain a i w then Inr w else co_finish a i fin w)
                        (worker_cleanup a i ?toks))
                 (\<lambda>(cancelled, w).
                    let alive = \<not> cancelled \<and> (case exec_of a i w of None \<Rightarrow> False | Some e \<Rightarrow> handle_stack e \<noteq> [])
                    in obind (end_all te (\<not> alive) (rev lvs) w) (\<lambda>w. Inr (alive, w))))))"
    using w1(1) w2(1) e(1) st by (simp add: worker_execute_def Let_def a [symmetric])
  show ?thesis
  proof (cases b)
    case True
    from end_levels [OF inv2 lv2 lv(2) a, of te True] obtain w3 where w3: "end_all te True (rev lvs) w2 = Inr w3"
      "worker_inv dep (\<lambda>_. None) (subs a i w2) {(a, i)} w3" "shape w3 = shape w2"
      "map_option handle_stack (exec_of a i w3) = map_option handle_stack (exec_of a i w2)" "\<not> dom_active w3 a i" by auto
    moreover have "exec_of a i w3 \<noteq> None" using w3(4) w2(5) by auto
    ultimately show ?thesis
      using ex True fresh w1(3) w2(3) by (intro exI [of _ False] exI [of _ w3] exI [of _ dep]) (simp add: subs_def)
  next
    case False
    then have e2: "e2 = e" using w2(6) by simp
    have "leaf_inv {} dep ?cur a i w2"
      using w2(2) inv_no_empty [OF inv2] w2(5) e2 st by (simp add: leaf_inv_def)
    from co_run_inv [OF this, of cops] obtain w3 dep3 where w3: "co_run a i cops w2 = Some (Inr w3)"
      "leaf_inv {} dep3 ?cur a i w3" "\<forall>b ctx k. dom_ctx w2 b ctx k \<longrightarrow> dom_ctx w3 b ctx k" by blast
    let ?fin = "if fin = End_return \<and> \<not> no_subdomain a i w3 then Inr w3 else co_finish a i fin w3"
    have "\<exists>w4. ?fin = Inr w4 \<and> leaf_inv {(a, i)} dep3 ?cur a i w4 \<and> dom_ctx w4 = dom_ctx w3"
    proof (cases "fin = End_return \<and> \<not> no_subdomain a i w3")
      case True
      have "leaf_inv {(a, i)} dep3 ?cur a i w3"
        using w3(2) worker_inv_more [of dep3 ?cur "{}" "{}" w3 "{}" "{(a, i)}"] by (simp add: leaf_inv_def)
      with True show ?thesis by simp
    next
      case False
      with co_finish_inv [OF w3(2), of fin] show ?thesis by simp blast
    qed
    then obtain w4 where w4: "?fin = Inr w4" "leaf_inv {(a, i)} dep3 ?cur a i w4" "dom_ctx w4 = dom_ctx w3" by blast
    obtain e4 where e4: "exec_of a i w4 = Some e4" by (rule leaf_inv_exec [OF w4(2)])
    from worker_cleanup_inv [OF w4(2) e4, of ?toks] obtain c w5 e5 where
      w5: "worker_cleanup a i ?toks w4 = Inr (c, w5)" "leaf_inv {(a, i)} dep3 ?cur a i w5" "dom_ctx w5 = dom_ctx w4"
        "exec_of a i w5 = Some e5" by blast
    have lv5: "levels_ok lvs w5" using lv2 w3(3) w4(3) w5(3) by (simp add: levels_ok_def)
    have inv5: "worker_inv dep3 ?cur {} {(a, i)} w5" "fresh_below a i (shape w5)" using w5(2) by (simp_all add: leaf_inv_def)
    define alive where "alive = (\<not> c \<and> handle_stack e5 \<noteq> [])"
    from end_levels [OF inv5(1) lv5 lv(2) a, of te "\<not> alive"] obtain w6 where
      w6: "end_all te (\<not> alive) (rev lvs) w5 = Inr w6"
        "worker_inv dep3 (\<lambda>_. None) (if \<not> alive then subs a i w5 else {}) {(a, i)} w6" "shape w6 = shape w5"
        "map_option handle_stack (exec_of a i w6) = map_option handle_stack (exec_of a i w5)"
        "\<not> alive \<longrightarrow> \<not> dom_active w6 a i" by blast
    have e6: "exec_of a i w6 \<noteq> None" using w6(4) w5(4) by auto
    have run: "worker_execute tb te cops fin lvs w = Some (Inr (alive, w6))"
      unfolding ex using False w3(1) w4(1) w5(1,4) w6(1) by (simp add: Let_def alive_def)
    show ?thesis
    proof (cases alive)
      case True
      have "worker_inv dep3 (\<lambda>_. None) {} {} w6"
        by (rule inv_no_empty) (use w6(2,4) w5(4) True in \<open>auto simp: alive_def\<close>)
      with run True show ?thesis by (intro exI [of _ True] exI [of _ w6] exI [of _ dep3]) simp
    next
      case False
      with run w6 e6 inv5(2) show ?thesis
        by (intro exI [of _ False] exI [of _ w6] exI [of _ dep3]) (simp add: subs_def)
    qed
  qed
qed

section \<open>Retiring an execution\<close>

text \<open>The tree without execution \<open>i\<close> of \<open>a\<close>, and without the domain it had.\<close>

lemma tree_retire:
  assumes tree: "tree_ok dep (shape w)" and sd: "wk_doms w a = Some (s, d)" "executions d i \<noteq> None"
    and fresh: "fresh_below a i (shape w)"
    and w': "wk_doms w' = (\<lambda>b. if b = a then Some (s', domain_detach i d) else if b \<in> subs a i w then None else wk_doms w b)"
    and kind: "is_cycle s' = is_cycle s"
  shows "tree_ok dep (shape w')"
proof -
  note T = tree_okD [OF tree]
  have core: "core (domain_detach i d) = (core d)\<lparr>executions := (executions (core d))(i := None)\<rparr>"
    by (simp add: core_def domain_detach_def fun_eq_iff)
  have subs: "x \<noteq> 0 \<and> x \<noteq> a \<and> (\<exists>b d. shape w x = Some (b, d) \<and> parent_domain d = Some a \<and> parent_execution d = i)"
    if "x \<in> subs a i w" for x
  proof -
    from that obtain e where "exec_of a i w = Some e" "subdomain e = Some x" by (auto simp: subs_def sub_of_shape)
    with exec_core_fit [OF tree, of a i e] show ?thesis by (auto simp: exec_fit_def)
  qed
  have sh: "shape w' b = (if b = a then Some (is_cycle s, core (domain_detach i d)) else if b \<in> subs a i w then None else shape w b)" for b
    by (simp add: shape_def w' kind)
  have sha: "shape w a = Some (is_cycle s, core d)" by (rule shape_Some [OF sd(1)])
  have old: "\<exists>d0. shape w b = Some (c, d0) \<and> parent_domain d0 = parent_domain d' \<and> parent_execution d0 = parent_execution d' \<and>
      (\<forall>k. k \<noteq> i \<or> b \<noteq> a \<longrightarrow> executions d' k = executions d0 k) \<and> (b = a \<longrightarrow> executions d' i = None) \<and> b \<notin> subs a i w"
    if "shape w' b = Some (c, d')" for b c d'
    using that sha subs by (cases "b = a") (auto simp: sh core split: if_splits)
  have new: "\<exists>d'. shape w' b = Some (c, d') \<and> parent_domain d' = parent_domain d0 \<and> parent_execution d' = parent_execution d0 \<and>
      (\<forall>k. k \<noteq> i \<or> b \<noteq> a \<longrightarrow> executions d' k = executions d0 k)"
    if "shape w b = Some (c, d0)" "b \<notin> subs a i w" for b c d0
    using that sha by (cases "b = a") (auto simp: sh core)
  show ?thesis
    unfolding tree_ok_def
  proof (intro conjI allI impI)
    from T(1) obtain d0 where d0: "shape w 0 = Some (False, d0)" "parent_domain d0 = None" by blast
    have "0 \<notin> subs a i w" using subs by blast
    from new [OF d0(1) this] d0(2) show "\<exists>d. shape w' 0 = Some (False, d) \<and> parent_domain d = None" by auto
    show "dep 0 = 0" by (rule T(2))
    show c if "b \<noteq> 0" "shape w' b = Some (c, d')" for b c d' using old [OF that(2)] T(3) [OF that(1)] by blast
    show "exec_fit dep (shape w') b k e" if e: "shape w' b = Some (c, d')" "executions d' k = Some e" for b c d' k e
    proof -
      from old [OF e(1)] obtain d0 where d0: "shape w b = Some (c, d0)" "b \<notin> subs a i w"
        and ex: "\<forall>k. k \<noteq> i \<or> b \<noteq> a \<longrightarrow> executions d' k = executions d0 k" "b = a \<longrightarrow> executions d' i = None" by blast
      have ki: "k \<noteq> i \<or> b \<noteq> a" using ex(2) e(2) by auto
      with ex(1) e(2) have "executions d0 k = Some e" by simp
      from T(4) [OF d0(1) this] have fit: "exec_fit dep (shape w) b k e" .
      have "y \<noteq> 0 \<and> dep y = dep b + 1 \<and> (\<exists>c d. shape w' y = Some (c, d) \<and> parent_domain d = Some b \<and> parent_execution d = k)"
        if "subdomain e = Some y" for y
      proof -
        from fit that obtain cy dy where y: "y \<noteq> 0" "dep y = dep b + 1" "shape w y = Some (cy, dy)" "parent_domain dy = Some b"
          "parent_execution dy = k" by (auto simp: exec_fit_def)
        have "y \<notin> subs a i w" using subs [of y] y ki by auto
        from new [OF y(3) this] y show ?thesis by auto
      qed
      with fit show ?thesis by (simp add: exec_fit_def)
    qed
    show "owned (shape w') y d'" if y: "y \<noteq> 0" "shape w' y = Some (c, d')" "executions d' k \<noteq> None" for y c d' k
    proof -
      from old [OF y(2)] obtain d0 where d0: "shape w y = Some (c, d0)" "parent_domain d0 = parent_domain d'"
          "parent_execution d0 = parent_execution d'" "y \<notin> subs a i w"
        and ex: "\<forall>k. k \<noteq> i \<or> y \<noteq> a \<longrightarrow> executions d' k = executions d0 k" "y = a \<longrightarrow> executions d' i = None" by blast
      have some: "executions d0 k \<noteq> None" using ex y(3) by metis
      have "owned (shape w) y d0" by (rule T(5) [OF y(1) d0(1) some])
      then obtain pa pb pd pe where o: "parent_domain d0 = Some pa" "shape w pa = Some (pb, pd)"
        "executions pd (parent_execution d0) = Some pe" "subdomain pe = Some y" by (auto simp: owned_def)
      then have so: "sub_of (shape w) pa (parent_execution d0) = Some (Some y)" by (simp add: sub_of_def)
      have "pa \<notin> subs a i w" using fresh so by (auto simp: fresh_below_def subs_def)
      from new [OF o(2) this] obtain d1 where d1: "shape w' pa = Some (pb, d1)"
        "\<forall>k. k \<noteq> i \<or> pa \<noteq> a \<longrightarrow> executions d1 k = executions pd k" by blast
      have "\<not> (pa = a \<and> parent_execution d0 = i)" using so d0(4) by (auto simp: subs_def)
      with d1 o d0(2,3) show ?thesis by (auto simp: owned_def)
    qed
  qed
qed

lemma retire_inv:
  assumes inv: "worker_inv dep (\<lambda>_. None) (subs a i w) {(a, i)} w" and fresh: "fresh_below a i (shape w)"
    and idle: "\<not> dom_active w a i" and ex: "exec_of a i w \<noteq> None"
  shows "\<exists>w'. retire_execution a i w = Inr w' \<and> worker_inv dep (\<lambda>_. None) {} {} w'"
proof -
  from ex obtain e where e: "exec_of a i w = Some e" by auto
  then obtain s d where sd: "wk_doms w a = Some (s, d)" "executions d i = Some e"
    by (auto simp: exec_of_def split: option.splits)
  have ok: "sd_ok None (s, d)" using worker_invD(1) [OF inv sd(1)] .
  have off: "\<not> sched_active s i" using idle sd(1) by (simp add: dom_active_def)
  have "executions d i \<noteq> None" using sd(2) by simp
  from sched_detach_ok [OF ok this off] obtain s' where s': "sched_detach i s = Inr s'" "sd_ok None (s', domain_detach i d)"
    "\<forall>k. sched_active s' k = sched_active s k" "(\<exists>c. s' = Cycle c) = (\<exists>c. s = Cycle c)" by blast
  have kind: "is_cycle s' = is_cycle s" using s'(4) by (auto simp: is_cycle_def split: sched.splits)
  have na: "a \<notin> subs a i w"
  proof
    assume "a \<in> subs a i w"
    then have "subdomain e = Some a" using e by (simp add: subs_def sub_of_shape)
    with exec_core_fit [OF worker_invD(3) [OF inv] e] have "dep a = dep a + 1" unfolding exec_fit_def by blast
    then show False by simp
  qed
  have drop: "wk_doms (drop_subdomain a i w) = (\<lambda>b. if b \<in> subs a i w then None else wk_doms w b)"
    using e by (auto simp: drop_subdomain_def subs_def sub_of_shape fun_eq_iff split: option.split)
  define w1 where "w1 = (drop_subdomain a i w)\<lparr>wk_metas := wk_metas w - {i}\<rparr>"
  have w1: "wk_doms w1 a = Some (s, d)" by (simp add: w1_def drop na sd(1))
  define w2 where "w2 = set_dom a (s', domain_detach i d) (set_dom a (s', d) w1)"
  have run: "retire_execution a i w = Inr w2"
    unfolding retire_execution_def w1_def [symmetric]
    by (simp add: on_dom_def get_dom_def w1 s'(1) w2_def)
  have doms: "wk_doms w2 = (\<lambda>b. if b = a then Some (s', domain_detach i d) else if b \<in> subs a i w then None else wk_doms w b)"
    by (auto simp: w2_def w1_def drop fun_eq_iff)
  have exec: "exec_of b k w2 = (if b = a \<and> k = i \<or> b \<in> subs a i w then None else exec_of b k w)" for b k
    using na sd(1) by (auto simp: exec_of_def doms domain_detach_def)
  have "worker_inv dep (\<lambda>_. None) {} {} w2"
  proof (rule worker_invI)
    show "sd_ok None sb" if "wk_doms w2 b = Some sb" for b sb
      using that s'(2) worker_invD(1) [OF inv, of b sb] by (auto simp: doms split: if_splits)
    show "tree_ok dep (shape w2)"
      by (rule tree_retire [OF worker_invD(3) [OF inv] sd(1) _ fresh doms kind]) (simp add: sd(2))
    show "stacks_ok {} w2"
      unfolding stacks_ok_def
    proof (intro allI impI)
      fix b k x assume "exec_of b k w2 = Some x"
      then have x: "exec_of b k w = Some x" "\<not> (b = a \<and> k = i)" by (auto simp: exec split: if_splits)
      then have "if handle_stack x = [] then (b, k) \<in> {(a, i)} else hd (handle_stack x) = k"
        using worker_invD(4) [OF inv] unfolding stacks_ok_def by blast
      with x(2) show "if handle_stack x = [] then (b, k) \<in> {} else hd (handle_stack x) = k" by (auto split: if_splits)
    qed
    show "linked (\<lambda>_. None) w2 y" if y: "y \<noteq> 0" for y
      unfolding linked_def
    proof (intro impI allI)
      fix c dy assume b2: "busy (\<lambda>_. None) w2 y" and sh2: "shape w2 y = Some (c, dy)"
      have ny: "y \<notin> subs a i w" using b2 na by (cases "y = a") (auto simp: busy_def doms)
      have b: "busy (\<lambda>_. None) w y" using b2 s'(3) sd(1) ny by (auto simp: busy_def doms busy_sched_def split: if_splits)
      obtain sy d0 k where d0: "wk_doms w y = Some (sy, d0)" "executions d0 k \<noteq> None" by (rule busy_nonempty [OF inv b])
      obtain pa sa da pe where o: "parent_domain d0 = Some pa" "wk_doms w pa = Some (sa, da)"
        "executions da (parent_execution d0) = Some pe" "subdomain pe = Some y"
        by (rule owner_exec [OF worker_invD(3) [OF inv] y d0])
      then have "sub_of (shape w) pa (parent_execution d0) = Some (Some y)" by (simp add: sub_of_shape exec_of_def)
      with fresh have pa: "pa \<notin> subs a i w" by (auto simp: fresh_below_def subs_def)
      have par: "parent_domain dy = parent_domain d0 \<and> parent_execution dy = parent_execution d0"
        using sh2 d0(1) sd(1) by (auto simp: shape_def doms domain_detach_def split: if_splits)
      have "stays (\<lambda>_. None) w pa (parent_execution d0)"
        using worker_invD(5) [OF inv y ny] b shape_Some [OF d0(1)] o(1) by (simp add: linked_def)
      then show "stays (\<lambda>_. None) w2 (the (parent_domain dy)) (parent_execution dy)"
        using par o(1) pa s'(3) sd(1) by (cases "pa = a") (simp_all add: stays_def doms stay_def)
    qed
  qed simp
  with run show ?thesis by blast
qed

section \<open>Sessions\<close>

definition quiet :: "worker_state \<Rightarrow> bool" where
  "quiet w \<longleftrightarrow> (\<exists>dep. worker_inv dep (\<lambda>_. None) {} {} w)"

lemma worker_new_quiet: "quiet worker_new"
proof -
  have "worker_inv (\<lambda>_. 0) (\<lambda>_. None) {} {} worker_new"
    by (rule worker_invI)
      (auto simp: worker_new_def sd_ok_def dyn_ok_def states_ok_def dyn_new_def domain_new_def tree_ok_def shape_def core_def
        is_cycle_def stacks_ok_def exec_of_def linked_def busy_def split: if_splits)
  then show ?thesis by (auto simp: quiet_def)
qed

lemma root_dom:
  assumes "worker_inv dep cur X Z w"
  obtains p d where "wk_doms w 0 = Some (Dynprio p, d)" "parent_domain d = None"
proof -
  obtain s d where sd: "wk_doms w 0 = Some (s, d)" "\<not> is_cycle s" "parent_domain d = None"
    using tree_okD(1) [OF worker_invD(3) [OF assms]] by (auto simp: shape_def)
  then show ?thesis using that by (cases s) (simp_all add: is_cycle_def)
qed

lemma attach_task_inv:
  assumes inv: "worker_inv dep (\<lambda>_. None) {} {} w" and new: "\<not> exec_alive 0 h w"
  shows "\<exists>w'. attach_task h src w = Inr w' \<and> worker_inv dep (\<lambda>_. None) {} {} w'"
proof -
  note D = worker_invD [OF inv]
  note T = tree_okD [OF D(3)]
  obtain p d where sd: "wk_doms w 0 = Some (Dynprio p, d)" "parent_domain d = None" by (rule root_dom [OF inv])
  have hd: "executions d h = None" using new sd(1) by (simp add: exec_alive_def)
  have ok: "dyn_ok None p d" "states_ok None (Dynprio p) d" using D(1) [OF sd(1)] by (simp_all add: sd_ok_Dynprio)
  note P = dyn_okD [OF ok(1)]
  from domain_attach_new [OF hd, of "[]" src] obtain d' e where d': "domain_attach h [] src d = Inr d'"
    "executions d' = (executions d)(h \<mapsto> e)" "newborn [] h e" "parent_domain d' = parent_domain d"
    "parent_execution d' = parent_execution d" by (auto simp: nest_max_depth_def)
  have noctx: "dp_ctx p h = None" using P(1) [of h] hd by simp
  define p' where "p' = p\<lparr>dp_ctx := (dp_ctx p)(h \<mapsto> 0), dp_active := dp_active p @ [(h, 0)]\<rparr>"
  have p': "dyn_attach h p = Inr p'" by (simp add: dyn_attach_def noctx p'_def)
  have nh: "h \<notin> fst ` set (dp_active p)" "h \<notin> dp_suspended p" using P(4) [of h] hd by auto
  have ok': "dyn_ok None p' d'"
  proof (rule dyn_okI)
    show "(dp_ctx p' k \<noteq> None) = (executions d' k \<noteq> None)" for k using P(1) [of k] by (simp add: p'_def d'(2))
    show "distinct (map fst (dp_active p'))" using P(2) nh by (simp add: p'_def)
    show "k \<notin> dp_suspended p'" if "k \<in> fst ` set (dp_active p')" for k
      using that P(3) [of k] nh by (auto simp: p'_def)
    show "k \<in> fst ` set (dp_active p') \<or> k \<in> dp_suspended p' \<longleftrightarrow> executions d' k \<noteq> None \<and> None \<noteq> Some k" for k
      using P(4) [of k] by (auto simp: p'_def d'(2))
    show "\<not> dp_current_suspend p'" using P(7) by (simp add: p'_def)
  qed simp
  have act: "sched_active (Dynprio p') k = (sched_active (Dynprio p) k \<or> k = h)" for k
    by (auto simp: sched_view p'_def)
  have sdok: "sd_ok None (Dynprio p', d')"
    unfolding sd_ok_Dynprio
  proof (intro conjI ok' states_okI)
    fix k x assume x: "executions d' k = Some x"
    show "exec_state x = (if None = Some k then (if sched_flag (Dynprio p') k then Exec_suspended else Exec_running)
        else if sched_active (Dynprio p') k then Exec_active else Exec_suspended)"
    proof (cases "k = h")
      case True
      with x d'(2,3) act show ?thesis by (simp add: newborn_def)
    next
      case False
      with x d'(2) have "executions d k = Some x" by simp
      from states_okD [OF ok(2) this] False act show ?thesis by simp
    qed
  qed
  define w1 where "w1 = w\<lparr>wk_metas := insert h (wk_metas w)\<rparr>"
  define w2 where "w2 = set_dom 0 (Dynprio p', d') (set_dom 0 (Dynprio p, d') w1)"
  have run: "attach_task h src w = Inr w2"
    unfolding attach_task_def w1_def [symmetric]
    by (simp add: on_dom_def get_dom_def w1_def sd(1) d'(1) sched_attach_def p' w2_def)
  have doms: "wk_doms w2 = (wk_doms w)(0 \<mapsto> (Dynprio p', d'))" by (simp add: w2_def w1_def)
  let ?e = "e\<lparr>exec_state := Exec_active, handle_stack := [], cancel_callback_stack := []\<rparr>"
  have sh: "shape w2 b = (if b = 0 then Some (False, core d') else shape w b)" for b
    by (simp add: shape_def doms is_cycle_def)
  have sh0: "shape w 0 = Some (False, core d)" using shape_Some [OF sd(1)] by (simp add: is_cycle_def)
  have ex: "executions (core d') k = (if k = h then Some ?e else executions (core d) k)" for k by (simp add: core_exec d'(2))
  have "worker_inv dep (\<lambda>_. None) {} {} w2"
  proof (rule worker_invI)
    show "sd_ok None sb" if "wk_doms w2 b = Some sb" for b sb
      using that sdok D(1) [of b sb] by (auto simp: doms split: if_splits)
    have lift: "\<exists>c' dy'. shape w2 y = Some (c', dy') \<and> parent_domain dy' = parent_domain dy \<and> parent_execution dy' = parent_execution dy \<and>
        (\<forall>k x. executions dy k = Some x \<longrightarrow> executions dy' k = Some x)" if "shape w y = Some (c, dy)" for y c dy
      using that sh0 hd d'(2,4,5) by (cases "y = 0") (auto simp: sh ex core_exec)
    show "tree_ok dep (shape w2)"
      unfolding tree_ok_def
    proof (intro conjI allI impI)
      show "\<exists>d. shape w2 0 = Some (False, d) \<and> parent_domain d = None" using sd(2) d'(4) by (simp add: sh)
      show "dep 0 = 0" by (rule T(2))
      show c if "b \<noteq> 0" "shape w2 b = Some (c, db)" for b c db using that T(3) [of b c db] by (simp add: sh)
      show "exec_fit dep (shape w2) b k x" if "shape w2 b = Some (c, db)" "executions db k = Some x" for b c db k x
      proof (cases "b = 0 \<and> k = h")
        case True
        with that d'(3) T(2) show ?thesis by (auto simp: sh ex newborn_def exec_fit_def nest_max_depth_def)
      next
        case False
        with that have "\<exists>d0. shape w b = Some (c, d0) \<and> executions d0 k = Some x" using sh0 by (auto simp: sh ex split: if_splits)
        then have fit: "exec_fit dep (shape w) b k x" using T(4) by blast
        then show ?thesis using lift unfolding exec_fit_def by metis
      qed
      show "owned (shape w2) y dy" if y: "y \<noteq> 0" "shape w2 y = Some (c, dy)" "executions dy k \<noteq> None" for y c dy k
      proof -
        from y have "owned (shape w) y dy" using T(5) [of y c dy k] by (simp add: sh)
        then show ?thesis using lift unfolding owned_def by metis
      qed
    qed
    show "stacks_ok {} w2"
      unfolding stacks_ok_def
    proof (intro allI impI)
      fix b k x assume x: "exec_of b k w2 = Some x"
      show "if handle_stack x = [] then (b, k) \<in> {} else hd (handle_stack x) = k"
      proof (cases "b = 0 \<and> k = h")
        case True
        with x d'(2,3) show ?thesis by (auto simp: exec_of_def doms newborn_def)
      next
        case False
        with x have "exec_of b k w = Some x" using sd(1) d'(2) by (auto simp: exec_of_def doms split: if_splits)
        with D(4) show ?thesis unfolding stacks_ok_def by blast
      qed
    qed
    show "linked (\<lambda>_. None) w2 y" if y: "y \<noteq> 0" for y
    proof -
      have "busy (\<lambda>_. None) w2 y = busy (\<lambda>_. None) w y" "shape w2 y = shape w y" using y by (simp_all add: busy_def doms sh)
      moreover have "stays (\<lambda>_. None) w2 b k" if "stays (\<lambda>_. None) w b k" for b k
        using that act sd(1) by (cases "b = 0") (simp_all add: stays_def doms stay_def)
      ultimately show ?thesis using D(5) [OF y] unfolding linked_def by auto
    qed
  qed simp
  with run show ?thesis by blast
qed

lemma worker_turn_inv:
  assumes inv: "worker_inv dep (\<lambda>_. None) {} {} w" and sd: "wk_doms w 0 = Some (Dynprio p, d)" and n: "n < length (dp_active p)"
  shows "\<exists>w' dep'. worker_turn n tb te cops fin w = Some (Inr w') \<and> worker_inv dep' (\<lambda>_. None) {} {} w'"
proof -
  have cur0: "cur_of [] = (\<lambda>_. None)" by (simp add: cur_of_def)
  have inv0: "worker_inv dep (cur_of []) {} {} w" using inv by (simp add: cur0)
  have can: "sched_can n (Dynprio p)" using n by (simp add: sched_can_def)
  have "\<exists>r lvs' w'. descend n 0 [] w = Some (Inr (r, lvs', w')) \<and> worker_inv dep (cur_of lvs') {} {} w' \<and>
    levels_ok lvs' w' \<and> lvs' \<noteq> [] \<and> (r = Reached \<longrightarrow> no_subdomain (lv_dom (last lvs')) (lv_exec (last lvs')) w')"
    by (rule descend_inv [OF inv0 _ _ sd can]) (simp_all add: levels_ok_def)
  then obtain r lvs w1 where w1: "descend n 0 [] w = Some (Inr (r, lvs, w1))" "worker_inv dep (cur_of lvs) {} {} w1"
    "levels_ok lvs w1" "lvs \<noteq> []" "r = Reached \<longrightarrow> no_subdomain (lv_dom (last lvs)) (lv_exec (last lvs)) w1" by blast
  let ?a = "lv_dom (last lvs)" and ?i = "lv_exec (last lvs)"
  show ?thesis
  proof (cases "r = Reached")
    case True
    with w1(5) have leaf: "no_subdomain ?a ?i w1" by simp
    from worker_execute_inv [OF w1(2-4) refl refl leaf, of tb te cops fin] obtain alive w2 dep' where
      w2: "worker_execute tb te cops fin lvs w1 = Some (Inr (alive, w2))"
        "if alive then worker_inv dep' (\<lambda>_. None) {} {} w2
         else worker_inv dep' (\<lambda>_. None) (subs ?a ?i w2) {(?a, ?i)} w2 \<and> fresh_below ?a ?i (shape w2) \<and>
           \<not> dom_active w2 ?a ?i \<and> exec_of ?a ?i w2 \<noteq> None" by blast
    show ?thesis
    proof (cases alive)
      case True
      with w2 w1(1) \<open>r = Reached\<close> show ?thesis by (intro exI [of _ w2] exI [of _ dep']) (simp add: worker_turn_def)
    next
      case False
      with w2(2) retire_inv [of dep' ?a ?i w2] obtain w3 where w3: "retire_execution ?a ?i w2 = Inr w3"
        "worker_inv dep' (\<lambda>_. None) {} {} w3" by auto
      have "worker_turn n tb te cops fin w = Some (Inr w3)"
        using w1(1) w2(1) \<open>r = Reached\<close> False w3(1) by (simp add: worker_turn_def)
      with w3(2) show ?thesis by blast
    qed
  next
    case False
    have l: "cur_of lvs (lv_dom l) = Some (lv_exec l) \<and> dom_ctx w1 (lv_dom l) (lv_ctx l) (lv_exec l)" if "l \<in> set lvs" for l
      using that w1(3) by (simp add: levels_ok_def cur_of_level)
    from begin_all_inv [OF w1(2) l, of lvs tb] obtain w2 where w2: "begin_all tb lvs w1 = Inr w2"
      "worker_inv dep (cur_of lvs) {} {} w2" "dom_ctx w2 = dom_ctx w1" by blast
    have lv2: "levels_ok lvs w2" using w1(3) w2(3) by (simp add: levels_ok_def)
    have inv2: "worker_inv dep (cur_of lvs) {} {(?a, ?i)} w2" by (rule worker_inv_more [OF w2(2)]) simp_all
    from end_levels [OF inv2 lv2 w1(4) refl refl, of te False] obtain w3 where w3: "end_all te False (rev lvs) w2 = Inr w3"
      "worker_inv dep (\<lambda>_. None) {} {(?a, ?i)} w3"
      "map_option handle_stack (exec_of ?a ?i w3) = map_option handle_stack (exec_of ?a ?i w2)" by auto
    have "handle_stack x \<noteq> []" if "exec_of ?a ?i w3 = Some x" for x
    proof -
      from that w3(3) obtain y where "exec_of ?a ?i w2 = Some y" "handle_stack y = handle_stack x" by (cases "exec_of ?a ?i w2") auto
      with worker_invD(4) [OF w2(2)] show ?thesis unfolding stacks_ok_def by (metis empty_iff)
    qed
    then have "worker_inv dep (\<lambda>_. None) {} {} w3" by (rule inv_no_empty [OF w3(2)])
    moreover have "worker_turn n tb te cops fin w = Some (Inr w3)"
      using w1(1) False w2(1) w3(1) by (cases r) (simp_all add: worker_turn_def)
    ultimately show ?thesis by blast
  qed
qed

lemma worker_do_quiet:
  assumes "quiet w" "worker_meant act w"
  shows "\<exists>w'. worker_do act w = Some (Inr w') \<and> quiet w'"
proof -
  from assms(1) obtain dep where inv: "worker_inv dep (\<lambda>_. None) {} {} w" by (auto simp: quiet_def)
  show ?thesis
  proof (cases act)
    case (Wk_task h src)
    with attach_task_inv [OF inv, of h src] assms(2) show ?thesis by (auto simp: worker_meant_def quiet_def)
  next
    case (Wk_awake a i)
    with assms(2) obtain e where "exec_of a i w = Some e" by (auto simp: worker_meant_def exec_alive_def exec_of_def split: option.splits)
    from awake_at_inv [OF inv this] Wk_awake show ?thesis by (auto simp: quiet_def)
  next
    case (Wk_stop src)
    with inv show ?thesis by (auto simp: quiet_def)
  next
    case (Wk_turn n tb te cops fin)
    obtain p d where sd: "wk_doms w 0 = Some (Dynprio p, d)" by (rule root_dom [OF inv])
    with assms(2) Wk_turn have "n < length (dp_active p)" by (auto simp: worker_meant_def dyn_is_top_def)
    from worker_turn_inv [OF inv sd this, of tb te cops fin] Wk_turn show ?thesis by (auto simp: quiet_def)
  qed
qed

lemma worker_session_quiet: "quiet w \<Longrightarrow> \<exists>w'. worker_session acts w = Some (Inr w') \<and> quiet w'"
proof (induction acts arbitrary: w)
  case (Cons act acts)
  show ?case
  proof (cases "worker_meant act w")
    case True
    with worker_do_quiet [OF Cons.prems] obtain w1 where "worker_do act w = Some (Inr w1)" "quiet w1" by blast
    with Cons.IH [of w1] True show ?thesis by simp
  next
    case False
    with Cons show ?thesis by simp
  qed
qed simp

section \<open>Properties\<close>

text \<open>What a scheduler and a domain say of the same execution, between turns.\<close>

definition states_agree :: "worker_state \<Rightarrow> bool" where
  "states_agree w \<longleftrightarrow>
     (\<forall>a s d i e. wk_doms w a = Some (s, d) \<longrightarrow> executions d i = Some e \<longrightarrow>
        exec_state e = (if sched_active s i then Exec_active else Exec_suspended) \<and>
        handle_stack e \<noteq> [] \<and> hd (handle_stack e) = i)"

lemma quiet_agree: "quiet w \<Longrightarrow> states_agree w"
  unfolding states_agree_def
proof (intro allI impI)
  fix a s d i e assume q: "quiet w" and sd: "wk_doms w a = Some (s, d)" and e: "executions d i = Some e"
  from q obtain dep where inv: "worker_inv dep (\<lambda>_. None) {} {} w" by (auto simp: quiet_def)
  have "states_ok None s d" using worker_invD(1) [OF inv sd] by (simp add: sd_ok_def)
  from states_okD [OF this e] have "exec_state e = (if sched_active s i then Exec_active else Exec_suspended)" by simp
  moreover have "if handle_stack e = [] then (a, i) \<in> {} else hd (handle_stack e) = i"
    using worker_invD(4) [OF inv] e exec_of_dom [OF sd, of i] unfolding stacks_ok_def by metis
  ultimately show "exec_state e = (if sched_active s i then Exec_active else Exec_suspended) \<and>
      handle_stack e \<noteq> [] \<and> hd (handle_stack e) = i" by (auto split: if_splits)
qed


lemma active_reaches_root:
  assumes "worker_inv dep (\<lambda>_. None) {} {} w" "dom_active w a i"
  shows "\<exists>k. dom_active w 0 k"
  using assms(2)
proof (induction "dep a" arbitrary: a i rule: less_induct)
  case less
  show ?case
  proof (cases "a = 0")
    case True
    with less.prems show ?thesis by blast
  next
    case False
    from less.prems obtain s d where sd: "wk_doms w a = Some (s, d)" "sched_active s i"
      by (auto simp: dom_active_def split: option.splits)
    then have b: "busy (\<lambda>_. None) w a" by (auto simp: busy_def busy_sched_def)
    have "executions d i \<noteq> None" using sched_active_alive [OF worker_invD(1) [OF assms(1) sd(1)] sd(2)] .
    then obtain pa sa da e where pa: "parent_domain d = Some pa" "wk_doms w pa = Some (sa, da)" "dep a = dep pa + 1"
      by (rule owner_exec [OF worker_invD(3) [OF assms(1)] False sd(1)])
    have "stays (\<lambda>_. None) w pa (parent_execution d)"
      using worker_invD(5) [OF assms(1) False] b shape_Some [OF sd(1)] pa(1) by (simp add: linked_def)
    then have "dom_active w pa (parent_execution d)" by (auto simp: stays_def stay_def dom_active_def split: option.splits)
    with less.hyps [of pa "parent_execution d"] pa(3) show ?thesis by simp
  qed
qed

section \<open>Concrete worlds\<close>

text \<open>An execution that was just attached, in terms of the sources it listens to.\<close>

definition fresh_exec :: "handle \<Rightarrow> nat list \<Rightarrow> execution" where
  "fresh_exec i srcs = (execution_new i)\<lparr>cancel_src_stack := srcs @ replicate (nest_max_depth + 1 - length srcs) 0,
     cancel_src_stack_size := length srcs\<rparr>"

lemma fresh_exec_simps [simp]:
  "exec_state (fresh_exec i srcs) = Exec_active" "handle_stack (fresh_exec i srcs) = [i]"
  "subdomain (fresh_exec i srcs) = None" "cancel_src_stack_size (fresh_exec i srcs) = length srcs"
  "cancel_callback_stack (fresh_exec i srcs) = []"
  "cancel_src_stack (fresh_exec i srcs) = srcs @ replicate (nest_max_depth + 1 - length srcs) 0"
  by (simp_all add: fresh_exec_def execution_new_def)

lemma domain_attach_fresh:
  assumes "executions d h = None" "length parents < nest_max_depth"
  shows "domain_attach h parents src d = Inr (d\<lparr>executions := (executions d)(h \<mapsto> fresh_exec h (parents @ [src])),
    corohandle_exec_map := insert_new h h (corohandle_exec_map d), execution_list := insert h (execution_list d)\<rparr>)"
proof -
  have "(parents @ drop (length parents) (replicate (nest_max_depth + 1) (0::nat)))[length parents := src, length parents + 1 := 0] =
      parents @ [src] @ replicate (nest_max_depth - length parents) 0"
    using assms(2) by (intro nth_equalityI) (auto simp: nth_append nth_list_update nth_Cons split: nat.splits)
  then have "attach_sources parents src (cancel_src_stack (execution_new h)) =
      Inr (parents @ [src] @ replicate (nest_max_depth - length parents) 0)"
    using assms(2) by (simp add: attach_sources_def execution_new_def del: replicate.simps)
  then show ?thesis using assms
    by (simp add: domain_attach_def execution_move_def insert_new_def [of h "fresh_exec h (parents @ [src])"]
      insert_new_def [of h "_ :: execution"] fresh_exec_def execution_new_def)
qed



lemmas worker_eval = worker_new_def worker_meant_def exec_alive_def attach_task_def on_dom_def get_dom_def set_dom_def
  sched_attach_def dyn_attach_def dyn_new_def domain_attach_fresh domain_new_def nest_max_depth_def
  worker_turn_def dyn_is_top_def descend.simps sched_schedule_def dyn_schedule_def schedule_execution_def domain_set_state_def Let_def
  worker_execute_def sched_begin_def dyn_begin_def worker_cleanup_def on_exec_def cancel_cleanup_def
  co_meant_def no_subdomain_def exec_of_def is_running_def can_nest_def nest_def proxy_new_def proxy_attach_def parent_sources_def
  cyc_new_attached cyc_attach_next co_finish_def sched_end_def dyn_end_def dyn_end_test_def dyn_end_apply_def
  suspend_execution_def activate_execution_def dom_active_def



text \<open>The world after a task has made a domain at 9 for the coroutines 2 and 3.\<close>

definition nested_world :: worker_state where
  "nested_world = \<lparr>wk_doms =
     [9 \<mapsto> (Cycle (cyc_attached [2, 3] (Suc (Suc 0))),
            \<lparr>parent_domain = Some 0, parent_execution = 1, execution_list = {3, 2},
             executions = [2 \<mapsto> fresh_exec 2 [5, 6], 3 \<mapsto> fresh_exec 3 [5, 6]],
             corohandle_exec_map = insert_new 3 3 (insert_new 2 2 Map.empty)\<rparr>),
      0 \<mapsto> (Dynprio \<lparr>dp_current = (1, 0), dp_current_suspend = False, dp_active = [(1, 10)], dp_suspended = {},
               dp_preawake = {}, dp_ctx = [1 \<mapsto> 0]\<rparr>,
            \<lparr>parent_domain = None, parent_execution = 0, execution_list = {1},
             executions = [1 \<mapsto> (fresh_exec 1 [5])\<lparr>subdomain := Some 9, exec_state := Exec_active\<rparr>],
             corohandle_exec_map = [1 \<mapsto> 1]\<rparr>)],
     wk_metas = {1}, wk_stopped = {}, wk_events = []\<rparr>"

lemma nested_world: "worker_session [Wk_task 1 5, Wk_turn 0 0 10 [Co_nest 9 6 [2, 3]] End_suspend] worker_new = Some (Inr nested_world)"
  by (simp add: worker_eval insert_new_def [of 1] insert_new_def [of "Suc 0"] nested_world_def)


lemmas cyc_eval = sched_view cyc_find_def cyc_attached_def cyc_entry_new_def sched_has_active_def cyc_has_active_def sched_suspend_def
  domain_is_empty_def cyc_suspend_def cyc_end_def proxy_cancel_def retire_execution_def drop_subdomain_def sched_detach_def cyc_detach_def dyn_suspend_def domain_detach_def running_execution_def invoke_callbacks_def destroy_frames.simps update_running_def pop_handle_def cyc_update_def cyc_schedule.simps cyc_eligible_def

lemma session_append:
  "worker_session as w = Some (Inr w1) \<Longrightarrow> worker_session (as @ bs) w = worker_session bs w1"
  by (induction as arbitrary: w) (auto split: if_splits option.splits sum.splits)



text \<open>
  Cancelling the branches of a domain does not reach a branch that is suspended: the domain says it is active,
  its scheduler goes on leaving it out, so the owner is suspended as well once the other branches are gone
  and stays so until somebody else awakes the branch (here 3 has been cancelled, 2 has not, and the
  worker has nothing to run).
\<close>

theorem proxy_cancel_strands_suspended:
  "\<exists>w1 w2 w3 e. worker_session [Wk_task 1 5, Wk_turn 0 0 10 [Co_nest 9 6 [2, 3]] End_suspend,
       Wk_turn 0 10 20 [Co_suspend] End_suspend] worker_new = Some (Inr w1) \<and>
     proxy_cancel 9 6 [2, 3] w1 = Inr w2 \<and>
     worker_session [Wk_turn 0 20 30 [] End_suspend, Wk_turn 0 30 40 [] End_suspend] w2 = Some (Inr w3) \<and>
     exec_of 9 3 w3 = None \<and> exec_of 9 2 w3 = Some e \<and> exec_state e = Exec_active \<and> \<not> dom_active w3 9 2 \<and>
     6 \<in> wk_stopped w3 \<and> \<not> dom_active w3 0 1 \<and> wk_metas w3 = {1}"
proof -
  have split: "worker_session [Wk_task 1 5, Wk_turn 0 0 10 [Co_nest 9 6 [2, 3]] End_suspend, Wk_turn 0 10 20 [Co_suspend] End_suspend]
      worker_new = worker_session [Wk_turn 0 10 20 [Co_suspend] End_suspend] nested_world"
    using nested_world session_append [of "[Wk_task 1 5, Wk_turn 0 0 10 [Co_nest 9 6 [2, 3]] End_suspend]"] by simp
  have "\<exists>w1 w2 w3 e. worker_session [Wk_turn 0 10 20 [Co_suspend] End_suspend] nested_world = Some (Inr w1) \<and>
     proxy_cancel 9 6 [2, 3] w1 = Inr w2 \<and>
     worker_session [Wk_turn 0 20 30 [] End_suspend, Wk_turn 0 30 40 [] End_suspend] w2 = Some (Inr w3) \<and>
     exec_of 9 3 w3 = None \<and> exec_of 9 2 w3 = Some e \<and> exec_state e = Exec_active \<and> \<not> dom_active w3 9 2 \<and>
     6 \<in> wk_stopped w3 \<and> \<not> dom_active w3 0 1 \<and> wk_metas w3 = {1}"
    by (simp add: nested_world_def worker_eval cyc_eval)
  then show ?thesis unfolding split .
qed

end
