(* ===== verification/Worker_Cancel.thy ===== *)
theory Worker_Cancel
  imports Worker_Turn
begin

text \<open>
  Cancellation through a whole turn of the worker: the executor's clean-up (\<open>Execution\<close>) with the schedulers, the nested
  domains and the retirement of the execution around it (\<open>Worker\<close>).
\<close>

section \<open>What a turn leaves alone\<close>

definition exec_frames :: "execution \<Rightarrow> handle list \<times> nat list \<times> nat list" where
  "exec_frames e = (handle_stack e, cancel_callback_stack e, take (cancel_src_stack_size e) (cancel_src_stack e))"

definition same_outside :: "worker_state \<Rightarrow> worker_state \<Rightarrow> bool" where
  "same_outside w w' \<longleftrightarrow> wk_stopped w' = wk_stopped w \<and> wk_events w' = wk_events w"

lemma same_outside_refl [simp]: "same_outside w w" "same_outside w (set_dom a sd w)"
  by (simp_all add: same_outside_def set_dom_def)

lemma same_outside_trans: "same_outside u v \<Longrightarrow> same_outside v w \<Longrightarrow> same_outside u w"
  by (simp add: same_outside_def)

lemma on_dom_outside: "on_dom a f w = Inr w' \<Longrightarrow> same_outside w w'"
  by (auto simp: on_dom_def obind_def split: sum.splits)

lemma begin_all_outside:
  "begin_all tsc ls w = Inr w' \<Longrightarrow> same_outside w w' \<and> (\<forall>a k. exec_of a k w' = exec_of a k w)"
proof (induction ls arbitrary: w)
  case Nil
  then show ?case by simp
next
  case (Cons l ls)
  let ?f = "\<lambda>(s, d). Inr (sched_begin tsc (lv_ctx l) s, d)"
  obtain w1 where w1: "on_dom (lv_dom l) ?f w = Inr w1" "begin_all tsc ls w1 = Inr w'"
    using Cons.prems by (auto simp: obind_def split: sum.splits)
  have "\<forall>a k. exec_of a k w1 = exec_of a k w"
    using w1(1) by (auto simp: on_dom_def get_dom_def obind_def exec_of_def split: sum.splits option.splits prod.splits if_splits)
  with Cons.IH [OF w1(2)] on_dom_outside [OF w1(1)] show ?case by (simp add: same_outside_def)
qed

lemma end_all_outside: "end_all tsc completed ls w = Inr w' \<Longrightarrow> same_outside w w'"
proof (induction ls arbitrary: w completed)
  case (Cons l ls)
  then obtain w1 where "on_dom (lv_dom l) (sched_end tsc (lv_ctx l) completed) w = Inr w1" "end_all tsc False ls w1 = Inr w'"
    by (auto simp: obind_def split: sum.splits)
  with Cons.IH on_dom_outside show ?case by (blast intro: same_outside_trans)
qed simp

lemma retire_outside:
  assumes "retire_execution a i w = Inr w'"
  shows "same_outside w w' \<and> exec_of a i w' = None"
proof -
  let ?w = "(drop_subdomain a i w)\<lparr>wk_metas := wk_metas w - {i}\<rparr>"
  obtain w1 where w1: "on_dom a (\<lambda>(s, d). obind (sched_detach i s) (\<lambda>s. Inr (s, d))) ?w = Inr w1"
    "on_dom a (\<lambda>(s, d). Inr (s, domain_detach i d)) w1 = Inr w'"
    using assms by (auto simp: retire_execution_def obind_def split: sum.splits)
  have "same_outside w ?w"
    by (simp add: same_outside_def drop_subdomain_def split: option.split)
  moreover have "exec_of a i w' = None"
    using w1(2) by (auto simp: on_dom_def get_dom_def obind_def exec_of_def domain_detach_def split: sum.splits option.splits prod.splits)
  ultimately show ?thesis
    using on_dom_outside [OF w1(1)] on_dom_outside [OF w1(2)] by (simp add: same_outside_def)
qed

lemma schedule_frames:
  assumes "wk_doms w a = Some (s, d)" "schedule_execution i d = Inr d'"
  shows "map_option exec_frames (exec_of b k (set_dom a (s', d') w)) = map_option exec_frames (exec_of b k w)"
  using assms by (auto simp: exec_of_set_dom schedule_execution_def domain_set_state_def exec_frames_def exec_of_def split: option.splits)

definition frames_kept :: "worker_state \<Rightarrow> worker_state \<Rightarrow> bool" where
  "frames_kept w w' \<longleftrightarrow>
     same_outside w w' \<and> (\<forall>b k. map_option exec_frames (exec_of b k w') = map_option exec_frames (exec_of b k w))"

lemma frames_kept_trans: "frames_kept u v \<Longrightarrow> frames_kept v w \<Longrightarrow> frames_kept u w"
  by (auto simp: frames_kept_def intro: same_outside_trans)

lemma descend_frames:
  assumes "descend n a lvs w = Some y" "y = Inr (Reached, lvs', w')"
  shows "frames_kept w w'"
  using assms
proof (induction n a lvs w y arbitrary: lvs' w' rule: descend.raw_induct [rotated, consumes 1])
  case (1 rec n a lvs w y)
  obtain s d where sd: "wk_doms w a = Some (s, d)"
    using 1(2,3) by (auto split: option.splits)
  obtain i ctx s1 where sch: "sched_schedule n s = Some (Inr (i, ctx, s1))"
    using 1(2,3) sd by (auto split: option.splits sum.splits)
  obtain d1 where d1: "schedule_execution i d = Inr d1"
    using 1(2,3) sd sch by (auto split: option.splits sum.splits)
  let ?w = "set_dom a (s1, d1) w" and ?lvs = "lvs @ [\<lparr>lv_dom = a, lv_ctx = ctx, lv_exec = i\<rparr>]"
  have kept: "frames_kept w ?w"
    using schedule_frames [OF sd d1] by (simp add: frames_kept_def)
  have "w' = ?w \<or> (\<exists>x. rec n x ?lvs ?w = Some y)"
    using 1(2,3) sd sch d1
    by (auto simp: Let_def obind_def split: option.splits if_splits sum.splits prod.splits)
  then show ?case
  proof
    assume "w' = ?w"
    with kept show ?thesis by simp
  next
    assume "\<exists>x. rec n x ?lvs ?w = Some y"
    then obtain x where "rec n x ?lvs ?w = Some y" ..
    from 1(1) [OF this 1(3)] kept show ?thesis by (blast intro: frames_kept_trans)
  qed
qed

section \<open>A cancelled execution\<close>

text \<open>The clean-up in the world of the worker.\<close>

lemma cancel_cleanup_stopped: "cancel_cleanup w = Inr (r, w') \<Longrightarrow> stopped w' = stopped w"
proof -
  have destroy: "destroy_frames n u = Inr u' \<Longrightarrow> stopped u' = stopped u" for n u u'
    by (induction n arbitrary: u) (force simp: pop_handle_def running_update Let_def split: sum.splits option.splits if_splits)+
  have "stopped (invoke_callbacks w) = stopped w"
    by (simp add: invoke_callbacks_def running_update split: option.split)
  then show "cancel_cleanup w = Inr (r, w') \<Longrightarrow> stopped w' = stopped w"
    using destroy by (auto simp: cancel_cleanup_def Let_def split: if_splits sum.splits)
qed

lemma worker_cleanup_cancelled:
  assumes e: "exec_of a i w = Some e" and src: "src \<in> set toks" "src \<in> wk_stopped w"
  shows "\<exists>w'. worker_cleanup a i toks w = Inr (True, w') \<and> wk_stopped w' = wk_stopped w \<and>
    wk_events w' = wk_events w @ map Run_callback (rev (cancel_callback_stack e)) @ map Destroy_frame (rev (handle_stack e))"
proof -
  obtain s d where sd: "wk_doms w a = Some (s, d)" "executions d i = Some e"
    using e by (auto simp: exec_of_def split: option.splits)
  let ?ew = "\<lparr>w_domain = d, current = Some i, tokens = toks, stopped = wk_stopped w, events = wk_events w\<rparr>"
  have run: "running_execution ?ew = Some e" using sd(2) by (simp add: running_execution_def)
  from cancel_cleanup_all [OF run, of src] src obtain ew where ew: "cancel_cleanup ?ew = Inr (True, ew)"
    "events ew = wk_events w @ map Run_callback (rev (cancel_callback_stack e)) @ map Destroy_frame (rev (handle_stack e))"
    by auto
  have "stopped ew = wk_stopped w"
    using cancel_cleanup_stopped [OF ew(1)] by simp
  with ew sd(1) show ?thesis
    by (simp add: worker_cleanup_def on_exec_def get_dom_def)
qed

text \<open>
  C4: A cancelled task does not go on. If the turn of a worker comes down to an execution, in whatever nested domain, one of whose
  sources (its own or that of an execution around it) has been asked to stop, then the turn ends without running the coroutine: the
  callbacks run from the last to the first, the frames are destroyed from the innermost call outwards, and the execution is gone
  from its domain, after any session of the worker and whatever the coroutine would have done.
\<close>

theorem worker_cancels_execution:
  assumes "worker_session acts worker_new = Some (Inr w)" "worker_meant (Wk_turn n tb te cops fin) w"
    and "descend n 0 [] w = Some (Inr (Reached, lvs, w1))" "exec_of (lv_dom (last lvs)) (lv_exec (last lvs)) w = Some e"
    and "src \<in> set (take (cancel_src_stack_size e) (cancel_src_stack e))" "src \<in> wk_stopped w"
  shows "\<exists>w'. worker_turn n tb te cops fin w = Some (Inr w') \<and> exec_of (lv_dom (last lvs)) (lv_exec (last lvs)) w' = None \<and>
    wk_stopped w' = wk_stopped w \<and>
    wk_events w' = wk_events w @ map Run_callback (rev (cancel_callback_stack e)) @ map Destroy_frame (rev (handle_stack e))"
proof -
  let ?a = "lv_dom (last lvs)" and ?i = "lv_exec (last lvs)"
  from worker_session_quiet [OF worker_new_quiet, of acts] assms(1) have q: "quiet w" by simp
  from worker_do_quiet [OF q assms(2)] obtain w' where turn: "worker_turn n tb te cops fin w = Some (Inr w')" "quiet w'" by auto
  have kept: "frames_kept w w1" by (rule descend_frames [OF assms(3) refl])
  then have "map_option exec_frames (exec_of ?a ?i w1) = Some (exec_frames e)" using assms(4) by (simp add: frames_kept_def)
  then obtain e1 where e1: "exec_of ?a ?i w1 = Some e1" "exec_frames e1 = exec_frames e" by auto
  then have frames: "handle_stack e1 = handle_stack e" "cancel_callback_stack e1 = cancel_callback_stack e"
    "take (cancel_src_stack_size e1) (cancel_src_stack e1) = take (cancel_src_stack_size e) (cancel_src_stack e)"
    by (simp_all add: exec_frames_def)
  have ne: "handle_stack e \<noteq> []"
    using q worker_invD(4) assms(4) unfolding quiet_def stacks_ok_def by (metis empty_iff)
  let ?toks = "take (cancel_src_stack_size e1) (cancel_src_stack e1)"
  obtain b w2 where w2: "worker_execute tb te cops fin lvs w1 = Some (Inr (b, w2))"
    using turn(1) assms(3) by (auto simp: worker_turn_def split: option.splits sum.splits)
  then obtain w3 where w3: "begin_all tb lvs w1 = Inr w3"
    using e1(1) ne frames(1) by (auto simp: worker_execute_def Let_def obind_def split: sum.splits)
  note B = begin_all_outside [OF w3]
  have e3: "exec_of ?a ?i w3 = Some e1" using B e1(1) by simp
  have "src \<in> set ?toks" "src \<in> wk_stopped w3"
    using assms(5,6) frames(3) B kept by (simp_all add: frames_kept_def same_outside_def)
  from worker_cleanup_cancelled [OF e3 this] obtain w4 where w4: "worker_cleanup ?a ?i ?toks w3 = Inr (True, w4)"
    "wk_stopped w4 = wk_stopped w3"
    "wk_events w4 = wk_events w3 @ map Run_callback (rev (cancel_callback_stack e1)) @ map Destroy_frame (rev (handle_stack e1))"
    by blast
  have ex: "worker_execute tb te cops fin lvs w1 = Some (obind (end_all te True (rev lvs) w4) (\<lambda>w. Inr (False, w)))"
    using e1(1) ne frames(1) w3 w4(1) by (simp add: worker_execute_def Let_def)
  with w2 obtain w5 where w5: "end_all te True (rev lvs) w4 = Inr w5" "b = False" "w2 = w5"
    by (auto simp: obind_def split: sum.splits)
  have "retire_execution ?a ?i w5 = Inr w'"
    using turn(1) assms(3) w2 w5 by (simp add: worker_turn_def)
  note R = retire_outside [OF this] and E = end_all_outside [OF w5(1)]
  show ?thesis
    using turn(1) R E B w4 kept frames by (intro exI [of _ w']) (simp add: same_outside_def frames_kept_def)
qed

text \<open>Task 1 has a domain of two executions whose source 6 is asked to stop; the next turn destroys execution 2.\<close>

theorem worker_cancels_execution_witness:
  "\<exists>w w' a i e. worker_session [Wk_task 1 5, Wk_turn 0 0 10 [Co_nest 9 6 [2, 3]] End_suspend, Wk_stop 6] worker_new = Some (Inr w) \<and>
     worker_turn 0 10 20 [Co_awake 9 3] End_return w = Some (Inr w') \<and> (a, i) = (9, 2) \<and> exec_of a i w = Some e \<and>
     exec_of a i w' = None \<and> wk_events w' = [Destroy_frame 2]"
proof -
  let ?acts = "[Wk_task 1 5, Wk_turn 0 0 10 [Co_nest 9 6 [2, 3]] End_suspend, Wk_stop 6]"
  let ?w = "nested_world\<lparr>wk_stopped := {6}\<rparr>"
  have w: "worker_session ?acts worker_new = Some (Inr ?w)"
    using session_append [OF nested_world, of "[Wk_stop 6]"] by (simp add: worker_meant_def nested_world_def)
  have meant: "worker_meant (Wk_turn 0 10 20 [Co_awake 9 3] End_return) ?w"
    by (simp add: nested_world_def worker_eval)
  have "\<exists>lvs w1. descend 0 0 [] ?w = Some (Inr (Reached, lvs, w1)) \<and> lv_dom (last lvs) = 9 \<and> lv_exec (last lvs) = 2"
    by (simp add: nested_world_def worker_eval cyc_eval)
  then obtain lvs w1 where d: "descend 0 0 [] ?w = Some (Inr (Reached, lvs, w1))" "lv_dom (last lvs) = 9" "lv_exec (last lvs) = 2"
    by (elim exE conjE) (rule that)
  have e: "exec_of 9 2 ?w = Some (fresh_exec 2 [5, 6])" by (simp add: nested_world_def exec_of_def)
  from worker_cancels_execution [OF w meant d(1), unfolded d(2,3), OF e, of 6] obtain w' where
    "worker_turn 0 10 20 [Co_awake 9 3] End_return ?w = Some (Inr w')" "exec_of 9 2 w' = None"
    "wk_events w' = [Destroy_frame 2]"
    by (auto simp: nested_world_def)
  with w e show ?thesis by blast
qed

end
