(* ===== verification/Test_Runner.thy ===== *)
theory Test_Runner
  imports Asco_Prelude "HOL-Library.Multiset"
begin

text \<open>
  \<open>asco/test\<close>: the registry of tests, the \<open>main\<close> function that runs them in a \<open>join_set\<close> and sums their results up, and
  the context of benchmarks. Formatting of messages and colours is left out; what the functions under test do is what
  they return.
\<close>

section \<open>Names of files\<close>

text \<open>\<open>std::string_view\<close>: \<open>rfind\<close> and \<open>find\<close> of one character, \<open>substr(p)\<close> and \<open>substr(0, p)\<close>.\<close>

fun sv_find :: "char \<Rightarrow> string \<Rightarrow> nat option" where
  "sv_find c [] = None"
| "sv_find c (x # xs) = (if x = c then Some 0 else map_option Suc (sv_find c xs))"

fun sv_rfind :: "char \<Rightarrow> string \<Rightarrow> nat option" where
  "sv_rfind c [] = None"
| "sv_rfind c (x # xs) = (case sv_rfind c xs of Some p \<Rightarrow> Some (Suc p) | None \<Rightarrow> if x = c then Some 0 else None)"

text \<open>The part of \<open>add_test\<close> that names the namespace of a test by its file: without directories and from the first dot on.\<close>

definition namespace_name :: "string \<Rightarrow> string" where
  "namespace_name filename =
     (let l1 = (case sv_rfind CHR ''/'' filename of None \<Rightarrow> filename | Some p \<Rightarrow> drop (p + 1) filename);
          l2 = (case sv_rfind CHR 0x5C l1 of None \<Rightarrow> l1 | Some p \<Rightarrow> drop (p + 1) l1)
      in case sv_find CHR ''.'' l2 of None \<Rightarrow> l2 | Some p \<Rightarrow> take p l2)"

lemma sv_find_None: "sv_find c s = None \<longleftrightarrow> c \<notin> set s"
  by (induction s) auto

lemma sv_rfind_None: "sv_rfind c s = None \<longleftrightarrow> c \<notin> set s"
  by (induction s) (auto split: option.splits)

lemma sv_rfind_append: "c \<notin> set t \<Longrightarrow> sv_rfind c (s @ c # t) = Some (length s)"
  by (induction s) (simp_all add: sv_rfind_None split: option.splits)

lemma sv_find_append: "c \<notin> set s \<Longrightarrow> sv_find c (s @ c # t) = Some (length s)"
  by (induction s) auto

lemma sv_rfind_tail:
  "c \<notin> set t \<Longrightarrow> \<exists>d'. (case sv_rfind c (d @ t) of None \<Rightarrow> d @ t | Some p \<Rightarrow> drop (p + 1) (d @ t)) = d' @ t"
proof (induction d)
  case Nil
  then show ?case by (simp add: sv_rfind_None [THEN iffD2])
next
  case (Cons x d)
  then obtain d' where d': "(case sv_rfind c (d @ t) of None \<Rightarrow> d @ t | Some p \<Rightarrow> drop (p + 1) (d @ t)) = d' @ t" by blast
  then show ?case
    by (cases "sv_rfind c (d @ t)"; cases "x = c") (auto intro: exI [of _ "[]"] exI [of _ "x # d"])
qed

text \<open>On both platforms, what is left of a path is the name of the file up to its first dot.\<close>

theorem namespace_name_of_path:
  assumes "set n \<inter> {CHR ''/'', CHR 0x5C, CHR ''.''} = {}" "set e \<inter> {CHR ''/'', CHR 0x5C} = {}" "sep = CHR ''/'' \<or> sep = CHR 0x5C"
  shows "namespace_name (d @ sep # n @ CHR ''.'' # e) = n"
proof -
  let ?f = "n @ CHR ''.'' # e" and ?s = "CHR ''/''" and ?b = "CHR 0x5C"
  have dot: "sv_find CHR ''.'' ?f = Some (length n)" using assms(1) by (intro sv_find_append) auto
  have f: "?s \<notin> set ?f" "?b \<notin> set ?f" using assms(1,2) by auto
  show ?thesis
  proof (cases "sep = ?s")
    case True
    have r: "sv_rfind ?s (d @ sep # ?f) = Some (length d)" using f(1) True by (simp add: sv_rfind_append)
    have b: "sv_rfind ?b ?f = None" using f(2) by (simp add: sv_rfind_None)
    show ?thesis unfolding namespace_name_def Let_def r option.case using b dot by simp
  next
    case False
    then have sep: "sep = ?b" using assms(3) by simp
    obtain d' where l1: "(case sv_rfind ?s (d @ sep # ?f) of None \<Rightarrow> d @ sep # ?f | Some p \<Rightarrow> drop (p + 1) (d @ sep # ?f)) = d' @ sep # ?f"
      using sv_rfind_tail [of ?s "sep # ?f" d] f(1) sep by auto
    have b: "sv_rfind ?b (d' @ sep # ?f) = Some (length d')" using f(2) sep by (simp add: sv_rfind_append)
    show ?thesis unfolding namespace_name_def Let_def l1 b option.case using dot by simp
  qed
qed

section \<open>Tests\<close>

text \<open>\<open>test_result\<close> is \<open>expected<monostate, string>\<close>; what a test does besides is throw a panic or something else.\<close>

datatype test_end = Returned "string + unit" | Panicked string | Threw

record test_info =
  ti_namespace :: string
  ti_name :: string
  ti_ignore :: bool

record test_result_wrap =
  tr_namespace :: string
  tr_name :: string
  tr_result :: "string + unit"

definition add_test :: "string \<Rightarrow> string \<Rightarrow> bool \<Rightarrow> test_info list \<Rightarrow> test_info list" where
  "add_test filename name ignore tests = tests @ [\<lparr>ti_namespace = namespace_name filename, ti_name = name, ti_ignore = ignore\<rparr>]"

definition ignored_mark :: string where "ignored_mark = ''###ASCO_IGNORED###''"

text \<open>The exception message is the UTF-8 text of the source.\<close>

definition exception_message :: string where
  "exception_message = map char_of [0xE5, 0x8F, 0x91, 0xE7, 0x94, 0x9F, 0xE5, 0xBC, 0x82, 0xE5, 0xB8, 0xB8 :: nat]"

text \<open>
  What the task of a test puts into the \<open>join_set\<close>. An ignored test is run nevertheless, outside of the \<open>try\<close>: \<open>None\<close> is an
  exception that ends the task without a result.
\<close>

definition test_task :: "test_info \<Rightarrow> test_end \<Rightarrow> test_result_wrap option" where
  "test_task t e =
     (let wrap = (\<lambda>r. \<lparr>tr_namespace = ti_namespace t, tr_name = ti_name t, tr_result = r\<rparr>) in
      if ti_ignore t
      then (case e of Returned r \<Rightarrow> Some (wrap (Inl ignored_mark)) | _ \<Rightarrow> None)
      else (case e of
              Returned r \<Rightarrow> Some (wrap r)
            | Panicked m \<Rightarrow> Some (wrap (Inl (''panic: '' @ m)))
            | Threw \<Rightarrow> Some (wrap (Inl exception_message))))"

section \<open>The sum of the results\<close>

datatype test_state = Passed | Failed | Ignored

type_synonym test_record = "test_state \<times> string"

text \<open>The locals of the loop; \<open>ts_stats\<close> is the \<open>unordered_map\<close>, filled for a terminal only.\<close>

record test_stats =
  ts_passed :: u64
  ts_ignored :: u64
  ts_stats :: "string \<Rightarrow> test_record list"

definition result_state :: "test_result_wrap \<Rightarrow> test_state" where
  "result_state r =
     (case tr_result r of Inr u \<Rightarrow> Passed | Inl m \<Rightarrow> if m = ignored_mark then Ignored else Failed)"

definition result_message :: "test_result_wrap \<Rightarrow> string" where
  "result_message r =
     tr_namespace r @ ''::'' @ tr_name r @
     (case tr_result r of Inl m \<Rightarrow> if m = ignored_mark then [] else '': '' @ m | Inr u \<Rightarrow> [])"

definition test_receive :: "bool \<Rightarrow> test_result_wrap \<Rightarrow> test_stats \<Rightarrow> test_stats" where
  "test_receive terminal r s =
     (let s = (case result_state r of
                 Passed \<Rightarrow> s\<lparr>ts_passed := ts_passed s + 1\<rparr>
               | Ignored \<Rightarrow> s\<lparr>ts_ignored := ts_ignored s + 1\<rparr>
               | Failed \<Rightarrow> s)
      in if terminal
         then s\<lparr>ts_stats := (ts_stats s)(tr_namespace r := ts_stats s (tr_namespace r) @ [(result_state r, result_message r)])\<rparr>
         else s)"

definition test_loop :: "bool \<Rightarrow> test_result_wrap list \<Rightarrow> test_stats" where
  "test_loop terminal rs = fold (test_receive terminal) rs \<lparr>ts_passed = 0, ts_ignored = 0, ts_stats = (\<lambda>_. [])\<rparr>"

text \<open>What is printed at the end for a namespace, the number of failures printed, and the result of \<open>main\<close>, an \<open>int\<close>.\<close>

definition failed_messages :: "test_stats \<Rightarrow> string \<Rightarrow> string list" where
  "failed_messages s ns = map snd (filter (\<lambda>(st, m). st = Failed) (ts_stats s ns))"

definition printed_failures :: "nat \<Rightarrow> test_stats \<Rightarrow> u64" where
  "printed_failures n s = of_nat n - ts_passed s - ts_ignored s"

definition main_result :: "nat \<Rightarrow> test_stats \<Rightarrow> int" where
  "main_result n s = sint (ucast (ts_passed s + ts_ignored s - of_nat n) :: 32 word)"

text \<open>The loop counts.\<close>

lemma test_loop_fields:
  "ts_passed (fold (test_receive terminal) rs s) = ts_passed s + of_nat (count_if (\<lambda>r. result_state r = Passed) rs)"
  "ts_ignored (fold (test_receive terminal) rs s) = ts_ignored s + of_nat (count_if (\<lambda>r. result_state r = Ignored) rs)"
  "ts_stats (fold (test_receive terminal) rs s) ns =
     ts_stats s ns @ (if terminal then map (\<lambda>r. (result_state r, result_message r)) (filter (\<lambda>r. tr_namespace r = ns) rs) else [])"
  by (induction rs arbitrary: s) (auto simp: test_receive_def Let_def split: test_state.splits)

lemma count_states:
  "length rs = count_if (\<lambda>r. result_state r = Passed) rs + count_if (\<lambda>r. result_state r = Ignored) rs +
     count_if (\<lambda>r. result_state r = Failed) rs"
proof (induction rs)
  case (Cons r rs)
  then show ?case by (cases "result_state r") simp_all
qed simp

lemma sint_neg_small: "n < 2 ^ 31 \<Longrightarrow> sint (ucast (- of_nat n :: u64) :: 32 word) = - int n"
proof -
  assume n: "n < 2 ^ 31"
  have "ucast (- of_nat n :: u64) = (word_of_int (- int n) :: 32 word)"
    by transfer (simp add: take_bit_take_bit)
  then have "sint (ucast (- of_nat n :: u64) :: 32 word) = signed_take_bit 31 (- int n)"
    by (simp only: signed_of_int) simp
  also have "\<dots> = - int n"
    using n by (intro signed_take_bit_int_eq_self) simp_all
  finally show ?thesis .
qed

text \<open>What a test counts as.\<close>

definition verdict :: "test_info \<Rightarrow> test_end \<Rightarrow> test_state" where
  "verdict t e =
     (if ti_ignore t then Ignored
      else case e of Returned (Inr u) \<Rightarrow> Passed | Returned (Inl m) \<Rightarrow> if m = ignored_mark then Ignored else Failed | _ \<Rightarrow> Failed)"

lemma test_task_state: "test_task t e = Some r \<Longrightarrow> result_state r = verdict t e"
  by (auto simp: test_task_def result_state_def verdict_def ignored_mark_def exception_message_def Let_def
      split: test_end.splits sum.splits if_splits)

lemma count_if_mset: "mset xs = mset ys \<Longrightarrow> count_if P xs = count_if P ys"
  by (metis mset_filter size_mset)

lemma main_result_failed:
  assumes "length rs < 2 ^ 31"
  shows "main_result (length rs) (test_loop terminal rs) = - int (count_if (\<lambda>r. result_state r = Failed) rs)"
    and "printed_failures (length rs) (test_loop terminal rs) = of_nat (count_if (\<lambda>r. result_state r = Failed) rs)"
proof -
  let ?n = "\<lambda>st. count_if (\<lambda>r. result_state r = st) rs"
  have len: "(of_nat (length rs) :: u64) = of_nat (?n Passed) + of_nat (?n Ignored) + of_nat (?n Failed)"
    by (subst count_states) simp
  then show "printed_failures (length rs) (test_loop terminal rs) = of_nat (?n Failed)"
    by (simp add: printed_failures_def test_loop_def test_loop_fields)
  have "ts_passed (test_loop terminal rs) + ts_ignored (test_loop terminal rs) - of_nat (length rs) = - of_nat (?n Failed)"
    by (simp add: len test_loop_def test_loop_fields)
  moreover have "?n Failed < 2 ^ 31"
    using count_if_le_length [of "\<lambda>r. result_state r = Failed" rs] assms by linarith
  ultimately show "main_result (length rs) (test_loop terminal rs) = - int (?n Failed)"
    by (simp only: main_result_def sint_neg_small)
qed

definition test_outcomes :: "test_info list \<Rightarrow> test_end list \<Rightarrow> test_result_wrap list" where
  "test_outcomes ts es = List.map_filter (\<lambda>(t, e). test_task t e) (zip ts es)"

lemma test_task_Some: "(ti_ignore t \<longrightarrow> (\<exists>r. e = Returned r)) \<Longrightarrow> \<exists>r. test_task t e = Some r"
  by (cases e) (auto simp: test_task_def Let_def)

lemma test_outcomes_Failed:
  assumes "\<forall>(t, e) \<in> set (zip ts es). ti_ignore t \<longrightarrow> (\<exists>r. e = Returned r)"
  shows "length (test_outcomes ts es) = length (zip ts es) \<and>
    count_if (\<lambda>r. result_state r = Failed) (test_outcomes ts es) = count_if (\<lambda>(t, e). verdict t e = Failed) (zip ts es)"
  using assms
proof (induction "zip ts es" arbitrary: ts es)
  case Nil
  then show ?case by (simp add: test_outcomes_def List.map_filter_simps flip: Nil)
next
  case (Cons p ps)
  then obtain t ts' e es' where eq: "ts = t # ts'" "es = e # es'" "p = (t, e)" "ps = zip ts' es'"
    by (cases ts; cases es) auto
  obtain r where r: "test_task t e = Some r"
    using test_task_Some [of t e] Cons.prems by (auto simp: eq)
  with Cons.hyps(1) [OF eq(4)] Cons.prems test_task_state [OF r] show ?case
    by (simp add: eq test_outcomes_def List.map_filter_simps)
qed



text \<open>
  The result is the exit status of the process, of which a POSIX parent sees eight bits: 256 failures look like success.
\<close>

lemma many_failures_look_like_success:
  "main_result 256 (test_loop terminal (replicate 256 \<lparr>tr_namespace = n, tr_name = m, tr_result = Inl ''x''\<rparr>)) mod 256 = 0"
  using main_result_failed(1) [of "replicate 256 \<lparr>tr_namespace = n, tr_name = m, tr_result = Inl ''x''\<rparr>" terminal]
  by (simp add: result_state_def ignored_mark_def filter_replicate)

section \<open>Benchmarks\<close>

text \<open>
  \<open>bench_context\<close>; durations are nanoseconds of a steady clock and not negative. The numbers of measurements are those of \<open>size_t\<close> for
  which \<open>n * 999\<close> does not overflow.
\<close>

record bench_context =
  bn_warmup :: nat
  bn_measure :: nat
  bn_commits :: nat
  bn_measurements :: "nat list"

definition bench_new :: "nat \<Rightarrow> nat \<Rightarrow> bench_context" where
  "bench_new warmup measured = \<lparr>bn_warmup = warmup, bn_measure = measured, bn_commits = 0, bn_measurements = []\<rparr>"

definition bench_commit :: "nat \<Rightarrow> bench_context \<Rightarrow> bool \<times> bench_context" where
  "bench_commit dur b =
     (let b = (if bn_warmup b \<le> bn_commits b \<and> bn_commits b < bn_warmup b + bn_measure b
               then b\<lparr>bn_measurements := bn_measurements b @ [dur]\<rparr> else b);
          b = b\<lparr>bn_commits := bn_commits b + 1\<rparr>
      in (bn_commits b = bn_warmup b + bn_measure b, b))"

record bench_report =
  br_avg :: nat
  br_max :: nat
  br_p50 :: nat
  br_p90 :: nat
  br_p99 :: nat
  br_p999 :: nat

text \<open>The destructor: nothing to report, or the statistics.\<close>

definition bench_dtor :: "bench_context \<Rightarrow> bench_report option" where
  "bench_dtor b =
     (if bn_measurements b = [] then None
      else
        (let ms = sort (bn_measurements b);
             total = foldl (+) 0 ms;
             mx = foldl (\<lambda>m dur. if m < dur then dur else m) 0 ms;
             n = length ms
         in Some \<lparr>br_avg = total div n, br_max = mx, br_p50 = ms ! (n div 2), br_p90 = ms ! (n * 9 div 10),
                  br_p99 = ms ! (n * 99 div 100), br_p999 = ms ! (n * 999 div 1000)\<rparr>))"

fun bench_commits :: "nat list \<Rightarrow> bench_context \<Rightarrow> bool list \<times> bench_context" where
  "bench_commits [] b = ([], b)"
| "bench_commits (d # ds) b =
     (case bench_commit d b of (r, b) \<Rightarrow> case bench_commits ds b of (rs, b) \<Rightarrow> (r # rs, b))"

lemma bench_commits_append:
  "bench_commits (ds @ [d]) b =
     (case bench_commits ds b of (rs, b) \<Rightarrow> case bench_commit d b of (r, b) \<Rightarrow> (rs @ [r], b))"
  by (induction ds arbitrary: b) (simp_all split: prod.splits)

lemma take_drop_snoc:
  "take m (drop w (ds @ [d])) =
     (if w \<le> length ds \<and> length ds < w + m then take m (drop w ds) @ [d] else take m (drop w ds))"
  by (auto simp: take_Cons' not_le Suc_diff_le)

lemma bench_commits_state:
  "bench_commits ds (bench_new w m) =
     (map (\<lambda>i. Suc i = w + m) [0..<length ds],
      \<lparr>bn_warmup = w, bn_measure = m, bn_commits = length ds, bn_measurements = take m (drop w ds)\<rparr>)"
proof (induction ds rule: rev_induct)
  case Nil
  then show ?case by (simp add: bench_new_def)
next
  case (snoc d ds)
  show ?case
    unfolding bench_commits_append snoc take_drop_snoc by (simp add: bench_commit_def)
qed

lemma foldl_max: "foldl (\<lambda>m d. if m < d then d else m) a xs = Max (insert a (set xs))" for a :: nat
proof (induction xs arbitrary: a)
  case (Cons x xs)
  have "Max (insert (if a < x then x else a) (set xs)) = Max (insert a (insert x (set xs)))"
    by (cases "xs = []") (auto simp: max_def)
  with Cons show ?case by simp
qed simp

lemma foldl_plus: "foldl (+) a xs = a + sum_list xs" for a :: nat
  by (induction xs arbitrary: a) simp_all

lemma above_sorted:
  assumes "sorted xs" "i < length xs"
  shows "length (filter (\<lambda>d. xs ! i < d) xs) \<le> length xs - Suc i"
proof -
  have "filter (\<lambda>d. xs ! i < d) (take (Suc i) xs) = []"
    using assms by (auto simp: filter_empty_conv in_set_conv_nth not_less intro!: sorted_nth_mono)
  then have "filter (\<lambda>d. xs ! i < d) xs = filter (\<lambda>d. xs ! i < d) (drop (Suc i) xs)"
    by (metis append_Nil append_take_drop_id filter_append)
  then show ?thesis using length_filter_le [of "\<lambda>d. xs ! i < d" "drop (Suc i) xs"] by simp
qed

lemma sum_list_le_Max: "xs \<noteq> [] \<Longrightarrow> sum_list xs \<le> length xs * Max (set xs)" for xs :: "nat list"
proof (induction xs)
  case (Cons x xs)
  show ?case
  proof (cases "xs = []")
    case False
    have "sum_list (x # xs) \<le> x + length xs * Max (set xs)" using Cons.IH False by simp
    also have "\<dots> \<le> Max (set (x # xs)) + length xs * Max (set (x # xs))"
      using False by (intro add_mono mult_left_mono) simp_all
    finally show ?thesis by simp
  qed simp
qed simp

definition above :: "nat \<Rightarrow> nat list \<Rightarrow> nat" where
  "above d ms = length (filter (\<lambda>x. d < x) ms)"

text \<open>A percentile of the report is a measurement, and at most the given part of the measurements is above it.\<close>

lemma sorted_percentile:
  assumes "ms \<noteq> []" "i < length ms"
  shows "sort ms ! i \<in> set ms" "above (sort ms ! i) ms \<le> length ms - Suc i" "sort ms ! i \<le> Max (set ms)"
proof -
  show m: "sort ms ! i \<in> set ms" using assms(2) by (metis length_sort nth_mem set_sort)
  have "above (sort ms ! i) ms = length (filter (\<lambda>x. sort ms ! i < x) (sort ms))"
    unfolding above_def by (metis filter_sort length_sort)
  also have "\<dots> \<le> length ms - Suc i" using above_sorted [of "sort ms" i] assms(2) by simp
  finally show "above (sort ms ! i) ms \<le> length ms - Suc i" .
  show "sort ms ! i \<le> Max (set ms)" using m by simp
qed

lemma filter_upt_eq: "k < n \<Longrightarrow> filter (\<lambda>i. i = k) [0..<n] = [k]"
  by (induction n) (auto simp: less_Suc_eq)

text \<open>
  A benchmark that commits at least as often as it announced says so at the last of these commits and only there, measures exactly the
  commits after the warm-up, and reports their mean and their greatest value and percentiles that are measurements with at most the
  named share above them, in order.
\<close>

theorem bench_reports_measurements:
  assumes "0 < m" "w + m \<le> length ds" "bench_commits ds (bench_new w m) = (rs, b)" "ms = take m (drop w ds)"
  shows "filter (\<lambda>i. rs ! i) [0..<length rs] = [w + m - 1] \<and>
    (\<exists>r. bench_dtor b = Some r \<and> br_avg r = sum_list ms div m \<and> br_max r = Max (set ms) \<and> br_avg r \<le> br_max r \<and>
       {br_p50 r, br_p90 r, br_p99 r, br_p999 r} \<subseteq> set ms \<and>
       br_p50 r \<le> br_p90 r \<and> br_p90 r \<le> br_p99 r \<and> br_p99 r \<le> br_p999 r \<and> br_p999 r \<le> br_max r \<and>
       2 * above (br_p50 r) ms \<le> m \<and> 10 * above (br_p90 r) ms \<le> m \<and> 100 * above (br_p99 r) ms \<le> m \<and>
       1000 * above (br_p999 r) ms \<le> m)"
proof
  have rs: "rs = map (\<lambda>i. Suc i = w + m) [0..<length ds]" and b: "bn_measurements b = ms"
    using assms(3,4) by (auto simp: bench_commits_state)
  have "filter (\<lambda>i. rs ! i) [0..<length rs] = filter (\<lambda>i. i = w + m - 1) [0..<length ds]"
    using assms(1) by (intro filter_cong) (auto simp: rs)
  also have "\<dots> = [w + m - 1]"
    using assms(1,2) by (intro filter_upt_eq) simp
  finally show "filter (\<lambda>i. rs ! i) [0..<length rs] = [w + m - 1]" .
  have len: "length ms = m" and ne: "ms \<noteq> []" using assms(1,2,4) by auto
  note pc = sorted_percentile [OF ne, unfolded len]
  have mono: "sort ms ! i \<le> sort ms ! j" if "i \<le> j" "j < m" for i j
    using that len by (intro sorted_nth_mono) simp_all
  have idx: "m div 2 < m" "m * 9 div 10 < m" "m * 99 div 100 < m" "m * 999 div 1000 < m" using assms(1) by simp_all
  have order: "m div 2 \<le> m * 9 div 10" "m * 9 div 10 \<le> m * 99 div 100" "m * 99 div 100 \<le> m * 999 div 1000" by linarith+
  have rank: "2 * above (sort ms ! (m div 2)) ms \<le> m" "10 * above (sort ms ! (m * 9 div 10)) ms \<le> m"
    "100 * above (sort ms ! (m * 99 div 100)) ms \<le> m" "1000 * above (sort ms ! (m * 999 div 1000)) ms \<le> m"
    using pc(2) [OF idx(1)] pc(2) [OF idx(2)] pc(2) [OF idx(3)] pc(2) [OF idx(4)] by linarith+
  let ?r = "\<lparr>br_avg = sum_list ms div m, br_max = Max (set ms), br_p50 = sort ms ! (m div 2), br_p90 = sort ms ! (m * 9 div 10),
    br_p99 = sort ms ! (m * 99 div 100), br_p999 = sort ms ! (m * 999 div 1000)\<rparr>"
  have sum: "sum_list (sort ms) = sum_list ms" by (metis mset_sort sum_mset_sum_list)
  have "bench_dtor b = Some ?r"
    using ne len sum by (simp add: bench_dtor_def b foldl_max foldl_plus Let_def)
  moreover have "sum_list ms div m \<le> Max (set ms)"
    using div_le_mono [OF sum_list_le_Max [OF ne], of m] assms(1) by (simp add: len)
  ultimately show "\<exists>r. bench_dtor b = Some r \<and> br_avg r = sum_list ms div m \<and> br_max r = Max (set ms) \<and> br_avg r \<le> br_max r \<and>
       {br_p50 r, br_p90 r, br_p99 r, br_p999 r} \<subseteq> set ms \<and>
       br_p50 r \<le> br_p90 r \<and> br_p90 r \<le> br_p99 r \<and> br_p99 r \<le> br_p999 r \<and> br_p999 r \<le> br_max r \<and>
       2 * above (br_p50 r) ms \<le> m \<and> 10 * above (br_p90 r) ms \<le> m \<and> 100 * above (br_p99 r) ms \<le> m \<and>
       1000 * above (br_p999 r) ms \<le> m"
    using pc(1,3) [OF idx(1)] pc(1,3) [OF idx(2)] pc(1,3) [OF idx(3)] pc(1,3) [OF idx(4)] mono [OF order(1) idx(2)]
      mono [OF order(2) idx(3)] mono [OF order(3) idx(4)] rank
    by (intro exI [of _ ?r]) simp
qed

theorem bench_reports_measurements_witness:
  "filter (\<lambda>i. fst (bench_commits [9, 5, 1, 3] (bench_new 1 3)) ! i) [0..<4] = [3] \<and>
   (\<exists>r. bench_dtor (snd (bench_commits [9, 5, 1, 3] (bench_new 1 3))) = Some r \<and> br_avg r = 3 \<and> br_max r = 5 \<and> br_p50 r \<in> {5, 1, 3})"
proof -
  obtain rs b where run: "bench_commits [9, 5, 1, 3] (bench_new 1 3) = (rs, b)" by (cases "bench_commits [9, 5, 1, 3] (bench_new 1 3)")
  have "length rs = 4" using run by (auto simp: bench_commits_state)
  moreover have "[5, 1, 3] = take 3 (drop 1 [9, 5, 1, 3 :: nat])" by simp
  note bench_reports_measurements [OF _ _ run this]
  ultimately show ?thesis unfolding run by auto
qed

end
