(* ===== verification/Spec2Isabelle.thy ===== *)
theory Spec2Isabelle
  imports Asco_Prelude Murmur Flags Future Combinators Spinlock Spinrwlock Hash_Map Hash_Map_Spec Hash_Map_Conc Ring_Queue Ring_Queue_Spec
    Buffer Execution Scheduler Condvar Semaphore Mutex Rwlock Channel Join_Set Runtime Daemon Coroutine_Pool Join_Handle Timer
    Io_Adapter Io_Linux Iocp Win_State Process File Storage Task_Env Worker Worker_Sched Worker_Spec Worker_Turn Worker_Cancel Test_Runner
begin

text \<open>
  Verification of \<open>asco\<close>, an asynchronous runtime for C++23 coroutines (\<open>src/asco\<close>).

  \<^bold>\<open>The program.\<close> A \<open>runtime\<close> owns worker threads. Tasks are spawned into a ring queue; a worker (\<open>core/worker\<close>) fetches them into its
  execution domain, asks its scheduler for one that can run, and lets its executor resume the coroutine on top of the task's stack
  of handles. A task may make nested domains with schedulers of their own (\<open>execution_domain_proxy\<close>, used by \<open>select\<close> and
  \<open>join_all\<close>); a turn of the worker then descends to the innermost one. Whoever has to wait takes an \<open>awake_token\<close>, suspends its
  execution and yields; \<open>awake()\<close> makes the execution, and the executions that own the domains around it, runnable, and wakes
  the worker's thread. On that stand the condition variable, the semaphore, the mutex, the channel and the join handle, and
  the daemons for timers (\<open>core/time\<close>) and input and output (\<open>core/os\<close>). Below are lock-free structures: spinlocks, the hash
  map, the ring queue and the pool of coroutine frames.

  \<^bold>\<open>Conventions\<close> (\<open>Asco_Prelude\<close>). A component with shared state is a function \<open>step :: action \<Rightarrow> state \<Rightarrow> state option\<close> that performs
  one atomic access of one thread or task (\<open>None\<close>: not enabled); \<open>run step as\<close> is an interleaving. An invariant that every step keeps
  makes an \<open>interpretation\<close> of the locale \<open>invariant_system\<close> (or of \<open>bounded_invariant_system\<close>, where counters of the code may not
  overflow, and \<open>exclusive_system\<close> for locks), and the properties follow from its \<open>run_inv\<close>. \<open>refining_system\<close> adds an
  abstract machine: an abstraction function and the abstract operations that a concrete step performs, with the law that the square commutes; its
  \<open>run_refines\<close> makes every interleaving a run of the abstract machine. Memory is sequentially consistent: the code's
  acquire and release orders are not distinguished. Panics and failed assertions are values (\<open>panic\<close>, \<open>outcome\<close>); the build
  with assertions (\<open>NDEBUG\<close> undefined) is modelled, and where the other one differs it is a parameter. Addresses, handles of
  coroutines, tokens and values are numbers or type variables; sizes and states that the code packs into words are words.

  \<^bold>\<open>Utilities.\<close> \<open>Murmur\<close> (\<open>util/murmur.h\<close>), \<open>Flags\<close> (\<open>util/flags.h\<close>), \<open>Storage\<close> (\<open>util/erased.h\<close>, \<open>safe_erased.h\<close>, \<open>type_id.h\<close>,
  \<open>core/mm/cstring\<close>), \<open>Buffer\<close> (\<open>io/buffer.h\<close>): functions of the code and what they compute; ownership of blocks and objects.

  \<^bold>\<open>Lock-free structures.\<close> \<open>Spinlock\<close>, \<open>Spinrwlock\<close>, \<open>Ring_Queue\<close> with \<open>Ring_Queue_Spec\<close>, \<open>Hash_Map\<close> with \<open>Hash_Map_Spec\<close> and \<open>Hash_Map_Conc\<close>,
  \<open>Coroutine_Pool\<close>. The
  locks and the queue are step functions over every atomic access; the queue is a bounded FIFO queue for one thread, and under
  interleavings no value is lost, copied or read before it is there. The hash map is a function of its table: any sequence
  of calls answers like a finite map, for sequences of up to \<open>2 ^ 60\<close> calls (the capacity doubles at a load of six tenths and has to stay
  below \<open>2 ^ 63\<close>); probing visits every bucket. \<open>Hash_Map_Conc\<close> runs the same operations as atomic steps of any number of threads: phases and
  reference counts of the buckets tell who may touch a pair. The pool is a heap of blocks with free lists of every thread.

  \<^bold>\<open>Tasks.\<close> \<open>Execution\<close> (\<open>core/task/execution_domain\<close>, \<open>executor\<close>, \<open>core/cancellation\<close>), \<open>Scheduler\<close> (\<open>cycle_scheduler\<close>,
  \<open>dynprio_scheduler\<close>, \<open>scheduler.h\<close>), \<open>Worker\<close> with \<open>Worker_Sched\<close>, \<open>Worker_Spec\<close>, \<open>Worker_Turn\<close> (\<open>core/worker\<close>, \<open>execution_domain_proxy.h\<close>):
  schedulers and domains, and a whole turn of a worker composed from them, with the store of nested domains. \<open>Worker_Cancel\<close> follows a
  cancellation through such a turn. \<open>worker_inv\<close> ties every
  scheduler to its domain and every domain to its owner; a turn keeps it and returns (\<open>nest_max_depth\<close> bounds the
  recursion through nested domains; it is the limit of the code, which panics beyond it, and \<open>can_nest\<close> keeps sessions below). \<open>Future\<close> (\<open>future.h\<close>, \<open>invoke.h\<close>), \<open>Combinators\<close> (\<open>task/select.h\<close>, \<open>join_all.h\<close>, \<open>fetch_result.h\<close>),
  \<open>Join_Handle\<close> (\<open>join_handle.h\<close>, with the token that a worker places when it fetches the task), \<open>Join_Set\<close> (\<open>task/join_set.h\<close>, a client of \<open>Channel\<close>), \<open>Task_Env\<close> (\<open>this_task\<close>, the metadata of
  tasks, the builder of the runtime and \<open>asco_main.cpp\<close>, \<open>time/sleep\<close>).

  \<^bold>\<open>Synchronisation.\<close> \<open>Condvar\<close>, \<open>Semaphore\<close>, \<open>Mutex\<close>, \<open>Rwlock\<close>, \<open>Channel\<close> (\<open>sync/*.h\<close>): exclusion, no lost wake-up, conservation of units and of
  values; each uses the one below it by its contract (the channel takes semaphores as counters and the ring
  queue as the bounded queue that it was shown to be). A semaphore is a refinement of a bounded counter (\<open>counter_step\<close>), and so are the two
  semaphores inside a channel.

  \<^bold>\<open>Runtime and daemons.\<close> \<open>Runtime\<close> (\<open>core/runtime\<close>: how tasks get to workers), \<open>Daemon\<close> (\<open>core/daemon\<close>), \<open>Timer\<close> (\<open>core/time\<close>, \<open>time/interval\<close>), \<open>Io_Adapter\<close> and \<open>Io_Linux\<close>
  (\<open>core/os/io.h\<close>, \<open>linux/io_uring.cpp\<close>), \<open>Iocp\<close> and \<open>Win_State\<close> (\<open>windows/iocp.cpp\<close>), \<open>Process\<close> (\<open>core/os/process\<close>, \<open>core/os/terminal\<close>),
  \<open>File\<close> (\<open>io/file\<close>). \<open>Test_Runner\<close> (\<open>test/test_main.cpp\<close>, \<open>test/bench.h\<close>): how tests are named, run and counted, and what a benchmark reports. What the kernel, the
  clock and the standard library answer are parts of the actions or parameters.

  \<^bold>\<open>What the theorems show.\<close> Theorems marked with a claim number are the properties; a witness after each applies it to a concrete
  run. Theorems that say \<open>\<exists>\<close> of a run show behaviour that the code should not have: two writers in \<open>spinrwlock\<close>, an overfilled
  ring queue, two pairs of a hash map under one key, lost wake-ups in \<open>rwlock\<close>, \<open>semaphore\<close> and \<open>runtime\<close>, races in the schedulers, identifiers of requests that collide, a
  completion that is seen before its value, and others. Where such a flaw limits a property, its hypothesis says so (one blocking
  writer, different identifiers, moves that do not throw).

  \<^bold>\<open>Fuel and bounds.\<close> Recursion is structural or has a measure. Loops that may spin for ever are steps of their thread, or \<open>partial_function
  (option)\<close>, where returning is part of the property. \<open>coroutine_queue_capacity\<close>, \<open>channel_capacity\<close> and \<open>nest_max_depth\<close> are those of the code.

  \<^bold>\<open>Not modelled.\<close> The compiler's part of coroutines (a coroutine is what its turns do), weak memory orders, the memory of the pool resources and of
  the allocator beyond the blocks they hand out, a rehash beside other operations (they wait for each other), the texts and
  colours that the tests print, \<open>yield\<close>, \<open>panic.h\<close> and \<open>util/tsc.h\<close>.

  \<open>select\<close> and \<open>join_all\<close> are modelled on a view of their nested domain (\<open>Combinators\<close>: turns and clean-ups of the branches) and not on the
  worker of \<open>Worker_Turn\<close>; \<open>join_set<void>\<close>, and the \<open>spawn_blocking\<close> of a \<open>join_set\<close>, which only forwards to the runtime, are left out.
\<close>

end
